(* ===== verification/Prelude.thy ===== *)
theory Prelude
  imports Main "HOL-Library.Word" "HOL-Library.Monad_Syntax"
begin

text \<open>
  Shared vocabulary of the development: the C integer types as words, the errors a routine of
  the kernel can return or run into, bounded access to byte buffers, and the facts about words,
  bits and lists that the component theories use.

  A C buffer is a \<open>u8 list\<close>. Reading or writing it outside its bounds is undefined behaviour in
  C, never a value: \<open>buf_get\<close>, \<open>buf_slice\<close> and \<open>buf_put\<close> return \<open>None\<close> there. The kernels this
  code runs in are built with wrapping signed arithmetic, so an \<open>int\<close> is a 32 bit word read
  with \<open>sint\<close> where its sign matters.
\<close>

unbundle bit_operations_syntax

section \<open>Machine types\<close>

type_synonym u8 = "8 word"
type_synonym u16 = "16 word"
type_synonym u32 = "32 word"
type_synonym u64 = "64 word"
type_synonym i32 = "32 word"

section \<open>Collections of facts\<close>

named_theorems width_simps \<open>values that fit in the low bits of a word\<close>
named_theorems buf_simps \<open>bounded buffer access\<close>

section \<open>Errors as values\<close>

text \<open>
  The error numbers the modelled code returns, and \<open>Oob\<close>: an access outside an object, which
  the C code does not detect.
\<close>

datatype kerr = EINVAL | ENOSPC | ENOMEM | EIO | ERANGE | ENOENT | EBUSY | E2BIG | Oob

type_synonym 'a res = "kerr + 'a"

definition bindE :: "'e + 'a \<Rightarrow> ('a \<Rightarrow> 'e + 'b) \<Rightarrow> 'e + 'b" where
  "bindE m f = (case m of Inl e \<Rightarrow> Inl e | Inr x \<Rightarrow> f x)"

definition guardE :: "bool \<Rightarrow> 'e \<Rightarrow> 'e + unit" where
  "guardE b e = (if b then Inr () else Inl e)"

definition of_opt :: "'e \<Rightarrow> 'a option \<Rightarrow> 'e + 'a" where
  "of_opt e x = (case x of None \<Rightarrow> Inl e | Some y \<Rightarrow> Inr y)"

lemma bindE_simps [simp]: "bindE (Inl e) f = Inl e" "bindE (Inr x) f = f x"
  by (simp_all add: bindE_def)

lemma bindE_eq_Inr: "bindE m f = Inr y \<longleftrightarrow> (\<exists>x. m = Inr x \<and> f x = Inr y)"
  by (cases m) auto

lemma bindE_eq_Inl: "bindE m f = Inl e \<longleftrightarrow> m = Inl e \<or> (\<exists>x. m = Inr x \<and> f x = Inl e)"
  by (cases m) auto

lemma guardE_simps [simp]: "guardE True e = Inr ()" "guardE False e = Inl e"
  "guardE b e = Inr u \<longleftrightarrow> b" "guardE b e = Inl e' \<longleftrightarrow> \<not> b \<and> e = e'"
  by (auto simp: guardE_def)

lemma of_opt_simps [simp]: "of_opt e None = Inl e" "of_opt e (Some x) = Inr x"
  "of_opt e m = Inr y \<longleftrightarrow> m = Some y" "of_opt e m = Inl e' \<longleftrightarrow> m = None \<and> e = e'"
  by (auto simp: of_opt_def split: option.splits)

section \<open>Byte buffers\<close>

definition buf_get :: "'a list \<Rightarrow> nat \<Rightarrow> 'a option" where
  "buf_get b i = (if i < length b then Some (b ! i) else None)"

definition buf_slice :: "'a list \<Rightarrow> nat \<Rightarrow> nat \<Rightarrow> 'a list option" where
  "buf_slice b i n = (if i + n \<le> length b then Some (take n (drop i b)) else None)"

text \<open>\<open>buf_put b i xs\<close>: copy \<open>xs\<close> over \<open>b\<close> from index \<open>i\<close> on (\<open>memcpy\<close>, or a run of stores).\<close>

definition buf_put :: "'a list \<Rightarrow> nat \<Rightarrow> 'a list \<Rightarrow> 'a list option" where
  "buf_put b i xs =
     (if i + length xs \<le> length b then Some (take i b @ xs @ drop (i + length xs) b) else None)"

lemma buf_get_Some [buf_simps]: "buf_get b i = Some x \<longleftrightarrow> i < length b \<and> x = b ! i"
  by (auto simp: buf_get_def)

lemma buf_get_None [buf_simps]: "buf_get b i = None \<longleftrightarrow> length b \<le> i"
  by (auto simp: buf_get_def)

lemma buf_get_append [buf_simps]:
  "buf_get (xs @ ys) i = (if i < length xs then buf_get xs i else buf_get ys (i - length xs))"
  by (auto simp: buf_get_def nth_append)

lemma buf_get_Cons [buf_simps]:
  "buf_get (x # xs) i = (case i of 0 \<Rightarrow> Some x | Suc j \<Rightarrow> buf_get xs j)"
  by (auto simp: buf_get_def split: nat.splits)

lemma buf_slice_length: "buf_slice b i n = Some xs \<Longrightarrow> length xs = n"
  by (auto simp: buf_slice_def split: if_splits)

lemma buf_slice_None [buf_simps]: "buf_slice b i n = None \<longleftrightarrow> length b < i + n"
  by (auto simp: buf_slice_def)

lemma buf_slice_mid: "i = length xs \<Longrightarrow> n = length ys \<Longrightarrow> buf_slice (xs @ ys @ zs) i n = Some ys"
  by (simp add: buf_slice_def)

lemma buf_put_length: "buf_put b i xs = Some b' \<Longrightarrow> length b' = length b"
  by (auto simp: buf_put_def split: if_splits)

lemma buf_put_None [buf_simps]: "buf_put b i xs = None \<longleftrightarrow> length b < i + length xs"
  by (auto simp: buf_put_def)

lemma buf_put_take: "buf_put b i xs = Some b' \<Longrightarrow> take i b' = take i b"
  by (auto simp: buf_put_def split: if_splits)

lemma buf_put_slice: "buf_put b i xs = Some b' \<Longrightarrow> buf_slice b' i (length xs) = Some xs"
  by (auto simp: buf_put_def buf_slice_def split: if_splits)

lemma buf_put_take_Suc:
  "buf_put b i xs = Some b' \<Longrightarrow> take (i + length xs) b' = take i b @ xs"
  by (auto simp: buf_put_def split: if_splits)

section \<open>Words and bits\<close>

lemma word_lt_take_bit [width_simps]:
  "n < LENGTH('a) \<Longrightarrow> (x::'a::len word) < 2 ^ n \<Longrightarrow> take_bit n x = x"
  by (simp add: mod_word_less take_bit_eq_mod)

lemma word_lt_bit:
  assumes "(x::'a::len word) < 2 ^ n" and "n < LENGTH('a)" and "bit x m"
  shows "m < n"
proof -
  have "bit (take_bit n x) m" using assms by (simp add: word_lt_take_bit)
  then show ?thesis by (simp add: bit_take_bit_iff)
qed

lemma word_lt_not_bit: "(x::'a::len word) < 2 ^ n \<Longrightarrow> n < LENGTH('a) \<Longrightarrow> n \<le> m \<Longrightarrow> \<not> bit x m"
  using word_lt_bit [of x n m] by auto

lemma byte_bit_lt: "bit (x::u8) n \<Longrightarrow> n < 8"
  using bit_imp_le_length [of x n] by simp

lemma byte_eqI: "(\<And>n. n < 8 \<Longrightarrow> bit (x::u8) n = bit y n) \<Longrightarrow> x = y"
  by (rule bit_word_eqI) simp

text \<open>Masks as \<open>take_bit\<close>, single-bit tests, and values that fit in \<open>n\<close> bits.\<close>

lemma and_masks:
  "(x::'a::len word) AND 1 = take_bit 1 x" "x AND 3 = take_bit 2 x" "x AND 7 = take_bit 3 x"
  "x AND 15 = take_bit 4 x" "x AND 31 = take_bit 5 x" "x AND 63 = take_bit 6 x"
  "x AND 127 = take_bit 7 x" "x AND 255 = take_bit 8 x"
  by (simp_all add: take_bit_eq_mask mask_eq_exp_minus_1)

lemma and_bit_nonzero:
  "(x::u8) AND 4 \<noteq> 0 \<longleftrightarrow> bit x 2" "x AND 8 \<noteq> 0 \<longleftrightarrow> bit x 3" "x AND 16 \<noteq> 0 \<longleftrightarrow> bit x 4" "x AND 128 \<noteq> 0 \<longleftrightarrow> bit x 7"
  using and_exp_eq_0_iff_not_bit [of x 2] and_exp_eq_0_iff_not_bit [of x 3]
    and_exp_eq_0_iff_not_bit [of x 4] and_exp_eq_0_iff_not_bit [of x 7] by simp_all

lemma bit_consts:
  "bit (4::int) n \<longleftrightarrow> n = 2" "bit (8::int) n \<longleftrightarrow> n = 3" "bit (16::int) n \<longleftrightarrow> n = 4"
  "bit (128::int) n \<longleftrightarrow> n = 7"
  using bit_exp_iff [of 2 n, where 'a = int] bit_exp_iff [of 3 n, where 'a = int]
   bit_exp_iff [of 4 n, where 'a = int] bit_exp_iff [of 7 n, where 'a = int] by auto

definition fits :: "nat \<Rightarrow> 'a::len word \<Rightarrow> bool" where
  "fits n x \<longleftrightarrow> (\<forall>m. bit x m \<longrightarrow> m < n)"

lemma fits_bit: "fits n x \<Longrightarrow> bit x m \<Longrightarrow> m < n"
  by (simp add: fits_def)

lemma fitsI: "(x::'a::len word) < 2 ^ n \<Longrightarrow> n < LENGTH('a) \<Longrightarrow> fits n x"
  unfolding fits_def using word_lt_bit by blast

lemma fits_numeral:
  "(x::u32) < 4 \<Longrightarrow> fits 2 x" "x < 8 \<Longrightarrow> fits 3 x" "x < 16 \<Longrightarrow> fits 4 x" "x < 32 \<Longrightarrow> fits 5 x"
  "(y::u8) < 128 \<Longrightarrow> fits 7 y" "y < 16 \<Longrightarrow> fits 4 y" "x < 256 \<Longrightarrow> fits 8 x"
  using fitsI [of x 2] fitsI [of x 3] fitsI [of x 4] fitsI [of x 5] fitsI [of y 7] fitsI [of y 4] fitsI [of x 8] by simp_all

lemmas field_simps8 = and_masks and_bit_nonzero bit_simps bit_consts

lemma foldl_plus_sum_list: "foldl (+) (a::'a::comm_monoid_add) xs = a + sum_list xs"
  by (induction xs arbitrary: a) (simp_all add: add.assoc)

section \<open>Signed reading of words and integer division\<close>

lemma sint_diff_in_range:
  fixes a b :: "'a::len word"
  assumes "- (2 ^ (LENGTH('a) - 1)) \<le> sint a - sint b" "sint a - sint b < 2 ^ (LENGTH('a) - 1)"
  shows "sint (a - b) = sint a - sint b"
proof -
  have "sint (a - b) = signed_take_bit (LENGTH('a) - 1) (sint a - sint b)"
    by (simp add: sint_word_ariths)
  then show ?thesis using assms by (simp add: signed_take_bit_int_eq_self)
qed

lemma sint_add_in_range:
  fixes a b :: "'a::len word"
  assumes "- (2 ^ (LENGTH('a) - 1)) \<le> sint a + sint b" "sint a + sint b < 2 ^ (LENGTH('a) - 1)"
  shows "sint (a + b) = sint a + sint b"
proof -
  have "sint (a + b) = signed_take_bit (LENGTH('a) - 1) (sint a + sint b)"
    by (simp add: sint_word_ariths)
  then show ?thesis using assms by (simp add: signed_take_bit_int_eq_self)
qed

lemma sint_nonneg_uint:
  fixes a :: "'a::len word"
  assumes "0 \<le> sint a"
  shows "uint a = sint a"
proof -
  have "sint a < 2 ^ LENGTH('a)"
    using sint_lt [of a] by (rule less_trans) (simp add: power_strict_increasing_iff)
  then show ?thesis using assms by (simp add: uint_sint take_bit_int_eq_self)
qed

lemma uint_sint_small:
  fixes a :: "'a::len word"
  assumes "uint a < 2 ^ (LENGTH('a) - 1)"
  shows "sint a = uint a"
  using assms by (simp add: sint_uint signed_take_bit_int_eq_self order_trans [of _ 0])

lemma int_div_ge_iff: "0 < d \<Longrightarrow> m \<le> s div (d::int) \<longleftrightarrow> m * d \<le> s"
proof
  assume d: "0 < d" and "m \<le> s div d"
  then have "m * d \<le> s div d * d" by (simp add: mult_right_mono)
  also have "\<dots> \<le> s" using d by (metis add_le_same_cancel1 div_mult_mod_eq le_add_same_cancel1 pos_mod_sign)
  finally show "m * d \<le> s" .
next
  assume d: "0 < d" and "m * d \<le> s"
  then have "m * d div d \<le> s div d" by (intro zdiv_mono1)
  then show "m \<le> s div d" using d by simp
qed

lemma int_div_le_iff: "0 < d \<Longrightarrow> s div d \<le> (m::int) \<longleftrightarrow> s < (m + 1) * d"
  using int_div_ge_iff [of d "m + 1" s] by linarith

lemma div_le_self_int: "0 \<le> a \<Longrightarrow> 0 < b \<Longrightarrow> a div b \<le> (a::int)"
  by (metis div_by_1 int_div_less_self less_le_not_le nle_le nonneg1_imp_zdiv_pos_iff order.trans)

section \<open>Lists\<close>

lemma sum_list_update_word:
  fixes xs :: "'a::ab_group_add list"
  assumes "i < length xs"
  shows "sum_list (xs[i := x]) = sum_list xs - xs ! i + x"
  using assms
proof (induction xs arbitrary: i)
  case Nil
  then show ?case by simp
next
  case (Cons y ys)
  then show ?case by (cases i) (simp_all add: algebra_simps)
qed

section \<open>Linked lists\<close>

text \<open>\<open>list_del\<close>: taking an entry off a list it is not on is an error.\<close>

definition list_del :: "nat \<Rightarrow> nat list \<Rightarrow> nat list option" where
  "list_del i q = (if i \<in> set q then Some (remove1 i q) else None)"

end
