(* ===== verification/Rect.thy ===== *)
theory Rect
  imports Prelude
begin

text \<open>
  Rectangles (\<open>drm_rect.c\<close>, \<open>drm_rect.h\<close>): intersection, scaled clipping, scaling factors and
  rotation. Coordinates are C \<open>int\<close>s with wrapping arithmetic; source rectangles are in 16.16
  fixed point where the code says so.
\<close>

section \<open>The rectangle and its accessors\<close>

record drm_rect =
  x1 :: i32
  y1 :: i32
  x2 :: i32
  y2 :: i32

text \<open>Signed \<open>max\<close> and \<open>min\<close> of the kernel.\<close>

definition smax :: "i32 \<Rightarrow> i32 \<Rightarrow> i32" where
  "smax a b = (if b <s a then a else b)"

definition smin :: "i32 \<Rightarrow> i32 \<Rightarrow> i32" where
  "smin a b = (if a <s b then a else b)"

definition drm_rect_init :: "i32 \<Rightarrow> i32 \<Rightarrow> i32 \<Rightarrow> i32 \<Rightarrow> drm_rect" where
  "drm_rect_init x y w h = \<lparr>x1 = x, y1 = y, x2 = x + w, y2 = y + h\<rparr>"

definition drm_rect_width :: "drm_rect \<Rightarrow> i32" where
  "drm_rect_width r = x2 r - x1 r"

definition drm_rect_height :: "drm_rect \<Rightarrow> i32" where
  "drm_rect_height r = y2 r - y1 r"

definition drm_rect_visible :: "drm_rect \<Rightarrow> bool" where
  "drm_rect_visible r \<longleftrightarrow> 0 <s drm_rect_width r \<and> 0 <s drm_rect_height r"

definition drm_rect_equals :: "drm_rect \<Rightarrow> drm_rect \<Rightarrow> bool" where
  "drm_rect_equals r s \<longleftrightarrow> x1 r = x1 s \<and> x2 r = x2 s \<and> y1 r = y1 s \<and> y2 r = y2 s"

definition drm_rect_adjust_size :: "drm_rect \<Rightarrow> i32 \<Rightarrow> i32 \<Rightarrow> drm_rect" where
  "drm_rect_adjust_size r dw dh =
     r\<lparr>x1 := x1 r - signed_drop_bit 1 dw, y1 := y1 r - signed_drop_bit 1 dh,
       x2 := x2 r + signed_drop_bit 1 (dw + 1), y2 := y2 r + signed_drop_bit 1 (dh + 1)\<rparr>"

definition drm_rect_translate :: "drm_rect \<Rightarrow> i32 \<Rightarrow> i32 \<Rightarrow> drm_rect" where
  "drm_rect_translate r dx dy =
     r\<lparr>x1 := x1 r + dx, y1 := y1 r + dy, x2 := x2 r + dx, y2 := y2 r + dy\<rparr>"

definition drm_rect_translate_to :: "drm_rect \<Rightarrow> i32 \<Rightarrow> i32 \<Rightarrow> drm_rect" where
  "drm_rect_translate_to r x y = drm_rect_translate r (x - x1 r) (y - y1 r)"

definition drm_rect_fp_to_int :: "drm_rect \<Rightarrow> drm_rect" where
  "drm_rect_fp_to_int src =
     drm_rect_init (signed_drop_bit 16 (x1 src)) (signed_drop_bit 16 (y1 src))
       (signed_drop_bit 16 (drm_rect_width src)) (signed_drop_bit 16 (drm_rect_height src))"

section \<open>Intersection\<close>

text \<open>Returns the overwritten \<open>r1\<close> and the visibility verdict.\<close>

definition drm_rect_intersect :: "drm_rect \<Rightarrow> drm_rect \<Rightarrow> drm_rect \<times> bool" where
  "drm_rect_intersect r1 r2 =
     (let r = \<lparr>x1 = smax (x1 r1) (x1 r2), y1 = smax (y1 r1) (y1 r2),
               x2 = smin (x2 r1) (x2 r2), y2 = smin (y2 r1) (y2 r2)\<rparr>
      in (r, drm_rect_visible r))"

section \<open>Scaled clipping\<close>

text \<open>
  \<open>DIV_ROUND_UP_ULL(t, d)\<close> and \<open>DIV_ROUND_DOWN_ULL(t, d)\<close> divide as \<open>unsigned long long\<close>, the
  \<open>int\<close> divisor being sign-extended first.
\<close>

definition div_round_up_ull :: "u64 \<Rightarrow> i32 \<Rightarrow> u64" where
  "div_round_up_ull t d = (t + scast d - 1) div scast d"

definition div_round_down_ull :: "u64 \<Rightarrow> i32 \<Rightarrow> u64" where
  "div_round_down_ull t d = t div scast d"

text \<open>Returns the new size and the updated \<open>*clip\<close>.\<close>

definition clip_scaled :: "i32 \<Rightarrow> i32 \<Rightarrow> i32 \<Rightarrow> u32 \<times> i32" where
  "clip_scaled src dst clip =
     (if dst = 0 then (0, clip)
      else let clip = smin clip dst;
               tmp = (ucast src :: u64) * ucast (dst - clip)
           in (if src <s push_bit 16 dst then ucast (div_round_up_ull tmp dst)
               else ucast (div_round_down_ull tmp dst), clip))"

text \<open>The four steps of \<open>drm_rect_clip_scaled\<close>, one per edge, on the pair of rectangles.\<close>

definition clip_left :: "drm_rect \<Rightarrow> drm_rect \<times> drm_rect \<Rightarrow> drm_rect \<times> drm_rect" where
  "clip_left clip = (\<lambda>(src, dst).
     let diff = x1 clip - x1 dst
     in if 0 <s diff
        then let (new_src_w, diff) = clip_scaled (drm_rect_width src) (drm_rect_width dst) diff
             in (src\<lparr>x1 := x2 src - new_src_w\<rparr>, dst\<lparr>x1 := x1 dst + diff\<rparr>)
        else (src, dst))"

definition clip_top :: "drm_rect \<Rightarrow> drm_rect \<times> drm_rect \<Rightarrow> drm_rect \<times> drm_rect" where
  "clip_top clip = (\<lambda>(src, dst).
     let diff = y1 clip - y1 dst
     in if 0 <s diff
        then let (new_src_h, diff) = clip_scaled (drm_rect_height src) (drm_rect_height dst) diff
             in (src\<lparr>y1 := y2 src - new_src_h\<rparr>, dst\<lparr>y1 := y1 dst + diff\<rparr>)
        else (src, dst))"

definition clip_right :: "drm_rect \<Rightarrow> drm_rect \<times> drm_rect \<Rightarrow> drm_rect \<times> drm_rect" where
  "clip_right clip = (\<lambda>(src, dst).
     let diff = x2 dst - x2 clip
     in if 0 <s diff
        then let (new_src_w, diff) = clip_scaled (drm_rect_width src) (drm_rect_width dst) diff
             in (src\<lparr>x2 := x1 src + new_src_w\<rparr>, dst\<lparr>x2 := x2 dst - diff\<rparr>)
        else (src, dst))"

definition clip_bottom :: "drm_rect \<Rightarrow> drm_rect \<times> drm_rect \<Rightarrow> drm_rect \<times> drm_rect" where
  "clip_bottom clip = (\<lambda>(src, dst).
     let diff = y2 dst - y2 clip
     in if 0 <s diff
        then let (new_src_h, diff) = clip_scaled (drm_rect_height src) (drm_rect_height dst) diff
             in (src\<lparr>y2 := y1 src + new_src_h\<rparr>, dst\<lparr>y2 := y2 dst - diff\<rparr>)
        else (src, dst))"

definition drm_rect_clip_scaled ::
  "drm_rect \<Rightarrow> drm_rect \<Rightarrow> drm_rect \<Rightarrow> drm_rect \<times> drm_rect \<times> bool" where
  "drm_rect_clip_scaled src dst clip =
     (let (src, dst) = clip_bottom clip (clip_right clip (clip_top clip (clip_left clip (src, dst))))
      in (src, dst, drm_rect_visible dst))"

section \<open>Scaling factors\<close>

text \<open>The error codes as the negative \<open>int\<close>s the routines return.\<close>

definition neg_EINVAL :: i32 where "neg_EINVAL = - 22"
definition neg_ERANGE :: i32 where "neg_ERANGE = - 34"

text \<open>C division of \<open>int\<close>s, truncating towards zero.\<close>

definition sdiv32 :: "i32 \<Rightarrow> i32 \<Rightarrow> i32" where
  "sdiv32 a b = word_of_int (sgn (sint a) * sgn (sint b) * (\<bar>sint a\<bar> div \<bar>sint b\<bar>))"

definition drm_rect_downscale :: "drm_rect \<Rightarrow> i32 \<Rightarrow> i32 \<Rightarrow> drm_rect option" where
  "drm_rect_downscale r horz vert =
     (if horz = 0 \<or> vert = 0 then None
      else Some (r\<lparr>x1 := sdiv32 (x1 r) horz, y1 := sdiv32 (y1 r) vert,
                   x2 := sdiv32 (x2 r) horz, y2 := sdiv32 (y2 r) vert\<rparr>))"

definition drm_calc_scale :: "i32 \<Rightarrow> i32 \<Rightarrow> i32" where
  "drm_calc_scale src dst =
     (if src <s 0 \<or> dst <s 0 then neg_EINVAL
      else if dst = 0 then 0
      else if push_bit 16 dst <s src then sdiv32 (src + dst - 1) dst
      else sdiv32 src dst)"

definition drm_rect_calc_hscale :: "drm_rect \<Rightarrow> drm_rect \<Rightarrow> i32 \<Rightarrow> i32 \<Rightarrow> i32" where
  "drm_rect_calc_hscale src dst min_hscale max_hscale =
     (let src_w = drm_rect_width src; dst_w = drm_rect_width dst;
          hscale = drm_calc_scale src_w dst_w
      in if hscale <s 0 \<or> dst_w = 0 then hscale
         else if hscale <s min_hscale \<or> max_hscale <s hscale then neg_ERANGE
         else hscale)"

definition drm_rect_calc_vscale :: "drm_rect \<Rightarrow> drm_rect \<Rightarrow> i32 \<Rightarrow> i32 \<Rightarrow> i32" where
  "drm_rect_calc_vscale src dst min_vscale max_vscale =
     (let src_h = drm_rect_height src; dst_h = drm_rect_height dst;
          vscale = drm_calc_scale src_h dst_h
      in if vscale <s 0 \<or> dst_h = 0 then vscale
         else if vscale <s min_vscale \<or> max_vscale <s vscale then neg_ERANGE
         else vscale)"

section \<open>Rotation\<close>

definition DRM_MODE_ROTATE_0 :: u32 where "DRM_MODE_ROTATE_0 = 1"
definition DRM_MODE_ROTATE_90 :: u32 where "DRM_MODE_ROTATE_90 = 2"
definition DRM_MODE_ROTATE_180 :: u32 where "DRM_MODE_ROTATE_180 = 4"
definition DRM_MODE_ROTATE_270 :: u32 where "DRM_MODE_ROTATE_270 = 8"
definition DRM_MODE_ROTATE_MASK :: u32 where "DRM_MODE_ROTATE_MASK = 15"
definition DRM_MODE_REFLECT_X :: u32 where "DRM_MODE_REFLECT_X = 16"
definition DRM_MODE_REFLECT_Y :: u32 where "DRM_MODE_REFLECT_Y = 32"

lemmas rotation_consts = DRM_MODE_ROTATE_0_def DRM_MODE_ROTATE_90_def DRM_MODE_ROTATE_180_def
  DRM_MODE_ROTATE_270_def DRM_MODE_ROTATE_MASK_def DRM_MODE_REFLECT_X_def DRM_MODE_REFLECT_Y_def

text \<open>The reflection part, the same block in both directions.\<close>

definition rect_reflect :: "drm_rect \<Rightarrow> i32 \<Rightarrow> i32 \<Rightarrow> u32 \<Rightarrow> drm_rect" where
  "rect_reflect r width height rotation =
     (if rotation AND (DRM_MODE_REFLECT_X OR DRM_MODE_REFLECT_Y) \<noteq> 0
      then let tmp = r;
               r = (if rotation AND DRM_MODE_REFLECT_X \<noteq> 0
                    then r\<lparr>x1 := width - x2 tmp, x2 := width - x1 tmp\<rparr> else r)
           in (if rotation AND DRM_MODE_REFLECT_Y \<noteq> 0
               then r\<lparr>y1 := height - y2 tmp, y2 := height - y1 tmp\<rparr> else r)
      else r)"

definition drm_rect_rotate :: "drm_rect \<Rightarrow> i32 \<Rightarrow> i32 \<Rightarrow> u32 \<Rightarrow> drm_rect" where
  "drm_rect_rotate r width height rotation =
     (let r = rect_reflect r width height rotation;
          rot = rotation AND DRM_MODE_ROTATE_MASK; tmp = r
      in if rot = DRM_MODE_ROTATE_0 then r
         else if rot = DRM_MODE_ROTATE_90 then
           r\<lparr>x1 := y1 tmp, x2 := y2 tmp, y1 := width - x2 tmp, y2 := width - x1 tmp\<rparr>
         else if rot = DRM_MODE_ROTATE_180 then
           r\<lparr>x1 := width - x2 tmp, x2 := width - x1 tmp,
             y1 := height - y2 tmp, y2 := height - y1 tmp\<rparr>
         else if rot = DRM_MODE_ROTATE_270 then
           r\<lparr>x1 := height - y2 tmp, x2 := height - y1 tmp, y1 := x1 tmp, y2 := x2 tmp\<rparr>
         else r)"

definition drm_rect_rotate_inv :: "drm_rect \<Rightarrow> i32 \<Rightarrow> i32 \<Rightarrow> u32 \<Rightarrow> drm_rect" where
  "drm_rect_rotate_inv r width height rotation =
     (let rot = rotation AND DRM_MODE_ROTATE_MASK; tmp = r;
          r = (if rot = DRM_MODE_ROTATE_0 then r
               else if rot = DRM_MODE_ROTATE_90 then
                 r\<lparr>x1 := width - y2 tmp, x2 := width - y1 tmp, y1 := x1 tmp, y2 := x2 tmp\<rparr>
               else if rot = DRM_MODE_ROTATE_180 then
                 r\<lparr>x1 := width - x2 tmp, x2 := width - x1 tmp,
                   y1 := height - y2 tmp, y2 := height - y1 tmp\<rparr>
               else if rot = DRM_MODE_ROTATE_270 then
                 r\<lparr>x1 := y1 tmp, x2 := y2 tmp, y1 := height - x2 tmp, y2 := height - x1 tmp\<rparr>
               else r)
      in rect_reflect r width height rotation)"

section \<open>The pixels of a rectangle\<close>

text \<open>The meaning of a rectangle: the half-open grid of points it covers.\<close>

definition pixels :: "drm_rect \<Rightarrow> (int \<times> int) set" where
  "pixels r = {sint (x1 r)..<sint (x2 r)} \<times> {sint (y1 r)..<sint (y2 r)}"

definition rect_within :: "int \<Rightarrow> drm_rect \<Rightarrow> bool" where
  "rect_within b r \<longleftrightarrow> \<bar>sint (x1 r)\<bar> < b \<and> \<bar>sint (x2 r)\<bar> < b \<and> \<bar>sint (y1 r)\<bar> < b \<and> \<bar>sint (y2 r)\<bar> < b"

lemma sint_smax: "sint (smax a b) = max (sint a) (sint b)"
  by (auto simp: smax_def word_sless_alt)

lemma sint_smin: "sint (smin a b) = min (sint a) (sint b)"
  by (auto simp: smin_def word_sless_alt)

lemma sint_width: "rect_within (2 ^ 30) r \<Longrightarrow> sint (drm_rect_width r) = sint (x2 r) - sint (x1 r)"
  unfolding drm_rect_width_def rect_within_def by (rule sint_diff_in_range) auto

lemma sint_height: "rect_within (2 ^ 30) r \<Longrightarrow> sint (drm_rect_height r) = sint (y2 r) - sint (y1 r)"
  unfolding drm_rect_height_def rect_within_def by (rule sint_diff_in_range) auto

lemma visible_iff: "rect_within (2 ^ 30) r \<Longrightarrow>
  drm_rect_visible r \<longleftrightarrow> sint (x1 r) < sint (x2 r) \<and> sint (y1 r) < sint (y2 r)"
  by (simp add: drm_rect_visible_def word_sless_alt sint_width sint_height)

text \<open>
  Intersecting two rectangles leaves exactly the pixels they share, and the returned flag
  says whether any is left. Coordinates are below 2^30 in magnitude, so that no width wraps.
\<close>

theorem rect_intersect_pixels:
  assumes "rect_within (2 ^ 30) a" and "rect_within (2 ^ 30) b"
  shows "pixels (fst (drm_rect_intersect a b)) = pixels a \<inter> pixels b
    \<and> (snd (drm_rect_intersect a b) \<longleftrightarrow> pixels a \<inter> pixels b \<noteq> {})"
proof -
  let ?r = "fst (drm_rect_intersect a b)"
  have p: "pixels ?r = pixels a \<inter> pixels b"
    by (auto simp: pixels_def drm_rect_intersect_def Let_def sint_smax sint_smin)
  have "rect_within (2 ^ 30) ?r"
    using assms by (auto simp: rect_within_def drm_rect_intersect_def Let_def sint_smax sint_smin max_def min_def)
  then have "drm_rect_visible ?r \<longleftrightarrow> pixels ?r \<noteq> {}"
    by (auto simp: visible_iff pixels_def)
  then show ?thesis using p by (simp add: drm_rect_intersect_def Let_def)
qed


theorem rect_intersect_pixels_witness:
  "pixels (fst (drm_rect_intersect \<lparr>x1 = 0, y1 = 0, x2 = 8, y2 = 8\<rparr> \<lparr>x1 = 4, y1 = 2, x2 = 9, y2 = 6\<rparr>))
    = pixels \<lparr>x1 = 0, y1 = 0, x2 = 8, y2 = 8\<rparr> \<inter> pixels \<lparr>x1 = 4, y1 = 2, x2 = 9, y2 = 6\<rparr>"
  using rect_intersect_pixels [of "\<lparr>x1 = 0, y1 = 0, x2 = 8, y2 = 8\<rparr>" "\<lparr>x1 = 4, y1 = 2, x2 = 9, y2 = 6\<rparr>"]
  by (simp add: rect_within_def)

section \<open>Scaled clipping, one axis at a time\<close>

text \<open>
  The exact integer the clipped source length must be: scaled by what is left of the destination,
  rounded towards the scale 1.0.
\<close>

definition scaled_len :: "int \<Rightarrow> int \<Rightarrow> int \<Rightarrow> int" where
  "scaled_len s d c = (if s < d * 65536 then (s * (d - c) + d - 1) div d else s * (d - c) div d)"

lemma scaled_len_bounds:
  assumes "0 < d" "0 \<le> c" "c \<le> d" "0 \<le> s"
  shows "0 \<le> scaled_len s d c" "scaled_len s d c \<le> s"
proof -
  have p: "0 \<le> s * (d - c)" "s * (d - c) \<le> s * d" using assms by (auto simp: mult_left_mono)
  have "0 \<le> s * (d - c) + d - 1" using assms(1) p(1) by linarith
  then show "0 \<le> scaled_len s d c" using assms(1) p(1) by (simp add: scaled_len_def pos_imp_zdiv_nonneg_iff)
  have "(s * d + (d - 1)) div d = s" using assms(1) by (simp add: div_pos_pos_trivial)
  moreover have "(s * (d - c) + d - 1) div d \<le> (s * d + (d - 1)) div d"
    using p assms(1) by (intro zdiv_mono1) auto
  moreover have "s * (d - c) div d \<le> (s * d + (d - 1)) div d"
    using p assms(1) by (intro zdiv_mono1) auto
  ultimately show "scaled_len s d c \<le> s" by (simp add: scaled_len_def)
qed

lemma scaled_len_upscale:
  assumes "0 < d" "0 \<le> c" "c \<le> d" "0 \<le> s" "s \<le> d * 65536"
  shows "scaled_len s d c \<le> (d - c) * 65536"
proof -
  have "s * (d - c) \<le> d * 65536 * (d - c)" using assms by (intro mult_right_mono) auto
  then have "(s * (d - c) + (d - 1)) div d \<le> (d * ((d - c) * 65536) + (d - 1)) div d"
    using assms(1) by (intro zdiv_mono1) (auto simp: algebra_simps)
  also have "\<dots> = (d - c) * 65536" using assms(1) by (simp add: div_pos_pos_trivial)
  finally have up: "(s * (d - c) + d - 1) div d \<le> (d - c) * 65536" by (simp add: algebra_simps)
  have "s * (d - c) div d \<le> (s * (d - c) + d - 1) div d" using assms(1) by (intro zdiv_mono1) auto
  with up show ?thesis by (auto simp: scaled_len_def)
qed

lemma scaled_len_downscale:
  assumes "0 < d" "0 \<le> c" "c \<le> d" "0 \<le> s" "d * 65536 \<le> s"
  shows "(d - c) * 65536 \<le> scaled_len s d c"
proof -
  have "d * 65536 * (d - c) \<le> s * (d - c)" using assms by (intro mult_right_mono) auto
  then have "(d * ((d - c) * 65536)) div d \<le> s * (d - c) div d"
    using assms(1) by (intro zdiv_mono1) (auto simp: algebra_simps)
  then show ?thesis using assms(1,5) by (simp add: scaled_len_def)
qed

text \<open>
  What the clipped source length has to be, without division: for a source of length \<open>s\<close> shown on
  \<open>d\<close> pixels of which \<open>a\<close> are left, \<open>n\<close> is \<open>s * a / d\<close> rounded up when the source is enlarged (its
  16.16 length is below \<open>d\<close> whole pixels) and rounded down otherwise, so always towards the scale
  1.0.
\<close>

definition in_proportion :: "int \<Rightarrow> int \<Rightarrow> int \<Rightarrow> int \<Rightarrow> bool" where
  "in_proportion s d a n \<longleftrightarrow>
     (if s < d * 65536 then s * a \<le> n * d \<and> n * d < s * a + d
      else n * d \<le> s * a \<and> s * a < n * d + d)"

lemma in_proportion_whole: "0 < d \<Longrightarrow> in_proportion s d d s"
  by (simp add: in_proportion_def)

lemma scaled_len_in_proportion:
  assumes "0 < d"
  shows "in_proportion s d (d - c) (scaled_len s d c)"
proof -
  have down: "(x div d) * d \<le> x \<and> x < (x div d) * d + d" for x :: int
    using assms div_mult_mod_eq [of x d] pos_mod_bound [OF assms, of x] pos_mod_sign [OF assms, of x]
    by linarith
  show ?thesis
    using down [of "s * (d - c)"] down [of "s * (d - c) + d - 1"]
    by (simp add: in_proportion_def scaled_len_def)
qed

lemma uint_scast_nonneg: "0 \<le> sint (d::i32) \<Longrightarrow> uint (scast d :: u64) = sint d"
proof -
  assume "0 \<le> sint d"
  moreover have "sint d < 2 ^ 64" using sint_lt [of d] by simp
  ultimately show ?thesis
    unfolding scast_eq uint_word_of_int by (simp add: mod_pos_pos_trivial)
qed

lemma sint_push_bit_16:
  assumes "0 \<le> sint (d::i32)" "sint d < 2 ^ 15"
  shows "sint (push_bit 16 d) = sint d * 65536"
proof -
  have u: "uint d = sint d" using assms by (simp add: sint_nonneg_uint)
  have "uint (push_bit 16 d) = take_bit 32 (uint d * 65536)"
    by (simp add: push_bit_eq_mult uint_word_ariths take_bit_eq_mod)
  also have "\<dots> = sint d * 65536" using assms u by (simp add: take_bit_int_eq_self)
  finally show ?thesis using assms by (subst uint_sint_small) auto
qed

lemma clip_scaled_int:
  assumes s: "0 \<le> sint src" and d: "0 < sint dst" "sint dst < 2 ^ 15" and c: "0 \<le> sint clip"
  obtains n k where "clip_scaled src dst clip = (n, k)" "sint k = min (sint clip) (sint dst)"
    "sint n = scaled_len (sint src) (sint dst) (sint k)"
proof -
  define k where "k = smin clip dst"
  define tmp where "tmp = (ucast src :: u64) * ucast (dst - k)"
  have k: "sint k = min (sint clip) (sint dst)" by (simp add: k_def sint_smin)
  have kb: "0 \<le> sint k" "sint k \<le> sint dst" using k c d by auto
  have diff: "sint (dst - k) = sint dst - sint k"
    using d kb by (intro sint_diff_in_range) auto
  have sb: "sint src < 2 ^ 31" using sint_lt [of src] by simp
  have us: "uint (ucast src :: u64) = sint src"
    using s by (simp add: sint_nonneg_uint unsigned_ucast_eq take_bit_int_eq_self sb [THEN less_trans])
  have ud: "uint (ucast (dst - k) :: u64) = sint dst - sint k"
    using diff kb d by (simp add: sint_nonneg_uint unsigned_ucast_eq take_bit_int_eq_self)
  have pb: "sint src * (sint dst - sint k) \<le> 2 ^ 31 * 2 ^ 15"
    using sb s kb d by (intro mult_mono) auto
  have p0: "0 \<le> sint src * (sint dst - sint k)" using s kb by simp
  have ut: "uint tmp = sint src * (sint dst - sint k)"
    using pb p0 by (simp add: tmp_def uint_word_ariths us ud)
  have up: "uint (div_round_up_ull tmp dst) = (sint src * (sint dst - sint k) + sint dst - 1) div sint dst"
  proof -
    have "uint (tmp + scast dst - 1) = sint src * (sint dst - sint k) + sint dst - 1"
      using ut pb p0 d by (simp add: uint_word_ariths uint_scast_nonneg mod_simps)
    then show ?thesis using d by (simp add: div_round_up_ull_def uint_div uint_scast_nonneg)
  qed
  have dn: "uint (div_round_down_ull tmp dst) = sint src * (sint dst - sint k) div sint dst"
    using ut d by (simp add: div_round_down_ull_def uint_div uint_scast_nonneg)
  define n where "n = (if src <s push_bit 16 dst then ucast (div_round_up_ull tmp dst)
               else ucast (div_round_down_ull tmp dst) :: u32)"
  have "uint n = take_bit 32 (scaled_len (sint src) (sint dst) (sint k))"
    using d by (simp add: n_def scaled_len_def word_sless_alt sint_push_bit_16 unsigned_ucast_eq up dn)
  moreover have "0 \<le> scaled_len (sint src) (sint dst) (sint k)" "scaled_len (sint src) (sint dst) (sint k) \<le> sint src"
    using scaled_len_bounds [of "sint dst" "sint k" "sint src"] kb s d by auto
  ultimately have "uint n = scaled_len (sint src) (sint dst) (sint k)"
    using sb by (simp add: take_bit_int_eq_self)
  moreover from this have "sint n = uint n"
    using \<open>scaled_len _ _ _ \<le> sint src\<close> sb by (intro uint_sint_small) auto
  moreover have "dst \<noteq> 0" using d by auto
  ultimately show ?thesis
    using k by (intro that [of n k]) (simp_all add: clip_scaled_def Let_def n_def tmp_def k_def)
qed


definition axis_lo :: "i32 \<Rightarrow> i32 \<times> i32 \<Rightarrow> i32 \<times> i32 \<Rightarrow> (i32 \<times> i32) \<times> i32 \<times> i32" where
  "axis_lo c = (\<lambda>(s1, s2) (d1, d2).
     let diff = c - d1
     in if 0 <s diff then let (n, diff) = clip_scaled (s2 - s1) (d2 - d1) diff
                          in ((s2 - n, s2), (d1 + diff, d2))
        else ((s1, s2), (d1, d2)))"

definition axis_hi :: "i32 \<Rightarrow> i32 \<times> i32 \<Rightarrow> i32 \<times> i32 \<Rightarrow> (i32 \<times> i32) \<times> i32 \<times> i32" where
  "axis_hi c = (\<lambda>(s1, s2) (d1, d2).
     let diff = d2 - c
     in if 0 <s diff then let (n, diff) = clip_scaled (s2 - s1) (d2 - d1) diff
                          in ((s1, s1 + n), (d1, d2 - diff))
        else ((s1, s2), (d1, d2)))"

definition axis_ok :: "i32 \<times> i32 \<Rightarrow> i32 \<times> i32 \<Rightarrow> bool" where
  "axis_ok s d \<longleftrightarrow> \<bar>sint (fst s)\<bar> < 2 ^ 30 \<and> \<bar>sint (snd s)\<bar> < 2 ^ 30 \<and> sint (fst s) \<le> sint (snd s) \<and>
     \<bar>sint (fst d)\<bar> < 2 ^ 14 \<and> \<bar>sint (snd d)\<bar> < 2 ^ 14 \<and> sint (fst d) \<le> sint (snd d)"

definition upscales :: "i32 \<times> i32 \<Rightarrow> i32 \<times> i32 \<Rightarrow> bool" where
  "upscales s d \<longleftrightarrow> sint (snd s) - sint (fst s) \<le> (sint (snd d) - sint (fst d)) * 65536"

definition downscales :: "i32 \<times> i32 \<Rightarrow> i32 \<times> i32 \<Rightarrow> bool" where
  "downscales s d \<longleftrightarrow> (sint (snd d) - sint (fst d)) * 65536 \<le> sint (snd s) - sint (fst s)"

definition extent :: "i32 \<times> i32 \<Rightarrow> int" where
  "extent a = sint (snd a) - sint (fst a)"

text \<open>
  The source interval \<open>s'\<close> left when the destination \<open>d\<close> of the source \<open>s\<close> is cut to \<open>d'\<close>: its low
  end is cut first, in proportion to what the destination keeps, the high end of the source staying
  where it is; then its high end, in proportion again, the low end staying.
\<close>

definition cut_in_proportion ::
  "i32 \<times> i32 \<Rightarrow> i32 \<times> i32 \<Rightarrow> i32 \<times> i32 \<Rightarrow> i32 \<times> i32 \<Rightarrow> bool" where
  "cut_in_proportion s d s' d' \<longleftrightarrow>
     (let m = sint (snd s) - sint (fst s'); a = sint (snd d) - sint (fst d')
      in in_proportion (extent s) (extent d) a m \<and> in_proportion m a (extent d') (extent s'))"

lemma axis_lo_correct:
  assumes ok: "axis_ok s d" and c: "\<bar>sint c\<bar> < 2 ^ 14" and w: "sint (fst d) < sint (snd d)"
    and eq: "axis_lo c s d = (s', d')"
  shows "axis_ok s' d' \<and> snd d' = snd d \<and> snd s' = snd s \<and> sint (fst s) \<le> sint (fst s')
    \<and> sint (fst d') = min (max (sint (fst d)) (sint c)) (sint (snd d))
    \<and> (upscales s d \<longrightarrow> upscales s' d') \<and> (downscales s d \<longrightarrow> downscales s' d')
    \<and> in_proportion (extent s) (extent d) (extent d') (extent s')"
proof -
  obtain s1 s2 d1 d2 where sd: "s = (s1, s2)" "d = (d1, d2)" by (cases s, cases d)
  have diff: "sint (c - d1) = sint c - sint d1"
    using ok c by (intro sint_diff_in_range) (auto simp: axis_ok_def sd)
  have sw: "sint (s2 - s1) = sint s2 - sint s1"
    using ok by (intro sint_diff_in_range) (auto simp: axis_ok_def sd)
  have dw: "sint (d2 - d1) = sint d2 - sint d1"
    using ok by (intro sint_diff_in_range) (auto simp: axis_ok_def sd)
  show ?thesis
  proof (cases "0 <s c - d1")
    case False
    then have "sint c \<le> sint d1" by (simp add: word_sless_alt diff)
    with False eq ok w show ?thesis
      by (auto simp: axis_lo_def sd Let_def extent_def in_proportion_whole)
  next
    case True
    then have cd: "sint d1 < sint c" by (simp add: word_sless_alt diff)
    obtain n k where cs: "clip_scaled (s2 - s1) (d2 - d1) (c - d1) = (n, k)"
      and k: "sint k = min (sint c - sint d1) (sint d2 - sint d1)"
      and n: "sint n = scaled_len (sint s2 - sint s1) (sint d2 - sint d1) (sint k)"
    proof (rule clip_scaled_int [of "s2 - s1" "d2 - d1" "c - d1"])
      show "0 \<le> sint (s2 - s1)" "0 < sint (d2 - d1)" "sint (d2 - d1) < 2 ^ 15" "0 \<le> sint (c - d1)"
        using ok w cd by (auto simp: sw dw diff sd axis_ok_def)
    qed (simp add: sw dw diff)
    have kb: "0 \<le> sint k" "sint k \<le> sint d2 - sint d1" using k w cd by (auto simp: sd)
    have nb: "0 \<le> sint n" "sint n \<le> sint s2 - sint s1"
      using scaled_len_bounds [of "sint d2 - sint d1" "sint k" "sint s2 - sint s1"] kb ok w
      by (auto simp: n sd axis_ok_def)
    have s': "s' = (s2 - n, s2)" and d': "d' = (d1 + k, d2)"
      using eq True cs by (auto simp: axis_lo_def sd)
    have sn: "sint (s2 - n) = sint s2 - sint n"
      using nb ok by (intro sint_diff_in_range) (auto simp: sd axis_ok_def)
    have dk: "sint (d1 + k) = sint d1 + sint k"
      using kb ok by (intro sint_add_in_range) (auto simp: sd axis_ok_def)
    have "axis_ok s' d'" using ok nb kb by (auto simp: s' d' sd axis_ok_def sn dk)
    moreover have "sint (fst s) \<le> sint (fst s')" using nb by (simp add: s' sd sn)
    moreover have "sint (fst d') = min (max (sint (fst d)) (sint c)) (sint (snd d))"
      using cd w by (auto simp: d' sd dk k)
    moreover have "upscales s d \<longrightarrow> upscales s' d'"
      using scaled_len_upscale [of "sint d2 - sint d1" "sint k" "sint s2 - sint s1"] kb ok w
      by (auto simp: upscales_def s' d' sd sn dk n axis_ok_def algebra_simps)
    moreover have "downscales s d \<longrightarrow> downscales s' d'"
      using scaled_len_downscale [of "sint d2 - sint d1" "sint k" "sint s2 - sint s1"] kb ok w
      by (auto simp: downscales_def s' d' sd sn dk n axis_ok_def algebra_simps)
    moreover have "in_proportion (extent s) (extent d) (extent d') (extent s')"
      using scaled_len_in_proportion [of "extent d" "extent s" "sint k"] w
      by (simp add: extent_def s' d' sd sn dk n algebra_simps)
    ultimately show ?thesis by (simp add: s' d' sd)
  qed
qed

lemma axis_hi_correct:
  assumes ok: "axis_ok s d" and c: "\<bar>sint c\<bar> < 2 ^ 14"
    and eq: "axis_hi c s d = (s', d')"
  shows "fst d' = fst d \<and> fst s' = fst s \<and> sint (fst s') \<le> sint (snd s') \<and> sint (snd s') \<le> sint (snd s)
    \<and> (sint (fst d) < sint (snd d) \<longrightarrow> sint (snd d') = max (min (sint (snd d)) (sint c)) (sint (fst d))
        \<and> (upscales s d \<longrightarrow> upscales s' d') \<and> (downscales s d \<longrightarrow> downscales s' d')
        \<and> in_proportion (extent s) (extent d) (extent d') (extent s'))
    \<and> (sint (fst d) = sint (snd d) \<longrightarrow> sint (snd d') \<le> sint (fst d))
    \<and> \<bar>sint (snd d')\<bar> < 2 ^ 14"
proof -
  obtain s1 s2 d1 d2 where sd: "s = (s1, s2)" "d = (d1, d2)" by (cases s, cases d)
  have diff: "sint (d2 - c) = sint d2 - sint c"
    using ok c by (intro sint_diff_in_range) (auto simp: axis_ok_def sd)
  have sw: "sint (s2 - s1) = sint s2 - sint s1"
    using ok by (intro sint_diff_in_range) (auto simp: axis_ok_def sd)
  have dw: "sint (d2 - d1) = sint d2 - sint d1"
    using ok by (intro sint_diff_in_range) (auto simp: axis_ok_def sd)
  show ?thesis
  proof (cases "0 <s d2 - c")
    case False
    then have "sint d2 \<le> sint c" by (simp add: word_sless_alt diff)
    with False eq ok show ?thesis
      by (auto simp: axis_hi_def sd Let_def axis_ok_def extent_def in_proportion_whole)
  next
    case True
    then have cd: "sint c < sint d2" by (simp add: word_sless_alt diff)
    show ?thesis
    proof (cases "d1 = d2")
      case True
      then have "s' = (s1, s1)" "d' = (d1, d2 - (d2 - c))"
        using eq \<open>0 <s d2 - c\<close> by (auto simp: axis_hi_def sd clip_scaled_def)
      with True ok cd c show ?thesis by (auto simp: sd axis_ok_def)
    next
      case False
      then have w: "sint d1 < sint d2"
        using ok by (auto simp: axis_ok_def sd order_le_less signed_word_eqI)
      obtain n k where cs: "clip_scaled (s2 - s1) (d2 - d1) (d2 - c) = (n, k)"
        and k: "sint k = min (sint d2 - sint c) (sint d2 - sint d1)"
        and n: "sint n = scaled_len (sint s2 - sint s1) (sint d2 - sint d1) (sint k)"
      proof (rule clip_scaled_int [of "s2 - s1" "d2 - d1" "d2 - c"])
        show "0 \<le> sint (s2 - s1)" "0 < sint (d2 - d1)" "sint (d2 - d1) < 2 ^ 15" "0 \<le> sint (d2 - c)"
          using ok w cd by (auto simp: sw dw diff sd axis_ok_def)
      qed (simp add: sw dw diff)
      have kb: "0 \<le> sint k" "sint k \<le> sint d2 - sint d1" using k w cd by auto
      have nb: "0 \<le> sint n" "sint n \<le> sint s2 - sint s1"
        using scaled_len_bounds [of "sint d2 - sint d1" "sint k" "sint s2 - sint s1"] kb ok w
        by (auto simp: n sd axis_ok_def)
      have s': "s' = (s1, s1 + n)" and d': "d' = (d1, d2 - k)"
        using eq \<open>0 <s d2 - c\<close> cs by (auto simp: axis_hi_def sd)
      have sn: "sint (s1 + n) = sint s1 + sint n"
        using nb ok by (intro sint_add_in_range) (auto simp: sd axis_ok_def)
      have dk: "sint (d2 - k) = sint d2 - sint k"
        using kb ok by (intro sint_diff_in_range) (auto simp: sd axis_ok_def)
      have "sint (snd d') = max (min (sint (snd d)) (sint c)) (sint (fst d))"
        using cd w by (auto simp: d' sd dk k)
      moreover have "\<bar>sint (snd d')\<bar> < 2 ^ 14" using ok kb by (auto simp: d' sd dk axis_ok_def)
      moreover have sle: "0 \<le> sint s2 - sint s1" and dle: "0 < sint d2 - sint d1"
        using ok w by (simp_all add: sd axis_ok_def)
      have "upscales s d \<longrightarrow> upscales s' d'"
        using scaled_len_upscale [OF dle kb sle]
        unfolding upscales_def s' d' sd fst_conv snd_conv sn dk n by (simp add: diff_right_commute)
      moreover have "downscales s d \<longrightarrow> downscales s' d'"
        using scaled_len_downscale [OF dle kb sle]
        unfolding downscales_def s' d' sd fst_conv snd_conv sn dk n by (simp add: diff_right_commute)
      moreover have "in_proportion (extent s) (extent d) (extent d') (extent s')"
        using scaled_len_in_proportion [of "extent d" "extent s" "sint k"] w
        by (simp add: extent_def s' d' sd sn dk n diff_right_commute)
      ultimately show ?thesis using nb w by (simp add: s' d' sd sn)
    qed
  qed
qed


lemma axis_clip_correct:
  assumes ok: "axis_ok s d" and k: "\<bar>sint k1\<bar> < 2 ^ 14" "\<bar>sint k2\<bar> < 2 ^ 14" and w: "sint (fst d) < sint (snd d)"
    and lo: "axis_lo k1 s d = (s1, d1)" and hi: "axis_hi k2 s1 d1 = (s2, d2)"
  shows "sint (fst s) \<le> sint (fst s2)" "sint (fst s2) \<le> sint (snd s2)" "sint (snd s2) \<le> sint (snd s)"
    "\<bar>sint (fst d2)\<bar> < 2 ^ 14" "\<bar>sint (snd d2)\<bar> < 2 ^ 14"
    "sint (fst d2) < sint (snd d2) \<longleftrightarrow> max (sint (fst d)) (sint k1) < min (sint (snd d)) (sint k2)"
    "sint (fst d2) < sint (snd d2) \<Longrightarrow> sint (fst d2) = max (sint (fst d)) (sint k1)
      \<and> sint (snd d2) = min (sint (snd d)) (sint k2)
      \<and> (upscales s d \<longrightarrow> upscales s2 d2) \<and> (downscales s d \<longrightarrow> downscales s2 d2)
      \<and> cut_in_proportion s d s2 d2"
proof -
  note l = axis_lo_correct [OF ok k(1) w lo]
  have ok1: "axis_ok s1 d1" and d1: "snd d1 = snd d" and s1: "snd s1 = snd s"
    and sle: "sint (fst s) \<le> sint (fst s1)"
    and f1: "sint (fst d1) = min (max (sint (fst d)) (sint k1)) (sint (snd d))"
    and p1: "in_proportion (extent s) (extent d) (extent d1) (extent s1)"
    and r1: "upscales s d \<longrightarrow> upscales s1 d1" "downscales s d \<longrightarrow> downscales s1 d1"
    using l by blast+
  note h = axis_hi_correct [OF ok1 k(2) hi]
  have d2: "fst d2 = fst d1" and s2: "fst s2 = fst s1"
    and t: "sint (fst s2) \<le> sint (snd s2)" "sint (snd s2) \<le> sint (snd s1)"
    and v1: "sint (fst d1) < sint (snd d1) \<Longrightarrow> sint (snd d2) = max (min (sint (snd d1)) (sint k2)) (sint (fst d1))"
    and v0: "sint (fst d1) = sint (snd d1) \<Longrightarrow> sint (snd d2) \<le> sint (fst d1)"
    and r2: "sint (fst d1) < sint (snd d1) \<Longrightarrow> upscales s1 d1 \<longrightarrow> upscales s2 d2"
      "sint (fst d1) < sint (snd d1) \<Longrightarrow> downscales s1 d1 \<longrightarrow> downscales s2 d2"
    and p2: "sint (fst d1) < sint (snd d1) \<Longrightarrow> in_proportion (extent s1) (extent d1) (extent d2) (extent s2)"
    and b: "\<bar>sint (snd d2)\<bar> < 2 ^ 14"
    using h by blast+
  show "sint (fst s) \<le> sint (fst s2)" "sint (fst s2) \<le> sint (snd s2)" "sint (snd s2) \<le> sint (snd s)"
    using sle s2 t s1 by simp_all
  show "\<bar>sint (fst d2)\<bar> < 2 ^ 14" "\<bar>sint (snd d2)\<bar> < 2 ^ 14"
    using ok1 b d2 by (simp_all add: axis_ok_def)
  have le: "sint (fst d1) \<le> sint (snd d1)" using ok1 by (simp add: axis_ok_def)
  have cut: "sint (fst d1) < sint (snd d1) \<longleftrightarrow> max (sint (fst d)) (sint k1) < sint (snd d)"
    unfolding d1 f1 by linarith
  have vis: "sint (fst d2) < sint (snd d2) \<longleftrightarrow>
      sint (fst d1) < sint (snd d1) \<and> max (sint (fst d)) (sint k1) < sint k2"
  proof (cases "sint (fst d1) < sint (snd d1)")
    case True
    then show ?thesis using v1 [OF True] cut unfolding d2 d1 f1 by linarith
  next
    case False
    then show ?thesis using le v0 unfolding d2 by linarith
  qed
  then show "sint (fst d2) < sint (snd d2) \<longleftrightarrow> max (sint (fst d)) (sint k1) < min (sint (snd d)) (sint k2)"
    using cut by linarith
  assume nonempty: "sint (fst d2) < sint (snd d2)"
  then have w1: "sint (fst d1) < sint (snd d1)" using vis by blast
  have "sint (fst d2) = max (sint (fst d)) (sint k1)"
    using cut w1 unfolding d2 f1 by linarith
  moreover have "sint (snd d2) = min (sint (snd d)) (sint k2)"
    using v1 [OF w1] cut w1 nonempty vis unfolding d1 f1 by linarith
  ultimately show "sint (fst d2) = max (sint (fst d)) (sint k1) \<and> sint (snd d2) = min (sint (snd d)) (sint k2)
      \<and> (upscales s d \<longrightarrow> upscales s2 d2) \<and> (downscales s d \<longrightarrow> downscales s2 d2)
      \<and> cut_in_proportion s d s2 d2"
    using r1 r2 [OF w1] p1 p2 [OF w1] d1 s1 d2 s2
    by (simp add: cut_in_proportion_def Let_def extent_def)
qed

definition xax :: "drm_rect \<Rightarrow> i32 \<times> i32" where "xax r = (x1 r, x2 r)"
definition yax :: "drm_rect \<Rightarrow> i32 \<times> i32" where "yax r = (y1 r, y2 r)"

lemma clip_left_axes:
  assumes "clip_left c (s, d) = (s', d')"
  shows "axis_lo (x1 c) (xax s) (xax d) = (xax s', xax d') \<and> yax s' = yax s \<and> yax d' = yax d"
proof (cases "0 <s x1 c - x1 d")
  case True
  obtain n k where "clip_scaled (x2 s - x1 s) (x2 d - x1 d) (x1 c - x1 d) = (n, k)" by force
  with True assms show ?thesis
    unfolding clip_left_def axis_lo_def xax_def yax_def drm_rect_width_def Let_def
    by (clarsimp simp only: if_True prod.case prod.inject simp_thms) simp
next
  case False
  with assms show ?thesis
    unfolding clip_left_def axis_lo_def xax_def yax_def Let_def
    by (clarsimp simp only: if_False prod.case prod.inject simp_thms)
qed

lemma clip_top_axes:
  assumes "clip_top c (s, d) = (s', d')"
  shows "axis_lo (y1 c) (yax s) (yax d) = (yax s', yax d') \<and> xax s' = xax s \<and> xax d' = xax d"
proof (cases "0 <s y1 c - y1 d")
  case True
  obtain n k where "clip_scaled (y2 s - y1 s) (y2 d - y1 d) (y1 c - y1 d) = (n, k)" by force
  with True assms show ?thesis
    unfolding clip_top_def axis_lo_def xax_def yax_def drm_rect_height_def Let_def
    by (clarsimp simp only: if_True prod.case prod.inject simp_thms) simp
next
  case False
  with assms show ?thesis
    unfolding clip_top_def axis_lo_def xax_def yax_def Let_def
    by (clarsimp simp only: if_False prod.case prod.inject simp_thms)
qed

lemma clip_right_axes:
  assumes "clip_right c (s, d) = (s', d')"
  shows "axis_hi (x2 c) (xax s) (xax d) = (xax s', xax d') \<and> yax s' = yax s \<and> yax d' = yax d"
proof (cases "0 <s x2 d - x2 c")
  case True
  obtain n k where "clip_scaled (x2 s - x1 s) (x2 d - x1 d) (x2 d - x2 c) = (n, k)" by force
  with True assms show ?thesis
    unfolding clip_right_def axis_hi_def xax_def yax_def drm_rect_width_def Let_def
    by (clarsimp simp only: if_True prod.case prod.inject simp_thms) simp
next
  case False
  with assms show ?thesis
    unfolding clip_right_def axis_hi_def xax_def yax_def Let_def
    by (clarsimp simp only: if_False prod.case prod.inject simp_thms)
qed

lemma clip_bottom_axes:
  assumes "clip_bottom c (s, d) = (s', d')"
  shows "axis_hi (y2 c) (yax s) (yax d) = (yax s', yax d') \<and> xax s' = xax s \<and> xax d' = xax d"
proof (cases "0 <s y2 d - y2 c")
  case True
  obtain n k where "clip_scaled (y2 s - y1 s) (y2 d - y1 d) (y2 d - y2 c) = (n, k)" by force
  with True assms show ?thesis
    unfolding clip_bottom_def axis_hi_def xax_def yax_def drm_rect_height_def Let_def
    by (clarsimp simp only: if_True prod.case prod.inject simp_thms) simp
next
  case False
  with assms show ?thesis
    unfolding clip_bottom_def axis_hi_def xax_def yax_def Let_def
    by (clarsimp simp only: if_False prod.case prod.inject simp_thms)
qed

text \<open>
  C31: Scaled clipping of a visible destination: the result is visible exactly when the destination
  meets the clip rectangle, and is then their common part; the source window only shrinks. On each
  axis the source loses, on the side on which the destination is cut, the part in proportion,
  rounded towards the scale 1.0: what stays is \<open>source * kept / destination\<close>, rounded up when the
  source is enlarged and down otherwise, the low side being cut before the high side. So an
  upscaling stays an upscaling (or becomes 1:1) and a downscaling a downscaling. Destination and
  clip coordinates are below \<open>2 ^ 14\<close> in size and those of the source below \<open>2 ^ 30\<close> (16.16), so
  that no \<open>int\<close> overflows.
\<close>

theorem rect_clip_scaled_correct:
  assumes src: "rect_within (2 ^ 30) src" "sint (x1 src) \<le> sint (x2 src)" "sint (y1 src) \<le> sint (y2 src)"
    and dst: "rect_within (2 ^ 14) dst" "drm_rect_visible dst" and clip: "rect_within (2 ^ 14) clip"
    and eq: "drm_rect_clip_scaled src dst clip = (src', dst', vis)"
  shows "(vis \<longleftrightarrow> pixels dst \<inter> pixels clip \<noteq> {}) \<and> pixels src' \<subseteq> pixels src \<and>
    (vis \<longrightarrow> pixels dst' = pixels dst \<inter> pixels clip
      \<and> cut_in_proportion (xax src) (xax dst) (xax src') (xax dst')
      \<and> cut_in_proportion (yax src) (yax dst) (yax src') (yax dst')
      \<and> (upscales (xax src) (xax dst) \<longrightarrow> upscales (xax src') (xax dst'))
      \<and> (downscales (xax src) (xax dst) \<longrightarrow> downscales (xax src') (xax dst'))
      \<and> (upscales (yax src) (yax dst) \<longrightarrow> upscales (yax src') (yax dst'))
      \<and> (downscales (yax src) (yax dst) \<longrightarrow> downscales (yax src') (yax dst')))"
proof -
  obtain s1 d1 where l: "clip_left clip (src, dst) = (s1, d1)" by force
  obtain s2 d2 where t: "clip_top clip (s1, d1) = (s2, d2)" by force
  obtain s3 d3 where r: "clip_right clip (s2, d2) = (s3, d3)" by force
  have b: "clip_bottom clip (s3, d3) = (src', dst')" and v: "vis = drm_rect_visible dst'"
    using eq l t r by (auto simp: drm_rect_clip_scaled_def split: prod.splits)
  note a = clip_left_axes [OF l] clip_top_axes [OF t] clip_right_axes [OF r] clip_bottom_axes [OF b]
  have "rect_within (2 ^ 30) dst" using dst(1) by (auto simp: rect_within_def)
  then have w: "sint (x1 dst) < sint (x2 dst)" "sint (y1 dst) < sint (y2 dst)"
    using dst(2) by (auto simp: visible_iff)
  have okx: "axis_ok (xax src) (xax dst)" and oky: "axis_ok (yax src) (yax dst)"
    using src dst w by (auto simp: axis_ok_def xax_def yax_def rect_within_def)
  have kx: "\<bar>sint (x1 clip)\<bar> < 2 ^ 14" "\<bar>sint (x2 clip)\<bar> < 2 ^ 14"
    and ky: "\<bar>sint (y1 clip)\<bar> < 2 ^ 14" "\<bar>sint (y2 clip)\<bar> < 2 ^ 14"
    using clip by (auto simp: rect_within_def)
  have lox: "axis_lo (x1 clip) (xax src) (xax dst) = (xax s2, xax d2)"
    and hix: "axis_hi (x2 clip) (xax s2) (xax d2) = (xax src', xax dst')"
    and loy: "axis_lo (y1 clip) (yax src) (yax dst) = (yax s3, yax d3)"
    and hiy: "axis_hi (y2 clip) (yax s3) (yax d3) = (yax src', yax dst')"
    using a by simp_all
  have wx: "sint (fst (xax dst)) < sint (snd (xax dst))" and wy: "sint (fst (yax dst)) < sint (snd (yax dst))"
    using w by (simp_all add: xax_def yax_def)
  note X = axis_clip_correct [OF okx kx wx lox hix] and Y = axis_clip_correct [OF oky ky wy loy hiy]
  have "rect_within (2 ^ 30) dst'"
    using X(4,5) Y(4,5) by (auto simp: rect_within_def xax_def yax_def)
  then have vis: "vis \<longleftrightarrow> sint (x1 dst') < sint (x2 dst') \<and> sint (y1 dst') < sint (y2 dst')"
    by (simp add: v visible_iff)
  have seen: "vis \<longleftrightarrow> pixels dst \<inter> pixels clip \<noteq> {}"
    using X(6) Y(6) by (auto simp: vis xax_def yax_def pixels_def Times_Int_Times)
  have inside: "pixels src' \<subseteq> pixels src"
    using X(1,3) Y(1,3) by (auto simp: pixels_def xax_def yax_def)
  have scaled: "pixels dst' = pixels dst \<inter> pixels clip
      \<and> cut_in_proportion (xax src) (xax dst) (xax src') (xax dst')
      \<and> cut_in_proportion (yax src) (yax dst) (yax src') (yax dst')
      \<and> (upscales (xax src) (xax dst) \<longrightarrow> upscales (xax src') (xax dst'))
      \<and> (downscales (xax src) (xax dst) \<longrightarrow> downscales (xax src') (xax dst'))
      \<and> (upscales (yax src) (yax dst) \<longrightarrow> upscales (yax src') (yax dst'))
      \<and> (downscales (yax src) (yax dst) \<longrightarrow> downscales (yax src') (yax dst'))" if vis
  proof -
    have "sint (fst (xax dst')) < sint (snd (xax dst'))" "sint (fst (yax dst')) < sint (snd (yax dst'))"
      using that by (simp_all add: vis xax_def yax_def)
    note x = X(7) [OF this(1)] and y = Y(7) [OF this(2)]
    have "sint (x1 dst') = max (sint (x1 dst)) (sint (x1 clip))" "sint (x2 dst') = min (sint (x2 dst)) (sint (x2 clip))"
      "sint (y1 dst') = max (sint (y1 dst)) (sint (y1 clip))" "sint (y2 dst') = min (sint (y2 dst)) (sint (y2 clip))"
      using x y by (simp_all add: xax_def yax_def)
    then have "pixels dst' = pixels dst \<inter> pixels clip"
      by (auto simp: pixels_def)
    with x y show ?thesis by blast
  qed
  show ?thesis using seen inside scaled by blast
qed

theorem rect_clip_scaled_correct_witness:
  "let src = \<lparr>x1 = 0, y1 = 0, x2 = 101, y2 = 50\<rparr>; dst = \<lparr>x1 = -10, y1 = 5, x2 = 40, y2 = 30\<rparr>;
       clip = \<lparr>x1 = 0, y1 = 0, x2 = 30, y2 = 100\<rparr>;
       src' = \<lparr>x1 = 20, y1 = 0, x2 = 81, y2 = 50\<rparr>; dst' = \<lparr>x1 = 0, y1 = 5, x2 = 30, y2 = 30\<rparr>
   in drm_rect_clip_scaled src dst clip = (src', dst', True)
      \<and> pixels dst' = pixels dst \<inter> pixels clip
      \<and> cut_in_proportion (xax src) (xax dst) (xax src') (xax dst')"
proof -
  let ?src = "\<lparr>x1 = 0, y1 = 0, x2 = 101, y2 = 50\<rparr>" and ?dst = "\<lparr>x1 = -10, y1 = 5, x2 = 40, y2 = 30\<rparr>"
  let ?clip = "\<lparr>x1 = 0, y1 = 0, x2 = 30, y2 = 100\<rparr>"
  have e: "drm_rect_clip_scaled ?src ?dst ?clip
      = (\<lparr>x1 = 20, y1 = 0, x2 = 81, y2 = 50\<rparr>, \<lparr>x1 = 0, y1 = 5, x2 = 30, y2 = 30\<rparr>, True)"
    by code_simp
  have v: "drm_rect_visible ?dst" by code_simp
  show ?thesis
    using rect_clip_scaled_correct [OF _ _ _ _ v _ e] e by (simp add: rect_within_def)
qed

section \<open>Scaling factors and their limits\<close>

lemma sint_sdiv32:
  assumes "0 \<le> sint a" "0 < sint b"
  shows "sint (sdiv32 a b) = sint a div sint b"
proof -
  have "0 \<le> sint a div sint b" "sint a div sint b \<le> sint a"
    using assms by (simp_all add: pos_imp_zdiv_nonneg_iff div_le_self_int)
  moreover have "sgn (sint a) * sgn (sint b) * (\<bar>sint a\<bar> div \<bar>sint b\<bar>) = sint a div sint b"
    using assms by (cases "sint a = 0") simp_all
  moreover have "sint a div sint b < 2 ^ 31"
    using sint_lt [of a] \<open>sint a div sint b \<le> sint a\<close> by simp
  ultimately show ?thesis
    unfolding sdiv32_def sint_sbintrunc' by (simp add: signed_take_bit_int_eq_self)
qed

lemma drm_calc_scale_int:
  assumes "0 \<le> sint src" "sint src < 2 ^ 30" "0 < sint dst" "sint dst < 2 ^ 15"
  shows "sint (drm_calc_scale src dst) =
    (if sint dst * 65536 < sint src then (sint src + sint dst - 1) div sint dst else sint src div sint dst)"
proof -
  have "sint (src + dst) = sint src + sint dst" using assms by (intro sint_add_in_range) auto
  then have sum: "sint (src + dst - 1) = sint src + sint dst - 1"
    using assms sint_diff_in_range [of "src + dst" 1] by simp
  show ?thesis
  proof (cases "sint dst * 65536 < sint src")
    case True
    then show ?thesis using assms sum
      by (auto simp: drm_calc_scale_def word_sless_alt sint_push_bit_16 sint_sdiv32)
  next
    case False
    then show ?thesis using assms
      by (auto simp: drm_calc_scale_def word_sless_alt sint_push_bit_16 sint_sdiv32)
  qed
qed

definition axis_scale :: "i32 \<Rightarrow> i32 \<Rightarrow> i32 \<Rightarrow> i32 \<Rightarrow> i32" where
  "axis_scale s d lo hi =
     (let r = drm_calc_scale s d
      in if r <s 0 \<or> d = 0 then r else if r <s lo \<or> hi <s r then neg_ERANGE else r)"

lemma axis_scale_correct:
  assumes s: "0 \<le> sint s" "sint s < 2 ^ 30" and d: "0 < sint d" "sint d < 2 ^ 15"
    and lim: "0 \<le> sint lo" "sint lo \<le> 65536" "65536 \<le> sint hi"
  shows "if sint lo * sint d \<le> sint s \<and> sint s \<le> sint hi * sint d
    then sint (axis_scale s d lo hi) =
      (if sint d * 65536 < sint s then (sint s + sint d - 1) div sint d else sint s div sint d)
    else axis_scale s d lo hi = neg_ERANGE"
proof -
  let ?r = "drm_calc_scale s d"
  note r = drm_calc_scale_int [OF s d]
  have d0: "d \<noteq> 0" using d by auto
  have r0: "0 \<le> sint ?r" using s d by (simp add: r pos_imp_zdiv_nonneg_iff)
  have in_range: "sint lo \<le> sint ?r \<and> sint ?r \<le> sint hi \<longleftrightarrow>
      sint lo * sint d \<le> sint s \<and> sint s \<le> sint hi * sint d"
  proof (cases "sint d * 65536 < sint s")
    case True
    have "sint lo * sint d \<le> sint d * 65536" using mult_right_mono [of "sint lo" 65536 "sint d"] lim d by simp
    moreover have "sint lo \<le> (sint s + sint d - 1) div sint d \<longleftrightarrow> sint lo * sint d \<le> sint s + sint d - 1"
      using d by (simp add: int_div_ge_iff)
    moreover have "(sint s + sint d - 1) div sint d \<le> sint hi \<longleftrightarrow> sint s + sint d - 1 < sint hi * sint d + sint d"
      using d by (simp add: int_div_le_iff distrib_right)
    ultimately show ?thesis using True d unfolding r by (simp only: if_True) (safe; linarith)
  next
    case False
    have "65536 * sint d \<le> sint hi * sint d" using lim d by (intro mult_right_mono) auto
    moreover have "sint lo \<le> sint s div sint d \<longleftrightarrow> sint lo * sint d \<le> sint s"
      using d by (simp add: int_div_ge_iff)
    moreover have "sint s div sint d \<le> sint hi \<longleftrightarrow> sint s < sint hi * sint d + sint d"
      using d by (simp add: int_div_le_iff distrib_right)
    ultimately show ?thesis using False d unfolding r by (simp only: if_False) (safe; linarith)
  qed
  have "axis_scale s d lo hi = (if sint lo \<le> sint ?r \<and> sint ?r \<le> sint hi then ?r else neg_ERANGE)"
    using r0 d0 by (auto simp: axis_scale_def Let_def word_sless_alt)
  then show ?thesis using in_range r by auto
qed

text \<open>
  With limits on either side of 1.0 the horizontal scaling factor is accepted exactly when the
  true ratio of the widths lies within the limits, and is then the ratio rounded away from 1.0 (the
  most pessimistic value); otherwise the result is \<open>-ERANGE\<close>.
\<close>

theorem rect_calc_scale_correct:
  assumes src: "rect_within (2 ^ 29) src" and dst: "rect_within (2 ^ 14) dst" "drm_rect_visible dst"
    and w: "sint (x1 src) \<le> sint (x2 src)" 
    and lim: "0 \<le> sint lo" "sint lo \<le> 65536" "65536 \<le> sint hi"
  shows "if sint lo * sint (drm_rect_width dst) \<le> sint (drm_rect_width src)
      \<and> sint (drm_rect_width src) \<le> sint hi * sint (drm_rect_width dst)
    then sint (drm_rect_calc_hscale src dst lo hi) =
      (if sint (drm_rect_width dst) * 65536 < sint (drm_rect_width src)
       then (sint (drm_rect_width src) + sint (drm_rect_width dst) - 1) div sint (drm_rect_width dst)
       else sint (drm_rect_width src) div sint (drm_rect_width dst))
    else drm_rect_calc_hscale src dst lo hi = neg_ERANGE"
proof -
  have within: "rect_within (2 ^ 30) src" "rect_within (2 ^ 30) dst"
    using src dst by (auto simp: rect_within_def)
  have "drm_rect_calc_hscale src dst lo hi = axis_scale (drm_rect_width src) (drm_rect_width dst) lo hi"
    by (simp add: drm_rect_calc_hscale_def axis_scale_def Let_def)
  moreover have "0 \<le> sint (drm_rect_width src)" "sint (drm_rect_width src) < 2 ^ 30"
    "0 < sint (drm_rect_width dst)" "sint (drm_rect_width dst) < 2 ^ 15"
    using src dst w within by (auto simp: sint_width visible_iff rect_within_def)
  ultimately show ?thesis using axis_scale_correct lim by presburger
qed

theorem rect_calc_scale_correct_witness:
  "drm_rect_calc_hscale \<lparr>x1 = 0, y1 = 0, x2 = 700000, y2 = 100\<rparr> \<lparr>x1 = 0, y1 = 0, x2 = 10, y2 = 10\<rparr> 1 65536
     = neg_ERANGE"
proof -
  have v: "drm_rect_visible \<lparr>x1 = 0, y1 = 0, x2 = 10, y2 = 10\<rparr>" by code_simp
  show ?thesis
    using rect_calc_scale_correct [of "\<lparr>x1 = 0, y1 = 0, x2 = 700000, y2 = 100\<rparr>", OF _ _ v, of 1 65536]
    by (simp add: rect_within_def drm_rect_width_def)
qed

section \<open>Rotation\<close>

lemma rect_reflect_twice: "rect_reflect (rect_reflect r w h rot) w h rot = r"
  unfolding rect_reflect_def Let_def
  by (cases "rot AND (DRM_MODE_REFLECT_X OR DRM_MODE_REFLECT_Y) \<noteq> 0";
      cases "rot AND DRM_MODE_REFLECT_X \<noteq> 0"; cases "rot AND DRM_MODE_REFLECT_Y \<noteq> 0") simp_all

text \<open>
  For every rotation argument (invalid ones included) and every coordinate, with wrap-around,
  \<open>drm_rect_rotate_inv\<close> undoes \<open>drm_rect_rotate\<close> and the other way round.
\<close>

theorem rect_rotate_roundtrip:
  "drm_rect_rotate_inv (drm_rect_rotate r w h rot) w h rot = r
   \<and> drm_rect_rotate (drm_rect_rotate_inv r w h rot) w h rot = r"
proof
  show "drm_rect_rotate_inv (drm_rect_rotate r w h rot) w h rot = r"
    unfolding drm_rect_rotate_inv_def drm_rect_rotate_def Let_def
    by (simp add: rect_reflect_twice)
  show "drm_rect_rotate (drm_rect_rotate_inv r w h rot) w h rot = r"
    unfolding drm_rect_rotate_inv_def drm_rect_rotate_def Let_def rect_reflect_twice
    by simp
qed

end
