(* ===== verification/Codec.thy ===== *)
theory Codec
  imports Prelude
begin

text \<open>
  The contract of an encoder and its decoder, as the wire formats of the drivers promise it: every
  valid value has an encoding, and decoding gives the value back. The formats that carry a checksum
  extend it with the check a receiver makes.
\<close>

locale codec =
  fixes enc :: "'a \<Rightarrow> 'b option"
    and dec :: "'b \<Rightarrow> 'a option"
    and valid :: "'a \<Rightarrow> bool"
  assumes enc_total: "valid x \<Longrightarrow> \<exists>b. enc x = Some b"
    and dec_enc: "valid x \<Longrightarrow> enc x = Some b \<Longrightarrow> dec b = Some x"
begin

lemma enc_inj: "valid x \<Longrightarrow> valid y \<Longrightarrow> enc x = enc y \<Longrightarrow> x = y"
  using enc_total [of x] dec_enc [of x] dec_enc [of y] by fastforce

lemma dec_surj: "valid x \<Longrightarrow> \<exists>b. dec b = Some x"
  using enc_total dec_enc by blast

lemma enc_decE:
  assumes "valid x"
  obtains b where "enc x = Some b" "dec b = Some x"
  using assms enc_total dec_enc by blast

end

locale checked_codec = codec enc dec valid
  for enc :: "'a \<Rightarrow> 'b option" and dec :: "'b \<Rightarrow> 'a option" and valid :: "'a \<Rightarrow> bool" +
  fixes check :: "'b \<Rightarrow> bool"
  assumes check_enc: "valid x \<Longrightarrow> enc x = Some b \<Longrightarrow> check b"
begin

lemma enc_accepted:
  assumes "valid x"
  obtains b where "enc x = Some b" "check b" "dec b = Some x"
  using assms enc_decE check_enc by blast

end

end
