(* ===== verification/Infoframe.thy ===== *)
theory Infoframe
  imports Codec
begin

text \<open>
  HDMI infoframes (\<open>drivers/video/hdmi.c\<close>, \<open>linux/hdmi.h\<close>): initialising, checking, packing into
  bytes and unpacking. A buffer of \<open>size\<close> bytes is a list of that length; packing returns the new
  contents of the whole buffer and the number of bytes of the frame. Enumerations are the integers
  the code masks and shifts.
\<close>

section \<open>Frames\<close>

definition HDMI_INFOFRAME_TYPE_VENDOR :: u32 where "HDMI_INFOFRAME_TYPE_VENDOR = 0x81"
definition HDMI_INFOFRAME_TYPE_AVI :: u32 where "HDMI_INFOFRAME_TYPE_AVI = 0x82"
definition HDMI_INFOFRAME_TYPE_SPD :: u32 where "HDMI_INFOFRAME_TYPE_SPD = 0x83"
definition HDMI_INFOFRAME_TYPE_AUDIO :: u32 where "HDMI_INFOFRAME_TYPE_AUDIO = 0x84"
definition HDMI_INFOFRAME_TYPE_DRM :: u32 where "HDMI_INFOFRAME_TYPE_DRM = 0x87"

definition HDMI_IEEE_OUI :: u32 where "HDMI_IEEE_OUI = 0x000c03"

abbreviation (input) HDMI_INFOFRAME_HEADER_SIZE :: nat where "HDMI_INFOFRAME_HEADER_SIZE \<equiv> 4"
abbreviation (input) HDMI_AVI_INFOFRAME_SIZE :: "'a::numeral" where "HDMI_AVI_INFOFRAME_SIZE \<equiv> 13"
abbreviation (input) HDMI_SPD_INFOFRAME_SIZE :: "'a::numeral" where "HDMI_SPD_INFOFRAME_SIZE \<equiv> 25"
abbreviation (input) HDMI_AUDIO_INFOFRAME_SIZE :: "'a::numeral" where "HDMI_AUDIO_INFOFRAME_SIZE \<equiv> 10"
abbreviation (input) HDMI_DRM_INFOFRAME_SIZE :: "'a::numeral" where "HDMI_DRM_INFOFRAME_SIZE \<equiv> 26"
abbreviation (input) HDMI_VENDOR_INFOFRAME_SIZE :: "'a::numeral" where "HDMI_VENDOR_INFOFRAME_SIZE \<equiv> 4"

lemmas hdmi_types = HDMI_INFOFRAME_TYPE_VENDOR_def HDMI_INFOFRAME_TYPE_AVI_def
  HDMI_INFOFRAME_TYPE_SPD_def HDMI_INFOFRAME_TYPE_AUDIO_def HDMI_INFOFRAME_TYPE_DRM_def

text \<open>The header all frames share (\<open>struct hdmi_any_infoframe\<close>), and the frames.\<close>

record hdmi_any_infoframe =
  ftype :: u32
  fversion :: u8
  flength :: u8

record hdmi_avi_infoframe = hdmi_any_infoframe +
  colorspace :: u32
  scan_mode :: u32
  colorimetry :: u32
  picture_aspect :: u32
  active_aspect :: u32
  itc :: bool
  extended_colorimetry :: u32
  quantization_range :: u32
  nups :: u32
  video_code :: u8
  ycc_quantization_range :: u32
  content_type :: u32
  pixel_repeat :: u8
  top_bar :: u16
  bottom_bar :: u16
  left_bar :: u16
  right_bar :: u16

record hdmi_drm_infoframe = hdmi_any_infoframe +
  eotf :: u32
  metadata_type :: u32
  display_primaries :: "(u16 \<times> u16) list"
  white_point :: "u16 \<times> u16"
  max_display_mastering_luminance :: u16
  min_display_mastering_luminance :: u16
  max_cll :: u16
  max_fall :: u16

record hdmi_spd_infoframe = hdmi_any_infoframe +
  vendor :: "u8 list"
  product :: "u8 list"
  sdi :: u32

record hdmi_audio_infoframe = hdmi_any_infoframe +
  channels :: u8
  coding_type :: u32
  sample_size :: u32
  sample_frequency :: u32
  coding_type_ext :: u32
  channel_allocation :: u8
  level_shift_value :: u8
  downmix_inhibit :: bool

record hdmi_vendor_infoframe = hdmi_any_infoframe +
  oui :: u32
  vic :: u8
  s3d_struct :: i32
  s3d_ext_data :: u32

definition HDMI_3D_STRUCTURE_INVALID :: i32 where "HDMI_3D_STRUCTURE_INVALID = - 1"
definition HDMI_3D_STRUCTURE_SIDE_BY_SIDE_HALF :: i32 where "HDMI_3D_STRUCTURE_SIDE_BY_SIDE_HALF = 8"

section \<open>Checksum\<close>

definition hdmi_infoframe_checksum :: "u8 list \<Rightarrow> nat \<Rightarrow> u8 option" where
  "hdmi_infoframe_checksum ptr n =
     (if n \<le> length ptr then Some (256 - foldl (+) 0 (take n ptr)) else None)"

definition hdmi_infoframe_set_checksum :: "u8 list \<Rightarrow> nat \<Rightarrow> u8 list option" where
  "hdmi_infoframe_set_checksum buffer n =
     do { c \<leftarrow> hdmi_infoframe_checksum buffer n; buf_put buffer 3 [c] }"

section \<open>Auxiliary video information (AVI)\<close>

definition hdmi_avi_infoframe_init :: hdmi_avi_infoframe where
  "hdmi_avi_infoframe_init =
     \<lparr>ftype = HDMI_INFOFRAME_TYPE_AVI, fversion = 2, flength = HDMI_AVI_INFOFRAME_SIZE,
      colorspace = 0, scan_mode = 0, colorimetry = 0, picture_aspect = 0, active_aspect = 0,
      itc = False, extended_colorimetry = 0, quantization_range = 0, nups = 0, video_code = 0,
      ycc_quantization_range = 0, content_type = 0, pixel_repeat = 0,
      top_bar = 0, bottom_bar = 0, left_bar = 0, right_bar = 0\<rparr>"

definition hdmi_avi_infoframe_check_only :: "hdmi_avi_infoframe \<Rightarrow> unit res" where
  "hdmi_avi_infoframe_check_only frame =
     (if ftype frame \<noteq> HDMI_INFOFRAME_TYPE_AVI \<or> fversion frame \<noteq> 2
         \<or> flength frame \<noteq> HDMI_AVI_INFOFRAME_SIZE then Inl EINVAL
      else if 2 < picture_aspect frame then Inl EINVAL
      else Inr ())"

definition hdmi_avi_infoframe_check :: "hdmi_avi_infoframe \<Rightarrow> unit res" where
  "hdmi_avi_infoframe_check frame = hdmi_avi_infoframe_check_only frame"

text \<open>The header and the payload, in the order they are stored.\<close>

definition header_bytes :: "('a hdmi_any_infoframe_scheme) \<Rightarrow> u8 list" where
  "header_bytes frame = [ucast (ftype frame), fversion frame, flength frame, 0]"

definition avi_byte0 :: "hdmi_avi_infoframe \<Rightarrow> u8" where
  "avi_byte0 frame =
     (let p0 = ucast (push_bit 5 (colorspace frame AND 0x3) OR (scan_mode frame AND 0x3));
          p0 = (if active_aspect frame AND 0xf \<noteq> 0 then p0 OR 0x10 else p0);
          p0 = (if top_bar frame \<noteq> 0 \<or> bottom_bar frame \<noteq> 0 then p0 OR 0x8 else p0)
      in if left_bar frame \<noteq> 0 \<or> right_bar frame \<noteq> 0 then p0 OR 0x4 else p0)"

definition avi_byte1 :: "hdmi_avi_infoframe \<Rightarrow> u8" where
  "avi_byte1 frame =
     ucast (push_bit 6 (colorimetry frame AND 0x3) OR
            push_bit 4 (picture_aspect frame AND 0x3) OR (active_aspect frame AND 0xf))"

definition avi_byte2 :: "hdmi_avi_infoframe \<Rightarrow> u8" where
  "avi_byte2 frame =
     (let p2 = ucast (push_bit 4 (extended_colorimetry frame AND 0x7) OR
                      push_bit 2 (quantization_range frame AND 0x3) OR (nups frame AND 0x3))
      in if itc frame then p2 OR 0x80 else p2)"

definition avi_byte4 :: "hdmi_avi_infoframe \<Rightarrow> u8" where
  "avi_byte4 frame =
     ucast (push_bit 6 (ycc_quantization_range frame AND 0x3) OR
            push_bit 4 (content_type frame AND 0x3) OR (ucast (pixel_repeat frame) AND 0xf))"

definition bar_bytes :: "u16 \<Rightarrow> u8 list" where
  "bar_bytes v = [ucast (v AND 0xff), ucast (drop_bit 8 v AND 0xff)]"

definition avi_payload :: "hdmi_avi_infoframe \<Rightarrow> u8 list" where
  "avi_payload frame =
     [avi_byte0 frame, avi_byte1 frame, avi_byte2 frame, video_code frame AND 0x7f, avi_byte4 frame] @
     bar_bytes (top_bar frame) @ bar_bytes (bottom_bar frame) @
     bar_bytes (left_bar frame) @ bar_bytes (right_bar frame)"

text \<open>
  What every packing routine does once its checks have passed: clear the buffer, store header and
  payload, set the checksum over the \<open>len\<close> bytes of the frame. The stores are not guarded by the
  code, so storing past the buffer is \<open>Oob\<close>.
\<close>

definition store_frame :: "u8 list \<Rightarrow> nat \<Rightarrow> u8 list \<Rightarrow> (u8 list \<times> nat) res" where
  "store_frame buffer len bytes =
     of_opt Oob
       (do { b \<leftarrow> buf_put (replicate (length buffer) 0) 0 bytes;
             b \<leftarrow> hdmi_infoframe_set_checksum b len;
             Some (b, len) })"

definition hdmi_avi_infoframe_pack_only ::
  "hdmi_avi_infoframe \<Rightarrow> u8 list \<Rightarrow> (u8 list \<times> nat) res" where
  "hdmi_avi_infoframe_pack_only frame buffer =
     bindE (hdmi_avi_infoframe_check_only frame) (\<lambda>_.
       let len = HDMI_INFOFRAME_HEADER_SIZE + unat (flength frame)
       in if length buffer < len then Inl ENOSPC
          else store_frame buffer len (header_bytes frame @ avi_payload frame))"

definition hdmi_avi_infoframe_pack ::
  "hdmi_avi_infoframe \<Rightarrow> u8 list \<Rightarrow> (u8 list \<times> nat) res" where
  "hdmi_avi_infoframe_pack frame buffer =
     bindE (hdmi_avi_infoframe_check frame) (\<lambda>_. hdmi_avi_infoframe_pack_only frame buffer)"

text \<open>Two bytes, low one first, as a 16 bit value.\<close>

definition le16 :: "u8 \<Rightarrow> u8 \<Rightarrow> u16" where
  "le16 lo hi = push_bit 8 (ucast hi) OR ucast lo"

definition hdmi_avi_infoframe_unpack :: "u8 list \<Rightarrow> hdmi_avi_infoframe res" where
  "hdmi_avi_infoframe_unpack buffer =
     (if length buffer < 17 then Inl EINVAL
      else if ucast (buffer ! 0) \<noteq> HDMI_INFOFRAME_TYPE_AVI \<or> buffer ! 1 \<noteq> 2
              \<or> buffer ! 2 \<noteq> HDMI_AVI_INFOFRAME_SIZE then Inl EINVAL
      else if hdmi_infoframe_checksum buffer 17 \<noteq> Some 0 then Inl EINVAL
      else
        let ptr = drop HDMI_INFOFRAME_HEADER_SIZE buffer;
            f = hdmi_avi_infoframe_init;
            f = f\<lparr>colorspace := ucast (drop_bit 5 (ptr ! 0) AND 0x3)\<rparr>;
            f = (if ptr ! 0 AND 0x10 \<noteq> 0 then f\<lparr>active_aspect := ucast (ptr ! 1 AND 0xf)\<rparr> else f);
            f = (if ptr ! 0 AND 0x8 \<noteq> 0
                 then f\<lparr>top_bar := le16 (ptr ! 5) (ptr ! 6), bottom_bar := le16 (ptr ! 7) (ptr ! 8)\<rparr>
                 else f);
            f = (if ptr ! 0 AND 0x4 \<noteq> 0
                 then f\<lparr>left_bar := le16 (ptr ! 9) (ptr ! 10), right_bar := le16 (ptr ! 11) (ptr ! 12)\<rparr>
                 else f)
        in Inr (f\<lparr>scan_mode := ucast (ptr ! 0 AND 0x3),
                  colorimetry := ucast (drop_bit 6 (ptr ! 1) AND 0x3),
                  picture_aspect := ucast (drop_bit 4 (ptr ! 1) AND 0x3),
                  active_aspect := ucast (ptr ! 1 AND 0xf),
                  itc := (ptr ! 2 AND 0x80 \<noteq> 0),
                  extended_colorimetry := ucast (drop_bit 4 (ptr ! 2) AND 0x7),
                  quantization_range := ucast (drop_bit 2 (ptr ! 2) AND 0x3),
                  nups := ucast (ptr ! 2 AND 0x3),
                  video_code := ptr ! 3 AND 0x7f,
                  ycc_quantization_range := ucast (drop_bit 6 (ptr ! 4) AND 0x3),
                  content_type := ucast (drop_bit 4 (ptr ! 4) AND 0x3),
                  pixel_repeat := ptr ! 4 AND 0xf\<rparr>))"

section \<open>Source product description (SPD)\<close>

text \<open>
  \<open>strlen\<close> reads up to the first NUL; a region without one is read past its end (\<open>None\<close>). The
  arguments of \<open>hdmi_spd_infoframe_init\<close> are the bytes from the pointer to the end of the object.
\<close>

fun strlen :: "u8 list \<Rightarrow> nat option" where
  "strlen [] = None"
| "strlen (c # cs) = (if c = 0 then Some 0 else map_option Suc (strlen cs))"

definition copy_name :: "nat \<Rightarrow> u8 list \<Rightarrow> u8 list option" where
  "copy_name n s = do { l \<leftarrow> strlen s; buf_put (replicate n 0) 0 (take (min l n) s) }"

definition hdmi_spd_infoframe_init :: "u8 list \<Rightarrow> u8 list \<Rightarrow> hdmi_spd_infoframe option" where
  "hdmi_spd_infoframe_init vnd prd =
     do { v \<leftarrow> copy_name 8 vnd;
          p \<leftarrow> copy_name 16 prd;
          Some \<lparr>ftype = HDMI_INFOFRAME_TYPE_SPD, fversion = 1, flength = HDMI_SPD_INFOFRAME_SIZE,
                vendor = v, product = p, sdi = 0\<rparr> }"

definition hdmi_spd_infoframe_check_only :: "hdmi_spd_infoframe \<Rightarrow> unit res" where
  "hdmi_spd_infoframe_check_only frame =
     (if ftype frame \<noteq> HDMI_INFOFRAME_TYPE_SPD \<or> fversion frame \<noteq> 1
         \<or> flength frame \<noteq> HDMI_SPD_INFOFRAME_SIZE then Inl EINVAL else Inr ())"

definition hdmi_spd_infoframe_check :: "hdmi_spd_infoframe \<Rightarrow> unit res" where
  "hdmi_spd_infoframe_check frame = hdmi_spd_infoframe_check_only frame"

definition hdmi_spd_infoframe_pack_only ::
  "hdmi_spd_infoframe \<Rightarrow> u8 list \<Rightarrow> (u8 list \<times> nat) res" where
  "hdmi_spd_infoframe_pack_only frame buffer =
     bindE (hdmi_spd_infoframe_check_only frame) (\<lambda>_.
       let len = HDMI_INFOFRAME_HEADER_SIZE + unat (flength frame)
       in if length buffer < len then Inl ENOSPC
          else store_frame buffer len
                 (header_bytes frame @ vendor frame @ product frame @ [ucast (sdi frame)]))"

definition hdmi_spd_infoframe_pack ::
  "hdmi_spd_infoframe \<Rightarrow> u8 list \<Rightarrow> (u8 list \<times> nat) res" where
  "hdmi_spd_infoframe_pack frame buffer =
     bindE (hdmi_spd_infoframe_check frame) (\<lambda>_. hdmi_spd_infoframe_pack_only frame buffer)"

definition hdmi_spd_infoframe_unpack :: "u8 list \<Rightarrow> hdmi_spd_infoframe res" where
  "hdmi_spd_infoframe_unpack buffer =
     (if length buffer < 29 then Inl EINVAL
      else if ucast (buffer ! 0) \<noteq> HDMI_INFOFRAME_TYPE_SPD \<or> buffer ! 1 \<noteq> 1
              \<or> buffer ! 2 \<noteq> HDMI_SPD_INFOFRAME_SIZE then Inl EINVAL
      else if hdmi_infoframe_checksum buffer 29 \<noteq> Some 0 then Inl EINVAL
      else
        let ptr = drop HDMI_INFOFRAME_HEADER_SIZE buffer
        in bindE (of_opt Oob (hdmi_spd_infoframe_init ptr (drop 8 ptr)))
             (\<lambda>f. Inr (f\<lparr>sdi := ucast (ptr ! 24)\<rparr>)))"

section \<open>Audio\<close>

definition hdmi_audio_infoframe_init :: hdmi_audio_infoframe where
  "hdmi_audio_infoframe_init =
     \<lparr>ftype = HDMI_INFOFRAME_TYPE_AUDIO, fversion = 1, flength = HDMI_AUDIO_INFOFRAME_SIZE,
      channels = 0, coding_type = 0, sample_size = 0, sample_frequency = 0, coding_type_ext = 0,
      channel_allocation = 0, level_shift_value = 0, downmix_inhibit = False\<rparr>"

definition hdmi_audio_infoframe_check_only :: "hdmi_audio_infoframe \<Rightarrow> unit res" where
  "hdmi_audio_infoframe_check_only frame =
     (if ftype frame \<noteq> HDMI_INFOFRAME_TYPE_AUDIO \<or> fversion frame \<noteq> 1
         \<or> flength frame \<noteq> HDMI_AUDIO_INFOFRAME_SIZE then Inl EINVAL else Inr ())"

definition hdmi_audio_infoframe_check :: "hdmi_audio_infoframe \<Rightarrow> unit res" where
  "hdmi_audio_infoframe_check frame = hdmi_audio_infoframe_check_only frame"

text \<open>The five payload bytes; the rest of the ten is left zero.\<close>

definition hdmi_audio_infoframe_pack_payload :: "hdmi_audio_infoframe \<Rightarrow> u8 list" where
  "hdmi_audio_infoframe_pack_payload frame =
     (let chans = (if 2 \<le> channels frame then channels frame - 1 else 0);
          b4 = push_bit 3 (level_shift_value frame AND 0xf)
      in [ucast (push_bit 4 (coding_type frame AND 0xf) OR (ucast chans AND 0x7)),
          ucast (push_bit 2 (sample_frequency frame AND 0x7) OR (sample_size frame AND 0x3)),
          ucast (coding_type_ext frame AND 0x1f),
          channel_allocation frame,
          (if downmix_inhibit frame then b4 OR 0x80 else b4)])"

definition hdmi_audio_infoframe_pack_only ::
  "hdmi_audio_infoframe \<Rightarrow> u8 list \<Rightarrow> (u8 list \<times> nat) res" where
  "hdmi_audio_infoframe_pack_only frame buffer =
     bindE (hdmi_audio_infoframe_check_only frame) (\<lambda>_.
       let len = HDMI_INFOFRAME_HEADER_SIZE + unat (flength frame)
       in if length buffer < len then Inl ENOSPC
          else store_frame buffer len (header_bytes frame @ hdmi_audio_infoframe_pack_payload frame))"

definition hdmi_audio_infoframe_pack ::
  "hdmi_audio_infoframe \<Rightarrow> u8 list \<Rightarrow> (u8 list \<times> nat) res" where
  "hdmi_audio_infoframe_pack frame buffer =
     bindE (hdmi_audio_infoframe_check frame) (\<lambda>_. hdmi_audio_infoframe_pack_only frame buffer)"

text \<open>The secondary data packet of DisplayPort: four header bytes and 32 data bytes.\<close>

record dp_sdp =
  HB0 :: u8
  HB1 :: u8
  HB2 :: u8
  HB3 :: u8
  db :: "u8 list"

definition hdmi_audio_infoframe_pack_for_dp ::
  "hdmi_audio_infoframe \<Rightarrow> u8 \<Rightarrow> (dp_sdp \<times> nat) res" where
  "hdmi_audio_infoframe_pack_for_dp frame dp_version =
     bindE (hdmi_audio_infoframe_check frame) (\<lambda>_.
       bindE (of_opt Oob (buf_put (replicate 32 0) 0 (hdmi_audio_infoframe_pack_payload frame))) (\<lambda>d.
         Inr (\<lparr>HB0 = 0, HB1 = ucast (ftype frame), HB2 = 0x1b,
               HB3 = push_bit 2 (dp_version AND 0x3f), db = d\<rparr>, unat (flength frame) + 4)))"

definition hdmi_audio_infoframe_unpack :: "u8 list \<Rightarrow> hdmi_audio_infoframe res" where
  "hdmi_audio_infoframe_unpack buffer =
     (if length buffer < 14 then Inl EINVAL
      else if ucast (buffer ! 0) \<noteq> HDMI_INFOFRAME_TYPE_AUDIO \<or> buffer ! 1 \<noteq> 1
              \<or> buffer ! 2 \<noteq> HDMI_AUDIO_INFOFRAME_SIZE then Inl EINVAL
      else if hdmi_infoframe_checksum buffer 14 \<noteq> Some 0 then Inl EINVAL
      else
        let ptr = drop HDMI_INFOFRAME_HEADER_SIZE buffer
        in Inr (hdmi_audio_infoframe_init
                 \<lparr>channels := ptr ! 0 AND 0x7,
                  coding_type := ucast (drop_bit 4 (ptr ! 0) AND 0xf),
                  sample_size := ucast (ptr ! 1 AND 0x3),
                  sample_frequency := ucast (drop_bit 2 (ptr ! 1) AND 0x7),
                  coding_type_ext := ucast (ptr ! 2 AND 0x1f),
                  channel_allocation := ptr ! 3,
                  level_shift_value := drop_bit 3 (ptr ! 4) AND 0xf,
                  downmix_inhibit := (ptr ! 4 AND 0x80 \<noteq> 0)\<rparr>))"

section \<open>Vendor specific\<close>

definition hdmi_vendor_infoframe_init :: hdmi_vendor_infoframe where
  "hdmi_vendor_infoframe_init =
     \<lparr>ftype = HDMI_INFOFRAME_TYPE_VENDOR, fversion = 1, flength = HDMI_VENDOR_INFOFRAME_SIZE,
      oui = HDMI_IEEE_OUI, vic = 0, s3d_struct = HDMI_3D_STRUCTURE_INVALID, s3d_ext_data = 0\<rparr>"

definition hdmi_vendor_infoframe_length :: "hdmi_vendor_infoframe \<Rightarrow> u8" where
  "hdmi_vendor_infoframe_length frame =
     (if HDMI_3D_STRUCTURE_SIDE_BY_SIDE_HALF \<le>s s3d_struct frame then 6
      else if vic frame \<noteq> 0 \<or> s3d_struct frame \<noteq> HDMI_3D_STRUCTURE_INVALID then 5
      else 4)"

definition hdmi_vendor_infoframe_check_only :: "hdmi_vendor_infoframe \<Rightarrow> unit res" where
  "hdmi_vendor_infoframe_check_only frame =
     (if ftype frame \<noteq> HDMI_INFOFRAME_TYPE_VENDOR \<or> fversion frame \<noteq> 1
         \<or> oui frame \<noteq> HDMI_IEEE_OUI then Inl EINVAL
      else if vic frame \<noteq> 0 \<and> s3d_struct frame \<noteq> HDMI_3D_STRUCTURE_INVALID then Inl EINVAL
      else if flength frame \<noteq> hdmi_vendor_infoframe_length frame then Inl EINVAL
      else Inr ())"

text \<open>The check updates the length of the frame before it validates it.\<close>

definition hdmi_vendor_infoframe_check ::
  "hdmi_vendor_infoframe \<Rightarrow> hdmi_vendor_infoframe \<times> unit res" where
  "hdmi_vendor_infoframe_check frame =
     (let frame = frame\<lparr>flength := hdmi_vendor_infoframe_length frame\<rparr>
      in (frame, hdmi_vendor_infoframe_check_only frame))"

definition hdmi_vendor_infoframe_pack_only ::
  "hdmi_vendor_infoframe \<Rightarrow> u8 list \<Rightarrow> (u8 list \<times> nat) res" where
  "hdmi_vendor_infoframe_pack_only frame buffer =
     bindE (hdmi_vendor_infoframe_check_only frame) (\<lambda>_.
       let len = HDMI_INFOFRAME_HEADER_SIZE + unat (flength frame)
       in if length buffer < len then Inl ENOSPC
          else store_frame buffer len
                 (header_bytes frame @ [0x03, 0x0c, 0x00] @
                  (if s3d_struct frame \<noteq> HDMI_3D_STRUCTURE_INVALID
                   then [push_bit 5 0x2, ucast (push_bit 4 (s3d_struct frame AND 0xf))] @
                        (if HDMI_3D_STRUCTURE_SIDE_BY_SIDE_HALF \<le>s s3d_struct frame
                         then [ucast (push_bit 4 (s3d_ext_data frame AND 0xf))] else [])
                   else if vic frame \<noteq> 0 then [push_bit 5 0x1, vic frame]
                   else [push_bit 5 0x0])))"

definition hdmi_vendor_infoframe_pack ::
  "hdmi_vendor_infoframe \<Rightarrow> u8 list \<Rightarrow> hdmi_vendor_infoframe \<times> (u8 list \<times> nat) res" where
  "hdmi_vendor_infoframe_pack frame buffer =
     (let (frame, ret) = hdmi_vendor_infoframe_check frame
      in (frame, bindE ret (\<lambda>_. hdmi_vendor_infoframe_pack_only frame buffer)))"

definition hdmi_vendor_any_infoframe_check_only :: "hdmi_vendor_infoframe \<Rightarrow> unit res" where
  "hdmi_vendor_any_infoframe_check_only frame =
     (if ftype frame \<noteq> HDMI_INFOFRAME_TYPE_VENDOR \<or> fversion frame \<noteq> 1
      then Inl EINVAL else Inr ())"

definition hdmi_vendor_any_infoframe_check ::
  "hdmi_vendor_infoframe \<Rightarrow> hdmi_vendor_infoframe \<times> unit res" where
  "hdmi_vendor_any_infoframe_check frame =
     (case hdmi_vendor_any_infoframe_check_only frame of
        Inl e \<Rightarrow> (frame, Inl e)
      | Inr _ \<Rightarrow> if oui frame \<noteq> HDMI_IEEE_OUI then (frame, Inl EINVAL)
                 else hdmi_vendor_infoframe_check frame)"

definition hdmi_vendor_any_infoframe_pack_only ::
  "hdmi_vendor_infoframe \<Rightarrow> u8 list \<Rightarrow> (u8 list \<times> nat) res" where
  "hdmi_vendor_any_infoframe_pack_only frame buffer =
     bindE (hdmi_vendor_any_infoframe_check_only frame) (\<lambda>_.
       if oui frame \<noteq> HDMI_IEEE_OUI then Inl EINVAL
       else hdmi_vendor_infoframe_pack_only frame buffer)"

definition hdmi_vendor_any_infoframe_pack ::
  "hdmi_vendor_infoframe \<Rightarrow> u8 list \<Rightarrow> hdmi_vendor_infoframe \<times> (u8 list \<times> nat) res" where
  "hdmi_vendor_any_infoframe_pack frame buffer =
     (let (frame, ret) = hdmi_vendor_any_infoframe_check frame
      in (frame, bindE ret (\<lambda>_. hdmi_vendor_any_infoframe_pack_only frame buffer)))"

definition hdmi_vendor_any_infoframe_unpack :: "u8 list \<Rightarrow> hdmi_vendor_infoframe res" where
  "hdmi_vendor_any_infoframe_unpack buffer =
     (if length buffer < HDMI_INFOFRAME_HEADER_SIZE then Inl EINVAL
      else if ucast (buffer ! 0) \<noteq> HDMI_INFOFRAME_TYPE_VENDOR \<or> buffer ! 1 \<noteq> 1
              \<or> (buffer ! 2 \<noteq> 4 \<and> buffer ! 2 \<noteq> 5 \<and> buffer ! 2 \<noteq> 6) then Inl EINVAL
      else
        let len = unat (buffer ! 2)
        in if length buffer < HDMI_INFOFRAME_HEADER_SIZE + len then Inl EINVAL
           else if hdmi_infoframe_checksum buffer (HDMI_INFOFRAME_HEADER_SIZE + len) \<noteq> Some 0
           then Inl EINVAL
           else
             let ptr = drop HDMI_INFOFRAME_HEADER_SIZE buffer
             in if ptr ! 0 \<noteq> 0x03 \<or> ptr ! 1 \<noteq> 0x0c \<or> ptr ! 2 \<noteq> 0x00 then Inl EINVAL
                else
                  let hdmi_video_format = drop_bit 5 (ptr ! 3);
                      hvf = hdmi_vendor_infoframe_init\<lparr>flength := word_of_nat len\<rparr>
                  in if 0x2 < hdmi_video_format then Inl EINVAL
                     else if hdmi_video_format = 0x2 then
                       if len \<noteq> 5 \<and> len \<noteq> 6 then Inl EINVAL
                       else
                         let hvf = hvf\<lparr>s3d_struct := ucast (drop_bit 4 (ptr ! 4))\<rparr>
                         in if HDMI_3D_STRUCTURE_SIDE_BY_SIDE_HALF \<le>s s3d_struct hvf then
                              if len \<noteq> 6 then Inl EINVAL
                              else Inr (hvf\<lparr>s3d_ext_data := ucast (drop_bit 4 (ptr ! 5))\<rparr>)
                            else Inr hvf
                     else if hdmi_video_format = 0x1 then
                       if len \<noteq> 5 then Inl EINVAL else Inr (hvf\<lparr>vic := ptr ! 4\<rparr>)
                     else if len \<noteq> 4 then Inl EINVAL else Inr hvf)"

section \<open>Dynamic range and mastering (DRM)\<close>

definition hdmi_drm_infoframe_init :: hdmi_drm_infoframe where
  "hdmi_drm_infoframe_init =
     \<lparr>ftype = HDMI_INFOFRAME_TYPE_DRM, fversion = 1, flength = HDMI_DRM_INFOFRAME_SIZE,
      eotf = 0, metadata_type = 0, display_primaries = replicate 3 (0, 0), white_point = (0, 0),
      max_display_mastering_luminance = 0, min_display_mastering_luminance = 0,
      max_cll = 0, max_fall = 0\<rparr>"

definition hdmi_drm_infoframe_check_only :: "hdmi_drm_infoframe \<Rightarrow> unit res" where
  "hdmi_drm_infoframe_check_only frame =
     (if ftype frame \<noteq> HDMI_INFOFRAME_TYPE_DRM \<or> fversion frame \<noteq> 1 then Inl EINVAL
      else if flength frame \<noteq> HDMI_DRM_INFOFRAME_SIZE then Inl EINVAL
      else Inr ())"

definition hdmi_drm_infoframe_check :: "hdmi_drm_infoframe \<Rightarrow> unit res" where
  "hdmi_drm_infoframe_check frame = hdmi_drm_infoframe_check_only frame"

text \<open>A 16 bit value as two bytes, low one first: \<open>*ptr++ = v; *ptr++ = v >> 8\<close>.\<close>

definition le16_bytes :: "u16 \<Rightarrow> u8 list" where
  "le16_bytes v = [ucast v, ucast (drop_bit 8 v)]"

definition drm_payload :: "hdmi_drm_infoframe \<Rightarrow> u8 list" where
  "drm_payload frame =
     [ucast (eotf frame), ucast (metadata_type frame)] @
     concat (map (\<lambda>(x, y). le16_bytes x @ le16_bytes y) (display_primaries frame)) @
     le16_bytes (fst (white_point frame)) @ le16_bytes (snd (white_point frame)) @
     le16_bytes (max_display_mastering_luminance frame) @
     le16_bytes (min_display_mastering_luminance frame) @
     le16_bytes (max_cll frame) @ le16_bytes (max_fall frame)"

text \<open>Unlike the other routines, this one packs without checking the frame.\<close>

definition hdmi_drm_infoframe_pack_only ::
  "hdmi_drm_infoframe \<Rightarrow> u8 list \<Rightarrow> (u8 list \<times> nat) res" where
  "hdmi_drm_infoframe_pack_only frame buffer =
     (let len = HDMI_INFOFRAME_HEADER_SIZE + unat (flength frame)
      in if length buffer < len then Inl ENOSPC
         else store_frame buffer len (header_bytes frame @ drm_payload frame))"

definition hdmi_drm_infoframe_pack ::
  "hdmi_drm_infoframe \<Rightarrow> u8 list \<Rightarrow> (u8 list \<times> nat) res" where
  "hdmi_drm_infoframe_pack frame buffer =
     bindE (hdmi_drm_infoframe_check frame) (\<lambda>_. hdmi_drm_infoframe_pack_only frame buffer)"

definition hdmi_drm_infoframe_unpack_only :: "u8 list \<Rightarrow> hdmi_drm_infoframe res" where
  "hdmi_drm_infoframe_unpack_only ptr =
     (if length ptr < HDMI_DRM_INFOFRAME_SIZE then Inl EINVAL
      else Inr (hdmi_drm_infoframe_init
             \<lparr>eotf := ucast (ptr ! 0 AND 0x7),
              metadata_type := ucast (ptr ! 1 AND 0x7),
              display_primaries := map (\<lambda>i. (le16 (ptr ! (2 + 4 * i)) (ptr ! (3 + 4 * i)),
                                            le16 (ptr ! (4 + 4 * i)) (ptr ! (5 + 4 * i)))) [0, 1, 2],
              white_point := (le16 (ptr ! 14) (ptr ! 15), le16 (ptr ! 16) (ptr ! 17)),
              max_display_mastering_luminance := le16 (ptr ! 18) (ptr ! 19),
              min_display_mastering_luminance := le16 (ptr ! 20) (ptr ! 21),
              max_cll := le16 (ptr ! 22) (ptr ! 23),
              max_fall := le16 (ptr ! 24) (ptr ! 25)\<rparr>))"

definition hdmi_drm_infoframe_unpack :: "u8 list \<Rightarrow> hdmi_drm_infoframe res" where
  "hdmi_drm_infoframe_unpack buffer =
     (if length buffer < 30 then Inl EINVAL
      else if ucast (buffer ! 0) \<noteq> HDMI_INFOFRAME_TYPE_DRM \<or> buffer ! 1 \<noteq> 1
              \<or> buffer ! 2 \<noteq> HDMI_DRM_INFOFRAME_SIZE then Inl EINVAL
      else if hdmi_infoframe_checksum buffer 30 \<noteq> Some 0 then Inl EINVAL
      else hdmi_drm_infoframe_unpack_only (drop HDMI_INFOFRAME_HEADER_SIZE buffer))"

section \<open>The union of all frames and the generic routines\<close>

text \<open>
  The union with the member that was stored last. The generic routines look at the type in the
  shared header; reading another member than the one stored is outside the model (\<open>Oob\<close>).
\<close>

datatype hdmi_infoframe =
    Avi hdmi_avi_infoframe
  | Spd hdmi_spd_infoframe
  | Vendor hdmi_vendor_infoframe
  | Audio hdmi_audio_infoframe
  | Drm hdmi_drm_infoframe

fun any_type :: "hdmi_infoframe \<Rightarrow> u32" where
  "any_type (Avi f) = ftype f"
| "any_type (Spd f) = ftype f"
| "any_type (Vendor f) = ftype f"
| "any_type (Audio f) = ftype f"
| "any_type (Drm f) = ftype f"

definition hdmi_infoframe_check :: "hdmi_infoframe \<Rightarrow> hdmi_infoframe \<times> unit res" where
  "hdmi_infoframe_check frame =
     (if any_type frame = HDMI_INFOFRAME_TYPE_AVI
      then (case frame of Avi f \<Rightarrow> (frame, hdmi_avi_infoframe_check f) | _ \<Rightarrow> (frame, Inl Oob))
      else if any_type frame = HDMI_INFOFRAME_TYPE_SPD
      then (case frame of Spd f \<Rightarrow> (frame, hdmi_spd_infoframe_check f) | _ \<Rightarrow> (frame, Inl Oob))
      else if any_type frame = HDMI_INFOFRAME_TYPE_AUDIO
      then (case frame of Audio f \<Rightarrow> (frame, hdmi_audio_infoframe_check f) | _ \<Rightarrow> (frame, Inl Oob))
      else if any_type frame = HDMI_INFOFRAME_TYPE_VENDOR
      then (case frame of
              Vendor f \<Rightarrow> (case hdmi_vendor_any_infoframe_check f of (f, r) \<Rightarrow> (Vendor f, r))
            | _ \<Rightarrow> (frame, Inl Oob))
      else (frame, Inl EINVAL))"

definition hdmi_infoframe_pack_only :: "hdmi_infoframe \<Rightarrow> u8 list \<Rightarrow> (u8 list \<times> nat) res" where
  "hdmi_infoframe_pack_only frame buffer =
     (if any_type frame = HDMI_INFOFRAME_TYPE_AVI
      then (case frame of Avi f \<Rightarrow> hdmi_avi_infoframe_pack_only f buffer | _ \<Rightarrow> Inl Oob)
      else if any_type frame = HDMI_INFOFRAME_TYPE_DRM
      then (case frame of Drm f \<Rightarrow> hdmi_drm_infoframe_pack_only f buffer | _ \<Rightarrow> Inl Oob)
      else if any_type frame = HDMI_INFOFRAME_TYPE_SPD
      then (case frame of Spd f \<Rightarrow> hdmi_spd_infoframe_pack_only f buffer | _ \<Rightarrow> Inl Oob)
      else if any_type frame = HDMI_INFOFRAME_TYPE_AUDIO
      then (case frame of Audio f \<Rightarrow> hdmi_audio_infoframe_pack_only f buffer | _ \<Rightarrow> Inl Oob)
      else if any_type frame = HDMI_INFOFRAME_TYPE_VENDOR
      then (case frame of Vendor f \<Rightarrow> hdmi_vendor_any_infoframe_pack_only f buffer | _ \<Rightarrow> Inl Oob)
      else Inl EINVAL)"

definition hdmi_infoframe_pack ::
  "hdmi_infoframe \<Rightarrow> u8 list \<Rightarrow> hdmi_infoframe \<times> (u8 list \<times> nat) res" where
  "hdmi_infoframe_pack frame buffer =
     (if any_type frame = HDMI_INFOFRAME_TYPE_AVI
      then (frame, case frame of Avi f \<Rightarrow> hdmi_avi_infoframe_pack f buffer | _ \<Rightarrow> Inl Oob)
      else if any_type frame = HDMI_INFOFRAME_TYPE_DRM
      then (frame, case frame of Drm f \<Rightarrow> hdmi_drm_infoframe_pack f buffer | _ \<Rightarrow> Inl Oob)
      else if any_type frame = HDMI_INFOFRAME_TYPE_SPD
      then (frame, case frame of Spd f \<Rightarrow> hdmi_spd_infoframe_pack f buffer | _ \<Rightarrow> Inl Oob)
      else if any_type frame = HDMI_INFOFRAME_TYPE_AUDIO
      then (frame, case frame of Audio f \<Rightarrow> hdmi_audio_infoframe_pack f buffer | _ \<Rightarrow> Inl Oob)
      else if any_type frame = HDMI_INFOFRAME_TYPE_VENDOR
      then (case frame of
              Vendor f \<Rightarrow> (case hdmi_vendor_any_infoframe_pack f buffer of (f, r) \<Rightarrow> (Vendor f, r))
            | _ \<Rightarrow> (frame, Inl Oob))
      else (frame, Inl EINVAL))"

definition hdmi_infoframe_unpack :: "u8 list \<Rightarrow> hdmi_infoframe res" where
  "hdmi_infoframe_unpack buffer =
     (if length buffer < HDMI_INFOFRAME_HEADER_SIZE then Inl EINVAL
      else if ucast (buffer ! 0) = HDMI_INFOFRAME_TYPE_AVI
      then map_sum id Avi (hdmi_avi_infoframe_unpack buffer)
      else if ucast (buffer ! 0) = HDMI_INFOFRAME_TYPE_DRM
      then map_sum id Drm (hdmi_drm_infoframe_unpack buffer)
      else if ucast (buffer ! 0) = HDMI_INFOFRAME_TYPE_SPD
      then map_sum id Spd (hdmi_spd_infoframe_unpack buffer)
      else if ucast (buffer ! 0) = HDMI_INFOFRAME_TYPE_AUDIO
      then map_sum id Audio (hdmi_audio_infoframe_unpack buffer)
      else if ucast (buffer ! 0) = HDMI_INFOFRAME_TYPE_VENDOR
      then map_sum id Vendor (hdmi_vendor_any_infoframe_unpack buffer)
      else Inl EINVAL)"

end
