(* ===== verification/Infoframe_Props.thy ===== *)
theory Infoframe_Props
  imports Infoframe
begin

text \<open>
  The properties of the HDMI infoframe routines: the checksum every packed frame carries, what
  unpacking gives back for each kind of frame, and where the routines disagree. The field lemmas
  show, byte by byte, that a value which fits its field survives the shifts and masks; the generic
  round trip dispatches on the frame type and provides the \<open>checked_codec\<close> interface.
\<close>

section \<open>The checksum and the stored frame\<close>

lemma hdmi_infoframe_checksum_eq:
  "n \<le> length b \<Longrightarrow> hdmi_infoframe_checksum b n = Some (- sum_list (take n b))"
  by (simp add: hdmi_infoframe_checksum_def foldl_plus_sum_list)

lemma checksum_zero_iff:
  "hdmi_infoframe_checksum b n = Some 0 \<longleftrightarrow> n \<le> length b \<and> sum_list (take n b) = 0"
proof (cases "n \<le> length b")
  case True
  then show ?thesis by (simp add: hdmi_infoframe_checksum_eq)
qed (simp add: hdmi_infoframe_checksum_def)

lemma store_frame_ok:
  assumes len: "4 + length p \<le> len" "len \<le> length buffer"
  obtains c where
    "store_frame buffer len ([t, v, l, 0] @ p) =
       Inr ([t, v, l, c] @ p @ replicate (length buffer - (4 + length p)) 0, len)"
    "hdmi_infoframe_checksum ([t, v, l, c] @ p @ replicate (length buffer - (4 + length p)) 0) len = Some 0"
proof -
  let ?z = "replicate (length buffer - (4 + length p)) 0"
  let ?b = "[t, v, l, 0] @ p @ ?z"
  define c where "c = - sum_list (take len ?b)"
  have put: "buf_put (replicate (length buffer) 0) 0 ([t, v, l, 0] @ p) = Some ?b"
    using len by (simp add: buf_put_def)
  have sum: "hdmi_infoframe_checksum ?b len = Some c"
    using len by (simp add: hdmi_infoframe_checksum_eq c_def)
  have "buf_put ?b 3 [c] = Some ([t, v, l, c] @ p @ ?z)"
    by (simp add: buf_put_def numeral_3_eq_3)
  then have st: "store_frame buffer len ([t, v, l, 0] @ p) = Inr ([t, v, l, c] @ p @ ?z, len)"
    using put sum by (simp add: store_frame_def hdmi_infoframe_set_checksum_def)
  obtain k where k: "len = Suc (Suc (Suc (Suc k)))"
  proof
    show "len = Suc (Suc (Suc (Suc (len - 4))))" using len(1) by simp
  qed
  have "sum_list (take len ([t, v, l, c] @ p @ ?z)) = sum_list (take len ?b) + c"
    by (simp add: k algebra_simps)
  then have "hdmi_infoframe_checksum ([t, v, l, c] @ p @ ?z) len = Some 0"
    using len by (simp add: checksum_zero_iff c_def)
  with st show ?thesis by (rule that)
qed

section \<open>AVI: fields and bytes\<close>

lemma le16_split: "le16 (ucast (v AND 0xff)) (ucast (drop_bit 8 v AND 0xff)) = v"
  by (rule bit_word_eqI) (auto simp: le16_def field_simps8)

lemma le16_bytes: "le16 (ucast v) (ucast (drop_bit 8 v)) = v"
  by (rule bit_word_eqI) (auto simp: le16_def field_simps8)

definition avi_valid :: "hdmi_avi_infoframe \<Rightarrow> bool" where
  "avi_valid f \<longleftrightarrow> hdmi_avi_infoframe_check f = Inr () \<and>
     colorspace f < 4 \<and> scan_mode f < 4 \<and> colorimetry f < 4 \<and> active_aspect f < 16 \<and>
     extended_colorimetry f < 8 \<and> quantization_range f < 4 \<and> nups f < 4 \<and> video_code f < 128 \<and>
     ycc_quantization_range f < 4 \<and> content_type f < 4 \<and> pixel_repeat f < 16"

lemma avi_valid_fits:
  assumes "avi_valid f"
  shows "fits 2 (colorspace f)" "fits 2 (scan_mode f)" "fits 2 (colorimetry f)" "fits 2 (picture_aspect f)"
    "fits 4 (active_aspect f)" "fits 3 (extended_colorimetry f)" "fits 2 (quantization_range f)" "fits 2 (nups f)"
    "fits 7 (video_code f)" "fits 2 (ycc_quantization_range f)" "fits 2 (content_type f)" "fits 4 (pixel_repeat f)"
proof -
  have "\<not> 2 < picture_aspect f"
    using assms by (auto simp: avi_valid_def hdmi_avi_infoframe_check_def hdmi_avi_infoframe_check_only_def split: if_splits)
  then have "picture_aspect f \<le> 2" by simp
  then have "picture_aspect f < 4" by (rule le_less_trans) simp
  then show "fits 2 (picture_aspect f)" by (rule fits_numeral)
qed (use assms in \<open>auto simp: avi_valid_def intro: fits_numeral\<close>)

lemma avi_byte0_fields:
  assumes "fits 2 (colorspace f)" "fits 2 (scan_mode f)"
  shows "ucast (drop_bit 5 (avi_byte0 f) AND 0x3) = colorspace f"
    and "ucast (avi_byte0 f AND 0x3) = scan_mode f"
    and "avi_byte0 f AND 0x8 \<noteq> 0 \<longleftrightarrow> top_bar f \<noteq> 0 \<or> bottom_bar f \<noteq> 0"
    and "avi_byte0 f AND 0x4 \<noteq> 0 \<longleftrightarrow> left_bar f \<noteq> 0 \<or> right_bar f \<noteq> 0"
proof -
  define t l a where "t \<longleftrightarrow> top_bar f \<noteq> 0 \<or> bottom_bar f \<noteq> 0" and "l \<longleftrightarrow> left_bar f \<noteq> 0 \<or> right_bar f \<noteq> 0"
    and "a \<longleftrightarrow> active_aspect f AND 0xf \<noteq> 0"
  have bits: "bit (avi_byte0 f) n \<longleftrightarrow> n < 8 \<and> (5 \<le> n \<and> n < 7 \<and> bit (colorspace f) (n - 5) \<or> n < 2 \<and> bit (scan_mode f) n
      \<or> a \<and> n = 4 \<or> t \<and> n = 3 \<or> l \<and> n = 2)" for n
    unfolding avi_byte0_def Let_def t_def [symmetric] l_def [symmetric] a_def [symmetric]
    by (auto simp: field_simps8)
  show "ucast (drop_bit 5 (avi_byte0 f) AND 0x3) = colorspace f" "ucast (avi_byte0 f AND 0x3) = scan_mode f"
    using assms by (auto intro!: bit_word_eqI simp: and_masks bit_simps bits dest: fits_bit)
  show "avi_byte0 f AND 0x8 \<noteq> 0 \<longleftrightarrow> top_bar f \<noteq> 0 \<or> bottom_bar f \<noteq> 0"
    "avi_byte0 f AND 0x4 \<noteq> 0 \<longleftrightarrow> left_bar f \<noteq> 0 \<or> right_bar f \<noteq> 0"
    by (simp_all only: and_bit_nonzero bits t_def [symmetric] l_def [symmetric]) auto
qed

lemma avi_byte1_fields:
  assumes "fits 2 (colorimetry f)" "fits 2 (picture_aspect f)" "fits 4 (active_aspect f)"
  shows "ucast (drop_bit 6 (avi_byte1 f) AND 0x3) = colorimetry f"
    "ucast (drop_bit 4 (avi_byte1 f) AND 0x3) = picture_aspect f" "ucast (avi_byte1 f AND 0xf) = active_aspect f"
  using assms by (auto simp: avi_byte1_def Let_def field_simps8 dest: fits_bit intro!: bit_word_eqI)

lemma avi_byte2_fields:
  assumes "fits 3 (extended_colorimetry f)" "fits 2 (quantization_range f)" "fits 2 (nups f)"
  shows "ucast (drop_bit 4 (avi_byte2 f) AND 0x7) = extended_colorimetry f"
    "ucast (drop_bit 2 (avi_byte2 f) AND 0x3) = quantization_range f" "ucast (avi_byte2 f AND 0x3) = nups f"
    "avi_byte2 f AND 0x80 \<noteq> 0 \<longleftrightarrow> itc f"
  using assms by (auto simp: avi_byte2_def Let_def field_simps8 dest: fits_bit intro!: bit_word_eqI)

lemma avi_byte4_fields:
  assumes "fits 2 (ycc_quantization_range f)" "fits 2 (content_type f)" "fits 4 (pixel_repeat f)"
  shows "ucast (drop_bit 6 (avi_byte4 f) AND 0x3) = ycc_quantization_range f"
    "ucast (drop_bit 4 (avi_byte4 f) AND 0x3) = content_type f" "avi_byte4 f AND 0xf = pixel_repeat f"
  using assms by (auto simp: avi_byte4_def Let_def field_simps8 dest: fits_bit intro!: bit_word_eqI)

lemma byte_7: "fits 7 (c::u8) \<Longrightarrow> (c AND 0x7f) AND 0x7f = c"
  by (auto simp: field_simps8 dest: fits_bit intro!: bit_word_eqI)

lemma pack_avi:
  assumes ok: "hdmi_avi_infoframe_check f = Inr ()" and size: "17 \<le> length buffer"
  obtains c where "hdmi_avi_infoframe_pack f buffer =
      Inr ([0x82, 2, 13, c] @ avi_payload f @ replicate (length buffer - 17) 0, 17)"
    "hdmi_infoframe_checksum ([0x82, 2, 13, c] @ avi_payload f @ replicate (length buffer - 17) 0) 17 = Some 0"
proof -
  have ok': "hdmi_avi_infoframe_check_only f = Inr ()"
    using ok by (simp add: hdmi_avi_infoframe_check_def)
  have h: "header_bytes f = [0x82, 2, 13, 0]" "flength f = 13"
    using ok' by (auto simp: hdmi_avi_infoframe_check_only_def header_bytes_def hdmi_types split: if_splits)
  have l: "length (avi_payload f) = 13" by (simp add: avi_payload_def bar_bytes_def)
  obtain c where "store_frame buffer 17 ([0x82, 2, 13, 0] @ avi_payload f) =
      Inr ([0x82, 2, 13, c] @ avi_payload f @ replicate (length buffer - 17) 0, 17)"
    "hdmi_infoframe_checksum ([0x82, 2, 13, c] @ avi_payload f @ replicate (length buffer - 17) 0) 17 = Some 0"
    using store_frame_ok [of "avi_payload f" 17 buffer "0x82" 2 13] l size by auto
  then show ?thesis
    using ok ok' h size
    by (intro that [of c]) (simp_all add: hdmi_avi_infoframe_pack_def hdmi_avi_infoframe_pack_only_def)
qed

lemma avi_unpack_bytes:
  assumes cs: "hdmi_infoframe_checksum ([0x82, 2, 13, c, b0, b1, b2, b3, b4, t0, t1, u0, u1, l0, l1, r0, r1] @ z) 17 = Some 0"
  shows "hdmi_avi_infoframe_unpack ([0x82, 2, 13, c, b0, b1, b2, b3, b4, t0, t1, u0, u1, l0, l1, r0, r1] @ z) =
    Inr \<lparr>ftype = HDMI_INFOFRAME_TYPE_AVI, fversion = 2, flength = 13,
      colorspace = ucast (drop_bit 5 b0 AND 0x3), scan_mode = ucast (b0 AND 0x3),
      colorimetry = ucast (drop_bit 6 b1 AND 0x3), picture_aspect = ucast (drop_bit 4 b1 AND 0x3),
      active_aspect = ucast (b1 AND 0xf), itc = (b2 AND 0x80 \<noteq> 0),
      extended_colorimetry = ucast (drop_bit 4 b2 AND 0x7),
      quantization_range = ucast (drop_bit 2 b2 AND 0x3), nups = ucast (b2 AND 0x3),
      video_code = b3 AND 0x7f, ycc_quantization_range = ucast (drop_bit 6 b4 AND 0x3),
      content_type = ucast (drop_bit 4 b4 AND 0x3), pixel_repeat = b4 AND 0xf,
      top_bar = (if b0 AND 0x8 \<noteq> 0 then le16 t0 t1 else 0),
      bottom_bar = (if b0 AND 0x8 \<noteq> 0 then le16 u0 u1 else 0),
      left_bar = (if b0 AND 0x4 \<noteq> 0 then le16 l0 l1 else 0),
      right_bar = (if b0 AND 0x4 \<noteq> 0 then le16 r0 r1 else 0)\<rparr>"
  using cs unfolding hdmi_avi_infoframe_unpack_def Let_def
  by (simp add: hdmi_avi_infoframe_init_def hdmi_types)

lemma avi_unpack_payload:
  assumes v: "avi_valid f"
    and cs: "hdmi_infoframe_checksum ([0x82, 2, 13, c] @ avi_payload f @ z) 17 = Some 0"
  shows "hdmi_avi_infoframe_unpack ([0x82, 2, 13, c] @ avi_payload f @ z) = Inr f"
proof -
  note fits = avi_valid_fits [OF v]
  note fields = avi_byte0_fields [OF fits(1,2)] avi_byte1_fields [OF fits(3,4,5)]
    avi_byte2_fields [OF fits(6,7,8)] avi_byte4_fields [OF fits(10,11,12)] byte_7 [OF fits(9)] le16_split
  have hdr: "ftype f = HDMI_INFOFRAME_TYPE_AVI" "fversion f = 2" "flength f = 13"
    using v by (auto simp: avi_valid_def hdmi_avi_infoframe_check_def hdmi_avi_infoframe_check_only_def split: if_splits)
  have payload: "[0x82, 2, 13, c] @ avi_payload f @ z =
    [0x82, 2, 13, c, avi_byte0 f, avi_byte1 f, avi_byte2 f, video_code f AND 0x7f, avi_byte4 f,
     ucast (top_bar f AND 0xff), ucast (drop_bit 8 (top_bar f) AND 0xff),
     ucast (bottom_bar f AND 0xff), ucast (drop_bit 8 (bottom_bar f) AND 0xff),
     ucast (left_bar f AND 0xff), ucast (drop_bit 8 (left_bar f) AND 0xff),
     ucast (right_bar f AND 0xff), ucast (drop_bit 8 (right_bar f) AND 0xff)] @ z"
    by (simp only: avi_payload_def bar_bytes_def append.simps)
  show ?thesis
    unfolding payload avi_unpack_bytes [OF cs [unfolded payload]] sum.inject fields
    by (rule hdmi_avi_infoframe.equality) (auto simp only: hdr hdmi_any_infoframe.simps hdmi_avi_infoframe.simps if_True if_False split: if_splits, simp)
qed

section \<open>SPD: names and the scan for their end\<close>

lemma strlen_eq: "strlen s = (if 0 \<in> set s then Some (length (takeWhile (\<lambda>c. c \<noteq> 0) s)) else None)"
  by (induction s) auto

definition nul_padded :: "u8 list \<Rightarrow> bool" where
  "nul_padded xs \<longleftrightarrow> list_all (\<lambda>c. c = 0) (dropWhile (\<lambda>c. c \<noteq> 0) xs)"

lemma nul_padded_eq:
  assumes "nul_padded xs"
  shows "xs = takeWhile (\<lambda>c. c \<noteq> 0) xs @ replicate (length xs - length (takeWhile (\<lambda>c. c \<noteq> 0) xs)) 0"
proof -
  have "\<forall>y\<in>set (dropWhile (\<lambda>c. c \<noteq> 0) xs). y = 0"
    using assms unfolding nul_padded_def list_all_iff .
  then have "dropWhile (\<lambda>c. c \<noteq> 0) xs = replicate (length (dropWhile (\<lambda>c. c \<noteq> 0) xs)) 0"
    by (rule replicate_length_same [symmetric])
  also have "length (dropWhile (\<lambda>c. c \<noteq> 0) xs) = length xs - length (takeWhile (\<lambda>c. c \<noteq> 0) xs)"
    by (metis add_diff_cancel_left' length_append takeWhile_dropWhile_id)
  finally show ?thesis by (metis takeWhile_dropWhile_id)
qed

lemma copy_name_None: "copy_name n s = None \<longleftrightarrow> 0 \<notin> set s"
  by (auto simp: copy_name_def strlen_eq buf_put_def)

lemma copy_name_padded:
  assumes "nul_padded xs" "0 \<in> set (xs @ ys)" "length xs = n"
  shows "copy_name n (xs @ ys) = Some xs"
proof (cases "0 \<in> set xs")
  case True
  let ?t = "takeWhile (\<lambda>c. c \<noteq> 0) xs"
  have t: "takeWhile (\<lambda>c. c \<noteq> 0) (xs @ ys) = ?t"
    using True by (metis (mono_tags) takeWhile_append1)
  have l: "length ?t \<le> n" using assms(3) length_takeWhile_le by metis
  have "take (length ?t) (xs @ ys) = ?t"
    by (metis append.assoc append_eq_conv_conj takeWhile_dropWhile_id)
  then show ?thesis
    using True t l nul_padded_eq [OF assms(1)] assms(3)
    by (simp add: copy_name_def strlen_eq buf_put_def min_absorb1)
next
  case False
  then have "takeWhile (\<lambda>c. c \<noteq> 0) (xs @ ys) = xs @ takeWhile (\<lambda>c. c \<noteq> 0) ys"
    by (metis (mono_tags) takeWhile_append2)
  then show ?thesis
    using False assms(2,3) by (simp add: copy_name_def strlen_eq buf_put_def min_absorb2)
qed

definition spd_valid :: "hdmi_spd_infoframe \<Rightarrow> bool" where
  "spd_valid f \<longleftrightarrow> hdmi_spd_infoframe_check f = Inr () \<and> length (vendor f) = 8 \<and> length (product f) = 16 \<and>
     nul_padded (vendor f) \<and> nul_padded (product f) \<and> sdi f < 256"

lemma spd_unpack_bytes:
  assumes cs: "hdmi_infoframe_checksum ([0x83, 1, 25, c] @ v @ p @ [s] @ z) 29 = Some 0"
    and l: "length v = 8" "length p = 16"
  shows "hdmi_spd_infoframe_unpack ([0x83, 1, 25, c] @ v @ p @ [s] @ z) =
    (case (copy_name 8 (v @ p @ [s] @ z), copy_name 16 (p @ [s] @ z)) of
       (Some v', Some p') \<Rightarrow> Inr \<lparr>ftype = HDMI_INFOFRAME_TYPE_SPD, fversion = 1, flength = 25,
                               vendor = v', product = p', sdi = ucast s\<rparr>
     | _ \<Rightarrow> Inl Oob)"
  using cs l unfolding hdmi_spd_infoframe_unpack_def Let_def
  by (simp add: hdmi_types hdmi_spd_infoframe_init_def nth_append split: option.splits)

lemma pack_spd:
  assumes ok: "hdmi_spd_infoframe_check f = Inr ()" and l: "length (vendor f) = 8" "length (product f) = 16"
    and size: "29 \<le> length buffer"
  obtains c where "hdmi_spd_infoframe_pack f buffer =
      Inr ([0x83, 1, 25, c] @ vendor f @ product f @ [ucast (sdi f)] @ replicate (length buffer - 29) 0, 29)"
    "hdmi_infoframe_checksum ([0x83, 1, 25, c] @ vendor f @ product f @ [ucast (sdi f)] @ replicate (length buffer - 29) 0) 29 = Some 0"
proof -
  have ok': "hdmi_spd_infoframe_check_only f = Inr ()"
    using ok by (simp add: hdmi_spd_infoframe_check_def)
  have h: "header_bytes f = [0x83, 1, 25, 0]" "flength f = 25"
    using ok' by (auto simp: hdmi_spd_infoframe_check_only_def header_bytes_def hdmi_types split: if_splits)
  let ?p = "vendor f @ product f @ [ucast (sdi f)]"
  obtain c where c: "store_frame buffer 29 ([0x83, 1, 25, 0] @ ?p) =
      Inr ([0x83, 1, 25, c] @ ?p @ replicate (length buffer - 29) 0, 29)"
    "hdmi_infoframe_checksum ([0x83, 1, 25, c] @ ?p @ replicate (length buffer - 29) 0) 29 = Some 0"
    using store_frame_ok [of ?p 29 buffer "0x83" 1 25] l size by auto
  show ?thesis
  proof (rule that [of c])
    show "hdmi_spd_infoframe_pack f buffer =
      Inr ([0x83, 1, 25, c] @ vendor f @ product f @ [ucast (sdi f)] @ replicate (length buffer - 29) 0, 29)"
      using c(1) ok ok' h size by (simp add: hdmi_spd_infoframe_pack_def hdmi_spd_infoframe_pack_only_def)
  qed (use c(2) in simp)
qed

lemma spd_roundtrip_cases:
  assumes "spd_valid f" "29 \<le> length buffer"
  shows "\<exists>b. hdmi_spd_infoframe_pack f buffer = Inr (b, 29) \<and> length b = length buffer \<and>
    hdmi_spd_infoframe_unpack b =
      (if 0 \<in> set (product f) \<or> sdi f = 0 \<or> 29 < length buffer then Inr f else Inl Oob)"
proof -
  note v = assms(1) [unfolded spd_valid_def]
  obtain c where c: "hdmi_spd_infoframe_pack f buffer =
      Inr ([0x83, 1, 25, c] @ vendor f @ product f @ [ucast (sdi f)] @ replicate (length buffer - 29) 0, 29)"
    "hdmi_infoframe_checksum ([0x83, 1, 25, c] @ vendor f @ product f @ [ucast (sdi f)] @ replicate (length buffer - 29) 0) 29 = Some 0"
    using pack_spd v assms(2) by blast
  let ?b = "[0x83, 1, 25, c] @ vendor f @ product f @ [ucast (sdi f)] @ replicate (length buffer - 29) 0"
  have sdi: "ucast (ucast (sdi f) :: u8) = sdi f"
    using v fits_numeral(7) [of "sdi f"] by (auto intro!: bit_word_eqI simp: bit_simps dest: fits_bit)
  then have sdi0: "(ucast (sdi f) :: u8) = 0 \<longleftrightarrow> sdi f = 0" by (metis unsigned_0)
  have hdr: "ftype f = HDMI_INFOFRAME_TYPE_SPD" "fversion f = 1" "flength f = 25"
    using v by (auto simp: hdmi_spd_infoframe_check_def hdmi_spd_infoframe_check_only_def split: if_splits)
  have "hdmi_spd_infoframe_unpack ?b =
      (if 0 \<in> set (product f) \<or> sdi f = 0 \<or> 29 < length buffer then Inr f else Inl Oob)"
  proof (cases "0 \<in> set (product f @ [ucast (sdi f)] @ replicate (length buffer - 29) 0)")
    case True
    then have n: "copy_name 16 (product f @ [ucast (sdi f)] @ replicate (length buffer - 29) 0) = Some (product f)"
      "copy_name 8 (vendor f @ product f @ [ucast (sdi f)] @ replicate (length buffer - 29) 0) = Some (vendor f)"
      using v by (auto intro!: copy_name_padded)
    have "0 \<in> set (product f) \<or> sdi f = 0 \<or> 29 < length buffer"
      using True sdi0 by auto
    then show ?thesis
      using spd_unpack_bytes [OF c(2)] v n sdi hdr by (cases f) simp
  next
    case False
    then have n: "copy_name 16 (product f @ [ucast (sdi f)] @ replicate (length buffer - 29) 0) = None"
      using copy_name_None by blast
    have "\<not> (0 \<in> set (product f) \<or> sdi f = 0 \<or> 29 < length buffer)"
      using False sdi0 by auto
    then show ?thesis
      using spd_unpack_bytes [OF c(2)] v n by (simp split: option.splits)
  qed
  moreover have "length ?b = length buffer" using v assms(2) by simp
  ultimately show ?thesis using c(1) by blast
qed

section \<open>Audio\<close>

definition audio_valid :: "hdmi_audio_infoframe \<Rightarrow> bool" where
  "audio_valid f \<longleftrightarrow> hdmi_audio_infoframe_check f = Inr () \<and> channels f \<le> 8 \<and> coding_type f < 16 \<and>
     sample_size f < 4 \<and> sample_frequency f < 8 \<and> coding_type_ext f < 32 \<and> level_shift_value f < 16"

definition audio_chans :: "hdmi_audio_infoframe \<Rightarrow> u8" where
  "audio_chans f = (if 2 \<le> channels f then channels f - 1 else 0)"

lemma audio_chans_fits: "channels f \<le> 8 \<Longrightarrow> fits 3 (audio_chans f)"
proof -
  assume "channels f \<le> 8"
  then have "audio_chans f < 8"
    by (auto simp: audio_chans_def unat_arith_simps)
  then show ?thesis using fitsI [of "audio_chans f" 3] by simp
qed

lemma audio_bytes_fields:
  assumes "fits 4 (ct :: u32)" "fits 3 (ch :: u8)" "fits 3 (sf :: u32)" "fits 2 (ss :: u32)" "fits 5 (ext :: u32)"
    "fits 4 (lsv :: u8)"
  shows "(ucast (push_bit 4 (ct AND 0xf) OR (ucast ch AND 0x7)) :: u8) AND 0x7 = ch"
    "ucast (drop_bit 4 (ucast (push_bit 4 (ct AND 0xf) OR (ucast ch AND 0x7)) :: u8) AND 0xf) = ct"
    "ucast ((ucast (push_bit 2 (sf AND 0x7) OR (ss AND 0x3)) :: u8) AND 0x3) = ss"
    "ucast (drop_bit 2 (ucast (push_bit 2 (sf AND 0x7) OR (ss AND 0x3)) :: u8) AND 0x7) = sf"
    "ucast ((ucast (ext AND 0x1f) :: u8) AND 0x1f) = ext"
    "drop_bit 3 (if d then push_bit 3 (lsv AND 0xf) OR 0x80 else push_bit 3 (lsv AND 0xf)) AND 0xf = lsv"
    "(if d then push_bit 3 (lsv AND 0xf) OR 0x80 else push_bit 3 (lsv AND 0xf)) AND 0x80 \<noteq> 0 \<longleftrightarrow> d"
  using assms by (auto simp: field_simps8 dest: fits_bit intro!: bit_word_eqI)

lemma audio_unpack_bytes:
  assumes cs: "hdmi_infoframe_checksum ([0x84, 1, 10, c, b0, b1, b2, b3, b4] @ z) 14 = Some 0"
    and l: "5 \<le> length z"
  shows "hdmi_audio_infoframe_unpack ([0x84, 1, 10, c, b0, b1, b2, b3, b4] @ z) =
    Inr \<lparr>ftype = HDMI_INFOFRAME_TYPE_AUDIO, fversion = 1, flength = 10,
      channels = b0 AND 0x7, coding_type = ucast (drop_bit 4 b0 AND 0xf),
      sample_size = ucast (b1 AND 0x3), sample_frequency = ucast (drop_bit 2 b1 AND 0x7),
      coding_type_ext = ucast (b2 AND 0x1f), channel_allocation = b3,
      level_shift_value = drop_bit 3 b4 AND 0xf, downmix_inhibit = (b4 AND 0x80 \<noteq> 0)\<rparr>"
  using cs l unfolding hdmi_audio_infoframe_unpack_def Let_def
  by (simp add: hdmi_audio_infoframe_init_def hdmi_types)

lemma audio_roundtrip_aux:
  assumes "audio_valid f" "14 \<le> length buffer"
  obtains b where "hdmi_audio_infoframe_pack f buffer = Inr (b, 14)" "length b = length buffer"
    "hdmi_audio_infoframe_unpack b = Inr (f\<lparr>channels := audio_chans f\<rparr>)"
proof -
  note v = assms(1) [unfolded audio_valid_def]
  have ok: "hdmi_audio_infoframe_check_only f = Inr ()"
    using v by (simp add: hdmi_audio_infoframe_check_def)
  have hdr: "ftype f = HDMI_INFOFRAME_TYPE_AUDIO" "fversion f = 1" "flength f = 10"
    using ok by (auto simp: hdmi_audio_infoframe_check_only_def split: if_splits)
  have h: "header_bytes f = [0x84, 1, 10, 0]"
    by (simp add: header_bytes_def hdr hdmi_types)
  define p where "p = hdmi_audio_infoframe_pack_payload f"
  have l: "length p = 5" by (simp add: p_def hdmi_audio_infoframe_pack_payload_def Let_def)
  obtain c where c: "store_frame buffer 14 ([0x84, 1, 10, 0] @ p) =
      Inr ([0x84, 1, 10, c] @ p @ replicate (length buffer - 9) 0, 14)"
    "hdmi_infoframe_checksum ([0x84, 1, 10, c] @ p @ replicate (length buffer - 9) 0) 14 = Some 0"
    using store_frame_ok [of p 14 buffer "0x84" 1 10] l assms(2) by auto
  let ?b = "[0x84, 1, 10, c] @ p @ replicate (length buffer - 9) 0"
  have pack: "hdmi_audio_infoframe_pack f buffer = Inr (?b, 14)"
    using c(1) v ok hdr h assms(2)
    by (simp add: hdmi_audio_infoframe_pack_def hdmi_audio_infoframe_pack_only_def p_def)
  have fs: "fits 4 (coding_type f)" "fits 3 (audio_chans f)" "fits 3 (sample_frequency f)"
    "fits 2 (sample_size f)" "fits 5 (coding_type_ext f)" "fits 4 (level_shift_value f)"
    using v by (auto intro: fits_numeral audio_chans_fits)
  note fields = audio_bytes_fields [OF fs]
  have b: "?b = [0x84, 1, 10, c,
      ucast (push_bit 4 (coding_type f AND 0xf) OR (ucast (audio_chans f) AND 0x7)),
      ucast (push_bit 2 (sample_frequency f AND 0x7) OR (sample_size f AND 0x3)),
      ucast (coding_type_ext f AND 0x1f), channel_allocation f,
      (if downmix_inhibit f then push_bit 3 (level_shift_value f AND 0xf) OR 0x80
       else push_bit 3 (level_shift_value f AND 0xf))] @ replicate (length buffer - 9) 0"
    by (simp only: p_def hdmi_audio_infoframe_pack_payload_def Let_def audio_chans_def append.simps)
  have z: "5 \<le> length (replicate (length buffer - 9) (0::u8))" using assms(2) by simp
  have "hdmi_audio_infoframe_unpack ?b = Inr (f\<lparr>channels := audio_chans f\<rparr>)"
    unfolding b audio_unpack_bytes [OF c(2) [unfolded b] z] sum.inject fields
    by (rule hdmi_audio_infoframe.equality) (simp_all add: hdr)
  then show ?thesis using that [OF pack] l assms(2) by simp
qed

section \<open>DRM\<close>

definition drm_valid :: "hdmi_drm_infoframe \<Rightarrow> bool" where
  "drm_valid f \<longleftrightarrow> hdmi_drm_infoframe_check f = Inr () \<and> length (display_primaries f) = 3 \<and>
     eotf f < 8 \<and> metadata_type f < 8"

lemma list_3: "length xs = 3 \<Longrightarrow> \<exists>a b c. xs = [a, b, c]"
  by (auto simp: numeral_3_eq_3 length_Suc_conv)

lemma drm_unpack_bytes:
  "hdmi_drm_infoframe_unpack_only
    ([b0, b1] @ le16_bytes x0 @ le16_bytes y0 @ le16_bytes x1 @ le16_bytes y1 @ le16_bytes x2 @ le16_bytes y2 @
     le16_bytes wx @ le16_bytes wy @ le16_bytes lmax @ le16_bytes lmin @ le16_bytes cll @ le16_bytes fall @ z) =
   Inr \<lparr>ftype = HDMI_INFOFRAME_TYPE_DRM, fversion = 1, flength = 26,
      eotf = ucast (b0 AND 0x7), metadata_type = ucast (b1 AND 0x7),
      display_primaries = [(x0, y0), (x1, y1), (x2, y2)], white_point = (wx, wy),
      max_display_mastering_luminance = lmax, min_display_mastering_luminance = lmin,
      max_cll = cll, max_fall = fall\<rparr>"
  unfolding hdmi_drm_infoframe_unpack_only_def le16_bytes_def
  by (simp add: hdmi_drm_infoframe_init_def le16_bytes)

lemma pack_drm:
  assumes ok: "hdmi_drm_infoframe_check f = Inr ()" and l: "length (display_primaries f) = 3"
    and size: "30 \<le> length buffer"
  obtains c where "hdmi_drm_infoframe_pack f buffer =
      Inr ([0x87, 1, 26, c] @ drm_payload f @ replicate (length buffer - 30) 0, 30)"
    "hdmi_infoframe_checksum ([0x87, 1, 26, c] @ drm_payload f @ replicate (length buffer - 30) 0) 30 = Some 0"
    "length (drm_payload f) = 26"
proof -
  have h: "header_bytes f = [0x87, 1, 26, 0]" "flength f = 26"
    using ok by (auto simp: hdmi_drm_infoframe_check_def hdmi_drm_infoframe_check_only_def header_bytes_def hdmi_types split: if_splits)
  have l: "length (drm_payload f) = 26"
    using list_3 [OF l] by (auto simp: drm_payload_def le16_bytes_def split: prod.splits)
  obtain c where c: "store_frame buffer 30 ([0x87, 1, 26, 0] @ drm_payload f) =
      Inr ([0x87, 1, 26, c] @ drm_payload f @ replicate (length buffer - 30) 0, 30)"
    "hdmi_infoframe_checksum ([0x87, 1, 26, c] @ drm_payload f @ replicate (length buffer - 30) 0) 30 = Some 0"
    using store_frame_ok [of "drm_payload f" 30 buffer "0x87" 1 26] l size by auto
  show ?thesis
    using c ok h size l by (intro that [of c]) (simp_all add: hdmi_drm_infoframe_pack_def hdmi_drm_infoframe_pack_only_def)
qed

lemma drm_unpack_payload:
  assumes "drm_valid f" and cs: "hdmi_infoframe_checksum ([0x87, 1, 26, c] @ drm_payload f @ z) 30 = Some 0"
    and l: "length (drm_payload f) = 26"
  shows "hdmi_drm_infoframe_unpack ([0x87, 1, 26, c] @ drm_payload f @ z) = Inr f"
proof -
  note v = assms(1) [unfolded drm_valid_def]
  have hdr: "ftype f = HDMI_INFOFRAME_TYPE_DRM" "fversion f = 1" "flength f = 26"
    using v by (auto simp: hdmi_drm_infoframe_check_def hdmi_drm_infoframe_check_only_def split: if_splits)
  obtain x0 y0 x1 y1 x2 y2 where prim: "display_primaries f = [(x0, y0), (x1, y1), (x2, y2)]"
    using v list_3 by (metis prod.collapse)
  have p: "drm_payload f @ z = [ucast (eotf f), ucast (metadata_type f)] @
     le16_bytes x0 @ le16_bytes y0 @ le16_bytes x1 @ le16_bytes y1 @ le16_bytes x2 @ le16_bytes y2 @
     le16_bytes (fst (white_point f)) @ le16_bytes (snd (white_point f)) @
     le16_bytes (max_display_mastering_luminance f) @ le16_bytes (min_display_mastering_luminance f) @
     le16_bytes (max_cll f) @ le16_bytes (max_fall f) @ z"
    by (simp add: drm_payload_def prim)
  have fs: "fits 3 (eotf f)" "fits 3 (metadata_type f)" using v by (auto intro: fits_numeral)
  have low: "ucast ((ucast (eotf f) :: u8) AND 7) = eotf f" "ucast ((ucast (metadata_type f) :: u8) AND 7) = metadata_type f"
    using fs by (auto simp: field_simps8 dest: fits_bit intro!: bit_word_eqI)
  have only: "hdmi_drm_infoframe_unpack_only (drm_payload f @ z) = Inr f"
    unfolding p drm_unpack_bytes low by (simp add: hdr prim [symmetric])
  show ?thesis
    using only cs l unfolding hdmi_drm_infoframe_unpack_def by (simp add: hdmi_types)
qed

section \<open>Vendor specific\<close>

definition vendor_valid :: "hdmi_vendor_infoframe \<Rightarrow> bool" where
  "vendor_valid f \<longleftrightarrow> ftype f = HDMI_INFOFRAME_TYPE_VENDOR \<and> fversion f = 1 \<and> oui f = HDMI_IEEE_OUI \<and>
     (s3d_struct f = HDMI_3D_STRUCTURE_INVALID \<or> s3d_struct f < 16 \<and> vic f = 0) \<and>
     (if HDMI_3D_STRUCTURE_SIDE_BY_SIDE_HALF \<le>s s3d_struct f then s3d_ext_data f < 16 else s3d_ext_data f = 0)"

definition vendor_payload :: "hdmi_vendor_infoframe \<Rightarrow> u8 list" where
  "vendor_payload frame = [0x03, 0x0c, 0x00] @
                  (if s3d_struct frame \<noteq> HDMI_3D_STRUCTURE_INVALID
                   then [push_bit 5 0x2, ucast (push_bit 4 (s3d_struct frame AND 0xf))] @
                        (if HDMI_3D_STRUCTURE_SIDE_BY_SIDE_HALF \<le>s s3d_struct frame
                         then [ucast (push_bit 4 (s3d_ext_data frame AND 0xf))] else [])
                   else if vic frame \<noteq> 0 then [push_bit 5 0x1, vic frame]
                   else [push_bit 5 0x0])"

lemma vendor_payload_length: "length (vendor_payload f) = unat (hdmi_vendor_infoframe_length f)"
proof -
  have "\<not> HDMI_3D_STRUCTURE_SIDE_BY_SIDE_HALF \<le>s HDMI_3D_STRUCTURE_INVALID" 
    by (simp add: HDMI_3D_STRUCTURE_SIDE_BY_SIDE_HALF_def HDMI_3D_STRUCTURE_INVALID_def word_sle_eq)
  then show ?thesis
  by (auto simp: vendor_payload_def hdmi_vendor_infoframe_length_def)
qed
lemma nibble_split: "fits 4 (x::u32) \<Longrightarrow> ucast (drop_bit 4 (ucast (push_bit 4 (x AND 15)) :: u8)) = x"
  by (auto simp: field_simps8 dest: fits_bit intro!: bit_word_eqI)

lemma vendor_pack_only:
  assumes "4 + length (vendor_payload f) \<le> length buffer" "hdmi_vendor_infoframe_check_only f = Inr ()"
  obtains c z where "hdmi_vendor_infoframe_pack_only f buffer =
      Inr ([0x81, 1, flength f, c] @ vendor_payload f @ z, 4 + unat (flength f))"
    "hdmi_infoframe_checksum ([0x81, 1, flength f, c] @ vendor_payload f @ z) (4 + unat (flength f)) = Some 0"
    "length buffer = 4 + unat (flength f) + length z" "length (vendor_payload f) = unat (flength f)"
proof -
  have hdr: "ftype f = HDMI_INFOFRAME_TYPE_VENDOR" "fversion f = 1" "flength f = hdmi_vendor_infoframe_length f"
    using assms(2) by (auto simp: hdmi_vendor_infoframe_check_only_def split: if_splits)
  have h: "header_bytes f = [0x81, 1, flength f, 0]" by (simp add: header_bytes_def hdr hdmi_types)
  have l: "length (vendor_payload f) = unat (flength f)" by (simp add: vendor_payload_length hdr)
  let ?z = "replicate (length buffer - (4 + length (vendor_payload f))) (0::u8)"
  obtain c where c: "store_frame buffer (4 + unat (flength f)) ([0x81, 1, flength f, 0] @ vendor_payload f) =
      Inr ([0x81, 1, flength f, c] @ vendor_payload f @ ?z, 4 + unat (flength f))"
    "hdmi_infoframe_checksum ([0x81, 1, flength f, c] @ vendor_payload f @ ?z) (4 + unat (flength f)) = Some 0"
    using store_frame_ok [of "vendor_payload f" "4 + unat (flength f)" buffer "0x81" 1 "flength f"] l assms(1) by auto
  have "hdmi_vendor_infoframe_pack_only f buffer = store_frame buffer (4 + unat (flength f)) ([0x81, 1, flength f, 0] @ vendor_payload f)"
    using assms l unfolding hdmi_vendor_infoframe_pack_only_def h vendor_payload_def [symmetric] by simp
  then show ?thesis using that [of c ?z] c l assms(1) by simp
qed

lemma vendor_unpack_bytes:
  assumes cs: "hdmi_infoframe_checksum ([0x81, 1, n, c, 3, 12, 0] @ p) (4 + unat n) = Some 0"
    and l: "4 + unat n \<le> 7 + length p"
  shows "n = 4 \<Longrightarrow> p = 0 # z \<Longrightarrow>
      hdmi_vendor_any_infoframe_unpack ([0x81, 1, n, c, 3, 12, 0] @ p) = Inr (hdmi_vendor_infoframe_init\<lparr>flength := 4\<rparr>)"
   "n = 5 \<Longrightarrow> p = 0x20 # v # z \<Longrightarrow>
      hdmi_vendor_any_infoframe_unpack ([0x81, 1, n, c, 3, 12, 0] @ p) = Inr (hdmi_vendor_infoframe_init\<lparr>flength := 5, vic := v\<rparr>)"
   "n = 5 \<Longrightarrow> p = 0x40 # s # z \<Longrightarrow> \<not> HDMI_3D_STRUCTURE_SIDE_BY_SIDE_HALF \<le>s ucast (drop_bit 4 s) \<Longrightarrow>
      hdmi_vendor_any_infoframe_unpack ([0x81, 1, n, c, 3, 12, 0] @ p) =
        Inr (hdmi_vendor_infoframe_init\<lparr>flength := 5, s3d_struct := ucast (drop_bit 4 s)\<rparr>)"
   "n = 6 \<Longrightarrow> p = 0x40 # s # e # z \<Longrightarrow> HDMI_3D_STRUCTURE_SIDE_BY_SIDE_HALF \<le>s ucast (drop_bit 4 s) \<Longrightarrow>
      hdmi_vendor_any_infoframe_unpack ([0x81, 1, n, c, 3, 12, 0] @ p) =
        Inr (hdmi_vendor_infoframe_init\<lparr>flength := 6, s3d_struct := ucast (drop_bit 4 s), s3d_ext_data := ucast (drop_bit 4 e)\<rparr>)"
  using cs l unfolding hdmi_vendor_any_infoframe_unpack_def Let_def
  by (simp_all add: hdmi_types)

lemma vendor_unpack_payload:
  assumes v: "vendor_valid f" and n: "flength f = hdmi_vendor_infoframe_length f"
    and cs: "hdmi_infoframe_checksum ([0x81, 1, flength f, c] @ vendor_payload f @ z) (4 + unat (flength f)) = Some 0"
  shows "hdmi_vendor_any_infoframe_unpack ([0x81, 1, flength f, c] @ vendor_payload f @ z) = Inr f"
proof -
  note v = v [unfolded vendor_valid_def]
  have inv: "\<not> HDMI_3D_STRUCTURE_SIDE_BY_SIDE_HALF \<le>s HDMI_3D_STRUCTURE_INVALID"
    by (simp add: HDMI_3D_STRUCTURE_SIDE_BY_SIDE_HALF_def HDMI_3D_STRUCTURE_INVALID_def word_sle_eq)
  define p where "p = drop 3 (vendor_payload f) @ z"
  have b: "[0x81, 1, flength f, c] @ vendor_payload f @ z = [0x81, 1, flength f, c, 3, 12, 0] @ p"
    by (simp add: p_def vendor_payload_def)
  have l: "4 + unat (flength f) \<le> 7 + length p" by (simp add: p_def n vendor_payload_length [symmetric])
  note unpack = vendor_unpack_bytes [OF cs [unfolded b] l]
  consider (none) "s3d_struct f = HDMI_3D_STRUCTURE_INVALID" "vic f = 0"
    | (vic) "s3d_struct f = HDMI_3D_STRUCTURE_INVALID" "vic f \<noteq> 0"
    | (s3d) "s3d_struct f \<noteq> HDMI_3D_STRUCTURE_INVALID" "\<not> HDMI_3D_STRUCTURE_SIDE_BY_SIDE_HALF \<le>s s3d_struct f"
    | (ext) "s3d_struct f \<noteq> HDMI_3D_STRUCTURE_INVALID" "HDMI_3D_STRUCTURE_SIDE_BY_SIDE_HALF \<le>s s3d_struct f"
    by blast
  then show ?thesis
  proof cases
    case none
    then have f: "flength f = 4" "p = 0 # z"
      using inv by (simp_all add: n hdmi_vendor_infoframe_length_def p_def vendor_payload_def)
    show ?thesis
      unfolding b unpack(1) [OF f] using v none inv f(1) by (simp add: hdmi_vendor_infoframe_init_def)
  next
    case vic
    then have f: "flength f = 5" "p = 0x20 # vic f # z"
      using inv by (simp_all add: n hdmi_vendor_infoframe_length_def p_def vendor_payload_def)
    show ?thesis
      unfolding b unpack(2) [OF f] using v vic inv f(1) by (simp add: hdmi_vendor_infoframe_init_def)
  next
    case s3d
    then have f: "flength f = 5" "p = 0x40 # ucast (push_bit 4 (s3d_struct f AND 0xf)) # z"
      using inv by (simp_all add: n hdmi_vendor_infoframe_length_def p_def vendor_payload_def)
    have "fits 4 (s3d_struct f)" using v s3d by (auto intro: fits_numeral)
    note nib = nibble_split [OF this]
    show ?thesis
      unfolding b unpack(3) [OF f, unfolded nib, OF s3d(2)] using v s3d f(1)
      by (simp add: nib hdmi_vendor_infoframe_init_def)
  next
    case ext
    then have f: "flength f = 6" "p = 0x40 # ucast (push_bit 4 (s3d_struct f AND 0xf)) # ucast (push_bit 4 (s3d_ext_data f AND 0xf)) # z"
      using inv by (simp_all add: n hdmi_vendor_infoframe_length_def p_def vendor_payload_def)
    have "fits 4 (s3d_struct f)" "fits 4 (s3d_ext_data f)" using v ext by (auto intro: fits_numeral)
    note nib = this [THEN nibble_split]
    show ?thesis
      unfolding b unpack(4) [OF f, unfolded nib, OF ext(2)] using v ext f(1)
      by (simp add: nib hdmi_vendor_infoframe_init_def)
  qed
qed

lemma vendor_roundtrip_aux:
  assumes v: "vendor_valid f" and size: "4 + unat (hdmi_vendor_infoframe_length f) \<le> length buffer"
  obtains b where "hdmi_vendor_infoframe_pack f buffer =
      (f\<lparr>flength := hdmi_vendor_infoframe_length f\<rparr>, Inr (b, 4 + unat (hdmi_vendor_infoframe_length f)))"
    "length b = length buffer"
    "hdmi_vendor_any_infoframe_unpack b = Inr (f\<lparr>flength := hdmi_vendor_infoframe_length f\<rparr>)"
proof -
  define g where "g = f\<lparr>flength := hdmi_vendor_infoframe_length f\<rparr>"
  have n: "flength g = hdmi_vendor_infoframe_length g" "hdmi_vendor_infoframe_length g = hdmi_vendor_infoframe_length f"
    by (simp_all add: g_def hdmi_vendor_infoframe_length_def)
  have v': "vendor_valid g" using v by (simp add: vendor_valid_def g_def)
  have ok: "hdmi_vendor_infoframe_check_only g = Inr ()"
    using v' n by (auto simp: hdmi_vendor_infoframe_check_only_def vendor_valid_def)
  obtain c z where c: "hdmi_vendor_infoframe_pack_only g buffer =
      Inr ([0x81, 1, flength g, c] @ vendor_payload g @ z, 4 + unat (flength g))"
    "hdmi_infoframe_checksum ([0x81, 1, flength g, c] @ vendor_payload g @ z) (4 + unat (flength g)) = Some 0"
    "length buffer = 4 + unat (flength g) + length z" "length (vendor_payload g) = unat (flength g)"
    using vendor_pack_only [OF _ ok, of buffer] size n vendor_payload_length [of g] by auto
  show ?thesis
  proof (rule that)
    show "hdmi_vendor_infoframe_pack f buffer =
      (f\<lparr>flength := hdmi_vendor_infoframe_length f\<rparr>,
       Inr ([0x81, 1, flength g, c] @ vendor_payload g @ z, 4 + unat (hdmi_vendor_infoframe_length f)))"
      using c(1) ok n by (simp add: hdmi_vendor_infoframe_pack_def hdmi_vendor_infoframe_check_def Let_def g_def [symmetric])
    show "length ([0x81, 1, flength g, c] @ vendor_payload g @ z) = length buffer" using c(3,4) by simp
    show "hdmi_vendor_any_infoframe_unpack ([0x81, 1, flength g, c] @ vendor_payload g @ z) =
        Inr (f\<lparr>flength := hdmi_vendor_infoframe_length f\<rparr>)"
      using vendor_unpack_payload [OF v' n(1) c(2)] by (simp add: g_def)
  qed
qed

section \<open>The generic routines\<close>

lemma store_frame_sound:
  assumes st: "store_frame buffer len ([t, v, l, 0] @ p) = Inr (b, n)" and len: "4 \<le> len"
  shows "n = len \<and> length b = length buffer \<and> len \<le> length b \<and> sum_list (take len b) = 0 \<and> take 3 b = [t, v, l]"
proof -
  let ?b = "[t, v, l, 0] @ p @ replicate (length buffer - (4 + length p)) 0"
  have fit: "4 + length p \<le> length buffer"
    using st by (auto simp: store_frame_def buf_put_def bind_eq_Some_conv split: if_splits)
  then have put: "buf_put (replicate (length buffer) 0) 0 ([t, v, l, 0] @ p) = Some ?b"
    by (simp add: buf_put_def)
  have lb: "length ?b = length buffer" using fit by simp
  from st have "len \<le> length ?b"
    unfolding store_frame_def put by (auto simp: hdmi_infoframe_set_checksum_def hdmi_infoframe_checksum_def split: if_splits)
  then have "b = [t, v, l, - sum_list (take len ?b)] @ p @ replicate (length buffer - (4 + length p)) 0" "n = len"
    using st unfolding store_frame_def put
    by (auto simp: hdmi_infoframe_set_checksum_def hdmi_infoframe_checksum_eq buf_put_def numeral_3_eq_3)
  moreover have "len = Suc (Suc (Suc (Suc (len - 4))))" using len by simp
  then obtain k where "len = Suc (Suc (Suc (Suc k)))" ..
  ultimately show ?thesis
    using lb \<open>len \<le> length ?b\<close> by (simp add: numeral_3_eq_3 algebra_simps)
qed

fun frame_length :: "hdmi_infoframe \<Rightarrow> u8" where
  "frame_length (Avi f) = flength f"
| "frame_length (Spd f) = flength f"
| "frame_length (Vendor f) = flength f"
| "frame_length (Audio f) = flength f"
| "frame_length (Drm f) = flength f"

lemmas pack_only_defs = hdmi_avi_infoframe_pack_only_def hdmi_spd_infoframe_pack_only_def
  hdmi_audio_infoframe_pack_only_def hdmi_drm_infoframe_pack_only_def hdmi_vendor_infoframe_pack_only_def
  hdmi_vendor_any_infoframe_pack_only_def

lemmas pack_defs = hdmi_avi_infoframe_pack_def hdmi_spd_infoframe_pack_def hdmi_audio_infoframe_pack_def
  hdmi_drm_infoframe_pack_def hdmi_vendor_infoframe_pack_def hdmi_vendor_any_infoframe_pack_def

definition sealed :: "u32 \<Rightarrow> u8 \<Rightarrow> u8 list \<Rightarrow> u8 list \<Rightarrow> nat \<Rightarrow> bool" where
  "sealed t l buffer b n \<longleftrightarrow> n = 4 + unat l \<and> length b = length buffer \<and> n \<le> length b \<and>
     sum_list (take n b) = 0 \<and> b ! 0 = ucast t \<and> b ! 2 = l"

lemma store_frame_sealed:
  assumes "store_frame buffer (4 + unat (flength f)) (header_bytes f @ p) = Inr (b, n)"
  shows "sealed (ftype f) (flength f) buffer b n"
proof -
  have s: "n = 4 + unat (flength f) \<and> length b = length buffer \<and> 4 + unat (flength f) \<le> length b \<and>
      sum_list (take (4 + unat (flength f)) b) = 0 \<and> take 3 b = [ucast (ftype f), fversion f, flength f]"
    using assms unfolding header_bytes_def by (intro store_frame_sound) auto
  then have b: "b = [ucast (ftype f), fversion f, flength f] @ drop 3 b"
    by (metis append_take_drop_id)
  have "b ! 0 = ucast (ftype f)" "b ! 2 = flength f" by (subst b, simp)+
  then show ?thesis using s unfolding sealed_def by blast
qed

lemma pack_only_sealed:
  "hdmi_avi_infoframe_pack_only fa buffer = Inr (b, n) \<Longrightarrow> sealed (ftype fa) (flength fa) buffer b n"
  "hdmi_spd_infoframe_pack_only fs buffer = Inr (b, n) \<Longrightarrow> sealed (ftype fs) (flength fs) buffer b n"
  "hdmi_audio_infoframe_pack_only fu buffer = Inr (b, n) \<Longrightarrow> sealed (ftype fu) (flength fu) buffer b n"
  "hdmi_drm_infoframe_pack_only fd buffer = Inr (b, n) \<Longrightarrow> sealed (ftype fd) (flength fd) buffer b n"
  "hdmi_vendor_any_infoframe_pack_only fv buffer = Inr (b, n) \<Longrightarrow> sealed (ftype fv) (flength fv) buffer b n"
  by (auto simp: pack_only_defs bindE_eq_Inr Let_def intro: store_frame_sealed split: if_splits)

lemma vendor_any_check_type:
  "hdmi_vendor_any_infoframe_check f = (g, r) \<Longrightarrow> ftype g = ftype f"
  by (auto simp: hdmi_vendor_any_infoframe_check_def hdmi_vendor_infoframe_check_def Let_def split: sum.splits if_splits)

lemma hdmi_infoframe_pack_sealed_aux:
  assumes "hdmi_infoframe_pack frame buffer = (frame', Inr (b, n))"
  shows "any_type frame' = any_type frame \<and> n = 4 + unat (frame_length frame') \<and> length b = length buffer \<and>
    n \<le> length b \<and> sum_list (take n b) = 0 \<and> b ! 0 = ucast (any_type frame) \<and> b ! 2 = frame_length frame'"
proof -
  have "any_type frame' = any_type frame \<and> sealed (any_type frame) (frame_length frame') buffer b n"
    using assms unfolding hdmi_infoframe_pack_def
    by (cases frame)
      (auto simp: pack_defs bindE_eq_Inr dest: pack_only_sealed vendor_any_check_type split: if_splits prod.splits; 
       (drule pack_only_sealed vendor_any_check_type)+; simp)+
  then show ?thesis unfolding sealed_def by blast
qed

fun frame_valid :: "hdmi_infoframe \<Rightarrow> bool" where
  "frame_valid (Avi f) \<longleftrightarrow> avi_valid f"
| "frame_valid (Spd f) \<longleftrightarrow> spd_valid f"
| "frame_valid (Vendor f) \<longleftrightarrow> vendor_valid f"
| "frame_valid (Audio f) \<longleftrightarrow> audio_valid f"
| "frame_valid (Drm f) \<longleftrightarrow> drm_valid f"

fun received :: "hdmi_infoframe \<Rightarrow> hdmi_infoframe" where
  "received (Vendor f) = Vendor (f\<lparr>flength := hdmi_vendor_infoframe_length f\<rparr>)"
| "received (Audio f) = Audio (f\<lparr>channels := audio_chans f\<rparr>)"
| "received f = f"

lemma hdmi_type_distinct:
  "HDMI_INFOFRAME_TYPE_DRM \<noteq> HDMI_INFOFRAME_TYPE_AVI" "HDMI_INFOFRAME_TYPE_SPD \<noteq> HDMI_INFOFRAME_TYPE_AVI"
  "HDMI_INFOFRAME_TYPE_SPD \<noteq> HDMI_INFOFRAME_TYPE_DRM" "HDMI_INFOFRAME_TYPE_AUDIO \<noteq> HDMI_INFOFRAME_TYPE_AVI"
  "HDMI_INFOFRAME_TYPE_AUDIO \<noteq> HDMI_INFOFRAME_TYPE_DRM" "HDMI_INFOFRAME_TYPE_AUDIO \<noteq> HDMI_INFOFRAME_TYPE_SPD"
  "HDMI_INFOFRAME_TYPE_VENDOR \<noteq> HDMI_INFOFRAME_TYPE_AVI" "HDMI_INFOFRAME_TYPE_VENDOR \<noteq> HDMI_INFOFRAME_TYPE_DRM"
  "HDMI_INFOFRAME_TYPE_VENDOR \<noteq> HDMI_INFOFRAME_TYPE_SPD" "HDMI_INFOFRAME_TYPE_VENDOR \<noteq> HDMI_INFOFRAME_TYPE_AUDIO"
  by (simp_all add: hdmi_types)

lemma unpack_dispatch:
  assumes "4 \<le> length b"
  shows "b ! 0 = 0x82 \<Longrightarrow> hdmi_infoframe_unpack b = map_sum id Avi (hdmi_avi_infoframe_unpack b)"
    "b ! 0 = 0x87 \<Longrightarrow> hdmi_infoframe_unpack b = map_sum id Drm (hdmi_drm_infoframe_unpack b)"
    "b ! 0 = 0x83 \<Longrightarrow> hdmi_infoframe_unpack b = map_sum id Spd (hdmi_spd_infoframe_unpack b)"
    "b ! 0 = 0x84 \<Longrightarrow> hdmi_infoframe_unpack b = map_sum id Audio (hdmi_audio_infoframe_unpack b)"
    "b ! 0 = 0x81 \<Longrightarrow> hdmi_infoframe_unpack b = map_sum id Vendor (hdmi_vendor_any_infoframe_unpack b)"
  using assms by (simp_all add: hdmi_infoframe_unpack_def hdmi_types)

lemma avi_roundtrip_aux:
  assumes "avi_valid f" "17 \<le> length buffer"
  obtains b where "hdmi_avi_infoframe_pack f buffer = Inr (b, 17)" "length b = length buffer"
    "hdmi_avi_infoframe_unpack b = Inr f"
proof -
  have "hdmi_avi_infoframe_check f = Inr ()" using assms(1) by (simp add: avi_valid_def)
  from pack_avi [OF this assms(2)] obtain c where c:
    "hdmi_avi_infoframe_pack f buffer = Inr ([0x82, 2, 13, c] @ avi_payload f @ replicate (length buffer - 17) 0, 17)"
    "hdmi_infoframe_checksum ([0x82, 2, 13, c] @ avi_payload f @ replicate (length buffer - 17) 0) 17 = Some 0" .
  show ?thesis
    using c(1) avi_unpack_payload [OF assms(1) c(2)] assms(2)
    by (intro that) (simp_all add: avi_payload_def bar_bytes_def)
qed

lemma drm_roundtrip_aux:
  assumes "drm_valid f" "30 \<le> length buffer"
  obtains b where "hdmi_drm_infoframe_pack f buffer = Inr (b, 30)" "length b = length buffer"
    "hdmi_drm_infoframe_unpack b = Inr f"
proof -
  note v = assms(1) [unfolded drm_valid_def]
  obtain c where c: "hdmi_drm_infoframe_pack f buffer =
      Inr ([0x87, 1, 26, c] @ drm_payload f @ replicate (length buffer - 30) 0, 30)"
    "hdmi_infoframe_checksum ([0x87, 1, 26, c] @ drm_payload f @ replicate (length buffer - 30) 0) 30 = Some 0"
    "length (drm_payload f) = 26"
    using pack_drm v assms(2) by blast
  show ?thesis
    using that [OF c(1)] drm_unpack_payload [OF assms(1) c(2,3)] c(3) assms(2) by simp
qed

lemma spd_roundtrip_aux:
  assumes "spd_valid f" "29 < length buffer"
  obtains b where "hdmi_spd_infoframe_pack f buffer = Inr (b, 29)" "length b = length buffer"
    "hdmi_spd_infoframe_unpack b = Inr f"
  using spd_roundtrip_cases [OF assms(1), of buffer] assms(2) by auto

lemma generic_avi:
  assumes v: "avi_valid f" and size: "30 \<le> length buffer"
  obtains frame' b n where "hdmi_infoframe_pack (Avi f) buffer = (frame', Inr (b, n))"
    "hdmi_infoframe_unpack b = Inr (received (Avi f))"
proof -
  obtain b where b: "hdmi_avi_infoframe_pack f buffer = Inr (b, 17)" "length b = length buffer"
    "hdmi_avi_infoframe_unpack b = Inr f"
    using avi_roundtrip_aux [OF v, of buffer] size by auto
  have t: "ftype f = HDMI_INFOFRAME_TYPE_AVI"
    using b(1) by (auto simp: hdmi_avi_infoframe_pack_def hdmi_avi_infoframe_check_def
        hdmi_avi_infoframe_check_only_def bindE_eq_Inr split: if_splits)
  have p: "hdmi_infoframe_pack (Avi f) buffer = (Avi f, Inr (b, 17))"
    by (simp add: hdmi_infoframe_pack_def t b hdmi_type_distinct)
  have "4 \<le> length b" "b ! 0 = 0x82"
    using hdmi_infoframe_pack_sealed_aux [OF p] size b(2) by (simp_all add: t hdmi_types)
  then show ?thesis using that [OF p] unpack_dispatch(1) b(3) by simp
qed

lemma generic_drm:
  assumes v: "drm_valid f" and size: "30 \<le> length buffer"
  obtains frame' b n where "hdmi_infoframe_pack (Drm f) buffer = (frame', Inr (b, n))"
    "hdmi_infoframe_unpack b = Inr (received (Drm f))"
proof -
  obtain b where b: "hdmi_drm_infoframe_pack f buffer = Inr (b, 30)" "length b = length buffer"
    "hdmi_drm_infoframe_unpack b = Inr f"
    using drm_roundtrip_aux [OF v, of buffer] size by auto
  have t: "ftype f = HDMI_INFOFRAME_TYPE_DRM"
    using b(1) by (auto simp: hdmi_drm_infoframe_pack_def hdmi_drm_infoframe_check_def
        hdmi_drm_infoframe_check_only_def bindE_eq_Inr split: if_splits)
  have p: "hdmi_infoframe_pack (Drm f) buffer = (Drm f, Inr (b, 30))"
    by (simp add: hdmi_infoframe_pack_def t b hdmi_type_distinct)
  have "4 \<le> length b" "b ! 0 = 0x87"
    using hdmi_infoframe_pack_sealed_aux [OF p] size b(2) by (simp_all add: t hdmi_types)
  then show ?thesis using that [OF p] unpack_dispatch(2) b(3) by simp
qed

lemma generic_spd:
  assumes v: "spd_valid f" and size: "30 \<le> length buffer"
  obtains frame' b n where "hdmi_infoframe_pack (Spd f) buffer = (frame', Inr (b, n))"
    "hdmi_infoframe_unpack b = Inr (received (Spd f))"
proof -
  obtain b where b: "hdmi_spd_infoframe_pack f buffer = Inr (b, 29)" "length b = length buffer"
    "hdmi_spd_infoframe_unpack b = Inr f"
    using spd_roundtrip_aux [OF v, of buffer] size by auto
  have t: "ftype f = HDMI_INFOFRAME_TYPE_SPD"
    using b(1) by (auto simp: hdmi_spd_infoframe_pack_def hdmi_spd_infoframe_check_def
        hdmi_spd_infoframe_check_only_def bindE_eq_Inr split: if_splits)
  have p: "hdmi_infoframe_pack (Spd f) buffer = (Spd f, Inr (b, 29))"
    by (simp add: hdmi_infoframe_pack_def t b hdmi_type_distinct)
  have "4 \<le> length b" "b ! 0 = 0x83"
    using hdmi_infoframe_pack_sealed_aux [OF p] size b(2) by (simp_all add: t hdmi_types)
  then show ?thesis using that [OF p] unpack_dispatch(3) b(3) by simp
qed

lemma generic_audio:
  assumes v: "audio_valid f" and size: "30 \<le> length buffer"
  obtains frame' b n where "hdmi_infoframe_pack (Audio f) buffer = (frame', Inr (b, n))"
    "hdmi_infoframe_unpack b = Inr (received (Audio f))"
proof -
  obtain b where b: "hdmi_audio_infoframe_pack f buffer = Inr (b, 14)" "length b = length buffer"
    "hdmi_audio_infoframe_unpack b = Inr (f\<lparr>channels := audio_chans f\<rparr>)"
    using audio_roundtrip_aux [OF v, of buffer] size by auto
  have t: "ftype f = HDMI_INFOFRAME_TYPE_AUDIO"
    using b(1) by (auto simp: hdmi_audio_infoframe_pack_def hdmi_audio_infoframe_check_def
        hdmi_audio_infoframe_check_only_def bindE_eq_Inr split: if_splits)
  have p: "hdmi_infoframe_pack (Audio f) buffer = (Audio f, Inr (b, 14))"
    by (simp add: hdmi_infoframe_pack_def t b hdmi_type_distinct)
  have "4 \<le> length b" "b ! 0 = 0x84"
    using hdmi_infoframe_pack_sealed_aux [OF p] size b(2) by (simp_all add: t hdmi_types)
  then show ?thesis using that [OF p] unpack_dispatch(4) b(3) by simp
qed

lemma generic_vendor:
  assumes v: "vendor_valid f" and size: "30 \<le> length buffer"
  obtains frame' b n where "hdmi_infoframe_pack (Vendor f) buffer = (frame', Inr (b, n))"
    "hdmi_infoframe_unpack b = Inr (received (Vendor f))"
proof -
  let ?n = "4 + unat (hdmi_vendor_infoframe_length f)"
  let ?g = "f\<lparr>flength := hdmi_vendor_infoframe_length f\<rparr>"
  have "unat (hdmi_vendor_infoframe_length f) \<le> 6" by (simp add: hdmi_vendor_infoframe_length_def)
  then obtain b where b: "hdmi_vendor_infoframe_pack f buffer = (?g, Inr (b, ?n))"
    "length b = length buffer" "hdmi_vendor_any_infoframe_unpack b = Inr ?g"
    using vendor_roundtrip_aux [OF v, of buffer] size by auto
  have t: "ftype f = HDMI_INFOFRAME_TYPE_VENDOR" "fversion f = 1" "oui f = HDMI_IEEE_OUI"
    using v by (auto simp: vendor_valid_def)
  have "hdmi_vendor_any_infoframe_pack f buffer = (?g, Inr (b, ?n))"
    using b(1) t
    by (simp add: hdmi_vendor_any_infoframe_pack_def hdmi_vendor_any_infoframe_check_def
        hdmi_vendor_any_infoframe_check_only_def hdmi_vendor_infoframe_pack_def
        hdmi_vendor_any_infoframe_pack_only_def hdmi_vendor_infoframe_check_def Let_def)
  then have p: "hdmi_infoframe_pack (Vendor f) buffer = (Vendor ?g, Inr (b, ?n))"
    by (simp add: hdmi_infoframe_pack_def t hdmi_type_distinct)
  have "4 \<le> length b" "b ! 0 = 0x81"
    using hdmi_infoframe_pack_sealed_aux [OF p] size b(2) by (simp_all add: t hdmi_types)
  then show ?thesis using that [OF p] unpack_dispatch(5) b(3) by simp
qed

lemma generic_roundtrip:
  assumes v: "frame_valid frame" and size: "30 \<le> length buffer"
  obtains frame' b n where "hdmi_infoframe_pack frame buffer = (frame', Inr (b, n))"
    "hdmi_infoframe_unpack b = Inr (received frame)"
proof (cases frame)
  case (Avi f)
  with v have "avi_valid f" by simp
  from generic_avi [OF this size] show ?thesis using that Avi by blast
next
  case (Spd f)
  with v have "spd_valid f" by simp
  from generic_spd [OF this size] show ?thesis using that Spd by blast
next
  case (Vendor f)
  with v have "vendor_valid f" by simp
  from generic_vendor [OF this size] show ?thesis using that Vendor by blast
next
  case (Audio f)
  with v have "audio_valid f" by simp
  from generic_audio [OF this size] show ?thesis using that Audio by blast
next
  case (Drm f)
  with v have "drm_valid f" by simp
  from generic_drm [OF this size] show ?thesis using that Drm by blast
qed

definition wire :: "u8 list \<Rightarrow> hdmi_infoframe \<Rightarrow> u8 list option" where
  "wire buffer frame = (case snd (hdmi_infoframe_pack frame buffer) of Inr (b, n) \<Rightarrow> Some b | Inl _ \<Rightarrow> None)"

definition unwire :: "u8 list \<Rightarrow> hdmi_infoframe option" where
  "unwire b = (case hdmi_infoframe_unpack b of Inr f \<Rightarrow> Some f | Inl _ \<Rightarrow> None)"

definition wire_sum_ok :: "u8 list \<Rightarrow> bool" where
  "wire_sum_ok b \<longleftrightarrow> hdmi_infoframe_checksum b (4 + unat (b ! 2)) = Some 0"

lemma wire_unwire:
  assumes "frame_valid frame" "30 \<le> length buffer"
  obtains b where "wire buffer frame = Some b" "unwire b = Some (received frame)" "wire_sum_ok b"
proof -
  obtain frame' b n where p: "hdmi_infoframe_pack frame buffer = (frame', Inr (b, n))"
    "hdmi_infoframe_unpack b = Inr (received frame)"
    using generic_roundtrip [OF assms] .
  have "wire_sum_ok b"
    using hdmi_infoframe_pack_sealed_aux [OF p(1)] unfolding wire_sum_ok_def checksum_zero_iff by metis
  then show ?thesis using that [of b] p by (simp add: wire_def unwire_def)
qed

interpretation hdmi: checked_codec "wire buffer" unwire
  "\<lambda>frame. frame_valid frame \<and> received frame = frame \<and> 30 \<le> length buffer" wire_sum_ok
  for buffer
proof
  fix frame b
  assume v: "frame_valid frame \<and> received frame = frame \<and> 30 \<le> length buffer"
  then obtain b' where b': "wire buffer frame = Some b'" "unwire b' = Some frame" "wire_sum_ok b'"
    using wire_unwire [of frame buffer] by metis
  show "\<exists>b. wire buffer frame = Some b" using b' by blast
  assume "wire buffer frame = Some b"
  then show "unwire b = Some frame" "wire_sum_ok b" using b' by simp_all
qed

section \<open>Properties\<close>

text \<open>
  Whatever kind of frame \<open>hdmi_infoframe_pack\<close> packs, and into whatever buffer, a successful
  call keeps the type, returns the size of header and payload as the length, which fits the buffer,
  stores type and length in the header, and makes the bytes of the frame add up to 0 modulo 256.
\<close>
theorem hdmi_infoframe_pack_sealed:
  assumes "hdmi_infoframe_pack frame buffer = (frame', Inr (b, n))"
  shows "any_type frame' = any_type frame \<and> n = 4 + unat (frame_length frame') \<and> length b = length buffer \<and>
    n \<le> length b \<and> sum_list (take n b) = 0 \<and> b ! 0 = ucast (any_type frame) \<and> b ! 2 = frame_length frame'"
  using hdmi_infoframe_pack_sealed_aux [OF assms] .

theorem hdmi_infoframe_pack_sealed_witness:
  "\<exists>b n. hdmi_infoframe_pack (Audio hdmi_audio_infoframe_init) (replicate 14 7) =
      (Audio hdmi_audio_infoframe_init, Inr (b, n)) \<and> n = 14 \<and> sum_list (take n b) = 0"
proof -
  have p: "hdmi_infoframe_pack (Audio hdmi_audio_infoframe_init) (replicate 14 7) =
      (Audio hdmi_audio_infoframe_init, Inr ([132, 1, 10, 113, 0, 0, 0, 0, 0, 0, 0, 0, 0, 0], 14))"
    by code_simp
  show ?thesis using p hdmi_infoframe_pack_sealed [OF p] by blast
qed

text \<open>
  C21: packing any frame whose fields fit the bits they are given, into a buffer of 30 bytes or
  more, succeeds, and unpacking the bytes gives the frame back, except that a vendor frame comes
  back with the length the packer computed and an audio frame with one channel less than was
  packed (none instead of one): \<open>pack\<close> stores the channel count minus one, \<open>unpack\<close> reads it as it
  is.
\<close>
theorem hdmi_infoframe_roundtrip:
  assumes "frame_valid frame" "30 \<le> length buffer"
  shows "\<exists>frame' b n. hdmi_infoframe_pack frame buffer = (frame', Inr (b, n)) \<and>
    hdmi_infoframe_unpack b = Inr (received frame)"
  using generic_roundtrip [OF assms] by blast

theorem hdmi_infoframe_roundtrip_witness:
  "\<exists>frame' b n. hdmi_infoframe_pack (Audio (hdmi_audio_infoframe_init\<lparr>channels := 2\<rparr>)) (replicate 30 0) =
      (frame', Inr (b, n)) \<and>
    hdmi_infoframe_unpack b = Inr (Audio (hdmi_audio_infoframe_init\<lparr>channels := 1\<rparr>))"
  using hdmi_infoframe_roundtrip [of "Audio (hdmi_audio_infoframe_init\<lparr>channels := 2\<rparr>)" "replicate 30 0"]
  by (simp add: audio_valid_def audio_chans_def hdmi_audio_infoframe_init_def
      hdmi_audio_infoframe_check_def hdmi_audio_infoframe_check_only_def)

text \<open>
  the bytes determine the frame: two different frames with fields that fit, of whatever kinds,
  never pack into the same bytes (audio frames with at least two channels and vendor frames with a
  stale length aside, for which the received frame is not the one sent).
\<close>
theorem hdmi_infoframe_pack_inj:
  assumes "frame_valid f" "received f = f" "frame_valid g" "received g = g" "30 \<le> length buffer"
    and "hdmi_infoframe_pack f buffer = (f', Inr (b, n))" "hdmi_infoframe_pack g buffer = (g', Inr (b, m))"
  shows "f = g"
  by (rule hdmi.enc_inj [of _ buffer]) (use assms in \<open>simp_all add: wire_def\<close>)

theorem hdmi_infoframe_pack_inj_witness:
  "\<exists>f b n. f = Avi hdmi_avi_infoframe_init \<and> hdmi_infoframe_pack f (replicate 30 0) = (f, Inr (b, n))"
proof -
  let ?f = "Avi hdmi_avi_infoframe_init"
  let ?b = "[130, 2, 13, 111] @ replicate 26 0"
  have p: "hdmi_infoframe_pack ?f (replicate 30 0) = (?f, Inr (?b, 17))" by code_simp
  have v: "frame_valid ?f" by code_simp
  have "?f = ?f" by (rule hdmi_infoframe_pack_inj [OF v _ v _ _ p p]) simp_all
  then show ?thesis using p by blast
qed

text \<open>
  a source product description whose names are padded with NUL bytes is packed, and unpacked
  to itself exactly when some byte from the product name to the end of the buffer is zero: the
  unpacker looks for the end of the names with \<open>strlen\<close>, although the names fill their fields, and
  otherwise reads past the buffer.
\<close>
theorem spd_roundtrip:
  assumes "spd_valid f" "29 \<le> length buffer"
  shows "\<exists>b. hdmi_spd_infoframe_pack f buffer = Inr (b, 29) \<and> length b = length buffer \<and>
    hdmi_spd_infoframe_unpack b =
      (if 0 \<in> set (product f) \<or> sdi f = 0 \<or> 29 < length buffer then Inr f else Inl Oob)"
  using spd_roundtrip_cases [OF assms] .

theorem spd_roundtrip_witness:
  "\<exists>b. hdmi_spd_infoframe_pack \<lparr>ftype = 0x83, fversion = 1, flength = 25, vendor = replicate 8 65,
          product = replicate 16 66, sdi = 1\<rparr> (replicate 29 0) = Inr (b, 29) \<and>
       hdmi_spd_infoframe_unpack b = Inl Oob"
proof -
  let ?f = "\<lparr>ftype = 0x83, fversion = 1, flength = 25, vendor = replicate 8 65,
    product = replicate 16 66, sdi = 1\<rparr> :: hdmi_spd_infoframe"
  have v: "spd_valid ?f" by code_simp
  have c: "(0 \<in> set (product ?f) \<or> sdi ?f = 0 \<or> 29 < length (replicate 29 (0::u8))) = False" by simp
  have l: "29 \<le> length (replicate 29 (0::u8))" by simp
  show ?thesis using spd_roundtrip [OF v l] unfolding c if_False by blast
qed

text \<open>
  the routines treat a frame with dynamic range data differently. The generic check rejects
  every one, while the generic pack accepts those that are valid; and packing without the check
  stores past a buffer of the size the frame's own length field asks for when that length is
  below 26.
\<close>
theorem drm_check_gap:
  assumes "drm_valid f" "30 \<le> length buffer"
    and "unat l < 26" "length buf' = 4 + unat l"
  shows "snd (hdmi_infoframe_check (Drm f)) = Inl EINVAL \<and>
    (\<exists>b. hdmi_infoframe_pack (Drm f) buffer = (Drm f, Inr (b, 30))) \<and>
    hdmi_infoframe_pack_only (Drm (f\<lparr>flength := l\<rparr>)) buf' = Inl Oob"
proof (intro conjI)
  have t: "ftype f = HDMI_INFOFRAME_TYPE_DRM" and n: "length (display_primaries f) = 3"
    using assms(1) by (auto simp: drm_valid_def hdmi_drm_infoframe_check_def
        hdmi_drm_infoframe_check_only_def split: if_splits)
  note ne = hdmi_type_distinct hdmi_type_distinct [symmetric]
  show "snd (hdmi_infoframe_check (Drm f)) = Inl EINVAL"
    by (simp add: hdmi_infoframe_check_def t ne)
  obtain b where "hdmi_drm_infoframe_pack f buffer = Inr (b, 30)"
    using drm_roundtrip_aux [OF assms(1,2)] .
  then show "\<exists>b. hdmi_infoframe_pack (Drm f) buffer = (Drm f, Inr (b, 30))"
    by (simp add: hdmi_infoframe_pack_def t ne)
  have "length (drm_payload (f\<lparr>flength := l\<rparr>)) = 26"
    using list_3 [OF n] by (auto simp: drm_payload_def le16_bytes_def split: prod.splits)
  then show "hdmi_infoframe_pack_only (Drm (f\<lparr>flength := l\<rparr>)) buf' = Inl Oob"
    using assms(3,4)
    by (simp add: hdmi_infoframe_pack_only_def t ne hdmi_drm_infoframe_pack_only_def store_frame_def
        buf_put_def header_bytes_def)
qed

theorem drm_check_gap_witness:
  "snd (hdmi_infoframe_check (Drm hdmi_drm_infoframe_init)) = Inl EINVAL \<and>
    (\<exists>b. hdmi_infoframe_pack (Drm hdmi_drm_infoframe_init) (replicate 30 0) = (Drm hdmi_drm_infoframe_init, Inr (b, 30))) \<and>
    hdmi_infoframe_pack_only (Drm (hdmi_drm_infoframe_init\<lparr>flength := 2\<rparr>)) (replicate 6 0) = Inl Oob"
  using drm_check_gap [of hdmi_drm_infoframe_init "replicate 30 0" 2 "replicate 6 0"]
  by (simp add: drm_valid_def hdmi_drm_infoframe_init_def hdmi_drm_infoframe_check_def
      hdmi_drm_infoframe_check_only_def)

end
