(* ===== verification/Sideband_Crc.thy ===== *)
theory Sideband_Crc
  imports Prelude
begin

text \<open>
  The two checksums of the DisplayPort multi-stream sideband channel
  (\<open>drm_dp_msg_header_crc4\<close> and \<open>drm_dp_msg_data_crc4\<close> of \<open>drm_dp_mst_topology.c\<close>), the abstract
  cyclic redundancy check they compute, and which errors it detects.
\<close>

section \<open>The loops of the code\<close>

text \<open>
  One pass of the first loop shifts the next bit of the data, most significant first, into the
  remainder; the position is the mask, the shift and the index of the byte. Reading past the data
  gives \<open>None\<close>.
\<close>

fun header_crc4_bits :: "nat \<Rightarrow> u8 list \<Rightarrow> u8 \<Rightarrow> u8 \<Rightarrow> u8 \<Rightarrow> u8 \<Rightarrow> u8 option" where
  "header_crc4_bits 0 data bitmask bitshift array_index remainder = Some remainder"
| "header_crc4_bits (Suc number_of_bits) data bitmask bitshift array_index remainder =
     (case buf_get data (unat array_index) of
        None \<Rightarrow> None
      | Some d \<Rightarrow>
          let remainder = push_bit 1 remainder;
              remainder = remainder OR drop_bit (unat bitshift) (d AND bitmask);
              bitmask = drop_bit 1 bitmask;
              bitshift = bitshift - 1;
              (bitmask, bitshift, array_index) =
                (if bitmask = 0 then (0x80, 7, array_index + 1) else (bitmask, bitshift, array_index));
              remainder = (if remainder AND 0x10 = 0x10 then remainder XOR 0x13 else remainder)
          in header_crc4_bits number_of_bits data bitmask bitshift array_index remainder)"

fun header_crc4_flush :: "nat \<Rightarrow> u8 \<Rightarrow> u8" where
  "header_crc4_flush 0 remainder = remainder"
| "header_crc4_flush (Suc number_of_bits) remainder =
     (let remainder = push_bit 1 remainder;
          remainder = (if remainder AND 0x10 \<noteq> 0 then remainder XOR 0x13 else remainder)
      in header_crc4_flush number_of_bits remainder)"

definition drm_dp_msg_header_crc4 :: "u8 list \<Rightarrow> nat \<Rightarrow> u8 option" where
  "drm_dp_msg_header_crc4 data num_nibbles =
     map_option (header_crc4_flush 4) (header_crc4_bits (num_nibbles * 4) data 0x80 7 0 0)"

fun data_crc4_bits :: "nat \<Rightarrow> u8 list \<Rightarrow> u8 \<Rightarrow> u8 \<Rightarrow> u8 \<Rightarrow> u16 \<Rightarrow> u16 option" where
  "data_crc4_bits 0 data bitmask bitshift array_index remainder = Some remainder"
| "data_crc4_bits (Suc number_of_bits) data bitmask bitshift array_index remainder =
     (case buf_get data (unat array_index) of
        None \<Rightarrow> None
      | Some d \<Rightarrow>
          let remainder = push_bit 1 remainder;
              remainder = remainder OR ucast (drop_bit (unat bitshift) (d AND bitmask));
              bitmask = drop_bit 1 bitmask;
              bitshift = bitshift - 1;
              (bitmask, bitshift, array_index) =
                (if bitmask = 0 then (0x80, 7, array_index + 1) else (bitmask, bitshift, array_index));
              remainder = (if remainder AND 0x100 = 0x100 then remainder XOR 0xd5 else remainder)
          in data_crc4_bits number_of_bits data bitmask bitshift array_index remainder)"

fun data_crc4_flush :: "nat \<Rightarrow> u16 \<Rightarrow> u16" where
  "data_crc4_flush 0 remainder = remainder"
| "data_crc4_flush (Suc number_of_bits) remainder =
     (let remainder = push_bit 1 remainder;
          remainder = (if remainder AND 0x100 \<noteq> 0 then remainder XOR 0xd5 else remainder)
      in data_crc4_flush number_of_bits remainder)"

definition drm_dp_msg_data_crc4 :: "u8 list \<Rightarrow> u8 \<Rightarrow> u8 option" where
  "drm_dp_msg_data_crc4 data number_of_bytes =
     map_option (\<lambda>r. ucast (data_crc4_flush 8 r AND 0xff))
       (data_crc4_bits (unat number_of_bytes * 8) data 0x80 7 0 0)"

section \<open>The abstract check\<close>

text \<open>
  Division of a bit string by the polynomial \<open>g\<close> of degree \<open>k\<close> over the field of two elements, with
  a register \<open>r\<close> for the remainder: the register of a whole string is its remainder.
\<close>

definition crc_step :: "nat \<Rightarrow> 'a::len word \<Rightarrow> 'a word \<Rightarrow> bool \<Rightarrow> 'a word" where
  "crc_step k g r b =
     (let r' = push_bit 1 r OR (if b then 1 else 0) in if bit r' k then r' XOR g else r')"

definition crc_run :: "nat \<Rightarrow> 'a::len word \<Rightarrow> 'a word \<Rightarrow> bool list \<Rightarrow> 'a word" where
  "crc_run k g r bs = foldl (crc_step k g) r bs"

lemma crc_run_simps [simp]:
  "crc_run k g r [] = r" "crc_run k g r (b # bs) = crc_run k g (crc_step k g r b) bs"
  "crc_run k g r (bs @ cs) = crc_run k g (crc_run k g r bs) cs"
  by (simp_all add: crc_run_def)

lemma word_nonzero_bit: "(r::'a::len word) \<noteq> 0 \<Longrightarrow> \<exists>n. bit r n"
  by (rule ccontr) (auto intro: bit_word_eqI)

lemma xor_zero_iff: "(x::'a::len word) XOR y = 0 \<longleftrightarrow> x = y"
proof
  assume z: "x XOR y = 0"
  show "x = y"
  proof (rule bit_word_eqI)
    fix n
    have "\<not> bit (x XOR y) n" using z by simp
    then show "bit x n \<longleftrightarrow> bit y n" by (simp add: bit_xor_iff)
  qed
qed simp

locale crc_reg =
  fixes k :: nat and g :: "'a::len word"
  assumes k_pos: "0 < k" and k_len: "k < LENGTH('a)"
    and degree: "bit g k" and low_bit: "bit g 0" and fits_g: "fits (Suc k) g"
begin

lemma bit_shift_in:
  "bit (push_bit 1 r OR (if b then 1 else (0::'a word))) n \<longleftrightarrow>
     n < LENGTH('a) \<and> (if n = 0 then b else bit r (n - 1))"
  by (cases n) (auto simp: bit_simps simp del: push_bit_Suc)

lemma bit_step:
  "bit (crc_step k g r b) n \<longleftrightarrow>
     n < LENGTH('a) \<and> ((if n = 0 then b else bit r (n - 1)) \<noteq> (bit r (k - 1) \<and> bit g n))"
proof -
  have "bit (push_bit 1 r OR (if b then 1 else (0::'a word))) k \<longleftrightarrow> bit r (k - 1)"
    using k_pos k_len unfolding bit_shift_in by simp
  moreover have "bit g n \<Longrightarrow> n < LENGTH('a)" by (rule bit_imp_le_length)
  ultimately show ?thesis
    unfolding crc_step_def Let_def by (cases "bit r (k - 1)") (auto simp only: bit_xor_iff bit_shift_in if_True if_False)
qed

lemma step_fits: "fits k r \<Longrightarrow> fits k (crc_step k g r b)"
  unfolding fits_def bit_step
proof (intro allI impI)
  fix m
  assume r: "\<forall>m. bit r m \<longrightarrow> m < k"
    and m: "m < LENGTH('a) \<and> (if m = 0 then b else bit r (m - 1)) \<noteq> (bit r (k - 1) \<and> bit g m)"
  show "m < k"
  proof (rule ccontr)
    assume "\<not> m < k"
    then consider "m = k" | "k < m" by linarith
    then show False
    proof cases
      case 1 then show False using m degree k_pos by simp
    next
      case 2
      then have "\<not> bit r (m - 1)" using r by fastforce
      moreover have "\<not> bit g m" using fits_g 2 by (auto simp: fits_def)
      ultimately show False using m 2 by simp
    qed
  qed
qed

lemma run_fits: "fits k r \<Longrightarrow> fits k (crc_run k g r bs)"
  by (induction bs arbitrary: r) (simp_all add: step_fits)

lemma step_xor: "crc_step k g (r XOR s) (b \<noteq> c) = crc_step k g r b XOR crc_step k g s c"
  by (rule bit_word_eqI) (auto simp: bit_xor_iff bit_step)

lemma run_xor:
  "length bs = length cs \<Longrightarrow>
     crc_run k g (r XOR s) (map2 (\<noteq>) bs cs) = crc_run k g r bs XOR crc_run k g s cs"
proof (induction bs cs arbitrary: r s rule: list_induct2)
  case (Cons b bs c cs)
  then show ?case by (simp only: list.map zip_Cons_Cons prod.case crc_run_simps step_xor)
qed simp

lemma step_False_nonzero:
  assumes "fits k r" "r \<noteq> 0"
  shows "crc_step k g r False \<noteq> 0"
proof
  assume z: "crc_step k g r False = 0"
  have nb: "\<not> bit (crc_step k g r False) n" for n using z by simp
  have top: "\<not> bit r (k - 1)" using nb [of 0] low_bit by (simp add: bit_step)
  have "\<not> bit r n" for n
  proof
    assume n: "bit r n"
    then have "Suc n < LENGTH('a)" using assms(1) k_len by (auto simp: fits_def)
    then show False using nb [of "Suc n"] top n by (simp add: bit_step)
  qed
  then have "r = 0" by (auto intro: bit_word_eqI)
  then show False using assms(2) by simp
qed

lemma run_zeros_nonzero: "fits k r \<Longrightarrow> r \<noteq> 0 \<Longrightarrow> crc_run k g r (replicate n False) \<noteq> 0"
  by (induction n arbitrary: r) (simp_all add: step_False_nonzero step_fits)

lemma run_zeros: "crc_run k g 0 (replicate n False) = 0"
proof (induction n)
  case (Suc n)
  have "crc_step k g 0 False = 0" by (rule bit_word_eqI) (simp add: bit_step)
  then show ?case using Suc by simp
qed simp

text \<open>A burst of at most \<open>k\<close> bits does not reach the polynomial, so the register holds it.\<close>

lemma run_burst:
  "fits j r \<Longrightarrow> j + length bs \<le> k \<Longrightarrow> r \<noteq> 0 \<or> True \<in> set bs \<Longrightarrow> crc_run k g r bs \<noteq> 0"
proof (induction bs arbitrary: j r)
  case (Cons b bs)
  have j: "j < k" using Cons.prems(2) by simp
  have bit: "bit (crc_step k g r b) n \<longleftrightarrow> n < LENGTH('a) \<and> (if n = 0 then b else bit r (n - 1))" for n
  proof -
    have "\<not> bit r (k - 1)" using Cons.prems(1) j by (auto simp: fits_def)
    then show ?thesis unfolding bit_step by simp
  qed
  have f: "fits (Suc j) (crc_step k g r b)"
    using Cons.prems(1) unfolding fits_def bit by (auto split: if_splits)
  have "crc_step k g r b \<noteq> 0" if "r \<noteq> 0 \<or> b"
  proof (cases b)
    case True
    then have "bit (crc_step k g r b) 0" unfolding bit by simp
    then show ?thesis by auto
  next
    case False
    then have "r \<noteq> 0" using that by blast
    then obtain n where n: "bit r n" using word_nonzero_bit by blast
    then have "n < j" using Cons.prems(1) by (simp add: fits_def)
    then have "bit (crc_step k g r b) (Suc n)" using n j k_len by (simp add: bit)
    then show ?thesis by auto
  qed
  then show ?case using Cons.IH [OF f] Cons.prems by auto
qed simp

text \<open>The \<open>k\<close> low bits of a word, most significant first: run alone, they are left in the register.\<close>

lemma run_value_prefix:
  "n \<le> k \<Longrightarrow> fits k c \<Longrightarrow> crc_run k g 0 (map (\<lambda>i. bit c (k - 1 - i)) [0..<n]) = drop_bit (k - n) c"
proof (induction n)
  case 0
  then show ?case by (auto intro!: bit_word_eqI simp: bit_drop_bit_eq fits_def)
next
  case (Suc n)
  have "crc_step k g (drop_bit (k - n) c) (bit c (k - 1 - n)) = drop_bit (k - Suc n) c"
  proof (rule bit_word_eqI)
    fix m assume m: "m < LENGTH('a)"
    have "\<not> bit c (k - n + (k - 1))" using Suc.prems by (auto simp: fits_def)
    moreover have "k - n + (m - 1) = k - Suc n + m" if "m \<noteq> 0" using that Suc.prems by simp
    ultimately show "bit (crc_step k g (drop_bit (k - n) c) (bit c (k - 1 - n))) m \<longleftrightarrow> bit (drop_bit (k - Suc n) c) m"
      using m by (simp add: bit_step bit_drop_bit_eq)
  qed
  then show ?case using Suc by simp
qed

definition checksum_bits :: "'a word \<Rightarrow> bool list" where
  "checksum_bits c = map (\<lambda>i. bit c (k - 1 - i)) [0..<k]"

lemma run_value: "fits k c \<Longrightarrow> crc_run k g 0 (checksum_bits c) = c"
  using run_value_prefix [of k c] by (simp add: checksum_bits_def)

lemma fits_0 [simp]: "fits n 0"
  by (simp add: fits_def)

text \<open>
  A string with its check appended has remainder zero, and no other value of the check gives that.
\<close>

lemma checked_zero:
  assumes "fits k c"
  shows "crc_run k g 0 (bs @ checksum_bits c) = 0 \<longleftrightarrow> crc_run k g 0 (bs @ replicate k False) = c"
proof -
  have "map2 (\<noteq>) (replicate k False) (checksum_bits c) = checksum_bits c"
    by (rule nth_equalityI) (simp_all add: checksum_bits_def)
  moreover have "length (replicate k False) = length (checksum_bits c)" by (simp add: checksum_bits_def)
  ultimately have "crc_run k g (crc_run k g 0 bs) (checksum_bits c) =
      crc_run k g (crc_run k g 0 bs) (replicate k False) XOR c"
    using run_xor [of "replicate k False" "checksum_bits c" "crc_run k g 0 bs" 0] run_value [OF assms] by simp
  then show ?thesis by (simp only: crc_run_simps xor_zero_iff)
qed

text \<open>Two strings of zero remainder do not differ in a burst of at most \<open>k\<close> bits.\<close>

lemma burst_detected:
  assumes ok: "crc_run k g 0 bs = 0"
    and e: "length bs = a + length burst + z" "length burst \<le> k" "True \<in> set burst"
  shows "crc_run k g 0 (map2 (\<noteq>) bs (replicate a False @ burst @ replicate z False)) \<noteq> 0"
proof -
  have "crc_run k g 0 burst \<noteq> 0" using run_burst [of 0 0 burst] e(2,3) by simp
  moreover have "fits k (crc_run k g 0 burst)" by (simp add: run_fits)
  ultimately have "crc_run k g 0 (replicate a False @ burst @ replicate z False) \<noteq> 0"
    using run_zeros_nonzero by (simp add: run_zeros)
  then show ?thesis
    using run_xor [of bs "replicate a False @ burst @ replicate z False" 0 0] ok e(1) by simp
qed

end

section \<open>The code computes the check\<close>

interpretation hdr_crc: crc_reg 4 "0x13 :: u8"
  by unfold_locales (use fitsI [of "0x13 :: u8" 5] in simp_all)

interpretation data_crc: crc_reg 8 "0x1d5 :: u16"
  by unfold_locales (use fitsI [of "0x1d5 :: u16" 9] in simp_all)

text \<open>The bits of a byte string, most significant of each byte first.\<close>

definition bit_at :: "u8 list \<Rightarrow> nat \<Rightarrow> bool" where
  "bit_at data p = bit (data ! (p div 8)) (7 - p mod 8)"

definition bits_of :: "u8 list \<Rightarrow> nat \<Rightarrow> nat \<Rightarrow> bool list" where
  "bits_of data p n = map (bit_at data) [p..<p + n]"

lemma bits_of_simps: "bits_of data p 0 = []" "bits_of data p (Suc n) = bit_at data p # bits_of data (Suc p) n"
  by (simp_all add: bits_of_def upt_conv_Cons del: upt_Suc)

lemma lt_8_cases: "(s::nat) < 8 \<Longrightarrow> s = 0 \<or> s = 1 \<or> s = 2 \<or> s = 3 \<or> s = 4 \<or> s = 5 \<or> s = 6 \<or> s = 7"
  by linarith

lemma mask_select: "s < 8 \<Longrightarrow> drop_bit s ((d::u8) AND push_bit s 1) = (if bit d s then 1 else 0)"
  by (rule bit_word_eqI) (auto simp: bit_simps intro: gr0I)

lemma mask_next:
  "s < 8 \<Longrightarrow> drop_bit 1 (push_bit s (1::u8)) = (if s = 0 then 0 else push_bit (s - 1) 1)"
  "s < 8 \<Longrightarrow> push_bit s (1::u8) \<noteq> 0" "s < 8 \<Longrightarrow> s \<noteq> 0 \<Longrightarrow> word_of_nat s - 1 = (word_of_nat (s - 1) :: u8)"
  using lt_8_cases [of s] by (auto simp: push_bit_eq_mult drop_bit_eq_div)

lemma and_exp_eq_iff: "n < LENGTH('a) \<Longrightarrow> (x::'a::len word) AND 2 ^ n = 2 ^ n \<longleftrightarrow> bit x n"
proof
  assume n: "n < LENGTH('a)" and e: "x AND 2 ^ n = 2 ^ n"
  have "bit (2 ^ n :: 'a word) n" using n by (simp add: bit_exp_iff)
  then have "bit (x AND 2 ^ n) n" by (simp only: e)
  then show "bit x n" by (simp add: bit_and_iff)
qed (auto intro!: bit_word_eqI simp: bit_and_iff bit_exp_iff)

lemma and_bit:
  "(x::u8) AND 0x10 = 0x10 \<longleftrightarrow> bit x 4" "x AND 0x10 \<noteq> 0 \<longleftrightarrow> bit x 4"
  "(y::u16) AND 0x100 = 0x100 \<longleftrightarrow> bit y 8" "y AND 0x100 \<noteq> 0 \<longleftrightarrow> bit y 8"
  using and_exp_eq_iff [of 4 x] and_exp_eq_iff [of 8 y] and_exp_eq_0_iff_not_bit [of x 4]
    and_exp_eq_0_iff_not_bit [of y 8] by simp_all

lemma next_bit:
  assumes "p div 8 < length data"
  shows "7 - p mod 8 < 8"
    "buf_get data (unat (word_of_nat (p div 8) :: u8)) = (if p div 8 < 256 then Some (data ! (p div 8)) else buf_get data (p div 8 mod 256))"
  using assms by (auto simp: unat_of_nat buf_get_def take_bit_eq_mod)

lemma unat_small_byte: "s < 8 \<Longrightarrow> unat (word_of_nat s :: u8) = s"
  by (simp add: unat_of_nat take_bit_eq_mod)

lemma next_position:
  assumes "Suc p div 8 < 256"
  shows "(if drop_bit 1 (push_bit (7 - p mod 8) (1::u8)) = 0
          then (0x80, 7, word_of_nat (p div 8) + 1)
          else (drop_bit 1 (push_bit (7 - p mod 8) 1), word_of_nat (7 - p mod 8) - 1, word_of_nat (p div 8))) =
    (push_bit (7 - Suc p mod 8) (1::u8), word_of_nat (7 - Suc p mod 8) :: u8, word_of_nat (Suc p div 8) :: u8)"
proof (cases "p mod 8 = 7")
  case True
  then have "Suc p mod 8 = 0" "Suc p div 8 = Suc (p div 8)" by (simp_all add: mod_Suc div_Suc)
  then show ?thesis using True by simp
next
  case False
  then have e: "Suc p mod 8 = Suc (p mod 8)" "Suc p div 8 = p div 8"
    by (simp_all add: mod_Suc div_Suc)
  have "7 - p mod 8 \<noteq> 0" "7 - p mod 8 < 8" "7 - p mod 8 - 1 = 7 - Suc (p mod 8)" using False mod_less_divisor [of 8 p] by linarith+
  then show ?thesis using mask_next [of "7 - p mod 8"] mask_next(2) [of "7 - Suc (p mod 8)"] by (simp add: e)
qed

lemma header_crc4_bits_run:
  "p + n \<le> 8 * length data \<Longrightarrow> p + n < 2048 \<Longrightarrow>
     header_crc4_bits n data (push_bit (7 - p mod 8) 1) (word_of_nat (7 - p mod 8)) (word_of_nat (p div 8)) r =
       Some (crc_run 4 0x13 r (bits_of data p n))"
proof (induction n arbitrary: p r)
  case (Suc n)
  have p: "p div 8 < length data" "p div 8 < 256" "Suc p div 8 < 256" using Suc.prems by linarith+
  have s: "7 - p mod 8 < 8" by simp
  have u: "unat (word_of_nat (7 - p mod 8) :: u8) = 7 - p mod 8"
    by (rule unat_small_byte [OF s])
  show ?case
    unfolding header_crc4_bits.simps next_bit(2) [OF p(1)] if_P [OF p(2)] option.case Let_def
      next_position [OF p(3)] prod.case u mask_select [OF s] and_bit
    using Suc.IH [of "Suc p"] Suc.prems
    by (simp add: bits_of_simps crc_step_def Let_def bit_at_def)
qed (simp add: bits_of_simps)

lemma header_crc4_flush_run: "header_crc4_flush n r = crc_run 4 0x13 r (replicate n False)"
  by (induction n arbitrary: r) (simp_all add: crc_step_def Let_def and_bit)

lemma header_crc4_eq:
  assumes "num_nibbles * 4 \<le> 8 * length data" "num_nibbles < 512"
  shows "drm_dp_msg_header_crc4 data num_nibbles =
    Some (crc_run 4 0x13 0 (bits_of data 0 (num_nibbles * 4) @ replicate 4 False))"
  using header_crc4_bits_run [of 0 "num_nibbles * 4" data 0] assms
  by (simp add: drm_dp_msg_header_crc4_def header_crc4_flush_run)

text \<open>
  The data check keeps its remainder in 16 bits and folds in only the low eight bits of the
  polynomial; the low byte of the remainder is the register of the abstract check.
\<close>

lemma data_step:
  "take_bit 8 (if bit (push_bit 1 r OR (if b then 1 else 0)) 8
      then (push_bit 1 r OR (if b then 1 else 0)) XOR 0xd5 else push_bit 1 r OR (if b then 1 else (0::u16))) =
    crc_step 8 0x1d5 (take_bit 8 r) b"
proof (rule bit_word_eqI)
  fix n assume n: "n < LENGTH(16)"
  have top: "bit (push_bit 1 r OR (if b then 1 else (0::u16))) 8 \<longleftrightarrow> bit r 7"
    unfolding data_crc.bit_shift_in by simp
  have d5: "bit (0x1d5::u16) n \<longleftrightarrow> bit (0xd5::u16) n \<or> n = 8"
  proof -
    have "(0x1d5::u16) = 0xd5 OR 2 ^ 8" by simp
    then show ?thesis by (simp only: bit_or_iff bit_exp_iff) auto
  qed
  have hi: "bit (0xd5::u16) n \<Longrightarrow> n < 8" using fitsI [of "0xd5::u16" 8] by (auto simp: fits_def)
  define D where "D \<longleftrightarrow> bit (0xd5::u16) n"
  show "bit (take_bit 8 (if bit (push_bit 1 r OR (if b then 1 else 0)) 8
      then (push_bit 1 r OR (if b then 1 else 0)) XOR 0xd5 else push_bit 1 r OR (if b then 1 else (0::u16)))) n =
    bit (crc_step 8 0x1d5 (take_bit 8 r) b) n"
    using n hi unfolding D_def [symmetric] top data_crc.bit_step d5 [unfolded D_def [symmetric]]
    by (cases "bit r 7"; cases "n = 8")
      (simp_all only: bit_take_bit_iff bit_xor_iff data_crc.bit_shift_in if_True if_False D_def [symmetric], auto)
qed

lemma data_crc4_bits_run:
  "p + n \<le> 8 * length data \<Longrightarrow> p + n < 2048 \<Longrightarrow>
     \<exists>r'. data_crc4_bits n data (push_bit (7 - p mod 8) 1) (word_of_nat (7 - p mod 8)) (word_of_nat (p div 8)) r =
       Some r' \<and> take_bit 8 r' = crc_run 8 0x1d5 (take_bit 8 r) (bits_of data p n)"
proof (induction n arbitrary: p r)
  case (Suc n)
  have p: "p div 8 < length data" "p div 8 < 256" "Suc p div 8 < 256" using Suc.prems by linarith+
  have s: "7 - p mod 8 < 8" by simp
  have u: "unat (word_of_nat (7 - p mod 8) :: u8) = 7 - p mod 8"
    by (rule unat_small_byte [OF s])
  have c: "ucast (if x then 1 else 0 :: u8) = (if x then 1 else 0 :: u16)" for x by simp
  show ?case
    unfolding data_crc4_bits.simps next_bit(2) [OF p(1)] if_P [OF p(2)] option.case Let_def
      next_position [OF p(3)] prod.case u mask_select [OF s] and_bit c bits_of_simps crc_run_simps
      data_step [symmetric] bit_at_def
    using Suc.IH [of "Suc p"] Suc.prems by simp
qed (simp add: bits_of_simps)

lemma data_crc4_flush_run: "take_bit 8 (data_crc4_flush n r) = crc_run 8 0x1d5 (take_bit 8 r) (replicate n False)"
proof (induction n arbitrary: r)
  case (Suc n)
  have "data_crc4_flush (Suc n) r = data_crc4_flush n
      (if bit (push_bit 1 r OR (if False then 1 else 0)) 8
      then (push_bit 1 r OR (if False then 1 else 0)) XOR 0xd5 else push_bit 1 r OR (if False then 1 else (0::u16)))"
    by (simp only: data_crc4_flush.simps Let_def and_bit if_False or.right_neutral)
  then show ?case
    by (simp only: Suc.IH data_step replicate_Suc crc_run_simps)
qed simp

lemma data_crc4_eq:
  assumes "unat number_of_bytes \<le> length data"
  shows "drm_dp_msg_data_crc4 data number_of_bytes =
    Some (ucast (crc_run 8 (0x1d5::u16) 0 (bits_of data 0 (unat number_of_bytes * 8) @ replicate 8 False)))"
proof -
  have "unat number_of_bytes * 8 < 2048" using unsigned_less [of number_of_bytes, where 'a = nat] by simp
  then obtain r' where r': "data_crc4_bits (unat number_of_bytes * 8) data 0x80 7 0 0 = Some r'"
    "take_bit 8 r' = crc_run 8 0x1d5 0 (bits_of data 0 (unat number_of_bytes * 8))"
    using data_crc4_bits_run [of 0 "unat number_of_bytes * 8" data 0] assms by auto
  have "data_crc4_flush 8 r' AND 0xff = crc_run 8 (0x1d5::u16) 0 (bits_of data 0 (unat number_of_bytes * 8) @ replicate 8 False)"
    by (simp only: and_masks data_crc4_flush_run r'(2) crc_run_simps)
  then show ?thesis using r'(1) by (simp only: drm_dp_msg_data_crc4_def option.map)
qed

section \<open>Division of polynomials\<close>

text \<open>
  A bit string read as a polynomial over the field of two elements is the number with these binary
  digits; adding polynomials is \<open>XOR\<close>, multiplying by \<open>x\<close> a shift, and \<open>gmul g q\<close> the product of
  \<open>g\<close> with the polynomial \<open>q\<close>.
\<close>

definition poly_of :: "bool list \<Rightarrow> int" where
  "poly_of bs = foldl (\<lambda>a b. push_bit 1 a OR (if b then 1 else 0)) 0 bs"

definition gmul :: "int \<Rightarrow> bool list \<Rightarrow> int" where
  "gmul g q = foldl (\<lambda>a b. push_bit 1 a XOR (if b then g else 0)) 0 q"

lemma push_bit_xor_int: "push_bit n ((a::int) XOR b) = push_bit n a XOR push_bit n b"
  by (rule bit_eqI) (simp add: bit_simps)

context crc_reg
begin

lemma uint_shift_in:
  assumes "fits k r"
  shows "uint (push_bit 1 r OR (if b then 1 else (0::'a word))) = push_bit 1 (uint r) OR (if b then 1 else 0)"
proof (rule bit_eqI)
  fix n
  have "bit r m \<Longrightarrow> Suc m < LENGTH('a)" for m using assms k_len by (auto simp: fits_def)
  then show "bit (uint (push_bit 1 r OR (if b then 1 else (0::'a word)))) n =
      bit (push_bit 1 (uint r) OR (if b then 1 else 0)) n"
    unfolding bit_uint_iff bit_shift_in
    by (cases n) (auto simp: bit_simps simp del: push_bit_Suc)
qed

lemma run_divides: "\<exists>q. poly_of bs = gmul (uint g) q XOR uint (crc_run k g 0 bs)"
proof (induction bs rule: rev_induct)
  case Nil
  have "poly_of [] = gmul (uint g) [] XOR uint (crc_run k g 0 [])" by (simp add: poly_of_def gmul_def)
  then show ?case by blast
next
  case (snoc b bs)
  then obtain q where q: "poly_of bs = gmul (uint g) q XOR uint (crc_run k g 0 bs)" by blast
  let ?r = "crc_run k g 0 bs" and ?b = "if b then 1 else 0 :: 'a word"
  let ?s = "push_bit 1 ?r OR ?b"
  have f: "fits k ?r" by (simp add: run_fits)
  have low: "push_bit 1 (x XOR y) OR (if b then 1 else 0) = push_bit 1 x XOR (push_bit 1 y OR (if b then 1 else (0::int)))" for x y
    by (rule bit_eqI) (auto simp: bit_simps simp del: push_bit_Suc)
  have poly_snoc: "poly_of (bs @ [b]) = push_bit 1 (poly_of bs) OR (if b then 1 else 0)"
    by (simp add: poly_of_def del: push_bit_Suc)
  have p: "poly_of (bs @ [b]) = push_bit 1 (gmul (uint g) q) XOR uint ?s"
    unfolding poly_snoc q low uint_shift_in [OF f] ..
  have st: "uint (crc_step k g ?r b) = uint ?s XOR (if bit ?s k then uint g else 0)"
    by (simp add: crc_step_def Let_def unsigned_xor_eq del: push_bit_Suc)
  have g: "gmul (uint g) (q @ [c]) = push_bit 1 (gmul (uint g) q) XOR (if c then uint g else 0)" for c
    by (simp add: gmul_def del: push_bit_Suc)
  have "poly_of (bs @ [b]) = gmul (uint g) (q @ [bit ?s k]) XOR uint (crc_run k g 0 (bs @ [b]))"
    unfolding p g crc_run_simps st by (rule bit_eqI) (auto simp: bit_xor_iff)
  then show ?case by blast
qed

end

section \<open>Byte strings with a check at the end\<close>

lemma bits_of_append: "bits_of data p (m + n) = bits_of data p m @ bits_of data (p + m) n"
  unfolding bits_of_def map_append [symmetric] by (metis add.assoc le_add1 upt_add_eq_append)

lemma bit_at_differs:
  assumes "length b = length b'" "b \<noteq> b'"
  shows "\<exists>p < 8 * length b. bit_at b p \<noteq> bit_at b' p"
proof -
  obtain i where i: "i < length b" "b ! i \<noteq> b' ! i" using assms nth_equalityI by blast
  then obtain n where n: "n < 8" "bit (b ! i) n \<noteq> bit (b' ! i) n" using byte_eqI by blast
  define c where "c = 7 - n"
  have c: "c < 8" "n = 7 - c" using n(1) by (simp_all add: c_def)
  let ?p = "8 * i + c"
  have p: "?p div 8 = i" "7 - ?p mod 8 = n" "?p < 8 * length b" using i c by simp_all
  then have "bit_at b ?p \<noteq> bit_at b' ?p" using n(2) unfolding bit_at_def by simp
  then show ?thesis using p(3) by blast
qed

lemma upt_window: "a \<le> u \<Longrightarrow> u \<le> n \<Longrightarrow> [0..<n] = [0..<a] @ [a..<u] @ [u..<n]"
  using upt_add_eq_append [of 0 a "n - a"] upt_add_eq_append [of a u "n - u"] by simp

lemma map_const_replicate: "(\<And>p. p \<in> set xs \<Longrightarrow> f p = c) \<Longrightarrow> map f xs = replicate (length xs) c"
  by (induction xs) auto

context crc_reg
begin

lemma byte_burst_detected:
  assumes ok: "crc_run k g 0 (bits_of b 0 (8 * length b)) = 0"
    and len: "length b' = length b" "b \<noteq> b'"
    and w: "\<And>p. p < 8 * length b \<Longrightarrow> bit_at b p \<noteq> bit_at b' p \<Longrightarrow> a \<le> p \<and> p < a + k"
  shows "crc_run k g 0 (bits_of b' 0 (8 * length b)) \<noteq> 0"
proof -
  let ?n = "8 * length b"
  let ?u = "min (a + k) ?n"
  define e where "e = (\<lambda>p. bit_at b p \<noteq> bit_at b' p)"
  obtain p where p: "p < ?n" "e p" using bit_at_differs [of b b'] len by (auto simp: e_def)
  then have pw: "a \<le> p" "p < ?u" using w by (auto simp: e_def)
  then have u: "a \<le> ?u" "?u \<le> ?n" by simp_all
  have nz: "\<not> e q" if "q < ?n" "q < a \<or> ?u \<le> q" for q
  proof
    assume "e q"
    then have "a \<le> q \<and> q < a + k" using w that(1) by (simp only: e_def)
    then show False using that pw by auto
  qed
  have z1: "map e [0..<a] = replicate (length [0..<a]) False"
    by (rule map_const_replicate) (use nz pw in simp)
  have z2: "map e [?u..<?n] = replicate (length [?u..<?n]) False"
    by (rule map_const_replicate) (use nz pw in simp)
  have "bits_of b' 0 ?n = map2 (\<noteq>) (bits_of b 0 ?n) (map e [0..<?n])"
    by (rule nth_equalityI) (auto simp: bits_of_def e_def)
  also have "map e [0..<?n] = replicate a False @ map e [a..<?u] @ replicate (?n - ?u) False"
    unfolding upt_window [OF u] map_append z1 z2 by simp
  finally show ?thesis
    using burst_detected [OF ok, of a "map e [a..<?u]" "?n - ?u"] p pw u
    by (simp add: bits_of_def) force
qed

lemma checksum_bits_cong: "(\<And>i. i < k \<Longrightarrow> bit c i = bit d i) \<Longrightarrow> checksum_bits c = checksum_bits d"
  using k_pos by (simp add: checksum_bits_def)

end

text \<open>A string whose last byte is the data check of the others, and one whose last nibble is its header check.\<close>

definition data_checked :: "u8 list \<Rightarrow> bool" where
  "data_checked b \<longleftrightarrow> b \<noteq> [] \<and> drm_dp_msg_data_crc4 b (word_of_nat (length b - 1)) = Some (last b)"

definition header_checked :: "u8 list \<Rightarrow> bool" where
  "header_checked b \<longleftrightarrow> b \<noteq> [] \<and>
     map_option (\<lambda>c. c AND 0xf) (drm_dp_msg_header_crc4 b (length b * 2 - 1)) = Some (last b AND 0xf)"

lemma data_checked_iff:
  assumes "b \<noteq> []" "length b \<le> 256"
  shows "data_checked b \<longleftrightarrow> crc_run 8 (0x1d5::u16) 0 (bits_of b 0 (8 * length b)) = 0"
proof -
  obtain d c where b: "b = d @ [c]" using assms(1) by (metis rev_exhaust)
  have l: "length b - 1 = length d" "last b = c" by (simp_all add: b)
  have n: "unat (word_of_nat (length d) :: u8) = length d"
    using assms(2) by (simp add: b unat_of_nat take_bit_eq_mod)
  have crc: "drm_dp_msg_data_crc4 b (word_of_nat (length d)) =
      Some (ucast (crc_run 8 (0x1d5::u16) 0 (bits_of b 0 (length d * 8) @ replicate 8 False)))"
    using data_crc4_eq [of "word_of_nat (length d)" b] unfolding n by (simp add: b)
  have f: "fits 8 (ucast c :: u16)" by (auto simp: fits_def bit_simps dest: byte_bit_lt)
  have "bits_of b (8 * length d) 8 = data_crc.checksum_bits (ucast c)"
    by (rule nth_equalityI) (auto simp: bits_of_def data_crc.checksum_bits_def bit_at_def b bit_simps)
  moreover have "8 * length b = 8 * length d + 8" by (simp add: b)
  ultimately have bits: "bits_of b 0 (8 * length b) = bits_of b 0 (length d * 8) @ data_crc.checksum_bits (ucast c)"
    by (simp add: bits_of_append mult.commute)
  have small: "fits 8 (crc_run 8 (0x1d5::u16) 0 bs)" for bs by (simp add: data_crc.run_fits)
  have cast: "(ucast r = c) = (r = ucast c)" if "fits 8 r" for r :: u16
    using that f by (auto simp: fits_def intro!: bit_word_eqI simp: bit_simps)
  show ?thesis
    unfolding data_checked_def bits data_crc.checked_zero [OF f] l crc option.inject cast [OF small]
    using assms(1) by simp
qed

lemma header_checked_iff:
  assumes "b \<noteq> []" "length b \<le> 256"
  shows "header_checked b \<longleftrightarrow> crc_run 4 (0x13::u8) 0 (bits_of b 0 (8 * length b)) = 0"
proof -
  obtain d c where b: "b = d @ [c]" using assms(1) by (metis rev_exhaust)
  have l: "last b = c" "length b * 2 - 1 = length d * 2 + 1" by (simp_all add: b)
  have f: "fits 4 (c AND 0xf)" by (auto simp: fits_def field_simps8)
  have crc: "drm_dp_msg_header_crc4 b (length d * 2 + 1) =
      Some (crc_run 4 0x13 0 (bits_of b 0 (length d * 8 + 4) @ replicate 4 False))"
    using header_crc4_eq [of "length d * 2 + 1" b] assms(2) by (simp add: b algebra_simps)
  have "bits_of b (length d * 8 + 4) 4 = hdr_crc.checksum_bits (c AND 0xf)"
  proof (rule nth_equalityI)
    fix i assume "i < length (bits_of b (length d * 8 + 4) 4)"
    then have i: "i < 4" by (simp add: bits_of_def)
    then have "(length d * 8 + (4 + i)) div 8 = length d" "(length d * 8 + (4 + i)) mod 8 = 4 + i"
      by simp_all
    then show "bits_of b (length d * 8 + 4) 4 ! i = hdr_crc.checksum_bits (c AND 0xf) ! i"
      using i by (simp add: bits_of_def hdr_crc.checksum_bits_def bit_at_def b add.assoc and_masks bit_simps) linarith?
  qed (simp add: bits_of_def hdr_crc.checksum_bits_def)
  moreover have "8 * length b = length d * 8 + 4 + 4" by (simp add: b)
  ultimately have bits: "bits_of b 0 (8 * length b) =
      bits_of b 0 (length d * 8 + 4) @ hdr_crc.checksum_bits (c AND 0xf)"
    by (simp only: bits_of_append add_0)
  have small: "fits 4 (crc_run 4 (0x13::u8) 0 bs)" for bs by (simp add: hdr_crc.run_fits)
  have low: "r AND 0xf = r" if "fits 4 r" for r :: u8
    using that by (auto simp: fits_def and_masks bit_simps intro!: bit_word_eqI)
  show ?thesis
    unfolding header_checked_def bits hdr_crc.checked_zero [OF f] l crc option.map option.inject low [OF small]
    using assms(1) by simp
qed

lemma fits_less: "fits n (x::'a::len word) \<Longrightarrow> n < LENGTH('a) \<Longrightarrow> x < 2 ^ n"
proof -
  assume "fits n x" and n: "n < LENGTH('a)"
  then have "take_bit n x = x" by (auto simp: fits_def bit_simps intro!: bit_word_eqI)
  then have "x = x mod 2 ^ n" by (simp add: take_bit_eq_mod)
  moreover have "(0::'a word) < 2 ^ n" using n by (simp add: word_gt_0)
  ultimately show ?thesis by (metis word_mod_less_divisor)
qed

lemma uint_ucast_fits8: "fits 8 (r::u16) \<Longrightarrow> uint (ucast r :: u8) = uint r"
  by (rule bit_eqI) (auto simp: fits_def bit_simps)

section \<open>Properties\<close>

text \<open>
  C32: the header check is the remainder, and below 16, of dividing the polynomial of the nibbles,
  times \<open>x\<^sup>4\<close>, by \<open>x\<^sup>4 + x + 1\<close>; the data check, although its name says 4, is the remainder of
  dividing the polynomial of the bytes, times \<open>x\<^sup>8\<close>, by \<open>x\<^sup>8 + x\<^sup>7 + x\<^sup>6 + x\<^sup>4 + x\<^sup>2 + 1\<close>.
\<close>
theorem sideband_crc_remainder:
  assumes "num_nibbles \<le> 2 * length data" "num_nibbles < 512" "unat n \<le> length data"
  shows "(\<exists>c q. drm_dp_msg_header_crc4 data num_nibbles = Some c \<and> c < 16 \<and>
      poly_of (bits_of data 0 (num_nibbles * 4) @ replicate 4 False) = gmul 0x13 q XOR uint c) \<and>
    (\<exists>c q. drm_dp_msg_data_crc4 data n = Some c \<and>
      poly_of (bits_of data 0 (unat n * 8) @ replicate 8 False) = gmul 0x1d5 q XOR uint c)"
proof
  let ?hb = "bits_of data 0 (num_nibbles * 4) @ replicate 4 False"
  let ?db = "bits_of data 0 (unat n * 8) @ replicate 8 False"
  obtain q where q: "poly_of ?hb = gmul 0x13 q XOR uint (crc_run 4 (0x13::u8) 0 ?hb)"
    using hdr_crc.run_divides [of ?hb] by auto
  have "crc_run 4 (0x13::u8) 0 ?hb < 16"
    using fits_less [of 4 "crc_run 4 (0x13::u8) 0 ?hb"] hdr_crc.run_fits [of 0 ?hb] by simp
  moreover have "drm_dp_msg_header_crc4 data num_nibbles = Some (crc_run 4 (0x13::u8) 0 ?hb)"
    by (rule header_crc4_eq) (use assms in linarith)+
  ultimately show "\<exists>c q. drm_dp_msg_header_crc4 data num_nibbles = Some c \<and> c < 16 \<and>
      poly_of ?hb = gmul 0x13 q XOR uint c"
    using q by blast
  let ?r = "crc_run 8 (0x1d5::u16) 0 ?db"
  obtain q where q: "poly_of ?db = gmul 0x1d5 q XOR uint ?r"
    using data_crc.run_divides [of ?db] by auto
  have "uint (ucast ?r :: u8) = uint ?r"
    by (rule uint_ucast_fits8) (rule data_crc.run_fits [OF data_crc.fits_0])
  then show "\<exists>c q. drm_dp_msg_data_crc4 data n = Some c \<and> poly_of ?db = gmul 0x1d5 q XOR uint c"
    using data_crc4_eq [OF assms(3)] q by metis
qed

theorem sideband_crc_remainder_witness:
  "\<exists>c q. drm_dp_msg_header_crc4 [0x10, 0x02, 0xc0] 5 = Some c \<and> c < 16 \<and>
      poly_of (bits_of [0x10, 0x02, 0xc0] 0 20 @ replicate 4 False) = gmul 0x13 q XOR uint c"
  using sideband_crc_remainder [of 5 "[0x10, 0x02, 0xc0]" 2] by simp

text \<open>
  The data check detects every burst of at most eight bits: when a chunk ends in its data check
  and another of the same length differs from it, but only inside a window of eight bits, the other
  does not end in its data check.
\<close>
theorem data_crc_detects_burst:
  assumes "data_checked b" "length b' = length b" "length b \<le> 256" "b' \<noteq> b"
    and "\<forall>p < 8 * length b. bit_at b p \<noteq> bit_at b' p \<longrightarrow> a \<le> p \<and> p < a + 8"
  shows "\<not> data_checked b'"
proof -
  have ne: "b \<noteq> []" "b' \<noteq> []" using assms by (auto simp: data_checked_def)
  have "crc_run 8 (0x1d5::u16) 0 (bits_of b 0 (8 * length b)) = 0"
    using data_checked_iff [OF ne(1)] assms by simp
  then have "crc_run 8 (0x1d5::u16) 0 (bits_of b' 0 (8 * length b)) \<noteq> 0"
    using data_crc.byte_burst_detected [of b b' a] assms by auto
  then show ?thesis using data_checked_iff [OF ne(2)] assms by simp
qed

theorem data_crc_detects_burst_witness:
  "data_checked [0x10, 0x02, 0xcf] \<and> \<not> data_checked [0x11, 0xf2, 0xcf]"
proof -
  have ok: "data_checked [0x10, 0x02, 0xcf]" by code_simp
  have "list_all (\<lambda>p. bit_at [0x10, 0x02, 0xcf] p \<noteq> bit_at [0x11, 0xf2, 0xcf] p
      \<longrightarrow> 7 \<le> p \<and> p < 7 + 8) [0..<24]" by code_simp
  then have w: "\<forall>p < 8 * length [0x10, 0x02, 0xcf :: u8]. bit_at [0x10, 0x02, 0xcf] p \<noteq> bit_at [0x11, 0xf2, 0xcf] p
      \<longrightarrow> 7 \<le> p \<and> p < 7 + 8"
    by (simp only: list_all_iff) simp
  show ?thesis using ok data_crc_detects_burst [OF ok _ _ _ w] by simp
qed

end
