(* ===== verification/Sideband_Hdr.thy ===== *)
theory Sideband_Hdr
  imports Sideband_Crc Codec
begin

text \<open>
  The header of a sideband message chunk (\<open>struct drm_dp_sideband_msg_hdr\<close>): encoding, decoding and
  the errors its check catches. A routine that returns \<open>false\<close> is \<open>Inr None\<close>; an access outside an
  array is \<open>Inl Oob\<close>.
\<close>

section \<open>Model\<close>

record sb_hdr =
  lct :: u8
  lcr :: u8
  rad :: "u8 list"
  broadcast :: bool
  path_msg :: bool
  msg_len :: u8
  somt :: bool
  eomt :: bool
  seqno :: bool

definition flag :: "nat \<Rightarrow> bool \<Rightarrow> u8" where
  "flag n b = push_bit n (if b then 1 else 0)"

definition drm_dp_calc_sb_hdr_size :: "sb_hdr \<Rightarrow> u8" where
  "drm_dp_calc_sb_hdr_size hdr = 3 + lct hdr div 2"

definition drm_dp_encode_sideband_msg_hdr :: "sb_hdr \<Rightarrow> u8 list \<Rightarrow> (u8 list \<times> nat) option" where
  "drm_dp_encode_sideband_msg_hdr hdr buf =
     do { r \<leftarrow> buf_slice (rad hdr) 0 (unat (lct hdr) div 2);
          let bytes = [push_bit 4 (lct hdr AND 0xf) OR (lcr hdr AND 0xf)] @ r @
                [flag 7 (broadcast hdr) OR flag 6 (path_msg hdr) OR (msg_len hdr AND 0x3f),
                 flag 7 (somt hdr) OR flag 6 (eomt hdr) OR flag 4 (seqno hdr)];
          let idx = length bytes;
          buf \<leftarrow> buf_put buf 0 bytes;
          crc4 \<leftarrow> drm_dp_msg_header_crc4 buf (idx * 2 - 1);
          Some (buf[idx - 1 := buf ! (idx - 1) OR (crc4 AND 0xf)], idx) }"

definition drm_dp_decode_sideband_msg_hdr ::
  "sb_hdr \<Rightarrow> u8 list \<Rightarrow> int \<Rightarrow> (sb_hdr \<times> u8) option res" where
  "drm_dp_decode_sideband_msg_hdr hdr buf buflen =
     bindE (of_opt Oob (buf_get buf 0)) (\<lambda>b0.
       if b0 = 0 then Inr None
       else
         let len = 3 + unat (drop_bit 4 (b0 AND 0xf0)) div 2
         in if int len > buflen then Inr None
            else
              bindE (of_opt Oob (drm_dp_msg_header_crc4 buf (len * 2 - 1))) (\<lambda>crc4.
              bindE (of_opt Oob (buf_get buf (len - 1))) (\<lambda>l.
                if crc4 AND 0xf \<noteq> l AND 0xf then Inr None
                else
                  let lct = drop_bit 4 (b0 AND 0xf0);
                      n = unat lct div 2
                  in bindE (of_opt Oob (buf_slice buf 1 n)) (\<lambda>r.
                     bindE (of_opt Oob (buf_put (rad hdr) 0 r)) (\<lambda>rad'.
                     bindE (of_opt Oob (buf_get buf (1 + n))) (\<lambda>b1.
                     bindE (of_opt Oob (buf_get buf (2 + n))) (\<lambda>b2.
                       Inr (Some (\<lparr>lct = lct, lcr = b0 AND 0xf, rad = rad',
                          broadcast = (drop_bit 7 b1 AND 1 \<noteq> 0), path_msg = (drop_bit 6 b1 AND 1 \<noteq> 0),
                          msg_len = b1 AND 0x3f, somt = (drop_bit 7 b2 AND 1 \<noteq> 0),
                          eomt = (drop_bit 6 b2 AND 1 \<noteq> 0), seqno = (drop_bit 4 b2 AND 1 \<noteq> 0)\<rparr>,
                          word_of_nat (n + 3))))))))))"

section \<open>The check of an encoded header\<close>

lemma nth_take_bits: "p div 8 < n \<Longrightarrow> bit_at (take n b) p = bit_at b p"
  by (simp add: bit_at_def)

lemma bits_of_cong: "(\<And>q. p \<le> q \<Longrightarrow> q < p + n \<Longrightarrow> bit_at b q = bit_at b' q) \<Longrightarrow> bits_of b p n = bits_of b' p n"
  by (simp add: bits_of_def)

lemma header_crc4_prefix:
  assumes n: "n \<le> 2 * length b" "n \<le> 2 * length b'" "n < 512"
    and eq: "\<And>q. q < n * 4 \<Longrightarrow> bit_at b q = bit_at b' q"
  shows "drm_dp_msg_header_crc4 b n = drm_dp_msg_header_crc4 b' n"
proof -
  have "bits_of b 0 (n * 4) = bits_of b' 0 (n * 4)" using eq by (intro bits_of_cong) simp
  then show ?thesis using n by (simp only: header_crc4_eq)
qed

lemma header_crc4_take:
  assumes "0 < n" "n \<le> length b" "n \<le> 255"
  shows "drm_dp_msg_header_crc4 (take n b) (n * 2 - 1) = drm_dp_msg_header_crc4 b (n * 2 - 1)"
  using assms by (intro header_crc4_prefix) (auto intro!: nth_take_bits)

lemma header_checked_take:
  assumes "0 < n" "n \<le> length b" "n \<le> 255"
  shows "header_checked (take n b) \<longleftrightarrow>
    map_option (\<lambda>c. c AND 0xf) (drm_dp_msg_header_crc4 b (n * 2 - 1)) = Some (b ! (n - 1) AND 0xf)"
proof -
  have ne: "take n b \<noteq> []" "length (take n b) = n" using assms by auto
  moreover have "last (take n b) = b ! (n - 1)" using ne assms(1) by (simp add: last_conv_nth)
  ultimately have "take n b \<noteq> []" "length (take n b) = n" "last (take n b) = b ! (n - 1)" by auto
  then show ?thesis using header_crc4_take [OF assms] by (simp add: header_checked_def)
qed

text \<open>Setting the low nibble of the last byte to the check of the rest makes the check hold.\<close>

lemma set_check_nibble:
  assumes "0 < n" "n \<le> length b" "n \<le> 255" and low: "b ! (n - 1) AND 0xf = 0"
    and crc: "drm_dp_msg_header_crc4 b (n * 2 - 1) = Some c"
  shows "header_checked (take n (b[n - 1 := b ! (n - 1) OR (c AND 0xf)]))"
proof -
  let ?b = "b[n - 1 := b ! (n - 1) OR (c AND 0xf)]"
  have "drm_dp_msg_header_crc4 ?b (n * 2 - 1) = drm_dp_msg_header_crc4 b (n * 2 - 1)"
  proof (rule header_crc4_prefix)
    fix q assume q: "q < (n * 2 - 1) * 4"
    show "bit_at ?b q = bit_at b q"
    proof (cases "q div 8 = n - 1")
      case True
      then have "q = 8 * (n - 1) + q mod 8" using mult_div_mod_eq [of 8 q] by simp
      then have "\<not> 7 - q mod 8 < 4" using q assms(1) by linarith
      then show ?thesis using True assms(1,2) by (simp add: bit_at_def and_masks bit_simps)
    next
      case False
      then show ?thesis by (simp add: bit_at_def)
    qed
  qed (use assms in simp_all)
  moreover have "(b ! (n - 1) OR (c AND 0xf)) AND 0xf = c AND 0xf"
    using low by (simp add: bit.conj_disj_distrib2 and.assoc)
  ultimately show ?thesis
    using header_checked_take [of n ?b] assms crc by simp
qed

section \<open>Encoding and decoding\<close>

definition hdr_valid :: "sb_hdr \<Rightarrow> bool" where
  "hdr_valid h \<longleftrightarrow> lct h < 16 \<and> lcr h < 16 \<and> msg_len h < 64 \<and> length (rad h) = 8 \<and> (lct h \<noteq> 0 \<or> lcr h \<noteq> 0)"

definition hdr_links :: "sb_hdr \<Rightarrow> nat" where
  "hdr_links h = unat (lct h) div 2"

definition hdr_byte0 :: "sb_hdr \<Rightarrow> u8" where
  "hdr_byte0 h = push_bit 4 (lct h AND 0xf) OR (lcr h AND 0xf)"

definition hdr_byte1 :: "sb_hdr \<Rightarrow> u8" where
  "hdr_byte1 h = flag 7 (broadcast h) OR flag 6 (path_msg h) OR (msg_len h AND 0x3f)"

definition hdr_byte2 :: "sb_hdr \<Rightarrow> u8" where
  "hdr_byte2 h = flag 7 (somt h) OR flag 6 (eomt h) OR flag 4 (seqno h)"

definition hdr_bytes :: "sb_hdr \<Rightarrow> u8 \<Rightarrow> u8 list" where
  "hdr_bytes h c = [hdr_byte0 h] @ take (hdr_links h) (rad h) @ [hdr_byte1 h, hdr_byte2 h OR (c AND 0xf)]"

lemma bit_flag: "bit (flag n b) m \<longleftrightarrow> b \<and> m = n \<and> n < 8"
  by (auto simp: flag_def bit_simps)

lemma hdr_valid_fits:
  "hdr_valid h \<Longrightarrow> fits 4 (lct h)" "hdr_valid h \<Longrightarrow> fits 4 (lcr h)" "hdr_valid h \<Longrightarrow> fits 6 (msg_len h)"
  using fitsI [of "msg_len h" 6] by (auto simp: hdr_valid_def intro: fits_numeral)

lemma hdr_links_le: "hdr_valid h \<Longrightarrow> hdr_links h \<le> 7"
proof -
  assume "hdr_valid h"
  then have "unat (lct h) < 16" unfolding hdr_valid_def word_less_nat_alt by simp
  then show ?thesis unfolding hdr_links_def by linarith
qed

lemma hdr_byte0_fields:
  assumes "hdr_valid h"
  shows "drop_bit 4 (hdr_byte0 h AND 0xf0) = lct h" "hdr_byte0 h AND 0xf = lcr h" "hdr_byte0 h \<noteq> 0"
proof -
  note f = hdr_valid_fits [OF assms]
  have f0: "x AND 0xf0 = push_bit 4 (drop_bit 4 x)" for x :: u8
    by (rule byte_eqI) (auto simp: bit_simps dest!: lt_8_cases)
  show g: "drop_bit 4 (hdr_byte0 h AND 0xf0) = lct h" "hdr_byte0 h AND 0xf = lcr h"
    unfolding f0 using f by (auto simp: hdr_byte0_def field_simps8 dest: fits_bit intro!: bit_word_eqI)
  show "hdr_byte0 h \<noteq> 0" using g assms by (auto simp: hdr_valid_def)
qed

lemma hdr_byte1_fields:
  assumes "hdr_valid h"
  shows "drop_bit 7 (hdr_byte1 h) AND 1 \<noteq> 0 \<longleftrightarrow> broadcast h"
    "drop_bit 6 (hdr_byte1 h) AND 1 \<noteq> 0 \<longleftrightarrow> path_msg h" "hdr_byte1 h AND 0x3f = msg_len h"
proof -
  note f = hdr_valid_fits [OF assms]
  have t: "drop_bit n x AND 1 \<noteq> 0 \<longleftrightarrow> bit x n" for n and x :: u8
    by (simp add: and_one_eq bit_iff_odd_drop_bit odd_iff_mod_2_eq_one)
  show "drop_bit 7 (hdr_byte1 h) AND 1 \<noteq> 0 \<longleftrightarrow> broadcast h" "drop_bit 6 (hdr_byte1 h) AND 1 \<noteq> 0 \<longleftrightarrow> path_msg h"
    unfolding t using f by (auto simp: hdr_byte1_def field_simps8 bit_flag dest: fits_bit)
  show "hdr_byte1 h AND 0x3f = msg_len h"
    using f by (auto simp: hdr_byte1_def field_simps8 bit_flag dest: fits_bit intro!: bit_word_eqI)
qed

lemma hdr_byte2_fields:
  "drop_bit 7 (hdr_byte2 h OR (c AND 0xf)) AND 1 \<noteq> 0 \<longleftrightarrow> somt h"
  "drop_bit 6 (hdr_byte2 h OR (c AND 0xf)) AND 1 \<noteq> 0 \<longleftrightarrow> eomt h"
  "drop_bit 4 (hdr_byte2 h OR (c AND 0xf)) AND 1 \<noteq> 0 \<longleftrightarrow> seqno h"
  "hdr_byte2 h AND 0xf = 0"
proof -
  have t: "drop_bit n x AND 1 \<noteq> 0 \<longleftrightarrow> bit x n" for n and x :: u8
    by (simp add: and_one_eq bit_iff_odd_drop_bit odd_iff_mod_2_eq_one)
  show "drop_bit 7 (hdr_byte2 h OR (c AND 0xf)) AND 1 \<noteq> 0 \<longleftrightarrow> somt h"
    "drop_bit 6 (hdr_byte2 h OR (c AND 0xf)) AND 1 \<noteq> 0 \<longleftrightarrow> eomt h"
    "drop_bit 4 (hdr_byte2 h OR (c AND 0xf)) AND 1 \<noteq> 0 \<longleftrightarrow> seqno h"
    unfolding t by (auto simp: hdr_byte2_def field_simps8 bit_flag)
  show "hdr_byte2 h AND 0xf = 0"
    by (auto simp: hdr_byte2_def field_simps8 bit_flag intro!: bit_word_eqI)
qed

lemma encode_hdr:
  assumes v: "hdr_valid h" and size: "3 + hdr_links h \<le> length buf" "length buf \<le> 255"
  obtains c where "drm_dp_encode_sideband_msg_hdr h buf = Some (hdr_bytes h c @ drop (3 + hdr_links h) buf, 3 + hdr_links h)"
    "header_checked (hdr_bytes h c)"
proof -
  let ?n = "3 + hdr_links h"
  let ?B = "hdr_bytes h 0"
  have rl: "hdr_links h \<le> length (rad h)" using hdr_links_le [OF v] v by (simp add: hdr_valid_def)
  have lB: "length (hdr_bytes h c) = ?n" for c using rl by (simp add: hdr_bytes_def)
  let ?b = "?B @ drop ?n buf"
  have sl: "buf_slice (rad h) 0 (unat (lct h) div 2) = Some (take (hdr_links h) (rad h))"
    using rl by (simp add: buf_slice_def hdr_links_def)
  have bytes: "[push_bit 4 (lct h AND 0xf) OR (lcr h AND 0xf)] @ take (hdr_links h) (rad h) @
      [flag 7 (broadcast h) OR flag 6 (path_msg h) OR (msg_len h AND 0x3f),
       flag 7 (somt h) OR flag 6 (eomt h) OR flag 4 (seqno h)] = ?B"
    by (simp add: hdr_bytes_def hdr_byte0_def hdr_byte1_def hdr_byte2_def)
  have put: "buf_put buf 0 ?B = Some ?b" using size lB by (simp add: buf_put_def)
  have lb: "length ?b = length buf" using lB size by simp
  obtain c where c: "drm_dp_msg_header_crc4 ?b (?n * 2 - 1) = Some c"
    using header_crc4_eq [of "?n * 2 - 1" ?b] lb size by auto
  have nth: "?b ! (?n - 1) = hdr_byte2 h" using lB [of 0] rl by (simp add: nth_append hdr_bytes_def)
  have upd: "?b[?n - 1 := hdr_byte2 h OR (c AND 0xf)] = hdr_bytes h c @ drop ?n buf"
    using rl by (simp add: hdr_bytes_def list_update_append)
  have "header_checked (take ?n (?b[?n - 1 := ?b ! (?n - 1) OR (c AND 0xf)]))"
    using size lb c nth hdr_byte2_fields(4) [of h] by (intro set_check_nibble) simp_all
  then have hc: "header_checked (hdr_bytes h c)" unfolding nth upd using lB by simp
  have "drm_dp_encode_sideband_msg_hdr h buf = Some (hdr_bytes h c @ drop ?n buf, ?n)"
    unfolding drm_dp_encode_sideband_msg_hdr_def sl Option.bind.bind_lunit bytes Let_def lB put c nth upd
    by simp
  then show ?thesis using hc by (rule that)
qed


lemma decode_hdr:
  assumes b: "buf = b0 # tail" "b0 \<noteq> 0" and n: "n = unat (drop_bit 4 (b0 AND 0xf0)) div 2" "3 + n \<le> length buf"
    and rad: "length (rad h0) = 8"
  shows "drm_dp_decode_sideband_msg_hdr h0 buf buflen =
    Inr (if int (3 + n) \<le> buflen \<and> header_checked (take (3 + n) buf)
      then Some (\<lparr>lct = drop_bit 4 (b0 AND 0xf0), lcr = b0 AND 0xf,
                  rad = take n (drop 1 buf) @ drop n (rad h0),
                  broadcast = (drop_bit 7 (buf ! (1 + n)) AND 1 \<noteq> 0),
                  path_msg = (drop_bit 6 (buf ! (1 + n)) AND 1 \<noteq> 0),
                  msg_len = buf ! (1 + n) AND 0x3f, somt = (drop_bit 7 (buf ! (2 + n)) AND 1 \<noteq> 0),
                  eomt = (drop_bit 6 (buf ! (2 + n)) AND 1 \<noteq> 0),
                  seqno = (drop_bit 4 (buf ! (2 + n)) AND 1 \<noteq> 0)\<rparr>, word_of_nat (n + 3))
      else None)"
proof -
  have g0: "buf_get buf 0 = Some b0" by (simp add: b(1) buf_get_def)
  have "fits 4 (drop_bit 4 (b0 AND 0xf0))" by (auto simp: fits_def bit_simps dest: byte_bit_lt)
  then have "drop_bit 4 (b0 AND 0xf0) < 16" using fits_less [of 4 "drop_bit 4 (b0 AND 0xf0)"] by simp
  then have "unat (drop_bit 4 (b0 AND 0xf0)) < 16" unfolding word_less_nat_alt by simp
  then have n7: "n \<le> 7" unfolding n(1) by linarith
  obtain c where c: "drm_dp_msg_header_crc4 buf ((3 + n) * 2 - 1) = Some c"
    using header_crc4_eq [of "(3 + n) * 2 - 1" buf] n(2) n7 by auto
  have hc: "header_checked (take (3 + n) buf) \<longleftrightarrow> c AND 0xf = buf ! (3 + n - 1) AND 0xf"
    using header_checked_take [of "3 + n" buf] n(2) n7 c by simp
  have gets: "buf_get buf (3 + n - 1) = Some (buf ! (3 + n - 1))" "buf_get buf (1 + n) = Some (buf ! (1 + n))"
    "buf_get buf (2 + n) = Some (buf ! (2 + n))" "buf_slice buf 1 n = Some (take n (drop 1 buf))"
    "buf_put (rad h0) 0 (take n (drop 1 buf)) = Some (take n (drop 1 buf) @ drop n (rad h0))"
    using n(2) n7 rad by (simp_all add: buf_get_def buf_slice_def buf_put_def min_absorb2)
  show ?thesis
    unfolding drm_dp_decode_sideband_msg_hdr_def g0 Let_def n(1) [symmetric] c gets of_opt_simps bindE_simps hc
    using b(2) by simp
qed

lemma calc_size:
  assumes "hdr_valid h"
  shows "drm_dp_calc_sb_hdr_size h = word_of_nat (hdr_links h + 3)"
    "unat (drm_dp_calc_sb_hdr_size h) = 3 + hdr_links h"
proof -
  let ?n = "hdr_links h"
  have "unat (lct h div 2) = ?n" by (simp add: unat_div hdr_links_def)
  moreover have "word_of_nat (unat (lct h div 2)) = lct h div 2" by simp
  ultimately have "lct h div 2 = word_of_nat ?n" by metis
  then show size: "drm_dp_calc_sb_hdr_size h = word_of_nat (?n + 3)"
    by (simp add: drm_dp_calc_sb_hdr_size_def)
  then show "unat (drm_dp_calc_sb_hdr_size h) = 3 + ?n"
    using hdr_links_le [OF assms] by (simp only: unat_of_nat) (simp add: take_bit_eq_mod)
qed

lemma decode_hdr_bytes:
  assumes v: "hdr_valid h" and chk: "header_checked (hdr_bytes h c)" and rx: "length (rad h0) = 8"
    and len: "int (3 + hdr_links h) \<le> buflen"
  shows "drm_dp_decode_sideband_msg_hdr h0 (hdr_bytes h c @ rest) buflen =
      Inr (Some (h\<lparr>rad := take (hdr_links h) (rad h) @ drop (hdr_links h) (rad h0)\<rparr>, drm_dp_calc_sb_hdr_size h))"
proof -
  let ?n = "hdr_links h"
  have n7: "?n \<le> 7" by (rule hdr_links_le [OF v])
  then have nr: "?n \<le> length (rad h)" using v by (simp add: hdr_valid_def)
  note f0 = hdr_byte0_fields [OF v] and f1 = hdr_byte1_fields [OF v]
  let ?t = "take ?n (rad h) @ [hdr_byte1 h, hdr_byte2 h OR (c AND 0xf)] @ rest"
  let ?b = "hdr_bytes h c @ rest"
  have b: "?b = hdr_byte0 h # ?t" by (simp add: hdr_bytes_def)
  have lb: "length (hdr_bytes h c) = 3 + ?n" using nr by (simp add: hdr_bytes_def min_absorb2)
  have nth: "?b ! (1 + ?n) = hdr_byte1 h" "?b ! (2 + ?n) = hdr_byte2 h OR (c AND 0xf)"
    "take ?n (drop 1 ?b) = take ?n (rad h)"
    using n7 nr lb by (simp_all add: b nth_append min_absorb2)
  have tk: "take (3 + ?n) ?b = hdr_bytes h c" using lb by simp
  have k: "?n = unat (drop_bit 4 (hdr_byte0 h AND 0xf0)) div 2" by (simp only: f0 hdr_links_def)
  show ?thesis
    using decode_hdr [OF b f0(3) k _ rx, of buflen] len lb
    by (simp only: nth tk chk f0 f1 hdr_byte2_fields calc_size(1) [OF v]) simp
qed

text \<open>
  A header that names fewer than sixteen links, with fields that fit, is encoded into any
  buffer long enough; decoding the encoded bytes, whatever follows them, gives back every field and
  the length of the header. Of the path, the entries in use come back and the others keep what the
  receiving structure held.
\<close>
theorem sideband_hdr_roundtrip:
  assumes "hdr_valid h" "3 + hdr_links h \<le> length buf" "length buf \<le> 255" "length (rad h0) = 8"
    and "int (length buf) \<le> buflen"
  shows "\<exists>b. drm_dp_encode_sideband_msg_hdr h buf = Some (b, unat (drm_dp_calc_sb_hdr_size h)) \<and>
    length b = length buf \<and>
    drm_dp_decode_sideband_msg_hdr h0 b buflen =
      Inr (Some (h\<lparr>rad := take (hdr_links h) (rad h) @ drop (hdr_links h) (rad h0)\<rparr>, drm_dp_calc_sb_hdr_size h))"
proof -
  let ?n = "hdr_links h"
  obtain c where c: "drm_dp_encode_sideband_msg_hdr h buf = Some (hdr_bytes h c @ drop (3 + ?n) buf, 3 + ?n)"
    "header_checked (hdr_bytes h c)"
    using encode_hdr assms(1-3) .
  have "length (hdr_bytes h c @ drop (3 + ?n) buf) = length buf"
    using assms(1,2) hdr_links_le [OF assms(1)] by (simp add: hdr_bytes_def hdr_valid_def)
  moreover have "int (3 + ?n) \<le> buflen" using assms(2,5) by linarith
  ultimately show ?thesis
    using c(1) decode_hdr_bytes [OF assms(1) c(2) assms(4)] calc_size(2) [OF assms(1)] by metis
qed

theorem sideband_hdr_roundtrip_witness:
  "\<exists>b. drm_dp_encode_sideband_msg_hdr
      \<lparr>lct = 2, lcr = 1, rad = 0x10 # replicate 7 0, broadcast = False, path_msg = True,
       msg_len = 20, somt = True, eomt = False, seqno = True\<rparr> (replicate 48 0) = Some (b, 4) \<and>
    drm_dp_decode_sideband_msg_hdr
      \<lparr>lct = 0, lcr = 0, rad = replicate 8 0, broadcast = False, path_msg = False, msg_len = 0,
       somt = False, eomt = False, seqno = False\<rparr> b 48 =
      Inr (Some (\<lparr>lct = 2, lcr = 1, rad = 0x10 # replicate 7 0, broadcast = False, path_msg = True,
       msg_len = 20, somt = True, eomt = False, seqno = True\<rparr>, 4))"
proof -
  let ?h = "\<lparr>lct = 2, lcr = 1, rad = 0x10 # replicate 7 0, broadcast = False, path_msg = True,
       msg_len = 20, somt = True, eomt = False, seqno = True\<rparr>"
  let ?rx = "\<lparr>lct = 0, lcr = 0, rad = replicate 8 0, broadcast = False, path_msg = False, msg_len = 0,
       somt = False, eomt = False, seqno = False\<rparr>"
  have v: "hdr_valid ?h" "hdr_links ?h = 1" "drm_dp_calc_sb_hdr_size ?h = 4"
    by (simp_all add: hdr_valid_def hdr_links_def drm_dp_calc_sb_hdr_size_def)
  show ?thesis
    using sideband_hdr_roundtrip [OF v(1), of "replicate 48 0" ?rx 48] unfolding v(2,3) by (simp add: v(1)) blast
qed

text \<open>
  an encoded header that is changed only inside a window of four bits, and not in the link count
  that gives its length, is rejected by the decoder.
\<close>
theorem sideband_hdr_detects_burst:
  assumes "hdr_valid h" "3 + hdr_links h \<le> length buf" "length buf \<le> 255" "length (rad h0) = 8"
    and "drm_dp_encode_sideband_msg_hdr h buf = Some (b, len)"
    and "length b' = length b" "take len b' \<noteq> take len b" "4 \<le> a"
    and "\<forall>p < 8 * len. bit_at b p \<noteq> bit_at b' p \<longrightarrow> a \<le> p \<and> p < a + 4"
  shows "drm_dp_decode_sideband_msg_hdr h0 b' buflen = Inr None"
proof -
  let ?n = "hdr_links h"
  obtain c where c: "drm_dp_encode_sideband_msg_hdr h buf = Some (hdr_bytes h c @ drop (3 + ?n) buf, 3 + ?n)"
    "header_checked (hdr_bytes h c)"
    using encode_hdr assms(1-3) .
  have n7: "?n \<le> 7" by (rule hdr_links_le [OF assms(1)])
  have b: "b = hdr_bytes h c @ drop (3 + ?n) buf" "len = 3 + ?n" using c(1) assms(5) by auto
  have lh: "length (hdr_bytes h c) = len"
    using assms(1) n7 by (simp add: hdr_bytes_def hdr_valid_def b(2))
  have lb: "length b' = length buf" "length b = length buf" "len \<le> length buf"
    using assms(2,6) lh b(2) by (simp_all add: b(1))
  obtain b0 t where b': "b' = b0 # t" using lb assms(2) by (cases b') auto
  have b0: "drop_bit 4 (b0 AND 0xf0) = lct h"
  proof -
    have same: "bit b0 (7 - p) = bit (hdr_byte0 h) (7 - p)" if "p < 4" for p
    proof -
      have "p < 8 * len" using that b(2) by simp
      then have "bit_at b p = bit_at b' p" using assms(8) assms(9) [rule_format, of p] that by linarith
      then show ?thesis using that by (simp add: bit_at_def b' b(1) hdr_bytes_def)
    qed
    have "drop_bit 4 (b0 AND 0xf0) = drop_bit 4 (hdr_byte0 h AND 0xf0)"
    proof (rule byte_eqI)
      fix m :: nat assume "m < 8"
      show "bit (drop_bit 4 (b0 AND 0xf0)) m = bit (drop_bit 4 (hdr_byte0 h AND 0xf0)) m"
      proof (cases "m < 4")
        case True
        then show ?thesis using same [of "3 - m"] by (simp add: bit_simps)
      next
        case False
        then show ?thesis by (auto simp: bit_simps dest: byte_bit_lt)
      qed
    qed
    then show ?thesis using hdr_byte0_fields(1) [OF assms(1)] by simp
  qed
  have notok: "\<not> header_checked (take len b')"
  proof -
    have tk: "take len b = hdr_bytes h c" using lh by (simp add: b(1))
    have ok: "crc_run 4 (0x13::u8) 0 (bits_of (take len b) 0 (8 * length (take len b))) = 0"
      using c(2) header_checked_iff [of "hdr_bytes h c"] lh n7 b(2) unfolding tk by fastforce
    have l: "length (take len b') = length (take len b)" using assms(6) by simp
    have w: "a \<le> p \<and> p < a + 4" if "p < 8 * length (take len b)" "bit_at (take len b) p \<noteq> bit_at (take len b') p" for p
      using assms(9) that lb by (simp add: nth_take_bits)
    have "crc_run 4 (0x13::u8) 0 (bits_of (take len b') 0 (8 * length (take len b))) \<noteq> 0"
      using hdr_crc.byte_burst_detected [OF ok l assms(7) [symmetric] w] .
    then show ?thesis using header_checked_iff [of "take len b'"] l lb b(2) n7 by (simp add: b')
  qed
  show ?thesis
  proof (cases "b0 = 0")
    case True
    then show ?thesis by (simp add: drm_dp_decode_sideband_msg_hdr_def b' buf_get_def)
  next
    case False
    have k: "?n = unat (drop_bit 4 (b0 AND 0xf0)) div 2" by (simp only: b0 hdr_links_def)
    show ?thesis using decode_hdr [OF b' False k _ assms(4), of buflen] lb b(2) notok by simp
  qed
qed

theorem sideband_hdr_detects_burst_witness:
  "drm_dp_decode_sideband_msg_hdr
      \<lparr>lct = 0, lcr = 0, rad = replicate 8 0, broadcast = False, path_msg = False, msg_len = 0,
       somt = False, eomt = False, seqno = False\<rparr> ([0x10, 0x02, 0xc1] @ replicate 5 0) 8 = Inr None"
proof -
  let ?h = "\<lparr>lct = 1, lcr = 0, rad = replicate 8 0, broadcast = False, path_msg = False,
       msg_len = 2, somt = True, eomt = True, seqno = False\<rparr>"
  let ?rx = "\<lparr>lct = 0, lcr = 0, rad = replicate 8 0, broadcast = False, path_msg = False, msg_len = 0,
       somt = False, eomt = False, seqno = False\<rparr>"
  have v: "hdr_valid ?h" by (simp add: hdr_valid_def)
  have e: "drm_dp_encode_sideband_msg_hdr ?h (replicate 8 0) = Some ([0x10, 0x02, 0xcb] @ replicate 5 0, 3)"
    by code_simp
  have "list_all (\<lambda>p. bit_at ([0x10, 0x02, 0xcb] @ replicate 5 0) p \<noteq> bit_at ([0x10, 0x02, 0xc1] @ replicate 5 0) p
      \<longrightarrow> 20 \<le> p \<and> p < 20 + 4) [0..<24]" by code_simp
  then have w: "\<forall>p < 8 * 3. bit_at ([0x10, 0x02, 0xcb] @ replicate 5 0) p \<noteq> bit_at ([0x10, 0x02, 0xc1] @ replicate 5 0) p
      \<longrightarrow> 20 \<le> p \<and> p < 20 + 4"
    by (simp only: list_all_iff) simp
  show ?thesis
    by (rule sideband_hdr_detects_burst [OF v _ _ _ e _ _ _ w]) (simp_all add: hdr_links_def)
qed

end
