(* ===== verification/Aux_Channel.thy ===== *)
theory Aux_Channel
  imports Prelude
begin

text \<open>
  Register access over the DisplayPort AUX channel (\<open>drm_dp_dpcd_access\<close>, \<open>drm_dp_dpcd_read\<close>,
  \<open>drm_dp_dpcd_write\<close> of \<open>drm_dp_helper.c\<close>) for a channel of the device itself. The transfer
  routine of the display driver is a parameter; \<open>sink_transfer\<close> is what such a routine with a
  conforming sink behind it does, with every way a transfer may fail scripted by a list of
  outcomes. The locale \<open>dpcd\<close> is what the callers rely on.
\<close>

section \<open>Access with retries\<close>

datatype request = NATIVE_READ | NATIVE_WRITE

text \<open>A transfer: request, address, buffer and state to state, returned number, reply and buffer.\<close>

type_synonym 's transfer = "request \<Rightarrow> nat \<Rightarrow> u8 list \<Rightarrow> 's \<Rightarrow> 's \<times> int \<times> u8 \<times> u8 list"

definition EIO_code :: int where "EIO_code = 5"
definition EPROTO_code :: int where "EPROTO_code = 92"

text \<open>The loop of \<open>drm_dp_dpcd_access\<close>, with the retries left and the first error, 0 for none.\<close>

fun access_loop ::
  "nat \<Rightarrow> int \<Rightarrow> 's transfer \<Rightarrow> request \<Rightarrow> nat \<Rightarrow> u8 list \<Rightarrow> 's \<Rightarrow> 's \<times> int \<times> u8 list" where
  "access_loop 0 err tr req addr buffer s = (s, err, buffer)"
| "access_loop (Suc retry) err tr req addr buffer s =
     (let (s, ret, reply, buffer') = tr req addr buffer s
      in if 0 \<le> ret \<and> reply AND 0x3 = 0 \<and> ret = int (length buffer) then (s, ret, buffer')
         else
           let ret = (if 0 \<le> ret then (if reply AND 0x3 = 0 then - EPROTO_code else - EIO_code) else ret)
           in access_loop retry (if err = 0 then ret else err) tr req addr buffer' s)"

definition drm_dp_dpcd_access :: "'s transfer \<Rightarrow> request \<Rightarrow> nat \<Rightarrow> u8 list \<Rightarrow> 's \<Rightarrow> 's \<times> int \<times> u8 list" where
  "drm_dp_dpcd_access tr req addr buffer s = access_loop 32 0 tr req addr buffer s"

definition drm_dp_dpcd_probe :: "'s transfer \<Rightarrow> nat \<Rightarrow> 's \<Rightarrow> 's \<times> int" where
  "drm_dp_dpcd_probe tr addr s =
     (let (s, ret, _) = drm_dp_dpcd_access tr NATIVE_READ addr [0] s in (s, if ret < 0 then ret else 0))"

definition drm_dp_dpcd_read :: "'s transfer \<Rightarrow> nat \<Rightarrow> nat \<Rightarrow> 's \<Rightarrow> 's \<times> int \<times> u8 list" where
  "drm_dp_dpcd_read tr addr n s =
     (let (s, ret) = drm_dp_dpcd_probe tr 0 s
      in if ret < 0 then (s, ret, []) else drm_dp_dpcd_access tr NATIVE_READ addr (replicate n 0) s)"

definition drm_dp_dpcd_write :: "'s transfer \<Rightarrow> nat \<Rightarrow> u8 list \<Rightarrow> 's \<Rightarrow> 's \<times> int" where
  "drm_dp_dpcd_write tr addr buffer s =
     (let (s, ret, _) = drm_dp_dpcd_access tr NATIVE_WRITE addr buffer s in (s, ret))"

section \<open>What the callers rely on\<close>

definition poke :: "(nat \<Rightarrow> u8) \<Rightarrow> nat \<Rightarrow> u8 list \<Rightarrow> nat \<Rightarrow> u8" where
  "poke m a bs = (\<lambda>x. if a \<le> x \<and> x < a + length bs then bs ! (x - a) else m x)"

definition peek :: "(nat \<Rightarrow> u8) \<Rightarrow> nat \<Rightarrow> nat \<Rightarrow> u8 list" where
  "peek m a n = map m [a..<a + n]"

lemma poke_simps: "poke m a [] = m" "x < a \<Longrightarrow> poke m a bs x = m x" "a + length bs \<le> x \<Longrightarrow> poke m a bs x = m x"
  by (auto simp: poke_def fun_eq_iff)

lemma length_peek [simp]: "length (peek m a n) = n"
  by (simp add: peek_def)

lemma peek_append: "peek m a (i + n) = peek m a i @ peek m (a + i) n"
  unfolding peek_def by (metis add.assoc le_add1 map_append upt_add_eq_append)

lemma peek_poke: "length bs = n \<Longrightarrow> peek (poke m a bs) a n = bs"
  by (rule nth_equalityI) (auto simp: peek_def poke_def)

lemma peek_cong: "(\<And>x. a \<le> x \<Longrightarrow> x < a + n \<Longrightarrow> m x = m' x) \<Longrightarrow> peek m a n = peek m' a n"
  by (simp add: peek_def)

lemma peek_nth: "i < n \<Longrightarrow> peek m a n ! i = m (a + i)"
  by (simp add: peek_def)

text \<open>
  A complete write stores the bytes, an incomplete one changes nothing outside the range; a read
  changes no register, and a complete one returns the range.
\<close>

locale dpcd =
  fixes wr :: "nat \<Rightarrow> u8 list \<Rightarrow> 's \<Rightarrow> 's \<times> int"
    and rd :: "nat \<Rightarrow> nat \<Rightarrow> 's \<Rightarrow> 's \<times> int \<times> u8 list"
    and mem :: "'s \<Rightarrow> nat \<Rightarrow> u8"
  assumes wr_full: "wr a bs s = (s', int (length bs)) \<Longrightarrow> mem s' = poke (mem s) a bs"
    and wr_frame: "wr a bs s = (s', ret) \<Longrightarrow> x < a \<or> a + length bs \<le> x \<Longrightarrow> mem s' x = mem s x"
    and rd_mem: "rd a n s = (s', ret, d) \<Longrightarrow> mem s' = mem s"
    and rd_full: "rd a n s = (s', int n, d) \<Longrightarrow> d = peek (mem s) a n"

text \<open>In the states of the set \<open>good\<close>, which no access leaves, every access is complete.\<close>

locale reliable_dpcd = dpcd wr rd mem
  for wr :: "nat \<Rightarrow> u8 list \<Rightarrow> 's \<Rightarrow> 's \<times> int"
    and rd :: "nat \<Rightarrow> nat \<Rightarrow> 's \<Rightarrow> 's \<times> int \<times> u8 list"
    and mem :: "'s \<Rightarrow> nat \<Rightarrow> u8" +
  fixes good :: "'s \<Rightarrow> bool"
  assumes wr_good: "good s \<Longrightarrow> wr a bs s = (s', ret) \<Longrightarrow> ret = int (length bs) \<and> good s'"
    and rd_good: "good s \<Longrightarrow> rd a n s = (s', ret, d) \<Longrightarrow> ret = int n \<and> good s'"

section \<open>A conforming sink\<close>

text \<open>
  What may happen to one transfer: it is carried out and acknowledged; a prefix of it is, and the
  shorter count returned; it is refused with some reply, after part of it may have been stored; or
  the driver reports an error. After the script every transfer succeeds.
\<close>

datatype outcome = Acked | Short nat | Refused u8 nat | Errno nat

record sink =
  regs :: "nat \<Rightarrow> u8"
  outcomes :: "outcome list"

definition next_outcome :: "sink \<Rightarrow> outcome \<times> sink" where
  "next_outcome s = (case outcomes s of [] \<Rightarrow> (Acked, s) | r # rs \<Rightarrow> (r, s\<lparr>outcomes := rs\<rparr>))"

definition store :: "request \<Rightarrow> nat \<Rightarrow> u8 list \<Rightarrow> nat \<Rightarrow> sink \<Rightarrow> sink" where
  "store req addr bs k s =
     (case req of NATIVE_READ \<Rightarrow> s | NATIVE_WRITE \<Rightarrow> s\<lparr>regs := poke (regs s) addr (take k bs)\<rparr>)"

definition fetch :: "request \<Rightarrow> nat \<Rightarrow> u8 list \<Rightarrow> nat \<Rightarrow> sink \<Rightarrow> u8 list" where
  "fetch req addr bs k s =
     (case req of NATIVE_WRITE \<Rightarrow> bs
                | NATIVE_READ \<Rightarrow> peek (regs s) addr (min k (length bs)) @ drop k bs)"

definition sink_transfer :: "sink transfer" where
  "sink_transfer req addr bs s =
     (let (r, s) = next_outcome s
      in case r of
           Acked \<Rightarrow> (store req addr bs (length bs) s, int (length bs), 0, fetch req addr bs (length bs) s)
         | Short k \<Rightarrow> (store req addr bs k s, int (min k (length bs)), 0, fetch req addr bs k s)
         | Refused reply k \<Rightarrow>
             (store req addr bs k s, int (length bs), (if reply AND 0x3 = 0 then 1 else reply), bs)
         | Errno e \<Rightarrow> (s, - 1 - int e, 0, bs))"

lemma regs_store:
  "regs (store NATIVE_READ a bs k s) = regs s"
  "x < a \<or> a + length bs \<le> x \<Longrightarrow> regs (store req a bs k s) x = regs s x"
  by (auto simp: store_def poke_def split: request.splits)

lemma regs_next_outcome: "next_outcome s = (r, s') \<Longrightarrow> regs s' = regs s"
  by (auto simp: next_outcome_def split: list.splits)

lemma transfer_frame:
  "sink_transfer req a bs s = (s', ret, reply, bs') \<Longrightarrow>
     length bs' = length bs \<and> (req = NATIVE_READ \<longrightarrow> regs s' = regs s) \<and> (req = NATIVE_WRITE \<longrightarrow> bs' = bs) \<and>
     (\<forall>x. x < a \<or> a + length bs \<le> x \<longrightarrow> regs s' x = regs s x)"
  by (auto simp: sink_transfer_def fetch_def store_def poke_def
      split: prod.splits outcome.splits request.splits dest!: regs_next_outcome)

lemma transfer_full:
  assumes "sink_transfer req a bs s = (s', ret, reply, bs')" "0 \<le> ret" "reply AND 0x3 = 0" "ret = int (length bs)"
  shows "req = NATIVE_WRITE \<longrightarrow> regs s' = poke (regs s) a bs" "req = NATIVE_READ \<longrightarrow> bs' = peek (regs s) a (length bs)"
  using assms
  by (auto simp: sink_transfer_def fetch_def store_def min_def
      split: prod.splits outcome.splits request.splits if_splits dest!: regs_next_outcome)

lemma access_loop_frame:
  "access_loop n err sink_transfer req a bs s = (s', ret, bs') \<Longrightarrow>
     (req = NATIVE_READ \<longrightarrow> regs s' = regs s) \<and> (\<forall>x. x < a \<or> a + length bs \<le> x \<longrightarrow> regs s' x = regs s x)"
proof (induction n arbitrary: err bs s)
  case (Suc n)
  obtain s1 r reply b1 where t: "sink_transfer req a bs s = (s1, r, reply, b1)" by (metis prod_cases4)
  note f = transfer_frame [OF t]
  show ?case
    using Suc.prems f Suc.IH [of _ b1 s1] by (auto simp: t Let_def split: if_splits)
qed simp

text \<open>The number that is returned is the full length only after a complete transfer.\<close>

lemma access_loop_full:
  "access_loop n err sink_transfer req a bs s = (s', int (length bs), bs') \<Longrightarrow> err < 0 \<or> err = 0 \<and> 0 < n \<Longrightarrow>
     (req = NATIVE_WRITE \<longrightarrow> regs s' = poke (regs s) a bs) \<and>
     (req = NATIVE_READ \<longrightarrow> bs' = peek (regs s) a (length bs))"
proof (induction n arbitrary: err bs s)
  case (Suc n)
  obtain s1 r reply b1 where t: "sink_transfer req a bs s = (s1, r, reply, b1)" by (metis prod_cases4)
  note f = transfer_frame [OF t]
  show ?case
  proof (cases "0 \<le> r \<and> reply AND 0x3 = 0 \<and> r = int (length bs)")
    case True
    then show ?thesis using Suc.prems(1) transfer_full [OF t] by (simp add: t)
  next
    case False
    define e where "e = (if err = 0 then (if 0 \<le> r then (if reply AND 0x3 = 0 then - EPROTO_code else - EIO_code) else r) else err)"
    have e: "e < 0" using Suc.prems(2) by (auto simp: e_def EPROTO_code_def EIO_code_def)
    have "access_loop n e sink_transfer req a b1 s1 = (s', int (length b1), bs')"
      using Suc.prems(1) False f by (auto simp: t Let_def e_def)
    from Suc.IH [OF this] e have IH: "(req = NATIVE_WRITE \<longrightarrow> regs s' = poke (regs s1) a b1) \<and>
        (req = NATIVE_READ \<longrightarrow> bs' = peek (regs s1) a (length b1))" by simp
    have "poke (regs s1) a bs = poke (regs s) a bs" if "req = NATIVE_WRITE"
      using f that by (auto simp: poke_def fun_eq_iff)
    then show ?thesis using IH f by auto
  qed
qed auto

interpretation mailbox: dpcd "drm_dp_dpcd_write sink_transfer" "drm_dp_dpcd_read sink_transfer" regs
proof
  fix a n x :: nat and bs d :: "u8 list" and s s' :: sink and ret :: int
  show "drm_dp_dpcd_write sink_transfer a bs s = (s', int (length bs)) \<Longrightarrow> regs s' = poke (regs s) a bs"
    by (auto simp: drm_dp_dpcd_write_def drm_dp_dpcd_access_def split: prod.splits dest: access_loop_full)
  show "drm_dp_dpcd_write sink_transfer a bs s = (s', ret) \<Longrightarrow> x < a \<or> a + length bs \<le> x \<Longrightarrow> regs s' x = regs s x"
    by (auto simp: drm_dp_dpcd_write_def drm_dp_dpcd_access_def split: prod.splits dest: access_loop_frame)
  have probe: "drm_dp_dpcd_probe sink_transfer 0 s = (t, r) \<Longrightarrow> regs t = regs s" for t r
    by (auto simp: drm_dp_dpcd_probe_def drm_dp_dpcd_access_def split: prod.splits dest: access_loop_frame)
  show "drm_dp_dpcd_read sink_transfer a n s = (s', ret, d) \<Longrightarrow> regs s' = regs s"
    using probe by (auto simp: drm_dp_dpcd_read_def drm_dp_dpcd_access_def split: prod.splits if_splits dest: access_loop_frame)
  show "drm_dp_dpcd_read sink_transfer a n s = (s', int n, d) \<Longrightarrow> d = peek (regs s) a n"
    using probe access_loop_full [of 32 0 NATIVE_READ a "replicate n 0"]
    by (auto simp: drm_dp_dpcd_read_def drm_dp_dpcd_access_def split: prod.splits if_splits) metis
qed

lemma access_no_script:
  assumes "outcomes s = []" "drm_dp_dpcd_access sink_transfer req a bs s = (s', ret, bs')"
  shows "outcomes s' = []" "ret = int (length bs)"
proof -
  obtain s1 r reply b1 where t: "sink_transfer req a bs s = (s1, r, reply, b1)" by (metis prod_cases4)
  have n: "(32::nat) = Suc 31" by simp
  have "outcomes s1 = [] \<and> r = int (length bs) \<and> reply = 0"
    using t assms(1) by (auto simp: sink_transfer_def next_outcome_def store_def split: request.splits)
  then show "outcomes s' = []" "ret = int (length bs)"
    using assms(2) unfolding drm_dp_dpcd_access_def n access_loop.simps t by auto
qed

interpretation mailbox: reliable_dpcd "drm_dp_dpcd_write sink_transfer" "drm_dp_dpcd_read sink_transfer" regs
  "\<lambda>s. outcomes s = []"
proof
  fix a n :: nat and bs d :: "u8 list" and s s' :: sink and ret :: int
  assume s: "outcomes s = []"
  show "drm_dp_dpcd_write sink_transfer a bs s = (s', ret) \<Longrightarrow> ret = int (length bs) \<and> outcomes s' = []"
    using access_no_script [OF s, of NATIVE_WRITE a bs] by (auto simp: drm_dp_dpcd_write_def split: prod.splits)
  obtain t r where p: "drm_dp_dpcd_probe sink_transfer 0 s = (t, r)" by force
  then have "outcomes t = []" "\<not> r < 0"
    using access_no_script [OF s, of NATIVE_READ 0 "[0]"] by (auto simp: drm_dp_dpcd_probe_def split: prod.splits)
  then show "drm_dp_dpcd_read sink_transfer a n s = (s', ret, d) \<Longrightarrow> ret = int n \<and> outcomes s' = []"
    using access_no_script [of t NATIVE_READ a "replicate n 0"] by (auto simp: drm_dp_dpcd_read_def p)
qed

section \<open>Properties\<close>

definition ok_outcome :: "nat \<Rightarrow> outcome \<Rightarrow> bool" where
  "ok_outcome n r = (case r of Acked \<Rightarrow> True | Short k \<Rightarrow> n \<le> k | _ \<Rightarrow> False)"

text \<open>The error one failed attempt counts as.\<close>

definition outcome_error :: "outcome \<Rightarrow> int" where
  "outcome_error r = (case r of Short _ \<Rightarrow> - EPROTO_code | Errno e \<Rightarrow> - 1 - int e | _ \<Rightarrow> - EIO_code)"

lemma transfer_outcome:
  assumes "sink_transfer req a bs s = (s', ret, reply, bs')" "outcomes s = r # rs"
  shows "outcomes s' = rs" "(0 \<le> ret \<and> reply AND 0x3 = 0 \<and> ret = int (length bs)) = ok_outcome (length bs) r"
    "\<not> ok_outcome (length bs) r \<Longrightarrow>
       (if 0 \<le> ret then (if reply AND 0x3 = 0 then - EPROTO_code else - EIO_code) else ret) = outcome_error r"
  using assms
  by (auto simp: sink_transfer_def next_outcome_def store_def ok_outcome_def outcome_error_def and_masks
      split: outcome.splits request.splits if_splits)

lemma transfer_no_script:
  assumes "sink_transfer req a bs s = (s', ret, reply, bs')" "outcomes s = []"
  shows "outcomes s' = []" "ret = int (length bs)" "reply = 0"
  using assms by (auto simp: sink_transfer_def next_outcome_def store_def split: request.splits)

lemma access_loop_retries:
  "access_loop n err sink_transfer req a bs s = (s', ret, bs') \<Longrightarrow>
   (let bad = takeWhile (\<lambda>r. \<not> ok_outcome (length bs) r) (outcomes s)
    in if length bad < n
       then ret = int (length bs) \<and> outcomes s' = drop (Suc (length bad)) (outcomes s)
       else ret = (if err = 0 \<and> 0 < n then outcome_error (hd (outcomes s)) else err) \<and>
            outcomes s' = drop n (outcomes s))"
proof (induction n arbitrary: err bs s)
  case (Suc n)
  obtain s1 r reply b1 where t: "sink_transfer req a bs s = (s1, r, reply, b1)" by (metis prod_cases4)
  have l: "length b1 = length bs" using transfer_frame [OF t] by simp
  show ?case
  proof (cases "outcomes s")
    case Nil
    then show ?thesis using transfer_no_script [OF t Nil] Suc.prems by (auto simp: t)
  next
    case (Cons o1 os)
    note o1 = transfer_outcome [OF t Cons]
    show ?thesis
    proof (cases "ok_outcome (length bs) o1")
      case True
      then show ?thesis using Suc.prems o1(1,2) by (simp add: t Cons)
    next
      case False
      have neg: "outcome_error o1 \<noteq> 0"
        by (auto simp: outcome_error_def EPROTO_code_def EIO_code_def split: outcome.splits)
      have "access_loop n (if err = 0 then outcome_error o1 else err) sink_transfer req a b1 s1 = (s', ret, bs')"
        using Suc.prems False o1(2) o1(3) [OF False] by (simp add: t)
      from Suc.IH [OF this] show ?thesis
        using False neg by (auto simp: Cons o1(1) l Let_def split: if_splits)
    qed
  qed
qed simp

text \<open>
  a write through the AUX channel is attempted until it is carried out completely, at most 32
  times. When one of the first 32 attempts succeeds, the registers hold exactly the bytes written
  and the number returned is their count; otherwise the error of the first attempt is returned. No
  register outside the range ever changes.
\<close>
theorem dpcd_write_retries:
  assumes "drm_dp_dpcd_write sink_transfer a bs s = (s', ret)"
  shows "(let bad = takeWhile (\<lambda>r. \<not> ok_outcome (length bs) r) (outcomes s)
    in if length bad < 32
       then ret = int (length bs) \<and> outcomes s' = drop (Suc (length bad)) (outcomes s) \<and>
            regs s' = poke (regs s) a bs
       else ret = outcome_error (hd (outcomes s)) \<and> outcomes s' = drop 32 (outcomes s)) \<and>
    (\<forall>x. x < a \<or> a + length bs \<le> x \<longrightarrow> regs s' x = regs s x)"
proof -
  obtain bs' where "access_loop 32 0 sink_transfer NATIVE_WRITE a bs s = (s', ret, bs')"
    using assms by (auto simp: drm_dp_dpcd_write_def drm_dp_dpcd_access_def split: prod.splits)
  from access_loop_retries [OF this] show ?thesis
    using mailbox.wr_full [of a bs s s'] mailbox.wr_frame [OF assms] assms
    by (auto simp: Let_def split: if_splits)
qed

theorem dpcd_write_retries_witness:
  "\<exists>s'. drm_dp_dpcd_write sink_transfer 7 [1, 2] \<lparr>regs = (\<lambda>_. 0), outcomes = [Refused 2 1, Errno 3, Acked, Acked]\<rparr> = (s', 2)
    \<and> regs s' = poke (\<lambda>_. 0) 7 [1, 2] \<and> outcomes s' = [Acked]"
proof -
  let ?s = "\<lparr>regs = (\<lambda>_. 0), outcomes = [Refused 2 1, Errno 3, Acked, Acked]\<rparr>"
  obtain s' ret where w: "drm_dp_dpcd_write sink_transfer 7 [1, 2] ?s = (s', ret)" by force
  show ?thesis using dpcd_write_retries [OF w] w by (simp add: ok_outcome_def)
qed

end
