(* ===== verification/Sideband_Xfer.thy ===== *)
theory Sideband_Xfer
  imports Sideband_Hdr Aux_Channel
begin

text \<open>
  Sending and receiving a sideband message, chunk by chunk: \<open>process_single_tx_qlock\<close> and what it
  calls on the sending side, \<open>drm_dp_get_one_sb_msg\<close> and what it calls on the receiving side. The
  register access is a parameter (the locale \<open>dpcd\<close> says what it promises), as is the lookup of
  the branch a reply comes from. An access outside an array, or of bytes never written, is
  \<open>Inl Oob\<close>.
\<close>

section \<open>Sending\<close>

datatype tx_state = TX_QUEUED | TX_START_SEND | TX_SENT | TX_RX | TX_TIMEOUT

text \<open>\<open>struct drm_dp_sideband_msg_tx\<close>; of the destination branch, the link count and the address.\<close>

record sb_tx =
  tx_msg :: "u8 list"
  cur_offset :: u8
  cur_len :: u8
  dst_lct :: u8
  dst_rad :: "u8 list"
  tx_state :: tx_state
  tx_path_msg :: bool

definition DP_SIDEBAND_MSG_DOWN_REQ_BASE :: nat where "DP_SIDEBAND_MSG_DOWN_REQ_BASE = 0x1000"
definition DP_SIDEBAND_MSG_UP_REP_BASE :: nat where "DP_SIDEBAND_MSG_UP_REP_BASE = 0x1200"
definition DP_SIDEBAND_MSG_DOWN_REP_BASE :: nat where "DP_SIDEBAND_MSG_DOWN_REP_BASE = 0x1400"
definition DP_SIDEBAND_MSG_UP_REQ_BASE :: nat where "DP_SIDEBAND_MSG_UP_REQ_BASE = 0x1600"

definition drm_dp_crc_sideband_chunk_req :: "u8 list \<Rightarrow> nat \<Rightarrow> u8 \<Rightarrow> u8 list option" where
  "drm_dp_crc_sideband_chunk_req buf off len =
     do { crc4 \<leftarrow> drm_dp_msg_data_crc4 (drop off buf) len; buf_put buf (off + unat len) [crc4] }"

text \<open>
  The loop that writes the chunk register by register block, starting over on an I/O error, at most
  five times. \<open>None\<close> is a loop that does not end.
\<close>

partial_function (option) send_loop ::
  "(nat \<Rightarrow> u8 list \<Rightarrow> 's \<Rightarrow> 's \<times> int) \<Rightarrow> int \<Rightarrow> nat \<Rightarrow> u8 list \<Rightarrow> nat \<Rightarrow> nat \<Rightarrow> nat \<Rightarrow> nat \<Rightarrow> 's \<Rightarrow> ('s \<times> int) res option" where
  "send_loop wr max_bytes regbase msg len left offset retries s =
     (let tosend = min (min max_bytes 16) (int left)
      in if tosend < 0 then Some (Inl Oob)
         else case buf_slice msg offset (nat tosend) of
           None \<Rightarrow> Some (Inl Oob)
         | Some d \<Rightarrow>
             (case wr (regbase + offset) d s of (s, ret) \<Rightarrow>
                if ret \<noteq> tosend then
                  if ret = - EIO_code \<and> retries < 5
                  then send_loop wr max_bytes regbase msg len len 0 (retries + 1) s
                  else Some (Inr (s, - EIO_code))
                else if 0 < left - nat tosend
                then send_loop wr max_bytes regbase msg len (left - nat tosend) (offset + nat tosend) retries s
                else Some (Inr (s, 0))))"

declare send_loop.simps [code]

definition drm_dp_send_sideband_msg ::
  "(nat \<Rightarrow> u8 list \<Rightarrow> 's \<Rightarrow> 's \<times> int) \<Rightarrow> int \<Rightarrow> bool \<Rightarrow> u8 list \<Rightarrow> nat \<Rightarrow> 's \<Rightarrow> ('s \<times> int) res option" where
  "drm_dp_send_sideband_msg wr max_bytes up msg len s =
     send_loop wr max_bytes (if up then DP_SIDEBAND_MSG_UP_REP_BASE else DP_SIDEBAND_MSG_DOWN_REQ_BASE)
       msg len len 0 0 s"

definition zero_hdr :: sb_hdr where
  "zero_hdr = \<lparr>lct = 0, lcr = 0, rad = replicate 8 0, broadcast = False, path_msg = False, msg_len = 0,
     somt = False, eomt = False, seqno = False\<rparr>"

definition set_hdr_from_dst_qlock :: "sb_hdr \<Rightarrow> sb_tx \<Rightarrow> sb_hdr option" where
  "set_hdr_from_dst_qlock hdr txmsg =
     do { m0 \<leftarrow> buf_get (tx_msg txmsg) 0;
          let req_type = m0 AND 0x7f;
          let bc = (req_type = 0x02 \<or> req_type = 0x13 \<or> req_type = 0x14);
          let l = (if bc then 1 else dst_lct txmsg);
          r \<leftarrow> buf_slice (dst_rad txmsg) 0 (unat l div 2);
          r \<leftarrow> buf_put (rad hdr) 0 r;
          Some (hdr\<lparr>broadcast := bc, path_msg := tx_path_msg txmsg, lct := l,
                    lcr := (if bc then 6 else dst_lct txmsg - 1), rad := r\<rparr>) }"

text \<open>The chunk that is sent: header, the next bytes of the message, their check. \<open>space\<close> and \<open>len\<close> are \<open>int\<close>s.\<close>

definition tx_space :: "sb_hdr \<Rightarrow> int" where
  "tx_space hdr = 48 - 1 - int (unat (drm_dp_calc_sb_hdr_size hdr))"

definition build_chunk :: "sb_hdr \<Rightarrow> sb_tx \<Rightarrow> u8 list \<Rightarrow> (u8 list \<times> nat \<times> nat) option" where
  "build_chunk hdr txmsg chunk =
     (let len = int (unat (cur_len txmsg)) - int (unat (cur_offset txmsg));
          space = tx_space hdr;
          tosend = min len space;
          hdr = hdr\<lparr>somt := (len = int (unat (cur_len txmsg))), eomt := (len \<le> space),
                    msg_len := word_of_int (tosend + 1)\<rparr>
      in if tosend < 0 then None
         else do { (chunk, idx) \<leftarrow> drm_dp_encode_sideband_msg_hdr hdr chunk;
                   payload \<leftarrow> buf_slice (tx_msg txmsg) (unat (cur_offset txmsg)) (nat tosend);
                   chunk \<leftarrow> buf_put chunk idx payload;
                   chunk \<leftarrow> drm_dp_crc_sideband_chunk_req chunk idx (word_of_int tosend);
                   Some (chunk, idx + nat tosend + 1, nat tosend) })"

text \<open>
  \<open>chunk\<close> is the contents of the array on the stack. The returned number is 1 when the message has
  been sent completely, 0 when some of it is left, negative on an error.
\<close>

definition process_single_tx_qlock ::
  "(nat \<Rightarrow> u8 list \<Rightarrow> 's \<Rightarrow> 's \<times> int) \<Rightarrow> int \<Rightarrow> bool \<Rightarrow> u8 list \<Rightarrow> sb_tx \<Rightarrow> 's \<Rightarrow> ('s \<times> sb_tx \<times> int) res option" where
  "process_single_tx_qlock wr max_bytes up chunk txmsg s =
     (if tx_state txmsg = TX_SENT then Some (Inr (s, txmsg, 0))
      else
        let txmsg = (if tx_state txmsg = TX_QUEUED then txmsg\<lparr>tx_state := TX_START_SEND\<rparr> else txmsg)
        in case set_hdr_from_dst_qlock zero_hdr txmsg of
             None \<Rightarrow> Some (Inl Oob)
           | Some hdr \<Rightarrow>
               (case build_chunk hdr txmsg chunk of
                  None \<Rightarrow> Some (Inl Oob)
                | Some (chunk, idx, tosend) \<Rightarrow>
                    (case drm_dp_send_sideband_msg wr max_bytes up chunk idx s of
                       None \<Rightarrow> None
                     | Some (Inl e) \<Rightarrow> Some (Inl e)
                     | Some (Inr (s, ret)) \<Rightarrow>
                         if ret \<noteq> 0 then Some (Inr (s, txmsg, ret))
                         else
                           let txmsg = txmsg\<lparr>cur_offset := cur_offset txmsg + word_of_nat tosend\<rparr>
                           in if cur_offset txmsg = cur_len txmsg
                              then Some (Inr (s, txmsg\<lparr>tx_state := TX_SENT\<rparr>, 1))
                              else Some (Inr (s, txmsg, 0)))))"

section \<open>Receiving\<close>

record sb_rx =
  rx_chunk :: "u8 list"
  rx_msg :: "u8 list"
  curchunk_len :: u8
  curchunk_idx :: u8
  curchunk_hdrlen :: u8
  curlen :: u8
  have_somt :: bool
  have_eomt :: bool
  initial_hdr :: sb_hdr

definition zero_rx :: sb_rx where
  "zero_rx = \<lparr>rx_chunk = replicate 48 0, rx_msg = replicate 256 0, curchunk_len = 0, curchunk_idx = 0,
     curchunk_hdrlen = 0, curlen = 0, have_somt = False, have_eomt = False, initial_hdr = zero_hdr\<rparr>"

definition drm_dp_sideband_msg_set_header :: "sb_rx \<Rightarrow> sb_hdr \<Rightarrow> u8 \<Rightarrow> sb_rx \<times> bool" where
  "drm_dp_sideband_msg_set_header m hdr hdrlen =
     (if \<not> somt hdr \<and> \<not> have_somt m then (m, False)
      else
        let m = m\<lparr>curchunk_idx := 0, curchunk_len := msg_len hdr, curchunk_hdrlen := hdrlen\<rparr>
        in if somt hdr \<and> have_somt m then (m, False)
           else
             let m = (if somt hdr then m\<lparr>initial_hdr := hdr, have_somt := True\<rparr> else m);
                 m = (if eomt hdr then m\<lparr>have_eomt := True\<rparr> else m)
             in (m, True))"

text \<open>
  A check that does not match is only logged. The check and the copy take the length of the chunk
  minus one, computed in \<open>int\<close> and passed on as \<open>u8\<close> and \<open>size_t\<close>.
\<close>

definition drm_dp_sideband_append_payload :: "sb_rx \<Rightarrow> u8 list \<Rightarrow> sb_rx option" where
  "drm_dp_sideband_append_payload m replybuf =
     do { c \<leftarrow> buf_put (rx_chunk m) (unat (curchunk_idx m)) replybuf;
          let m = m\<lparr>rx_chunk := c, curchunk_idx := curchunk_idx m + word_of_nat (length replybuf)\<rparr>;
          if curchunk_len m \<le> curchunk_idx m then
            if curchunk_len m = 0 then None
            else do { crc4 \<leftarrow> drm_dp_msg_data_crc4 (rx_chunk m) (curchunk_len m - 1);
                      l \<leftarrow> buf_get (rx_chunk m) (unat (curchunk_len m) - 1);
                      d \<leftarrow> buf_slice (rx_chunk m) 0 (unat (curchunk_len m) - 1);
                      b \<leftarrow> buf_put (rx_msg m) (unat (curlen m)) d;
                      Some (m\<lparr>rx_msg := b, curlen := curlen m + (curchunk_len m - 1)\<rparr>) }
          else Some m }"

function rx_loop ::
  "(nat \<Rightarrow> nat \<Rightarrow> 's \<Rightarrow> 's \<times> int \<times> u8 list) \<Rightarrow> int \<Rightarrow> nat \<Rightarrow> sb_rx \<Rightarrow> int \<Rightarrow> nat \<Rightarrow> 's \<Rightarrow> ('s \<times> sb_rx \<times> bool) res" where
  "rx_loop rd max_bytes basereg m replylen curreply s =
     (if replylen \<le> 0 then Inr (s, m, True)
      else
        let len = min (min replylen max_bytes) 16
        in if len \<le> 0 then Inl Oob
           else
             (case rd (basereg + curreply) (nat len) s of (s, ret, d) \<Rightarrow>
                if ret \<noteq> len then Inr (s, m, False)
                else case drm_dp_sideband_append_payload m d of
                  None \<Rightarrow> Inl Oob
                | Some m \<Rightarrow> rx_loop rd max_bytes basereg m (replylen - len) (curreply + nat len) s))"
  by pat_completeness auto

termination
  by (relation "measure (\<lambda>(rd, max_bytes, basereg, m, replylen, curreply, s). nat replylen)") auto

declare rx_loop.simps [simp del]

text \<open>
  \<open>hdr\<close> is the contents of the header on the stack; \<open>lookup\<close> finds the branch of a reply. Returns
  the branch found, for a reply, and the verdict.
\<close>

definition drm_dp_get_one_sb_msg ::
  "(nat \<Rightarrow> nat \<Rightarrow> 's \<Rightarrow> 's \<times> int \<times> u8 list) \<Rightarrow> int \<Rightarrow> (u8 \<Rightarrow> u8 list \<Rightarrow> 'm option) \<Rightarrow> bool \<Rightarrow> sb_hdr \<Rightarrow> sb_rx \<Rightarrow> 's
     \<Rightarrow> ('s \<times> sb_rx \<times> 'm option \<times> bool) res" where
  "drm_dp_get_one_sb_msg rd max_bytes lookup up hdr m s =
     (let basereg = (if up then DP_SIDEBAND_MSG_UP_REQ_BASE else DP_SIDEBAND_MSG_DOWN_REP_BASE);
          len = min max_bytes 16
      in if len \<le> 0 then Inl Oob
         else case rd basereg (nat len) s of (s, ret, replyblock) \<Rightarrow>
           if ret \<noteq> len then Inr (s, m, None, False)
           else bindE (drm_dp_decode_sideband_msg_hdr hdr replyblock len) (\<lambda>r.
             case r of
               None \<Rightarrow> Inr (s, m, None, False)
             | Some (hdr, hdrlen) \<Rightarrow>
                 let mstb = (if up then None else lookup (lct hdr) (rad hdr))
                 in if \<not> up \<and> mstb = None then Inr (s, m, None, False)
                    else case drm_dp_sideband_msg_set_header m hdr hdrlen of (m, ok) \<Rightarrow>
                      if \<not> ok then Inr (s, m, mstb, False)
                      else
                        let replylen = min (curchunk_len m) (word_of_int (len - int (unat hdrlen)))
                        in case buf_slice replyblock (unat hdrlen) (unat replylen) of
                             None \<Rightarrow> Inl Oob
                           | Some d \<Rightarrow>
                               (case drm_dp_sideband_append_payload m d of
                                  None \<Rightarrow> Inl Oob
                                | Some m \<Rightarrow>
                                    map_sum id (\<lambda>(s, m, ok). (s, m, mstb, ok))
                                      (rx_loop rd max_bytes basereg m
                                        (int (unat (curchunk_len m)) + int (unat (curchunk_hdrlen m)) - len)
                                        (nat len) s))))"

end
