(* ===== verification/Sideband_Xfer_Props.thy ===== *)
theory Sideband_Xfer_Props
  imports Sideband_Xfer
begin

text \<open>
  Sending and receiving a sideband message: the loop that writes a chunk ends and leaves the chunk in
  the registers, the chunk that is built is a valid header, the next bytes and their check, receiving
  it appends the bytes, and a whole message arrives as it was sent.
\<close>

section \<open>Writing the registers\<close>

context dpcd
begin

lemma send_loop_result:
  assumes max: "1 \<le> max_bytes" and len: "len \<le> length msg"
  shows "offset + left = len \<Longrightarrow> 0 < left \<Longrightarrow> retries \<le> 5 \<Longrightarrow> peek (mem s) base offset = take offset msg \<Longrightarrow>
    \<exists>s' ret. send_loop wr max_bytes base msg len left offset retries s = Some (Inr (s', ret)) \<and>
      (ret = 0 \<and> peek (mem s') base len = take len msg \<or> ret = - EIO_code) \<and>
      (\<forall>x. x < base \<or> base + len \<le> x \<longrightarrow> mem s' x = mem s x)"
proof (induction "(5 - retries) * (len + 1) + left" arbitrary: left offset retries s rule: less_induct)
  case less
  define n where "n = nat (min (min max_bytes 16) (int left))"
  have n: "1 \<le> n" "n \<le> left" "min (min max_bytes 16) (int left) = int n"
    using max less.prems(2) by (simp_all add: n_def)
  define d where "d = take n (drop offset msg)"
  have sl: "buf_slice msg offset n = Some d" using n less.prems(1) len by (simp add: buf_slice_def d_def)
  have ld: "length d = n" using sl by (rule buf_slice_length)
  obtain s1 r where w: "wr (base + offset) d s = (s1, r)" by force
  have frame: "mem s1 x = mem s x" if "x < base \<or> base + len \<le> x" for x
    using wr_frame [OF w, of x] that n less.prems(1) ld by auto
  note step = send_loop.simps [of wr max_bytes base msg len left offset retries s, unfolded n(3)]
  show ?case
  proof (cases "r = int n")
    case False
    show ?thesis
    proof (cases "r = - EIO_code \<and> retries < 5")
      case True
      have m: "(5 - (retries + 1)) * (len + 1) + len < (5 - retries) * (len + 1) + left"
      proof -
            have "5 - retries = Suc (5 - (retries + 1))" using True by linarith
        then show ?thesis using less.prems(2) by simp
      qed
      have e: "send_loop wr max_bytes base msg len left offset retries s =
          send_loop wr max_bytes base msg len len 0 (retries + 1) s1"
        unfolding step using sl w False True by simp
      have "0 + len = len" "0 < len" "retries + 1 \<le> 5" "peek (mem s1) base 0 = take 0 msg"
        using less.prems True by (simp_all add: peek_def)
      from less.hyps [OF m this] show ?thesis unfolding e using frame by fastforce
    next
      case F2: False
      have "send_loop wr max_bytes base msg len left offset retries s = Some (Inr (s1, - EIO_code))"
        unfolding step using sl w False F2 by (auto simp: Let_def)
      then show ?thesis using frame by blast
    qed
  next
    case True
    have mem1: "mem s1 = poke (mem s) (base + offset) d" using wr_full [of "base + offset" d s s1] w True ld by simp
    have "peek (mem s1) base offset = peek (mem s) base offset"
      by (rule peek_cong) (simp add: mem1 poke_def)
    then have sent: "peek (mem s1) base (offset + n) = take (offset + n) msg"
      using less.prems(4) mem1 ld sl by (simp add: peek_append peek_poke take_add d_def)
    show ?thesis
    proof (cases "n = left")
      case True
      have "send_loop wr max_bytes base msg len left offset retries s = Some (Inr (s1, 0))"
        unfolding step using sl w \<open>r = int n\<close> True by simp
      then show ?thesis using sent frame True less.prems(1) by auto
    next
      case F: False
      have e: "send_loop wr max_bytes base msg len left offset retries s =
          send_loop wr max_bytes base msg len (left - n) (offset + n) retries s1"
        unfolding step using sl w True F n by simp
      have m: "(5 - retries) * (len + 1) + (left - n) < (5 - retries) * (len + 1) + left" using n F by simp
      have "offset + n + (left - n) = len" "0 < left - n" using less.prems(1) n F by simp_all
      from less.hyps [OF m this less.prems(3) sent] show ?thesis unfolding e using frame by fastforce
    qed
  qed
qed

end

context reliable_dpcd
begin

lemma send_loop_good:
  assumes "1 \<le> max_bytes" "len \<le> length msg" "good s" "0 < len"
    and "send_loop wr max_bytes base msg len left offset retries s = Some (Inr (s', ret))"
    and "offset + left = len" "0 < left"
  shows "ret = 0 \<and> good s'"
  using assms(3,5,6,7)
proof (induction left arbitrary: offset s rule: less_induct)
  case (less left)
  define n where "n = nat (min (min max_bytes 16) (int left))"
  have n: "1 \<le> n" "n \<le> left" "min (min max_bytes 16) (int left) = int n"
    using assms(1) less.prems(4) by (simp_all add: n_def)
  define d where "d = take n (drop offset msg)"
  have sl: "buf_slice msg offset n = Some d" using n less.prems(3) assms(2) by (simp add: buf_slice_def d_def)
  have ld: "length d = n" using sl by (rule buf_slice_length)
  obtain s1 r where w: "wr (base + offset) d s = (s1, r)" by force
  have g: "r = int n" "good s1" using wr_good [OF less.prems(1) w] ld by simp_all
  note step = less.prems(2) [unfolded send_loop.simps [of wr max_bytes base msg len left offset retries s] n(3)]
  show ?case
  proof (cases "n = left")
    case True
    then show ?thesis using step sl w g by simp
  next
    case False
    have "send_loop wr max_bytes base msg len (left - n) (offset + n) retries s1 = Some (Inr (s', ret))"
      using step sl w g False n by simp
    from less.IH [OF _ g(2) this] n False less.prems(3) show ?thesis by simp
  qed
qed

end

section \<open>The chunk that is built\<close>

definition tx_ok :: "sb_tx \<Rightarrow> bool" where
  "tx_ok t \<longleftrightarrow> length (tx_msg t) = 256 \<and> length (dst_rad t) = 8 \<and> 0 < dst_lct t \<and> dst_lct t < 16"

definition is_broadcast :: "sb_tx \<Rightarrow> bool" where
  "is_broadcast t \<longleftrightarrow> tx_msg t ! 0 AND 0x7f \<in> {0x02, 0x13, 0x14}"

definition dst_hdr :: "sb_tx \<Rightarrow> sb_hdr" where
  "dst_hdr t = (let l = (if is_broadcast t then 1 else dst_lct t); n = unat l div 2
     in zero_hdr\<lparr>broadcast := is_broadcast t, path_msg := tx_path_msg t, lct := l,
          lcr := (if is_broadcast t then 6 else dst_lct t - 1),
          rad := take n (dst_rad t) @ replicate (8 - n) 0\<rparr>)"

lemma lct_half: "0 < l \<Longrightarrow> l < 16 \<Longrightarrow> unat (l::u8) div 2 \<le> 7"
  unfolding word_less_nat_alt by simp

lemma tx_lct:
  assumes "tx_ok t"
  shows "lct (dst_hdr t) < 16" "0 < lct (dst_hdr t)" "lcr (dst_hdr t) < 16" "hdr_links (dst_hdr t) \<le> 7"
proof -
  have l: "0 < dst_lct t" "dst_lct t < 16" using assms by (simp_all add: tx_ok_def)
  show "lct (dst_hdr t) < 16" "0 < lct (dst_hdr t)"
    using l by (simp_all add: dst_hdr_def Let_def)
  then show "hdr_links (dst_hdr t) \<le> 7" unfolding hdr_links_def by (intro lct_half)
  have "uint (dst_lct t - 1) = uint (dst_lct t) - 1"
    using l(1) by (subst uint_sub_lem [THEN iffD1]) (auto simp: word_less_def word_le_def)
  then have "dst_lct t - 1 \<le> dst_lct t" by (simp add: word_le_def)
  then have "dst_lct t - 1 < 16" using l(2) by (rule le_less_trans)
  then show "lcr (dst_hdr t) < 16" by (simp add: dst_hdr_def Let_def)
qed

lemma set_hdr_dst:
  assumes "tx_ok t"
  shows "set_hdr_from_dst_qlock zero_hdr t = Some (dst_hdr t)"
proof -
  have n: "hdr_links (dst_hdr t) \<le> 7" by (rule tx_lct [OF assms])
  show ?thesis
    using assms n
    by (simp add: set_hdr_from_dst_qlock_def buf_get_def tx_ok_def buf_slice_def buf_put_def Let_def
        dst_hdr_def is_broadcast_def hdr_links_def zero_hdr_def)
qed

text \<open>The header of the chunk that takes the message up at the current offset.\<close>

definition chunk_len :: "sb_tx \<Rightarrow> nat" where
  "chunk_len t = min (unat (cur_len t) - unat (cur_offset t)) (44 - hdr_links (dst_hdr t))"

definition chunk_hdr :: "sb_tx \<Rightarrow> sb_hdr" where
  "chunk_hdr t = (dst_hdr t)\<lparr>somt := (cur_offset t = 0),
     eomt := (unat (cur_len t) - unat (cur_offset t) \<le> 44 - hdr_links (dst_hdr t)),
     msg_len := word_of_nat (chunk_len t + 1)\<rparr>"

lemma hdr_size: "hdr_links h \<le> 7 \<Longrightarrow> unat (drm_dp_calc_sb_hdr_size h) = 3 + hdr_links h"
proof -
  assume "hdr_links h \<le> 7"
  moreover have "unat (lct h) < 256" using unsigned_less [of "lct h", where 'a = nat] by simp
  ultimately show ?thesis by (simp add: drm_dp_calc_sb_hdr_size_def unat_word_ariths hdr_links_def unat_div)
qed

lemma chunk_hdr_valid:
  assumes "tx_ok t"
  shows "hdr_valid (chunk_hdr t)" "hdr_links (chunk_hdr t) = hdr_links (dst_hdr t)"
    "unat (msg_len (chunk_hdr t)) = chunk_len t + 1"
proof -
  have c: "chunk_len t + 1 \<le> 45" by (simp add: chunk_len_def)
  then show m: "unat (msg_len (chunk_hdr t)) = chunk_len t + 1"
    unfolding chunk_hdr_def by (simp add: unat_of_nat take_bit_eq_mod del: of_nat_Suc of_nat_add)
  have "msg_len (chunk_hdr t) < 64" unfolding word_less_nat_alt m using c by simp
  moreover have "length (rad (dst_hdr t)) = 8"
    using assms tx_lct(4) [OF assms] by (auto simp: dst_hdr_def Let_def tx_ok_def hdr_links_def)
  ultimately show "hdr_valid (chunk_hdr t)"
    using tx_lct [OF assms] by (auto simp: hdr_valid_def chunk_hdr_def)
  show "hdr_links (chunk_hdr t) = hdr_links (dst_hdr t)" by (simp add: hdr_links_def chunk_hdr_def)
qed

text \<open>A buffer that holds the chunk of \<open>t\<close>: header, payload and data check.\<close>

definition chunk_bytes :: "sb_tx \<Rightarrow> u8 \<Rightarrow> u8 \<Rightarrow> u8 list" where
  "chunk_bytes t c d = hdr_bytes (chunk_hdr t) c @ take (chunk_len t) (drop (unat (cur_offset t)) (tx_msg t)) @ [d]"

definition payload_of :: "sb_tx \<Rightarrow> u8 list" where
  "payload_of t = take (chunk_len t) (drop (unat (cur_offset t)) (tx_msg t))"

lemma payload_length:
  assumes "tx_ok t" "unat (cur_offset t) < unat (cur_len t)"
  shows "length (payload_of t) = chunk_len t" "0 < chunk_len t" "unat (cur_offset t) + chunk_len t \<le> unat (cur_len t)"
proof -
  have "unat (cur_len t) < 256" using unsigned_less [of "cur_len t", where 'a = nat] by simp
  then show "length (payload_of t) = chunk_len t"
    using assms by (auto simp: payload_of_def tx_ok_def chunk_len_def)
  show "0 < chunk_len t" using assms tx_lct(4) [OF assms(1)] by (simp add: chunk_len_def)
  show "unat (cur_offset t) + chunk_len t \<le> unat (cur_len t)" using assms(2) by (simp add: chunk_len_def)
qed

lemma hdr_bytes_length: "hdr_valid h \<Longrightarrow> length (hdr_bytes h c) = 3 + hdr_links h"
  using hdr_links_le [of h] by (simp add: hdr_bytes_def hdr_valid_def)

lemma build_chunk_ok:
  assumes ok: "tx_ok t" and o: "unat (cur_offset t) < unat (cur_len t)" and l: "length chunk = 48"
  obtains c d rest where
    "build_chunk (dst_hdr t) t chunk = Some (chunk_bytes t c d @ rest, length (chunk_bytes t c d), chunk_len t)"
    "header_checked (hdr_bytes (chunk_hdr t) c)" "data_checked (payload_of t @ [d])"
proof -
  let ?k = "hdr_links (dst_hdr t)" and ?n = "chunk_len t"
  note k7 = tx_lct(4) [OF ok] and hv = chunk_hdr_valid [OF ok] and pl = payload_length [OF ok o]
  let ?len = "int (unat (cur_len t)) - int (unat (cur_offset t))"
  have space: "tx_space (dst_hdr t) = int (44 - ?k)"
    using k7 by (simp add: tx_space_def hdr_size)
  have tosend: "min ?len (int (44 - ?k)) = int ?n"
  proof -
    have "?len = int (unat (cur_len t) - unat (cur_offset t))"
      using o by (simp only: of_nat_diff less_imp_le)
    then show ?thesis unfolding chunk_len_def by (simp only: of_nat_min)
  qed
  have z: "(?len = int (unat (cur_len t))) = (cur_offset t = 0)" by (simp add: uint_0_iff)
  have e: "(?len \<le> int (44 - ?k)) = (unat (cur_len t) - unat (cur_offset t) \<le> 44 - ?k)"
    using o by linarith
  have m: "word_of_int (int ?n + 1) = (word_of_nat (?n + 1) :: u8)" by simp
  have h: "(dst_hdr t)\<lparr>somt := (cur_offset t = 0), eomt := (unat (cur_len t) - unat (cur_offset t) \<le> 44 - ?k),
      msg_len := word_of_nat (?n + 1)\<rparr> = chunk_hdr t" by (simp add: chunk_hdr_def)
  obtain c where c: "drm_dp_encode_sideband_msg_hdr (chunk_hdr t) chunk =
      Some (hdr_bytes (chunk_hdr t) c @ drop (3 + ?k) chunk, 3 + ?k)" "header_checked (hdr_bytes (chunk_hdr t) c)"
    using encode_hdr [OF hv(1), of chunk] l k7 hv(2) by auto
  have lh: "length (hdr_bytes (chunk_hdr t) c) = 3 + ?k" using hdr_bytes_length [OF hv(1)] hv(2) by simp
  have slice: "buf_slice (tx_msg t) (unat (cur_offset t)) ?n = Some (payload_of t)"
    using pl ok unsigned_less [of "cur_len t", where 'a = nat] by (simp add: buf_slice_def payload_of_def tx_ok_def)
  let ?tail = "drop (3 + ?k + ?n) chunk"
  have n44: "?n \<le> 44 - ?k" by (simp add: chunk_len_def)
  have put: "buf_put (hdr_bytes (chunk_hdr t) c @ drop (3 + ?k) chunk) (3 + ?k) (payload_of t) =
      Some (hdr_bytes (chunk_hdr t) c @ payload_of t @ ?tail)"
    using pl(1) lh n44 k7 l by (simp add: buf_put_def add.commute)
  obtain x tl where tail: "?tail = x # tl" using n44 k7 l by (cases ?tail) auto
  have un: "unat (word_of_nat ?n :: u8) = ?n" using n44 by (simp add: unat_of_nat take_bit_eq_mod)
  obtain d where d: "drm_dp_msg_data_crc4 (payload_of t @ ?tail) (word_of_nat ?n) = Some d"
    using data_crc4_eq [of "word_of_nat ?n" "payload_of t @ ?tail"] pl(1) un by simp
  have "drm_dp_msg_data_crc4 (payload_of t @ [d]) (word_of_nat ?n) = drm_dp_msg_data_crc4 (payload_of t @ ?tail) (word_of_nat ?n)"
  proof -
    have "bits_of (payload_of t @ [d]) 0 (?n * 8) = bits_of (payload_of t @ ?tail) 0 (?n * 8)"
    proof (rule bits_of_cong)
      fix q assume "q < 0 + ?n * 8"
      then have "q div 8 < length (payload_of t)" using pl(1) by simp
      then show "bit_at (payload_of t @ [d]) q = bit_at (payload_of t @ ?tail) q"
        by (simp add: bit_at_def nth_append)
    qed
    then show ?thesis
      using pl(1) un by (simp only: data_crc4_eq length_append un)
  qed
  then have dc: "data_checked (payload_of t @ [d])" using d pl(1) by (simp add: data_checked_def)
  have crc: "drm_dp_crc_sideband_chunk_req (hdr_bytes (chunk_hdr t) c @ payload_of t @ ?tail) (3 + ?k) (word_of_int (int ?n)) =
      Some (hdr_bytes (chunk_hdr t) c @ payload_of t @ [d] @ tl)"
    using d lh pl(1) un unfolding tail by (simp add: drm_dp_crc_sideband_chunk_req_def buf_put_def)
  have "build_chunk (dst_hdr t) t chunk = Some (chunk_bytes t c d @ tl, length (chunk_bytes t c d), ?n)"
    unfolding build_chunk_def space Let_def tosend z e m h
    using c(1) slice put crc pl(1) lh by (simp add: chunk_bytes_def payload_of_def [symmetric])
  then show ?thesis using c(2) dc by (rule that)
qed

section \<open>The chunk that is received\<close>

text \<open>While a chunk of \<open>D\<close> bytes comes in: the first \<open>i\<close> are in place.\<close>

definition rx_mid :: "u8 list \<Rightarrow> nat \<Rightarrow> sb_rx \<Rightarrow> bool" where
  "rx_mid D i m \<longleftrightarrow> length (rx_chunk m) = 48 \<and> length (rx_msg m) = 256 \<and>
     unat (curchunk_len m) = length D \<and> unat (curchunk_idx m) = i \<and> take i (rx_chunk m) = take i D \<and>
     2 \<le> length D \<and> length D \<le> 48 \<and> i < length D \<and> unat (curlen m) + length D \<le> 256"

text \<open>After it: the message has grown by all but the check.\<close>

definition rx_done :: "u8 list \<Rightarrow> sb_rx \<Rightarrow> sb_rx \<Rightarrow> bool" where
  "rx_done D m m' \<longleftrightarrow> length (rx_chunk m') = 48 \<and>
     rx_msg m' = take (unat (curlen m)) (rx_msg m) @ butlast D @ drop (unat (curlen m) + (length D - 1)) (rx_msg m) \<and>
     unat (curlen m') = unat (curlen m) + (length D - 1) \<and>
     have_somt m' = have_somt m \<and> have_eomt m' = have_eomt m \<and> initial_hdr m' = initial_hdr m"

lemma unat_add_byte: "unat a + b < 256 \<Longrightarrow> unat ((a::u8) + word_of_nat b) = unat a + b"
  by (simp add: unat_word_ariths unat_of_nat take_bit_eq_mod mod_add_right_eq)

lemma append_step:
  assumes mid: "rx_mid D i m" and k: "i + k < length D" and d: "d = take k (drop i D)"
  obtains m' where "drm_dp_sideband_append_payload m d = Some m'" "rx_mid D (i + k) m'"
    "rx_msg m' = rx_msg m" "curlen m' = curlen m" "have_somt m' = have_somt m" "have_eomt m' = have_eomt m"
    "initial_hdr m' = initial_hdr m" "curchunk_hdrlen m' = curchunk_hdrlen m"
proof -
  note mid' = mid [unfolded rx_mid_def]
  have ld: "length d = k" using k d by simp
  let ?c = "take i (rx_chunk m) @ d @ drop (i + k) (rx_chunk m)"
  have put: "buf_put (rx_chunk m) (unat (curchunk_idx m)) d = Some ?c"
    using mid' k ld by (simp add: buf_put_def)
  let ?m = "m\<lparr>rx_chunk := ?c, curchunk_idx := curchunk_idx m + word_of_nat k\<rparr>"
  have idx: "unat (curchunk_idx m + word_of_nat k) = i + k"
    using mid' k by (subst unat_add_byte) auto
  have lt: "\<not> curchunk_len m \<le> curchunk_idx m + word_of_nat k"
    unfolding word_le_nat_alt idx using mid' k by simp
  have app: "drm_dp_sideband_append_payload m d = Some ?m"
    using put lt ld by (simp add: drm_dp_sideband_append_payload_def)
  have "take (i + k) ?c = take (i + k) D"
    using mid' ld d k by (simp add: take_add)
  then have "rx_mid D (i + k) ?m" using mid' idx k ld by (simp add: rx_mid_def)
  from that [OF app this] show ?thesis by simp
qed

lemma append_last:
  assumes mid: "rx_mid D i m" and d: "d = drop i D"
  obtains m' where "drm_dp_sideband_append_payload m d = Some m'" "rx_done D m m'"
    "curchunk_len m' = curchunk_len m" "curchunk_hdrlen m' = curchunk_hdrlen m"
proof -
  note mid' = mid [unfolded rx_mid_def]
  let ?L = "length D"
  have ld: "i + length d = ?L" using mid' d by simp
  let ?c = "take i (rx_chunk m) @ d @ drop (i + length d) (rx_chunk m)"
  have put: "buf_put (rx_chunk m) (unat (curchunk_idx m)) d = Some ?c"
    using mid' ld by (simp add: buf_put_def)
  have c: "?c = D @ drop ?L (rx_chunk m)"
    using mid' d ld by (metis append.assoc append_take_drop_id)
  have idx: "unat (curchunk_idx m + word_of_nat (length d)) = ?L"
    using mid' ld by (subst unat_add_byte) auto
  have le: "curchunk_len m \<le> curchunk_idx m + word_of_nat (length d)"
    unfolding word_le_nat_alt idx using mid' by simp
  have nz: "curchunk_len m \<noteq> 0" using mid' by auto
  have m1: "unat (curchunk_len m - 1) = ?L - 1" using nz mid' by (simp add: unat_minus_one)
  have crc: "\<exists>x. drm_dp_msg_data_crc4 (D @ drop ?L (rx_chunk m)) (curchunk_len m - 1) = Some x"
    using data_crc4_eq [of "curchunk_len m - 1" "D @ drop ?L (rx_chunk m)"] m1 by auto
  have get: "buf_get (D @ drop ?L (rx_chunk m)) (unat (curchunk_len m) - 1) = Some (last D)"
  proof -
    have "D \<noteq> []" using mid' by auto
    then show ?thesis using mid' by (auto simp: buf_get_def nth_append last_conv_nth)
  qed
  have sl: "buf_slice (D @ drop ?L (rx_chunk m)) 0 (unat (curchunk_len m) - 1) = Some (butlast D)"
    using mid' by (auto simp: buf_slice_def butlast_conv_take)
  let ?msg = "take (unat (curlen m)) (rx_msg m) @ butlast D @ drop (unat (curlen m) + (?L - 1)) (rx_msg m)"
  have put2: "buf_put (rx_msg m) (unat (curlen m)) (butlast D) = Some ?msg"
    using mid' by (auto simp: buf_put_def)
  let ?m = "m\<lparr>rx_chunk := D @ drop ?L (rx_chunk m), curchunk_idx := curchunk_idx m + word_of_nat (length d),
     rx_msg := ?msg, curlen := curlen m + (curchunk_len m - 1)\<rparr>"
  have app: "drm_dp_sideband_append_payload m d = Some ?m"
    using put crc get sl put2 le nz unfolding c
    by (auto simp: drm_dp_sideband_append_payload_def)
  have "unat (curlen m + (curchunk_len m - 1)) = unat (curlen m) + (?L - 1)"
    using m1 conjunct2 [OF conjunct2 [OF mid']] by (auto simp: unat_word_ariths)
  then have "rx_done D m ?m" using mid' by (simp add: rx_done_def)
  from that [OF app this] show ?thesis by simp
qed

lemma rx_done_mid:
  assumes "rx_done D m1 m'" "rx_msg m1 = rx_msg m" "curlen m1 = curlen m" "have_somt m1 = have_somt m"
    "have_eomt m1 = have_eomt m" "initial_hdr m1 = initial_hdr m"
  shows "rx_done D m m'"
  using assms by (simp add: rx_done_def)

context reliable_dpcd
begin

lemma rx_loop_ok:
  assumes "1 \<le> max_bytes" "peek (mem s) (base + hl) (length D) = D" "rx_mid D i m" "good s"
  shows "\<exists>s' m'. rx_loop rd max_bytes base m (int (length D - i)) (hl + i) s = Inr (s', m', True) \<and>
    good s' \<and> mem s' = mem s \<and> rx_done D m m'"
  using assms(2-4)
proof (induction "length D - i" arbitrary: i m s rule: less_induct)
  case less
  note mid' = less.prems(2) [unfolded rx_mid_def]
  have i: "i < length D" using mid' by simp
  define k where "k = nat (min (min (int (length D - i)) max_bytes) 16)"
  have k: "min (min (int (length D - i)) max_bytes) 16 = int k" "1 \<le> k" "k \<le> length D - i"
    using assms(1) i by (simp_all add: k_def)
  obtain s1 r d where r: "rd (base + (hl + i)) k s = (s1, r, d)" by (metis prod_cases3)
  have g: "r = int k" "good s1" "mem s1 = mem s" using rd_good [OF less.prems(3) r] rd_mem [OF r] by auto
  have "d = peek (mem s) (base + (hl + i)) k" using rd_full r g(1) by simp
  also have "\<dots> = take k (drop i (peek (mem s) (base + hl) (length D)))"
    using k by (intro nth_equalityI) (simp_all add: peek_nth add.assoc)
  finally have d: "d = take k (drop i D)" using less.prems(1) by simp
  have step: "rx_loop rd max_bytes base m (int (length D - i)) (hl + i) s =
      (case drm_dp_sideband_append_payload m d of None \<Rightarrow> Inl Oob
       | Some m \<Rightarrow> rx_loop rd max_bytes base m (int (length D - i) - int k) (hl + i + k) s1)"
    using i k r g by (subst rx_loop.simps) (simp add: Let_def cong: option.case_cong)
  show ?case
  proof (cases "i + k = length D")
    case True
    then have "d = drop i D" using d by simp
    from append_last [OF less.prems(2) this] obtain m' where
      m': "drm_dp_sideband_append_payload m d = Some m'" "rx_done D m m'" .
    have "int (length D - i) - int k = 0" using True by simp
    then have "rx_loop rd max_bytes base m' (int (length D - i) - int k) (hl + i + k) s1 = Inr (s1, m', True)"
      by (simp add: rx_loop.simps)
    then show ?thesis unfolding step m'(1) using m'(2) g by simp
  next
    case False
    then have lt: "i + k < length D" using k by simp
    obtain m1 where m1: "drm_dp_sideband_append_payload m d = Some m1" "rx_mid D (i + k) m1"
      "rx_msg m1 = rx_msg m" "curlen m1 = curlen m" "have_somt m1 = have_somt m" "have_eomt m1 = have_eomt m"
      "initial_hdr m1 = initial_hdr m"
      using append_step [OF less.prems(2) lt d] .
    have "length D - (i + k) < length D - i" using k i by simp
    from less.hyps [OF this _ m1(2) g(2)] less.prems(1) g(3) obtain s' m' where
      IH: "rx_loop rd max_bytes base m1 (int (length D - (i + k))) (hl + (i + k)) s1 = Inr (s', m', True)"
        "good s'" "mem s' = mem s1" "rx_done D m1 m'" by auto
    have e: "int (length D - i) - int k = int (length D - (i + k))" "hl + i + k = hl + (i + k)" using lt by simp_all
    show ?thesis unfolding step m1(1) option.case e using IH g(3) rx_done_mid [OF IH(4) m1(3-7)] by simp
  qed
qed

lemma get_one_ok:
  assumes hv: "hdr_valid h" and chk: "header_checked (hdr_bytes h c)" and max: "10 \<le> max_bytes"
    and mem: "peek (mem s) base (3 + hdr_links h + length D) = hdr_bytes h c @ D"
    and base: "base = (if up then DP_SIDEBAND_MSG_UP_REQ_BASE else DP_SIDEBAND_MSG_DOWN_REP_BASE)"
    and D: "unat (msg_len h) = length D" "2 \<le> length D" "length D \<le> 48"
    and rx: "length (rx_chunk m) = 48" "length (rx_msg m) = 256" "unat (curlen m) + length D \<le> 256"
    and somt: "somt h \<longleftrightarrow> \<not> have_somt m" and good: "good s" and rad0: "length (rad h0) = 8"
    and g: "g = h\<lparr>rad := take (hdr_links h) (rad h) @ drop (hdr_links h) (rad h0)\<rparr>"
    and look: "up \<or> lookup (lct g) (rad g) = Some b"
  obtains s' m' where "drm_dp_get_one_sb_msg rd max_bytes lookup up h0 m s =
      Inr (s', m', if up then None else Some b, True)" "good s'" "mem s' = mem s"
    "rx_done D (m\<lparr>initial_hdr := (if somt h then g else initial_hdr m), have_somt := True,
       have_eomt := have_eomt m \<or> eomt h\<rparr>) m'"
proof -
  define len where "len = nat (min max_bytes 16)"
  have len: "min max_bytes 16 = int len" "10 \<le> len" "len \<le> 16" using max by (simp_all add: len_def)
  let ?hl = "3 + hdr_links h"
  have hl: "?hl \<le> 10" using hdr_links_le [OF hv] by simp
  have lh: "length (hdr_bytes h c) = ?hl" by (rule hdr_bytes_length [OF hv])
  obtain s1 r d0 where r: "rd base len s = (s1, r, d0)" by (metis prod_cases3)
  have s1: "r = int len" "good s1" "mem s1 = mem s" using rd_good [OF good r] rd_mem [OF r] by auto
  have d0: "d0 = peek (mem s) base len" using rd_full r s1(1) by simp
  let ?k = "min (length D) (len - ?hl)"
  have pre: "take ?hl d0 = hdr_bytes h c" "take ?k (drop ?hl d0) = take ?k D"
  proof -
    have "take (?hl + ?k) (peek (mem s) base len) = take (?hl + ?k) (peek (mem s) base (?hl + length D))"
      using hl len by (intro nth_equalityI) (simp_all add: peek_nth)
    then have e: "take (?hl + ?k) d0 = hdr_bytes h c @ take ?k D" unfolding d0 mem using lh by simp
    have "take ?hl d0 = take ?hl (take (?hl + ?k) d0)" by (simp add: min_absorb1)
    then show "take ?hl d0 = hdr_bytes h c" unfolding e using lh by simp
    have "take ?k (drop ?hl d0) = drop ?hl (take (?hl + ?k) d0)" by (simp add: drop_take)
    then show "take ?k (drop ?hl d0) = take ?k D" unfolding e using lh by simp
  qed
  have d0s: "d0 = hdr_bytes h c @ drop ?hl d0" using pre(1) by (metis append_take_drop_id)
  have ld0: "length d0 = len" by (simp add: d0)
  have dec: "drm_dp_decode_sideband_msg_hdr h0 d0 (int len) = Inr (Some (g, drm_dp_calc_sb_hdr_size h))"
    using decode_hdr_bytes [OF hv chk rad0, of "int len" "drop ?hl d0"] hl len d0s g by simp
  define m1 where "m1 = (m\<lparr>curchunk_idx := 0, curchunk_len := msg_len h, curchunk_hdrlen := drm_dp_calc_sb_hdr_size h,
     initial_hdr := (if somt h then g else initial_hdr m), have_somt := True, have_eomt := have_eomt m \<or> eomt h\<rparr>)"
  have set: "drm_dp_sideband_msg_set_header m g (drm_dp_calc_sb_hdr_size h) = (m1, True)"
    using somt by (auto simp: drm_dp_sideband_msg_set_header_def g m1_def Let_def)
  have hsz: "unat (drm_dp_calc_sb_hdr_size h) = ?hl" by (rule calc_size(2) [OF hv])
  have mid: "rx_mid D 0 m1" using D rx by (auto simp: rx_mid_def m1_def)
  have rl: "unat (min (curchunk_len m1) (word_of_int (int len - int ?hl))) = ?k"
  proof -
    have "int len - int ?hl = int (len - ?hl)" using hl len by simp
    then have "unat (word_of_int (int len - int ?hl) :: u8) = len - ?hl"
      using len by (simp only: of_int_of_nat_eq unat_of_nat take_bit_eq_mod) simp
    moreover have "unat (curchunk_len m1) = length D" using D by (simp add: m1_def)
    ultimately show ?thesis by (simp add: min_def word_le_nat_alt)
  qed
  have sl: "buf_slice d0 ?hl ?k = Some (take ?k D)" using pre(2) ld0 hl len by (simp add: buf_slice_def)
  define m0 where "m0 = m\<lparr>initial_hdr := (if somt h then g else initial_hdr m), have_somt := True,
       have_eomt := have_eomt m \<or> eomt h\<rparr>"
  have same: "rx_msg m1 = rx_msg m0" "curlen m1 = curlen m0" "have_somt m1 = have_somt m0"
    "have_eomt m1 = have_eomt m0" "initial_hdr m1 = initial_hdr m0" by (simp_all add: m1_def m0_def)
  have cl: "curchunk_len m1 = msg_len h" "curchunk_hdrlen m1 = drm_dp_calc_sb_hdr_size h" by (simp_all add: m1_def)
  have pos: "\<not> int len \<le> 0" using len by simp
  have found: "\<not> (\<not> up \<and> (if up then None else Some b) = None)"
    "(if up then None else lookup (lct g) (rad g)) = (if up then None else Some b)" using look by auto
  have run: "drm_dp_get_one_sb_msg rd max_bytes lookup up h0 m s =
      (case drm_dp_sideband_append_payload m1 (take ?k D) of None \<Rightarrow> Inl Oob
       | Some m2 \<Rightarrow> map_sum id (\<lambda>(s, m, ok). (s, m, if up then None else Some b, ok))
           (rx_loop rd max_bytes base m2 (int (unat (curchunk_len m2)) + int (unat (curchunk_hdrlen m2)) - int len) len s1))"
    unfolding drm_dp_get_one_sb_msg_def base [symmetric] len(1) Let_def if_not_P [OF pos] nat_int r s1(1) prod.case
      dec bindE_simps option.case found(2) if_not_P [OF found(1)] set
    by (simp only: hsz rl sl option.case simp_thms if_False if_True)
  show ?thesis
  proof (cases "length D \<le> len - ?hl")
    case True
    then have k: "take ?k D = drop 0 D" by simp
    obtain m2 where m2: "drm_dp_sideband_append_payload m1 (take ?k D) = Some m2" "rx_done D m1 m2"
      "curchunk_len m2 = curchunk_len m1" "curchunk_hdrlen m2 = curchunk_hdrlen m1"
      using append_last [OF mid k] .
    have "int (unat (curchunk_len m2)) + int (unat (curchunk_hdrlen m2)) - int len \<le> 0"
      unfolding m2(3,4) cl using D(1) hsz True hl len by linarith
    then have "rx_loop rd max_bytes base m2 (int (unat (curchunk_len m2)) + int (unat (curchunk_hdrlen m2)) - int len) len s1 =
        Inr (s1, m2, True)" by (simp add: rx_loop.simps)
    then show ?thesis
      using that [of s1 m2] run m2(1) s1 rx_done_mid [OF m2(2) same] by (simp add: m0_def)
  next
    case False
    then have k: "?k = len - ?hl" "0 + ?k < length D" "take ?k D = take ?k (drop 0 D)" by simp_all
    obtain m2 where m2: "drm_dp_sideband_append_payload m1 (take ?k D) = Some m2" "rx_mid D (0 + ?k) m2"
      "rx_msg m2 = rx_msg m1" "curlen m2 = curlen m1" "have_somt m2 = have_somt m1" "have_eomt m2 = have_eomt m1"
      "initial_hdr m2 = initial_hdr m1" "curchunk_hdrlen m2 = curchunk_hdrlen m1"
      using append_step [OF mid k(2,3)] .
    have c2: "unat (curchunk_len m2) = length D" using m2(2) by (simp add: rx_mid_def)
    have e: "int (unat (curchunk_len m2)) + int (unat (curchunk_hdrlen m2)) - int len = int (length D - (0 + ?k))"
      "len = ?hl + (0 + ?k)"
      unfolding m2(8) cl c2 hsz using False hl len by linarith+
    have D': "peek (mem s1) (base + ?hl) (length D) = D"
    proof -
      have "peek (mem s) base ?hl @ peek (mem s) (base + ?hl) (length D) = hdr_bytes h c @ D"
        using mem by (simp add: peek_append)
      then show ?thesis using lh s1(3) by simp
    qed
    have max1: "1 \<le> max_bytes" using max by simp
    obtain s' m' where m': "rx_loop rd max_bytes base m2 (int (length D - (0 + ?k))) (?hl + (0 + ?k)) s1 = Inr (s', m', True)"
      "good s'" "mem s' = mem s1" "rx_done D m2 m'"
      using rx_loop_ok [OF max1 D' m2(2) s1(2)] by blast
    have "rx_done D m1 m'" using rx_done_mid [OF m'(4) m2(3-7)] .
    then have "rx_done D m0 m'" using rx_done_mid same by blast
    moreover have "drm_dp_get_one_sb_msg rd max_bytes lookup up h0 m s = Inr (s', m', if up then None else Some b, True)"
      unfolding run m2(1) option.case e(1) using m'(1) e(2) by simp
    ultimately show ?thesis using that m'(2,3) s1(3) by (simp add: m0_def)
  qed
qed

end

section \<open>A whole message\<close>

text \<open>
  Sender and receiver joined by a device that copies what is written to the request registers to
  the registers the receiver reads: one round, and rounds until the message is sent.
\<close>

definition rx_base :: "bool \<Rightarrow> nat" where
  "rx_base up = (if up then DP_SIDEBAND_MSG_UP_REQ_BASE else DP_SIDEBAND_MSG_DOWN_REP_BASE)"

definition relay :: "bool \<Rightarrow> sink \<Rightarrow> sink" where
  "relay up s = s\<lparr>regs := poke (regs s) (rx_base up) (peek (regs s) DP_SIDEBAND_MSG_DOWN_REQ_BASE 48)\<rparr>"

definition echo_round ::
  "int \<Rightarrow> int \<Rightarrow> (u8 \<Rightarrow> u8 list \<Rightarrow> 'm option) \<Rightarrow> bool \<Rightarrow> u8 list \<Rightarrow> sb_hdr \<Rightarrow> sb_tx \<times> sb_rx \<times> sink \<Rightarrow> (sb_tx \<times> sb_rx \<times> sink) option" where
  "echo_round tmax rmax lookup up chunk h0 = (\<lambda>(t, m, s).
     case process_single_tx_qlock (drm_dp_dpcd_write sink_transfer) tmax False chunk t s of
       Some (Inr (s, t, ret)) \<Rightarrow>
         if ret < 0 then None
         else (case drm_dp_get_one_sb_msg (drm_dp_dpcd_read sink_transfer) rmax lookup up h0 m (relay up s) of
                 Inr (s, m, _, True) \<Rightarrow> Some (t, m, s)
               | _ \<Rightarrow> None)
     | _ \<Rightarrow> None)"

fun echo_message ::
  "nat \<Rightarrow> int \<Rightarrow> int \<Rightarrow> (u8 \<Rightarrow> u8 list \<Rightarrow> 'm option) \<Rightarrow> bool \<Rightarrow> u8 list \<Rightarrow> sb_hdr \<Rightarrow> sb_tx \<times> sb_rx \<times> sink \<Rightarrow> (sb_tx \<times> sb_rx \<times> sink) option" where
  "echo_message 0 tmax rmax lookup up chunk h0 st = (if tx_state (fst st) = TX_SENT then Some st else None)"
| "echo_message (Suc n) tmax rmax lookup up chunk h0 st =
     (if tx_state (fst st) = TX_SENT then Some st
      else Option.bind (echo_round tmax rmax lookup up chunk h0 st) (echo_message n tmax rmax lookup up chunk h0))"

text \<open>Where sender and receiver stand after some chunks.\<close>

definition in_step :: "u8 list \<Rightarrow> u8 \<Rightarrow> sb_tx \<Rightarrow> sb_rx \<Rightarrow> bool" where
  "in_step msg n t m \<longleftrightarrow> tx_ok t \<and> tx_msg t = msg \<and> cur_len t = n \<and> 0 < n \<and>
     unat (cur_offset t) \<le> unat n \<and> (tx_state t = TX_SENT \<longleftrightarrow> cur_offset t = n) \<and>
     length (rx_chunk m) = 48 \<and> length (rx_msg m) = 256 \<and> curlen m = cur_offset t \<and>
     take (unat (cur_offset t)) (rx_msg m) = take (unat (cur_offset t)) msg \<and>
     (have_somt m \<longleftrightarrow> cur_offset t \<noteq> 0) \<and> (have_eomt m \<longleftrightarrow> cur_offset t = n)"

lemma process_ok:
  assumes ok: "tx_ok t" "unat (cur_offset t) < unat (cur_len t)" and st: "tx_state t \<noteq> TX_SENT"
    and s: "outcomes s = []" and max: "1 \<le> tmax" and l: "length chunk = 48"
  obtains c d s1 t1 ret where
    "process_single_tx_qlock (drm_dp_dpcd_write sink_transfer) tmax False chunk t s = Some (Inr (s1, t1, ret))"
    "0 \<le> ret" "outcomes s1 = []" "header_checked (hdr_bytes (chunk_hdr t) c)"
    "peek (regs s1) DP_SIDEBAND_MSG_DOWN_REQ_BASE (length (chunk_bytes t c d)) = chunk_bytes t c d"
    "cur_offset t1 = cur_offset t + word_of_nat (chunk_len t)"
    "tx_state t1 = TX_SENT \<longleftrightarrow> cur_offset t1 = cur_len t" "tx_msg t1 = tx_msg t" "cur_len t1 = cur_len t"
    "dst_rad t1 = dst_rad t" "dst_lct t1 = dst_lct t" "tx_path_msg t1 = tx_path_msg t"
proof -
  define t' where "t' = (if tx_state t = TX_QUEUED then t\<lparr>tx_state := TX_START_SEND\<rparr> else t)"
  have same: "tx_msg t' = tx_msg t" "cur_offset t' = cur_offset t" "cur_len t' = cur_len t" "dst_lct t' = dst_lct t"
    "dst_rad t' = dst_rad t" "tx_path_msg t' = tx_path_msg t" "tx_state t' \<noteq> TX_SENT"
    using st by (simp_all add: t'_def)
  have dst: "dst_hdr t' = dst_hdr t" by (simp add: dst_hdr_def is_broadcast_def same)
  have ch: "chunk_len t' = chunk_len t" by (simp add: chunk_len_def dst same)
  have ch': "chunk_hdr t' = chunk_hdr t" "chunk_bytes t' = chunk_bytes t" "payload_of t' = payload_of t"
    by (auto simp: chunk_hdr_def chunk_bytes_def payload_of_def dst same ch fun_eq_iff)
  have ok': "tx_ok t'" using ok(1) by (simp add: tx_ok_def same)
  have o': "unat (cur_offset t') < unat (cur_len t')" using ok(2) by (simp add: same)
  obtain c d rest where b: "build_chunk (dst_hdr t') t' chunk = Some (chunk_bytes t' c d @ rest, length (chunk_bytes t' c d), chunk_len t')"
    "header_checked (hdr_bytes (chunk_hdr t') c)"
    using build_chunk_ok [OF ok' o' l] .
  let ?b = "chunk_bytes t c d"
  have lb: "0 < length ?b" by (simp add: chunk_bytes_def)
  have pk: "peek (regs s) DP_SIDEBAND_MSG_DOWN_REQ_BASE 0 = take 0 (?b @ rest)" by (simp add: peek_def)
  have lb': "length ?b \<le> length (?b @ rest)" by simp
  obtain s1 ret where send: "send_loop (drm_dp_dpcd_write sink_transfer) tmax DP_SIDEBAND_MSG_DOWN_REQ_BASE (?b @ rest)
      (length ?b) (length ?b) 0 0 s = Some (Inr (s1, ret))"
    "ret = 0 \<and> peek (regs s1) DP_SIDEBAND_MSG_DOWN_REQ_BASE (length ?b) = take (length ?b) (?b @ rest) \<or> ret = - EIO_code"
    using mailbox.send_loop_result [OF max lb' _ lb _ pk] by fastforce
  have g: "ret = 0" "outcomes s1 = []"
    using mailbox.send_loop_good [OF max lb' s lb send(1) _ lb] by simp_all
  then have pk1: "peek (regs s1) DP_SIDEBAND_MSG_DOWN_REQ_BASE (length ?b) = ?b"
    using send(2) by (simp add: EIO_code_def)
  define t1 where "t1 = t'\<lparr>cur_offset := cur_offset t' + word_of_nat (chunk_len t)\<rparr>"
  define t2 where "t2 = (if cur_offset t1 = cur_len t then t1\<lparr>tx_state := TX_SENT\<rparr> else t1)"
  have proc: "process_single_tx_qlock (drm_dp_dpcd_write sink_transfer) tmax False chunk t s =
      Some (Inr (s1, t2, if cur_offset t1 = cur_len t then 1 else 0))"
    unfolding process_single_tx_qlock_def if_not_P [OF st] Let_def t'_def [symmetric] set_hdr_dst [OF ok'] option.case
      b(1) prod.case drm_dp_send_sideband_msg_def ch' if_False send(1) sum.case g(1)
    by (simp add: t1_def t2_def ch same)
  show ?thesis
    by (rule that [OF proc _ g(2) b(2) [unfolded ch'] pk1])
      (use same in \<open>auto simp: t2_def t1_def\<close>)
qed

lemma echo_round_ok:
  assumes st: "in_step msg n t m" and not_sent: "tx_state t \<noteq> TX_SENT" and s: "outcomes s = []"
    and max: "1 \<le> tmax" "10 \<le> rmax" and l: "length chunk = 48" "length (rad h0) = 8"
    and look: "up \<or> (\<forall>l r. lookup l r \<noteq> None)"
  obtains t' m' s' where "echo_round tmax rmax lookup up chunk h0 (t, m, s) = Some (t', m', s')"
    "in_step msg n t' m'" "outcomes s' = []" "unat (cur_offset t) < unat (cur_offset t')"
proof -
  note st' = st [unfolded in_step_def]
  have ok: "tx_ok t" "unat (cur_offset t) < unat (cur_len t)"
  proof -
    have "cur_offset t \<noteq> n" using st' not_sent by blast
    then have "unat (cur_offset t) \<noteq> unat n" by (metis word_unat_eq_iff)
    then show "unat (cur_offset t) < unat (cur_len t)" using st' by auto
  qed (use st' in blast)
  obtain c d s1 t1 ret where p:
    "process_single_tx_qlock (drm_dp_dpcd_write sink_transfer) tmax False chunk t s = Some (Inr (s1, t1, ret))"
    "0 \<le> ret" "outcomes s1 = []" "header_checked (hdr_bytes (chunk_hdr t) c)"
    "peek (regs s1) DP_SIDEBAND_MSG_DOWN_REQ_BASE (length (chunk_bytes t c d)) = chunk_bytes t c d"
    "cur_offset t1 = cur_offset t + word_of_nat (chunk_len t)"
    "tx_state t1 = TX_SENT \<longleftrightarrow> cur_offset t1 = cur_len t" "tx_msg t1 = tx_msg t" "cur_len t1 = cur_len t"
    "dst_rad t1 = dst_rad t" "dst_lct t1 = dst_lct t" "tx_path_msg t1 = tx_path_msg t"
    using process_ok [OF ok not_sent s max(1) l(1)] .
  note pl = payload_length [OF ok] and hv = chunk_hdr_valid [OF ok(1)]
  let ?h = "chunk_hdr t" and ?D = "payload_of t @ [d]" and ?k = "hdr_links (chunk_hdr t)"
  have b: "chunk_bytes t c d = hdr_bytes ?h c @ ?D" by (simp add: chunk_bytes_def payload_of_def)
  have lb: "length (chunk_bytes t c d) = 3 + ?k + length ?D" using hdr_bytes_length [OF hv(1)] by (simp add: b)
  have n44: "chunk_len t \<le> 44 - ?k" "?k \<le> 7" using hv(2) tx_lct(4) [OF ok(1)] by (simp_all add: chunk_len_def)
  have le48: "3 + ?k + length ?D \<le> 48" using n44 pl by simp
  define u where "u = relay up s1"
  have mem: "peek (regs u) (rx_base up) (3 + ?k + length ?D) = hdr_bytes ?h c @ ?D"
  proof -
    have "peek (regs u) (rx_base up) (3 + ?k + length ?D) =
        take (3 + ?k + length ?D) (peek (regs s1) DP_SIDEBAND_MSG_DOWN_REQ_BASE 48)"
      using le48 by (intro nth_equalityI) (simp_all add: u_def relay_def peek_nth poke_def)
    also have "\<dots> = peek (regs s1) DP_SIDEBAND_MSG_DOWN_REQ_BASE (3 + ?k + length ?D)"
      using le48 by (intro nth_equalityI) (simp_all add: peek_nth)
    finally show ?thesis using p(5) lb b by simp
  qed
  define g where "g = ?h\<lparr>rad := take ?k (rad ?h) @ drop ?k (rad h0)\<rparr>"
  have unn: "unat n < 256" using unsigned_less [of n, where 'a = nat] by simp
  have cl: "unat (curlen m) + length ?D \<le> 256" using st' pl unn by auto
  have somt: "somt ?h \<longleftrightarrow> \<not> have_somt m" using st' by (simp add: chunk_hdr_def)
  have lD: "unat (msg_len ?h) = length ?D" "2 \<le> length ?D" "length ?D \<le> 48" using hv(3) pl le48 by simp_all
  obtain b where lk: "up \<or> lookup (lct g) (rad g) = Some b" using look by blast
  have gu: "outcomes u = []" using p(3) by (simp add: u_def relay_def)
  have ml: "length (rx_chunk m) = 48" "length (rx_msg m) = 256" using st' by auto
  obtain s' m' where r: "drm_dp_get_one_sb_msg (drm_dp_dpcd_read sink_transfer) rmax lookup up h0 m u =
      Inr (s', m', if up then None else Some b, True)" "outcomes s' = []" "regs s' = regs u"
    "rx_done ?D (m\<lparr>initial_hdr := (if somt ?h then g else initial_hdr m), have_somt := True,
       have_eomt := have_eomt m \<or> eomt ?h\<rparr>) m'"
    using mailbox.get_one_ok [where D = ?D and h = ?h and c = c and up = up and base = "rx_base up" and s = u
      and m = m and lookup = lookup and b = b, OF hv(1) p(4) max(2) mem rx_base_def lD ml cl somt gu l(2) g_def lk] .
  have round: "echo_round tmax rmax lookup up chunk h0 (t, m, s) = Some (t1, m', s')"
    using p(1,2) r(1) by (simp add: echo_round_def u_def)
  have off: "unat (cur_offset t1) = unat (cur_offset t) + chunk_len t"
    unfolding p(6) using pl ok(2) unsigned_less [of "cur_len t", where 'a = nat] by (subst unat_add_byte) auto
  have rd: "length (rx_chunk m') = 48" "unat (curlen m') = unat (cur_offset t1)" "have_somt m'"
    "have_eomt m' \<longleftrightarrow> eomt ?h"
    "rx_msg m' = take (unat (cur_offset t)) (rx_msg m) @ payload_of t @ drop (unat (cur_offset t) + chunk_len t) (rx_msg m)"
    using r(4) st' off pl ok(2) by (auto simp: rx_done_def)
  have fin: "eomt ?h \<longleftrightarrow> cur_offset t1 = n"
  proof -
    have "eomt ?h \<longleftrightarrow> unat (cur_offset t1) = unat (cur_len t)"
      using ok(2) hv(2) unfolding off by (auto simp: chunk_hdr_def chunk_len_def)
    then show ?thesis using st' by (simp add: word_unat_eq_iff)
  qed
  have len256: "length (rx_msg m') = 256" using rd(5) st' pl unn by (auto simp: tx_ok_def)
  have pre: "take (unat (cur_offset t1)) (rx_msg m') = take (unat (cur_offset t1)) msg"
  proof -
    have "length (take (unat (cur_offset t)) (rx_msg m)) = unat (cur_offset t)" using st' unn by (auto simp: tx_ok_def)
    then have "take (unat (cur_offset t) + chunk_len t) (rx_msg m') = take (unat (cur_offset t)) (rx_msg m) @ payload_of t"
      using rd(5) pl(1) by simp
    also have "\<dots> = take (unat (cur_offset t)) msg @ take (chunk_len t) (drop (unat (cur_offset t)) msg)"
      using st' by (simp add: payload_of_def)
    finally show ?thesis unfolding off take_add .
  qed
  have "tx_ok t1" using ok(1) p(8,10,11) by (simp add: tx_ok_def)
  moreover have "tx_msg t1 = msg" "cur_len t1 = n" "0 < n" using st' p(8,9) by simp_all
  moreover have "unat (cur_offset t1) \<le> unat n" using off pl(3) st' by simp
  moreover have "tx_state t1 = TX_SENT \<longleftrightarrow> cur_offset t1 = n" using p(7,9) st' by simp
  moreover have "curlen m' = cur_offset t1" using rd(2) by (simp add: word_unat_eq_iff)
  moreover have "cur_offset t1 \<noteq> 0" using off pl(2) by auto
  ultimately have "in_step msg n t1 m'"
    unfolding in_step_def using rd(1,3,4) len256 pre fin by simp
  then show ?thesis using that [OF round] r(2) off pl(2) by simp
qed

lemma echo_message_ok:
  assumes "1 \<le> tmax" "10 \<le> rmax" "length chunk = 48" "length (rad h0) = 8" "up \<or> (\<forall>l r. lookup l r \<noteq> None)"
  shows "in_step msg n t m \<Longrightarrow> outcomes s = [] \<Longrightarrow> unat n \<le> unat (cur_offset t) + fuel \<Longrightarrow>
    \<exists>t' m' s'. echo_message fuel tmax rmax lookup up chunk h0 (t, m, s) = Some (t', m', s') \<and>
      tx_state t' = TX_SENT \<and> in_step msg n t' m'"
proof (induction fuel arbitrary: t m s)
  case 0
  then have "cur_offset t = n" by (auto simp: in_step_def word_unat_eq_iff)
  then show ?case using 0 by (auto simp: in_step_def)
next
  case (Suc fuel)
  show ?case
  proof (cases "tx_state t = TX_SENT")
    case True
    then show ?thesis using Suc.prems by auto
  next
    case False
    obtain t1 m1 s1 where r: "echo_round tmax rmax lookup up chunk h0 (t, m, s) = Some (t1, m1, s1)"
      "in_step msg n t1 m1" "outcomes s1 = []" "unat (cur_offset t) < unat (cur_offset t1)"
      using echo_round_ok [OF Suc.prems(1) False Suc.prems(2) assms] .
    have "unat n \<le> unat (cur_offset t1) + fuel" using Suc.prems(3) r(4) by simp
    from Suc.IH [OF r(2,3) this] show ?thesis using False r(1) by simp
  qed
qed

section \<open>Properties\<close>

text \<open>
  C1: a message of one to 255 bytes, queued for a branch up to fifteen links away, is cut into
  chunks and sent to the last byte, and a receiver at the other end that reads the chunks one after
  the other, whatever transaction sizes the two sides use (the receiver at least the ten bytes of
  the longest header), ends up with exactly the bytes of the message, its length, and both the
  start and the end of the transaction seen.
\<close>
theorem sideband_message_delivered:
  assumes "tx_ok t" "tx_state t = TX_QUEUED" "cur_offset t = 0" "0 < cur_len t"
    and "1 \<le> tmax" "10 \<le> rmax" "length chunk = 48" "length (rad h0) = 8"
    and "up \<or> (\<forall>l r. lookup l r \<noteq> None)" "outcomes s = []"
  shows "\<exists>t' m' s'. echo_message (unat (cur_len t)) tmax rmax lookup up chunk h0 (t, zero_rx, s) = Some (t', m', s') \<and>
    tx_state t' = TX_SENT \<and> have_somt m' \<and> have_eomt m' \<and> curlen m' = cur_len t \<and>
    take (unat (curlen m')) (rx_msg m') = take (unat (cur_len t)) (tx_msg t)"
proof -
  have init: "in_step (tx_msg t) (cur_len t) t zero_rx"
    using assms(1-4) by (auto simp: in_step_def zero_rx_def)
  have fuel: "unat (cur_len t) \<le> unat (cur_offset t) + unat (cur_len t)" by simp
  obtain t' m' s' where e: "echo_message (unat (cur_len t)) tmax rmax lookup up chunk h0 (t, zero_rx, s) = Some (t', m', s')"
    "tx_state t' = TX_SENT" "in_step (tx_msg t) (cur_len t) t' m'"
    using echo_message_ok [OF assms(5-9) init assms(10) fuel] by blast
  then show ?thesis by (auto simp: in_step_def)
qed

theorem sideband_message_delivered_witness:
  "\<exists>t' m' s'. echo_message 100 16 16 (\<lambda>l r. Some ()) False (replicate 48 7) zero_hdr
      (\<lparr>tx_msg = replicate 256 0x21, cur_offset = 0, cur_len = 100, dst_lct = 3, dst_rad = 0x12 # replicate 7 0,
        tx_state = TX_QUEUED, tx_path_msg = False\<rparr>, zero_rx, \<lparr>regs = (\<lambda>_. 0), outcomes = []\<rparr>) = Some (t', m', s') \<and>
    tx_state t' = TX_SENT \<and> curlen m' = 100 \<and> take 100 (rx_msg m') = replicate 100 0x21"
proof -
  let ?t = "\<lparr>tx_msg = replicate 256 0x21, cur_offset = 0, cur_len = 100, dst_lct = 3, dst_rad = 0x12 # replicate 7 0,
        tx_state = TX_QUEUED, tx_path_msg = False\<rparr>"
  let ?s = "\<lparr>regs = (\<lambda>_. 0), outcomes = []\<rparr> :: sink"
  have ok: "tx_ok ?t" by (simp add: tx_ok_def)
  have "\<exists>t' m' s'. echo_message (unat (cur_len ?t)) 16 16 (\<lambda>l r. Some ()) False (replicate 48 7) zero_hdr (?t, zero_rx, ?s) = Some (t', m', s') \<and>
    tx_state t' = TX_SENT \<and> have_somt m' \<and> have_eomt m' \<and> curlen m' = cur_len ?t \<and>
    take (unat (curlen m')) (rx_msg m') = take (unat (cur_len ?t)) (tx_msg ?t)"
    by (rule sideband_message_delivered [OF ok]) (simp_all add: zero_hdr_def)
  then show ?thesis by (auto simp: min_def)
qed

text \<open>
  C33: sending a chunk ends, whatever the sink answers: it returns 0 with the chunk in the message
  registers, or \<open>-EIO\<close>, and in neither case has a register outside the range been written.
\<close>
theorem sideband_send_result:
  assumes "1 \<le> max_bytes" "0 < len" "len \<le> length msg"
  shows "\<exists>s' ret. drm_dp_send_sideband_msg (drm_dp_dpcd_write sink_transfer) max_bytes up msg len s = Some (Inr (s', ret)) \<and>
    (let base = (if up then DP_SIDEBAND_MSG_UP_REP_BASE else DP_SIDEBAND_MSG_DOWN_REQ_BASE)
     in (ret = 0 \<and> peek (regs s') base len = take len msg \<or> ret = - EIO_code) \<and>
        (\<forall>x. x < base \<or> base + len \<le> x \<longrightarrow> regs s' x = regs s x))"
  using mailbox.send_loop_result [OF assms(1,3), of 0 len 0 s
      "if up then DP_SIDEBAND_MSG_UP_REP_BASE else DP_SIDEBAND_MSG_DOWN_REQ_BASE"] assms(2)
  by (simp add: drm_dp_send_sideband_msg_def Let_def peek_def)

theorem sideband_send_result_witness:
  "\<exists>s' ret. drm_dp_send_sideband_msg (drm_dp_dpcd_write sink_transfer) 16 True [1, 2, 3] 3
      \<lparr>regs = (\<lambda>_. 0), outcomes = replicate 40 (Errno 4)\<rparr> = Some (Inr (s', ret))"
  using sideband_send_result [of 16 3 "[1, 2, 3]" True "\<lparr>regs = (\<lambda>_. 0), outcomes = replicate 40 (Errno 4)\<rparr>"] by auto

text \<open>
  the receiver does not enforce the data check. Two chunks that differ only in the byte that
  holds the check, at most one of which can be right, have the same effect on the message that is
  being assembled.
\<close>
theorem sideband_rx_ignores_check:
  assumes "rx_mid (p @ [c]) 0 m" "curlen m = 0"
  shows "\<exists>m1 m2. drm_dp_sideband_append_payload m (p @ [c]) = Some m1 \<and>
    drm_dp_sideband_append_payload m (p @ [c']) = Some m2 \<and>
    take (length p) (rx_msg m1) = p \<and> rx_msg m2 = rx_msg m1 \<and> curlen m2 = curlen m1"
proof -
  have mid': "rx_mid (p @ [c']) 0 m" using assms(1) by (simp add: rx_mid_def)
  obtain m1 where m1: "drm_dp_sideband_append_payload m (p @ [c]) = Some m1" "rx_done (p @ [c]) m m1"
    using append_last [OF assms(1)] by auto
  obtain m2 where m2: "drm_dp_sideband_append_payload m (p @ [c']) = Some m2" "rx_done (p @ [c']) m m2"
    using append_last [OF mid'] by auto
  have "rx_msg m2 = rx_msg m1" "curlen m2 = curlen m1" "take (length p) (rx_msg m1) = p"
    using m1(2) m2(2) assms(2) by (auto simp: rx_done_def word_unat_eq_iff)
  then show ?thesis using m1(1) m2(1) by blast
qed

theorem sideband_rx_ignores_check_witness:
  "\<exists>m1 m2. drm_dp_sideband_append_payload (zero_rx\<lparr>curchunk_len := 3\<rparr>) [0x10, 0x02, 0xcf] = Some m1 \<and>
    drm_dp_sideband_append_payload (zero_rx\<lparr>curchunk_len := 3\<rparr>) [0x10, 0x02, 0x30] = Some m2 \<and>
    rx_msg m2 = rx_msg m1 \<and> curlen m2 = curlen m1"
proof -
  have "rx_mid ([0x10, 0x02] @ [0xcf]) 0 (zero_rx\<lparr>curchunk_len := 3\<rparr>)"
    by (simp add: rx_mid_def zero_rx_def)
  from sideband_rx_ignores_check [OF this, of "0x30"] show ?thesis by (auto simp: zero_rx_def)
qed

text \<open>
  C35: the length in the header of a received chunk is used unchecked. When it is zero, or more than
  the 48 bytes a chunk can hold, the receiver accesses memory outside the arrays it copies into as
  soon as it has the bytes the header promises.
\<close>
theorem sideband_rx_length_unchecked:
  assumes "length (rx_chunk m) = 48" "curchunk_idx m = 0" "length d \<le> 48"
    and "curchunk_len m = 0 \<or> 48 < curchunk_len m \<and> unat (curchunk_len m) \<le> length d + length e"
    and "length d + length e < 256"
  shows "drm_dp_sideband_append_payload m d = None \<or>
    (\<exists>m'. drm_dp_sideband_append_payload m d = Some m' \<and> drm_dp_sideband_append_payload m' e = None)"
proof (cases "curchunk_len m = 0")
  case True
  then show ?thesis
    using assms(1-3) by (simp add: drm_dp_sideband_append_payload_def buf_put_def Let_def)
next
  case False
  then have big: "48 < unat (curchunk_len m)" "unat (curchunk_len m) \<le> length d + length e"
    using assms(4) by (auto simp: word_less_nat_alt)
  have idx: "unat (curchunk_idx m + word_of_nat (length d)) = length d"
    using assms(2,3) by (simp add: unat_of_nat take_bit_eq_mod)
  have put: "buf_put (rx_chunk m) (unat (curchunk_idx m)) d = Some (d @ drop (length d) (rx_chunk m))"
    using assms(1-3) by (simp add: buf_put_def)
  have "\<not> curchunk_len m \<le> curchunk_idx m + word_of_nat (length d)"
    unfolding word_le_nat_alt idx using big assms(3) by simp
  then have app: "drm_dp_sideband_append_payload m d =
      Some (m\<lparr>rx_chunk := d @ drop (length d) (rx_chunk m), curchunk_idx := curchunk_idx m + word_of_nat (length d)\<rparr>)"
    using put by (simp add: drm_dp_sideband_append_payload_def)
  have "buf_put (d @ drop (length d) (rx_chunk m)) (length d) e = None"
    using assms(1,3) big by (simp add: buf_put_def)
  then have "drm_dp_sideband_append_payload
      (m\<lparr>rx_chunk := d @ drop (length d) (rx_chunk m), curchunk_idx := curchunk_idx m + word_of_nat (length d)\<rparr>) e = None"
    using idx by (simp add: drm_dp_sideband_append_payload_def)
  then show ?thesis using app by blast
qed

theorem sideband_rx_length_unchecked_witness:
  "drm_dp_sideband_append_payload (zero_rx\<lparr>curchunk_len := 60\<rparr>) (replicate 40 1) \<noteq> None \<and>
   (\<exists>m'. drm_dp_sideband_append_payload (zero_rx\<lparr>curchunk_len := 60\<rparr>) (replicate 40 1) = Some m' \<and>
     drm_dp_sideband_append_payload m' (replicate 20 1) = None)"
proof -
  have n: "drm_dp_sideband_append_payload (zero_rx\<lparr>curchunk_len := 60\<rparr>) (replicate 40 1) \<noteq> None"
    by (simp add: drm_dp_sideband_append_payload_def buf_put_def zero_rx_def)
  have "drm_dp_sideband_append_payload (zero_rx\<lparr>curchunk_len := 60\<rparr>) (replicate 40 1) = None \<or>
    (\<exists>m'. drm_dp_sideband_append_payload (zero_rx\<lparr>curchunk_len := 60\<rparr>) (replicate 40 1) = Some m' \<and>
      drm_dp_sideband_append_payload m' (replicate 20 1) = None)"
    by (rule sideband_rx_length_unchecked) (simp_all add: zero_rx_def)
  then show ?thesis using n by blast
qed

end
