(* ===== verification/Sideband_Req.thy ===== *)
theory Sideband_Req
  imports Sideband_Xfer
begin

text \<open>
  The requests of the sideband channel: encoding them into the message of a transmission
  (\<open>drm_dp_encode_sideband_req\<close>, the \<open>build_*\<close> routines, \<open>drm_dp_encode_sideband_reply\<close>) and decoding
  an encoded request (\<open>drm_dp_decode_sideband_req\<close>). The tagged union of the request bodies is a
  datatype; the requests without a body carry their type only.
\<close>

section \<open>Request bodies\<close>

datatype port_req = ENUM_PATH_RESOURCES | POWER_UP_PHY | POWER_DOWN_PHY

record allocate_payload =
  ap_port_number :: u8
  ap_number_sdp_streams :: u8
  ap_vcpi :: u8
  ap_pbn :: u16
  ap_sdp_stream_sink :: "u8 list"

record remote_dpcd_read =
  dr_port_number :: u8
  dr_dpcd_address :: u32
  dr_num_bytes :: u8

record remote_dpcd_write =
  dw_port_number :: u8
  dw_dpcd_address :: u32
  dw_num_bytes :: u8
  dw_bytes :: "u8 list"

record i2c_read_tx =
  i2c_dev_id :: u8
  itx_num_bytes :: u8
  itx_bytes :: "u8 list"
  no_stop_bit :: u8
  i2c_transaction_delay :: u8

record remote_i2c_read =
  ir_num_transactions :: u8
  ir_port_number :: u8
  ir_transactions :: "i2c_read_tx list"
  read_i2c_device_id :: u8
  num_bytes_read :: u8

record remote_i2c_write =
  iw_port_number :: u8
  write_i2c_device_id :: u8
  iw_num_bytes :: u8
  iw_bytes :: "u8 list"

record query_stream_enc_status =
  stream_id :: u8
  client_id :: "u8 list"
  stream_event :: u8
  valid_stream_event :: bool
  stream_behavior :: u8
  valid_stream_behavior :: u8

datatype sb_req =
    PortReq port_req u8
  | AllocatePayload allocate_payload
  | QueryPayload u8 u8
  | RemoteDpcdRead remote_dpcd_read
  | RemoteDpcdWrite remote_dpcd_write
  | RemoteI2cRead remote_i2c_read
  | RemoteI2cWrite remote_i2c_write
  | QueryStreamEncStatus query_stream_enc_status
  | OtherReq u8

fun port_req_type :: "port_req \<Rightarrow> u8" where
  "port_req_type ENUM_PATH_RESOURCES = 0x10"
| "port_req_type POWER_UP_PHY = 0x24"
| "port_req_type POWER_DOWN_PHY = 0x25"

fun req_type :: "sb_req \<Rightarrow> u8" where
  "req_type (PortReq p _) = port_req_type p"
| "req_type (AllocatePayload _) = 0x11"
| "req_type (QueryPayload _ _) = 0x12"
| "req_type (RemoteDpcdRead _) = 0x20"
| "req_type (RemoteDpcdWrite _) = 0x21"
| "req_type (RemoteI2cRead _) = 0x22"
| "req_type (RemoteI2cWrite _) = 0x23"
| "req_type (QueryStreamEncStatus _) = 0x38"
| "req_type (OtherReq t) = t"

text \<open>The types that have a body; \<open>OtherReq\<close> is meant for the rest.\<close>

definition body_types :: "u8 list" where
  "body_types = [0x10, 0x24, 0x25, 0x11, 0x12, 0x20, 0x21, 0x22, 0x23, 0x38]"

section \<open>Encoding\<close>

text \<open>The bytes of the body, \<open>None\<close> when an array is read past its end.\<close>

definition address_bytes :: "u8 \<Rightarrow> u32 \<Rightarrow> u8 list" where
  "address_bytes port addr =
     [push_bit 4 (port AND 0xf) OR ucast (drop_bit 16 (addr AND 0xf0000) AND 0xf),
      ucast (drop_bit 8 (addr AND 0xff00)), ucast (addr AND 0xff)]"

definition sink_pair :: "u8 list \<Rightarrow> nat \<Rightarrow> u8 option" where
  "sink_pair sinks i =
     do { a \<leftarrow> buf_get sinks (i * 2); b \<leftarrow> buf_get sinks (i * 2 + 1); Some (push_bit 4 (a AND 0xf) OR (b AND 0xf)) }"

fun map_opt :: "('a \<Rightarrow> 'b option) \<Rightarrow> 'a list \<Rightarrow> 'b list option" where
  "map_opt f [] = Some []"
| "map_opt f (x # xs) = do { y \<leftarrow> f x; ys \<leftarrow> map_opt f xs; Some (y # ys) }"

definition encode_sinks :: "u8 \<Rightarrow> u8 list \<Rightarrow> u8 list option" where
  "encode_sinks n sinks =
     do { ps \<leftarrow> map_opt (sink_pair sinks) [0..<unat n div 2];
          if n AND 1 \<noteq> 0
          then do { a \<leftarrow> buf_get sinks (unat n - 1); Some (ps @ [push_bit 4 (a AND 0xf)]) }
          else Some ps }"

definition encode_i2c_tx :: "i2c_read_tx \<Rightarrow> u8 list option" where
  "encode_i2c_tx t =
     do { bs \<leftarrow> buf_slice (itx_bytes t) 0 (unat (itx_num_bytes t));
          Some ([i2c_dev_id t AND 0x7f, itx_num_bytes t] @ bs @
                [push_bit 4 (no_stop_bit t AND 1) OR (i2c_transaction_delay t AND 0xf)]) }"

fun encode_body :: "sb_req \<Rightarrow> u8 list option" where
  "encode_body (PortReq _ port) = Some [push_bit 4 (port AND 0xf)]"
| "encode_body (AllocatePayload a) =
     do { ss \<leftarrow> encode_sinks (ap_number_sdp_streams a) (ap_sdp_stream_sink a);
          Some ([push_bit 4 (ap_port_number a AND 0xf) OR (ap_number_sdp_streams a AND 0xf),
                 ap_vcpi a AND 0x7f, ucast (drop_bit 8 (ap_pbn a)), ucast (ap_pbn a AND 0xff)] @ ss) }"
| "encode_body (QueryPayload port vcpi) = Some [push_bit 4 (port AND 0xf), vcpi AND 0x7f]"
| "encode_body (RemoteDpcdRead r) =
     Some (address_bytes (dr_port_number r) (dr_dpcd_address r) @ [dr_num_bytes r])"
| "encode_body (RemoteDpcdWrite w) =
     do { bs \<leftarrow> buf_slice (dw_bytes w) 0 (unat (dw_num_bytes w));
          Some (address_bytes (dw_port_number w) (dw_dpcd_address w) @ [dw_num_bytes w] @ bs) }"
| "encode_body (RemoteI2cRead r) =
     do { txs \<leftarrow> buf_slice (ir_transactions r) 0 (unat (ir_num_transactions r AND 3));
          bs \<leftarrow> map_opt encode_i2c_tx txs;
          Some ([push_bit 4 (ir_port_number r AND 0xf) OR (ir_num_transactions r AND 3)] @ concat bs @
                [read_i2c_device_id r AND 0x7f, num_bytes_read r]) }"
| "encode_body (RemoteI2cWrite w) =
     do { bs \<leftarrow> buf_slice (iw_bytes w) 0 (unat (iw_num_bytes w));
          Some ([push_bit 4 (iw_port_number w AND 0xf), write_i2c_device_id w AND 0x7f, iw_num_bytes w] @ bs) }"
| "encode_body (QueryStreamEncStatus e) =
     do { c \<leftarrow> buf_slice (client_id e) 0 7;
          Some ([stream_id e] @ c @
                [(stream_event e AND 0x3) OR (if valid_stream_event e then 4 else 0) OR
                 (push_bit 3 (stream_behavior e) AND 0x18) OR (if valid_stream_behavior e \<noteq> 0 then 0x20 else 0)]) }"
| "encode_body (OtherReq _) = Some []"

text \<open>
  The bytes are stored into the 256 bytes of the message without a check of the space left, and
  their number is stored in a byte. Storing past the message is \<open>None\<close>.
\<close>

definition drm_dp_encode_sideband_req :: "sb_req \<Rightarrow> 'a sb_tx_scheme \<Rightarrow> 'a sb_tx_scheme option" where
  "drm_dp_encode_sideband_req req raw =
     do { bs \<leftarrow> encode_body req;
          let bytes = (req_type req AND 0x7f) # bs;
          m \<leftarrow> buf_put (tx_msg raw) 0 bytes;
          Some (raw\<lparr>tx_msg := m, cur_len := word_of_nat (length bytes)\<rparr>) }"

definition drm_dp_encode_sideband_reply :: "u8 \<Rightarrow> u8 \<Rightarrow> 'a sb_tx_scheme \<Rightarrow> 'a sb_tx_scheme option" where
  "drm_dp_encode_sideband_reply rep_reply_type rep_req_type raw =
     do { m \<leftarrow> buf_put (tx_msg raw) 0 [push_bit 7 (rep_reply_type AND 1) OR (rep_req_type AND 0x7f)];
          Some (raw\<lparr>tx_msg := m, cur_len := 1\<rparr>) }"

section \<open>Building requests\<close>

definition build_dpcd_write :: "u8 \<Rightarrow> u32 \<Rightarrow> u8 \<Rightarrow> u8 list \<Rightarrow> 'a sb_tx_scheme \<Rightarrow> 'a sb_tx_scheme option" where
  "build_dpcd_write port_num offset num_bytes bytes m =
     drm_dp_encode_sideband_req
       (RemoteDpcdWrite \<lparr>dw_port_number = port_num, dw_dpcd_address = offset, dw_num_bytes = num_bytes, dw_bytes = bytes\<rparr>) m"

definition build_dpcd_read :: "u8 \<Rightarrow> u32 \<Rightarrow> u8 \<Rightarrow> 'a sb_tx_scheme \<Rightarrow> 'a sb_tx_scheme option" where
  "build_dpcd_read port_num offset num_bytes m =
     drm_dp_encode_sideband_req
       (RemoteDpcdRead \<lparr>dr_port_number = port_num, dr_dpcd_address = offset, dr_num_bytes = num_bytes\<rparr>) m"

definition build_link_address :: "'a sb_tx_scheme \<Rightarrow> 'a sb_tx_scheme option" where
  "build_link_address m = drm_dp_encode_sideband_req (OtherReq 0x01) m"

definition build_clear_payload_id_table :: "'a sb_tx_scheme \<Rightarrow> 'a sb_tx_scheme option" where
  "build_clear_payload_id_table m =
     map_option (\<lambda>m. m\<lparr>tx_path_msg := True\<rparr>) (drm_dp_encode_sideband_req (OtherReq 0x14) m)"

definition build_enum_path_resources :: "i32 \<Rightarrow> 'a sb_tx_scheme \<Rightarrow> 'a sb_tx_scheme option" where
  "build_enum_path_resources port_num m =
     map_option (\<lambda>m. m\<lparr>tx_path_msg := True\<rparr>)
       (drm_dp_encode_sideband_req (PortReq ENUM_PATH_RESOURCES (ucast port_num)) m)"

definition build_allocate_payload ::
  "i32 \<Rightarrow> u8 \<Rightarrow> u16 \<Rightarrow> u8 \<Rightarrow> u8 list \<Rightarrow> 'a sb_tx_scheme \<Rightarrow> 'a sb_tx_scheme option" where
  "build_allocate_payload port_num vcpi pbn number_sdp_streams sinks m =
     do { ss \<leftarrow> buf_slice sinks 0 (unat number_sdp_streams);
          ss \<leftarrow> buf_put (replicate 16 0) 0 ss;
          map_option (\<lambda>m. m\<lparr>tx_path_msg := True\<rparr>)
            (drm_dp_encode_sideband_req
               (AllocatePayload \<lparr>ap_port_number = ucast port_num, ap_number_sdp_streams = number_sdp_streams,
                  ap_vcpi = vcpi, ap_pbn = pbn, ap_sdp_stream_sink = ss\<rparr>) m) }"

definition build_power_updown_phy :: "i32 \<Rightarrow> bool \<Rightarrow> 'a sb_tx_scheme \<Rightarrow> 'a sb_tx_scheme option" where
  "build_power_updown_phy port_num power_up m =
     map_option (\<lambda>m. m\<lparr>tx_path_msg := True\<rparr>)
       (drm_dp_encode_sideband_req (PortReq (if power_up then POWER_UP_PHY else POWER_DOWN_PHY) (ucast port_num)) m)"

definition build_query_stream_enc_status :: "u8 \<Rightarrow> u8 list \<Rightarrow> 'a sb_tx_scheme \<Rightarrow> 'a sb_tx_scheme option" where
  "build_query_stream_enc_status sid q_id m =
     do { c \<leftarrow> buf_slice q_id 0 7;
          drm_dp_encode_sideband_req
            (QueryStreamEncStatus \<lparr>stream_id = sid, client_id = c, stream_event = 0, valid_stream_event = False,
               stream_behavior = 0, valid_stream_behavior = 0\<rparr>) m }"

section \<open>Decoding\<close>

text \<open>\<open>kmemdup\<close>: allocation number \<open>k\<close> of the call succeeds or not; then bytes are copied.\<close>

definition kmemdup :: "(nat \<Rightarrow> bool) \<Rightarrow> nat \<Rightarrow> u8 list \<Rightarrow> nat \<Rightarrow> u8 \<Rightarrow> u8 list res" where
  "kmemdup alloc k buf i n = (if alloc k then of_opt Oob (buf_slice buf i (unat n)) else Inl ENOMEM)"

definition rd8 :: "u8 list \<Rightarrow> nat \<Rightarrow> u8 res" where
  "rd8 buf i = of_opt Oob (buf_get buf i)"

definition decode_address :: "u8 list \<Rightarrow> (u8 \<times> u32) res" where
  "decode_address buf =
     bindE (rd8 buf 1) (\<lambda>b1. bindE (rd8 buf 2) (\<lambda>b2. bindE (rd8 buf 3) (\<lambda>b3.
       Inr (drop_bit 4 b1 AND 0xf,
            (push_bit 16 (ucast b1) AND 0xf0000) OR (push_bit 8 (ucast b2) AND 0xff00) OR (ucast b3 AND 0xff)))))"

text \<open>Only the entries below \<open>number_sdp_streams\<close> are set.\<close>

fun mapE :: "('a \<Rightarrow> 'b res) \<Rightarrow> 'a list \<Rightarrow> 'b list res" where
  "mapE f [] = Inr []"
| "mapE f (x # xs) = bindE (f x) (\<lambda>y. bindE (mapE f xs) (\<lambda>ys. Inr (y # ys)))"

definition decode_sink :: "u8 list \<Rightarrow> nat \<Rightarrow> nat \<Rightarrow> u8 res" where
  "decode_sink buf idx i =
     bindE (rd8 buf (idx + i div 2)) (\<lambda>b. Inr (drop_bit (if i mod 2 \<noteq> 0 then 0 else 4) b AND 0xf))"

text \<open>\<open>n\<close> transactions from the byte after \<open>idx\<close> on; also the index of the last byte read.\<close>

fun decode_i2c_txs :: "(nat \<Rightarrow> bool) \<Rightarrow> nat \<Rightarrow> nat \<Rightarrow> u8 list \<Rightarrow> nat \<Rightarrow> (i2c_read_tx list \<times> nat) res" where
  "decode_i2c_txs alloc k 0 buf idx = Inr ([], idx)"
| "decode_i2c_txs alloc k (Suc n) buf idx =
     bindE (rd8 buf (idx + 1)) (\<lambda>dev.
     bindE (rd8 buf (idx + 2)) (\<lambda>num.
     bindE (kmemdup alloc k buf (idx + 3) num) (\<lambda>bs.
     bindE (rd8 buf (idx + 3 + unat num)) (\<lambda>st.
     bindE (decode_i2c_txs alloc (k + 1) n buf (idx + 3 + unat num)) (\<lambda>(ts, idx).
       Inr (\<lparr>i2c_dev_id = dev AND 0x7f, itx_num_bytes = num, itx_bytes = bs,
             no_stop_bit = drop_bit 5 st AND 1, i2c_transaction_delay = st AND 0xf\<rparr> # ts, idx))))))"

definition drm_dp_decode_sideband_req :: "(nat \<Rightarrow> bool) \<Rightarrow> 'a sb_tx_scheme \<Rightarrow> sb_req res" where
  "drm_dp_decode_sideband_req alloc raw =
     (let buf = tx_msg raw
      in bindE (rd8 buf 0) (\<lambda>b0.
           let t = b0 AND 0x7f
           in if t = 0x10 then bindE (rd8 buf 1) (\<lambda>b. Inr (PortReq ENUM_PATH_RESOURCES (drop_bit 4 b AND 0xf)))
              else if t = 0x25 then bindE (rd8 buf 1) (\<lambda>b. Inr (PortReq POWER_DOWN_PHY (drop_bit 4 b AND 0xf)))
              else if t = 0x24 then bindE (rd8 buf 1) (\<lambda>b. Inr (PortReq POWER_UP_PHY (drop_bit 4 b AND 0xf)))
              else if t = 0x11 then
                bindE (rd8 buf 1) (\<lambda>b1. bindE (rd8 buf 2) (\<lambda>b2. bindE (rd8 buf 3) (\<lambda>b3. bindE (rd8 buf 4) (\<lambda>b4.
                bindE (mapE (decode_sink buf 5) [0..<unat (b1 AND 0xf)]) (\<lambda>ss.
                  Inr (AllocatePayload
                    \<lparr>ap_port_number = drop_bit 4 b1 AND 0xf, ap_number_sdp_streams = b1 AND 0xf, ap_vcpi = b2 AND 0x7f,
                     ap_pbn = push_bit 8 (ucast b3) OR ucast b4, ap_sdp_stream_sink = ss\<rparr>))))))
              else if t = 0x12 then
                bindE (rd8 buf 1) (\<lambda>b1. bindE (rd8 buf 2) (\<lambda>b2. Inr (QueryPayload (drop_bit 4 b1 AND 0xf) (b2 AND 0x7f))))
              else if t = 0x20 then
                bindE (decode_address buf) (\<lambda>(p, a). bindE (rd8 buf 4) (\<lambda>n.
                  Inr (RemoteDpcdRead \<lparr>dr_port_number = p, dr_dpcd_address = a, dr_num_bytes = n\<rparr>)))
              else if t = 0x21 then
                bindE (decode_address buf) (\<lambda>(p, a). bindE (rd8 buf 4) (\<lambda>n. bindE (kmemdup alloc 0 buf 5 n) (\<lambda>bs.
                  Inr (RemoteDpcdWrite \<lparr>dw_port_number = p, dw_dpcd_address = a, dw_num_bytes = n, dw_bytes = bs\<rparr>))))
              else if t = 0x22 then
                bindE (rd8 buf 1) (\<lambda>b1.
                bindE (decode_i2c_txs alloc 0 (unat (b1 AND 3)) buf 1) (\<lambda>(ts, idx).
                bindE (rd8 buf (idx + 1)) (\<lambda>d. bindE (rd8 buf (idx + 2)) (\<lambda>n.
                  Inr (RemoteI2cRead \<lparr>ir_num_transactions = b1 AND 3, ir_port_number = drop_bit 4 b1 AND 0xf,
                    ir_transactions = ts, read_i2c_device_id = d AND 0x7f, num_bytes_read = n\<rparr>)))))
              else if t = 0x23 then
                bindE (rd8 buf 1) (\<lambda>b1. bindE (rd8 buf 2) (\<lambda>d. bindE (rd8 buf 3) (\<lambda>n. bindE (kmemdup alloc 0 buf 4 n) (\<lambda>bs.
                  Inr (RemoteI2cWrite \<lparr>iw_port_number = drop_bit 4 b1 AND 0xf, write_i2c_device_id = d AND 0x7f,
                    iw_num_bytes = n, iw_bytes = bs\<rparr>)))))
              else if t = 0x38 then
                bindE (rd8 buf 1) (\<lambda>sid. bindE (of_opt Oob (buf_slice buf 2 7)) (\<lambda>c. bindE (rd8 buf 9) (\<lambda>f.
                  Inr (QueryStreamEncStatus \<lparr>stream_id = sid, client_id = c, stream_event = f AND 0x3,
                    valid_stream_event = (drop_bit 2 f AND 1 \<noteq> 0), stream_behavior = drop_bit 3 f AND 0x3,
                    valid_stream_behavior = drop_bit 5 f AND 1\<rparr>))))
              else Inr (OtherReq t)))"

end
