(* ===== verification/Sideband_Req_Props.thy ===== *)
theory Sideband_Req_Props
  imports Sideband_Req
begin

text \<open>
  What the encoding of sideband requests promises: a valid request is decoded to itself (without the
  no-stop bits of an I2C read), and what happens when a request is longer than the message.
\<close>

section \<open>Valid requests and what comes back\<close>

fun i2c_tx_valid :: "i2c_read_tx \<Rightarrow> bool" where
  "i2c_tx_valid t \<longleftrightarrow> i2c_dev_id t < 128 \<and> unat (itx_num_bytes t) \<le> length (itx_bytes t) \<and>
     no_stop_bit t \<le> 1 \<and> i2c_transaction_delay t < 16"

fun req_valid :: "sb_req \<Rightarrow> bool" where
  "req_valid (PortReq _ port) \<longleftrightarrow> port < 16"
| "req_valid (AllocatePayload a) \<longleftrightarrow> ap_port_number a < 16 \<and> ap_number_sdp_streams a < 16 \<and> ap_vcpi a < 128 \<and>
     unat (ap_number_sdp_streams a) \<le> length (ap_sdp_stream_sink a) \<and>
     list_all (\<lambda>s. s < 16) (ap_sdp_stream_sink a)"
| "req_valid (QueryPayload port vcpi) \<longleftrightarrow> port < 16 \<and> vcpi < 128"
| "req_valid (RemoteDpcdRead r) \<longleftrightarrow> dr_port_number r < 16 \<and> dr_dpcd_address r < 0x100000"
| "req_valid (RemoteDpcdWrite w) \<longleftrightarrow> dw_port_number w < 16 \<and> dw_dpcd_address w < 0x100000 \<and>
     unat (dw_num_bytes w) \<le> length (dw_bytes w)"
| "req_valid (RemoteI2cRead r) \<longleftrightarrow> ir_port_number r < 16 \<and> ir_num_transactions r < 4 \<and> read_i2c_device_id r < 128 \<and>
     unat (ir_num_transactions r) \<le> length (ir_transactions r) \<and> list_all i2c_tx_valid (ir_transactions r)"
| "req_valid (RemoteI2cWrite w) \<longleftrightarrow> iw_port_number w < 16 \<and> write_i2c_device_id w < 128 \<and>
     unat (iw_num_bytes w) \<le> length (iw_bytes w)"
| "req_valid (QueryStreamEncStatus e) \<longleftrightarrow> length (client_id e) = 7 \<and> stream_event e < 4 \<and> stream_behavior e < 4 \<and>
     valid_stream_behavior e \<le> 1"
| "req_valid (OtherReq t) \<longleftrightarrow> t < 128 \<and> t \<notin> set body_types"

text \<open>The part of the arrays that is in use; and the bit that does not survive, of each transaction.\<close>

definition i2c_tx_decoded :: "i2c_read_tx \<Rightarrow> i2c_read_tx" where
  "i2c_tx_decoded t = t\<lparr>itx_bytes := take (unat (itx_num_bytes t)) (itx_bytes t), no_stop_bit := 0\<rparr>"

fun req_decoded :: "sb_req \<Rightarrow> sb_req" where
  "req_decoded (AllocatePayload a) =
     AllocatePayload (a\<lparr>ap_sdp_stream_sink := take (unat (ap_number_sdp_streams a)) (ap_sdp_stream_sink a)\<rparr>)"
| "req_decoded (RemoteDpcdWrite w) = RemoteDpcdWrite (w\<lparr>dw_bytes := take (unat (dw_num_bytes w)) (dw_bytes w)\<rparr>)"
| "req_decoded (RemoteI2cRead r) =
     RemoteI2cRead (r\<lparr>ir_transactions := map i2c_tx_decoded (take (unat (ir_num_transactions r)) (ir_transactions r))\<rparr>)"
| "req_decoded (RemoteI2cWrite w) = RemoteI2cWrite (w\<lparr>iw_bytes := take (unat (iw_num_bytes w)) (iw_bytes w)\<rparr>)"
| "req_decoded r = r"

section \<open>Fields\<close>

lemma rd8_Cons: "rd8 (x # xs) 0 = Inr x" "rd8 (x # xs) (Suc i) = rd8 xs i"
  by (simp_all add: rd8_def buf_get_Cons)

lemma rd8_append: "rd8 (xs @ ys) (length xs + i) = rd8 ys i"
  by (simp add: rd8_def buf_get_append)

lemma rd8_numeral: "rd8 (x # xs) (numeral n) = rd8 xs (pred_numeral n)" "rd8 (x # xs) 1 = rd8 xs 0"
  by (simp_all add: numeral_eq_Suc rd8_Cons)

lemma slice_Cons: "buf_slice (x # xs) (Suc i) n = buf_slice xs i n"
  by (simp add: buf_slice_def)

lemma slice_numeral: "buf_slice (x # xs) (numeral k) n = buf_slice xs (pred_numeral k) n"
  by (simp add: numeral_eq_Suc slice_Cons)

lemma slice_prefix: "length xs = n \<Longrightarrow> buf_slice (xs @ ys) 0 n = Some xs"
  by (simp add: buf_slice_def)

lemma slice_take: "n \<le> length xs \<Longrightarrow> buf_slice xs 0 n = Some (take n xs)"
  by (simp add: buf_slice_def)

lemma nibble_fields:
  assumes "(p::u8) < 16" "(n::u8) < 16"
  shows "drop_bit 4 (push_bit 4 (p AND 0xf) OR (n AND 0xf)) AND 0xf = p" "(push_bit 4 (p AND 0xf) OR (n AND 0xf)) AND 0xf = n"
    "drop_bit 4 (push_bit 4 (p AND 0xf)) AND 0xf = p"
proof -
  have f: "fits 4 p" "fits 4 n" using assms by (auto intro: fits_numeral)
  then show "drop_bit 4 (push_bit 4 (p AND 0xf) OR (n AND 0xf)) AND 0xf = p" "(push_bit 4 (p AND 0xf) OR (n AND 0xf)) AND 0xf = n"
    "drop_bit 4 (push_bit 4 (p AND 0xf)) AND 0xf = p"
    by (auto simp: field_simps8 dest: fits_bit intro!: bit_word_eqI)
qed

lemma trans_fields:
  assumes "(p::u8) < 16" "(n::u8) < 4"
  shows "drop_bit 4 (push_bit 4 (p AND 0xf) OR (n AND 3)) AND 0xf = p" "(push_bit 4 (p AND 0xf) OR (n AND 3)) AND 3 = n"
    "n AND 3 = n"
proof -
  have f: "fits 4 p" "fits 2 n" using assms fitsI [of n 2] by (auto intro: fits_numeral)
  then show "drop_bit 4 (push_bit 4 (p AND 0xf) OR (n AND 3)) AND 0xf = p" "(push_bit 4 (p AND 0xf) OR (n AND 3)) AND 3 = n"
    "n AND 3 = n"
    by (auto simp: field_simps8 dest: fits_bit intro!: bit_word_eqI)
qed

lemma low7: "(x::u8) < 128 \<Longrightarrow> x AND 0x7f = x"
  using fits_numeral(5) [of x] by (auto simp: field_simps8 dest: fits_bit intro!: bit_word_eqI)

lemma low_nibble: "(x::u8) < 16 \<Longrightarrow> x AND 0xf = x"
  using fits_numeral(6) [of x] by (auto simp: field_simps8 dest: fits_bit intro!: bit_word_eqI)

lemma stop_byte_fields:
  assumes "(s::u8) \<le> 1" "(d::u8) < 16"
  shows "drop_bit 5 (push_bit 4 (s AND 1) OR (d AND 0xf)) AND 1 = 0" "(push_bit 4 (s AND 1) OR (d AND 0xf)) AND 0xf = d"
proof -
  have f: "fits 4 d" using assms by (auto intro: fits_numeral)
  show "drop_bit 5 (push_bit 4 (s AND 1) OR (d AND 0xf)) AND 1 = 0"
  proof -
    have "\<not> bit (push_bit 4 (s AND 1) OR (d AND 0xf)) 5" by (auto simp: and_masks bit_simps bit_1_iff)
    then show ?thesis by (simp add: and_one_eq bit_iff_odd_drop_bit odd_iff_mod_2_eq_one)
  qed
  show "(push_bit 4 (s AND 1) OR (d AND 0xf)) AND 0xf = d"
    using f by (auto simp: and_masks bit_simps dest: fits_bit intro!: bit_word_eqI)
qed

lemma pbn_fields: "push_bit 8 (ucast (ucast (drop_bit 8 (v::u16)) :: u8)) OR (ucast (ucast (v AND 0xff) :: u8) :: u16) = v"
  by (rule bit_word_eqI) (auto simp: field_simps8)

lemma enc_status_fields:
  assumes "(e::u8) < 4" "(b::u8) < 4" "(w::u8) \<le> 1"
    and f_def: "f = (e AND 0x3) OR (if v then 4 else 0) OR (push_bit 3 b AND 0x18) OR (if w \<noteq> 0 then 0x20 else 0)"
  shows "f AND 0x3 = e" "drop_bit 2 f AND 1 \<noteq> 0 \<longleftrightarrow> v" "drop_bit 3 f AND 0x3 = b" "drop_bit 5 f AND 1 = w"
proof -
  have "e = 0 \<or> e = 1 \<or> e = 2 \<or> e = 3" "b = 0 \<or> b = 1 \<or> b = 2 \<or> b = 3"
    using assms(1,2) by (auto simp: word_less_nat_alt word_unat_eq_iff)
  moreover have "w = 0 \<or> w = 1" using assms(3) by (auto simp: word_le_nat_alt word_unat_eq_iff)
  ultimately show "f AND 0x3 = e" "drop_bit 2 f AND 1 \<noteq> 0 \<longleftrightarrow> v" "drop_bit 3 f AND 0x3 = b" "drop_bit 5 f AND 1 = w"
    unfolding f_def by (elim disjE; cases v; simp)+
qed

lemma address_fields:
  assumes "(p::u8) < 16" "(a::u32) < 0x100000"
  shows "\<exists>b1 b2 b3. address_bytes p a = [b1, b2, b3] \<and> drop_bit 4 b1 AND 0xf = p \<and>
    (push_bit 16 (ucast b1) AND (0xf0000::u32)) OR (push_bit 8 (ucast b2) AND 0xff00) OR (ucast b3 AND 0xff) = a"
proof -
  have f: "fits 4 p" "fits 20 a" using assms fitsI [of a 20] by (auto intro: fits_numeral)
  have m: "x AND 0xf0000 = push_bit 16 (take_bit 4 (drop_bit 16 x))" "x AND 0xff00 = push_bit 8 (take_bit 8 (drop_bit 8 x))" for x :: u32
  proof -
    have c: "(0xf0000::u32) = push_bit 16 (mask 4)" "(0xff00::u32) = push_bit 8 (mask 8)"
      by (simp_all add: mask_eq_exp_minus_1)
    show "x AND 0xf0000 = push_bit 16 (take_bit 4 (drop_bit 16 x))" "x AND 0xff00 = push_bit 8 (take_bit 8 (drop_bit 8 x))"
      unfolding c by (rule bit_word_eqI, auto simp: bit_simps)+
  qed
  define b1 :: u8 where "b1 = push_bit 4 (p AND 0xf) OR ucast (drop_bit 16 (a AND 0xf0000) AND 0xf)"
  define b2 :: u8 where "b2 = ucast (drop_bit 8 (a AND 0xff00))"
  define b3 :: u8 where "b3 = ucast (a AND 0xff)"
  have bits: "m < 4 \<Longrightarrow> bit b1 m = bit a (16 + m)" "bit b2 m \<longleftrightarrow> m < 8 \<and> bit a (8 + m)" "bit b3 m \<longleftrightarrow> m < 8 \<and> bit a m" for m
    by (auto simp: b1_def b2_def b3_def m and_masks bit_simps)
  have "drop_bit 4 b1 AND 0xf = p"
    using f by (auto simp: b1_def m and_masks bit_simps dest: fits_bit intro!: bit_word_eqI)
  moreover have "(push_bit 16 (ucast b1) AND (0xf0000::u32)) OR (push_bit 8 (ucast b2) AND 0xff00) OR (ucast b3 AND 0xff) = a"
  proof (rule bit_word_eqI)
    fix n
    have a20: "bit a n \<Longrightarrow> n < 20" using f(2) by (rule fits_bit)
    consider "n < 8" | "8 \<le> n" "n < 16" | "16 \<le> n" "n < 20" | "20 \<le> n" by linarith
    then show "bit ((push_bit 16 (ucast b1) AND (0xf0000::u32)) OR (push_bit 8 (ucast b2) AND 0xff00) OR (ucast b3 AND 0xff)) n = bit a n"
      using a20 by cases (auto simp: m and_masks bit_simps bits)
  qed
  ultimately show ?thesis unfolding address_bytes_def b1_def b2_def b3_def by blast
qed

lemma t_bit: "drop_bit n (x::u8) AND 1 \<noteq> 0 \<longleftrightarrow> bit x n"
  by (simp add: and_one_eq bit_iff_odd_drop_bit odd_iff_mod_2_eq_one)

section \<open>The stream sinks\<close>

lemma map_opt_Some: "(\<And>x. x \<in> set xs \<Longrightarrow> f x = Some (g x)) \<Longrightarrow> map_opt f xs = Some (map g xs)"
  by (induction xs) auto

lemma mapE_Inr: "(\<And>x. x \<in> set xs \<Longrightarrow> f x = Inr (g x)) \<Longrightarrow> mapE f xs = Inr (map g xs)"
  by (induction xs) auto

definition sink_bytes :: "nat \<Rightarrow> u8 list \<Rightarrow> u8 list" where
  "sink_bytes n ss = map (\<lambda>i. push_bit 4 (ss ! (i * 2) AND 0xf) OR
      (if i * 2 + 1 < n then ss ! (i * 2 + 1) AND 0xf else 0)) [0..<(n + 1) div 2]"

lemma encode_sinks_ok:
  assumes "unat n \<le> length ss"
  shows "encode_sinks n ss = Some (sink_bytes (unat n) ss)"
proof -
  let ?n = "unat n"
  have odd: "n AND 1 \<noteq> 0 \<longleftrightarrow> odd ?n"
    by (simp add: and_one_eq odd_iff_mod_2_eq_one word_unat_eq_iff unat_mod)
  have pairs: "map_opt (sink_pair ss) [0..<?n div 2] =
      Some (map (\<lambda>i. push_bit 4 (ss ! (i * 2) AND 0xf) OR (ss ! (i * 2 + 1) AND 0xf)) [0..<?n div 2])"
    using assms by (intro map_opt_Some) (auto simp: sink_pair_def buf_get_def)
  have same: "map (\<lambda>i. push_bit 4 (ss ! (i * 2) AND 0xf) OR (ss ! (i * 2 + 1) AND 0xf)) [0..<?n div 2] =
      map (\<lambda>i. push_bit 4 (ss ! (i * 2) AND 0xf) OR (if i * 2 + 1 < ?n then ss ! (i * 2 + 1) AND 0xf else 0)) [0..<?n div 2]"
    by auto
  show ?thesis
  proof (cases "odd ?n")
    case True
    then have h: "(?n + 1) div 2 = Suc (?n div 2)" "?n div 2 * 2 = ?n - 1" "buf_get ss (?n - 1) = Some (ss ! (?n - 1))" "?n \<noteq> 0"
      using assms by (auto simp: buf_get_def elim!: oddE)
    then show ?thesis using True odd pairs same by (simp add: encode_sinks_def sink_bytes_def)
  next
    case False
    then have "(?n + 1) div 2 = ?n div 2" by (auto elim!: evenE)
    then show ?thesis using False odd pairs same by (simp add: encode_sinks_def sink_bytes_def)
  qed
qed

lemma decode_sinks_ok:
  assumes "n \<le> length ss" "list_all (\<lambda>s. s < 16) ss"
  shows "mapE (decode_sink (pre @ sink_bytes n ss @ rest) (length pre)) [0..<n] = Inr (take n ss)"
proof -
  have "decode_sink (pre @ sink_bytes n ss @ rest) (length pre) i = Inr (ss ! i)" if "i \<in> set [0..<n]" for i
  proof -
    have i: "i < n" "i div 2 < (n + 1) div 2" using that by auto
    have s: "ss ! j < 16" if "j < length ss" for j using assms(2) that by (simp add: list_all_length)
    have b: "rd8 (pre @ sink_bytes n ss @ rest) (length pre + i div 2) = Inr (push_bit 4 (ss ! (i div 2 * 2) AND 0xf) OR
      (if i div 2 * 2 + 1 < n then ss ! (i div 2 * 2 + 1) AND 0xf else 0))"
      using i by (simp add: rd8_append) (simp add: rd8_def buf_get_def sink_bytes_def nth_append)
    show ?thesis
    proof (cases "odd i")
      case True
      then have e: "i div 2 * 2 + 1 = i" "i div 2 * 2 < length ss" using i(1) assms(1) by (auto elim!: oddE)
      then show ?thesis
        using b True i(1) assms(1) nibble_fields(2) [OF s s, of "i div 2 * 2" i]
        by (simp add: decode_sink_def odd_iff_mod_2_eq_one)
    next
      case False
      then have e: "i div 2 * 2 = i" by auto
      have "drop_bit 4 (push_bit 4 (ss ! i AND 0xf) OR (if i + 1 < n then ss ! (i + 1) AND 0xf else 0)) AND 0xf = ss ! i"
      proof (cases "i + 1 < n")
        case True
        then have "i < length ss" "i + 1 < length ss" using assms(1) by auto
        then show ?thesis using True by (simp only: if_True nibble_fields(1) [OF s s])
      next
        case False
        have "i < length ss" using i(1) assms(1) by auto
        then show ?thesis using False nibble_fields(3) [OF s s, of i i] by (simp only: if_False or.right_neutral)
      qed
      then show ?thesis using b False e i by (simp only: decode_sink_def) simp
    qed
  qed
  then have "mapE (decode_sink (pre @ sink_bytes n ss @ rest) (length pre)) [0..<n] = Inr (map (\<lambda>i. ss ! i) [0..<n])"
    by (rule mapE_Inr)
  then show ?thesis using assms(1) by (simp add: list_eq_iff_nth_eq)
qed


section \<open>The transactions of an I2C read\<close>

definition i2c_bytes :: "i2c_read_tx \<Rightarrow> u8 list" where
  "i2c_bytes t = [i2c_dev_id t AND 0x7f, itx_num_bytes t] @ take (unat (itx_num_bytes t)) (itx_bytes t) @
     [push_bit 4 (no_stop_bit t AND 1) OR (i2c_transaction_delay t AND 0xf)]"

lemma encode_i2c_tx_ok: "i2c_tx_valid t \<Longrightarrow> encode_i2c_tx t = Some (i2c_bytes t)"
  by (simp add: encode_i2c_tx_def i2c_bytes_def slice_take)

lemma encode_i2c_txs_ok: "list_all i2c_tx_valid ts \<Longrightarrow> map_opt encode_i2c_tx ts = Some (map i2c_bytes ts)"
  by (intro map_opt_Some encode_i2c_tx_ok) (simp add: list_all_iff)

lemma length_i2c_bytes: "i2c_tx_valid t \<Longrightarrow> length (i2c_bytes t) = 3 + unat (itx_num_bytes t)"
  by (simp add: i2c_bytes_def)

lemma kmemdup_mid:
  "alloc k \<Longrightarrow> i = length pre \<Longrightarrow> unat n = length bs \<Longrightarrow> kmemdup alloc k (pre @ bs @ rest) i n = Inr bs"
  by (simp add: kmemdup_def buf_slice_mid)

lemma decode_i2c_step:
  assumes "i2c_tx_valid t" "Suc idx = length pre" "alloc k"
  shows "decode_i2c_txs alloc k (Suc n) (pre @ i2c_bytes t @ rest) idx =
    bindE (decode_i2c_txs alloc (k + 1) n (pre @ i2c_bytes t @ rest) (idx + length (i2c_bytes t)))
      (\<lambda>(ts, idx). Inr (i2c_tx_decoded t # ts, idx))"
proof -
  let ?n = "unat (itx_num_bytes t)"
  let ?bs = "take ?n (itx_bytes t)"
  let ?st = "push_bit 4 (no_stop_bit t AND 1) OR (i2c_transaction_delay t AND 0xf)"
  let ?buf = "pre @ i2c_bytes t @ rest"
  have v: "i2c_dev_id t < 128" "?n \<le> length (itx_bytes t)" "no_stop_bit t \<le> 1" "i2c_transaction_delay t < 16"
    using assms(1) by simp_all
  have r: "rd8 ?buf (idx + 1) = Inr (i2c_dev_id t AND 0x7f)" "rd8 ?buf (idx + 2) = Inr (itx_num_bytes t)"
    using assms(2) rd8_append [of pre _ 0] rd8_append [of pre _ 1] by (simp_all add: i2c_bytes_def rd8_Cons rd8_numeral)
  have d: "kmemdup alloc k ?buf (idx + 3) (itx_num_bytes t) = Inr ?bs"
    using kmemdup_mid [of alloc k "idx + 3" "pre @ [i2c_dev_id t AND 0x7f, itx_num_bytes t]" "itx_num_bytes t" ?bs "[?st] @ rest"] assms(2,3) v(2)
    by (simp add: i2c_bytes_def)
  have s: "rd8 ?buf (idx + 3 + ?n) = Inr ?st"
    using rd8_append [of "pre @ [i2c_dev_id t AND 0x7f, itx_num_bytes t] @ ?bs" "?st # rest" 0] assms(2) v(2)
    by (simp add: i2c_bytes_def rd8_Cons numeral_eq_Suc)
  have l: "idx + length (i2c_bytes t) = idx + 3 + ?n" using length_i2c_bytes [OF assms(1)] by simp
  have f: "\<lparr>i2c_dev_id = (i2c_dev_id t AND 0x7f) AND 0x7f, itx_num_bytes = itx_num_bytes t, itx_bytes = ?bs,
      no_stop_bit = drop_bit 5 ?st AND 1, i2c_transaction_delay = ?st AND 0xf\<rparr> = i2c_tx_decoded t"
    unfolding stop_byte_fields [OF v(3,4)] i2c_tx_decoded_def using low7 [OF v(1)] by (cases t) simp
  show ?thesis
    unfolding decode_i2c_txs.simps r d s l bindE_simps by (simp only: f)
qed

lemma decode_i2c_txs_ok:
  assumes "list_all i2c_tx_valid ts" "Suc idx = length pre" "\<And>k. alloc k"
  shows "decode_i2c_txs alloc k (length ts) (pre @ concat (map i2c_bytes ts) @ rest) idx =
    Inr (map i2c_tx_decoded ts, idx + length (concat (map i2c_bytes ts)))"
  using assms(1,2)
proof (induction ts arbitrary: k idx pre)
  case Nil
  then show ?case by simp
next
  case (Cons t ts)
  have IH: "decode_i2c_txs alloc (k + 1) (length ts) ((pre @ i2c_bytes t) @ concat (map i2c_bytes ts) @ rest) (idx + length (i2c_bytes t))
      = Inr (map i2c_tx_decoded ts, idx + length (i2c_bytes t) + length (concat (map i2c_bytes ts)))"
    using Cons.prems by (intro Cons.IH) simp_all
  have "decode_i2c_txs alloc k (Suc (length ts)) (pre @ i2c_bytes t @ (concat (map i2c_bytes ts) @ rest)) idx =
    Inr (i2c_tx_decoded t # map i2c_tx_decoded ts, idx + length (i2c_bytes t) + length (concat (map i2c_bytes ts)))"
    using Cons.prems assms(3) IH by (subst decode_i2c_step) simp_all
  then show ?case by simp
qed

section \<open>Decoding what was encoded\<close>

lemma decode_address_ok:
  assumes "(p::u8) < 16" "(a::u32) < 0x100000"
  shows "decode_address (x # address_bytes p a @ rest) = Inr (p, a)"
proof -
  obtain b1 b2 b3 where b: "address_bytes p a = [b1, b2, b3]" "drop_bit 4 b1 AND 0xf = p"
    "(push_bit 16 (ucast b1) AND (0xf0000::u32)) OR (push_bit 8 (ucast b2) AND 0xff00) OR (ucast b3 AND 0xff) = a"
    using address_fields [OF assms] by blast
  have "rd8 (x # address_bytes p a @ rest) 1 = Inr b1" "rd8 (x # address_bytes p a @ rest) 2 = Inr b2"
    "rd8 (x # address_bytes p a @ rest) 3 = Inr b3"
    by (simp_all add: b(1) rd8_numeral rd8_Cons)
  then show ?thesis unfolding decode_address_def by (simp only: bindE_simps b)
qed

lemma length_address_bytes: "length (address_bytes p a) = 3"
  by (simp add: address_bytes_def)

lemma low_type: "req_valid req \<Longrightarrow> req_type req AND 0x7f = req_type req"
proof (cases req)
  case (PortReq p _)
  then show ?thesis by (cases p) simp_all
qed (simp_all add: low7)

fun body_len :: "sb_req \<Rightarrow> nat" where
  "body_len (PortReq _ _) = 1"
| "body_len (AllocatePayload a) = 4 + (unat (ap_number_sdp_streams a) + 1) div 2"
| "body_len (QueryPayload _ _) = 2"
| "body_len (RemoteDpcdRead _) = 4"
| "body_len (RemoteDpcdWrite w) = 4 + unat (dw_num_bytes w)"
| "body_len (RemoteI2cRead r) =
     3 + sum_list (map (\<lambda>t. 3 + unat (itx_num_bytes t)) (take (unat (ir_num_transactions r)) (ir_transactions r)))"
| "body_len (RemoteI2cWrite w) = 3 + unat (iw_num_bytes w)"
| "body_len (QueryStreamEncStatus _) = 9"
| "body_len (OtherReq _) = 0"


text \<open>What is shown of each kind of request: its bytes, their number, and what decoding makes of them.\<close>

definition coded :: "sb_req \<Rightarrow> u8 list \<Rightarrow> bool" where
  "coded req bs \<longleftrightarrow> encode_body req = Some bs \<and> length bs = body_len req \<and>
     (\<forall>rest raw alloc. (\<forall>k. alloc k) \<longrightarrow> tx_msg raw = req_type req # bs @ rest \<longrightarrow>
        drm_dp_decode_sideband_req alloc (raw :: sb_tx) = Inr (req_decoded req))"

lemma codedI:
  assumes "encode_body req = Some bs" "length bs = body_len req"
    "\<And>rest raw alloc. \<forall>k. alloc k \<Longrightarrow> tx_msg (raw :: sb_tx) = req_type req # bs @ rest \<Longrightarrow>
      drm_dp_decode_sideband_req alloc raw = Inr (req_decoded req)"
  shows "\<exists>bs. coded req bs"
  using assms unfolding coded_def by blast

lemma coded_port:
  assumes PortReq: "req = PortReq p port" and valid: "req_valid req"
  shows "\<exists>bs. coded req bs"
proof -
  from assms show ?thesis
    using assms nibble_fields(3) [of port port] low_nibble [of port]
    by (cases p) (auto simp: drm_dp_decode_sideband_req_def Let_def rd8_Cons rd8_numeral intro!: codedI)
qed

lemma coded_other:
  assumes OtherReq: "req = OtherReq t" and valid: "req_valid req"
  shows "\<exists>bs. coded req bs"
proof -
  from assms have "t AND 0x7f = t" using assms by (simp add: low7)
  then show ?thesis using OtherReq assms
    by (intro codedI [of _ "[]"]) (auto simp: drm_dp_decode_sideband_req_def Let_def rd8_Cons body_types_def)
qed

lemma coded_query:
  assumes QueryPayload: "req = QueryPayload port vcpi" and valid: "req_valid req"
  shows "\<exists>bs. coded req bs"
proof -
  from assms show ?thesis
    using assms nibble_fields(3) [of port port] low_nibble [of port] low7 [of vcpi]
    by (auto simp: drm_dp_decode_sideband_req_def Let_def rd8_Cons rd8_numeral intro!: codedI)
qed

lemma coded_dpcd_read:
  assumes RemoteDpcdRead: "req = RemoteDpcdRead r" and valid: "req_valid req"
  shows "\<exists>bs. coded req bs"
proof -
  from assms have v: "dr_port_number r < 16" "dr_dpcd_address r < 0x100000" using assms by simp_all
  show ?thesis
  proof (rule codedI)
    show "encode_body req = Some (address_bytes (dr_port_number r) (dr_dpcd_address r) @ [dr_num_bytes r])"
      "length (address_bytes (dr_port_number r) (dr_dpcd_address r) @ [dr_num_bytes r]) = body_len req"
      by (simp_all add: RemoteDpcdRead length_address_bytes)
    fix alloc rest and raw :: sb_tx
    assume raw: "tx_msg raw = req_type req # (address_bytes (dr_port_number r) (dr_dpcd_address r) @ [dr_num_bytes r]) @ rest"
    have n: "rd8 (tx_msg raw) 4 = Inr (dr_num_bytes r)" "rd8 (tx_msg raw) 0 = Inr 0x20"
      by (simp_all add: raw RemoteDpcdRead rd8_Cons rd8_numeral address_bytes_def)
    have a: "decode_address (tx_msg raw) = Inr (dr_port_number r, dr_dpcd_address r)"
      using decode_address_ok [OF v] by (simp add: raw)
    show "drm_dp_decode_sideband_req alloc raw = Inr (req_decoded req)"
      by (simp add: drm_dp_decode_sideband_req_def Let_def n a RemoteDpcdRead)
  qed
qed

lemma coded_dpcd_write:
  assumes RemoteDpcdWrite: "req = RemoteDpcdWrite w" and valid: "req_valid req"
  shows "\<exists>bs. coded req bs"
proof -
  from assms have v: "dw_port_number w < 16" "dw_dpcd_address w < 0x100000" "unat (dw_num_bytes w) \<le> length (dw_bytes w)"
    using assms by simp_all
  let ?a = "address_bytes (dw_port_number w) (dw_dpcd_address w)"
  let ?bs = "take (unat (dw_num_bytes w)) (dw_bytes w)"
  show ?thesis
  proof (rule codedI)
    show "encode_body req = Some (?a @ [dw_num_bytes w] @ ?bs)" "length (?a @ [dw_num_bytes w] @ ?bs) = body_len req"
      using v by (simp_all add: RemoteDpcdWrite length_address_bytes slice_take)
    fix alloc rest and raw :: sb_tx
    assume al: "\<forall>k::nat. alloc k" and raw: "tx_msg raw = req_type req # (?a @ [dw_num_bytes w] @ ?bs) @ rest"
    have n: "rd8 (tx_msg raw) 4 = Inr (dw_num_bytes w)" "rd8 (tx_msg raw) 0 = Inr 0x21"
      by (simp_all add: raw RemoteDpcdWrite rd8_Cons rd8_numeral address_bytes_def)
    have a: "decode_address (tx_msg raw) = Inr (dw_port_number w, dw_dpcd_address w)"
      using decode_address_ok [OF v(1,2)] by (simp add: raw)
    have k: "kmemdup alloc 0 (tx_msg raw) 5 (dw_num_bytes w) = Inr ?bs"
      using kmemdup_mid [of alloc 0 5 "req_type req # ?a @ [dw_num_bytes w]" "dw_num_bytes w" ?bs rest] al v(3)
      by (simp add: raw length_address_bytes)
    show "drm_dp_decode_sideband_req alloc raw = Inr (req_decoded req)"
      by (simp add: drm_dp_decode_sideband_req_def Let_def n a k RemoteDpcdWrite)
  qed
qed

lemma coded_i2c_write:
  assumes RemoteI2cWrite: "req = RemoteI2cWrite w" and valid: "req_valid req"
  shows "\<exists>bs. coded req bs"
proof -
  from assms have v: "iw_port_number w < 16" "write_i2c_device_id w < 128" "unat (iw_num_bytes w) \<le> length (iw_bytes w)"
    using assms by simp_all
  let ?h = "[push_bit 4 (iw_port_number w AND 0xf), write_i2c_device_id w AND 0x7f, iw_num_bytes w]"
  let ?bs = "take (unat (iw_num_bytes w)) (iw_bytes w)"
  show ?thesis
  proof (rule codedI)
    show "encode_body req = Some (?h @ ?bs)" "length (?h @ ?bs) = body_len req"
      using v by (simp_all add: RemoteI2cWrite slice_take)
    fix alloc rest and raw :: sb_tx
    assume al: "\<forall>k::nat. alloc k" and raw: "tx_msg raw = req_type req # (?h @ ?bs) @ rest"
    have n: "rd8 (tx_msg raw) 0 = Inr 0x23" "rd8 (tx_msg raw) 1 = Inr (push_bit 4 (iw_port_number w AND 0xf))"
      "rd8 (tx_msg raw) 2 = Inr (write_i2c_device_id w)" "rd8 (tx_msg raw) 3 = Inr (iw_num_bytes w)"
      using low7 [OF v(2)] by (simp_all add: raw RemoteI2cWrite rd8_Cons rd8_numeral)
    have k: "kmemdup alloc 0 (tx_msg raw) 4 (iw_num_bytes w) = Inr ?bs"
      using kmemdup_mid [of alloc 0 4 "req_type req # ?h" "iw_num_bytes w" ?bs rest] al v(3)
      by (simp add: raw)
    show "drm_dp_decode_sideband_req alloc raw = Inr (req_decoded req)"
      unfolding drm_dp_decode_sideband_req_def Let_def n bindE_simps k nibble_fields(3) [OF v(1,1)] low7 [OF v(2)]
      by (simp add: RemoteI2cWrite) 
  qed
qed

lemma coded_allocate:
  assumes AllocatePayload: "req = AllocatePayload a" and valid: "req_valid req"
  shows "\<exists>bs. coded req bs"
proof -
  from assms have v: "ap_port_number a < 16" "ap_number_sdp_streams a < 16" "ap_vcpi a < 128"
    "unat (ap_number_sdp_streams a) \<le> length (ap_sdp_stream_sink a)" "list_all (\<lambda>s. s < 16) (ap_sdp_stream_sink a)"
    using assms by simp_all
  let ?p = "push_bit 4 (ap_port_number a AND 0xf) OR (ap_number_sdp_streams a AND 0xf)"
  let ?h = "[?p, ap_vcpi a AND 0x7f, ucast (drop_bit 8 (ap_pbn a)), ucast (ap_pbn a AND 0xff)]"
  let ?ss = "sink_bytes (unat (ap_number_sdp_streams a)) (ap_sdp_stream_sink a)"
  show ?thesis
  proof (rule codedI)
    show "encode_body req = Some (?h @ ?ss)" "length (?h @ ?ss) = body_len req"
      using encode_sinks_ok [OF v(4)] by (simp_all add: AllocatePayload) (simp add: sink_bytes_def)
    fix alloc rest and raw :: sb_tx
    assume raw: "tx_msg raw = req_type req # (?h @ ?ss) @ rest"
    have n: "rd8 (tx_msg raw) 0 = Inr 0x11" "rd8 (tx_msg raw) 1 = Inr ?p" "rd8 (tx_msg raw) 2 = Inr (ap_vcpi a AND 0x7f)"
      "rd8 (tx_msg raw) 3 = Inr (ucast (drop_bit 8 (ap_pbn a)))" "rd8 (tx_msg raw) 4 = Inr (ucast (ap_pbn a AND 0xff))"
      unfolding raw AllocatePayload by (simp_all only: append_Cons rd8_numeral pred_numeral_simps rd8_Cons req_type.simps numeral_eq_Suc BitM.simps eval_nat_numeral)
    have k: "mapE (decode_sink (tx_msg raw) 5) [0..<unat (ap_number_sdp_streams a)] =
        Inr (take (unat (ap_number_sdp_streams a)) (ap_sdp_stream_sink a))"
      using decode_sinks_ok [OF v(4,5), of "req_type req # ?h" rest] by (simp only: raw) (simp add: eval_nat_numeral)
    show "drm_dp_decode_sideband_req alloc raw = Inr (req_decoded req)"
      unfolding drm_dp_decode_sideband_req_def Let_def n bindE_simps nibble_fields(1,2) [OF v(1,2)] k pbn_fields low7 [OF v(3)]
      by (simp add: AllocatePayload)
  qed
qed

lemma coded_i2c_read:
  assumes RemoteI2cRead: "req = RemoteI2cRead r" and valid: "req_valid req"
  shows "\<exists>bs. coded req bs"
proof -
  let ?n = "unat (ir_num_transactions r)"
  define ts where "ts = take ?n (ir_transactions r)"
  have v: "ir_port_number r < 16" "ir_num_transactions r < 4" "read_i2c_device_id r < 128" "?n \<le> length (ir_transactions r)"
    and ts: "list_all i2c_tx_valid ts" "length ts = ?n"
    using assms RemoteI2cRead by (auto simp: ts_def list_all_iff dest: in_set_takeD)
  let ?p = "push_bit 4 (ir_port_number r AND 0xf) OR (ir_num_transactions r AND 3)"
  let ?c = "concat (map i2c_bytes ts)"
  let ?bs = "[?p] @ ?c @ [read_i2c_device_id r AND 0x7f, num_bytes_read r]"
  show ?thesis
  proof (rule codedI)
    show "encode_body req = Some ?bs"
      using v(4) ts encode_i2c_txs_ok [OF ts(1)] by (simp add: RemoteI2cRead trans_fields(3) [OF v(1,2)] slice_take ts_def)
    have "length ?c = sum_list (map (\<lambda>t. 3 + unat (itx_num_bytes t)) ts)"
      using ts(1) by (induction ts) (simp_all add: length_i2c_bytes)
    then show "length ?bs = body_len req" by (simp add: RemoteI2cRead ts_def)
    fix alloc rest and raw :: sb_tx
    assume al: "\<forall>k::nat. alloc k" and raw: "tx_msg raw = req_type req # ?bs @ rest"
    have n: "rd8 (tx_msg raw) 0 = Inr 0x22" "rd8 (tx_msg raw) 1 = Inr ?p"
      unfolding raw RemoteI2cRead by (simp_all only: append_Cons rd8_numeral rd8_Cons req_type.simps)
    have k: "decode_i2c_txs alloc 0 ?n (tx_msg raw) 1 = Inr (map i2c_tx_decoded ts, 1 + length ?c)"
      using decode_i2c_txs_ok [OF ts(1), of 1 "[req_type req, ?p]" alloc 0 "[read_i2c_device_id r AND 0x7f, num_bytes_read r] @ rest"] al
      by (simp only: raw ts(2)) simp
    have e: "rd8 (tx_msg raw) (1 + length ?c + 1) = Inr (read_i2c_device_id r AND 0x7f)"
      "rd8 (tx_msg raw) (1 + length ?c + 2) = Inr (num_bytes_read r)"
      using rd8_append [of "[req_type req, ?p] @ ?c" "[read_i2c_device_id r AND 0x7f, num_bytes_read r] @ rest" 0]
        rd8_append [of "[req_type req, ?p] @ ?c" "[read_i2c_device_id r AND 0x7f, num_bytes_read r] @ rest" 1]
      by (simp_all only: raw) (simp_all add: rd8_Cons rd8_numeral add.commute)
    show "drm_dp_decode_sideband_req alloc raw = Inr (req_decoded req)"
      unfolding drm_dp_decode_sideband_req_def Let_def n bindE_simps trans_fields(1,2) [OF v(1,2)] k prod.case e low7 [OF v(3)]
      by (simp add: RemoteI2cRead ts_def)
  qed
qed

lemma coded_enc_status:
  assumes QueryStreamEncStatus: "req = QueryStreamEncStatus e" and valid: "req_valid req"
  shows "\<exists>bs. coded req bs"
proof -
  from assms have v: "length (client_id e) = 7" "stream_event e < 4" "stream_behavior e < 4" "valid_stream_behavior e \<le> 1"
    using assms by simp_all
  define f where "f = (stream_event e AND 0x3) OR (if valid_stream_event e then 4 else 0) OR
                 (push_bit 3 (stream_behavior e) AND 0x18) OR (if valid_stream_behavior e \<noteq> 0 then 0x20 else 0)"
  let ?bs = "[stream_id e] @ client_id e @ [f]"
  show ?thesis
  proof (rule codedI)
    show "encode_body req = Some ?bs" using v(1) by (simp add: QueryStreamEncStatus slice_take f_def)
    show "length ?bs = body_len req" using v(1) by (simp add: QueryStreamEncStatus)
    fix alloc rest and raw :: sb_tx
    assume raw: "tx_msg raw = req_type req # ?bs @ rest"
    have n: "rd8 (tx_msg raw) 0 = Inr 0x38" "rd8 (tx_msg raw) 1 = Inr (stream_id e)"
      unfolding raw QueryStreamEncStatus by (simp_all only: append_Cons rd8_numeral rd8_Cons req_type.simps)
    have c: "buf_slice (tx_msg raw) 2 7 = Some (client_id e)"
      using buf_slice_mid [of 2 "[req_type req, stream_id e]" 7 "client_id e" "f # rest"] v(1)
      by (simp only: raw) (simp add: numeral_2_eq_2)
    have l: "rd8 (tx_msg raw) 9 = Inr f"
      using rd8_append [of "[req_type req, stream_id e] @ client_id e" "f # rest" 0] v(1) by (simp only: raw) (simp add: rd8_Cons)
    show "drm_dp_decode_sideband_req alloc raw = Inr (req_decoded req)"
      unfolding drm_dp_decode_sideband_req_def Let_def n bindE_simps c of_opt_simps(2) l enc_status_fields [OF v(2,3,4) f_def]
      by (simp add: QueryStreamEncStatus)
  qed
qed

lemma encode_body_ok: "req_valid req \<Longrightarrow> \<exists>bs. coded req bs"
  by (cases req) (metis coded_port coded_other coded_query coded_dpcd_read coded_dpcd_write coded_i2c_write coded_allocate
    coded_i2c_read coded_enc_status)+

section \<open>The properties\<close>

lemma encode_req_fits:
  assumes "coded req bs" "length (tx_msg raw) = 256"
  shows "drm_dp_encode_sideband_req req (raw :: sb_tx) =
    (if body_len req \<le> 255
     then Some (raw\<lparr>tx_msg := (req_type req AND 0x7f) # bs @ drop (Suc (length bs)) (tx_msg raw), cur_len := word_of_nat (Suc (length bs))\<rparr>)
     else None)"
  using assms by (auto simp: drm_dp_encode_sideband_req_def coded_def Let_def buf_put_def)

text \<open>
  C19: a request of any kind whose fields fit the bits they are given, encoded into a message, is
  what the decoder gives back, cut to the entries in use: except that of an I2C read the no-stop bits
  are lost, since they are written to bit 4 of their byte and read from bit 5.
\<close>
theorem sideband_req_roundtrip:
  assumes "req_valid req" "length (tx_msg raw) = 256" "drm_dp_encode_sideband_req req raw = Some raw'" "\<forall>k. alloc k"
  shows "drm_dp_decode_sideband_req alloc (raw' :: sb_tx) = Inr (req_decoded req)"
proof -
  obtain bs where bs: "coded req bs" using encode_body_ok [OF assms(1)] by blast
  then have "tx_msg raw' = req_type req # bs @ drop (Suc (length bs)) (tx_msg raw)"
    using assms(3) low_type [OF assms(1)] by (auto simp: encode_req_fits [OF bs assms(2)] split: if_splits)
  then show ?thesis using bs assms(4) unfolding coded_def by blast
qed

definition zero_tx :: sb_tx where
  "zero_tx = \<lparr>tx_msg = replicate 256 0, cur_offset = 0, cur_len = 0, dst_lct = 1, dst_rad = replicate 8 0,
     tx_state = TX_QUEUED, tx_path_msg = False\<rparr>"

definition sample_i2c_read :: sb_req where
  "sample_i2c_read = RemoteI2cRead \<lparr>ir_num_transactions = 1, ir_port_number = 2,
     ir_transactions = [\<lparr>i2c_dev_id = 0x50, itx_num_bytes = 1, itx_bytes = [0], no_stop_bit = 1, i2c_transaction_delay = 0\<rparr>],
     read_i2c_device_id = 0x50, num_bytes_read = 128\<rparr>"

theorem sideband_req_roundtrip_witness:
  "\<exists>raw'. drm_dp_encode_sideband_req sample_i2c_read zero_tx = Some raw' \<and>
     drm_dp_decode_sideband_req (\<lambda>_. True) raw' = Inr (req_decoded sample_i2c_read) \<and>
     req_decoded sample_i2c_read \<noteq> sample_i2c_read"
proof -
  have v: "req_valid sample_i2c_read" "length (tx_msg zero_tx) = 256" "\<forall>k::nat. (\<lambda>_. True) k"
    by (simp_all add: sample_i2c_read_def zero_tx_def)
  have "drm_dp_encode_sideband_req sample_i2c_read zero_tx \<noteq> None"
    by (simp add: sample_i2c_read_def zero_tx_def drm_dp_encode_sideband_req_def Let_def buf_put_def buf_slice_def encode_i2c_tx_def)
  then obtain raw' where r: "drm_dp_encode_sideband_req sample_i2c_read zero_tx = Some raw'" by blast
  have "req_decoded sample_i2c_read \<noteq> sample_i2c_read" by (simp add: sample_i2c_read_def i2c_tx_decoded_def)
  then show ?thesis using r sideband_req_roundtrip [OF v(1,2) r v(3)] by blast
qed

text \<open>
  the length of a request is not checked against the 256 bytes of the message. A valid request
  whose body is longer than 255 bytes is stored past the message; one of exactly 255 bytes fills it
  and is recorded with the length 0; the length of every shorter one is recorded correctly.
\<close>
theorem sideband_req_length_unchecked:
  assumes "req_valid req" "length (tx_msg (raw :: sb_tx)) = 256"
  shows "(drm_dp_encode_sideband_req req raw = None \<longleftrightarrow> 255 < body_len req) \<and>
    (\<forall>raw'. drm_dp_encode_sideband_req req raw = Some raw' \<longrightarrow>
      unat (cur_len raw') = (if body_len req = 255 then 0 else body_len req + 1))"
proof (intro conjI allI impI)
  obtain bs where bs: "coded req bs" using encode_body_ok [OF assms(1)] by blast
  show "drm_dp_encode_sideband_req req raw = None \<longleftrightarrow> 255 < body_len req"
    by (auto simp: encode_req_fits [OF bs assms(2)])
  fix raw' assume "drm_dp_encode_sideband_req req raw = Some raw'"
  then have "body_len req \<le> 255" "cur_len raw' = word_of_nat (body_len req + 1)"
    using bs by (auto simp: encode_req_fits [OF bs assms(2)] coded_def split: if_splits)
  then show "unat (cur_len raw') = (if body_len req = 255 then 0 else body_len req + 1)"
    by (simp add: unat_of_nat take_bit_eq_mod del: of_nat_Suc of_nat_add)
qed

theorem sideband_req_length_unchecked_witness:
  "drm_dp_encode_sideband_req
     (RemoteDpcdWrite \<lparr>dw_port_number = 1, dw_dpcd_address = 0x300, dw_num_bytes = 252, dw_bytes = replicate 252 7\<rparr>) zero_tx = None"
  by (subst sideband_req_length_unchecked [THEN conjunct1]) (simp_all add: zero_tx_def)

end
