(* ===== verification/Sideband_Reply.thy ===== *)
theory Sideband_Reply
  imports Sideband_Req
begin

text \<open>
  Parsing received sideband messages: the replies to requests (\<open>drm_dp_sideband_parse_reply\<close> and the
  routine of each kind) and the requests a branch sends on its own (\<open>drm_dp_sideband_parse_req\<close>).
  The union of the reply bodies, which is zeroed first, is a datatype; what a parser that gives up
  has already stored is kept, since the caller looks at it. \<open>None\<close> is a read outside the 256 bytes
  of the message or a store outside the array in the reply.
\<close>

section \<open>Bodies of replies\<close>

record la_port =
  input_port :: bool
  peer_device_type :: u8
  la_port_number :: u8
  la_mcs :: bool
  la_ddps :: bool
  legacy_device_plug_status :: bool
  dpcd_revision :: u8
  peer_guid :: "u8 list"
  num_sdp_streams :: u8
  num_sdp_stream_sinks :: u8

definition zero_port :: la_port where
  "zero_port = \<lparr>input_port = False, peer_device_type = 0, la_port_number = 0, la_mcs = False, la_ddps = False,
     legacy_device_plug_status = False, dpcd_revision = 0, peer_guid = replicate 16 0, num_sdp_streams = 0,
     num_sdp_stream_sinks = 0\<rparr>"

record link_address_reply =
  la_guid :: "u8 list"
  nports :: u8
  la_ports :: "la_port list"

record read_ack =
  ra_port_number :: u8
  ra_num_bytes :: u8
  ra_bytes :: "u8 list"

record enum_path_ack =
  ep_port_number :: u8
  fec_capable :: bool
  full_payload_bw_number :: u16
  avail_payload_bw_number :: u16

record allocate_payload_ack =
  aa_port_number :: u8
  aa_vcpi :: u8
  aa_allocated_pbn :: u16

record query_payload_ack =
  qa_port_number :: u8
  qa_allocated_pbn :: u16

record enc_status_ack =
  ea_stream_id :: u8
  reply_signed :: bool
  unauthorizable_device_present :: bool
  legacy_device_present :: bool
  query_capable_device_present :: bool
  hdcp_1x_device_present :: bool
  hdcp_2x_device_present :: bool
  auth_completed :: bool
  encryption_enabled :: bool
  repeater_present :: bool
  ea_state :: u8

datatype reply_body =
    NoBody
  | Nak "u8 list" u8 u8
  | LinkAddressAck link_address_reply
  | RemoteDpcdReadAck read_ack
  | RemoteDpcdWriteAck u8
  | RemoteI2cReadAck read_ack
  | EnumPathAck enum_path_ack
  | AllocatePayloadAck allocate_payload_ack
  | QueryPayloadAck query_payload_ack
  | PowerPhyAck u8
  | EncStatusAck enc_status_ack

record sb_reply =
  reply_type :: u8
  reply_req_type :: u8
  reply_body :: reply_body

section \<open>The parsers of replies\<close>

text \<open>A byte of the message, and the big-endian number two of them make.\<close>

definition byte_at :: "sb_rx \<Rightarrow> nat \<Rightarrow> u8 option" where
  "byte_at raw i = buf_get (rx_msg raw) i"

definition be16_at :: "sb_rx \<Rightarrow> nat \<Rightarrow> u16 option" where
  "be16_at raw i = do { a \<leftarrow> byte_at raw i; b \<leftarrow> byte_at raw (i + 1); Some (push_bit 8 (ucast a) OR ucast b) }"

definition past_end :: "sb_rx \<Rightarrow> nat \<Rightarrow> bool" where
  "past_end raw idx \<longleftrightarrow> unat (curlen raw) < idx"

text \<open>One port of a link address reply, from \<open>idx\<close> on: what is stored, the index reached, the verdict.\<close>

definition parse_port_head :: "u8 \<Rightarrow> la_port \<Rightarrow> la_port" where
  "parse_port_head b p =
     p\<lparr>input_port := (b AND 0x80 \<noteq> 0 \<or> input_port p), peer_device_type := drop_bit 4 b AND 7, la_port_number := b AND 0xf\<rparr>"

definition parse_port_status :: "u8 \<Rightarrow> la_port \<Rightarrow> la_port" where
  "parse_port_status b p =
     p\<lparr>la_mcs := (drop_bit 7 b AND 1 \<noteq> 0), la_ddps := (drop_bit 6 b AND 1 \<noteq> 0),
       legacy_device_plug_status := (if input_port p then legacy_device_plug_status p else drop_bit 5 b AND 1 \<noteq> 0)\<rparr>"

definition parse_port_device :: "sb_rx \<Rightarrow> nat \<Rightarrow> la_port \<Rightarrow> (la_port \<times> nat \<times> bool) option" where
  "parse_port_device raw idx p =
     do { rev \<leftarrow> byte_at raw idx;
          let p = p\<lparr>dpcd_revision := rev\<rparr>;
          if past_end raw (idx + 1) then Some (p, idx + 1, False)
          else do {
            g \<leftarrow> buf_slice (rx_msg raw) (idx + 1) 16;
            let p = p\<lparr>peer_guid := g\<rparr>;
            if past_end raw (idx + 17) then Some (p, idx + 17, False)
            else do {
              b \<leftarrow> byte_at raw (idx + 17);
              Some (p\<lparr>num_sdp_streams := drop_bit 4 b AND 0xf, num_sdp_stream_sinks := b AND 0xf\<rparr>, idx + 18,
                    \<not> past_end raw (idx + 18)) } } }"

definition parse_port :: "sb_rx \<Rightarrow> nat \<Rightarrow> (la_port \<times> nat \<times> bool) option" where
  "parse_port raw idx =
     do { b0 \<leftarrow> byte_at raw idx;
          let p = parse_port_head b0 zero_port;
          if past_end raw (idx + 1) then Some (p, idx + 1, False)
          else do {
            b1 \<leftarrow> byte_at raw (idx + 1);
            let p = parse_port_status b1 p;
            if past_end raw (idx + 2) then Some (p, idx + 2, False)
            else if \<not> input_port p then parse_port_device raw (idx + 2) p
            else Some (p, idx + 2, \<not> past_end raw (idx + 2)) } }"

fun parse_ports :: "nat \<Rightarrow> sb_rx \<Rightarrow> nat \<Rightarrow> (la_port list \<times> bool) option" where
  "parse_ports 0 raw idx = Some ([], True)"
| "parse_ports (Suc n) raw idx =
     do { (p, idx, ok) \<leftarrow> parse_port raw idx;
          if \<not> ok then Some ([p], False)
          else do { (ps, ok) \<leftarrow> parse_ports n raw idx; Some (p # ps, ok) } }"

definition pad_ports :: "la_port list \<Rightarrow> la_port list" where
  "pad_ports ps = ps @ replicate (16 - length ps) zero_port"

definition drm_dp_sideband_parse_link_address :: "sb_rx \<Rightarrow> (reply_body \<times> bool) option" where
  "drm_dp_sideband_parse_link_address raw =
     do { g \<leftarrow> buf_slice (rx_msg raw) 1 16;
          b \<leftarrow> byte_at raw 17;
          let n = b AND 0xf;
          if past_end raw 18 then Some (LinkAddressAck \<lparr>la_guid = g, nports = n, la_ports = pad_ports []\<rparr>, False)
          else do {
            (ps, ok) \<leftarrow> parse_ports (unat n) raw 18;
            Some (LinkAddressAck \<lparr>la_guid = g, nports = n, la_ports = pad_ports ps\<rparr>, ok) } }"

text \<open>\<open>num\<close> bytes copied into the 255 bytes of the reply.\<close>

definition copy_reply :: "sb_rx \<Rightarrow> nat \<Rightarrow> u8 \<Rightarrow> u8 list option" where
  "copy_reply raw idx num =
     do { d \<leftarrow> buf_slice (rx_msg raw) idx (unat num); buf_put (replicate 255 0) 0 d }"

definition drm_dp_sideband_parse_remote_dpcd_read :: "sb_rx \<Rightarrow> (reply_body \<times> bool) option" where
  "drm_dp_sideband_parse_remote_dpcd_read raw =
     do { b1 \<leftarrow> byte_at raw 1;
          let r = \<lparr>ra_port_number = b1 AND 0xf, ra_num_bytes = 0, ra_bytes = replicate 255 0\<rparr>;
          if past_end raw 2 then Some (RemoteDpcdReadAck r, False)
          else do {
            num \<leftarrow> byte_at raw 2;
            let r = r\<lparr>ra_num_bytes := num\<rparr>;
            if past_end raw 3 then Some (RemoteDpcdReadAck r, False)
            else do { d \<leftarrow> copy_reply raw 3 num; Some (RemoteDpcdReadAck (r\<lparr>ra_bytes := d\<rparr>), True) } } }"

definition drm_dp_sideband_parse_remote_dpcd_write :: "sb_rx \<Rightarrow> (reply_body \<times> bool) option" where
  "drm_dp_sideband_parse_remote_dpcd_write raw =
     do { b1 \<leftarrow> byte_at raw 1; Some (RemoteDpcdWriteAck (b1 AND 0xf), \<not> past_end raw 2) }"

definition drm_dp_sideband_parse_remote_i2c_read_ack :: "sb_rx \<Rightarrow> (reply_body \<times> bool) option" where
  "drm_dp_sideband_parse_remote_i2c_read_ack raw =
     do { b1 \<leftarrow> byte_at raw 1;
          let r = \<lparr>ra_port_number = b1 AND 0xf, ra_num_bytes = 0, ra_bytes = replicate 255 0\<rparr>;
          if past_end raw 2 then Some (RemoteI2cReadAck r, False)
          else do {
            num \<leftarrow> byte_at raw 2;
            d \<leftarrow> copy_reply raw 3 num;
            Some (RemoteI2cReadAck (r\<lparr>ra_num_bytes := num, ra_bytes := d\<rparr>), True) } }"

definition drm_dp_sideband_parse_enum_path_resources_ack :: "sb_rx \<Rightarrow> (reply_body \<times> bool) option" where
  "drm_dp_sideband_parse_enum_path_resources_ack raw =
     do { b1 \<leftarrow> byte_at raw 1;
          let r = \<lparr>ep_port_number = drop_bit 4 b1 AND 0xf, fec_capable = (b1 AND 1 \<noteq> 0),
                   full_payload_bw_number = 0, avail_payload_bw_number = 0\<rparr>;
          if past_end raw 2 then Some (EnumPathAck r, False)
          else do {
            f \<leftarrow> be16_at raw 2;
            let r = r\<lparr>full_payload_bw_number := f\<rparr>;
            if past_end raw 4 then Some (EnumPathAck r, False)
            else do { a \<leftarrow> be16_at raw 4; Some (EnumPathAck (r\<lparr>avail_payload_bw_number := a\<rparr>), \<not> past_end raw 6) } } }"

definition drm_dp_sideband_parse_allocate_payload_ack :: "sb_rx \<Rightarrow> (reply_body \<times> bool) option" where
  "drm_dp_sideband_parse_allocate_payload_ack raw =
     do { b1 \<leftarrow> byte_at raw 1;
          let r = \<lparr>aa_port_number = drop_bit 4 b1 AND 0xf, aa_vcpi = 0, aa_allocated_pbn = 0\<rparr>;
          if past_end raw 2 then Some (AllocatePayloadAck r, False)
          else do {
            v \<leftarrow> byte_at raw 2;
            let r = r\<lparr>aa_vcpi := v\<rparr>;
            if past_end raw 3 then Some (AllocatePayloadAck r, False)
            else do { p \<leftarrow> be16_at raw 3; Some (AllocatePayloadAck (r\<lparr>aa_allocated_pbn := p\<rparr>), \<not> past_end raw 5) } } }"

definition drm_dp_sideband_parse_query_payload_ack :: "sb_rx \<Rightarrow> (reply_body \<times> bool) option" where
  "drm_dp_sideband_parse_query_payload_ack raw =
     do { b1 \<leftarrow> byte_at raw 1;
          let r = \<lparr>qa_port_number = drop_bit 4 b1 AND 0xf, qa_allocated_pbn = 0\<rparr>;
          if past_end raw 2 then Some (QueryPayloadAck r, False)
          else do { p \<leftarrow> be16_at raw 2; Some (QueryPayloadAck (r\<lparr>qa_allocated_pbn := p\<rparr>), \<not> past_end raw 4) } }"

definition drm_dp_sideband_parse_power_updown_phy_ack :: "sb_rx \<Rightarrow> (reply_body \<times> bool) option" where
  "drm_dp_sideband_parse_power_updown_phy_ack raw =
     do { b1 \<leftarrow> byte_at raw 1; Some (PowerPhyAck (drop_bit 4 b1 AND 0xf), \<not> past_end raw 2) }"

definition drm_dp_sideband_parse_query_stream_enc_status :: "sb_rx \<Rightarrow> (reply_body \<times> bool) option" where
  "drm_dp_sideband_parse_query_stream_enc_status raw =
     do { b3 \<leftarrow> byte_at raw 3; b2 \<leftarrow> byte_at raw 2; b1 \<leftarrow> byte_at raw 1;
          Some (EncStatusAck
            \<lparr>ea_stream_id = b3, reply_signed = bit b2 0,
             unauthorizable_device_present = bit b2 7, legacy_device_present = bit b2 6,
             query_capable_device_present = bit b2 5,
             hdcp_1x_device_present = bit b2 4, hdcp_2x_device_present = bit b2 3,
             auth_completed = bit b1 3, encryption_enabled = bit b1 4, repeater_present = bit b1 5,
             ea_state = drop_bit 6 (b1 AND 0xc0)\<rparr>, True) }"

text \<open>The parser of a type; \<open>None\<close> is an unknown type.\<close>

definition reply_parser :: "u8 \<Rightarrow> (sb_rx \<Rightarrow> (reply_body \<times> bool) option) option" where
  "reply_parser t =
     (if t = 0x01 then Some drm_dp_sideband_parse_link_address
      else if t = 0x12 then Some drm_dp_sideband_parse_query_payload_ack
      else if t = 0x20 then Some drm_dp_sideband_parse_remote_dpcd_read
      else if t = 0x21 then Some drm_dp_sideband_parse_remote_dpcd_write
      else if t = 0x22 then Some drm_dp_sideband_parse_remote_i2c_read_ack
      else if t = 0x23 then Some (\<lambda>_. Some (NoBody, True))
      else if t = 0x10 then Some drm_dp_sideband_parse_enum_path_resources_ack
      else if t = 0x11 then Some drm_dp_sideband_parse_allocate_payload_ack
      else if t = 0x25 \<or> t = 0x24 then Some drm_dp_sideband_parse_power_updown_phy_ack
      else if t = 0x14 then Some (\<lambda>_. Some (NoBody, True))
      else if t = 0x38 then Some drm_dp_sideband_parse_query_stream_enc_status
      else None)"

definition drm_dp_sideband_parse_reply :: "sb_rx \<Rightarrow> (sb_reply \<times> bool) option" where
  "drm_dp_sideband_parse_reply raw =
     do { b0 \<leftarrow> byte_at raw 0;
          let r = \<lparr>reply_type = drop_bit 7 (b0 AND 0x80), reply_req_type = b0 AND 0x7f, reply_body = NoBody\<rparr>;
          if reply_type r = 1 then
            do { g \<leftarrow> buf_slice (rx_msg raw) 1 16; reason \<leftarrow> byte_at raw 17; d \<leftarrow> byte_at raw 18;
                 Some (r\<lparr>reply_body := Nak g reason d\<rparr>, False) }
          else case reply_parser (reply_req_type r) of
                 None \<Rightarrow> Some (r, False)
               | Some parse \<Rightarrow> do { (b, ok) \<leftarrow> parse raw; Some (r\<lparr>reply_body := b\<rparr>, ok) } }"

section \<open>The parsers of requests\<close>

record connection_status =
  cs_guid :: "u8 list"
  cs_port_number :: u8
  cs_legacy_device_plug_status :: bool
  displayport_device_plug_status :: bool
  message_capability_status :: bool
  cs_input_port :: bool
  cs_peer_device_type :: u8

record resource_status =
  rs_port_number :: u8
  rs_guid :: "u8 list"
  available_pbn :: u16

datatype up_req =
    NoUpReq
  | ConnectionStatus connection_status
  | ResourceStatus resource_status

definition drm_dp_sideband_parse_connection_status_notify :: "sb_rx \<Rightarrow> (up_req \<times> bool) option" where
  "drm_dp_sideband_parse_connection_status_notify raw =
     do { b1 \<leftarrow> byte_at raw 1;
          let r = \<lparr>cs_guid = replicate 16 0, cs_port_number = drop_bit 4 (b1 AND 0xf0), cs_legacy_device_plug_status = False,
                   displayport_device_plug_status = False, message_capability_status = False, cs_input_port = False,
                   cs_peer_device_type = 0\<rparr>;
          if past_end raw 2 then Some (ConnectionStatus r, False)
          else do {
            g \<leftarrow> buf_slice (rx_msg raw) 2 16;
            let r = r\<lparr>cs_guid := g\<rparr>;
            if past_end raw 18 then Some (ConnectionStatus r, False)
            else do {
              b \<leftarrow> byte_at raw 18;
              Some (ConnectionStatus
                (r\<lparr>cs_legacy_device_plug_status := (drop_bit 6 b AND 1 \<noteq> 0),
                   displayport_device_plug_status := (drop_bit 5 b AND 1 \<noteq> 0),
                   message_capability_status := (drop_bit 4 b AND 1 \<noteq> 0),
                   cs_input_port := (drop_bit 3 b AND 1 \<noteq> 0), cs_peer_device_type := b AND 7\<rparr>), True) } } }"

definition drm_dp_sideband_parse_resource_status_notify :: "sb_rx \<Rightarrow> (up_req \<times> bool) option" where
  "drm_dp_sideband_parse_resource_status_notify raw =
     do { b1 \<leftarrow> byte_at raw 1;
          let r = \<lparr>rs_port_number = drop_bit 4 (b1 AND 0xf0), rs_guid = replicate 16 0, available_pbn = 0\<rparr>;
          if past_end raw 2 then Some (ResourceStatus r, False)
          else do {
            g \<leftarrow> buf_slice (rx_msg raw) 2 16;
            let r = r\<lparr>rs_guid := g\<rparr>;
            if past_end raw 18 then Some (ResourceStatus r, False)
            else do { p \<leftarrow> be16_at raw 18; Some (ResourceStatus (r\<lparr>available_pbn := p\<rparr>), True) } } }"

definition drm_dp_sideband_parse_req :: "sb_rx \<Rightarrow> (u8 \<times> up_req \<times> bool) option" where
  "drm_dp_sideband_parse_req raw =
     do { b0 \<leftarrow> byte_at raw 0;
          let t = b0 AND 0x7f;
          if t = 0x02 then do { (b, ok) \<leftarrow> drm_dp_sideband_parse_connection_status_notify raw; Some (t, b, ok) }
          else if t = 0x13 then do { (b, ok) \<leftarrow> drm_dp_sideband_parse_resource_status_notify raw; Some (t, b, ok) }
          else Some (t, NoUpReq, False) }"

end
