(* ===== verification/Sideband_Reply_Props.thy ===== *)
theory Sideband_Reply_Props
  imports Sideband_Reply Sideband_Req_Props
begin

text \<open>
  What the parsers of received messages promise: a link address reply, laid out as the
  DisplayPort standard has it, is read back and a truncated one refused; which replies make the
  parser read past the message; and which replies are built from received bytes only.
\<close>

section \<open>Reading the message\<close>

lemma byte_at_Some: "byte_at raw i = Some b \<longleftrightarrow> i < length (rx_msg raw) \<and> b = rx_msg raw ! i"
  by (simp add: byte_at_def buf_simps)

lemma byte_at_total: "i < length (rx_msg raw) \<Longrightarrow> byte_at raw i = Some (rx_msg raw ! i)"
  by (simp add: byte_at_Some)

lemma byte_at_mid: "rx_msg raw = pre @ b # rest \<Longrightarrow> i = length pre \<Longrightarrow> byte_at raw i = Some b"
  by (simp add: byte_at_def buf_get_def)

lemma slice_mid: "rx_msg raw = pre @ xs @ rest \<Longrightarrow> i = length pre \<Longrightarrow> n = length xs \<Longrightarrow> buf_slice (rx_msg raw) i n = Some xs"
  by (simp add: buf_slice_mid)

section \<open>The layout of a link address reply\<close>

definition port_head_byte :: "la_port \<Rightarrow> u8" where
  "port_head_byte p = (if input_port p then 0x80 else 0) OR push_bit 4 (peer_device_type p) OR la_port_number p"

definition port_status_byte :: "la_port \<Rightarrow> u8" where
  "port_status_byte p = (if la_mcs p then 0x80 else 0) OR (if la_ddps p then 0x40 else 0) OR
     (if legacy_device_plug_status p then 0x20 else 0)"

definition port_bytes :: "la_port \<Rightarrow> u8 list" where
  "port_bytes p = [port_head_byte p, port_status_byte p] @
     (if input_port p then []
      else [dpcd_revision p] @ peer_guid p @ [push_bit 4 (num_sdp_streams p) OR num_sdp_stream_sinks p])"

definition link_address_bytes :: "link_address_reply \<Rightarrow> u8 list" where
  "link_address_bytes r = [0x01] @ la_guid r @ [nports r] @ concat (map port_bytes (take (unat (nports r)) (la_ports r)))"

text \<open>An input port has none of the fields of a device behind it.\<close>

definition port_valid :: "la_port \<Rightarrow> bool" where
  "port_valid p \<longleftrightarrow> peer_device_type p < 8 \<and> la_port_number p < 16 \<and> num_sdp_streams p < 16 \<and> num_sdp_stream_sinks p < 16 \<and>
     length (peer_guid p) = 16 \<and>
     (input_port p \<longrightarrow> \<not> legacy_device_plug_status p \<and> dpcd_revision p = 0 \<and> peer_guid p = replicate 16 0 \<and>
        num_sdp_streams p = 0 \<and> num_sdp_stream_sinks p = 0)"

definition link_address_valid :: "link_address_reply \<Rightarrow> bool" where
  "link_address_valid r \<longleftrightarrow> length (la_guid r) = 16 \<and> nports r < 16 \<and> unat (nports r) \<le> length (la_ports r) \<and>
     list_all port_valid (take (unat (nports r)) (la_ports r)) \<and>
     la_ports r = pad_ports (take (unat (nports r)) (la_ports r))"

lemma low3: "(x::u8) < 8 \<Longrightarrow> x AND 7 = x"
  using fitsI [of x 3] by (auto simp: field_simps8 dest: fits_bit intro!: bit_word_eqI)

lemma split_fields:
  assumes "(d::u8) < 8" "(n::u8) < 16"
  shows "((if b then 0x80 else 0) OR push_bit 4 d OR n) AND 0x80 \<noteq> 0 \<longleftrightarrow> b"
    "drop_bit 4 ((if b then 0x80 else 0) OR push_bit 4 d OR n) AND 7 = d"
    "((if b then 0x80 else 0) OR push_bit 4 d OR n) AND 0xf = n"
proof -
  have f: "fits 3 d" "fits 4 n" using assms fitsI [of d 3] by (auto intro: fits_numeral)
  have b: "bit (0x80::u8) m \<longleftrightarrow> m = 7" for m
    using bit_exp_iff [of 7 m, where 'a = "u8"] by (auto simp: possible_bit_def)
  show "((if b then 0x80 else 0) OR push_bit 4 d OR n) AND 0x80 \<noteq> 0 \<longleftrightarrow> b"
    unfolding and_bit_nonzero(4) using f by (auto simp: bit_or_iff bit_push_bit_iff b bit_consts dest: fits_bit)
  show "drop_bit 4 ((if b then 0x80 else 0) OR push_bit 4 d OR n) AND 7 = d"
    using f by (intro bit_word_eqI) (auto simp: and_masks bit_take_bit_iff bit_drop_bit_eq bit_or_iff bit_push_bit_iff b bit_consts dest: fits_bit)
  show "((if b then 0x80 else 0) OR push_bit 4 d OR n) AND 0xf = n"
    using f by (intro bit_word_eqI) (auto simp: and_masks bit_take_bit_iff bit_or_iff bit_push_bit_iff b bit_consts dest: fits_bit)
qed

lemma status_fields:
  defines "s m d l \<equiv> (if m then 0x80 else 0) OR (if d then 0x40 else 0) OR (if l then 0x20 else (0::u8))"
  shows "drop_bit 7 (s m d l) AND 1 \<noteq> 0 \<longleftrightarrow> m" "drop_bit 6 (s m d l) AND 1 \<noteq> 0 \<longleftrightarrow> d" "drop_bit 5 (s m d l) AND 1 \<noteq> 0 \<longleftrightarrow> l"
  unfolding s_def by (cases m; cases d; cases l; simp)+

lemma stream_fields:
  assumes "(a::u8) < 16" "(b::u8) < 16"
  shows "drop_bit 4 (push_bit 4 a OR b) AND 0xf = a" "(push_bit 4 a OR b) AND 0xf = b"
  using nibble_fields [OF assms] unfolding low_nibble [OF assms(1)] low_nibble [OF assms(2)] by simp_all

lemma port_head_ok:
  "port_valid p \<Longrightarrow> parse_port_head (port_head_byte p) zero_port =
    zero_port\<lparr>input_port := input_port p, peer_device_type := peer_device_type p, la_port_number := la_port_number p\<rparr>"
  unfolding parse_port_head_def port_head_byte_def port_valid_def by (simp only: split_fields) (simp add: zero_port_def)

lemma port_status_ok:
  "parse_port_status (port_status_byte p) q =
    q\<lparr>la_mcs := la_mcs p, la_ddps := la_ddps p,
      legacy_device_plug_status := (if input_port q then legacy_device_plug_status q else legacy_device_plug_status p)\<rparr>"
  unfolding parse_port_status_def port_status_byte_def status_fields ..

section \<open>Parsing one port\<close>

lemma head_reads:
  assumes "rx_msg raw = pre @ port_bytes p @ rest" "i = length pre"
  shows "byte_at raw i = Some (port_head_byte p)" "byte_at raw (i + 1) = Some (port_status_byte p)"
  using assms byte_at_mid [of raw pre "port_head_byte p"] byte_at_mid [of raw "pre @ [port_head_byte p]" "port_status_byte p"]
  by (simp_all add: port_bytes_def)

lemma device_reads:
  assumes "rx_msg raw = pre @ port_bytes p @ rest" "i = length pre" "\<not> input_port p" "length (peer_guid p) = 16"
  shows "byte_at raw (i + 2) = Some (dpcd_revision p)" "buf_slice (rx_msg raw) (i + 2 + 1) 16 = Some (peer_guid p)"
    "byte_at raw (i + 2 + 17) = Some (push_bit 4 (num_sdp_streams p) OR num_sdp_stream_sinks p)"
proof -
  let ?s = "push_bit 4 (num_sdp_streams p) OR num_sdp_stream_sinks p"
  let ?hd = "pre @ [port_head_byte p, port_status_byte p]"
  show "byte_at raw (i + 2) = Some (dpcd_revision p)" "buf_slice (rx_msg raw) (i + 2 + 1) 16 = Some (peer_guid p)"
    "byte_at raw (i + 2 + 17) = Some ?s"
    using assms byte_at_mid [of raw ?hd "dpcd_revision p"]
      slice_mid [of raw "?hd @ [dpcd_revision p]" "peer_guid p" "[?s] @ rest"]
      byte_at_mid [of raw "?hd @ [dpcd_revision p] @ peer_guid p" ?s rest]
    by (simp_all add: port_bytes_def add.commute)
qed

lemma parse_port_ok:
  assumes "port_valid p" "rx_msg raw = pre @ port_bytes p @ rest" "i = length pre" "length pre + length (port_bytes p) \<le> unat (curlen raw)"
  shows "parse_port raw i = Some (p, i + length (port_bytes p), True)"
proof -
  let ?q = "zero_port\<lparr>input_port := input_port p, peer_device_type := peer_device_type p, la_port_number := la_port_number p\<rparr>"
  note h = head_reads [OF assms(2,3)]
  have n: "\<not> past_end raw (i + 1)" "\<not> past_end raw (i + 2)"
    using assms(3,4) by (simp_all add: past_end_def port_bytes_def split: if_splits)
  show ?thesis
  proof (cases "input_port p")
    case True
    then show ?thesis using assms(1,4) n
      unfolding parse_port_def h Option.bind.simps Let_def port_head_ok [OF assms(1)] port_status_ok
      by (cases p) (simp add: zero_port_def port_valid_def port_bytes_def)
  next
    case False
    let ?s = "push_bit 4 (num_sdp_streams p) OR num_sdp_stream_sinks p"
    have v: "num_sdp_streams p < 16" "num_sdp_stream_sinks p < 16" "length (peer_guid p) = 16"
      using assms(1) by (simp_all add: port_valid_def)
    have l: "length (port_bytes p) = 20" using False v by (simp add: port_bytes_def)
    note d = device_reads [OF assms(2,3) False v(3)]
    have e: "\<not> past_end raw (i + 2 + 1)" "\<not> past_end raw (i + 2 + 17)" "\<not> past_end raw (i + 2 + 18)"
      using assms(3,4) l by (simp_all add: past_end_def)
    show ?thesis using False l n d e stream_fields [OF v(1,2)]
      unfolding parse_port_def h Option.bind.simps Let_def port_head_ok [OF assms(1)] port_status_ok
      by (simp add: parse_port_device_def zero_port_def)
  qed
qed


text \<open>A port that is cut off is refused.\<close>

lemma parse_port_cut:
  assumes "port_valid p" "rx_msg raw = pre @ port_bytes p @ rest" "i = length pre" "length pre \<le> unat (curlen raw)"
    "unat (curlen raw) < length pre + length (port_bytes p)"
  shows "\<exists>q j. parse_port raw i = Some (q, j, False)"
proof -
  let ?q = "zero_port\<lparr>input_port := input_port p, peer_device_type := peer_device_type p, la_port_number := la_port_number p\<rparr>"
  note h = head_reads [OF assms(2,3)]
  show ?thesis
  proof (cases "input_port p")
    case True
    then have "past_end raw (i + 2)" using assms(3,5) by (simp add: past_end_def port_bytes_def)
    then show ?thesis using True
      unfolding parse_port_def h Option.bind.simps Let_def port_head_ok [OF assms(1)] port_status_ok by simp
  next
    case False
    let ?s = "push_bit 4 (num_sdp_streams p) OR num_sdp_stream_sinks p"
    have v: "length (peer_guid p) = 16" using assms(1) by (simp add: port_valid_def)
    note d = device_reads [OF assms(2,3) False v]
    have "past_end raw (i + 2 + 18)" using False assms(3,5) v by (simp add: past_end_def port_bytes_def)
    then show ?thesis using False d
      unfolding parse_port_def h Option.bind.simps Let_def port_head_ok [OF assms(1)] port_status_ok
      by (simp add: parse_port_device_def Let_def)
  qed
qed

section \<open>Parsing the ports and the reply\<close>

abbreviation ports_bytes :: "la_port list \<Rightarrow> u8 list" where
  "ports_bytes ps \<equiv> concat (map port_bytes ps)"

lemma parse_ports_ok:
  assumes "list_all port_valid ps" "rx_msg raw = pre @ ports_bytes ps @ rest" "i = length pre"
    "length pre + length (ports_bytes ps) \<le> unat (curlen raw)"
  shows "parse_ports (length ps) raw i = Some (ps, True)"
  using assms
proof (induction ps arbitrary: pre i)
  case Nil
  then show ?case by simp
next
  case (Cons p ps)
  have "parse_port raw i = Some (p, i + length (port_bytes p), True)"
    using Cons.prems by (intro parse_port_ok [where rest = "ports_bytes ps @ rest"]) auto
  moreover have "parse_ports (length ps) raw (i + length (port_bytes p)) = Some (ps, True)"
    using Cons.prems by (intro Cons.IH [where pre = "pre @ port_bytes p"]) auto
  ultimately show ?case by simp
qed

lemma parse_ports_cut:
  assumes "list_all port_valid ps" "rx_msg raw = pre @ ports_bytes ps @ rest" "i = length pre" "length pre \<le> unat (curlen raw)"
    "unat (curlen raw) < length pre + length (ports_bytes ps)"
  shows "\<exists>qs. parse_ports (length ps) raw i = Some (qs, False)"
  using assms
proof (induction ps arbitrary: pre i)
  case Nil
  then show ?case by simp
next
  case (Cons p ps)
  show ?case
  proof (cases "length pre + length (port_bytes p) \<le> unat (curlen raw)")
    case True
    have "parse_port raw i = Some (p, i + length (port_bytes p), True)"
      using Cons.prems True by (intro parse_port_ok [where rest = "ports_bytes ps @ rest"]) auto
    moreover have "\<exists>qs. parse_ports (length ps) raw (i + length (port_bytes p)) = Some (qs, False)"
      using Cons.prems True by (intro Cons.IH [where pre = "pre @ port_bytes p"]) auto
    ultimately show ?thesis by auto
  next
    case False
    have "\<exists>q j. parse_port raw i = Some (q, j, False)"
      using Cons.prems False by (intro parse_port_cut [where pre = pre and rest = "ports_bytes ps @ rest"]) auto
    then show ?thesis by auto
  qed
qed

lemma link_address_head:
  assumes "link_address_valid r" "rx_msg raw = link_address_bytes r @ rest"
  shows "byte_at raw 0 = Some 1" "buf_slice (rx_msg raw) 1 16 = Some (la_guid r)" "byte_at raw 17 = Some (nports r)"
    "nports r AND 0xf = nports r"
proof -
  have l: "length (la_guid r) = 16" using assms(1) by (simp add: link_address_valid_def)
  show "byte_at raw 0 = Some 1" "nports r AND 0xf = nports r"
    using assms byte_at_mid [of raw "[]"] low_nibble [of "nports r"]
    by (simp_all add: link_address_bytes_def link_address_valid_def)
  show "buf_slice (rx_msg raw) 1 16 = Some (la_guid r)"
    using assms(2) l slice_mid [of raw "[1]" "la_guid r"] by (simp add: link_address_bytes_def)
  show "byte_at raw 17 = Some (nports r)"
    using assms(2) l byte_at_mid [of raw "1 # la_guid r" "nports r"] by (simp add: link_address_bytes_def)
qed

section \<open>Reads inside the message\<close>

lemmas parser_defs = drm_dp_sideband_parse_query_payload_ack_def drm_dp_sideband_parse_remote_dpcd_write_def
  drm_dp_sideband_parse_enum_path_resources_ack_def drm_dp_sideband_parse_allocate_payload_ack_def
  drm_dp_sideband_parse_power_updown_phy_ack_def

lemmas read_ack_defs = drm_dp_sideband_parse_remote_dpcd_read_def drm_dp_sideband_parse_remote_i2c_read_ack_def

lemma byte_at_256: "length (rx_msg raw) = 256 \<Longrightarrow> byte_at raw i = (if i < 256 then Some (rx_msg raw ! i) else None)"
  by (simp add: byte_at_def buf_get_def)

lemma slice_256: "length (rx_msg raw) = 256 \<Longrightarrow> buf_slice (rx_msg raw) i n = (if i + n \<le> 256 then Some (take n (drop i (rx_msg raw))) else None)"
  by (simp add: buf_slice_def)

lemma be16_256: "length (rx_msg raw) = 256 \<Longrightarrow> i < 255 \<Longrightarrow>
    be16_at raw i = Some (push_bit 8 (ucast (rx_msg raw ! i)) OR ucast (rx_msg raw ! (i + 1)))"
  by (simp add: be16_at_def byte_at_256)

lemma parse_port_total:
  assumes "length (rx_msg raw) = 256" "unat (curlen raw) \<le> 239" "i \<le> unat (curlen raw)"
  shows "\<exists>p j ok. parse_port raw i = Some (p, j, ok) \<and> (ok \<longrightarrow> j \<le> unat (curlen raw))"
  using assms(2,3) by (auto simp: parse_port_def parse_port_device_def Let_def byte_at_256 [OF assms(1)] slice_256 [OF assms(1)] past_end_def)

lemma parse_ports_total:
  assumes "length (rx_msg raw) = 256" "unat (curlen raw) \<le> 239" "i \<le> unat (curlen raw)"
  shows "parse_ports n raw i \<noteq> None"
  using assms(3)
proof (induction n arbitrary: i)
  case 0
  then show ?case by simp
next
  case (Suc n)
  obtain p j ok where p: "parse_port raw i = Some (p, j, ok)" "ok \<longrightarrow> j \<le> unat (curlen raw)"
    using parse_port_total [OF assms(1,2) Suc.prems] by blast
  show ?case
  proof (cases ok)
    case True
    then show ?thesis using p Suc.IH [of j] by auto
  qed (simp add: p)
qed

lemma link_address_total:
  assumes "length (rx_msg raw) = 256" "unat (curlen raw) \<le> 239"
  shows "drm_dp_sideband_parse_link_address raw \<noteq> None"
  using parse_ports_total [OF assms, of 18 "unat (rx_msg raw ! 17 AND 0xf)"]
  by (cases "parse_ports (unat (rx_msg raw ! 17 AND 0xf)) raw 18"; cases "18 \<le> unat (curlen raw)")
    (auto simp: drm_dp_sideband_parse_link_address_def Let_def byte_at_256 [OF assms(1)] slice_256 [OF assms(1)] past_end_def)

lemma copy_reply_None:
  "length (rx_msg raw) = 256 \<Longrightarrow> copy_reply raw 3 num = None \<longleftrightarrow> 253 < unat num"
  using unsigned_less [of num, where 'a = nat] by (auto simp: copy_reply_def slice_256 buf_put_def)

text \<open>The kind and the two bytes that decide whether the copy of a read reply stays inside the message.\<close>

definition read_overrun :: "sb_rx \<Rightarrow> bool" where
  "read_overrun raw \<longleftrightarrow> rx_msg raw ! 0 AND 0x80 = 0 \<and> 253 < unat (rx_msg raw ! 2) \<and>
     (rx_msg raw ! 0 AND 0x7f = 0x20 \<and> 3 \<le> unat (curlen raw) \<or> rx_msg raw ! 0 AND 0x7f = 0x22 \<and> 2 \<le> unat (curlen raw))"

lemma reply_type_bit: "drop_bit 7 ((b::u8) AND 0x80) = 1 \<longleftrightarrow> b AND 0x80 \<noteq> 0" "drop_bit 7 (b AND 0x80) = 0 \<longleftrightarrow> b AND 0x80 = 0"
proof -
  have "b AND 0x80 = 0 \<or> b AND 0x80 = 0x80"
    using and_exp_eq_0_iff_not_bit [of b 7] by (cases "bit b 7") (auto intro!: bit_word_eqI simp: bit_simps bit_consts)
  then have "drop_bit 7 (b AND 0x80) = 0 \<and> b AND 0x80 = 0 \<or> drop_bit 7 (b AND 0x80) = 1 \<and> b AND 0x80 \<noteq> 0"
    by (elim disjE; simp only:; simp)
  then show "drop_bit 7 (b AND 0x80) = 1 \<longleftrightarrow> b AND 0x80 \<noteq> 0" "drop_bit 7 (b AND 0x80) = 0 \<longleftrightarrow> b AND 0x80 = 0"
    by (metis zero_neq_one)+
qed

lemma short_acks_total:
  assumes "length (rx_msg raw) = 256"
  shows "drm_dp_sideband_parse_query_payload_ack raw \<noteq> None" "drm_dp_sideband_parse_remote_dpcd_write raw \<noteq> None"
    "drm_dp_sideband_parse_enum_path_resources_ack raw \<noteq> None" "drm_dp_sideband_parse_allocate_payload_ack raw \<noteq> None"
    "drm_dp_sideband_parse_power_updown_phy_ack raw \<noteq> None" "drm_dp_sideband_parse_query_stream_enc_status raw \<noteq> None"
  unfolding parser_defs drm_dp_sideband_parse_query_stream_enc_status_def Let_def
  by (auto simp: byte_at_256 [OF assms] be16_256 [OF assms])

lemma dpcd_read_None:
  assumes "length (rx_msg raw) = 256"
  shows "drm_dp_sideband_parse_remote_dpcd_read raw = None \<longleftrightarrow> 3 \<le> unat (curlen raw) \<and> 253 < unat (rx_msg raw ! 2)"
  using copy_reply_None [OF assms, of "rx_msg raw ! 2"]
  by (cases "copy_reply raw 3 (rx_msg raw ! 2)")
    (auto simp: drm_dp_sideband_parse_remote_dpcd_read_def Let_def byte_at_256 [OF assms] past_end_def)

lemma i2c_read_None:
  assumes "length (rx_msg raw) = 256"
  shows "drm_dp_sideband_parse_remote_i2c_read_ack raw = None \<longleftrightarrow> 2 \<le> unat (curlen raw) \<and> 253 < unat (rx_msg raw ! 2)"
  using copy_reply_None [OF assms, of "rx_msg raw ! 2"]
  by (cases "copy_reply raw 3 (rx_msg raw ! 2)")
    (auto simp: drm_dp_sideband_parse_remote_i2c_read_ack_def Let_def byte_at_256 [OF assms] past_end_def)

lemma parser_None:
  assumes "length (rx_msg raw) = 256" "unat (curlen raw) \<le> 239" "reply_parser t = Some parse"
  shows "parse raw = None \<longleftrightarrow> 253 < unat (rx_msg raw ! 2) \<and>
    (t = 0x20 \<and> 3 \<le> unat (curlen raw) \<or> t = 0x22 \<and> 2 \<le> unat (curlen raw))"
proof (cases "t = 0x20 \<or> t = 0x22")
  case True
  then show ?thesis
    using assms(3) dpcd_read_None [OF assms(1)] i2c_read_None [OF assms(1)] by (auto simp: reply_parser_def)
next
  case False
  then have "parse raw \<noteq> None"
    using assms(3) short_acks_total [OF assms(1)] link_address_total [OF assms(1,2)]
    unfolding reply_parser_def by (auto split: if_splits simp del: not_None_eq)
  then show ?thesis using False by blast
qed

section \<open>What a reply is built from\<close>

text \<open>Two messages that agree on the bytes received.\<close>

definition same_received :: "sb_rx \<Rightarrow> sb_rx \<Rightarrow> bool" where
  "same_received r1 r2 \<longleftrightarrow> length (rx_msg r1) = 256 \<and> length (rx_msg r2) = 256 \<and> curlen r1 = curlen r2 \<and>
     take (unat (curlen r1)) (rx_msg r1) = take (unat (curlen r1)) (rx_msg r2)"

lemma same_past_end: "same_received r1 r2 \<Longrightarrow> past_end r2 i = past_end r1 i"
  by (simp add: same_received_def past_end_def)

lemma same_byte:
  assumes "same_received r1 r2" "\<not> past_end r1 (Suc i)"
  shows "byte_at r2 i = byte_at r1 i"
proof -
  have "rx_msg r2 ! i = rx_msg r1 ! i"
    using assms unfolding same_received_def past_end_def by (metis not_less_eq nth_take)
  then show ?thesis using assms(1) by (simp add: byte_at_def buf_get_def same_received_def)
qed

lemma same_slice:
  assumes "same_received r1 r2" "\<not> past_end r1 (i + n)"
  shows "buf_slice (rx_msg r2) i n = buf_slice (rx_msg r1) i n"
proof -
  let ?c = "unat (curlen r1)"
  have c: "take n (drop i (rx_msg r)) = take n (drop i (take ?c (rx_msg r)))" for r
    using assms(2) by (simp add: past_end_def drop_take)
  have "take ?c (rx_msg r2) = take ?c (rx_msg r1)" using assms(1) unfolding same_received_def by metis
  then have "take n (drop i (rx_msg r2)) = take n (drop i (rx_msg r1))"
    using c [of r1] c [of r2] by simp
  then show ?thesis using assms(1) by (simp add: buf_slice_def same_received_def)
qed

lemma past_end_le: "\<not> past_end r j \<Longrightarrow> i \<le> j \<Longrightarrow> \<not> past_end r i"
  by (simp add: past_end_def)

lemma same_be16:
  assumes "same_received r1 r2" "\<not> past_end r1 (i + 2)"
  shows "be16_at r2 i = be16_at r1 i"
  using same_byte [OF assms(1), of i] same_byte [OF assms(1), of "i + 1"] assms(2) past_end_le [OF assms(2), of "Suc i"]
  by (simp add: be16_at_def)

lemma same_device:
  assumes "same_received r1 r2" "parse_port_device r1 i p = Some (q, j, True)"
  shows "parse_port_device r2 i p = Some (q, j, True) \<and> \<not> past_end r1 j"
proof -
  obtain a g b where r: "byte_at r1 i = Some a" "buf_slice (rx_msg r1) (i + 1) 16 = Some g" "byte_at r1 (i + 17) = Some b"
      "\<not> past_end r1 (i + 18)" "j = i + 18"
      "q = p\<lparr>dpcd_revision := a, peer_guid := g, num_sdp_streams := drop_bit 4 b AND 0xf, num_sdp_stream_sinks := b AND 0xf\<rparr>"
    using assms(2) by (auto simp: parse_port_device_def Let_def bind_eq_Some_conv split: if_splits)
  have "byte_at r2 i = Some a" "byte_at r2 (i + 17) = Some b"
    using same_byte [OF assms(1)] past_end_le [OF r(4)] r(1,3) by simp_all
  moreover have "buf_slice (rx_msg r2) (i + 1) 16 = Some g"
    using same_slice [OF assms(1), of "i + 1" 16] past_end_le [OF r(4)] r(2) by simp
  ultimately show ?thesis
    using r(4-6) past_end_le [OF r(4)]
    unfolding parse_port_device_def same_past_end [OF assms(1)] by (simp add: Let_def)
qed

lemma same_port:
  assumes "same_received r1 r2" "parse_port r1 i = Some (q, j, True)"
  shows "parse_port r2 i = Some (q, j, True) \<and> \<not> past_end r1 j"
proof -
  obtain b0 b1 where b: "byte_at r1 i = Some b0" "byte_at r1 (i + 1) = Some b1" "\<not> past_end r1 (i + 1)" "\<not> past_end r1 (i + 2)"
    using assms(2) by (auto simp: parse_port_def Let_def bind_eq_Some_conv split: if_splits)
  then have "byte_at r2 i = Some b0" "byte_at r2 (i + 1) = Some b1"
    using same_byte [OF assms(1), of i] same_byte [OF assms(1), of "i + 1"] by simp_all
  then show ?thesis
    using assms(2) b same_device [OF assms(1)]
    unfolding parse_port_def same_past_end [OF assms(1)] by (auto simp: Let_def split: if_splits)
qed

lemma same_ports:
  assumes "same_received r1 r2" "parse_ports n r1 i = Some (ps, True)"
  shows "parse_ports n r2 i = Some (ps, True)"
  using assms(2)
proof (induction n arbitrary: i ps)
  case (Suc n)
  then obtain p j qs where p: "parse_port r1 i = Some (p, j, True)" "parse_ports n r1 j = Some (qs, True)" "ps = p # qs"
    by (auto simp: bind_eq_Some_conv split: if_splits)
  then show ?case using same_port [OF assms(1) p(1)] Suc.IH [OF p(2)] by simp
qed simp

lemma same_link_address:
  assumes "same_received r1 r2" "drm_dp_sideband_parse_link_address r1 = Some (b, True)"
  shows "drm_dp_sideband_parse_link_address r2 = Some (b, True)"
proof -
  obtain g n ps where r: "buf_slice (rx_msg r1) 1 16 = Some g" "byte_at r1 17 = Some n" "\<not> past_end r1 18"
      "parse_ports (unat (n AND 0xf)) r1 18 = Some (ps, True)"
    using assms(2) by (auto simp: drm_dp_sideband_parse_link_address_def Let_def bind_eq_Some_conv split: if_splits)
  have "buf_slice (rx_msg r2) 1 16 = Some g" "byte_at r2 17 = Some n"
    using same_slice [OF assms(1), of 1 16] same_byte [OF assms(1), of 17] r(1,2) past_end_le [OF r(3)] by simp_all
  then show ?thesis
    using assms(2) r same_ports [OF assms(1) r(4)]
    unfolding drm_dp_sideband_parse_link_address_def same_past_end [OF assms(1)] by simp
qed

lemma same_short:
  assumes "same_received r1 r2"
  shows "drm_dp_sideband_parse_query_payload_ack r1 = Some (b, True) \<Longrightarrow> drm_dp_sideband_parse_query_payload_ack r2 = Some (b, True)"
    "drm_dp_sideband_parse_remote_dpcd_write r1 = Some (b, True) \<Longrightarrow> drm_dp_sideband_parse_remote_dpcd_write r2 = Some (b, True)"
    "drm_dp_sideband_parse_enum_path_resources_ack r1 = Some (b, True) \<Longrightarrow> drm_dp_sideband_parse_enum_path_resources_ack r2 = Some (b, True)"
    "drm_dp_sideband_parse_allocate_payload_ack r1 = Some (b, True) \<Longrightarrow> drm_dp_sideband_parse_allocate_payload_ack r2 = Some (b, True)"
    "drm_dp_sideband_parse_power_updown_phy_ack r1 = Some (b, True) \<Longrightarrow> drm_dp_sideband_parse_power_updown_phy_ack r2 = Some (b, True)"
  unfolding parser_defs same_past_end [OF assms] Let_def
  using same_byte [OF assms, of 1] same_byte [OF assms, of 2] same_be16 [OF assms, of 2] same_be16 [OF assms, of 3] same_be16 [OF assms, of 4]
  by (auto simp: bind_eq_Some_conv numeral_eq_Suc split: if_splits)

text \<open>The kinds of reply whose parsers check the whole of what they read.\<close>

definition checked_kinds :: "u8 list" where
  "checked_kinds = [0x01, 0x10, 0x11, 0x12, 0x14, 0x21, 0x23, 0x24, 0x25]"

lemma same_parser:
  assumes "same_received r1 r2" "t \<in> set checked_kinds" "reply_parser t = Some parse" "parse r1 = Some (b, True)"
  shows "parse r2 = Some (b, True)"
proof -
  have k: "t = 0x01 \<or> t = 0x10 \<or> t = 0x11 \<or> t = 0x12 \<or> t = 0x14 \<or> t = 0x21 \<or> t = 0x23 \<or> t = 0x24 \<or> t = 0x25"
    using assms(2) by (simp add: checked_kinds_def)
  show ?thesis
    using k assms(3,4) same_short [OF assms(1)] same_link_address [OF assms(1)]
    by (elim disjE) (auto simp: reply_parser_def)
qed

section \<open>The properties\<close>

text \<open>
  C20: whatever the message holds after it, a link address reply as the standard lays it out, with up
  to fifteen ports, is parsed to exactly its ports, those not reported staying zero; and it is
  accepted exactly when all of its bytes have been received.
\<close>
theorem link_address_reply_parsed:
  assumes "link_address_valid r" "rx_msg raw = link_address_bytes r @ rest"
  shows "\<exists>b ok. drm_dp_sideband_parse_reply raw = Some (\<lparr>reply_type = 0, reply_req_type = 1, reply_body = b\<rparr>, ok) \<and>
    (ok \<longleftrightarrow> length (link_address_bytes r) \<le> unat (curlen raw)) \<and> (ok \<longrightarrow> b = LinkAddressAck r)"
proof -
  note h = link_address_head [OF assms]
  let ?ps = "take (unat (nports r)) (la_ports r)"
  let ?pre = "[1] @ la_guid r @ [nports r]"
  have v: "length ?ps = unat (nports r)" "list_all port_valid ?ps" "length ?pre = 18" "la_ports r = pad_ports ?ps"
    using assms(1) by (simp_all add: link_address_valid_def)
  have raw: "rx_msg raw = ?pre @ ports_bytes ?ps @ rest" "length (link_address_bytes r) = 18 + length (ports_bytes ?ps)"
    using assms(2) v(3) by (simp_all add: link_address_bytes_def)
  have e: "drm_dp_sideband_parse_reply raw =
      (do { (b, ok) \<leftarrow> drm_dp_sideband_parse_link_address raw; Some (\<lparr>reply_type = 0, reply_req_type = 1, reply_body = b\<rparr>, ok) })"
    unfolding drm_dp_sideband_parse_reply_def h(1) by (simp add: reply_parser_def)
  consider "unat (curlen raw) < 18" | "18 \<le> unat (curlen raw)" "unat (curlen raw) < 18 + length (ports_bytes ?ps)"
    | "18 + length (ports_bytes ?ps) \<le> unat (curlen raw)" by linarith
  then show ?thesis
  proof cases
    case 1
    then show ?thesis unfolding e drm_dp_sideband_parse_link_address_def h Option.bind.simps Let_def
      by (auto simp: past_end_def raw(2))
  next
    case 2
    then obtain qs where "parse_ports (unat (nports r)) raw 18 = Some (qs, False)"
      using parse_ports_cut [OF v(2) raw(1), of 18] v(1,3) by auto
    then show ?thesis using 2 unfolding e drm_dp_sideband_parse_link_address_def h Option.bind.simps Let_def
      by (auto simp: past_end_def raw(2))
  next
    case 3
    then have "parse_ports (unat (nports r)) raw 18 = Some (?ps, True)"
      using parse_ports_ok [OF v(2) raw(1), of 18] v(1,3) by auto
    then show ?thesis using 3 v(4) raw(2) unfolding e drm_dp_sideband_parse_link_address_def h Option.bind.simps Let_def
      by (cases r) (auto simp: past_end_def)
  qed
qed

definition sample_link_address :: link_address_reply where
  "sample_link_address = \<lparr>la_guid = replicate 16 7, nports = 2, la_ports = pad_ports
     [zero_port\<lparr>input_port := True, peer_device_type := 1, la_mcs := True, la_ddps := True\<rparr>,
      zero_port\<lparr>peer_device_type := 3, la_port_number := 8, la_ddps := True, dpcd_revision := 0x12,
        peer_guid := replicate 16 9, num_sdp_streams := 1, num_sdp_stream_sinks := 1\<rparr>]\<rparr>"

definition sample_rx :: "u8 list \<Rightarrow> u8 \<Rightarrow> sb_rx" where
  "sample_rx bs len = zero_rx\<lparr>rx_msg := bs @ replicate (256 - length bs) 0xee, curlen := len\<rparr>"

theorem link_address_reply_parsed_witness:
  "(\<exists>b ok. drm_dp_sideband_parse_reply (sample_rx (link_address_bytes sample_link_address) 40) =
      Some (\<lparr>reply_type = 0, reply_req_type = 1, reply_body = b\<rparr>, ok) \<and>
      (ok \<longleftrightarrow> length (link_address_bytes sample_link_address) \<le> unat (40::u8)) \<and> (ok \<longrightarrow> b = LinkAddressAck sample_link_address)) \<and>
    length (link_address_bytes sample_link_address) = 40"
proof -
  have v: "link_address_valid sample_link_address"
    by code_simp
  have r: "rx_msg (sample_rx (link_address_bytes sample_link_address) 40) =
      link_address_bytes sample_link_address @ replicate (256 - length (link_address_bytes sample_link_address)) 0xee"
    "curlen (sample_rx (link_address_bytes sample_link_address) 40) = 40"
    by (simp_all add: sample_rx_def zero_rx_def)
  have l: "length (link_address_bytes sample_link_address) = 40"
    by code_simp
  show ?thesis using link_address_reply_parsed [OF v r(1)] l unfolding r(2) by blast
qed

text \<open>
  C34: parsing a reply of at most 239 bytes stays inside the arrays, whatever the bytes are, except
  in one case: an acknowledged remote DPCD or I2C read that names more than 253 bytes makes the copy
  of the data run past the message.
\<close>
theorem reply_parse_bounds:
  assumes "length (rx_msg raw) = 256" "unat (curlen raw) \<le> 239"
  shows "drm_dp_sideband_parse_reply raw = None \<longleftrightarrow> read_overrun raw"
proof (cases "reply_parser (rx_msg raw ! 0 AND 0x7f)")
  case None
  then have "rx_msg raw ! 0 AND 0x7f \<noteq> 0x20" "rx_msg raw ! 0 AND 0x7f \<noteq> 0x22"
    by (auto simp: reply_parser_def)
  then show ?thesis using None
    by (auto simp: drm_dp_sideband_parse_reply_def byte_at_256 [OF assms(1)] slice_256 [OF assms(1)] Let_def read_overrun_def)
next
  case (Some parse)
  show ?thesis
    using parser_None [OF assms Some] Some
    by (cases "parse raw") (auto simp: drm_dp_sideband_parse_reply_def byte_at_256 [OF assms(1)] slice_256 [OF assms(1)] Let_def
      read_overrun_def reply_type_bit [simplified])
qed

theorem reply_parse_bounds_witness:
  "drm_dp_sideband_parse_reply (sample_rx [0x20, 1, 0xff] 3) = None \<and>
   drm_dp_sideband_parse_reply (sample_rx [0x20, 1, 0xfd] 3) \<noteq> None"
  by (subst (1 2) reply_parse_bounds) (simp_all add: sample_rx_def zero_rx_def read_overrun_def)

text \<open>
  An accepted reply of a kind whose parser checks its length is built from the received bytes
  only: two messages that agree on them, whatever is left in the rest of the buffer, give the same
  reply.
\<close>
theorem reply_from_received:
  assumes "same_received r1 r2" "0 < curlen r1" "drm_dp_sideband_parse_reply r1 = Some (rep, True)"
    "reply_req_type rep \<in> set checked_kinds"
  shows "drm_dp_sideband_parse_reply r2 = Some (rep, True)"
proof -
  let ?t = "rx_msg r1 ! 0 AND 0x7f"
  have l: "length (rx_msg r1) = 256" using assms(1) by (simp add: same_received_def)
  have "0 < unat (curlen r1)" using assms(2) by (simp add: word_less_nat_alt)
  then have b: "byte_at r1 0 = Some (rx_msg r1 ! 0)" "byte_at r2 0 = Some (rx_msg r1 ! 0)"
    using same_byte [OF assms(1), of 0] by (simp_all add: byte_at_256 [OF l] past_end_def)
  obtain parse body where p: "drop_bit 7 (rx_msg r1 ! 0 AND 0x80) \<noteq> 1" "reply_parser ?t = Some parse" "parse r1 = Some (body, True)"
      "rep = \<lparr>reply_type = drop_bit 7 (rx_msg r1 ! 0 AND 0x80), reply_req_type = ?t, reply_body = body\<rparr>"
    using assms(3) unfolding drm_dp_sideband_parse_reply_def b Option.bind.simps Let_def
    by (auto simp: bind_eq_Some_conv split: if_splits option.splits)
  have "parse r2 = Some (body, True)"
    using same_parser [OF assms(1) _ p(2,3)] assms(4) p(4) by simp
  then show ?thesis
    using p unfolding drm_dp_sideband_parse_reply_def b Option.bind.simps Let_def by simp
qed

theorem reply_from_received_witness:
  "drm_dp_sideband_parse_reply (zero_rx\<lparr>rx_msg := [0x24, 0x30] @ replicate 254 5, curlen := 2\<rparr>) =
    Some (\<lparr>reply_type = 0, reply_req_type = 0x24, reply_body = PowerPhyAck 3\<rparr>, True)"
  by (rule reply_from_received [where ?r1.0 = "zero_rx\<lparr>rx_msg := [0x24, 0x30] @ replicate 254 0, curlen := 2\<rparr>"])
    code_simp+

text \<open>
  the data of a remote DPCD read is not compared with what has been received: a reply of the
  three bytes that say how much data follows is accepted without any data, and delivers whatever an
  earlier message left in the buffer.
\<close>
theorem read_reply_stale:
  assumes "rx_msg raw = [0x20, p, n] @ stale @ rest" "length (rx_msg raw) = 256" "length stale = unat n" "curlen raw = 3"
  shows "drm_dp_sideband_parse_reply raw =
    Some (\<lparr>reply_type = 0, reply_req_type = 0x20,
      reply_body = RemoteDpcdReadAck \<lparr>ra_port_number = p AND 0xf, ra_num_bytes = n, ra_bytes = stale @ replicate (255 - unat n) 0\<rparr>\<rparr>, True)"
proof -
  have b: "byte_at raw 0 = Some 0x20" "byte_at raw 1 = Some p" "byte_at raw 2 = Some n"
    by (simp_all add: byte_at_def assms(1) buf_get_def)
  have "buf_slice (rx_msg raw) 3 (unat n) = Some stale"
    using slice_mid [of raw "[0x20, p, n]" stale rest 3] assms(1,3) by simp
  moreover have "buf_put (replicate 255 0) 0 stale = Some (stale @ replicate (255 - unat n) 0)"
    using assms(3) unsigned_less [of n, where 'a = nat] by (simp add: buf_put_def)
  ultimately have "copy_reply raw 3 n = Some (stale @ replicate (255 - unat n) 0)" by (simp add: copy_reply_def)
  then show ?thesis
    by (simp add: drm_dp_sideband_parse_reply_def drm_dp_sideband_parse_remote_dpcd_read_def b [simplified] reply_parser_def
      past_end_def assms(4) Let_def)
qed

theorem read_reply_stale_witness:
  "drm_dp_sideband_parse_reply (zero_rx\<lparr>rx_msg := [0x20, 1, 2] @ [0xaa, 0xbb] @ replicate 251 0, curlen := 3\<rparr>) =
    Some (\<lparr>reply_type = 0, reply_req_type = 0x20,
      reply_body = RemoteDpcdReadAck \<lparr>ra_port_number = 1 AND 0xf, ra_num_bytes = 2, ra_bytes = [0xaa, 0xbb] @ replicate (255 - unat (2::u8)) 0\<rparr>\<rparr>, True)"
  by (rule read_reply_stale [where rest = "replicate 251 0"]) simp_all

end
