(* ===== verification/Sideband_Queue.thy ===== *)
theory Sideband_Queue
  imports Sideband_Reply
begin

text \<open>
  The queue of down requests of a topology manager and the tasks that work on it: queueing a
  message, the worker that sends the next chunk of the first message, the interrupt handler that
  takes a reply, and the waiter that gives a message up. Each task runs under the queue lock, except
  that the reply handler takes the lock twice: to find the message a reply belongs to, and, after
  parsing, to take it off the queue. A message is identified by a number; its record is that of
  \<open>Sideband_Xfer\<close>.
\<close>

section \<open>The state\<close>

record 's dm =
  tx_msg_downq :: "nat list"
  txs :: "nat \<Rightarrow> sb_tx"
  dsts :: "nat \<Rightarrow> nat"
  replies :: "nat \<Rightarrow> sb_reply"
  down_rep_recv :: sb_rx
  woken :: bool
  env :: 's

text \<open>What the tasks need of the outside: register access, the lookup of branches, the stack.\<close>

record 's io =
  io_write :: "nat \<Rightarrow> u8 list \<Rightarrow> 's \<Rightarrow> 's \<times> int"
  io_read :: "nat \<Rightarrow> nat \<Rightarrow> 's \<Rightarrow> 's \<times> int \<times> u8 list"
  io_max_bytes :: int
  io_lookup :: "u8 \<Rightarrow> u8 list \<Rightarrow> nat option"
  io_chunk :: "u8 list"
  io_hdr :: sb_hdr

section \<open>Sending\<close>

definition process_single_down_tx_qlock :: "'s io \<Rightarrow> 's dm \<Rightarrow> 's dm res option" where
  "process_single_down_tx_qlock io m =
     (case tx_msg_downq m of
        [] \<Rightarrow> Some (Inr m)
      | i # q \<Rightarrow>
          (case process_single_tx_qlock (io_write io) (io_max_bytes io) False (io_chunk io) (txs m i) (env m) of
             None \<Rightarrow> None
           | Some (Inl e) \<Rightarrow> Some (Inl e)
           | Some (Inr (s, t, ret)) \<Rightarrow>
               Some (Inr
                 (if ret < 0
                  then m\<lparr>env := s, tx_msg_downq := q, txs := (txs m)(i := t\<lparr>tx_state := TX_TIMEOUT\<rparr>), woken := True\<rparr>
                  else m\<lparr>env := s, txs := (txs m)(i := t)\<rparr>))))"

definition drm_dp_queue_down_tx :: "'s io \<Rightarrow> nat \<Rightarrow> 's dm \<Rightarrow> 's dm res option" where
  "drm_dp_queue_down_tx io i m =
     (let m = m\<lparr>tx_msg_downq := tx_msg_downq m @ [i]\<rparr>
      in if length (tx_msg_downq m) = 1 then process_single_down_tx_qlock io m else Some (Inr m))"

definition drm_dp_tx_work :: "'s io \<Rightarrow> 's dm \<Rightarrow> 's dm res option" where
  "drm_dp_tx_work io m =
     (if tx_msg_downq m \<noteq> [] then process_single_down_tx_qlock io m else Some (Inr m))"

section \<open>Taking replies\<close>

text \<open>
  The first half of \<open>drm_dp_mst_handle_down_rep\<close>: read a chunk; when it completes a message, find the
  request it answers. The request found, if any, is what the second half is called with.
\<close>

definition handle_down_rep_find :: "'s io \<Rightarrow> 's dm \<Rightarrow> ('s dm \<times> nat option) res" where
  "handle_down_rep_find io m =
     bindE (drm_dp_get_one_sb_msg (io_read io) (io_max_bytes io) (io_lookup io) False (io_hdr io) (down_rep_recv m) (env m))
       (\<lambda>(s, msg, mstb, ok).
          let m = m\<lparr>env := s, down_rep_recv := msg\<rparr>
          in if \<not> ok \<or> \<not> have_eomt msg then Inr (m, None)
             else case tx_msg_downq m of
               [] \<Rightarrow> Inr (m\<lparr>down_rep_recv := zero_rx\<rparr>, None)
             | i # _ \<Rightarrow>
                 if Some (dsts m i) \<noteq> mstb then Inr (m\<lparr>down_rep_recv := zero_rx\<rparr>, None)
                 else Inr (m, Some i))"

text \<open>The second half: parse the reply, clear the receive buffer, take the request off the queue.\<close>

definition handle_down_rep_finish :: "nat \<Rightarrow> 's dm \<Rightarrow> 's dm option" where
  "handle_down_rep_finish i m =
     do { (r, _) \<leftarrow> drm_dp_sideband_parse_reply (down_rep_recv m);
          q \<leftarrow> list_del i (tx_msg_downq m);
          Some (m\<lparr>replies := (replies m)(i := r), down_rep_recv := zero_rx,
                  txs := (txs m)(i := (txs m i)\<lparr>tx_state := TX_RX\<rparr>), tx_msg_downq := q, woken := True\<rparr>) }"

section \<open>Waiting\<close>

definition check_txmsg_state :: "sb_tx \<Rightarrow> bool" where
  "check_txmsg_state t \<longleftrightarrow> tx_state t = TX_RX \<or> tx_state t = TX_TIMEOUT"

text \<open>
  What the waiter does once waiting is over: \<open>ret\<close> is what was left of the time. Returns the result
  for the sender of the message.
\<close>

definition drm_dp_mst_wait_tx_reply :: "nat \<Rightarrow> int \<Rightarrow> 's dm \<Rightarrow> ('s dm \<times> int) option" where
  "drm_dp_mst_wait_tx_reply i ret m =
     (if 0 < ret then Some (m, if tx_state (txs m i) = TX_TIMEOUT then - EIO_code else ret)
      else if tx_state (txs m i) = TX_QUEUED \<or> tx_state (txs m i) = TX_START_SEND \<or> tx_state (txs m i) = TX_SENT
      then do { q \<leftarrow> list_del i (tx_msg_downq m); Some (m\<lparr>tx_msg_downq := q\<rparr>, - EIO_code) }
      else Some (m, - EIO_code))"

section \<open>Steps\<close>

text \<open>
  A configuration: the state, the request the reply handler has found (while it does not hold the
  lock), and the numbers used so far. The tasks interleave in any order.
\<close>

record 's cfg =
  cf_dm :: "'s dm"
  cf_found :: "nat option"
  cf_used :: "nat list"

datatype task = Queue nat sb_tx nat | Work | Reply_Nothing | Reply_Find | Reply_Finish | Give_Up nat

inductive qstep :: "'s io \<Rightarrow> 's cfg \<Rightarrow> task \<Rightarrow> 's cfg \<Rightarrow> bool" for io where
  queue: "i \<notin> set (cf_used c) \<Longrightarrow> tx_state t = TX_QUEUED \<Longrightarrow>
    drm_dp_queue_down_tx io i ((cf_dm c)\<lparr>txs := (txs (cf_dm c))(i := t), dsts := (dsts (cf_dm c))(i := d)\<rparr>) = Some (Inr m) \<Longrightarrow>
    qstep io c (Queue i t d) (c\<lparr>cf_dm := m, cf_used := i # cf_used c\<rparr>)"
| work: "drm_dp_tx_work io (cf_dm c) = Some (Inr m) \<Longrightarrow> qstep io c Work (c\<lparr>cf_dm := m\<rparr>)"
| reply_nothing: "cf_found c = None \<Longrightarrow> handle_down_rep_find io (cf_dm c) = Inr (m, None) \<Longrightarrow>
    qstep io c Reply_Nothing (c\<lparr>cf_dm := m\<rparr>)"
| reply_find: "cf_found c = None \<Longrightarrow> handle_down_rep_find io (cf_dm c) = Inr (m, Some i) \<Longrightarrow>
    qstep io c Reply_Find (c\<lparr>cf_dm := m, cf_found := Some i\<rparr>)"
| reply_finish: "cf_found c = Some i \<Longrightarrow> handle_down_rep_finish i (cf_dm c) = Some m \<Longrightarrow>
    qstep io c Reply_Finish (c\<lparr>cf_dm := m, cf_found := None\<rparr>)"
| give_up: "i \<in> set (cf_used c) \<Longrightarrow> drm_dp_mst_wait_tx_reply i 0 (cf_dm c) = Some (m, r) \<Longrightarrow>
    qstep io c (Give_Up i) (c\<lparr>cf_dm := m\<rparr>)"

inductive_cases qstep_queueE: "qstep io c (Queue i t d) c'"
inductive_cases qstep_workE: "qstep io c Work c'"
inductive_cases qstep_nothingE: "qstep io c Reply_Nothing c'"
inductive_cases qstep_findE: "qstep io c Reply_Find c'"
inductive_cases qstep_finishE: "qstep io c Reply_Finish c'"
inductive_cases qstep_giveupE: "qstep io c (Give_Up i) c'"

text \<open>
  A run. In a strict one only new messages are queued while the reply handler is between its halves.
\<close>

definition undisturbed :: "task \<Rightarrow> bool" where
  "undisturbed t = (case t of Queue _ _ _ \<Rightarrow> True | Reply_Finish \<Rightarrow> True | _ \<Rightarrow> False)"

inductive qrun :: "'s io \<Rightarrow> bool \<Rightarrow> 's cfg \<Rightarrow> task list \<Rightarrow> 's cfg \<Rightarrow> bool" for io strict where
  qrun_nil: "qrun io strict c [] c"
| qrun_snoc: "qrun io strict c ts c' \<Longrightarrow> qstep io c' t c'' \<Longrightarrow>
    (strict \<and> cf_found c' \<noteq> None \<longrightarrow> undisturbed t) \<Longrightarrow> qrun io strict c (ts @ [t]) c''"

definition init_cfg :: "'s dm \<Rightarrow> 's cfg" where
  "init_cfg m = \<lparr>cf_dm = m\<lparr>tx_msg_downq := [], down_rep_recv := zero_rx\<rparr>, cf_found = None, cf_used = []\<rparr>"

end
