(* ===== verification/Sideband_Queue_Props.thy ===== *)
theory Sideband_Queue_Props
  imports Sideband_Queue "HOL-Library.Sublist"
begin

text \<open>
  The queue of down requests under every interleaving of the tasks: what always holds of it, when a
  reply is matched with the right request, and two ways in which it goes wrong.
\<close>

section \<open>Subsequences\<close>

lemma subseq_set: "subseq xs ys \<Longrightarrow> set xs \<subseteq> set ys"
  by (induction rule: list_emb.induct) auto

lemma subseq_distinct: "subseq xs ys \<Longrightarrow> distinct ys \<Longrightarrow> distinct xs"
  by (induction rule: list_emb.induct) (auto dest: subseq_set)

lemma subseq_remove1: "subseq (remove1 x xs) xs"
  by (induction xs) auto

lemma subseq_tl: "subseq (x # xs) ys \<Longrightarrow> subseq xs ys"
  by (metis subseq_Cons')

lemma in_tl: "x \<in> set (tl xs) \<Longrightarrow> x \<in> set xs"
  by (cases xs) auto

section \<open>What a task does to a message\<close>

abbreviation pending :: "tx_state \<Rightarrow> bool" where
  "pending st \<equiv> st = TX_QUEUED \<or> st = TX_START_SEND \<or> st = TX_SENT"

lemma process_single_tx_state:
  assumes "process_single_tx_qlock wr n up chunk t s = Some (Inr (s', t', ret))" "pending (tx_state t)"
  shows "tx_state t' = TX_START_SEND \<or> tx_state t' = TX_SENT"
proof (cases "tx_state t = TX_SENT")
  case True
  then show ?thesis using assms(1) by (simp add: process_single_tx_qlock_def)
next
  case False
  define u where "u = (if tx_state t = TX_QUEUED then t\<lparr>tx_state := TX_START_SEND\<rparr> else t)"
  have st: "tx_state u = TX_START_SEND" using assms(2) False by (auto simp: u_def)
  note p = assms(1) [unfolded process_single_tx_qlock_def Let_def, folded u_def, simplified False if_False]
  obtain hdr where h: "set_hdr_from_dst_qlock zero_hdr u = Some hdr"
    using p by (cases "set_hdr_from_dst_qlock zero_hdr u") simp_all
  obtain c k l where b: "build_chunk hdr u chunk = Some (c, k, l)"
    using p by (cases "build_chunk hdr u chunk") (auto simp: h)
  obtain s1 r where d: "drm_dp_send_sideband_msg wr n up c k s = Some (Inr (s1, r))"
    using p by (auto simp: h b split: option.splits sum.splits)
  have "t' = u \<or> (\<exists>o'. t' = u\<lparr>cur_offset := o'\<rparr> \<or> t' = u\<lparr>cur_offset := o', tx_state := TX_SENT\<rparr>)"
    using p by (auto simp: h b d split: if_splits)
  then show ?thesis using st by auto
qed

lemma down_tx_cases:
  assumes "process_single_down_tx_qlock io m = Some (Inr m')"
  obtains "tx_msg_downq m = []" "m' = m"
  | i q s t ret where "tx_msg_downq m = i # q" "pending (tx_state (txs m i)) \<Longrightarrow> tx_state t = TX_START_SEND \<or> tx_state t = TX_SENT"
      "m' = (if ret < (0::int)
         then m\<lparr>env := s, tx_msg_downq := q, txs := (txs m)(i := t\<lparr>tx_state := TX_TIMEOUT\<rparr>), woken := True\<rparr>
         else m\<lparr>env := s, txs := (txs m)(i := t)\<rparr>)"
proof (cases "tx_msg_downq m")
  case Nil
  show thesis
    by (rule that(1) [OF Nil]) (use assms in \<open>simp add: process_single_down_tx_qlock_def Nil\<close>)
next
  case (Cons i q)
  obtain s t ret where p: "process_single_tx_qlock (io_write io) (io_max_bytes io) False (io_chunk io) (txs m i) (env m) = Some (Inr (s, t, ret))"
    using assms unfolding process_single_down_tx_qlock_def Cons list.case by (auto split: option.splits sum.splits)
  show thesis
  proof (rule that(2) [OF Cons])
    show "tx_state t = TX_START_SEND \<or> tx_state t = TX_SENT" if "pending (tx_state (txs m i))"
      using process_single_tx_state [OF p that] .
    show "m' = (if ret < 0
         then m\<lparr>env := s, tx_msg_downq := q, txs := (txs m)(i := t\<lparr>tx_state := TX_TIMEOUT\<rparr>), woken := True\<rparr>
         else m\<lparr>env := s, txs := (txs m)(i := t)\<rparr>)"
      using assms unfolding process_single_down_tx_qlock_def Cons list.case p option.case sum.case prod.case by simp
  qed
qed

section \<open>The invariant\<close>

text \<open>
  No message is on the queue twice, the queue is in the order in which the messages were queued, each
  message on it is still waiting for its reply, and only the first may have been sent in part.
\<close>

definition queue_ok :: "nat list \<Rightarrow> 's dm \<Rightarrow> bool" where
  "queue_ok used m \<longleftrightarrow> distinct used \<and> subseq (tx_msg_downq m) (rev used) \<and>
     list_all (\<lambda>i. pending (tx_state (txs m i))) (tx_msg_downq m) \<and>
     list_all (\<lambda>i. tx_state (txs m i) = TX_QUEUED) (tl (tx_msg_downq m))"

lemma queue_ok_distinct: "queue_ok used m \<Longrightarrow> distinct (tx_msg_downq m)"
  unfolding queue_ok_def using subseq_distinct [of "tx_msg_downq m" "rev used"] by simp

lemma queue_ok_used: "queue_ok used m \<Longrightarrow> i \<in> set (tx_msg_downq m) \<Longrightarrow> i \<in> set used"
  unfolding queue_ok_def using subseq_set by fastforce

lemma queue_ok_cong:
  "tx_msg_downq m' = tx_msg_downq m \<Longrightarrow> txs m' = txs m \<Longrightarrow> queue_ok used m \<Longrightarrow> queue_ok used m'"
  by (simp add: queue_ok_def)

lemma queue_ok_down_tx:
  assumes "queue_ok used m" "process_single_down_tx_qlock io m = Some (Inr m')"
  shows "queue_ok used m' \<and> subseq (tx_msg_downq m') (tx_msg_downq m) \<and> down_rep_recv m' = down_rep_recv m"
  using assms(2)
proof (cases rule: down_tx_cases)
  case 1
  then show ?thesis using assms(1) by simp
next
  case (2 i q s t ret)
  have d: "i \<notin> set q" using queue_ok_distinct [OF assms(1)] 2(1) by simp
  have st: "tx_state t = TX_START_SEND \<or> tx_state t = TX_SENT" using 2(1,2) assms(1) by (simp add: queue_ok_def)
  have q: "list_all (\<lambda>i. tx_state (txs m i) = TX_QUEUED) q" "distinct used" "subseq (i # q) (rev used)"
    using assms(1) by (simp_all add: queue_ok_def 2(1))
  then have q': "list_all (\<lambda>i. tx_state (txs m i) = TX_QUEUED) (tl q)" by (cases q) simp_all
  have eq: "j \<noteq> i" if "j \<in> set q" for j using d that by blast
  have "queue_ok used m'"
    using q q' st d subseq_tl [OF q(3)] unfolding 2(3) queue_ok_def
    by (auto simp: 2(1) list_all_iff dest: in_tl)
  moreover have "subseq (tx_msg_downq m') (tx_msg_downq m)" "down_rep_recv m' = down_rep_recv m"
    unfolding 2(3) by (auto simp: 2(1))
  ultimately show ?thesis by blast
qed

lemma queue_ok_queue:
  assumes "queue_ok used m" "i \<notin> set used" "tx_state t = TX_QUEUED"
    "drm_dp_queue_down_tx io i (m\<lparr>txs := (txs m)(i := t), dsts := (dsts m)(i := d)\<rparr>) = Some (Inr m')"
  shows "queue_ok (i # used) m'" "\<And>j q. tx_msg_downq m = j # q \<Longrightarrow> \<exists>q'. tx_msg_downq m' = j # q'"
    "down_rep_recv m' = down_rep_recv m"
proof -
  let ?m = "m\<lparr>txs := (txs m)(i := t), dsts := (dsts m)(i := d), tx_msg_downq := tx_msg_downq m @ [i]\<rparr>"
  have n: "i \<notin> set (tx_msg_downq m)" using assms(2) queue_ok_used [OF assms(1)] by blast
  have k: "queue_ok (i # used) ?m"
    using assms(1-3) n list_emb_append_mono [of "(=)" "tx_msg_downq m" "rev used" "[i]" "[i]"] unfolding queue_ok_def
    by (cases "tx_msg_downq m") (auto simp: list_all_iff)
  show "queue_ok (i # used) m'" "\<And>j q. tx_msg_downq m = j # q \<Longrightarrow> \<exists>q'. tx_msg_downq m' = j # q'"
    "down_rep_recv m' = down_rep_recv m"
    using assms(4) queue_ok_down_tx [OF k] k
    by (auto simp: drm_dp_queue_down_tx_def Let_def split: if_splits)
qed

lemma queue_ok_list_del:
  assumes "queue_ok used m" "list_del i (tx_msg_downq m) = Some q" "tx_msg_downq m' = q"
    "\<And>j. j \<noteq> i \<Longrightarrow> txs m' j = txs m j"
  shows "queue_ok used m'"
proof -
  have r: "i \<in> set (tx_msg_downq m)" "q = remove1 i (tx_msg_downq m)"
    using assms(2) by (simp_all add: list_del_def split: if_splits)
  have d: "distinct (tx_msg_downq m)" by (rule queue_ok_distinct [OF assms(1)])
  have "subseq q (rev used)"
    using assms(1) r(2) unfolding queue_ok_def by (metis subseq_order.order_trans subseq_remove1)
  moreover have "j \<in> set q \<Longrightarrow> j \<noteq> i \<and> j \<in> set (tx_msg_downq m)" for j using d r by auto
  moreover have "j \<in> set (tl (tx_msg_downq m))" if "j \<in> set (tl q)" for j
    using that r(2) d by (cases "tx_msg_downq m") (auto split: if_splits dest: in_tl notin_set_remove1)
  moreover have "j \<noteq> i" if "j \<in> set (tl q)" for j
    using that calculation(2) by (cases q) auto
  ultimately show ?thesis using assms(1,3,4) by (simp add: queue_ok_def list_all_iff)
qed


section \<open>Every step keeps the invariant\<close>

lemma find_result:
  assumes "handle_down_rep_find io m = Inr (m', found)"
  shows "tx_msg_downq m' = tx_msg_downq m" "txs m' = txs m" "dsts m' = dsts m"
    "found = Some i \<Longrightarrow> \<exists>q. tx_msg_downq m = i # q"
  using assms unfolding handle_down_rep_find_def Let_def
  by (auto simp: bindE_eq_Inr split: if_splits list.splits prod.splits)

lemma finish_result:
  assumes "handle_down_rep_finish i m = Some m'"
  shows "\<exists>q. list_del i (tx_msg_downq m) = Some q \<and> tx_msg_downq m' = q" "\<And>j. j \<noteq> i \<Longrightarrow> txs m' j = txs m j"
  using assms by (auto simp: handle_down_rep_finish_def bind_eq_Some_conv)

lemma give_up_result:
  assumes "drm_dp_mst_wait_tx_reply i 0 m = Some (m', r)"
  shows "m' = m \<or> (\<exists>q. list_del i (tx_msg_downq m) = Some q \<and> m' = m\<lparr>tx_msg_downq := q\<rparr>)"
  using assms by (auto simp: drm_dp_mst_wait_tx_reply_def bind_eq_Some_conv split: if_splits)

text \<open>
  The invariant of a configuration; in a strict run the request found is still the first of the
  queue.
\<close>

definition cfg_ok :: "bool \<Rightarrow> 's cfg \<Rightarrow> bool" where
  "cfg_ok strict c \<longleftrightarrow> queue_ok (cf_used c) (cf_dm c) \<and>
     (strict \<longrightarrow> (\<forall>i. cf_found c = Some i \<longrightarrow> (\<exists>q. tx_msg_downq (cf_dm c) = i # q)))"

lemma qstep_queue_ok:
  assumes "qstep io c t c'" "queue_ok (cf_used c) (cf_dm c)"
  shows "queue_ok (cf_used c') (cf_dm c')"
  using assms(1)
proof cases
  case (queue i t d m)
  then show ?thesis using queue_ok_queue(1) [OF assms(2) queue(3,4,5)] by simp
next
  case (work m)
  then show ?thesis using queue_ok_down_tx [OF assms(2)] assms(2) by (auto simp: drm_dp_tx_work_def split: if_splits)
next
  case (reply_nothing m)
  then show ?thesis using queue_ok_cong [OF find_result(1,2) assms(2)] by simp
next
  case (reply_find m i)
  then show ?thesis using queue_ok_cong [OF find_result(1,2) assms(2)] by simp
next
  case (reply_finish i m)
  then show ?thesis using finish_result [OF reply_finish(4)] queue_ok_list_del [OF assms(2)] by auto
next
  case (give_up i m r)
  then show ?thesis
    using assms(2) give_up_result [OF give_up(4)] queue_ok_list_del [OF assms(2), of i _ m] by auto
qed

lemma qstep_cfg_ok:
  assumes "qstep io c t c'" "cfg_ok strict c" "strict \<and> cf_found c \<noteq> None \<longrightarrow> undisturbed t"
  shows "cfg_ok strict c'"
proof -
  have "queue_ok (cf_used c') (cf_dm c')"
    using qstep_queue_ok [OF assms(1)] assms(2) by (simp add: cfg_ok_def)
  moreover have "\<exists>q. tx_msg_downq (cf_dm c') = i # q" if strict "cf_found c' = Some i" for i
    using assms(1)
  proof cases
    case (queue j t d m)
    then show ?thesis
      using assms(2) that queue_ok_queue(2) [of "cf_used c" "cf_dm c" j t io d m] by (auto simp: cfg_ok_def)
  next
    case (reply_find m j)
    then show ?thesis using find_result(1,4) [OF reply_find(4)] that(2) by auto
  qed (use assms(3) that in \<open>auto simp: undisturbed_def\<close>)
  ultimately show ?thesis by (simp add: cfg_ok_def)
qed

lemma qrun_keeps_ok: "qrun io strict c0 ts c \<Longrightarrow> cfg_ok strict c0 \<Longrightarrow> cfg_ok strict c"
proof (induction rule: qrun.induct)
  case (qrun_snoc c ts c' t c'')
  show ?case using qstep_cfg_ok [OF qrun_snoc.hyps(2) qrun_snoc.IH [OF qrun_snoc.prems] qrun_snoc.hyps(3)] .
qed

lemma qrun_cfg_ok: "qrun io strict (init_cfg m) ts c \<Longrightarrow> cfg_ok strict c"
  by (erule qrun_keeps_ok) (simp add: cfg_ok_def queue_ok_def init_cfg_def)

section \<open>A run\<close>

text \<open>
  A sink that takes everything and answers with the one-chunk reply to a request to power up port 3:
  the message 0 is queued, sent, and its reply is found.
\<close>

definition sample_io :: "unit io" where
  "sample_io = \<lparr>io_write = (\<lambda>_ d s. (s, int (length d))),
     io_read = (\<lambda>_ n s. (s, int n, take n [0x10, 0x03, 0xce, 0x24, 0x30, 0, 0, 0, 0, 0, 0, 0, 0, 0, 0, 0])),
     io_max_bytes = 16, io_lookup = (\<lambda>_ _. Some 0), io_chunk = replicate 48 0, io_hdr = zero_hdr\<rparr>"

definition sample_tx :: sb_tx where
  "sample_tx = \<lparr>tx_msg = [0x24, 0x30] @ replicate 254 0, cur_offset = 0, cur_len = 2, dst_lct = 1,
     dst_rad = replicate 8 0, tx_state = TX_QUEUED, tx_path_msg = False\<rparr>"

definition sample_dm :: "unit dm" where
  "sample_dm = \<lparr>tx_msg_downq = [], txs = (\<lambda>_. sample_tx), dsts = (\<lambda>_. 0),
     replies = (\<lambda>_. \<lparr>reply_type = 0, reply_req_type = 0, reply_body = NoBody\<rparr>),
     down_rep_recv = zero_rx, woken = False, env = ()\<rparr>"

definition sample_queued :: "unit dm" where
  "sample_queued =
     (case drm_dp_queue_down_tx sample_io 0
         (sample_dm\<lparr>txs := (txs sample_dm)(0 := sample_tx), dsts := (dsts sample_dm)(0 := 0)\<rparr>) of
        Some (Inr m) \<Rightarrow> m | _ \<Rightarrow> sample_dm)"

definition sample_found :: "unit dm" where
  "sample_found = (case handle_down_rep_find sample_io sample_queued of Inr (m, _) \<Rightarrow> m | _ \<Rightarrow> sample_dm)"

lemma sample_init: "cf_dm (init_cfg sample_dm) = sample_dm" "cf_found (init_cfg sample_dm) = None" "cf_used (init_cfg sample_dm) = []"
  by (simp_all add: init_cfg_def sample_dm_def)

lemma sample_queues:
  "drm_dp_queue_down_tx sample_io 0 (sample_dm\<lparr>txs := (txs sample_dm)(0 := sample_tx), dsts := (dsts sample_dm)(0 := 0)\<rparr>) =
     Some (Inr sample_queued)"
proof -
  have "case drm_dp_queue_down_tx sample_io 0
      (sample_dm\<lparr>txs := (txs sample_dm)(0 := sample_tx), dsts := (dsts sample_dm)(0 := 0)\<rparr>) of
    Some (Inr m) \<Rightarrow> True | _ \<Rightarrow> False" by code_simp
  then show ?thesis unfolding sample_queued_def by (simp split: option.splits sum.splits)
qed

lemma sample_finds: "handle_down_rep_find sample_io sample_queued = Inr (sample_found, Some 0)"
proof -
  have "case handle_down_rep_find sample_io sample_queued of Inr (m, Some n) \<Rightarrow> n = 0 | _ \<Rightarrow> False" by code_simp
  then show ?thesis unfolding sample_found_def by (auto split: option.splits sum.splits prod.splits)
qed

lemma sample_end: "tx_msg_downq sample_found = [0]"
    "drm_dp_sideband_parse_reply (down_rep_recv sample_found) =
      Some (\<lparr>reply_type = 0, reply_req_type = 0x24, reply_body = PowerPhyAck 3\<rparr>, True)"
  by code_simp+

definition sample_cfg :: "unit cfg" where
  "sample_cfg = \<lparr>cf_dm = sample_found, cf_found = Some 0, cf_used = [0]\<rparr>"

lemma sample_run: "qrun sample_io True (init_cfg sample_dm) [Queue 0 sample_tx 0, Reply_Find] sample_cfg"
proof -
  let ?c = "(init_cfg sample_dm)\<lparr>cf_dm := sample_queued, cf_used := [0]\<rparr>"
  have "qstep sample_io (init_cfg sample_dm) (Queue 0 sample_tx 0) ?c"
    using qstep.queue [of 0 "init_cfg sample_dm" sample_tx sample_io 0 sample_queued] sample_queues
    by (simp add: sample_init) (simp add: sample_tx_def)
  moreover have "qstep sample_io ?c Reply_Find (?c\<lparr>cf_dm := sample_found, cf_found := Some 0\<rparr>)"
    using sample_finds by (intro qstep.reply_find) (simp_all add: sample_init)
  moreover have "?c\<lparr>cf_dm := sample_found, cf_found := Some 0\<rparr> = sample_cfg"
    by (simp add: sample_cfg_def init_cfg_def)
  ultimately have s: "qstep sample_io (init_cfg sample_dm) (Queue 0 sample_tx 0) ?c" "qstep sample_io ?c Reply_Find sample_cfg"
    by simp_all
  have "qrun sample_io True (init_cfg sample_dm) ([] @ [Queue 0 sample_tx 0]) ?c"
    by (rule qrun_snoc [OF qrun_nil s(1)]) (simp add: sample_init)
  from qrun_snoc [OF this s(2)]
  have "qrun sample_io True (init_cfg sample_dm) (([] @ [Queue 0 sample_tx 0]) @ [Reply_Find]) sample_cfg"
    by (simp add: sample_init)
  then show ?thesis by simp
qed

section \<open>The properties\<close>

text \<open>
  C38: however the tasks interleave, the messages on the queue are distinct and in the order in which
  they were queued, each is still waiting for its reply, and all but the first have not been sent at
  all: requests are sent one at a time, in order.
\<close>
theorem queue_in_order:
  assumes "qrun io strict (init_cfg m) ts c"
  shows "distinct (tx_msg_downq (cf_dm c)) \<and> subseq (tx_msg_downq (cf_dm c)) (rev (cf_used c)) \<and>
    (\<forall>i. i \<in> set (tx_msg_downq (cf_dm c)) \<longrightarrow> \<not> check_txmsg_state (txs (cf_dm c) i)) \<and>
    (\<forall>i. i \<in> set (tl (tx_msg_downq (cf_dm c))) \<longrightarrow> tx_state (txs (cf_dm c) i) = TX_QUEUED)"
proof -
  have k: "queue_ok (cf_used c) (cf_dm c)" using qrun_cfg_ok [OF assms] by (simp add: cfg_ok_def)
  then show ?thesis
    using queue_ok_distinct [OF k] unfolding queue_ok_def check_txmsg_state_def by (auto simp: list_all_iff)
qed

theorem queue_in_order_witness:
  "distinct (tx_msg_downq (cf_dm sample_cfg)) \<and> \<not> check_txmsg_state (txs (cf_dm sample_cfg) 0)"
  using queue_in_order [OF sample_run] sample_end(1) by (simp add: sample_cfg_def)

text \<open>
  C39: as long as nothing but queueing happens between the two halves of the reply handler, the reply
  goes to the first message of the queue, which is then taken off it and handed back as answered;
  the handler never takes a message off that is not there.
\<close>
theorem reply_matches_head:
  assumes "qrun io True (init_cfg m) ts c" "cf_found c = Some i" "drm_dp_sideband_parse_reply (down_rep_recv (cf_dm c)) = Some (r, ok)"
  shows "\<exists>q m'. tx_msg_downq (cf_dm c) = i # q \<and> handle_down_rep_finish i (cf_dm c) = Some m' \<and>
    tx_msg_downq m' = q \<and> check_txmsg_state (txs m' i) \<and> replies m' i = r \<and> down_rep_recv m' = zero_rx"
proof -
  obtain q where "tx_msg_downq (cf_dm c) = i # q"
    using qrun_cfg_ok [OF assms(1)] assms(2) by (auto simp: cfg_ok_def)
  then show ?thesis using assms(3) by (simp add: handle_down_rep_finish_def list_del_def check_txmsg_state_def)
qed

theorem reply_matches_head_witness:
  "\<exists>m'. handle_down_rep_finish 0 (cf_dm sample_cfg) = Some m' \<and> tx_msg_downq m' = [] \<and> check_txmsg_state (txs m' 0) \<and>
    replies m' 0 = \<lparr>reply_type = 0, reply_req_type = 0x24, reply_body = PowerPhyAck 3\<rparr>"
proof -
  have f: "cf_found sample_cfg = Some 0" "cf_dm sample_cfg = sample_found" by (simp_all add: sample_cfg_def)
  show ?thesis
    using reply_matches_head [OF sample_run f(1), unfolded f(2), OF sample_end(2)] sample_end(1) by (auto simp: f(2))
qed

text \<open>
  C40: without that, the handler goes wrong. Whenever it is between its halves, the sender of the
  request may give up waiting, which takes the request off the queue; the second half then takes it
  off once more.
\<close>
theorem reply_handler_race:
  assumes "qrun io strict (init_cfg m) ts c" "cf_found c = Some i" "i \<in> set (tx_msg_downq (cf_dm c))"
  shows "\<exists>c'. qstep io c (Give_Up i) c' \<and> cf_found c' = Some i \<and> handle_down_rep_finish i (cf_dm c') = None"
proof -
  have k: "queue_ok (cf_used c) (cf_dm c)" using qrun_cfg_ok [OF assms(1)] by (simp add: cfg_ok_def)
  let ?m = "(cf_dm c)\<lparr>tx_msg_downq := remove1 i (tx_msg_downq (cf_dm c))\<rparr>"
  have "pending (tx_state (txs (cf_dm c) i))" using k assms(3) by (simp add: queue_ok_def list_all_iff)
  then have w: "drm_dp_mst_wait_tx_reply i 0 (cf_dm c) = Some (?m, - EIO_code)"
    using assms(3) by (auto simp: drm_dp_mst_wait_tx_reply_def list_del_def)
  have "qstep io c (Give_Up i) (c\<lparr>cf_dm := ?m\<rparr>)"
    using queue_ok_used [OF k assms(3)] w by (rule qstep.give_up)
  moreover have "handle_down_rep_finish i ?m = None"
    using queue_ok_distinct [OF k] by (auto simp: handle_down_rep_finish_def list_del_def bind_eq_None_conv)
  ultimately show ?thesis using assms(2) by (intro exI [of _ "c\<lparr>cf_dm := ?m\<rparr>"]) simp
qed

theorem reply_handler_race_witness:
  "\<exists>c'. qstep sample_io sample_cfg (Give_Up 0) c' \<and> cf_found c' = Some 0 \<and> handle_down_rep_finish 0 (cf_dm c') = None"
  by (rule reply_handler_race [OF sample_run]) (simp_all add: sample_cfg_def sample_end(1))

text \<open>
  a chunk that starts a message while another is being assembled is refused, and the assembly is
  left as it was: until a chunk that belongs to it arrives, every message from the branches is lost.
\<close>
theorem reply_receiver_wedged:
  assumes "have_somt (down_rep_recv m)" "0 < io_max_bytes io"
    "io_read io DP_SIDEBAND_MSG_DOWN_REP_BASE (nat (min (io_max_bytes io) 16)) (env m) = (s, min (io_max_bytes io) 16, d)"
    "drm_dp_decode_sideband_msg_hdr (io_hdr io) d (min (io_max_bytes io) 16) = Inr (Some (hdr, n))" "somt hdr"
  shows "\<exists>m'. handle_down_rep_find io m = Inr (m', None) \<and> have_somt (down_rep_recv m') \<and>
    rx_msg (down_rep_recv m') = rx_msg (down_rep_recv m) \<and> have_eomt (down_rep_recv m') = have_eomt (down_rep_recv m) \<and>
    tx_msg_downq m' = tx_msg_downq m \<and> txs m' = txs m"
  using assms
  by (auto simp: handle_down_rep_find_def drm_dp_get_one_sb_msg_def drm_dp_sideband_msg_set_header_def Let_def)

theorem reply_receiver_wedged_witness:
  "\<exists>m'. handle_down_rep_find sample_io (sample_dm\<lparr>down_rep_recv := zero_rx\<lparr>have_somt := True\<rparr>\<rparr>) = Inr (m', None) \<and>
    have_somt (down_rep_recv m')"
proof -
  have "drm_dp_decode_sideband_msg_hdr (io_hdr sample_io) [0x10, 0x03, 0xce, 0x24, 0x30, 0, 0, 0, 0, 0, 0, 0, 0, 0, 0, 0] (min (io_max_bytes sample_io) 16)
      = Inr (Some (zero_hdr\<lparr>lct := 1, msg_len := 3, somt := True, eomt := True\<rparr>, 3))" by code_simp
  from reply_receiver_wedged [OF _ _ _ this, of "sample_dm\<lparr>down_rep_recv := zero_rx\<lparr>have_somt := True\<rparr>\<rparr>" "()"]
  show ?thesis by (auto simp: sample_io_def DP_SIDEBAND_MSG_DOWN_REP_BASE_def)
qed

end
