(* ===== verification/Mst_Topology.thy ===== *)
theory Mst_Topology
  imports Sideband_Reply
begin

text \<open>
  The tree of branch devices of an MST topology: relative addresses, the lookups by address, by
  identity and by GUID, and the changes a link address reply makes to the ports of a branch and, by the
  requests sent on, to the branches below it. A branch or port is identified by a number (its address in
  memory). Reference counts are left out: whether an object may still be used
  (\<open>kref_get_unless_zero\<close>) is the parameter \<open>alive\<close>. So is \<open>link_address_sent\<close> of a branch, which only
  says whether probing has to send the request again.
\<close>

section \<open>The tree\<close>

record port_data =
  pd_id :: nat
  pd_pdt :: u8
  pd_mcs :: bool
  pd_input :: bool
  pd_ddps :: bool
  pd_ldps :: bool
  pd_dpcd_rev :: u8
  pd_num_sdp_streams :: u8
  pd_num_sdp_stream_sinks :: u8
  pd_full_pbn :: u16
  pd_fec_capable :: bool
  pd_connector :: bool

datatype mst_branch = Branch (br_id: nat) (br_lct: u8) (br_rad: "u8 list") (br_guid: "u8 list") (br_ports: "mst_port list")
  and mst_port = Port (p_num: u8) (p_data: port_data) (p_mstb: "mst_branch option")

definition DP_PEER_DEVICE_NONE :: u8 where "DP_PEER_DEVICE_NONE = 0"
definition DP_PEER_DEVICE_MST_BRANCHING :: u8 where "DP_PEER_DEVICE_MST_BRANCHING = 2"
definition DP_PEER_DEVICE_SST_SINK :: u8 where "DP_PEER_DEVICE_SST_SINK = 3"
definition DP_PEER_DEVICE_DP_LEGACY_CONV :: u8 where "DP_PEER_DEVICE_DP_LEGACY_CONV = 4"

lemmas peer_devices = DP_PEER_DEVICE_NONE_def DP_PEER_DEVICE_MST_BRANCHING_def DP_PEER_DEVICE_SST_SINK_def
  DP_PEER_DEVICE_DP_LEGACY_CONV_def

section \<open>Relative addresses\<close>

text \<open>
  \<open>r\<close> is what the caller's array holds. \<open>None\<close> is an access outside the eight bytes of an address.
\<close>

definition drm_dp_calculate_rad :: "u8 \<Rightarrow> u8 list \<Rightarrow> u8 \<Rightarrow> u8 list \<Rightarrow> (u8 \<times> u8 list) option" where
  "drm_dp_calculate_rad parent_lct parent_rad port_num r =
     (let l = unat parent_lct;
          idx = (l - 1) div 2;
          shift = (if 1 < l \<and> even l then 0 else 4)
      in do { r \<leftarrow> (if 1 < l then do { d \<leftarrow> buf_slice parent_rad 0 (idx + 1); buf_put r 0 d } else buf_put r 0 [0]);
              b \<leftarrow> buf_get r idx;
              r \<leftarrow> buf_put r idx [b OR push_bit shift port_num];
              Some (parent_lct + 1, r) })"

definition drm_dp_add_mst_branch_device :: "nat \<Rightarrow> u8 \<Rightarrow> u8 list \<Rightarrow> mst_branch option" where
  "drm_dp_add_mst_branch_device new_id l r =
     do { r \<leftarrow> (if 1 < l then do { d \<leftarrow> buf_slice r 0 (unat l div 2); buf_put (replicate 8 0) 0 d }
                else Some (replicate 8 0));
          Some (Branch new_id l r (replicate 16 0) []) }"

text \<open>
  The numbers \<open>drm_dp_mst_rad_to_str\<close> prints for an address: \<open>BIT_MASK(4)\<close> is the bit of value 16.
\<close>

definition drm_dp_mst_rad_to_str :: "u8 list \<Rightarrow> u8 \<Rightarrow> u8 list option" where
  "drm_dp_mst_rad_to_str r l =
     (if 16 < l then None
      else map_opt (\<lambda>i. map_option (\<lambda>b. if i mod 2 \<noteq> 0 then drop_bit 4 b else b AND 0x10) (buf_get r (i div 2))) [0..<unat l])"

text \<open>The decimal digits of a number, and the name of a connector.\<close>

fun dec :: "nat \<Rightarrow> string" where
  "dec n = (if n < 10 then [char_of (48 + n)] else dec (n div 10) @ [char_of (48 + n mod 10)])"

definition rad_nibble :: "u8 list \<Rightarrow> nat \<Rightarrow> u8 option" where
  "rad_nibble r i = map_option (\<lambda>b. drop_bit (if i mod 2 \<noteq> 0 then 0 else 4) b AND 0xf) (buf_get r (i div 2))"

definition build_mst_prop_path :: "nat \<Rightarrow> mst_branch \<Rightarrow> nat \<Rightarrow> string option" where
  "build_mst_prop_path conn_base_id mstb pnum =
     do { ns \<leftarrow> map_opt (rad_nibble (br_rad mstb)) [0..<unat (br_lct mstb) - 1];
          Some (''mst:'' @ dec conn_base_id @ concat (map (\<lambda>n. ''-'' @ dec (unat n)) ns) @ ''-'' @ dec pnum) }"

section \<open>Lookups\<close>

text \<open>The first port with the number.\<close>

definition find_port :: "u8 \<Rightarrow> mst_port list \<Rightarrow> mst_port option" where
  "find_port num ports = List.find (\<lambda>p. p_num p = num) ports"

definition drm_dp_get_port :: "(nat \<Rightarrow> bool) \<Rightarrow> mst_branch \<Rightarrow> u8 \<Rightarrow> mst_port option" where
  "drm_dp_get_port alive mstb port_num =
     (case find_port port_num (br_ports mstb) of
        None \<Rightarrow> None
      | Some p \<Rightarrow> if alive (pd_id (p_data p)) then Some p else None)"

text \<open>
  The walk down from the primary branch: \<open>n\<close> links are left, \<open>i\<close> is the index of the next. When no
  port has the number the walk stays where it is. \<open>None\<close> is a read outside the address.
\<close>

fun walk_rad :: "nat \<Rightarrow> u8 list \<Rightarrow> nat \<Rightarrow> mst_branch \<Rightarrow> mst_branch option option" where
  "walk_rad 0 r i mstb = Some (Some mstb)"
| "walk_rad (Suc n) r i mstb =
     do { num \<leftarrow> rad_nibble r i;
          case find_port num (br_ports mstb) of
            None \<Rightarrow> walk_rad n r (i + 1) mstb
          | Some p \<Rightarrow>
              (case p_mstb p of
                 None \<Rightarrow> Some None
               | Some c \<Rightarrow> walk_rad n r (i + 1) c) }"

definition drm_dp_get_mst_branch_device ::
  "(nat \<Rightarrow> bool) \<Rightarrow> mst_branch option \<Rightarrow> u8 \<Rightarrow> u8 list \<Rightarrow> mst_branch option option" where
  "drm_dp_get_mst_branch_device alive mst_primary l r =
     (case mst_primary of
        None \<Rightarrow> Some None
      | Some root \<Rightarrow>
          map_option (\<lambda>r. case r of None \<Rightarrow> None | Some b \<Rightarrow> if alive (br_id b) then Some b else None)
            (walk_rad (unat l - 1) r 0 root))"

text \<open>The recursive searches, by identity and by GUID.\<close>

fun mstb_search :: "(mst_branch \<Rightarrow> bool) \<Rightarrow> mst_branch \<Rightarrow> mst_branch option"
  and ports_search :: "(mst_branch \<Rightarrow> bool) \<Rightarrow> mst_port list \<Rightarrow> mst_branch option" where
  "mstb_search P (Branch i l r g ps) = (if P (Branch i l r g ps) then Some (Branch i l r g ps) else ports_search P ps)"
| "ports_search P [] = None"
| "ports_search P (Port n d None # ps) = ports_search P ps"
| "ports_search P (Port n d (Some c) # ps) =
     (case mstb_search P c of Some b \<Rightarrow> Some b | None \<Rightarrow> ports_search P ps)"

definition drm_dp_mst_topology_get_mstb_validated_locked :: "mst_branch \<Rightarrow> nat \<Rightarrow> mst_branch option" where
  "drm_dp_mst_topology_get_mstb_validated_locked mstb to_find = mstb_search (\<lambda>b. br_id b = to_find) mstb"

definition drm_dp_mst_topology_get_mstb_validated :: "(nat \<Rightarrow> bool) \<Rightarrow> mst_branch option \<Rightarrow> nat \<Rightarrow> mst_branch option" where
  "drm_dp_mst_topology_get_mstb_validated alive mst_primary to_find =
     do { root \<leftarrow> mst_primary;
          b \<leftarrow> drm_dp_mst_topology_get_mstb_validated_locked root to_find;
          if alive (br_id b) then Some b else None }"

definition get_mst_branch_device_by_guid_helper :: "mst_branch \<Rightarrow> u8 list \<Rightarrow> mst_branch option" where
  "get_mst_branch_device_by_guid_helper mstb guid = mstb_search (\<lambda>b. br_guid b = guid) mstb"

definition drm_dp_get_mst_branch_device_by_guid :: "(nat \<Rightarrow> bool) \<Rightarrow> mst_branch \<Rightarrow> u8 list \<Rightarrow> mst_branch option" where
  "drm_dp_get_mst_branch_device_by_guid alive mst_primary guid =
     do { b \<leftarrow> get_mst_branch_device_by_guid_helper mst_primary guid;
          if alive (br_id b) then Some b else None }"

fun port_search :: "nat \<Rightarrow> mst_branch \<Rightarrow> mst_port option"
  and port_search_list :: "nat \<Rightarrow> mst_port list \<Rightarrow> mst_port option" where
  "port_search i (Branch j l r g ps) = port_search_list i ps"
| "port_search_list i [] = None"
| "port_search_list i (Port n d m # ps) =
     (if pd_id d = i then Some (Port n d m)
      else case m of
             None \<Rightarrow> port_search_list i ps
           | Some c \<Rightarrow> (case port_search i c of Some p \<Rightarrow> Some p | None \<Rightarrow> port_search_list i ps))"

definition drm_dp_mst_topology_get_port_validated_locked :: "mst_branch \<Rightarrow> nat \<Rightarrow> mst_port option" where
  "drm_dp_mst_topology_get_port_validated_locked mstb to_find = port_search to_find mstb"

definition drm_dp_mst_topology_get_port_validated :: "(nat \<Rightarrow> bool) \<Rightarrow> mst_branch option \<Rightarrow> nat \<Rightarrow> mst_port option" where
  "drm_dp_mst_topology_get_port_validated alive mst_primary to_find =
     do { root \<leftarrow> mst_primary;
          p \<leftarrow> drm_dp_mst_topology_get_port_validated_locked root to_find;
          if alive (pd_id (p_data p)) then Some p else None }"

section \<open>Changing the type of a port\<close>

definition drm_dp_mst_is_end_device :: "u8 \<Rightarrow> bool \<Rightarrow> bool" where
  "drm_dp_mst_is_end_device pdt mcs =
     (if pdt = DP_PEER_DEVICE_DP_LEGACY_CONV \<or> pdt = DP_PEER_DEVICE_SST_SINK then True
      else if pdt = DP_PEER_DEVICE_MST_BRANCHING then \<not> mcs
      else True)"

text \<open>
  What the environment answers: whether memory for a port and for a branch is there, the result of
  registering the I2C bus, the answer to the request for path resources (the error when none came,
  otherwise the body of an acknowledgement, or nothing for a refusal), whether a connector can be made, the identities of what is created, and what the array on the stack holds.
\<close>

record mst_env =
  ev_port_mem :: bool
  ev_mstb_mem :: bool
  ev_i2c_ret :: int
  ev_enum_error :: int
  ev_enum_ack :: "enum_path_ack option"
  ev_connector :: bool
  ev_port_id :: nat
  ev_mstb_id :: nat
  ev_stack :: "u8 list"

definition ENOMEM_code :: int where "ENOMEM_code = 12"

text \<open>\<open>parent_lct\<close> and \<open>parent_rad\<close> are those of the branch the port belongs to. \<open>None\<close> is an access outside an array.\<close>

definition drm_dp_port_set_pdt ::
  "mst_env \<Rightarrow> u8 \<Rightarrow> u8 list \<Rightarrow> mst_port \<Rightarrow> u8 \<Rightarrow> bool \<Rightarrow> (mst_port \<times> int) option" where
  "drm_dp_port_set_pdt ev parent_lct parent_rad port new_pdt new_mcs =
     (case port of Port num d mstb \<Rightarrow>
        if pd_pdt d = new_pdt \<and> pd_mcs d = new_mcs then Some (port, 0)
        else if pd_pdt d \<noteq> DP_PEER_DEVICE_NONE \<and> drm_dp_mst_is_end_device (pd_pdt d) (pd_mcs d) \<and>
                new_pdt \<noteq> DP_PEER_DEVICE_NONE \<and> drm_dp_mst_is_end_device new_pdt new_mcs
        then Some (Port num (d\<lparr>pd_pdt := new_pdt, pd_mcs := new_mcs\<rparr>) mstb, 0)
        else
          let mstb = (if pd_pdt d \<noteq> DP_PEER_DEVICE_NONE \<and> \<not> drm_dp_mst_is_end_device (pd_pdt d) (pd_mcs d) then None else mstb);
              d = d\<lparr>pd_pdt := new_pdt, pd_mcs := new_mcs\<rparr>
          in if new_pdt = DP_PEER_DEVICE_NONE then Some (Port num d mstb, 0)
             else if drm_dp_mst_is_end_device new_pdt new_mcs then
               Some (Port num (if ev_i2c_ret ev < 0 then d\<lparr>pd_pdt := DP_PEER_DEVICE_NONE\<rparr> else d) mstb, ev_i2c_ret ev)
             else do {
               (l, r) \<leftarrow> drm_dp_calculate_rad parent_lct parent_rad num (ev_stack ev);
               if \<not> ev_mstb_mem ev then Some (Port num (d\<lparr>pd_pdt := DP_PEER_DEVICE_NONE\<rparr>) mstb, - ENOMEM_code)
               else do { b \<leftarrow> drm_dp_add_mst_branch_device (ev_mstb_id ev) l r;
                         Some (Port num d (Some b), 1) } })"

section \<open>Handling one port of a link address reply\<close>

definition drm_dp_mst_add_port :: "mst_env \<Rightarrow> u8 \<Rightarrow> mst_port option" where
  "drm_dp_mst_add_port ev port_number =
     (if ev_port_mem ev
      then Some (Port port_number
             \<lparr>pd_id = ev_port_id ev, pd_pdt = 0, pd_mcs = False, pd_input = False, pd_ddps = False, pd_ldps = False,
              pd_dpcd_rev = 0, pd_num_sdp_streams = 0, pd_num_sdp_stream_sinks = 0, pd_full_pbn = 0, pd_fec_capable = False,
              pd_connector = False\<rparr> None)
      else None)"

definition set_ports :: "mst_branch \<Rightarrow> mst_port list \<Rightarrow> mst_branch" where
  "set_ports b ps = Branch (br_id b) (br_lct b) (br_rad b) (br_guid b) ps"

definition drm_dp_mst_topology_unlink_port :: "mst_branch \<Rightarrow> mst_port \<Rightarrow> mst_branch" where
  "drm_dp_mst_topology_unlink_port b port =
     set_ports b (filter (\<lambda>p. pd_id (p_data p) \<noteq> pd_id (p_data port)) (br_ports b))"

text \<open>The port as stored in the list of the branch.\<close>

definition put_port :: "mst_branch \<Rightarrow> mst_port \<Rightarrow> mst_branch" where
  "put_port b port =
     set_ports b (map (\<lambda>p. if pd_id (p_data p) = pd_id (p_data port) then port else p) (br_ports b))"

text \<open>
  The port to update, with whether it was created, whether something changed, and the old plug
  status; or the branch as it is when there is no memory for a port.
\<close>

definition choose_port ::
  "mst_env \<Rightarrow> (nat \<Rightarrow> bool) \<Rightarrow> mst_branch \<Rightarrow> la_port \<Rightarrow> mst_branch + mst_branch \<times> mst_port \<times> bool \<times> bool \<times> bool" where
  "choose_port ev alive b msg =
     (case drm_dp_get_port alive b (la_port_number msg) of
        None \<Rightarrow>
          (case drm_dp_mst_add_port ev (la_port_number msg) of
             None \<Rightarrow> Inl b
           | Some port \<Rightarrow> Inr (b, port, True, True, False))
      | Some port \<Rightarrow>
          let d = p_data port
          in if \<not> pd_input d \<and> input_port msg \<and> pd_connector d then
               let b = drm_dp_mst_topology_unlink_port b port
               in (case drm_dp_mst_add_port ev (la_port_number msg) of
                     None \<Rightarrow> Inl b
                   | Some port \<Rightarrow> Inr (b, port, True, True, False))
             else if pd_input d \<and> \<not> input_port msg then Inr (b, port, False, True, False)
             else if pd_connector d then
               Inr (b, port, False,
                    pd_ddps d \<noteq> la_ddps msg \<or>
                    pd_ddps d \<and> (pd_ldps d \<noteq> legacy_device_plug_status msg \<or> pd_dpcd_rev d \<noteq> dpcd_revision msg \<or>
                      pd_mcs d \<noteq> la_mcs msg \<or> pd_pdt d \<noteq> peer_device_type msg \<or>
                      pd_num_sdp_stream_sinks d \<noteq> num_sdp_stream_sinks msg),
                    pd_ddps d)
             else Inr (b, port, False, False, False))"

definition update_port_data :: "port_data \<Rightarrow> la_port \<Rightarrow> port_data" where
  "update_port_data d msg =
     d\<lparr>pd_input := input_port msg, pd_ddps := la_ddps msg, pd_ldps := legacy_device_plug_status msg,
       pd_dpcd_rev := dpcd_revision msg, pd_num_sdp_streams := num_sdp_streams msg,
       pd_num_sdp_stream_sinks := num_sdp_stream_sinks msg\<rparr>"

definition map_data :: "(port_data \<Rightarrow> port_data) \<Rightarrow> mst_port \<Rightarrow> mst_port" where
  "map_data f p = (case p of Port n d m \<Rightarrow> Port n (f d) m)"

text \<open>What the answer to a request for path resources does to the port; its result.\<close>

definition drm_dp_send_enum_path_resources :: "mst_env \<Rightarrow> port_data \<Rightarrow> port_data \<times> int" where
  "drm_dp_send_enum_path_resources ev d =
     (if ev_enum_error ev < 0 then (d, ev_enum_error ev)
      else case ev_enum_ack ev of
             None \<Rightarrow> (d, 0)
           | Some a \<Rightarrow>
               (d\<lparr>pd_full_pbn := full_payload_bw_number a, pd_fec_capable := fec_capable a\<rparr>,
                of_bool (pd_full_pbn d \<noteq> full_payload_bw_number a \<or> pd_fec_capable d \<noteq> fec_capable a)))"

text \<open>The second half of the handler, once the port is in the list of the branch.
  \<open>send\<close> is the link address request to the branch below, \<open>drm_dp_send_link_address\<close> further down: what
  it makes of the branch, and its result.\<close>

definition finish_port ::
  "mst_env \<Rightarrow> (mst_branch \<Rightarrow> (mst_branch \<times> int) option) \<Rightarrow> bool \<Rightarrow> bool \<Rightarrow> u8 \<Rightarrow> bool \<Rightarrow> mst_branch \<Rightarrow> mst_port \<Rightarrow> (mst_branch \<times> int) option" where
  "finish_port ev send created changed new_pdt new_mcs b port =
     do {
       (port, ret) \<leftarrow> drm_dp_port_set_pdt ev (br_lct b) (br_rad b) port new_pdt new_mcs;
       let b = put_port b port;
       if ret < 0 then Some (drm_dp_mst_topology_unlink_port b port, ret)
       else
         let send_link_addr = (ret = 1 \<or> \<not> created \<and> pd_pdt (p_data port) = DP_PEER_DEVICE_MST_BRANCHING \<and> pd_mcs (p_data port));
             port = (if pd_connector (p_data port) \<or> pd_input (p_data port) then port
                     else map_data (\<lambda>d. d\<lparr>pd_connector := ev_connector ev\<rparr>) port);
             b = put_port b port
         in case p_mstb port of
              None \<Rightarrow> Some (b, of_bool changed)
            | Some c \<Rightarrow>
                if send_link_addr then do {
                  (c, ret) \<leftarrow> send c;
                  let b = put_port b (Port (p_num port) (p_data port) (Some c));
                  if ret < 0 then Some (b, ret) else Some (b, of_bool (changed \<or> ret = 1)) }
                else Some (b, of_bool changed) }"

definition drm_dp_mst_handle_link_address_port ::
  "mst_env \<Rightarrow> (nat \<Rightarrow> bool) \<Rightarrow> (mst_branch \<Rightarrow> (mst_branch \<times> int) option) \<Rightarrow> mst_branch \<Rightarrow> la_port \<Rightarrow> (mst_branch \<times> int) option" where
  "drm_dp_mst_handle_link_address_port ev alive send b msg =
     (case choose_port ev alive b msg of
        Inl b \<Rightarrow> Some (b, - ENOMEM_code)
      | Inr (b, port, created, changed, old_ddps) \<Rightarrow>
          let port = map_data (\<lambda>d. update_port_data d msg) port;
              b = (if created then set_ports b (port # br_ports b) else b);
              probe = (old_ddps \<noteq> la_ddps msg \<or> \<not> created);
              ask = (probe \<and> la_ddps msg \<and> \<not> input_port msg)
          in finish_port ev send created (changed \<or> ask \<and> snd (drm_dp_send_enum_path_resources ev (p_data port)) = 1)
               (if input_port msg then DP_PEER_DEVICE_NONE else peer_device_type msg) (la_mcs msg) b
               (if ask then map_data (\<lambda>d. fst (drm_dp_send_enum_path_resources ev d)) port
                else if probe then map_data (\<lambda>d. d\<lparr>pd_full_pbn := 0\<rparr>) port else port))"

section \<open>Asking a branch for its ports\<close>

text \<open>\<open>salt\<close> is the time, written to both halves of a GUID that is zero; the result says whether it was not.\<close>

definition drm_dp_validate_guid :: "u64 \<Rightarrow> u8 list \<Rightarrow> u8 list \<times> bool" where
  "drm_dp_validate_guid salt guid =
     (if list_ex (\<lambda>x. x \<noteq> 0) guid then (guid, True)
      else let s = map (\<lambda>i. ucast (drop_bit (8 * i) salt)) [0..<8] in (s @ s, False))"

definition set_guid :: "mst_branch \<Rightarrow> u8 list \<Rightarrow> mst_branch" where
  "set_guid b guid = Branch (br_id b) (br_lct b) (br_rad b) guid (br_ports b)"

text \<open>\<open>written\<close> is what writing the GUID to the branch returns, over the port above it or the AUX channel.\<close>

definition drm_dp_check_mstb_guid :: "int \<Rightarrow> u64 \<Rightarrow> mst_branch \<Rightarrow> u8 list \<Rightarrow> mst_branch \<times> int" where
  "drm_dp_check_mstb_guid written salt b guid =
     (let (guid, valid) = drm_dp_validate_guid salt guid;
          ret = (if valid then 0 else written)
      in (set_guid b guid, if ret < 16 \<and> 0 < ret then - EPROTO_code else if ret = 16 then 0 else ret))"

text \<open>
  What the environment answers to the requests. A request is named by its position: the places, in the
  replies from the first branch on, of the ports that lead to the branch it goes to; a port of a reply
  by the position of the request and its place. \<open>la_waited\<close> is what waiting for the reply returns, and
  \<open>la_answer\<close> the reply, or nothing for a refusal.
\<close>

record la_env =
  la_mem :: "nat list \<Rightarrow> bool"
  la_waited :: "nat list \<Rightarrow> int"
  la_answer :: "nat list \<Rightarrow> link_address_reply option"
  la_written :: "nat list \<Rightarrow> int"
  la_salt :: "nat list \<Rightarrow> u64"
  la_port_env :: "nat list \<Rightarrow> mst_env"

text \<open>
  The loop over the ports of the reply. \<open>handle\<close> is the handler of the port at a place. The result is the
  branch, the last error or 0, whether something has changed, and the mask of the port numbers, which
  the parser cuts to four bits.
\<close>

fun link_address_ports ::
  "(nat \<Rightarrow> mst_branch \<Rightarrow> la_port \<Rightarrow> (mst_branch \<times> int) option) \<Rightarrow> nat \<Rightarrow> la_port list \<Rightarrow> mst_branch \<Rightarrow> bool \<Rightarrow> u32 \<Rightarrow>
    (mst_branch \<times> int \<times> bool \<times> u32) option" where
  "link_address_ports handle i [] b changed msk = Some (b, 0, changed, msk)"
| "link_address_ports handle i (m # ms) b changed msk =
     do { let msk = msk OR push_bit (unat (la_port_number m)) 1;
          (b, ret) \<leftarrow> handle i b m;
          if ret = 1 then link_address_ports handle (i + 1) ms b True msk
          else if ret < 0 then Some (b, ret, changed, msk)
          else link_address_ports handle (i + 1) ms b changed msk }"

text \<open>Ports that were not in the reply are removed.\<close>

definition prune_ports :: "u32 \<Rightarrow> mst_branch \<Rightarrow> mst_branch" where
  "prune_ports msk b = set_ports b (filter (\<lambda>p. bit msk (unat (p_num p))) (br_ports b))"

text \<open>The first argument bounds the depth; \<open>None\<close> says that it is not enough, or an access outside an array.\<close>

primrec drm_dp_send_link_address ::
  "nat \<Rightarrow> la_env \<Rightarrow> (nat \<Rightarrow> bool) \<Rightarrow> nat list \<Rightarrow> mst_branch \<Rightarrow> (mst_branch \<times> int) option" where
  "drm_dp_send_link_address 0 ev alive pos b = None"
| "drm_dp_send_link_address (Suc n) ev alive pos b =
     (if \<not> la_mem ev pos then Some (b, - ENOMEM_code)
      else if la_waited ev pos \<le> 0 then Some (b, la_waited ev pos)
      else case la_answer ev pos of
        None \<Rightarrow> Some (b, - EIO_code)
      | Some reply \<Rightarrow>
          let (b, ret) = drm_dp_check_mstb_guid (la_written ev pos) (la_salt ev pos) b (la_guid reply)
          in if ret \<noteq> 0 then Some (b, if ret < 0 then ret else 0)
             else if length (la_ports reply) < unat (nports reply) then None
             else do {
               (b, ret, changed, msk) \<leftarrow> link_address_ports
                 (\<lambda>i. drm_dp_mst_handle_link_address_port (la_port_env ev (pos @ [i])) alive (drm_dp_send_link_address n ev alive (pos @ [i])))
                 0 (take (unat (nports reply)) (la_ports reply)) b False 0;
               if ret < 0 then Some (b, ret)
               else Some (prune_ports msk b, of_bool (changed \<or> length (br_ports (prune_ports msk b)) < length (br_ports b))) })"

text \<open>The identities of the ports in a tree.\<close>

fun branch_ids :: "mst_branch \<Rightarrow> nat set"
  and ports_ids :: "mst_port list \<Rightarrow> nat set"
  and port_ids :: "mst_port \<Rightarrow> nat set" where
  "branch_ids (Branch i c r g ps) = ports_ids ps"
| "ports_ids [] = {}"
| "ports_ids (p # ps) = port_ids p \<union> ports_ids ps"
| "port_ids (Port n d m) = insert (pd_id d) (case m of None \<Rightarrow> {} | Some b \<Rightarrow> branch_ids b)"

end
