(* ===== verification/Mst_Topology_Props.thy ===== *)
theory Mst_Topology_Props
  imports Mst_Topology Sideband_Req_Props "HOL-Library.Countable"
begin

text \<open>
  What holds of the topology: the address computed for a new branch is the path to it, so that the
  lookup by address finds every branch; the searches find what is in the tree; and asking a branch for
  its ports, with the requests this sends on to the branches below, keeps the tree well formed.
\<close>

section \<open>Addresses as paths of port numbers\<close>

definition nib :: "u8 list \<Rightarrow> nat \<Rightarrow> u8" where
  "nib path i = (if i < length path then path ! i else 0)"

definition rad_byte :: "u8 list \<Rightarrow> nat \<Rightarrow> u8" where
  "rad_byte path k = push_bit 4 (nib path (2 * k)) OR nib path (2 * k + 1)"

definition rad_of :: "u8 list \<Rightarrow> u8 list" where
  "rad_of path = map (rad_byte path) [0..<8]"

abbreviation nibbles :: "u8 list \<Rightarrow> bool" where
  "nibbles path \<equiv> list_all (\<lambda>n. n < 16) path"

lemma length_rad_of [simp]: "length (rad_of path) = 8"
  by (simp add: rad_of_def)

lemma nth_rad_of: "k < 8 \<Longrightarrow> rad_of path ! k = rad_byte path k"
  by (simp add: rad_of_def)

lemma nib_small: "nibbles path \<Longrightarrow> nib path i < 16"
  by (simp add: nib_def list_all_length)

lemma rad_byte_fields:
  assumes "nibbles path"
  shows "drop_bit 4 (rad_byte path k) AND 0xf = nib path (2 * k)" "rad_byte path k AND 0xf = nib path (2 * k + 1)"
  using nibble_fields(1,2) [OF nib_small [OF assms, of "2 * k"] nib_small [OF assms, of "2 * k + 1"]]
  unfolding rad_byte_def low_nibble [OF nib_small [OF assms]] by simp_all

lemma rad_nibble_of:
  assumes "nibbles path" "i < 16"
  shows "rad_nibble (rad_of path) i = Some (nib path i)"
proof -
  have "i div 2 < 8" using assms(2) by simp
  then have b: "buf_get (rad_of path) (i div 2) = Some (rad_byte path (i div 2))"
    by (simp add: buf_get_def nth_rad_of)
  show ?thesis
  proof (cases "even i")
    case True
    then have "2 * (i div 2) = i" by simp
    then show ?thesis using True b rad_byte_fields(1) [OF assms(1), of "i div 2"]
      by (simp add: rad_nibble_def even_iff_mod_2_eq_zero)
  next
    case False
    then have "2 * (i div 2) + 1 = i" by (simp add: odd_two_times_div_two_succ)
    then show ?thesis using False b rad_byte_fields(2) [OF assms(1), of "i div 2"]
      by (simp add: rad_nibble_def odd_iff_mod_2_eq_one)
  qed
qed

lemma nib_snoc: "nib (path @ [n]) i = (if i = length path then n else nib path i)"
  by (auto simp: nib_def nth_append)

lemma unat_lct: "k < 255 \<Longrightarrow> unat (word_of_nat (k + 1) :: u8) = k + 1"
  by (simp add: unat_of_nat take_bit_eq_mod del: of_nat_Suc of_nat_add)

text \<open>The address computed for a port, and the branch made from it.\<close>

lemma rad_byte_snoc:
  "rad_byte (path @ [n]) (length path div 2) =
    (if length path = 0 then 0 else rad_byte path (length path div 2)) OR push_bit (if odd (length path) then 0 else 4) n"
proof (cases "odd (length path)")
  case True
  then have "2 * (length path div 2) + 1 = length path" by (simp add: odd_two_times_div_two_succ)
  then show ?thesis using True by (auto simp: rad_byte_def nib_def nth_append)
next
  case False
  then have "2 * (length path div 2) = length path" by simp
  then show ?thesis using False by (auto simp: rad_byte_def nib_snoc nib_def)
qed

lemma rad_byte_other: "k < length path div 2 \<Longrightarrow> rad_byte (path @ [n]) k = rad_byte path k"
  by (auto simp: rad_byte_def nib_snoc)

lemma calculate_rad_ok:
  assumes "length path < 15" "length stack = 8"
  shows "\<exists>r. drm_dp_calculate_rad (word_of_nat (length path + 1)) (rad_of path) n stack =
      Some (word_of_nat (length path + 2), r) \<and> length r = 8 \<and>
      take (length path div 2 + 1) r = take (length path div 2 + 1) (rad_of (path @ [n]))"
proof -
  let ?k = "length path" and ?i = "length path div 2"
  have u: "unat (word_of_nat (?k + 1) :: u8) = ?k + 1" using assms(1) by (intro unat_lct) simp
  have i: "?i < 8" using assms(1) by simp
  have l: "(word_of_nat (?k + 1) :: u8) + 1 = word_of_nat (?k + 2)" by simp
  define base where "base = (if ?k = 0 then [0] else take (?i + 1) (rad_of path))"
  have base: "length base = ?i + 1" "\<And>j. j < ?i \<Longrightarrow> base ! j = rad_byte path j"
      "base ! ?i = (if ?k = 0 then 0 else rad_byte path ?i)"
    using i by (auto simp: base_def nth_rad_of)
  define r where "r = take ?i base @ [base ! ?i OR push_bit (if odd ?k then 0 else 4) n] @ drop (?i + 1) stack"
  have "drm_dp_calculate_rad (word_of_nat (?k + 1)) (rad_of path) n stack = Some (word_of_nat (?k + 2), r)"
    using i assms(2) base(1)
    unfolding drm_dp_calculate_rad_def u Let_def l
    by (auto simp: buf_slice_def buf_put_def buf_get_def nth_append base_def r_def)
  moreover have "take (?i + 1) r = take (?i + 1) (rad_of (path @ [n]))"
  proof (rule nth_equalityI)
    show "length (take (?i + 1) r) = length (take (?i + 1) (rad_of (path @ [n])))"
      using i base(1) assms(2) by (simp add: r_def)
    fix j assume "j < length (take (?i + 1) r)"
    then have j: "j \<le> ?i" by simp
    then show "take (?i + 1) r ! j = take (?i + 1) (rad_of (path @ [n])) ! j"
      using i base rad_byte_snoc [of path n] rad_byte_other [of j path n]
      by (cases "j = ?i") (auto simp: r_def nth_append nth_rad_of)
  qed
  moreover have "length r = 8" using i base(1) assms(2) by (simp add: r_def)
  ultimately show ?thesis by blast
qed

lemma add_branch_ok:
  assumes "length path < 15" "length r = 8" "take (length path div 2 + 1) r = take (length path div 2 + 1) (rad_of (path @ [n]))"
  shows "drm_dp_add_mst_branch_device i (word_of_nat (length path + 2)) r =
    Some (Branch i (word_of_nat (length path + 2)) (rad_of (path @ [n])) (replicate 16 0) [])"
proof -
  let ?m = "length path div 2 + 1"
  have u: "unat (word_of_nat (length path + 2) :: u8) = length path + 2"
    using unat_lct [of "length path + 1"] assms(1) by simp
  have g: "(1::u8) < word_of_nat (length path + 2)" unfolding word_less_nat_alt u by simp
  have m: "unat (word_of_nat (length path + 2) :: u8) div 2 = ?m" "?m \<le> 8" unfolding u using assms(1) by simp_all
  have "take ?m r @ drop ?m (replicate 8 0) = rad_of (path @ [n])"
  proof (rule nth_equalityI)
    show "length (take ?m r @ drop ?m (replicate 8 0)) = length (rad_of (path @ [n]))" using m(2) assms(2) by simp
    fix j assume "j < length (take ?m r @ drop ?m (replicate 8 0))"
    then have j: "j < 8" using m(2) assms(2) by simp
    have "rad_of (path @ [n]) ! j = 0" if "?m \<le> j"
      using that j by (auto simp: nth_rad_of rad_byte_def nib_def)
    moreover have "take ?m r ! j = rad_of (path @ [n]) ! j" if "j < ?m"
      using that unfolding assms(3) by simp
    ultimately show "(take ?m r @ drop ?m (replicate 8 0)) ! j = rad_of (path @ [n]) ! j"
      using j m(2) assms(2) by (auto simp: nth_append)
  qed
  then show ?thesis
    using g m(2) assms(2) unfolding drm_dp_add_mst_branch_device_def m(1) by (simp add: buf_slice_def buf_put_def)
qed

section \<open>Well-formed topologies\<close>

definition port_shape :: "mst_port \<Rightarrow> bool" where
  "port_shape p \<longleftrightarrow> p_num p < 16 \<and>
     (p_mstb p \<noteq> None \<longleftrightarrow> pd_pdt (p_data p) \<noteq> DP_PEER_DEVICE_NONE \<and> \<not> drm_dp_mst_is_end_device (pd_pdt (p_data p)) (pd_mcs (p_data p)))"

fun wf_branch :: "u8 list \<Rightarrow> mst_branch \<Rightarrow> bool" and wf_ports :: "u8 list \<Rightarrow> mst_port list \<Rightarrow> bool" where
  "wf_branch path (Branch i l r g ps) \<longleftrightarrow> length path \<le> 15 \<and> nibbles path \<and> l = word_of_nat (length path + 1) \<and> r = rad_of path \<and>
     distinct (map p_num ps) \<and> distinct (map (\<lambda>p. pd_id (p_data p)) ps) \<and> wf_ports path ps"
| "wf_ports path [] \<longleftrightarrow> True"
| "wf_ports path (Port n d None # ps) \<longleftrightarrow> port_shape (Port n d None) \<and> wf_ports path ps"
| "wf_ports path (Port n d (Some c) # ps) \<longleftrightarrow> port_shape (Port n d (Some c)) \<and> wf_branch (path @ [n]) c \<and> wf_ports path ps"

definition wf_port :: "u8 list \<Rightarrow> mst_port \<Rightarrow> bool" where
  "wf_port path p \<longleftrightarrow> port_shape p \<and> (case p_mstb p of None \<Rightarrow> True | Some c \<Rightarrow> wf_branch (path @ [p_num p]) c)"

lemma wf_ports_all: "wf_ports path ps \<longleftrightarrow> list_all (wf_port path) ps"
proof (induction ps)
  case (Cons p ps)
  then show ?case by (cases p; cases "p_mstb p") (auto simp: wf_port_def)
qed simp

lemma wf_branch_iff:
  "wf_branch path b \<longleftrightarrow> length path \<le> 15 \<and> nibbles path \<and> br_lct b = word_of_nat (length path + 1) \<and> br_rad b = rad_of path \<and>
     distinct (map p_num (br_ports b)) \<and> distinct (map (\<lambda>p. pd_id (p_data p)) (br_ports b)) \<and> list_all (wf_port path) (br_ports b)"
  by (cases b) (simp add: wf_ports_all del: of_nat_add of_nat_Suc)

section \<open>Finding a branch by its address\<close>

fun branches :: "mst_branch \<Rightarrow> mst_branch list" and ports_branches :: "mst_port list \<Rightarrow> mst_branch list" where
  "branches (Branch i l r g ps) = Branch i l r g ps # ports_branches ps"
| "ports_branches [] = []"
| "ports_branches (Port n d None # ps) = ports_branches ps"
| "ports_branches (Port n d (Some c) # ps) = branches c @ ports_branches ps"

fun branch_at :: "u8 list \<Rightarrow> mst_branch \<Rightarrow> mst_branch option" where
  "branch_at [] b = Some b"
| "branch_at (n # ns) b = do { p \<leftarrow> find_port n (br_ports b); c \<leftarrow> p_mstb p; branch_at ns c }"

lemma find_port_Some:
  assumes "distinct (map p_num ps)" "p \<in> set ps"
  shows "find_port (p_num p) ps = Some p"
  using assms by (induction ps) (auto simp: find_port_def)

lemma ports_branches_in:
  "b \<in> set (ports_branches ps) \<Longrightarrow> \<exists>p\<in>set ps. \<exists>c. p_mstb p = Some c \<and> b \<in> set (branches c)"
proof (induction ps)
  case (Cons p ps)
  then show ?case by (cases p; cases "p_mstb p") auto
qed simp

lemma branches_reached:
  "b \<in> set (branches root) \<Longrightarrow> wf_branch path root \<Longrightarrow> \<exists>ns. branch_at ns root = Some b \<and> wf_branch (path @ ns) b"
  "b \<in> set (ports_branches ps) \<Longrightarrow> wf_ports path ps \<Longrightarrow>
    \<exists>p\<in>set ps. \<exists>c ns. p_mstb p = Some c \<and> branch_at ns c = Some b \<and> wf_branch (path @ p_num p # ns) b"
proof (induction root and ps arbitrary: path and path rule: branches_ports_branches.induct)
  case (1 i l r g ps)
  show ?case
  proof (cases "b = Branch i l r g ps")
    case True
    then show ?thesis using "1.prems"(2) by (intro exI [of _ "[]"]) simp
  next
    case False
    then have "b \<in> set (ports_branches ps)" "wf_ports path ps" using "1.prems" by auto
    from "1.IH" [OF this] obtain p c ns where p: "p \<in> set ps" "p_mstb p = Some c" "branch_at ns c = Some b"
        "wf_branch (path @ p_num p # ns) b" by blast
    moreover have "find_port (p_num p) ps = Some p" using "1.prems"(2) p(1) by (intro find_port_Some) auto
    ultimately show ?thesis by (intro exI [of _ "p_num p # ns"]) simp
  qed
next
  case (4 n d c ps)
  show ?case
  proof (cases "b \<in> set (branches c)")
    case True
    moreover have "wf_branch (path @ [n]) c" using "4.prems"(2) by simp
    ultimately obtain ns where "branch_at ns c = Some b" "wf_branch ((path @ [n]) @ ns) b" using "4.IH"(1) by blast
    then show ?thesis by (intro bexI [of _ "Port n d (Some c)"]) auto
  next
    case False
    then have "b \<in> set (ports_branches ps)" "wf_ports path ps" using "4.prems" by auto
    from "4.IH"(2) [OF this] show ?thesis by auto
  qed
qed auto

lemma walk_rad_prefix:
  assumes "branch_at ns root = Some b" "\<And>j. j < length ns \<Longrightarrow> rad_nibble r (i + j) = Some (ns ! j)"
  shows "walk_rad (length ns + k) r i root = walk_rad k r (i + length ns) b"
  using assms
proof (induction ns arbitrary: root i)
  case (Cons n ns)
  then obtain p c where p: "find_port n (br_ports root) = Some p" "p_mstb p = Some c" "branch_at ns c = Some b"
    by (auto simp: bind_eq_Some_conv)
  have "rad_nibble r i = Some n" using Cons.prems(2) [of 0] by simp
  moreover have "walk_rad (length ns + k) r (i + 1) c = walk_rad k r (i + 1 + length ns) b"
    using Cons.prems(2) [of "Suc j" for j] by (intro Cons.IH p(3)) auto
  ultimately show ?case using p by simp
qed simp

lemma walk_wf:
  assumes "branch_at ns root = Some b" "wf_branch ns b"
  shows "walk_rad (unat (br_lct b) - 1) (br_rad b) 0 root = Some (Some b)"
proof -
  have w: "length ns \<le> 15" "nibbles ns" "br_lct b = word_of_nat (length ns + 1)" "br_rad b = rad_of ns"
    using assms(2) by (auto simp: wf_branch_iff simp del: of_nat_add of_nat_Suc)
  have "unat (br_lct b) - 1 = length ns" using w(1) unat_lct [of "length ns"] by (simp add: w(3) del: of_nat_add of_nat_Suc)
  moreover have "walk_rad (length ns) (rad_of ns) 0 root = Some (Some b)"
    using w(1) rad_nibble_of [OF w(2)] using walk_rad_prefix [OF assms(1), of _ 0 0] by (simp add: nib_def)
  ultimately show ?thesis using w(4) by simp
qed


section \<open>Handling a link address reply\<close>

lemma not_end_device: "\<not> drm_dp_mst_is_end_device pdt mcs \<longleftrightarrow> pdt = DP_PEER_DEVICE_MST_BRANCHING \<and> mcs"
  by (auto simp: drm_dp_mst_is_end_device_def peer_devices)

text \<open>A branch with 16 links is not made: below one with 15 the new type must not be a branching device.\<close>

lemma set_pdt_ok:
  assumes "wf_port path port" "nibbles path" "length path < 15 \<or> pdt = DP_PEER_DEVICE_NONE \<or> drm_dp_mst_is_end_device pdt mcs"
    "length (ev_stack ev) = 8" "l = word_of_nat (length path + 1)"
  shows "\<exists>port' ret. drm_dp_port_set_pdt ev l (rad_of path) port pdt mcs = Some (port', ret) \<and>
    wf_port path port' \<and> p_num port' = p_num port \<and> pd_id (p_data port') = pd_id (p_data port) \<and> port_ids port' \<subseteq> port_ids port"
proof -
  obtain n d m where port: "port = Port n d m" by (cases port)
  have n: "n < 16" and shape: "m \<noteq> None \<longleftrightarrow> pd_pdt d \<noteq> DP_PEER_DEVICE_NONE \<and> \<not> drm_dp_mst_is_end_device (pd_pdt d) (pd_mcs d)"
    using assms(1) by (simp_all add: port wf_port_def port_shape_def)
  show ?thesis
  proof (cases "pdt = DP_PEER_DEVICE_NONE \<or> drm_dp_mst_is_end_device pdt mcs")
    case True
    then show ?thesis
      using assms(1) n shape
      unfolding drm_dp_port_set_pdt_def port mst_port.case Let_def
      by (auto simp: wf_port_def port_shape_def split: option.splits)
  next
    case False
    then have lt: "length path < 15" using assms(3) by blast
    define l' :: u8 where "l' = word_of_nat (length path + 2)"
    obtain r where r: "drm_dp_calculate_rad l (rad_of path) n (ev_stack ev) = Some (l', r)" "length r = 8"
        "take (length path div 2 + 1) r = take (length path div 2 + 1) (rad_of (path @ [n]))"
      using calculate_rad_ok [OF lt assms(4)] unfolding assms(5) l'_def by blast
    let ?c = "Branch (ev_mstb_id ev) l' (rad_of (path @ [n])) (replicate 16 0) []"
    have c: "drm_dp_add_mst_branch_device (ev_mstb_id ev) l' r = Some ?c"
      using add_branch_ok [OF lt r(2,3)] unfolding l'_def .
    have wc: "wf_branch (path @ [n]) ?c" using assms(2) lt n by (simp add: l'_def)
    show ?thesis
      using assms(1) n shape wc False
      unfolding drm_dp_port_set_pdt_def port mst_port.case Let_def r(1)
      by (auto simp: c wf_port_def port_shape_def simp del: wf_branch.simps split: option.splits)
  qed
qed

definition ids :: "mst_branch \<Rightarrow> nat list" where
  "ids b = map (\<lambda>p. pd_id (p_data p)) (br_ports b)"

lemma port_ids_eq:
  "port_ids p = insert (pd_id (p_data p)) (case p_mstb p of None \<Rightarrow> {} | Some b \<Rightarrow> branch_ids b)"
  by (cases p) simp

lemma branch_ids_eq: "branch_ids b = (\<Union>p\<in>set (br_ports b). port_ids p)"
proof -
  have "ports_ids ps = (\<Union>p\<in>set ps. port_ids p)" for ps by (induction ps) auto
  then show ?thesis by (cases b) simp
qed

lemma set_ports_simps [simp]:
  "br_ports (set_ports b ps) = ps" "br_lct (set_ports b ps) = br_lct b" "br_rad (set_ports b ps) = br_rad b"
  by (simp_all add: set_ports_def)

lemma ids_in: "set (ids b) \<subseteq> branch_ids b"
  by (auto simp: ids_def branch_ids_eq port_ids_eq)

lemma wf_filter: "wf_branch path b \<Longrightarrow> wf_branch path (set_ports b (filter P (br_ports b)))"
  by (simp add: wf_branch_iff list_all_iff distinct_map_filter)

lemma wf_unlink: "wf_branch path b \<Longrightarrow> wf_branch path (drm_dp_mst_topology_unlink_port b p)"
  unfolding drm_dp_mst_topology_unlink_port_def by (rule wf_filter)

lemma unlink_ids: "branch_ids (drm_dp_mst_topology_unlink_port b p) \<subseteq> branch_ids b"
  by (auto simp: branch_ids_eq drm_dp_mst_topology_unlink_port_def)

text \<open>The port numbers in use.\<close>

definition nums :: "mst_branch \<Rightarrow> u8 set" where
  "nums b = p_num ` set (br_ports b)"

lemma wf_put:
  assumes "wf_branch path b" "wf_port path port" "q \<in> set (br_ports b)" "pd_id (p_data q) = pd_id (p_data port)" "p_num q = p_num port"
  shows "wf_branch path (put_port b port)" "nums (put_port b port) = nums b"
proof -
  have d: "distinct (map (\<lambda>p. pd_id (p_data p)) (br_ports b))" using assms(1) by (simp add: wf_branch_iff)
  have u: "p = q" if "p \<in> set (br_ports b)" "pd_id (p_data p) = pd_id (p_data port)" for p
    using d that assms(3,4) by (simp add: distinct_map inj_on_def)
  have m: "map p_num (br_ports (put_port b port)) = map p_num (br_ports b)"
    using u assms(5) by (auto simp: put_port_def intro!: map_cong)
  then show "nums (put_port b port) = nums b" unfolding nums_def by (metis list.set_map)
  have "map (\<lambda>p. pd_id (p_data p)) (br_ports (put_port b port)) = map (\<lambda>p. pd_id (p_data p)) (br_ports b)"
    by (auto simp: put_port_def intro!: map_cong)
  moreover have "list_all (wf_port path) (br_ports (put_port b port))"
    using assms(1,2) by (auto simp: wf_branch_iff put_port_def list_all_iff)
  moreover have "br_lct (put_port b port) = br_lct b" "br_rad (put_port b port) = br_rad b"
    by (simp_all add: put_port_def)
  ultimately show "wf_branch path (put_port b port)" using assms(1) m unfolding wf_branch_iff by metis
qed

lemma put_ids: "branch_ids (put_port b port) \<subseteq> branch_ids b \<union> port_ids port"
  by (auto simp: branch_ids_eq put_port_def split: if_splits)

lemma put_has:
  "q \<in> set (br_ports b) \<Longrightarrow> pd_id (p_data q) = pd_id (p_data port) \<Longrightarrow> port \<in> set (br_ports (put_port b port))"
  by (auto simp: put_port_def)

lemma find_port_in: "find_port n ps = Some p \<Longrightarrow> p \<in> set ps \<and> p_num p = n"
  by (auto simp: find_port_def find_Some_iff)

lemma find_port_none: "find_port n ps = None \<Longrightarrow> n \<notin> set (map p_num ps)"
  by (auto simp: find_port_def find_None_iff)

text \<open>What the choice of the port leaves: a well-formed branch that holds the port, or lacks its number.\<close>

lemma choose_port_ok:
  assumes "wf_branch path b" "la_port_number msg < 16" "ev_port_id ev \<notin> set (ids b)" "\<And>i. alive i"
  shows "case choose_port ev alive b msg of
      Inl b' \<Rightarrow> wf_branch path b' \<and> branch_ids b' \<subseteq> branch_ids b
    | Inr (b', port, created, changed, old) \<Rightarrow> wf_branch path b' \<and> wf_port path port \<and> p_num port = la_port_number msg \<and>
        (if created then pd_id (p_data port) \<notin> set (ids b') \<and> la_port_number msg \<notin> nums b'
         else port \<in> set (br_ports b')) \<and>
        branch_ids b' \<subseteq> branch_ids b \<and> port_ids port \<subseteq> insert (ev_port_id ev) (branch_ids b) \<and>
        insert (la_port_number msg) (nums b') = insert (la_port_number msg) (nums b)"
proof (cases "find_port (la_port_number msg) (br_ports b)")
  case None
  then show ?thesis
    using assms(1-3) find_port_none [OF None]
    by (auto simp: choose_port_def drm_dp_get_port_def drm_dp_mst_add_port_def wf_port_def port_shape_def peer_devices nums_def)
next
  case (Some p)
  have p: "p \<in> set (br_ports b)" "p_num p = la_port_number msg" using find_port_in [OF Some] by auto
  have w: "wf_port path p" "port_ids p \<subseteq> branch_ids b" using assms(1) p(1) by (auto simp: wf_branch_iff list_all_iff branch_ids_eq)
  let ?u = "drm_dp_mst_topology_unlink_port b p"
  have dn: "distinct (map p_num (br_ports b))" "distinct (map (\<lambda>p. pd_id (p_data p)) (br_ports b))" using assms(1) by (simp_all add: wf_branch_iff)
  have u: "wf_branch path ?u" "set (ids ?u) \<subseteq> set (ids b)" "la_port_number msg \<notin> nums ?u"
    "insert (la_port_number msg) (nums ?u) = insert (la_port_number msg) (nums b)"
  proof -
    show "wf_branch path ?u" using assms(1) by (rule wf_unlink)
    show "set (ids ?u) \<subseteq> set (ids b)" by (auto simp: ids_def drm_dp_mst_topology_unlink_port_def)
    have same: "pd_id (p_data q) = pd_id (p_data p) \<longleftrightarrow> p_num q = la_port_number msg" if "q \<in> set (br_ports b)" for q
      using dn p that by (auto simp: distinct_map inj_on_def)
    then show "la_port_number msg \<notin> nums ?u" "insert (la_port_number msg) (nums ?u) = insert (la_port_number msg) (nums b)"
      by (auto simp: nums_def drm_dp_mst_topology_unlink_port_def)
  qed
  have "drm_dp_get_port alive b (la_port_number msg) = Some p" using Some assms(4) by (simp add: drm_dp_get_port_def)
  then show ?thesis
    using assms(1-3) p w u unlink_ids [of b p]
    by (auto simp: choose_port_def drm_dp_mst_add_port_def Let_def wf_port_def [of _ "Port _ _ None"] port_shape_def peer_devices)
qed

lemma wf_map_data:
  "(\<And>d. pd_pdt (f d) = pd_pdt d \<and> pd_mcs (f d) = pd_mcs d) \<Longrightarrow> wf_port path (map_data f p) = wf_port path p"
  by (cases p) (simp add: map_data_def wf_port_def port_shape_def split: option.splits)

lemma map_data_simps [simp]:
  "p_num (map_data f p) = p_num p" "p_mstb (map_data f p) = p_mstb p" "p_data (map_data f p) = f (p_data p)"
  by (cases p, simp add: map_data_def)+

lemma enum_keeps [simp]:
  "pd_pdt (fst (drm_dp_send_enum_path_resources ev d)) = pd_pdt d" "pd_mcs (fst (drm_dp_send_enum_path_resources ev d)) = pd_mcs d"
  "pd_id (fst (drm_dp_send_enum_path_resources ev d)) = pd_id d"
  by (simp_all add: drm_dp_send_enum_path_resources_def split: option.splits)


lemma map_data_ids: "(\<And>d. pd_id (f d) = pd_id d) \<Longrightarrow> port_ids (map_data f p) = port_ids p"
  by (cases p) (simp add: map_data_def)

text \<open>
  What the request to the branch below is relied on for: it keeps the branch well formed and adds only
  the identities in \<open>S\<close>, for branches with identities in \<open>I\<close>.
\<close>

definition sends_well :: "u8 list \<Rightarrow> nat set \<Rightarrow> nat set \<Rightarrow> (mst_branch \<Rightarrow> (mst_branch \<times> int) option) \<Rightarrow> bool" where
  "sends_well path I S send \<longleftrightarrow> (\<forall>c. wf_branch path c \<longrightarrow> branch_ids c \<subseteq> I \<longrightarrow>
     (\<exists>c' ret. send c = Some (c', ret) \<and> wf_branch path c' \<and> branch_ids c' \<subseteq> branch_ids c \<union> S))"

lemma finish_port_ok:
  assumes "wf_branch path b" "wf_port path port" "length path < 15 \<or> pdt = DP_PEER_DEVICE_NONE \<or> drm_dp_mst_is_end_device pdt mcs"
    "length (ev_stack ev) = 8" "q \<in> set (br_ports b)" "pd_id (p_data q) = pd_id (p_data port)" "p_num q = p_num port"
    and send: "sends_well (path @ [p_num port]) I S send" "port_ids port \<subseteq> I"
  shows "\<exists>b' ret. finish_port ev send created changed pdt mcs b port = Some (b', ret) \<and> wf_branch path b' \<and>
    branch_ids b' \<subseteq> branch_ids b \<union> port_ids port \<union> S \<and> (0 \<le> ret \<longrightarrow> nums b' = nums b)"
proof -
  have bl: "br_lct b = word_of_nat (length path + 1)" "br_rad b = rad_of path" "nibbles path"
    using assms(1) unfolding wf_branch_iff by blast+
  obtain p1 ret where p1: "drm_dp_port_set_pdt ev (br_lct b) (br_rad b) port pdt mcs = Some (p1, ret)"
      "wf_port path p1" "p_num p1 = p_num port" "pd_id (p_data p1) = pd_id (p_data port)" "port_ids p1 \<subseteq> port_ids port"
    using set_pdt_ok [OF assms(2) bl(3) assms(3,4) bl(1)] unfolding bl(2) by blast
  let ?b1 = "put_port b p1"
  have b1: "wf_branch path ?b1" "p1 \<in> set (br_ports ?b1)" "nums ?b1 = nums b"
    using wf_put [OF assms(1) p1(2) assms(5)] put_has [OF assms(5)] assms(6,7) p1(3,4) by simp_all
  define p2 where "p2 = (if pd_connector (p_data p1) \<or> pd_input (p_data p1) then p1
     else map_data (\<lambda>d. d\<lparr>pd_connector := ev_connector ev\<rparr>) p1)"
  have p2: "wf_port path p2" "p_num p2 = p_num p1" "pd_id (p_data p2) = pd_id (p_data p1)" "port_ids p2 = port_ids p1"
    using p1(2) by (simp_all add: p2_def wf_map_data map_data_ids)
  let ?b2 = "put_port ?b1 p2"
  have b2: "wf_branch path ?b2" "p2 \<in> set (br_ports ?b2)" "nums ?b2 = nums b"
    using wf_put [OF b1(1) p2(1) b1(2)] put_has [OF b1(2)] p2(2,3) b1(3) by simp_all
  have i1: "branch_ids ?b1 \<subseteq> branch_ids b \<union> port_ids port" using put_ids [of b p1] p1(5) by blast
  have i2: "branch_ids ?b2 \<subseteq> branch_ids b \<union> port_ids port" using put_ids [of ?b1 p2] p2(4) p1(5) i1 by blast
  have iu: "branch_ids (drm_dp_mst_topology_unlink_port ?b1 p1) \<subseteq> branch_ids b \<union> port_ids port" using unlink_ids i1 by blast
  have sent: "\<exists>c' r. send c = Some (c', r) \<and> wf_branch path (put_port ?b2 (Port (p_num p2) (p_data p2) (Some c'))) \<and>
      branch_ids (put_port ?b2 (Port (p_num p2) (p_data p2) (Some c'))) \<subseteq> branch_ids b \<union> port_ids port \<union> S \<and>
      nums (put_port ?b2 (Port (p_num p2) (p_data p2) (Some c'))) = nums b" if c: "p_mstb p2 = Some c" for c
  proof -
    have wc: "wf_branch (path @ [p_num port]) c" using p2(1,2) p1(3) c by (simp add: wf_port_def)
    have "branch_ids c \<subseteq> port_ids p2" using c by (auto simp: port_ids_eq [of p2])
    then have ic: "branch_ids c \<subseteq> port_ids port" using p2(4) p1(5) by blast
    obtain c' r where c': "send c = Some (c', r)" "wf_branch (path @ [p_num port]) c'" "branch_ids c' \<subseteq> branch_ids c \<union> S"
      using send wc ic unfolding sends_well_def by (meson subset_trans)
    let ?p3 = "Port (p_num p2) (p_data p2) (Some c')"
    have w3: "wf_port path ?p3" using c'(2) p2(1,2) p1(3) c by (simp add: wf_port_def port_shape_def)
    have "port_ids ?p3 \<subseteq> port_ids port \<union> S" using c'(3) ic p2(4) p1(5) by (auto simp: port_ids_eq [of p2])
    then have "branch_ids (put_port ?b2 ?p3) \<subseteq> branch_ids b \<union> port_ids port \<union> S" using put_ids [of ?b2 ?p3] i2 by blast
    moreover have "wf_branch path (put_port ?b2 ?p3)" "nums (put_port ?b2 ?p3) = nums b"
      using wf_put [OF b2(1) w3 b2(2)] b2(3) by simp_all
    ultimately show ?thesis using c'(1) by blast
  qed
  show ?thesis
  proof (cases "ret < 0")
    case True
    then show ?thesis using wf_unlink [OF b1(1)] iu unfolding finish_port_def p1(1) Option.bind.simps prod.case Let_def by auto
  next
    case False
    have plain: "\<exists>b' r. Some (?b2, of_bool changed :: int) = Some (b', r) \<and> wf_branch path b' \<and>
        branch_ids b' \<subseteq> branch_ids b \<union> port_ids port \<union> S \<and> (0 \<le> r \<longrightarrow> nums b' = nums b)"
      using b2 i2 by blast
    show ?thesis
    proof (cases "p_mstb p2")
      case None
      then show ?thesis using False plain
        unfolding finish_port_def p1(1) Option.bind.simps prod.case Let_def p2_def [symmetric] by simp
    next
      case (Some c)
      obtain c' r where c': "send c = Some (c', r)" "wf_branch path (put_port ?b2 (Port (p_num p2) (p_data p2) (Some c')))"
        "branch_ids (put_port ?b2 (Port (p_num p2) (p_data p2) (Some c'))) \<subseteq> branch_ids b \<union> port_ids port \<union> S"
        "nums (put_port ?b2 (Port (p_num p2) (p_data p2) (Some c'))) = nums b" using sent [OF Some] by blast
      then show ?thesis using False plain Some
        unfolding finish_port_def p1(1) Option.bind.simps prod.case Let_def p2_def [symmetric] by auto
    qed
  qed
qed

lemma handle_port_ok:
  assumes "wf_branch path b" "la_port_number msg < 16" "ev_port_id ev \<notin> branch_ids b" "length (ev_stack ev) = 8" "\<And>i. alive i"
    and deep: "length path < 15 \<or> input_port msg \<or> drm_dp_mst_is_end_device (peer_device_type msg) (la_mcs msg)"
    and send: "sends_well (path @ [la_port_number msg]) (insert (ev_port_id ev) (branch_ids b)) S send"
  shows "\<exists>b' ret. drm_dp_mst_handle_link_address_port ev alive send b msg = Some (b', ret) \<and> wf_branch path b' \<and>
    branch_ids b' \<subseteq> branch_ids b \<union> insert (ev_port_id ev) S \<and> (0 \<le> ret \<longrightarrow> nums b' = insert (la_port_number msg) (nums b))"
proof -
  have fresh: "ev_port_id ev \<notin> set (ids b)" using assms(3) ids_in by blast
  note cp = choose_port_ok [OF assms(1,2) fresh, of alive, OF assms(5)]
  show ?thesis
  proof (cases "choose_port ev alive b msg")
    case (Inl b')
    then show ?thesis using cp by (auto simp: drm_dp_mst_handle_link_address_port_def ENOMEM_code_def)
  next
    case (Inr x)
    obtain b0 port created changed old where x: "x = (b0, port, created, changed, old)" by (metis prod_cases5)
    have c: "wf_branch path b0" "wf_port path port" "p_num port = la_port_number msg"
      "if created then pd_id (p_data port) \<notin> set (ids b0) \<and> la_port_number msg \<notin> nums b0 else port \<in> set (br_ports b0)"
      "branch_ids b0 \<subseteq> branch_ids b" "port_ids port \<subseteq> insert (ev_port_id ev) (branch_ids b)"
      "insert (la_port_number msg) (nums b0) = insert (la_port_number msg) (nums b)"
      using cp unfolding Inr x by simp_all
    define p1 where "p1 = map_data (\<lambda>d. update_port_data d msg) port"
    have p1: "wf_port path p1" "p_num p1 = la_port_number msg" "pd_id (p_data p1) = pd_id (p_data port)" "port_ids p1 = port_ids port"
      using c(2,3) by (simp_all add: p1_def update_port_data_def wf_map_data map_data_ids)
    define b1 where "b1 = (if created then set_ports b0 (p1 # br_ports b0) else b0)"
    have "wf_branch path b1 \<and> (\<exists>q\<in>set (br_ports b1). pd_id (p_data q) = pd_id (p_data port) \<and> p_num q = la_port_number msg) \<and>
      branch_ids b1 \<subseteq> branch_ids b0 \<union> port_ids port \<and> nums b1 = insert (la_port_number msg) (nums b0)"
    proof (cases created)
      case True
      then show ?thesis
        using c(1-4) p1 by (auto simp: b1_def wf_branch_iff ids_def nums_def branch_ids_eq simp del: of_nat_add of_nat_Suc)
    next
      case False
      then have "port \<in> set (br_ports b0)" using c(4) by simp
      moreover from this have "la_port_number msg \<in> nums b0" unfolding nums_def c(3) [symmetric] by (rule imageI)
      ultimately show ?thesis using c(1,3) False by (auto simp: b1_def)
    qed
    then have b1: "wf_branch path b1" "\<exists>q\<in>set (br_ports b1). pd_id (p_data q) = pd_id (p_data port) \<and> p_num q = la_port_number msg"
      "branch_ids b1 \<subseteq> branch_ids b0 \<union> port_ids port" "nums b1 = insert (la_port_number msg) (nums b0)" by blast+
    let ?pdt = "if input_port msg then DP_PEER_DEVICE_NONE else peer_device_type msg"
    have done1: "\<exists>b' ret. finish_port ev send created ch ?pdt (la_mcs msg) b1 p2 = Some (b', ret) \<and> wf_branch path b' \<and>
        branch_ids b' \<subseteq> branch_ids b \<union> insert (ev_port_id ev) S \<and> (0 \<le> ret \<longrightarrow> nums b' = insert (la_port_number msg) (nums b))"
      if p2: "wf_port path p2" "p_num p2 = la_port_number msg" "pd_id (p_data p2) = pd_id (p_data port)" "port_ids p2 = port_ids port" for p2 ch
    proof -
      obtain q where q: "q \<in> set (br_ports b1)" "pd_id (p_data q) = pd_id (p_data p2)" "p_num q = p_num p2"
        using b1(2) p2(2,3) by auto
      have d: "length path < 15 \<or> ?pdt = DP_PEER_DEVICE_NONE \<or> drm_dp_mst_is_end_device ?pdt (la_mcs msg)" using deep by auto
      have s: "sends_well (path @ [p_num p2]) (insert (ev_port_id ev) (branch_ids b)) S send" using send p2(2) by simp
      have "port_ids p2 \<subseteq> insert (ev_port_id ev) (branch_ids b)" using p2(4) c(6) by simp
      from finish_port_ok [OF b1(1) p2(1) d assms(4) q s this, of created ch]
      obtain b' ret where f: "finish_port ev send created ch ?pdt (la_mcs msg) b1 p2 = Some (b', ret)" "wf_branch path b'"
        "branch_ids b' \<subseteq> branch_ids b1 \<union> port_ids p2 \<union> S" "0 \<le> ret \<longrightarrow> nums b' = nums b1"
        by (elim exE conjE) (rule that)
      have "branch_ids b' \<subseteq> branch_ids b \<union> insert (ev_port_id ev) S" using f(3) p2(4) c(5,6) b1(3) by blast
      moreover have "0 \<le> ret \<longrightarrow> nums b' = insert (la_port_number msg) (nums b)" using f(4) b1(4) c(7) by simp
      ultimately show ?thesis using f(1,2) by blast
    qed
    show ?thesis
      unfolding drm_dp_mst_handle_link_address_port_def Inr x sum.case prod.case Let_def p1_def [symmetric] b1_def [symmetric]
      by (rule done1) (use p1 in \<open>simp_all add: wf_map_data map_data_ids\<close>)
  qed
qed

section \<open>The whole reply, and the branches below\<close>

lemma port_bit: "n < 16 \<Longrightarrow> bit (push_bit (unat (n :: u8)) (1 :: u32)) k \<longleftrightarrow> k = unat n"
  by (auto simp: bit_simps word_less_nat_alt)

text \<open>\<open>W j\<close> are the identities that handling the port at place \<open>j\<close> may add.\<close>

lemma link_ports_ok:
  assumes h: "\<And>j m b. m \<in> set ms \<Longrightarrow> wf_branch path b \<Longrightarrow> branch_ids b \<inter> W j = {} \<Longrightarrow>
      \<exists>b' ret. handle j b m = Some (b', ret) \<and> wf_branch path b' \<and> branch_ids b' \<subseteq> branch_ids b \<union> W j \<and>
        (0 \<le> ret \<longrightarrow> nums b' = insert (la_port_number m) (nums b))"
    and W: "\<And>j k. j \<noteq> k \<Longrightarrow> W j \<inter> W k = {}" and small: "\<And>m. m \<in> set ms \<Longrightarrow> la_port_number m < 16"
    and b: "wf_branch path b" "branch_ids b \<inter> (\<Union>j\<in>{i..}. W j) = {}"
  shows "\<exists>b' ret ch' msk'. link_address_ports handle i ms b ch msk = Some (b', ret, ch', msk') \<and> wf_branch path b' \<and>
    branch_ids b' \<subseteq> branch_ids b \<union> (\<Union>j\<in>{i..}. W j) \<and>
    (0 \<le> ret \<longrightarrow> nums b' = nums b \<union> la_port_number ` set ms \<and> (\<forall>k. bit msk' k \<longleftrightarrow> bit msk k \<or> (\<exists>m\<in>set ms. unat (la_port_number m) = k)))"
  using h small b
proof (induction ms arbitrary: i b ch msk)
  case Nil
  then show ?case by simp
next
  case (Cons m ms)
  have "branch_ids b \<inter> W i = {}" using Cons.prems(4) by blast
  then obtain b1 ret where b1: "handle i b m = Some (b1, ret)" "wf_branch path b1" "branch_ids b1 \<subseteq> branch_ids b \<union> W i"
    "0 \<le> ret \<longrightarrow> nums b1 = insert (la_port_number m) (nums b)" using Cons.prems(1) [of m b i] Cons.prems(3) by auto
  show ?case
  proof (cases "ret < 0")
    case True
    then show ?thesis using b1 by auto
  next
    case False
    define ch1 where "ch1 = (ret = 1 \<or> ch)"
    define msk1 where "msk1 = msk OR push_bit (unat (la_port_number m)) 1"
    have later: "(\<Union>j\<in>{i..}. W j) = W i \<union> (\<Union>j\<in>{i + 1..}. W j)" by (simp only: atLeast_Suc [symmetric] UN_insert [symmetric] Suc_eq_plus1 [symmetric]) (rule arg_cong [where f = "\<lambda>A. \<Union>j\<in>A. W j"], auto)
    have "W i \<inter> W j = {}" if "j \<in> {i + 1..}" for j by (rule W) (use that in simp)
    then have "W i \<inter> (\<Union>j\<in>{i + 1..}. W j) = {}" by (simp add: Int_UN_distrib)
    then have d: "branch_ids b1 \<inter> (\<Union>j\<in>{i + 1..}. W j) = {}" using b1(3) Cons.prems(4) unfolding later by blast
    have rest: "\<exists>b' r ch' msk'. link_address_ports handle (i + 1) ms b1 ch1 msk1 = Some (b', r, ch', msk') \<and> wf_branch path b' \<and>
        branch_ids b' \<subseteq> branch_ids b1 \<union> (\<Union>j\<in>{i + 1..}. W j) \<and> (0 \<le> r \<longrightarrow> nums b' = nums b1 \<union> la_port_number ` set ms \<and>
          (\<forall>k. bit msk' k \<longleftrightarrow> bit msk1 k \<or> (\<exists>m\<in>set ms. unat (la_port_number m) = k)))"
      by (rule Cons.IH [OF Cons.prems(1) Cons.prems(2) b1(2) d]) simp_all
    obtain b' r ch' msk' where r: "link_address_ports handle (i + 1) ms b1 ch1 msk1 = Some (b', r, ch', msk')" "wf_branch path b'"
      "branch_ids b' \<subseteq> branch_ids b1 \<union> (\<Union>j\<in>{i + 1..}. W j)"
      "0 \<le> r \<longrightarrow> nums b' = nums b1 \<union> la_port_number ` set ms \<and> (\<forall>k. bit msk' k \<longleftrightarrow> bit msk1 k \<or> (\<exists>m\<in>set ms. unat (la_port_number m) = k))"
      using rest by (elim exE conjE) (rule that)
    have "bit msk1 k \<longleftrightarrow> bit msk k \<or> unat (la_port_number m) = k" for k
      using port_bit [of "la_port_number m" k] Cons.prems(2) [of m] by (auto simp: msk1_def bit_or_iff)
    moreover have "link_address_ports handle i (m # ms) b ch msk = Some (b', r, ch', msk')"
      using b1(1) r(1) False by (cases "ret = 1") (simp_all add: Let_def msk1_def ch1_def)
    moreover have "branch_ids b' \<subseteq> branch_ids b \<union> (\<Union>j\<in>{i..}. W j)" using r(3) b1(3) unfolding later by blast
    ultimately show ?thesis using r(2,4) b1(4) False by auto
  qed
qed

lemma prune_ok:
  "wf_branch path b \<Longrightarrow> wf_branch path (prune_ports msk b)" "branch_ids (prune_ports msk b) \<subseteq> branch_ids b"
  "nums (prune_ports msk b) = {n \<in> nums b. bit msk (unat n)}"
  by (auto simp: prune_ports_def wf_filter branch_ids_eq nums_def)

lemma guid_ok:
  "wf_branch path (fst (drm_dp_check_mstb_guid w s b g)) = wf_branch path b"
  "branch_ids (fst (drm_dp_check_mstb_guid w s b g)) = branch_ids b"
  by (cases b; simp add: drm_dp_check_mstb_guid_def drm_dp_validate_guid_def set_guid_def Let_def)+

text \<open>
  What is relied on of the replies: the parser cuts port numbers to four bits and counts the ports it has
  stored; no branch with 15 links above it reports a branching device below. Writing the GUID returns at
  most its length.
\<close>

definition replies_ok :: "nat \<Rightarrow> la_env \<Rightarrow> bool" where
  "replies_ok depth ev \<longleftrightarrow>
     (\<forall>pos. la_written ev pos \<le> 16 \<and> length (ev_stack (la_port_env ev pos)) = 8) \<and>
     (\<forall>pos reply. la_answer ev pos = Some reply \<longrightarrow> unat (nports reply) \<le> length (la_ports reply) \<and>
       (\<forall>m\<in>set (take (unat (nports reply)) (la_ports reply)). la_port_number m < 16 \<and>
         (15 \<le> depth + length pos \<longrightarrow> input_port m \<or> drm_dp_mst_is_end_device (peer_device_type m) (la_mcs m))))"

text \<open>The identities of what is made on the way down are new and all different.\<close>

definition made :: "la_env \<Rightarrow> nat list \<Rightarrow> nat set" where
  "made ev pos = {ev_port_id (la_port_env ev (pos @ q)) | q. q \<noteq> []}"

lemma send_link_address_ok:
  assumes ok: "replies_ok depth ev" and inj: "inj (\<lambda>pos. ev_port_id (la_port_env ev pos))" and alive: "\<And>i. alive i"
  shows "wf_branch path b \<Longrightarrow> length path = depth + length pos \<Longrightarrow> 16 \<le> n + length path \<Longrightarrow> branch_ids b \<inter> made ev pos = {} \<Longrightarrow>
    \<exists>b' ret. drm_dp_send_link_address n ev alive pos b = Some (b', ret) \<and> wf_branch path b' \<and>
      branch_ids b' \<subseteq> branch_ids b \<union> made ev pos \<and>
      (0 \<le> ret \<and> la_mem ev pos \<and> 0 < la_waited ev pos \<longrightarrow> (\<exists>reply. la_answer ev pos = Some reply \<and>
         nums b' = la_port_number ` set (take (unat (nports reply)) (la_ports reply))))"
proof (induction n arbitrary: path b pos)
  case 0
  then show ?case by (simp add: wf_branch_iff)
next
  case (Suc n)
  show ?case
  proof (cases "la_mem ev pos \<and> 0 < la_waited ev pos \<and> la_answer ev pos \<noteq> None")
    case False
    then show ?thesis using Suc.prems(1) by (cases "la_mem ev pos"; cases "0 < la_waited ev pos") (auto simp: EIO_code_def ENOMEM_code_def)
  next
    case True
    then obtain reply where an: "la_answer ev pos = Some reply" by blast
    define ms where "ms = take (unat (nports reply)) (la_ports reply)"
    have m: "la_port_number m < 16" "15 \<le> length path \<longrightarrow> input_port m \<or> drm_dp_mst_is_end_device (peer_device_type m) (la_mcs m)"
      if "m \<in> set ms" for m using ok an that Suc.prems(2) unfolding replies_ok_def ms_def by auto
    have len: "\<not> length (la_ports reply) < unat (nports reply)" using ok an unfolding replies_ok_def by (simp add: not_less)
    obtain b0 g where b0: "drm_dp_check_mstb_guid (la_written ev pos) (la_salt ev pos) b (la_guid reply) = (b0, g)" by force
    have w0: "wf_branch path b0" "branch_ids b0 = branch_ids b"
      using guid_ok [where b = b and w = "la_written ev pos" and s = "la_salt ev pos" and g = "la_guid reply"] Suc.prems(1) b0 by simp_all
    have g: "g \<le> 0"
    proof -
      have "la_written ev pos \<le> 16" using ok unfolding replies_ok_def by blast
      then show ?thesis using b0 by (auto simp: drm_dp_check_mstb_guid_def drm_dp_validate_guid_def Let_def EPROTO_code_def split: if_splits)
    qed
    show ?thesis
    proof (cases "g = 0")
      case False
      then show ?thesis using True an b0 w0 g by auto
    next
      case g0: True
      define W where "W j = insert (ev_port_id (la_port_env ev (pos @ [j]))) (made ev (pos @ [j]))" for j
      have Wj: "W j = {ev_port_id (la_port_env ev (pos @ j # q)) | q. True}" for j
      proof -
        have "made ev (pos @ [j]) = {ev_port_id (la_port_env ev (pos @ j # q)) | q. q \<noteq> []}" by (simp add: made_def)
        then show ?thesis unfolding W_def by (auto intro: exI [of _ "[]"])
      qed
      have dis: "W j \<inter> W k = {}" if "j \<noteq> k" for j k
        using that injD [OF inj] unfolding Wj by force
      have sub: "W j \<subseteq> made ev pos" for j unfolding Wj made_def by blast
      let ?h = "\<lambda>i. drm_dp_mst_handle_link_address_port (la_port_env ev (pos @ [i])) alive (drm_dp_send_link_address n ev alive (pos @ [i]))"
      have h: "\<exists>c' ret. ?h j c m = Some (c', ret) \<and> wf_branch path c' \<and> branch_ids c' \<subseteq> branch_ids c \<union> W j \<and>
          (0 \<le> ret \<longrightarrow> nums c' = insert (la_port_number m) (nums c))"
        if c: "m \<in> set ms" "wf_branch path c" "branch_ids c \<inter> W j = {}" for j m c
      proof -
        have new: "ev_port_id (la_port_env ev (pos @ [j])) \<notin> branch_ids c" using c(3) by (auto simp: W_def)
        have "ev_port_id (la_port_env ev (pos @ [j])) \<notin> made ev (pos @ [j])"
          using injD [OF inj, of "pos @ [j]"] by (auto simp: made_def)
        then have apart: "insert (ev_port_id (la_port_env ev (pos @ [j]))) (branch_ids c) \<inter> made ev (pos @ [j]) = {}"
          using c(3) by (auto simp: W_def)
        have "sends_well (path @ [la_port_number m]) (insert (ev_port_id (la_port_env ev (pos @ [j]))) (branch_ids c)) (made ev (pos @ [j]))
            (drm_dp_send_link_address n ev alive (pos @ [j]))"
          unfolding sends_well_def
        proof (intro allI impI)
          fix d assume d: "wf_branch (path @ [la_port_number m]) d"
            "branch_ids d \<subseteq> insert (ev_port_id (la_port_env ev (pos @ [j]))) (branch_ids c)"
          have "branch_ids d \<inter> made ev (pos @ [j]) = {}" using d(2) apart by blast
          then show "\<exists>c' ret. drm_dp_send_link_address n ev alive (pos @ [j]) d = Some (c', ret) \<and>
              wf_branch (path @ [la_port_number m]) c' \<and> branch_ids c' \<subseteq> branch_ids d \<union> made ev (pos @ [j])"
            using Suc.IH [OF d(1), of "pos @ [j]"] Suc.prems(2,3) by auto
        qed
        moreover have "length path < 15 \<or> input_port m \<or> drm_dp_mst_is_end_device (peer_device_type m) (la_mcs m)"
          using m(2) [OF c(1)] by auto
        moreover have "length (ev_stack (la_port_env ev (pos @ [j]))) = 8" using ok unfolding replies_ok_def by blast
        ultimately show ?thesis using handle_port_ok [OF c(2) m(1) [OF c(1)] new _ alive] by (simp add: W_def)
      qed
      have d0: "branch_ids b0 \<inter> (\<Union>j\<in>{0..}. W j) = {}" using Suc.prems(4) sub w0(2) by blast
      have ports_ok: "\<exists>b' ret ch' msk'. link_address_ports ?h 0 ms b0 ch msk = Some (b', ret, ch', msk') \<and> wf_branch path b' \<and>
          branch_ids b' \<subseteq> branch_ids b0 \<union> (\<Union>j\<in>{0..}. W j) \<and> (0 \<le> ret \<longrightarrow> nums b' = nums b0 \<union> la_port_number ` set ms \<and>
            (\<forall>k. bit msk' k \<longleftrightarrow> bit msk k \<or> (\<exists>m\<in>set ms. unat (la_port_number m) = k)))" for ch msk
      proof (rule link_ports_ok)
        show "W j \<inter> W k = {}" if "j \<noteq> k" for j k by (rule dis [OF that])
        show "\<exists>c' ret. ?h j c x = Some (c', ret) \<and> wf_branch path c' \<and> branch_ids c' \<subseteq> branch_ids c \<union> W j \<and>
          (0 \<le> ret \<longrightarrow> nums c' = insert (la_port_number x) (nums c))"
          if "x \<in> set ms" "wf_branch path c" "branch_ids c \<inter> W j = {}" for j x c by (rule h [OF that])
      qed (use m(1) w0(1) d0 in simp_all)
      obtain b1 ret ch msk where b1: "link_address_ports ?h 0 ms b0 False 0 = Some (b1, ret, ch, msk)" "wf_branch path b1"
        "branch_ids b1 \<subseteq> branch_ids b0 \<union> (\<Union>j\<in>{0..}. W j)"
        "0 \<le> ret \<longrightarrow> nums b1 = nums b0 \<union> la_port_number ` set ms \<and> (\<forall>k. bit msk k \<longleftrightarrow> bit (0 :: u32) k \<or> (\<exists>m\<in>set ms. unat (la_port_number m) = k))"
        using ports_ok [of False 0] by (elim exE conjE) (rule that)
      have sub1: "branch_ids b1 \<subseteq> branch_ids b \<union> made ev pos" using b1(3) w0(2) sub by blast
      let ?b' = "prune_ports msk b1"
      have call: "drm_dp_send_link_address (Suc n) ev alive pos b =
          (if ret < 0 then Some (b1, ret) else Some (?b', of_bool (ch \<or> length (br_ports ?b') < length (br_ports b1))))"
        using True an b0 g0 len b1(1) by (simp add: ms_def)
      show ?thesis
      proof (cases "ret < 0")
        case True
        then show ?thesis unfolding call using b1(2) sub1 by simp
      next
        case False
        have "nums ?b' = la_port_number ` set ms"
          using b1(4) False unfolding prune_ok(3) by (auto simp: word_unat_eq_iff [symmetric])
        then show ?thesis unfolding call using False prune_ok(1) [OF b1(2)] prune_ok(2) [of msk b1] sub1 an by (auto simp: ms_def)
      qed
    qed
  qed
qed

lemma searched:
  "mstb_search P b = Some c \<Longrightarrow> c \<in> set (branches b) \<and> P c"
  "ports_search P ps = Some c \<Longrightarrow> c \<in> set (ports_branches ps) \<and> P c"
  by (induction P b and P ps rule: mstb_search_ports_search.induct) (auto split: if_splits option.splits)

lemma not_searched:
  "mstb_search P b = None \<longleftrightarrow> (\<forall>c\<in>set (branches b). \<not> P c)"
  "ports_search P ps = None \<longleftrightarrow> (\<forall>c\<in>set (ports_branches ps). \<not> P c)"
  by (induction P b and P ps rule: mstb_search_ports_search.induct) (auto split: if_splits option.splits)

section \<open>Names of connectors\<close>

declare dec.simps [simp del]

lemma dec_small: "n < 10 \<Longrightarrow> dec n = [char_of (48 + n)]"
  by (subst dec.simps) simp

lemma dec_large: "10 \<le> n \<Longrightarrow> dec n = dec (n div 10) @ [char_of (48 + n mod 10)]"
  by (subst dec.simps) simp

lemma dec_nonempty: "dec n \<noteq> []"
  by (cases "n < 10") (simp_all add: dec_small dec_large)

lemma digit_inj: "a < 10 \<Longrightarrow> b < 10 \<Longrightarrow> char_of (48 + a :: nat) = char_of (48 + b) \<Longrightarrow> a = b"
  by (drule arg_cong [where f = "of_char :: char \<Rightarrow> nat"]) simp

lemma dec_inj: "dec n = dec m \<Longrightarrow> n = m"
proof (induction n arbitrary: m rule: dec.induct)
  case (1 n)
  show ?case
  proof (cases "n < 10 \<or> m < 10")
    case True
    then have "n < 10 \<and> m < 10"
      using "1.prems" dec_nonempty [of "n div 10"] dec_nonempty [of "m div 10"]
      by (cases "n < 10"; cases "m < 10") (auto simp: dec_small dec_large)
    then show ?thesis using "1.prems" digit_inj by (simp add: dec_small)
  next
    case False
    then have "dec (n div 10) = dec (m div 10)" "n mod 10 = m mod 10"
      using "1.prems" digit_inj [of "n mod 10" "m mod 10"] by (simp_all add: dec_large)
    then have "n div 10 = m div 10" using "1.IH" [of "m div 10"] False by simp
    then show ?thesis using \<open>n mod 10 = m mod 10\<close> by (metis div_mult_mod_eq)
  qed
qed

lemma dec_digits: "c \<in> set (dec n) \<Longrightarrow> c \<noteq> CHR ''-''"
proof (induction n rule: dec.induct)
  case (1 n)
  have d: "char_of (48 + k :: nat) \<noteq> CHR ''-''" if "k < 10" for k
    using that by (auto dest!: arg_cong [where f = "of_char :: char \<Rightarrow> nat"])
  show ?case
  proof (cases "n < 10")
    case True
    then show ?thesis using "1.prems" d [OF True] by (simp only: dec_small list.set insert_iff empty_iff simp_thms)
  next
    case False
    have "char_of (48 + n mod 10) \<noteq> CHR ''-''" by (rule d) simp
    moreover have "c \<in> set (dec (n div 10)) \<or> c = char_of (48 + n mod 10)"
      using "1.prems" False by (simp only: dec_large [of n] not_less set_append list.set Un_iff insert_iff empty_iff simp_thms)
    ultimately show ?thesis using "1.IH" [OF False] by metis
  qed
qed

definition steps_string :: "nat list \<Rightarrow> string" where
  "steps_string ns = concat (map (\<lambda>n. ''-'' @ dec n) ns)"

lemma steps_take: "takeWhile (\<lambda>c. c \<noteq> CHR ''-'') (dec n @ steps_string ns) = dec n"
proof -
  have "takeWhile (\<lambda>c. c \<noteq> CHR ''-'') (steps_string ns) = []" by (cases ns) (simp_all add: steps_string_def)
  then show ?thesis using dec_digits by (subst takeWhile_append2) auto
qed

lemma steps_inj: "steps_string ns = steps_string ms \<Longrightarrow> ns = ms"
proof (induction ns arbitrary: ms)
  case Nil
  then show ?case by (cases ms) (simp_all add: steps_string_def)
next
  case (Cons n ns)
  then obtain m ms' where ms: "ms = m # ms'" by (cases ms) (simp_all add: steps_string_def)
  have e: "dec n @ steps_string ns = dec m @ steps_string ms'" using Cons.prems by (simp add: ms steps_string_def)
  then have "dec n = dec m" using steps_take [of n ns] steps_take [of m ms'] by simp
  then show ?case using e Cons.IH dec_inj ms by simp
qed

lemma prop_path_ok:
  assumes "wf_branch path b"
  shows "build_mst_prop_path base b pnum = Some (''mst:'' @ dec base @ steps_string (map unat path @ [pnum]))"
proof -
  have w: "length path \<le> 15" "nibbles path" "br_lct b = word_of_nat (length path + 1)" "br_rad b = rad_of path"
    using assms unfolding wf_branch_iff by blast+
  have l: "unat (br_lct b) - 1 = length path" using w(1) unat_lct [of "length path"] by (simp add: w(3) del: of_nat_add of_nat_Suc)
  have "map_opt (rad_nibble (br_rad b)) [0..<unat (br_lct b) - 1] = Some (map (nib path) [0..<length path])"
    unfolding l w(4) using w(1) by (intro map_opt_Some rad_nibble_of [OF w(2)]) auto
  moreover have "map (nib path) [0..<length path] = path" by (rule nth_equalityI) (simp_all add: nib_def)
  ultimately show ?thesis by (simp add: build_mst_prop_path_def steps_string_def comp_def)
qed

section \<open>The properties\<close>

text \<open>
  C36: in a well-formed topology the address stored in a branch leads to it: looking up the link count
  and the relative address of any branch of the tree finds exactly that branch, provided it is still
  in use.
\<close>
theorem rad_lookup_finds:
  assumes "wf_branch [] root" "b \<in> set (branches root)"
  shows "drm_dp_get_mst_branch_device alive (Some root) (br_lct b) (br_rad b) = Some (if alive (br_id b) then Some b else None)"
proof -
  obtain ns where "branch_at ns root = Some b" "wf_branch ns b"
    using branches_reached(1) [OF assms(2,1)] by auto
  then show ?thesis using walk_wf by (simp add: drm_dp_get_mst_branch_device_def)
qed

definition plain_data :: "nat \<Rightarrow> u8 \<Rightarrow> bool \<Rightarrow> port_data" where
  "plain_data i pdt mcs = \<lparr>pd_id = i, pd_pdt = pdt, pd_mcs = mcs, pd_input = False, pd_ddps = True, pd_ldps = False,
     pd_dpcd_rev = 0x12, pd_num_sdp_streams = 0, pd_num_sdp_stream_sinks = 0, pd_full_pbn = 0, pd_fec_capable = False,
     pd_connector = True\<rparr>"

definition leaf :: "nat \<Rightarrow> u8 list \<Rightarrow> mst_port list \<Rightarrow> mst_branch" where
  "leaf i path ps = Branch i (word_of_nat (length path + 1)) (rad_of path) (replicate 16 0) ps"

definition sample_topology :: mst_branch where
  "sample_topology = leaf 0 []
     [Port 1 (plain_data 10 2 True) (Some (leaf 1 [1] [Port 3 (plain_data 11 2 True) (Some (leaf 2 [1, 3] []))])),
      Port 8 (plain_data 12 3 False) None]"

theorem rad_lookup_finds_witness:
  "drm_dp_get_mst_branch_device (\<lambda>_. True) (Some sample_topology) (br_lct (leaf 2 [1, 3] [])) (br_rad (leaf 2 [1, 3] [])) =
    Some (if True then Some (leaf 2 [1, 3] []) else None)"
  by (rule rad_lookup_finds) code_simp+

text \<open>
  an address that leads nowhere is not refused. When a branch of the tree has no port with the
  last number of an address, the lookup of that address returns the branch itself, whose own address
  is one link shorter.
\<close>
theorem rad_lookup_falls_back:
  assumes "wf_branch [] root" "branch_at ns root = Some b" "wf_branch ns b" "length ns < 15" "n < 16"
    "find_port n (br_ports b) = None" "alive (br_id b)"
  shows "drm_dp_get_mst_branch_device alive (Some root) (br_lct b + 1) (rad_of (ns @ [n])) = Some (Some b)"
proof -
  have w: "nibbles (ns @ [n])" "br_lct b = word_of_nat (length ns + 1)"
    using assms(3,5) by (auto simp: wf_branch_iff simp del: of_nat_add of_nat_Suc)
  have l: "unat (br_lct b + 1) - 1 = Suc (length ns)"
    using unat_lct [of "Suc (length ns)"] assms(4) unfolding w(2) by simp
  have "walk_rad (length ns + 1) (rad_of (ns @ [n])) 0 root = walk_rad 1 (rad_of (ns @ [n])) (0 + length ns) b"
    using assms(2,4) rad_nibble_of [OF w(1)] by (intro walk_rad_prefix) (auto simp: nib_def nth_append)
  moreover have "walk_rad 1 (rad_of (ns @ [n])) (0 + length ns) b = Some (Some b)"
    using assms(4,6) rad_nibble_of [OF w(1), of "length ns"] by (simp add: nib_def)
  ultimately have "walk_rad (Suc (length ns)) (rad_of (ns @ [n])) 0 root = Some (Some b)" by simp
  then show ?thesis using l assms(7) by (simp add: drm_dp_get_mst_branch_device_def)
qed

theorem rad_lookup_falls_back_witness:
  "drm_dp_get_mst_branch_device (\<lambda>_. True) (Some sample_topology) (br_lct (leaf 2 [1, 3] []) + 1) (rad_of ([1, 3] @ [7])) =
    Some (Some (leaf 2 [1, 3] []))"
  by (rule rad_lookup_falls_back) code_simp+

text \<open>
  C37: \<open>drm_dp_send_link_address\<close>, with the requests it sends on to the branches below: for a well-formed
  branch and whatever the environment answers, the call returns and leaves it well formed: port numbers
  stay unique and below 16, exactly the ports with a branching device have a branch below them, and
  every branch, the new ones included, has the address of the path to it. If a reply came and the result
  is no error, the branch has exactly the ports of the reply. The replies are as the parser delivers
  them, with port numbers of four bits, and report no branching device more than 15 links down, the most
  DisplayPort allows (the code does not check it); what is created gets new identities; and the list of a branch holds a reference to each of its ports, so that another can be
  taken. Sixteen levels of recursion are enough.
\<close>

theorem link_address_keeps_wf:
  assumes "wf_branch path b" "replies_ok (length path) ev" "16 \<le> fuel + length path"
    and "inj (\<lambda>pos. ev_port_id (la_port_env ev pos))" "\<And>pos. ev_port_id (la_port_env ev pos) \<notin> branch_ids b" "\<And>i. alive i"
  shows "\<exists>b' ret. drm_dp_send_link_address fuel ev alive [] b = Some (b', ret) \<and> wf_branch path b' \<and>
    (0 \<le> ret \<and> la_mem ev [] \<and> 0 < la_waited ev [] \<longrightarrow> (\<exists>reply. la_answer ev [] = Some reply \<and>
       p_num ` set (br_ports b') = la_port_number ` set (take (unat (nports reply)) (la_ports reply))))"
proof -
  have "branch_ids b \<inter> made ev [] = {}" using assms(5) by (auto simp: made_def)
  then show ?thesis
    using send_link_address_ok [where alive = alive, OF assms(2,4,6,1), of "[]" fuel] assms(3) by (auto simp: nums_def)
qed

text \<open>A branch reports a branching device, and this reports a sink; the port the branch had is gone.\<close>

definition sample_env :: "nat \<Rightarrow> mst_env" where
  "sample_env i = \<lparr>ev_port_mem = True, ev_mstb_mem = True, ev_i2c_ret = 0, ev_enum_error = 0, ev_enum_ack = None,
     ev_connector = True, ev_port_id = i, ev_mstb_id = 21, ev_stack = replicate 8 0xcc\<rparr>"

definition sample_reply :: "la_port \<Rightarrow> link_address_reply" where
  "sample_reply m = \<lparr>la_guid = replicate 16 1, nports = 1, la_ports = m # replicate 15 zero_port\<rparr>"

definition sample_answers :: la_env where
  "sample_answers = \<lparr>la_mem = (\<lambda>_. True), la_waited = (\<lambda>_. 1),
     la_answer = (\<lambda>pos. if pos = [] then Some (sample_reply (zero_port\<lparr>la_port_number := 4, peer_device_type := 2, la_mcs := True, la_ddps := True\<rparr>))
       else if pos = [0] then Some (sample_reply (zero_port\<lparr>la_port_number := 8, peer_device_type := 3, la_ddps := True\<rparr>)) else None),
     la_written = (\<lambda>_. 16), la_salt = (\<lambda>_. 7), la_port_env = (\<lambda>pos. sample_env (100 + list_encode pos))\<rparr>"

lemma sample_answers_ok: "replies_ok 1 sample_answers"
proof -
  have n: "unat (1 :: u8) = 1" by simp
  show ?thesis
    unfolding replies_ok_def sample_answers_def sample_reply_def la_env.simps link_address_reply.simps
    by (auto simp: sample_env_def zero_port_def peer_devices drm_dp_mst_is_end_device_def split: if_splits)
qed

theorem link_address_keeps_wf_witness:
  "\<exists>b' ret. drm_dp_send_link_address 16 sample_answers (\<lambda>_. True) [] (leaf 1 [1] [Port 9 (plain_data 5 3 False) None]) = Some (b', ret) \<and>
    wf_branch [1] b' \<and> (0 \<le> ret \<longrightarrow> p_num ` set (br_ports b') = {4})"
proof -
  let ?b = "leaf 1 [1] [Port 9 (plain_data 5 3 False) None]"
  have w: "wf_branch [1] ?b" by code_simp
  have r: "replies_ok (length [1 :: u8]) sample_answers" using sample_answers_ok by simp
  have i: "inj (\<lambda>pos. ev_port_id (la_port_env sample_answers pos))"
    by (rule injI) (simp add: sample_answers_def sample_env_def list_encode_eq)
  have f: "ev_port_id (la_port_env sample_answers pos) \<notin> branch_ids ?b" for pos
    by (simp add: sample_answers_def sample_env_def leaf_def plain_data_def)
  have "la_mem sample_answers []" "0 < la_waited sample_answers []"
    "\<forall>reply. la_answer sample_answers [] = Some reply \<longrightarrow> la_port_number ` set (take (unat (nports reply)) (la_ports reply)) = {4}"
    by (simp_all add: sample_answers_def sample_reply_def)
  then show ?thesis using link_address_keeps_wf [OF w r _ i f, of 16 "\<lambda>_. True"] by auto
qed

text \<open>
  looking a branch up by its GUID, or checking that a branch is still part of the topology, finds
  a branch of the tree that has the GUID or identity whenever there is one, and nothing otherwise.
\<close>
theorem branch_searches_correct:
  "(\<forall>b. get_mst_branch_device_by_guid_helper root guid = Some b \<longrightarrow> b \<in> set (branches root) \<and> br_guid b = guid) \<and>
   (get_mst_branch_device_by_guid_helper root guid = None \<longleftrightarrow> guid \<notin> br_guid ` set (branches root)) \<and>
   (\<forall>b. drm_dp_mst_topology_get_mstb_validated_locked root i = Some b \<longrightarrow> b \<in> set (branches root) \<and> br_id b = i) \<and>
   (drm_dp_mst_topology_get_mstb_validated_locked root i = None \<longleftrightarrow> i \<notin> br_id ` set (branches root))"
  unfolding get_mst_branch_device_by_guid_helper_def drm_dp_mst_topology_get_mstb_validated_locked_def
  by (auto dest: searched(1) simp: not_searched(1))

theorem branch_searches_correct_witness:
  "get_mst_branch_device_by_guid_helper sample_topology (replicate 16 1) = None"
proof -
  have "replicate 16 1 \<notin> br_guid ` set (branches sample_topology)" by code_simp
  then show ?thesis using branch_searches_correct [of sample_topology "replicate 16 1" 0] by blast
qed

text \<open>
  the numbers \<open>drm_dp_mst_rad_to_str\<close> prints are not the path. For the branch reached by a path,
  every number at an odd place is the port number before it, and every number at an even place is 16
  or 0, as that port number is odd or even.
\<close>
theorem rad_to_str_garbles:
  assumes "nibbles path" "length path \<le> 15"
  shows "drm_dp_mst_rad_to_str (rad_of path) (word_of_nat (length path + 1)) =
    Some (map (\<lambda>i. if odd i then nib path (i - 1) else if odd (unat (nib path i)) then 16 else 0) [0..<length path + 1])"
proof -
  have l: "unat (word_of_nat (length path + 1) :: u8) = length path + 1" using assms(2) by (intro unat_lct) simp
  have "\<not> (16::u8) < word_of_nat (length path + 1)"
    using assms(2) unfolding word_less_nat_alt l by simp
  moreover have "map_option (\<lambda>b. if i mod 2 \<noteq> 0 then drop_bit 4 b else b AND 0x10) (buf_get (rad_of path) (i div 2)) =
      Some (if odd i then nib path (i - 1) else if odd (unat (nib path i)) then 16 else 0)" if "i < length path + 1" for i
  proof -
    have k: "i div 2 < 8" using that assms(2) by simp
    then have b: "buf_get (rad_of path) (i div 2) = Some (rad_byte path (i div 2))" by (simp add: buf_get_def nth_rad_of)
    let ?a = "nib path (2 * (i div 2))" and ?b = "nib path (2 * (i div 2) + 1)"
    have f: "fits 4 ?a" "fits 4 ?b" using nib_small [OF assms(1)] by (auto intro: fits_numeral)
    have d: "drop_bit 4 (rad_byte path (i div 2)) = ?a"
      using f by (auto simp: rad_byte_def bit_simps dest: fits_bit intro!: bit_word_eqI)
    have e: "bit (rad_byte path (i div 2)) 4 \<longleftrightarrow> odd (unat ?a)"
      using f bit_unsigned_iff [of ?a 0, where 'a = nat] by (auto simp: rad_byte_def bit_simps bit_0 dest: fits_bit)
    have m: "rad_byte path (i div 2) AND 0x10 = (if odd (unat ?a) then 16 else 0)"
      unfolding e [symmetric] by (rule bit_word_eqI) (auto simp: bit_simps bit_consts)
    show ?thesis
    proof (cases "odd i")
      case True
      then have "2 * (i div 2) = i - 1" by (metis add_diff_cancel_right' odd_two_times_div_two_succ)
      then show ?thesis using True b d by (simp add: odd_iff_mod_2_eq_one)
    next
      case False
      then show ?thesis using b m by (simp add: even_iff_mod_2_eq_zero)
    qed
  qed
  ultimately show ?thesis
    unfolding drm_dp_mst_rad_to_str_def l by (simp only: if_False) (rule map_opt_Some, simp only: set_upt atLeastLessThan_iff)
qed


theorem rad_to_str_garbles_witness:
  "drm_dp_mst_rad_to_str (rad_of [1, 2, 3]) 4 = Some [16, 1, 16, 3]"
proof -
  have e: "map (\<lambda>i. if odd i then nib [1, 2, 3] (i - 1) else if odd (unat (nib [1, 2, 3] i)) then 16 else 0) [0..<length [1, 2, 3 :: u8] + 1] = [16, 1, 16, 3]"
    by code_simp
  have "nibbles [1, 2, 3]" "length [1, 2, 3 :: u8] \<le> 15" by simp_all
  from rad_to_str_garbles [OF this] show ?thesis unfolding e by simp
qed

text \<open>
  the names of connectors are unique: the name built for a port of a branch of a well-formed
  topology determines the path to the branch and the number of the port.
\<close>
theorem prop_path_unique:
  assumes "wf_branch p1 b1" "wf_branch p2 b2" "build_mst_prop_path base b1 n1 = build_mst_prop_path base b2 n2"
  shows "p1 = p2 \<and> n1 = n2"
proof -
  have "steps_string (map unat p1 @ [n1]) = steps_string (map unat p2 @ [n2])"
    using assms(3) by (simp add: prop_path_ok [OF assms(1)] prop_path_ok [OF assms(2)])
  then have "map unat p1 @ [n1] = map unat p2 @ [n2]" by (rule steps_inj)
  then show ?thesis by (simp add: inj_map_eq_map [OF inj_onI])
qed

theorem prop_path_unique_witness:
  "build_mst_prop_path 5 (leaf 2 [1, 3] []) 8 \<noteq> build_mst_prop_path 5 (leaf 1 [1] []) 38"
proof
  assume e: "build_mst_prop_path 5 (leaf 2 [1, 3] []) 8 = build_mst_prop_path 5 (leaf 1 [1] []) 38"
  have "wf_branch [1, 3] (leaf 2 [1, 3] [])" "wf_branch [1] (leaf 1 [1] [])" by code_simp+
  from prop_path_unique [OF this e] show False by simp
qed

end
