(* ===== verification/Mst_Payload.thy ===== *)
theory Mst_Payload
  imports Mst_Topology "HOL-Library.Multiset"
begin

text \<open>
  Payloads of an MST topology: which streams there are and how many time slots they take in the state
  of an atomic update, the checks of that state against the number of slots and the bandwidth of every
  port, and the payload table that a commit programs, with the start slots of the streams.

  Ports and branches are identified by numbers, as in the model of the topology. C's \<open>int\<close> is an integer
  whose additions wrap around where they are written with \<open>wrap32\<close>. What the atomic framework looks up
  (the state of the topology, the masks of the CRTCs) is an argument of the operation.
\<close>

section \<open>Data\<close>

record payload =
  pl_port :: nat
  vc_start_slot :: u8
  vcpi :: u8
  time_slots :: int
  pbn :: int
  pl_delete :: bool
  dsc_enabled :: bool

record topology_state =
  pending_crtc_mask :: u32
  payload_mask :: u32
  payloads :: "payload list"
  total_avail_slots :: u8
  start_slot :: u8
  pbn_div :: int

text \<open>Of the manager: how many payloads are in hardware, and where the next one starts.\<close>

record payload_mgr =
  max_payloads :: int
  payload_count :: u8
  next_start_slot :: u8

definition wrap32 :: "int \<Rightarrow> int" where "wrap32 x = signed_take_bit 31 x"

definition ENOSPC_code :: int where "ENOSPC_code = 28"
definition EINVAL_code :: int where "EINVAL_code = 22"

section \<open>The state of an update\<close>

definition drm_atomic_get_mst_payload_state :: "topology_state \<Rightarrow> nat \<Rightarrow> payload option" where
  "drm_atomic_get_mst_payload_state st port = find (\<lambda>p. pl_port p = port) (payloads st)"

text \<open>A change of the payload that this finds.\<close>

fun change_first :: "('a \<Rightarrow> bool) \<Rightarrow> ('a \<Rightarrow> 'a) \<Rightarrow> 'a list \<Rightarrow> 'a list" where
  "change_first P f [] = []"
| "change_first P f (x # xs) = (if P x then f x # xs else x # change_first P f xs)"

definition change_payload :: "nat \<Rightarrow> (payload \<Rightarrow> payload) \<Rightarrow> topology_state \<Rightarrow> topology_state" where
  "change_payload port f st = st\<lparr>payloads := change_first (\<lambda>p. pl_port p = port) f (payloads st)\<rparr>"

text \<open>\<open>DIV_ROUND_UP\<close> on \<open>int\<close>: rounding towards zero; \<open>None\<close> is a division by zero.\<close>

definition div_round_up :: "int \<Rightarrow> int \<Rightarrow> int option" where
  "div_round_up n d =
     (if d = 0 then None
      else let m = wrap32 (wrap32 (n + d) - 1) in Some (sgn m * sgn d * (\<bar>m\<bar> div \<bar>d\<bar>)))"

text \<open>
  \<open>found\<close> is the state of the topology, or the error of getting it; \<open>mem\<close> says whether there is memory for
  a new payload. The result is the new state and what the call returns.
\<close>

definition drm_dp_atomic_find_time_slots ::
  "bool \<Rightarrow> int + topology_state \<Rightarrow> u32 \<Rightarrow> nat \<Rightarrow> int \<Rightarrow> ((int + topology_state) \<times> int) option" where
  "drm_dp_atomic_find_time_slots mem found crtc_mask port bw =
     (case found of
        Inl e \<Rightarrow> Some (found, e)
      | Inr st \<Rightarrow>
          let st = st\<lparr>pending_crtc_mask := pending_crtc_mask st OR crtc_mask\<rparr>;
              old = drm_atomic_get_mst_payload_state st port
          in if (case old of Some p \<Rightarrow> pl_delete p | None \<Rightarrow> False) then Some (Inr st, - EINVAL_code)
             else do {
               req_slots \<leftarrow> div_round_up bw (pbn_div st);
               case old of
                 Some p \<Rightarrow> Some (Inr (change_payload port (\<lambda>p. p\<lparr>time_slots := req_slots, pbn := bw\<rparr>) st), req_slots)
               | None \<Rightarrow>
                   if \<not> mem then Some (Inr st, - ENOMEM_code)
                   else Some (Inr (st\<lparr>payloads := \<lparr>pl_port = port, vc_start_slot = - 1, vcpi = 0, time_slots = req_slots, pbn = bw,
                          pl_delete = False, dsc_enabled = False\<rparr> # payloads st\<rparr>), req_slots) })"

text \<open>\<open>BIT\<close> of a VCPI less one, cut to 32 bits; \<open>None\<close> is a shift by an amount that C does not define.\<close>

definition vcpi_bit :: "u8 \<Rightarrow> u32 option" where
  "vcpi_bit v = (if 0 < v \<and> v \<le> 64 then Some (push_bit (unat v - 1) 1) else None)"

text \<open>
  \<open>old_crtc\<close> and \<open>new_crtc\<close> are the masks of the CRTCs of the old and the new state of the connector, if
  any, and \<open>new_crtc_state\<close> says of the state of the new CRTC, if it is part of the update, whether it
  needs a modeset, and whether its mode and its connectors have changed.
\<close>

definition drm_dp_atomic_release_time_slots ::
  "u32 option \<Rightarrow> u32 option \<Rightarrow> (bool \<times> bool \<times> bool) option \<Rightarrow> int + topology_state \<Rightarrow> nat \<Rightarrow> ((int + topology_state) \<times> int) option" where
  "drm_dp_atomic_release_time_slots old_crtc new_crtc new_crtc_state found port =
     (case old_crtc of
        None \<Rightarrow> Some (found, 0)
      | Some old_mask \<Rightarrow>
          if new_crtc \<noteq> None \<and> (case new_crtc_state of None \<Rightarrow> True | Some (modeset, _) \<Rightarrow> \<not> modeset) then Some (found, 0)
          else
            let update = (new_crtc = None \<or> (case new_crtc_state of None \<Rightarrow> True | Some (_, mode_changed, conns_changed) \<Rightarrow> mode_changed \<or> conns_changed))
            in case found of
                 Inl e \<Rightarrow> Some (found, e)
               | Inr st \<Rightarrow>
                   let st = st\<lparr>pending_crtc_mask := pending_crtc_mask st OR old_mask\<rparr>
                   in if \<not> update then Some (Inr st, 0)
                      else case drm_atomic_get_mst_payload_state st port of
                             None \<Rightarrow> Some (Inr st, - EINVAL_code)
                           | Some p \<Rightarrow>
                               if new_crtc \<noteq> None \<or> pl_delete p then Some (Inr st, 0)
                               else do {
                                 b \<leftarrow> vcpi_bit (vcpi p);
                                 Some (Inr ((change_payload port (\<lambda>p. p\<lparr>pbn := 0, pl_delete := True\<rparr>) st)
                                        \<lparr>payload_mask := payload_mask st AND NOT b\<rparr>), 0) })"

text \<open>The copy of the state that an update starts from: \<open>list_add\<close> puts each payload in front.\<close>

definition drm_dp_mst_duplicate_state :: "topology_state \<Rightarrow> topology_state" where
  "drm_dp_mst_duplicate_state st = st\<lparr>payloads := rev (filter (\<lambda>p. \<not> pl_delete p) (payloads st)), pending_crtc_mask := 0\<rparr>"

definition drm_dp_mst_update_slots :: "topology_state \<Rightarrow> u8 \<Rightarrow> topology_state" where
  "drm_dp_mst_update_slots st cap =
     (if cap = 2 then st\<lparr>total_avail_slots := 64, start_slot := 0\<rparr> else st\<lparr>total_avail_slots := 63, start_slot := 1\<rparr>)"

text \<open>\<open>DIV_ROUND_UP_ULL\<close> of a product of 32-bit numbers.\<close>

definition drm_dp_calc_pbn_mode :: "int \<Rightarrow> int \<Rightarrow> bool \<Rightarrow> int" where
  "drm_dp_calc_pbn_mode clock bpp dsc =
     (let m = wrap32 (clock * (if dsc then sgn bpp * (\<bar>bpp\<bar> div 16) else bpp));
          n = take_bit 32 m * (64 * 1006);
          d = 8 * 54 * 1000 * 1000
      in wrap32 ((take_bit 64 (n + d - 1)) div d))"

definition drm_dp_get_vc_payload_bw :: "int \<Rightarrow> int \<Rightarrow> int" where
  "drm_dp_get_vc_payload_bw link_rate link_lane_count =
     (let m = wrap32 (link_rate * link_lane_count) in sgn m * (\<bar>m\<bar> div 54000))"

text \<open>\<open>None\<close> for a time slot state that cannot be had. The payload is looked up before the slots are found.\<close>

definition drm_dp_mst_atomic_enable_dsc ::
  "bool \<Rightarrow> int + topology_state \<Rightarrow> u32 \<Rightarrow> nat \<Rightarrow> int \<Rightarrow> bool \<Rightarrow> ((int + topology_state) \<times> int) option" where
  "drm_dp_mst_atomic_enable_dsc mem found crtc_mask port bw enable =
     (case found of
        Inl e \<Rightarrow> Some (found, e)
      | Inr st \<Rightarrow>
          (case drm_atomic_get_mst_payload_state st port of
             None \<Rightarrow> Some (found, - EINVAL_code)
           | Some p \<Rightarrow> do {
               (found, slots) \<leftarrow> (if enable then drm_dp_atomic_find_time_slots mem found crtc_mask port bw
                                 else Some (found, if dsc_enabled p = enable then time_slots p else 0));
               if enable \<and> slots < 0 then Some (found, - EINVAL_code)
               else Some (map_sum id (change_payload port (\<lambda>p. p\<lparr>dsc_enabled := enable\<rparr>)) found, slots) }))"

section \<open>Checking the slots\<close>

text \<open>\<open>ffz\<close>: the first zero of the mask, which is widened to 64 bits.\<close>

definition ffz :: "u32 \<Rightarrow> nat" where
  "ffz m = length (takeWhile (bit m) [0..<32])"

text \<open>The loop, with the slots left and the payloads counted: payloads and mask after it, and the count or an error.\<close>

fun alloc_limits :: "int \<Rightarrow> payload list \<Rightarrow> int \<Rightarrow> int \<Rightarrow> u32 \<Rightarrow> (payload list \<times> u32 \<times> int res) option" where
  "alloc_limits mx [] avl n msk = Some ([], msk, Inr n)"
| "alloc_limits mx (p # ps) avl n msk =
     (if pl_delete p then do { (ps, msk, r) \<leftarrow> alloc_limits mx ps avl n msk; Some (p # ps, msk, r) }
      else
        let avl = wrap32 (avl - time_slots p)
        in if avl < 0 then Some (p # ps, msk, Inl ENOSPC)
           else if mx < n + 1 then Some (p # ps, msk, Inl EINVAL)
           else if vcpi p = 0
           then let v = word_of_nat (ffz msk + 1)
                in do { b \<leftarrow> vcpi_bit v;
                        (ps, msk, r) \<leftarrow> alloc_limits mx ps avl (n + 1) (msk OR b);
                        Some (p\<lparr>vcpi := v\<rparr> # ps, msk, r) }
           else do { (ps, msk, r) \<leftarrow> alloc_limits mx ps avl (n + 1) msk; Some (p # ps, msk, r) })"

definition drm_dp_mst_atomic_check_payload_alloc_limits :: "payload_mgr \<Rightarrow> topology_state \<Rightarrow> (topology_state \<times> unit res) option" where
  "drm_dp_mst_atomic_check_payload_alloc_limits mgr st =
     do { (ps, msk, r) \<leftarrow> alloc_limits (max_payloads mgr) (payloads st) (uint (total_avail_slots st)) 0 (payload_mask st);
          let st = st\<lparr>payloads := ps, payload_mask := msk\<rparr>;
          case r of
            Inl e \<Rightarrow> Some (st, Inl e)
          | Inr n \<Rightarrow> Some (if n = 0 then st\<lparr>pbn_div := 0\<rparr> else st, Inr ()) }"

section \<open>Checking the bandwidth\<close>

text \<open>The pointers from a port to its branch, and from a branch to the port above it.\<close>

record links =
  parent_of :: "nat \<Rightarrow> nat option"
  port_above :: "nat \<Rightarrow> nat option"

text \<open>\<open>None\<close>: the walk does not end.\<close>

partial_function (option) drm_dp_mst_port_downstream_of_branch :: "links \<Rightarrow> nat \<Rightarrow> nat \<Rightarrow> bool option" where
  "drm_dp_mst_port_downstream_of_branch l port branch =
     (case parent_of l port of
        None \<Rightarrow> Some False
      | Some b \<Rightarrow>
          if b = branch then Some True
          else case port_above l b of None \<Rightarrow> Some False | Some q \<Rightarrow> drm_dp_mst_port_downstream_of_branch l q branch)"

text \<open>Is there a payload that takes bandwidth below the branch?\<close>

fun payload_below :: "links \<Rightarrow> nat \<Rightarrow> payload list \<Rightarrow> bool option" where
  "payload_below l branch [] = Some False"
| "payload_below l branch (p # ps) =
     (if pbn p = 0 then payload_below l branch ps
      else do { d \<leftarrow> drm_dp_mst_port_downstream_of_branch l (pl_port p) branch;
                if d then Some True else payload_below l branch ps })"

text \<open>
  The two routines that call each other, and the loop over the ports. A port of a branch device that has
  no branch yet is passed on as a null pointer, below which there is no payload.
\<close>

fun check_mstb_bw_limit :: "links \<Rightarrow> topology_state \<Rightarrow> mst_branch \<Rightarrow> int option"
  and check_ports_bw_limit :: "links \<Rightarrow> topology_state \<Rightarrow> mst_port list \<Rightarrow> int \<Rightarrow> int option"
  and check_port_bw_limit :: "links \<Rightarrow> topology_state \<Rightarrow> mst_port \<Rightarrow> int option" where
  "check_mstb_bw_limit l st (Branch i c r g ps) =
     do { found \<leftarrow> payload_below l i (payloads st);
          if \<not> found then Some 0 else check_ports_bw_limit l st ps 0 }"
| "check_ports_bw_limit l st [] pbn_used = Some pbn_used"
| "check_ports_bw_limit l st (p # ps) pbn_used =
     do { ret \<leftarrow> check_port_bw_limit l st p;
          if ret < 0 then Some ret else check_ports_bw_limit l st ps (wrap32 (pbn_used + ret)) }"
| "check_port_bw_limit l st (Port n d m) =
     (if pd_pdt d = DP_PEER_DEVICE_NONE then Some 0
      else if drm_dp_mst_is_end_device (pd_pdt d) (pd_mcs d)
      then (case drm_atomic_get_mst_payload_state st (pd_id d) of
              None \<Rightarrow> Some 0
            | Some p \<Rightarrow> if pd_full_pbn d = 0 then Some (- EINVAL_code)
                        else if uint (pd_full_pbn d) < pbn p then Some (- ENOSPC_code) else Some (pbn p))
      else do {
        pbn_used \<leftarrow> (case m of None \<Rightarrow> Some 0 | Some b \<Rightarrow> check_mstb_bw_limit l st b);
        if pbn_used \<le> 0 then Some pbn_used
        else if uint (pd_full_pbn d) < pbn_used then Some (- ENOSPC_code) else Some pbn_used })"

text \<open>Each manager of the update, in order; one that no longer has a primary state is skipped.\<close>

definition check_manager :: "links \<Rightarrow> payload_mgr \<Rightarrow> mst_branch \<Rightarrow> topology_state \<Rightarrow> (topology_state \<times> int) option" where
  "check_manager l mgr root st =
     do { (st, r) \<leftarrow> drm_dp_mst_atomic_check_payload_alloc_limits mgr st;
          case r of
            Inl e \<Rightarrow> Some (st, if e = ENOSPC then - ENOSPC_code else - EINVAL_code)
          | Inr _ \<Rightarrow> do { ret \<leftarrow> check_mstb_bw_limit l st root; Some (st, if ret < 0 then ret else 0) } }"

fun drm_dp_mst_atomic_check ::
  "links \<Rightarrow> (bool \<times> payload_mgr \<times> mst_branch \<times> topology_state) list \<Rightarrow> (topology_state list \<times> int) option" where
  "drm_dp_mst_atomic_check l [] = Some ([], 0)"
| "drm_dp_mst_atomic_check l ((mst, mgr, root, st) # ms) =
     do { (st, ret) \<leftarrow> (if mst then check_manager l mgr root st else Some (st, 0));
          if ret < 0 then Some (st # map (\<lambda>(_, _, _, st). st) ms, ret)
          else do { (sts, ret) \<leftarrow> drm_dp_mst_atomic_check l ms; Some (st # sts, ret) } }"

section \<open>Programming the table\<close>

definition DP_PAYLOAD_ALLOCATE_SET :: nat where "DP_PAYLOAD_ALLOCATE_SET = 0x1c0"
definition DP_PAYLOAD_TABLE_UPDATE_STATUS :: nat where "DP_PAYLOAD_TABLE_UPDATE_STATUS = 0x2c0"
definition DP_PAYLOAD_TABLE_UPDATED :: u8 where "DP_PAYLOAD_TABLE_UPDATED = push_bit 0 1"

text \<open>Waiting for the branch to take the table over: at most twenty reads. \<open>left\<close> is what is left of them.\<close>

fun wait_table_updated :: "'s transfer \<Rightarrow> nat \<Rightarrow> 's \<Rightarrow> 's \<times> int" where
  "wait_table_updated tr 0 s = (s, - EINVAL_code)"
| "wait_table_updated tr (Suc left) s =
     (let (s, ret, status) = drm_dp_dpcd_read tr DP_PAYLOAD_TABLE_UPDATE_STATUS 1 s
      in if ret < 0 then (s, ret)
         else if hd status AND DP_PAYLOAD_TABLE_UPDATED = 0 then wait_table_updated tr left s
         else (s, 0))"

definition drm_dp_dpcd_write_payload :: "'s transfer \<Rightarrow> u8 \<Rightarrow> u8 \<Rightarrow> u8 \<Rightarrow> 's \<Rightarrow> 's \<times> int" where
  "drm_dp_dpcd_write_payload tr ident start num_slots s =
     (let (s, _) = drm_dp_dpcd_write tr DP_PAYLOAD_TABLE_UPDATE_STATUS [DP_PAYLOAD_TABLE_UPDATED] s;
          (s, ret) = drm_dp_dpcd_write tr DP_PAYLOAD_ALLOCATE_SET [ident, start, num_slots] s
      in if ret \<noteq> 3 then (s, ret) else wait_table_updated tr 20 s)"

definition drm_dp_create_payload_step1 :: "'s transfer \<Rightarrow> payload \<Rightarrow> 's \<Rightarrow> 's \<times> int" where
  "drm_dp_create_payload_step1 tr p s = drm_dp_dpcd_write_payload tr (vcpi p) (vc_start_slot p) (word_of_int (time_slots p)) s"

text \<open>\<open>sent\<close> is what sending the message that allocates the bandwidth of the payload returns.\<close>

definition drm_dp_create_payload_step2 :: "bool \<Rightarrow> int \<Rightarrow> int" where
  "drm_dp_create_payload_step2 valid sent = (if \<not> valid then - EIO_code else sent)"

text \<open>Sending the message that gives the bandwidth back may fail, and so may clearing the slots in the table.\<close>

definition drm_dp_destroy_payload_step1 :: "'s transfer \<Rightarrow> payload \<Rightarrow> 's \<Rightarrow> 's" where
  "drm_dp_destroy_payload_step1 tr p s = fst (drm_dp_dpcd_write_payload tr (vcpi p) (vc_start_slot p) 0 s)"

text \<open>\<open>valid\<close> says whether the port of the payload is still in the topology.\<close>

definition drm_dp_add_payload_part1 ::
  "'s transfer \<Rightarrow> bool \<Rightarrow> payload_mgr \<Rightarrow> topology_state \<Rightarrow> nat \<Rightarrow> 's \<Rightarrow> (payload_mgr \<times> topology_state \<times> 's \<times> int) option" where
  "drm_dp_add_payload_part1 tr valid mgr st port s =
     do { p \<leftarrow> drm_atomic_get_mst_payload_state st port;
          if \<not> valid then Some (mgr, st, s, 0)
          else
            let mgr = (if payload_count mgr = 0 then mgr\<lparr>next_start_slot := start_slot st\<rparr> else mgr);
                start = next_start_slot mgr;
                (s, ret) = drm_dp_create_payload_step1 tr (p\<lparr>vc_start_slot := start\<rparr>) s
            in if ret < 0 then Some (mgr, change_payload port (\<lambda>p. p\<lparr>vc_start_slot := - 1\<rparr>) st, s, ret)
               else Some (mgr\<lparr>payload_count := payload_count mgr + 1, next_start_slot := next_start_slot mgr + word_of_int (time_slots p)\<rparr>,
                      change_payload port (\<lambda>p. p\<lparr>vc_start_slot := start\<rparr>) st, s, 0) }"

text \<open>\<open>below\<close> says whether the port is below the primary branch.\<close>

definition drm_dp_remove_payload ::
  "'s transfer \<Rightarrow> bool \<Rightarrow> payload_mgr \<Rightarrow> topology_state \<Rightarrow> nat \<Rightarrow> 's \<Rightarrow> (payload_mgr \<times> topology_state \<times> 's) option" where
  "drm_dp_remove_payload tr below mgr st port s =
     do { p \<leftarrow> drm_atomic_get_mst_payload_state st port;
          if vc_start_slot p = - 1 then Some (mgr, st, s)
          else
            let s = (if below then drm_dp_destroy_payload_step1 tr p s else s);
                n = word_of_int (time_slots p);
                shift = (\<lambda>q. if pl_port q = port then q\<lparr>vc_start_slot := - 1\<rparr>
                             else if vc_start_slot p <s vc_start_slot q then q\<lparr>vc_start_slot := vc_start_slot q - n\<rparr> else q)
            in Some (mgr\<lparr>payload_count := payload_count mgr - 1, next_start_slot := next_start_slot mgr - n\<rparr>,
                 st\<lparr>payloads := map shift (payloads st)\<rparr>, s) }"

definition drm_dp_add_payload_part2 :: "bool \<Rightarrow> int \<Rightarrow> topology_state \<Rightarrow> nat \<Rightarrow> int option" where
  "drm_dp_add_payload_part2 valid sent st port =
     do { p \<leftarrow> drm_atomic_get_mst_payload_state st port;
          Some (if vc_start_slot p = - 1 then - EIO_code else drm_dp_create_payload_step2 valid sent) }"

text \<open>
  Waiting for the branch to have handled the change of the table: at most \<open>polls + 1\<close> reads of the status, as
  many as the time of three seconds allows. The number is the status or an error.
\<close>

definition DP_PAYLOAD_ACT_HANDLED :: u8 where "DP_PAYLOAD_ACT_HANDLED = push_bit 1 1"

definition do_get_act_status :: "'s transfer \<Rightarrow> 's \<Rightarrow> 's \<times> int" where
  "do_get_act_status tr s =
     (let (s, ret, status) = drm_dp_dpcd_read tr DP_PAYLOAD_TABLE_UPDATE_STATUS 1 s
      in (s, if ret < 0 then ret else uint (hd status)))"

fun poll_act_status :: "'s transfer \<Rightarrow> nat \<Rightarrow> 's \<Rightarrow> 's \<times> int" where
  "poll_act_status tr polls s =
     (let (s, status) = do_get_act_status tr s
      in if (word_of_int status :: u32) AND ucast DP_PAYLOAD_ACT_HANDLED \<noteq> 0 \<or> status < 0 then (s, status)
         else case polls of 0 \<Rightarrow> (s, status) | Suc polls \<Rightarrow> poll_act_status tr polls s)"

definition drm_dp_check_act_status :: "'s transfer \<Rightarrow> nat \<Rightarrow> 's \<Rightarrow> 's \<times> int" where
  "drm_dp_check_act_status tr polls s =
     (let (s, status) = poll_act_status tr polls s
      in (s, if status < 0 then status
             else if (word_of_int status :: u32) AND ucast DP_PAYLOAD_ACT_HANDLED = 0 then - EINVAL_code else 0))"

text \<open>Copying the start slots of the old state, once it has been committed; \<open>None\<close> is a null pointer.\<close>

fun copy_starts :: "payload list \<Rightarrow> topology_state \<Rightarrow> topology_state option" where
  "copy_starts [] st = Some st"
| "copy_starts (p # ps) st =
     (if pl_delete p then copy_starts ps st
      else do { _ \<leftarrow> drm_atomic_get_mst_payload_state st (pl_port p);
                copy_starts ps (change_payload (pl_port p) (\<lambda>q. q\<lparr>vc_start_slot := vc_start_slot p\<rparr>) st) })"

definition drm_dp_mst_atomic_wait_for_dependencies :: "topology_state \<Rightarrow> topology_state \<Rightarrow> topology_state option" where
  "drm_dp_mst_atomic_wait_for_dependencies old st = copy_starts (payloads old) st"

end
