(* ===== verification/Mst_Payload_Ids.thy ===== *)
theory Mst_Payload_Ids
  imports Mst_Payload
begin

text \<open>
  The check of the slots, and the identifiers of the payloads: no two payloads in use have the same, and
  the mask says which are taken.
\<close>

section \<open>The mask\<close>

definition used :: "payload \<Rightarrow> bool" where
  "used p \<longleftrightarrow> \<not> pl_delete p"

lemma used_vcpi [simp]: "used (p\<lparr>vcpi := v\<rparr>) = used p"
  by (simp add: used_def)

definition ids_ok :: "payload list \<Rightarrow> u32 \<Rightarrow> bool" where
  "ids_ok ps m \<longleftrightarrow> distinct (map vcpi (filter (\<lambda>p. used p \<and> vcpi p \<noteq> 0) ps)) \<and>
     (\<forall>i. bit m i \<longleftrightarrow> (\<exists>p\<in>set ps. used p \<and> unat (vcpi p) = i + 1))"

lemma ffz_values:
  shows "ffz m \<le> 32" "i < ffz m \<Longrightarrow> bit m i" "ffz m < 32 \<Longrightarrow> \<not> bit m (ffz m)"
proof -
  have l: "length (takeWhile (bit m) [0..<32]) \<le> 32" using length_takeWhile_le [of "bit m" "[0..<32]"] by simp
  then show "ffz m \<le> 32" by (simp add: ffz_def)
  show "bit m i" if "i < ffz m"
  proof -
    have "takeWhile (bit m) [0..<32] ! i = i" using that l unfolding ffz_def by (subst takeWhile_nth) simp_all
    then show ?thesis using that set_takeWhileD [of i "bit m" "[0..<32]"] nth_mem [of i "takeWhile (bit m) [0..<32]"] by (simp add: ffz_def)
  qed
  show "\<not> bit m (ffz m)" if "ffz m < 32"
    using that nth_length_takeWhile [of "bit m" "[0..<32]"] unfolding ffz_def by simp
qed

lemma bit_vcpi: "vcpi_bit v = Some b \<Longrightarrow> bit b i \<longleftrightarrow> i < 32 \<and> unat v = i + 1"
  by (auto simp: vcpi_bit_def bit_exp_iff unat_gt_0 split: if_splits)

lemma fresh_id:
  assumes "v = word_of_nat (ffz m + 1)"
  shows "unat v = ffz m + 1" "\<exists>b. vcpi_bit v = Some b" "v \<noteq> 0"
proof -
  show u: "unat v = ffz m + 1" using ffz_values(1) [of m] unfolding assms unat_of_nat by simp
  then show "\<exists>b. vcpi_bit v = Some b" using ffz_values(1) [of m] by (simp add: vcpi_bit_def word_less_nat_alt word_le_nat_alt)
  show "v \<noteq> 0" using u by auto
qed

text \<open>As long as there are at most 32 payloads, one of which has no identifier, one is free.\<close>

lemma id_left:
  assumes ok: "ids_ok ps m" and n: "length (filter used ps) \<le> 32" and p: "p \<in> set ps" "used p" "vcpi p = 0"
  shows "ffz m < 32"
proof (rule ccontr)
  assume "\<not> ffz m < 32"
  then have all: "bit m i" if "i < 32" for i using that ffz_values(1) [of m] ffz_values(2) [of i m] by simp
  let ?xs = "filter (\<lambda>p. used p \<and> vcpi p \<noteq> 0) ps"
  have "(\<lambda>i. i + 1) ` {..<32} \<subseteq> (\<lambda>p. unat (vcpi p)) ` set ?xs"
  proof
    fix j assume "j \<in> (\<lambda>i. i + 1) ` {..<32 :: nat}"
    then obtain i where i: "j = i + 1" "i < 32" by auto
    then obtain q where "q \<in> set ps" "used q" "unat (vcpi q) = i + 1" using ok all [OF i(2)] by (auto simp: ids_ok_def)
    moreover have "vcpi q \<noteq> 0" using calculation(3) by auto
    ultimately show "j \<in> (\<lambda>p. unat (vcpi p)) ` set ?xs" using i(1) by force
  qed
  then have "card ((\<lambda>i. i + 1) ` {..<32 :: nat}) \<le> card ((\<lambda>p. unat (vcpi p)) ` set ?xs)" by (intro card_mono) simp_all
  also have "\<dots> \<le> length ?xs" using card_image_le [of "set ?xs" "\<lambda>p. unat (vcpi p)"] card_length [of ?xs] by simp
  also have "length ?xs < length (filter used ps)"
  proof -
    obtain as bs where "ps = as @ p # bs" using split_list [OF p(1)] by blast
    moreover have "length (filter (\<lambda>p. used p \<and> vcpi p \<noteq> 0) xs) \<le> length (filter used xs)" for xs by (induction xs) auto
    ultimately show ?thesis using p(2,3) by (simp add: add_le_less_mono le_imp_less_Suc add_mono)
  qed
  finally show False using n by (simp add: card_image)
qed

text \<open>Giving a payload the identifier that is free.\<close>

lemma ids_ok_assign:
  assumes ok: "ids_ok (as @ p # bs) m" and lt: "ffz m < 32" and p: "used p" "vcpi p = 0"
    and v: "v = word_of_nat (ffz m + 1)" "vcpi_bit v = Some b"
  shows "ids_ok (as @ p\<lparr>vcpi := v\<rparr> # bs) (m OR b)"
proof -
  note f = fresh_id [OF v(1)]
  have new: "vcpi q \<noteq> v" if q: "q \<in> set as \<union> set bs" "used q" for q
  proof
    assume "vcpi q = v"
    then have "bit m (ffz m)" using ok q f(1) by (auto simp: ids_ok_def)
    then show False using ffz_values(3) [OF lt] by simp
  qed
  have u: "used (p\<lparr>vcpi := v\<rparr>)" using p(1) by (simp add: used_def)
  have "distinct (map vcpi (filter (\<lambda>p. used p \<and> vcpi p \<noteq> 0) (as @ p\<lparr>vcpi := v\<rparr> # bs)))"
    using ok p(2) u f(3) new by (auto simp: ids_ok_def)
  moreover have "bit (m OR b) i \<longleftrightarrow> (\<exists>q\<in>set (as @ p\<lparr>vcpi := v\<rparr> # bs). used q \<and> unat (vcpi q) = i + 1)" for i
  proof -
    have "bit (m OR b) i \<longleftrightarrow> (\<exists>q\<in>set (as @ p # bs). used q \<and> unat (vcpi q) = i + 1) \<or> unat v = i + 1"
      using ok bit_vcpi [OF v(2), of i] lt f(1) by (auto simp: ids_ok_def bit_or_iff)
    then show ?thesis using p u by auto
  qed
  ultimately show ?thesis by (simp add: ids_ok_def)
qed

section \<open>The loop\<close>

definition load :: "payload list \<Rightarrow> int" where
  "load ps = sum_list (map time_slots (filter used ps))"

definition slots_ok :: "payload list \<Rightarrow> bool" where
  "slots_ok ps \<longleftrightarrow> (\<forall>p\<in>set ps. 0 \<le> time_slots p \<and> time_slots p < 2 ^ 31)"

lemma load_simps [simp]:
  "load [] = 0" "load (p # ps) = (if pl_delete p then load ps else time_slots p + load ps)"
  by (simp_all add: load_def used_def)

lemma load_nonneg: "slots_ok ps \<Longrightarrow> 0 \<le> load ps"
  by (induction ps) (auto simp: slots_ok_def)

lemma wrap32_same: "- (2 ^ 31) \<le> x \<Longrightarrow> x < 2 ^ 31 \<Longrightarrow> wrap32 x = x"
  by (simp add: wrap32_def signed_take_bit_int_eq_self)

lemma alloc_limits_result:
  assumes "slots_ok ps" "0 \<le> avl" "avl < 2 ^ 31"
  shows "\<exists>ps' m' r. alloc_limits mx ps avl n m = Some (ps', m', r) \<and> map (\<lambda>p. p\<lparr>vcpi := 0\<rparr>) ps' = map (\<lambda>p. p\<lparr>vcpi := 0\<rparr>) ps \<and>
    (case r of
       Inr k \<Rightarrow> load ps \<le> avl \<and> k = n + int (length (filter used ps)) \<and> (filter used ps = [] \<or> k \<le> mx) \<and> (\<forall>p\<in>set ps'. used p \<longrightarrow> vcpi p \<noteq> 0)
     | Inl e \<Rightarrow> avl < load ps \<or> mx < n + int (length (filter used ps)))"
  using assms
proof (induction ps arbitrary: avl n m)
  case Nil
  then show ?case by simp
next
  case (Cons p ps)
  note ld = load_nonneg [of ps]
  have so: "slots_ok ps" "0 \<le> time_slots p" "time_slots p < 2 ^ 31" using Cons.prems(1) by (simp_all add: slots_ok_def)
  show ?case
  proof (cases "pl_delete p")
    case True
    obtain ps' m' r where "alloc_limits mx ps avl n m = Some (ps', m', r)" "map (\<lambda>p. p\<lparr>vcpi := 0\<rparr>) ps' = map (\<lambda>p. p\<lparr>vcpi := 0\<rparr>) ps"
      "case r of
       Inr k \<Rightarrow> load ps \<le> avl \<and> k = n + int (length (filter used ps)) \<and> (filter used ps = [] \<or> k \<le> mx) \<and> (\<forall>p\<in>set ps'. used p \<longrightarrow> vcpi p \<noteq> 0)
     | Inl e \<Rightarrow> avl < load ps \<or> mx < n + int (length (filter used ps))"
      using Cons.IH [OF so(1) Cons.prems(2,3), of n m] by blast
    then show ?thesis using True by (cases r) (auto simp: used_def)
  next
    case False
    have w: "wrap32 (avl - time_slots p) = avl - time_slots p" by (rule wrap32_same) (use so Cons.prems in simp_all)
    let ?a = "avl - time_slots p"
    consider (slots) "?a < 0" | (count) "0 \<le> ?a" "mx < n + 1" | (go) "0 \<le> ?a" "n + 1 \<le> mx" by linarith
    then show ?thesis
    proof cases
      case slots
      then show ?thesis using False w ld [OF so(1)] by simp
    next
      case count
      then show ?thesis using False w by (simp add: used_def)
    next
      case go
      define v where "v = (if vcpi p = 0 then word_of_nat (ffz m + 1) else vcpi p)"
      have v0: "v \<noteq> 0" using fresh_id(3) [OF refl, of m] by (simp add: v_def)
      obtain b where b: "vcpi p = 0 \<Longrightarrow> vcpi_bit v = Some b" using fresh_id(2) [OF refl, of m] by (auto simp: v_def)
      define m1 where "m1 = (if vcpi p = 0 then m OR b else m)"
      have a: "?a < 2 ^ 31" using Cons.prems(3) so(2) by simp
      obtain ps' m' r where r: "alloc_limits mx ps ?a (n + 1) m1 = Some (ps', m', r)" "map (\<lambda>p. p\<lparr>vcpi := 0\<rparr>) ps' = map (\<lambda>p. p\<lparr>vcpi := 0\<rparr>) ps"
        "case r of
       Inr k \<Rightarrow> load ps \<le> ?a \<and> k = n + 1 + int (length (filter used ps)) \<and> (filter used ps = [] \<or> k \<le> mx) \<and> (\<forall>p\<in>set ps'. used p \<longrightarrow> vcpi p \<noteq> 0)
     | Inl e \<Rightarrow> ?a < load ps \<or> mx < n + 1 + int (length (filter used ps))"
        using Cons.IH [OF so(1) go(1) a, of "n + 1" m1] by blast
      have "alloc_limits mx (p # ps) avl n m = Some (p\<lparr>vcpi := v\<rparr> # ps', m', r)"
        using False w go r(1) b by (cases "vcpi p = 0") (simp_all add: v_def m1_def Let_def)
      moreover have "used p" using False by (simp add: used_def)
      ultimately show ?thesis using r(2,3) go(2) False v0 by (cases r) auto
    qed
  qed
qed

text \<open>When it succeeds, it leaves the identifiers in order.\<close>

lemma alloc_limits_ids:
  assumes "alloc_limits mx ps avl n m = Some (ps', m', Inr k)" "ids_ok (as @ ps) m" "length (filter used (as @ ps)) \<le> 32"
  shows "ids_ok (as @ ps') m'"
  using assms
proof (induction ps arbitrary: avl n m as ps')
  case (Cons p ps)
  show ?case
  proof (cases "pl_delete p")
    case True
    then obtain qs where q: "alloc_limits mx ps avl n m = Some (qs, m', Inr k)" "ps' = p # qs"
      using Cons.prems(1) by (auto simp: bind_eq_Some_conv)
    then show ?thesis using Cons.IH [of avl n m qs "as @ [p]"] Cons.prems(2,3) by simp
  next
    case False
    define a where "a = wrap32 (avl - time_slots p)"
    have up: "used p" using False by (simp add: used_def)
    show ?thesis
    proof (cases "vcpi p = 0")
      case True
      define v where "v = (word_of_nat (ffz m + 1) :: u8)"
      obtain b qs where q: "vcpi_bit v = Some b" "alloc_limits mx ps a (n + 1) (m OR b) = Some (qs, m', Inr k)" "ps' = p\<lparr>vcpi := v\<rparr> # qs"
        using Cons.prems(1) False True by (auto simp: bind_eq_Some_conv Let_def a_def v_def split: if_splits)
      have lt: "ffz m < 32" by (rule id_left [OF Cons.prems(2,3) _ up True]) simp
      have "ids_ok ((as @ [p\<lparr>vcpi := v\<rparr>]) @ ps) (m OR b)"
        using ids_ok_assign [OF Cons.prems(2) lt up True v_def q(1)] by simp
      moreover have "length (filter used ((as @ [p\<lparr>vcpi := v\<rparr>]) @ ps)) \<le> 32" using Cons.prems(3) up by simp
      ultimately show ?thesis using Cons.IH [OF q(2), of "as @ [p\<lparr>vcpi := v\<rparr>]"] q(3) by simp
    next
      case nz: False
      obtain qs where q: "alloc_limits mx ps a (n + 1) m = Some (qs, m', Inr k)" "ps' = p # qs"
        using Cons.prems(1) False nz by (auto simp: bind_eq_Some_conv Let_def a_def split: if_splits)
      then show ?thesis using Cons.IH [OF q(1), of "as @ [p]"] Cons.prems(2,3) by simp
    qed
  qed
qed simp

lemma alloc_limits_count:
  "alloc_limits mx ps avl n m = Some (ps', m', Inr k) \<Longrightarrow> k = n + int (length (filter used ps)) \<and> (filter used ps = [] \<or> k \<le> mx)"
proof (induction ps arbitrary: avl n m ps')
  case (Cons p ps)
  show ?case
  proof (cases "pl_delete p")
    case True
    then obtain qs where "alloc_limits mx ps avl n m = Some (qs, m', Inr k)" using Cons.prems by (auto simp: bind_eq_Some_conv)
    moreover have "\<not> used p" using True by (simp add: used_def)
    ultimately show ?thesis using Cons.IH [of avl n m qs] by auto
  next
    case False
    define a where "a = wrap32 (avl - time_slots p)"
    have l: "\<not> mx < n + 1" using Cons.prems False by (auto simp: Let_def split: if_splits)
    obtain m1 qs where "alloc_limits mx ps a (n + 1) m1 = Some (qs, m', Inr k)"
      using Cons.prems False by (cases "vcpi p = 0") (auto simp: bind_eq_Some_conv Let_def a_def split: if_splits)
    moreover have "used p" using False by (simp add: used_def)
    ultimately show ?thesis using Cons.IH [of a "n + 1" m1 qs] l by auto
  qed
qed simp

section \<open>The histories of updates\<close>

lemma ids_ok_cong:
  assumes "map (\<lambda>p. (used p, vcpi p)) ps = map (\<lambda>p. (used p, vcpi p)) qs"
  shows "ids_ok ps m = ids_ok qs m"
proof -
  let ?k = "\<lambda>p. (used p, vcpi p)"
  have d: "map vcpi (filter (\<lambda>p. used p \<and> vcpi p \<noteq> 0) xs) = map snd (filter (\<lambda>(u, v). u \<and> v \<noteq> 0) (map ?k xs))" for xs
    by (induction xs) auto
  have b: "(\<exists>p\<in>set xs. used p \<and> unat (vcpi p) = i + 1) \<longleftrightarrow> (\<exists>(u, v)\<in>set (map ?k xs). u \<and> unat v = i + 1)" for xs i by auto
  show ?thesis unfolding ids_ok_def d b assms by (rule refl)
qed

lemma change_first_split:
  "find P xs = Some x \<Longrightarrow> \<exists>as bs. xs = as @ x # bs \<and> (\<forall>y\<in>set as. \<not> P y) \<and> P x \<and> change_first P f xs = as @ f x # bs"
proof (induction xs)
  case (Cons a xs)
  show ?case
  proof (cases "P a")
    case True
    then show ?thesis using Cons.prems by (intro exI [of _ "[]"] exI [of _ xs]) simp
  next
    case False
    then obtain as bs where s: "xs = as @ x # bs" "\<forall>y\<in>set as. \<not> P y" "P x" "change_first P f xs = as @ f x # bs" using Cons by auto
    have "a # xs = (a # as) @ x # bs" using s(1) by simp
    moreover have "change_first P f (a # xs) = (a # as) @ f x # bs" using False s(4) by simp
    moreover have "\<forall>y\<in>set (a # as). \<not> P y" using False s(2) by simp
    ultimately show ?thesis using s(3) by blast
  qed
qed simp

lemma change_first_map: "(\<And>x. g (f x) = g x) \<Longrightarrow> map g (change_first P f xs) = map g xs"
  by (induction xs) auto

lemma ids_ok_change:
  assumes "\<And>p. used (f p) = used p" "\<And>p. vcpi (f p) = vcpi p"
  shows "ids_ok (payloads (change_payload port f st)) m = ids_ok (payloads st) m"
  unfolding change_payload_def by (rule ids_ok_cong) (simp add: change_first_map assms)

lemma find_slots_ids:
  assumes f: "drm_dp_atomic_find_time_slots mem (Inr st) c port bw = Some (found, r)" and ok: "ids_ok (payloads st) (payload_mask st)"
  shows "\<exists>st'. found = Inr st' \<and> ids_ok (payloads st') (payload_mask st')"
proof -
  define st1 where "st1 = st\<lparr>pending_crtc_mask := pending_crtc_mask st OR c\<rparr>"
  have e: "payloads st1 = payloads st" "payload_mask st1 = payload_mask st" by (simp_all add: st1_def)
  have n: "ids_ok (p # payloads st) (payload_mask st)" if "vcpi p = 0" for p using ok that by (simp add: ids_ok_def)
  have k: "ids_ok (payloads (change_payload port (\<lambda>p. p\<lparr>time_slots := x, pbn := y\<rparr>) st1)) (payload_mask st)" for x y
    using ids_ok_change [of "\<lambda>p. p\<lparr>time_slots := x, pbn := y\<rparr>" port st1 "payload_mask st"] ok e by (simp add: used_def)
  have m: "payload_mask (change_payload port f st1) = payload_mask st" for f by (simp add: change_payload_def e)
  note f1 = f [unfolded drm_dp_atomic_find_time_slots_def Let_def sum.case, folded st1_def]
  show ?thesis
  proof (cases "drm_atomic_get_mst_payload_state st1 port")
    case None
    then show ?thesis using f1 ok n by (auto simp: e bind_eq_Some_conv split: if_splits)
  next
    case (Some p)
    then show ?thesis using f1 ok k m by (auto simp: e bind_eq_Some_conv split: if_splits)
  qed
qed

lemma release_ids:
  assumes f: "drm_dp_atomic_release_time_slots oc nc ncs (Inr st) port = Some (found, r)" and ok: "ids_ok (payloads st) (payload_mask st)"
  shows "\<exists>st'. found = Inr st' \<and> ids_ok (payloads st') (payload_mask st')"
proof -
  have gone: "ids_ok (payloads (change_payload port (\<lambda>p. p\<lparr>pbn := 0, pl_delete := True\<rparr>) st)) (payload_mask st AND NOT b)"
    if p: "drm_atomic_get_mst_payload_state st port = Some p" "\<not> pl_delete p" and b: "vcpi_bit (vcpi p) = Some b" for p b
  proof -
    let ?f = "\<lambda>p. p\<lparr>pbn := 0, pl_delete := True\<rparr>"
    obtain as bs where s: "payloads st = as @ p # bs" "change_first (\<lambda>p. pl_port p = port) ?f (payloads st) = as @ ?f p # bs"
      using change_first_split [of "\<lambda>p. pl_port p = port" "payloads st" p ?f] p(1) unfolding drm_atomic_get_mst_payload_state_def by blast
    have up: "used p" "\<not> used (?f p)" using p(2) by (simp_all add: used_def)
    have nz: "vcpi p \<noteq> 0" using b by (auto simp: vcpi_bit_def split: if_splits)
    have d: "distinct (map vcpi (filter (\<lambda>p. used p \<and> vcpi p \<noteq> 0) (as @ p # bs)))"
      and m: "\<And>i. bit (payload_mask st) i \<longleftrightarrow> (\<exists>q\<in>set (as @ p # bs). used q \<and> unat (vcpi q) = i + 1)"
      using ok s(1) by (simp_all add: ids_ok_def)
    have "vcpi p \<notin> vcpi ` set (filter (\<lambda>p. used p \<and> vcpi p \<noteq> 0) as)" "vcpi p \<notin> vcpi ` set (filter (\<lambda>p. used p \<and> vcpi p \<noteq> 0) bs)"
      using d up(1) nz by auto
    note gone = this
    have o: "vcpi q \<noteq> vcpi p" if q: "q \<in> set as \<union> set bs" "used q" for q 
    proof
      assume e: "vcpi q = vcpi p"
      then have "q \<in> set (filter (\<lambda>p. used p \<and> vcpi p \<noteq> 0) as) \<union> set (filter (\<lambda>p. used p \<and> vcpi p \<noteq> 0) bs)" using nz q by simp
      then have "vcpi q \<in> vcpi ` set (filter (\<lambda>p. used p \<and> vcpi p \<noteq> 0) as) \<union> vcpi ` set (filter (\<lambda>p. used p \<and> vcpi p \<noteq> 0) bs)"
        unfolding image_Un [symmetric] by (rule imageI)
      then show False using gone unfolding e by blast
    qed
    have "bit (payload_mask st AND NOT b) i \<longleftrightarrow> (\<exists>q\<in>set (as @ ?f p # bs). used q \<and> unat (vcpi q) = i + 1)" for i
    proof -
      have "bit (payload_mask st AND NOT b) i \<longleftrightarrow> bit (payload_mask st) i \<and> unat (vcpi p) \<noteq> i + 1"
        using bit_vcpi [OF b, of i] bit_imp_le_length [of "payload_mask st" i] by (auto simp: bit_and_iff bit_not_iff)
      moreover have "unat (vcpi q) = i + 1 \<longrightarrow> unat (vcpi p) \<noteq> i + 1" if "q \<in> set as \<union> set bs" "used q" for q
        using o [OF that] by (simp add: word_unat_eq_iff)
      moreover have "(\<exists>q\<in>set (as @ ?f p # bs). used q \<and> unat (vcpi q) = i + 1) \<longleftrightarrow> (\<exists>q\<in>set as \<union> set bs. used q \<and> unat (vcpi q) = i + 1)"
        using up(2) by auto
      moreover have "bit (payload_mask st) i \<longleftrightarrow> (\<exists>q\<in>set as \<union> set bs. used q \<and> unat (vcpi q) = i + 1) \<or> unat (vcpi p) = i + 1"
        using m [of i] up(1) by auto
      ultimately show ?thesis by blast
    qed
    moreover have "distinct (map vcpi (filter (\<lambda>p. used p \<and> vcpi p \<noteq> 0) (as @ ?f p # bs)))" using d up nz by simp
    ultimately show ?thesis unfolding change_payload_def ids_ok_def s(2) [symmetric] by simp
  qed
  show ?thesis
    using f ok gone unfolding drm_dp_atomic_release_time_slots_def Let_def
    by (auto simp: drm_atomic_get_mst_payload_state_def change_payload_def bind_eq_Some_conv split: option.splits if_splits)
qed

lemma duplicate_ids:
  assumes "ids_ok (payloads st) (payload_mask st)"
  shows "ids_ok (payloads (drm_dp_mst_duplicate_state st)) (payload_mask (drm_dp_mst_duplicate_state st))"
proof -
  have "filter (\<lambda>p. used p \<and> vcpi p \<noteq> 0) (rev (filter (\<lambda>p. \<not> pl_delete p) xs)) = rev (filter (\<lambda>p. used p \<and> vcpi p \<noteq> 0) xs)" for xs
    by (induction xs) (auto simp: used_def)
  then show ?thesis using assms by (auto simp: drm_dp_mst_duplicate_state_def ids_ok_def used_def simp flip: rev_map)
qed

lemma check_ids:
  assumes c: "drm_dp_mst_atomic_check_payload_alloc_limits mgr st = Some (st', Inr ())" and mx: "max_payloads mgr \<le> 32"
    and ok: "ids_ok (payloads st) (payload_mask st)"
  shows "ids_ok (payloads st') (payload_mask st')"
proof -
  obtain ps m r where al: "alloc_limits (max_payloads mgr) (payloads st) (uint (total_avail_slots st)) 0 (payload_mask st) = Some (ps, m, r)"
    using c by (auto simp: drm_dp_mst_atomic_check_payload_alloc_limits_def bind_eq_Some_conv)
  obtain k where r: "r = Inr k" using c al by (cases r) (auto simp: drm_dp_mst_atomic_check_payload_alloc_limits_def)
  have a: "alloc_limits (max_payloads mgr) (payloads st) (uint (total_avail_slots st)) 0 (payload_mask st) = Some (ps, m, Inr k)"
    "payloads st' = ps" "payload_mask st' = m"
    using c al r by (auto simp: drm_dp_mst_atomic_check_payload_alloc_limits_def Let_def split: if_splits)
  have "length (filter used ([] @ payloads st)) \<le> 32" using alloc_limits_count [OF a(1)] mx by auto
  then show ?thesis using alloc_limits_ids [OF a(1), of "[]"] ok a(2,3) by simp
qed

end
