(* ===== verification/Mst_Payload_Table.thy ===== *)
theory Mst_Payload_Table
  imports Mst_Payload_Ids
begin

text \<open>
  The payload table: the payloads that have been given time slots lie one behind the other from the first
  usable slot on, and adding and removing keep them so.
\<close>

section \<open>One behind the other\<close>

definition placed :: "payload \<Rightarrow> bool" where
  "placed p \<longleftrightarrow> vc_start_slot p \<noteq> - 1"

definition slots_of :: "payload \<Rightarrow> nat set" where
  "slots_of p = {unat (vc_start_slot p)..<unat (vc_start_slot p) + nat (time_slots p)}"

fun chain :: "nat \<Rightarrow> payload list \<Rightarrow> nat \<Rightarrow> bool" where
  "chain s [] e \<longleftrightarrow> s = e"
| "chain s (p # ps) e \<longleftrightarrow> unat (vc_start_slot p) = s \<and> 0 < time_slots p \<and> chain (s + nat (time_slots p)) ps e"

lemma chain_append: "chain s (ps @ qs) e \<longleftrightarrow> (\<exists>m. chain s ps m \<and> chain m qs e)"
  by (induction ps arbitrary: s) auto

lemma chain_le: "chain s ps e \<Longrightarrow> s \<le> e"
  by (induction ps arbitrary: s) (auto intro: le_trans [OF le_add1])

lemma chain_between:
  "chain s ps e \<Longrightarrow> p \<in> set ps \<Longrightarrow> s \<le> unat (vc_start_slot p) \<and> unat (vc_start_slot p) + nat (time_slots p) \<le> e \<and> 0 < time_slots p"
proof (induction ps arbitrary: s)
  case (Cons q qs)
  then show ?case using chain_le [of "s + nat (time_slots q)" qs e] by fastforce
qed simp

lemma chain_covers: "chain s ps e \<Longrightarrow> (\<Union>p\<in>set ps. slots_of p) = {s..<e}"
proof (induction ps arbitrary: s)
  case (Cons p ps)
  have "(\<Union>p\<in>set (p # ps). slots_of p) = slots_of p \<union> {s + nat (time_slots p)..<e}"
    using Cons.IH [of "s + nat (time_slots p)"] Cons.prems by simp
  then show ?case using Cons.prems chain_le [of "s + nat (time_slots p)" ps e] by (auto simp: slots_of_def)
qed simp

lemma chain_apart: "chain s (as @ p # bs) e \<Longrightarrow> q \<in> set as \<union> set bs \<Longrightarrow> slots_of p \<inter> slots_of q = {}"
proof -
  assume c: "chain s (as @ p # bs) e" and q: "q \<in> set as \<union> set bs"
  obtain m where m: "chain s as m" "unat (vc_start_slot p) = m" "chain (m + nat (time_slots p)) bs e" using c by (auto simp: chain_append)
  show "slots_of p \<inter> slots_of q = {}"
    using q chain_between [OF m(1), of q] chain_between [OF m(3), of q] m(2) by (auto simp: slots_of_def)
qed

text \<open>A chain moved towards the start.\<close>

lemma chain_shift:
  assumes "chain (s + k) ps e" "e \<le> 64" "0 < k"
  shows "chain s (map (\<lambda>p. p\<lparr>vc_start_slot := vc_start_slot p - word_of_nat k\<rparr>) ps) (e - k)"
  using assms
proof (induction ps arbitrary: s)
  case (Cons p ps)
  have le: "s + k + nat (time_slots p) \<le> e" using Cons.prems(1) chain_le [of "s + k + nat (time_slots p)" ps e] by simp
  then have "k < 256" using Cons.prems(2) by simp
  then have "unat (word_of_nat k :: u8) = k" by (simp add: unat_of_nat)
  then have u: "unat (vc_start_slot p - word_of_nat k) = s" using Cons.prems(1) by (simp add: unat_sub word_le_nat_alt)
  have "chain ((s + nat (time_slots p)) + k) ps e" using Cons.prems(1) by (simp add: ac_simps)
  then have "chain (s + nat (time_slots p)) (map (\<lambda>p. p\<lparr>vc_start_slot := vc_start_slot p - word_of_nat k\<rparr>) ps) (e - k)"
    by (rule Cons.IH) (use Cons.prems in simp_all)
  then show ?case using u Cons.prems(1) by simp
qed simp

section \<open>The invariant\<close>

definition table_end :: "topology_state \<Rightarrow> nat" where
  "table_end st = unat (start_slot st) + nat (sum_list (map time_slots (filter placed (payloads st))))"

definition table_ok :: "payload_mgr \<Rightarrow> topology_state \<Rightarrow> bool" where
  "table_ok mgr st \<longleftrightarrow> distinct (map pl_port (payloads st)) \<and>
     (\<exists>qs. mset qs = mset (filter placed (payloads st)) \<and> chain (unat (start_slot st)) qs (table_end st)) \<and>
     unat (payload_count mgr) = length (filter placed (payloads st)) \<and>
     (filter placed (payloads st) \<noteq> [] \<longrightarrow> unat (next_start_slot mgr) = table_end st) \<and> table_end st \<le> 64"

lemma chain_sum: "chain s ps e \<Longrightarrow> e = s + nat (sum_list (map time_slots ps)) \<and> 0 \<le> sum_list (map time_slots ps)"
proof (induction ps arbitrary: s)
  case (Cons p ps)
  then have "e = s + nat (time_slots p) + nat (sum_list (map time_slots ps)) \<and> 0 \<le> sum_list (map time_slots ps)" "0 < time_slots p" by auto
  then show ?case by (simp add: nat_add_distrib)
qed simp

lemma sum_mset_slots: "mset qs = mset ps \<Longrightarrow> sum_list (map time_slots qs) = sum_list (map time_slots ps)"
  by (metis mset_map sum_mset_sum_list)

lemma table_okI:
  assumes "distinct (map pl_port (payloads st))" "mset qs = mset (filter placed (payloads st))" "chain (unat (start_slot st)) qs e" "e \<le> 64"
    and "unat (payload_count mgr) = length qs" "qs \<noteq> [] \<Longrightarrow> unat (next_start_slot mgr) = e"
  shows "table_ok mgr st"
proof -
  have "e = table_end st" using chain_sum [OF assms(3)] sum_mset_slots [OF assms(2)] by (simp add: table_end_def)
  moreover have "length qs = length (filter placed (payloads st))" using assms(2) by (metis size_mset)
  moreover have "qs = [] \<longleftrightarrow> filter placed (payloads st) = []" using assms(2) by (metis mset_zero_iff)
  moreover have "filter placed (payloads st) \<noteq> [] \<longrightarrow> unat (next_start_slot mgr) = e" using assms(6) calculation(3) by blast
  ultimately show ?thesis unfolding table_ok_def using assms(1-5) by auto
qed

lemma length_chain: "chain s qs e \<Longrightarrow> length qs \<le> e - s"
proof (induction qs arbitrary: s)
  case (Cons p ps)
  then show ?case using chain_le [of "s + nat (time_slots p)" ps e] by fastforce
qed simp

text \<open>Where a payload is, when the ports are all different.\<close>

lemma payload_at:
  assumes "drm_atomic_get_mst_payload_state st port = Some p"
  shows "\<exists>as bs. payloads st = as @ p # bs \<and> pl_port p = port \<and>
    (\<forall>f. payloads (change_payload port f st) = as @ f p # bs \<and> change_payload port f st = st\<lparr>payloads := as @ f p # bs\<rparr>)"
proof -
  obtain as bs where s: "payloads st = as @ p # bs" "\<forall>y\<in>set as. pl_port y \<noteq> port" "pl_port p = port"
    using change_first_split [of "\<lambda>p. pl_port p = port" "payloads st" p id] assms unfolding drm_atomic_get_mst_payload_state_def by blast
  have "change_first (\<lambda>p. pl_port p = port) f (as @ p # bs) = as @ f p # bs" for f using s(2,3) by (induction as) auto
  then show ?thesis using s by (intro exI [of _ as] exI [of _ bs]) (simp add: change_payload_def)
qed

lemma add_keeps:
  assumes ok: "table_ok mgr st" and p: "drm_atomic_get_mst_payload_state st port = Some p" "\<not> placed p" "0 < time_slots p"
    and fit: "table_end st + nat (time_slots p) \<le> 64"
  shows "\<exists>mgr' st' s' r. drm_dp_add_payload_part1 tr valid mgr st port s = Some (mgr', st', s', r) \<and> table_ok mgr' st' \<and>
    start_slot st' = start_slot st \<and>
    (if valid \<and> 0 \<le> r then r = 0 \<and> table_end st' = table_end st + nat (time_slots p) \<and>
       drm_atomic_get_mst_payload_state st' port = Some (p\<lparr>vc_start_slot := word_of_nat (table_end st)\<rparr>) else st' = st)"
proof -
  obtain as bs where s: "payloads st = as @ p # bs" "pl_port p = port"
    "\<And>f. change_payload port f st = st\<lparr>payloads := as @ f p # bs\<rparr>" using payload_at [OF p(1)] by blast
  obtain qs where q: "distinct (map pl_port (payloads st))" "mset qs = mset (filter placed (payloads st))" "chain (unat (start_slot st)) qs (table_end st)"
    "unat (payload_count mgr) = length (filter placed (payloads st))"
    "filter placed (payloads st) \<noteq> [] \<longrightarrow> unat (next_start_slot mgr) = table_end st" "table_end st \<le> 64" using ok unfolding table_ok_def by blast
  have ql: "length qs = length (filter placed (payloads st))" using q(2) by (metis size_mset)
  define m1 where "m1 = (if payload_count mgr = 0 then mgr\<lparr>next_start_slot := start_slot st\<rparr> else mgr)"
  have nx: "unat (next_start_slot m1) = table_end st"
  proof (cases "payload_count mgr = 0")
    case True
    then have "qs = []" using q(4) ql by simp
    then show ?thesis using q(3) True by (simp add: m1_def)
  next
    case False
    then have "filter placed (payloads st) \<noteq> []" using q(4) by (auto simp: unat_eq_0)
    then show ?thesis using q(5) False by (simp add: m1_def)
  qed
  have pc: "payload_count m1 = payload_count mgr" by (simp add: m1_def)
  obtain s' r where "drm_dp_dpcd_write_payload tr (vcpi p) (next_start_slot m1) (word_of_int (time_slots p)) s = (s', r)" by (meson surj_pair)
  then have w: "drm_dp_create_payload_step1 tr (p\<lparr>vc_start_slot := next_start_slot m1\<rparr>) s = (s', r)" by (simp add: drm_dp_create_payload_step1_def)
  have same: "st\<lparr>payloads := as @ p\<lparr>vc_start_slot := - 1\<rparr> # bs\<rparr> = st" using p(2) s(1) by (simp add: placed_def)
  consider (gone) "\<not> valid" | (fail) "valid" "r < 0" | (ok) "valid" "0 \<le> r" by linarith
  then show ?thesis
  proof cases
    case gone
    then show ?thesis using p(1) ok by (simp add: drm_dp_add_payload_part1_def)
  next
    case fail
    then have "drm_dp_add_payload_part1 tr valid mgr st port s = Some (m1, st, s', r)"
      using p(1) w s(3) same unfolding drm_dp_add_payload_part1_def m1_def [symmetric] Let_def by simp
    moreover have "table_ok m1 st"
      by (rule table_okI [OF q(1,2,3,6)]) (use q(4) ql pc nx in simp_all)
    ultimately show ?thesis using fail by simp
  next
    case ok
    define p' where "p' = p\<lparr>vc_start_slot := next_start_slot m1\<rparr>"
    define st' where "st' = st\<lparr>payloads := as @ p' # bs\<rparr>"
    define m2 where "m2 = m1\<lparr>payload_count := payload_count m1 + 1, next_start_slot := next_start_slot m1 + word_of_int (time_slots p)\<rparr>"
    have e: "drm_dp_add_payload_part1 tr valid mgr st port s = Some (m2, st', s', 0)"
      using p(1) w s(3) ok unfolding drm_dp_add_payload_part1_def m1_def [symmetric] Let_def m2_def st'_def p'_def by simp
    have lt: "table_end st < 64" "nat (time_slots p) \<le> 64" using fit p(3) by simp_all
    have "unat (- 1 :: u8) = 255" by (simp add: unsigned_minus_1_eq_mask mask_eq_exp_minus_1)
    then have pl: "placed p'" using nx lt(1) by (cases "next_start_slot m1 = - 1") (simp_all add: placed_def p'_def)
    have "unat (word_of_int (time_slots p) :: u8) = nat (time_slots p)"
      using p(3) lt(2) by (simp add: unsigned_of_int take_bit_int_eq_self nat_take_bit_eq take_bit_nat_eq_self)
    then have n2: "unat (next_start_slot m2) = table_end st + nat (time_slots p)" using nx fit by (simp add: m2_def unat_word_ariths)
    have "length qs \<le> 64" using length_chain [OF q(3)] q(6) by simp
    then have c2: "unat (payload_count m2) = length (qs @ [p'])" using q(4) ql pc by (simp add: m2_def unat_word_ariths)
    have ch: "chain (unat (start_slot st')) (qs @ [p']) (table_end st + nat (time_slots p))"
      using q(3) nx p(3) by (auto simp: chain_append st'_def p'_def)
    have ms: "mset (qs @ [p']) = mset (filter placed (payloads st'))" using q(2) s(1) p(2) pl by (simp add: st'_def)
    have ds: "distinct (map pl_port (payloads st'))" using q(1) s(1) by (simp add: st'_def p'_def)
    have "table_ok m2 st'" by (rule table_okI [OF ds ms ch fit c2 n2])
    moreover have "table_end st' = table_end st + nat (time_slots p)"
      using chain_sum [OF ch] sum_mset_slots [OF ms] by (simp add: table_end_def)
    moreover have "drm_atomic_get_mst_payload_state st' port = Some p'"
    proof -
      have "pl_port p \<notin> pl_port ` set as" using q(1) s(1) by simp
      then have "\<forall>y\<in>set as. pl_port y \<noteq> port" using s(2) by (metis imageI)
      then have "find (\<lambda>q. pl_port q = port) (as @ p' # bs) = Some p'" using s(2) by (induction as) (auto simp: p'_def)
      then show ?thesis by (simp add: drm_atomic_get_mst_payload_state_def st'_def)
    qed
    moreover have "next_start_slot m1 = word_of_nat (table_end st)" by (simp flip: nx)
    ultimately show ?thesis using e ok by (simp add: p'_def st'_def)
  qed
qed

text \<open>Removing moves what lies behind towards the start.\<close>

definition moved :: "payload \<Rightarrow> payload \<Rightarrow> payload" where
  "moved p q = (if pl_port q = pl_port p then q\<lparr>vc_start_slot := - 1\<rparr>
     else if vc_start_slot p <s vc_start_slot q then q\<lparr>vc_start_slot := vc_start_slot q - word_of_int (time_slots p)\<rparr> else q)"

lemma sint_slot:
  assumes "unat (x :: u8) \<le> 64"
  shows "sint x = int (unat x)"
proof -
  have u: "int (unat x) = uint x" by simp
  then have "uint x \<le> 64" using assms by linarith
  then have "sint x = uint x" by (intro uint_sint_small) simp
  then show ?thesis by simp
qed

lemma sless_small:
  fixes a b :: u8
  assumes "unat a \<le> 64" "unat b \<le> 64"
  shows "a <s b \<longleftrightarrow> unat a < unat b"
  unfolding word_sless_alt sint_slot [OF assms(1)] sint_slot [OF assms(2)] by (rule of_nat_less_iff)

lemma not_placed_moved:
  assumes "\<not> placed q" "unat (vc_start_slot p) \<le> 64"
  shows "\<not> placed (moved p q)"
proof -
  have "0 \<le> sint (vc_start_slot p)" unfolding sint_slot [OF assms(2)] by (rule of_nat_0_le_iff)
  then have "\<not> vc_start_slot p <s - 1" by (simp add: word_sless_alt)
  then show ?thesis using assms(1) by (simp add: placed_def moved_def)
qed

lemma remove_keeps:
  assumes ok: "table_ok mgr st" and p: "drm_atomic_get_mst_payload_state st port = Some p" "placed p"
  shows "\<exists>mgr' st' s'. drm_dp_remove_payload tr below mgr st port s = Some (mgr', st', s') \<and> table_ok mgr' st' \<and>
    start_slot st' = start_slot st \<and> table_end st' + nat (time_slots p) = table_end st \<and> payloads st' = map (moved p) (payloads st)"
proof -
  obtain as bs where s: "payloads st = as @ p # bs" "pl_port p = port" using payload_at [OF p(1)] by blast
  obtain qs where q: "distinct (map pl_port (payloads st))" "mset qs = mset (filter placed (payloads st))" "chain (unat (start_slot st)) qs (table_end st)"
    "unat (payload_count mgr) = length (filter placed (payloads st))"
    "filter placed (payloads st) \<noteq> [] \<longrightarrow> unat (next_start_slot mgr) = table_end st" "table_end st \<le> 64" using ok unfolding table_ok_def by blast
  have ql: "length qs = length (filter placed (payloads st))" using q(2) by (metis size_mset)
  have "p \<in> set qs" using q(2) s(1) p(2) by (metis (no_types, lifting) filter_set in_set_conv_decomp mem_Collect_eq set_filter set_mset_mset)
  then obtain xs ys where qs: "qs = xs @ p # ys" using split_list by fast
  obtain m where c: "chain (unat (start_slot st)) xs m" "unat (vc_start_slot p) = m" "0 < time_slots p" "chain (m + nat (time_slots p)) ys (table_end st)"
    using q(3) unfolding qs by (auto simp: chain_append)
  define k where "k = nat (time_slots p)"
  have k: "0 < k" "m + k \<le> table_end st" using c(3,4) chain_le [OF c(4)] by (simp_all add: k_def)
  have m64: "m \<le> 64" using k(2) q(6) by simp
  have wk: "word_of_int (time_slots p) = (word_of_nat k :: u8)" using c(3) by (simp add: k_def)
  have uk: "unat (word_of_nat k :: u8) = k" using k q(6) by (simp add: unat_of_nat)
  have dq: "distinct (map pl_port qs)"
  proof -
    have "distinct (map pl_port (filter placed (payloads st)))" using q(1) by (rule distinct_map_filter)
    moreover have "mset (map pl_port qs) = mset (map pl_port (filter placed (payloads st)))" using q(2) by simp
    ultimately show ?thesis by (metis mset_eq_imp_distinct_iff)
  qed
  have mx: "moved p x = x" if x: "x \<in> set xs" for x
  proof -
    have "unat (vc_start_slot x) < m" using chain_between [OF c(1) x] by auto
    moreover have "pl_port p \<notin> pl_port ` set xs" using dq unfolding qs by simp
    then have "pl_port x \<noteq> pl_port p" using x by (metis imageI)
    ultimately show ?thesis using sless_small [of "vc_start_slot p" "vc_start_slot x"] c(2) m64 by (simp add: moved_def)
  qed
  have my: "moved p y = y\<lparr>vc_start_slot := vc_start_slot y - word_of_nat k\<rparr>" if y: "y \<in> set ys" for y
  proof -
    have "m < unat (vc_start_slot y)" "unat (vc_start_slot y) \<le> 64" using chain_between [OF c(4) y] k q(6) unfolding k_def [symmetric] by simp_all
    moreover have "pl_port p \<notin> pl_port ` set ys" using dq unfolding qs by simp
    then have "pl_port y \<noteq> pl_port p" using y by (metis imageI)
    ultimately show ?thesis using sless_small [of "vc_start_slot p" "vc_start_slot y"] c(2) m64 wk by (simp add: moved_def)
  qed
  define ys' where "ys' = map (\<lambda>y. y\<lparr>vc_start_slot := vc_start_slot y - word_of_nat k\<rparr>) ys"
  have ch': "chain m ys' (table_end st - k)" unfolding ys'_def by (rule chain_shift) (use c(4) q(6) k in \<open>simp_all add: k_def\<close>)
  then have ch: "chain (unat (start_slot st)) (xs @ ys') (table_end st - k)" using c(1) by (auto simp: chain_append)
  have ply: "placed y" if "y \<in> set ys'" for y
  proof -
    have "unat (vc_start_slot y) < 255" using chain_between [OF ch' that] q(6) by linarith
    moreover have "unat (- 1 :: u8) = 255" by (simp add: unsigned_minus_1_eq_mask mask_eq_exp_minus_1)
    ultimately show ?thesis by (auto simp: placed_def)
  qed
  have plx: "placed x" if "x \<in> set xs" for x using q(2) that unfolding qs by (metis (no_types, lifting) UnI1 filter_set mem_Collect_eq set_append set_filter set_mset_mset)
  have np: "\<not> placed (moved p p)" by (simp add: moved_def placed_def)
  have "mset (filter placed (map (moved p) zs)) = mset (filter placed (map (moved p) (filter placed zs)))" for zs
    using not_placed_moved [of _ p] c(2) m64 by (induction zs) auto
  then have "mset (filter placed (map (moved p) (payloads st))) = mset (filter placed (map (moved p) (filter placed (payloads st))))" .
  also have "\<dots> = filter_mset placed (image_mset (moved p) (mset qs))" using q(2) by simp
  also have "\<dots> = mset (filter placed (map (moved p) qs))" by simp
  also have "filter placed (map (moved p) qs) = xs @ ys'"
  proof -
    have "map (moved p) xs = xs" "map (moved p) ys = ys'" using mx my by (simp_all add: map_idI ys'_def)
    then show ?thesis unfolding qs using plx ply np by simp
  qed
  finally have ms: "mset (xs @ ys') = mset (filter placed (map (moved p) (payloads st)))" by simp
  define st' where "st' = st\<lparr>payloads := map (moved p) (payloads st)\<rparr>"
  define m1 where "m1 = mgr\<lparr>payload_count := payload_count mgr - 1, next_start_slot := next_start_slot mgr - word_of_int (time_slots p)\<rparr>"
  have ex: "\<exists>s'. drm_dp_remove_payload tr below mgr st port s = Some (m1, st', s')"
    using p s(2) by (simp add: drm_dp_remove_payload_def Let_def placed_def m1_def st'_def moved_def [abs_def])
  have "0 < length qs" by (simp add: qs)
  then have pc: "0 < unat (payload_count mgr)" using q(4) ql by linarith
  have cnt: "unat (payload_count m1) = length (xs @ ys')"
    using q(4) ql pc unfolding qs by (simp add: m1_def ys'_def unat_sub word_le_nat_alt)
  have "filter placed (payloads st) \<noteq> []" using q(4) pc by (metis less_numeral_extra(3) list.size(3))
  then have "unat (next_start_slot mgr) = table_end st" using q(5) by blast
  then have nxt: "unat (next_start_slot m1) = table_end st - k" using wk uk k(2) by (simp add: m1_def unat_sub word_le_nat_alt)
  have st: "start_slot st' = start_slot st" "payloads st' = map (moved p) (payloads st)" by (simp_all add: st'_def)
  have "map pl_port (payloads st') = map pl_port (payloads st)" unfolding st(2) by (simp add: moved_def)
  then have ds: "distinct (map pl_port (payloads st'))" using q(1) by simp
  have "table_end st - k \<le> 64" using q(6) by simp
  then have ok': "table_ok m1 st'" by (rule table_okI [OF ds ms [folded st(2)] ch [folded st(1)] _ cnt nxt])
  have "table_end st' = table_end st - k"
    using chain_sum [OF ch] sum_mset_slots [OF ms] by (simp add: table_end_def st)
  then show ?thesis using ex ok' st k(2) by (auto simp: k_def)
qed

end
