(* ===== verification/Mst_Payload_Bw.thy ===== *)
theory Mst_Payload_Bw
  imports Mst_Payload_Ids
begin

text \<open>
  The check of the bandwidth against its meaning: what the sinks below each port ask for, added up, is
  at most what the port can carry.
\<close>

section \<open>What is asked for\<close>

text \<open>The bandwidth the sink at a port asks for, and what a port has to carry in all.\<close>

definition asks :: "topology_state \<Rightarrow> port_data \<Rightarrow> int" where
  "asks st d = (case drm_atomic_get_mst_payload_state st (pd_id d) of None \<Rightarrow> 0 | Some p \<Rightarrow> pbn p)"

fun branch_load :: "topology_state \<Rightarrow> mst_branch \<Rightarrow> int"
  and ports_load :: "topology_state \<Rightarrow> mst_port list \<Rightarrow> int"
  and port_load :: "topology_state \<Rightarrow> mst_port \<Rightarrow> int" where
  "branch_load st (Branch i c r g ps) = ports_load st ps"
| "ports_load st [] = 0"
| "ports_load st (p # ps) = port_load st p + ports_load st ps"
| "port_load st (Port n d m) =
     (if pd_pdt d = DP_PEER_DEVICE_NONE then 0
      else if drm_dp_mst_is_end_device (pd_pdt d) (pd_mcs d) then asks st d
      else case m of None \<Rightarrow> 0 | Some b \<Rightarrow> branch_load st b)"

text \<open>Every port, from the branch down, can carry what it has to.\<close>

fun branch_fits :: "topology_state \<Rightarrow> mst_branch \<Rightarrow> bool"
  and ports_fit :: "topology_state \<Rightarrow> mst_port list \<Rightarrow> bool"
  and port_fits :: "topology_state \<Rightarrow> mst_port \<Rightarrow> bool" where
  "branch_fits st (Branch i c r g ps) \<longleftrightarrow> ports_fit st ps"
| "ports_fit st [] \<longleftrightarrow> True"
| "ports_fit st (p # ps) \<longleftrightarrow> port_fits st p \<and> ports_fit st ps"
| "port_fits st (Port n d m) \<longleftrightarrow>
     port_load st (Port n d m) \<le> uint (pd_full_pbn d) \<and>
     (if pd_pdt d = DP_PEER_DEVICE_NONE \<or> drm_dp_mst_is_end_device (pd_pdt d) (pd_mcs d) then True
      else case m of None \<Rightarrow> True | Some b \<Rightarrow> branch_fits st b)"

text \<open>
  A branch is busy if a payload that takes bandwidth is for a port somewhere below it, as the pointers
  upwards have it. Below a busy branch no sink that has a payload, not even one that asks for nothing, is
  without bandwidth; what is below a branch that is not busy does not matter.
\<close>

definition busy :: "links \<Rightarrow> topology_state \<Rightarrow> nat \<Rightarrow> bool" where
  "busy l st i \<longleftrightarrow> (\<exists>p\<in>set (payloads st). pbn p \<noteq> 0 \<and> drm_dp_mst_port_downstream_of_branch l (pl_port p) i = Some True)"

fun branch_fed :: "links \<Rightarrow> topology_state \<Rightarrow> mst_branch \<Rightarrow> bool"
  and ports_fed :: "links \<Rightarrow> topology_state \<Rightarrow> mst_port list \<Rightarrow> bool"
  and port_fed :: "links \<Rightarrow> topology_state \<Rightarrow> mst_port \<Rightarrow> bool" where
  "branch_fed l st (Branch i c r g ps) \<longleftrightarrow> (busy l st i \<longrightarrow> ports_fed l st ps)"
| "ports_fed l st [] \<longleftrightarrow> True"
| "ports_fed l st (p # ps) \<longleftrightarrow> port_fed l st p \<and> ports_fed l st ps"
| "port_fed l st (Port n d m) \<longleftrightarrow>
     (if pd_pdt d = DP_PEER_DEVICE_NONE then True
      else if drm_dp_mst_is_end_device (pd_pdt d) (pd_mcs d)
      then drm_atomic_get_mst_payload_state st (pd_id d) = None \<or> pd_full_pbn d \<noteq> 0
      else case m of None \<Rightarrow> True | Some b \<Rightarrow> branch_fed l st b)"

section \<open>The pointers and the tree\<close>

text \<open>The pointers upwards say what the tree says, and no branch has more ports than a byte has values.\<close>

fun linked :: "links \<Rightarrow> mst_branch \<Rightarrow> bool"
  and ports_linked :: "links \<Rightarrow> nat \<Rightarrow> mst_port list \<Rightarrow> bool"
  and port_linked :: "links \<Rightarrow> nat \<Rightarrow> mst_port \<Rightarrow> bool" where
  "linked l (Branch i c r g ps) \<longleftrightarrow> length ps \<le> 256 \<and> ports_linked l i ps"
| "ports_linked l i [] \<longleftrightarrow> True"
| "ports_linked l i (p # ps) \<longleftrightarrow> port_linked l i p \<and> ports_linked l i ps"
| "port_linked l i (Port n d m) \<longleftrightarrow> parent_of l (pd_id d) = Some i \<and>
     (case m of None \<Rightarrow> True | Some b \<Rightarrow> port_above l (br_id b) = Some (pd_id d) \<and> linked l b)"

text \<open>Going up ends.\<close>

definition grounded :: "links \<Rightarrow> bool" where
  "grounded l \<longleftrightarrow> (\<exists>rank :: nat \<Rightarrow> nat. \<forall>p b q. parent_of l p = Some b \<longrightarrow> port_above l b = Some q \<longrightarrow> rank q < rank p)"

lemma walk_ends:
  assumes "grounded l"
  shows "\<exists>r. drm_dp_mst_port_downstream_of_branch l p b = Some r"
proof -
  obtain rank :: "nat \<Rightarrow> nat" where rk: "\<And>p b q. parent_of l p = Some b \<Longrightarrow> port_above l b = Some q \<Longrightarrow> rank q < rank p"
    using assms unfolding grounded_def by blast
  show ?thesis
  proof (induction "rank p" arbitrary: p rule: less_induct)
    case less
    then show ?case using rk
      by (subst drm_dp_mst_port_downstream_of_branch.simps) (auto split: option.splits)
  qed
qed

lemma walk_on:
  assumes "grounded l" "drm_dp_mst_port_downstream_of_branch l q c = Some True" "port_above l c = Some p"
    "drm_dp_mst_port_downstream_of_branch l p b = Some True"
  shows "drm_dp_mst_port_downstream_of_branch l q b = Some True"
proof -
  obtain rank :: "nat \<Rightarrow> nat" where rk: "\<And>p b q. parent_of l p = Some b \<Longrightarrow> port_above l b = Some q \<Longrightarrow> rank q < rank p"
    using assms(1) unfolding grounded_def by blast
  show ?thesis
    using assms(2)
  proof (induction "rank q" arbitrary: q rule: less_induct)
    case less
    then show ?case
      using rk assms(3,4) drm_dp_mst_port_downstream_of_branch.simps [of l q c] drm_dp_mst_port_downstream_of_branch.simps [of l q b]
      by (auto split: option.splits if_splits)
  qed
qed

lemma linked_below:
  "grounded l \<Longrightarrow> linked l b \<Longrightarrow> q \<in> branch_ids b \<Longrightarrow> drm_dp_mst_port_downstream_of_branch l q (br_id b) = Some True"
  "grounded l \<Longrightarrow> ports_linked l i ps \<Longrightarrow> q \<in> ports_ids ps \<Longrightarrow> drm_dp_mst_port_downstream_of_branch l q i = Some True"
  "grounded l \<Longrightarrow> port_linked l i p \<Longrightarrow> q \<in> port_ids p \<Longrightarrow> drm_dp_mst_port_downstream_of_branch l q i = Some True"
proof (induction l b and l i ps and l i p rule: linked_ports_linked_port_linked.induct)
  case (4 l i n d m)
  have here: "drm_dp_mst_port_downstream_of_branch l (pd_id d) i = Some True"
    using 4(3) by (subst drm_dp_mst_port_downstream_of_branch.simps) simp
  show ?case
  proof (cases "q = pd_id d")
    case True
    then show ?thesis using here by simp
  next
    case False
    then obtain b where b: "m = Some b" "q \<in> branch_ids b" using 4(4) by (auto split: option.splits)
    then have k: "port_above l (br_id b) = Some (pd_id d)" "linked l b" using 4(3) by simp_all
    show ?thesis by (rule walk_on [OF 4(2) 4(1) [OF b(1) 4(2) k(2) b(2)] k(1) here])
  qed
qed auto

section \<open>The check\<close>

lemma payload_below_result:
  assumes "grounded l"
  shows "payload_below l i (payloads st) = Some (busy l st i)"
proof -
  have "payload_below l i ps =
      Some (\<exists>p\<in>set ps. pbn p \<noteq> 0 \<and> drm_dp_mst_port_downstream_of_branch l (pl_port p) i = Some True)" for ps
  proof (induction ps)
    case (Cons p ps)
    obtain r where "drm_dp_mst_port_downstream_of_branch l (pl_port p) i = Some r" using walk_ends [OF assms] by blast
    then show ?case using Cons by (cases r) auto
  qed simp
  then show ?thesis by (simp add: busy_def)
qed

definition asks_ok :: "topology_state \<Rightarrow> bool" where
  "asks_ok st \<longleftrightarrow> (\<forall>p\<in>set (payloads st). 0 \<le> pbn p)"

lemma asks_nonneg: "asks_ok st \<Longrightarrow> 0 \<le> asks st d"
  by (auto simp: asks_ok_def asks_def drm_atomic_get_mst_payload_state_def find_Some_iff split: option.splits)

text \<open>Where no payload takes bandwidth, nothing is to be carried.\<close>

lemma idle:
  assumes "\<And>q. q \<in> Q \<Longrightarrow> (\<And>d. pd_id d = q \<Longrightarrow> asks st d = 0)"
  shows "branch_ids b \<subseteq> Q \<Longrightarrow> branch_load st b = 0 \<and> branch_fits st b"
    "ports_ids ps \<subseteq> Q \<Longrightarrow> ports_load st ps = 0 \<and> ports_fit st ps"
    "port_ids p \<subseteq> Q \<Longrightarrow> port_load st p = 0 \<and> port_fits st p"
proof (induction b and ps and p rule: branch_ids_ports_ids_port_ids.induct)
  case (4 n d m)
  have "asks st d = 0" using assms [of "pd_id d" d] 4(2) by simp
  then show ?case using 4 by (cases m) simp_all
qed simp_all

lemma small_limit: "uint (pd_full_pbn d) \<le> 65535"
  using unsigned_less [of "pd_full_pbn d", where 'a = int] by simp

text \<open>The two errors.\<close>

definition bw_error :: "int \<Rightarrow> bool" where
  "bw_error r \<longleftrightarrow> r = - ENOSPC_code \<or> r = - EINVAL_code"

lemma bw_error_neg: "bw_error r \<Longrightarrow> r < 0"
  by (auto simp: bw_error_def ENOSPC_code_def EINVAL_code_def)

lemma check_bw_result:
  "grounded l \<Longrightarrow> asks_ok st \<Longrightarrow> linked l b \<Longrightarrow>
    \<exists>r. check_mstb_bw_limit l st b = Some r \<and>
      (if branch_fits st b \<and> branch_fed l st b then r = branch_load st b \<and> 0 \<le> r else bw_error r)"
  "grounded l \<Longrightarrow> asks_ok st \<Longrightarrow> ports_linked l i ps \<Longrightarrow> 0 \<le> u \<Longrightarrow> u + 65535 * int (length ps) < 2 ^ 31 \<Longrightarrow>
    \<exists>r. check_ports_bw_limit l st ps u = Some r \<and>
      (if ports_fit st ps \<and> ports_fed l st ps then r = u + ports_load st ps \<and> 0 \<le> r else bw_error r)"
  "grounded l \<Longrightarrow> asks_ok st \<Longrightarrow> port_linked l i p \<Longrightarrow>
    \<exists>r. check_port_bw_limit l st p = Some r \<and>
      (if port_fits st p \<and> port_fed l st p then r = port_load st p \<and> 0 \<le> r \<and> r \<le> 65535 else bw_error r)"
proof (induction l st b and l st ps u and l st p arbitrary: and i and i rule: check_mstb_bw_limit_check_ports_bw_limit_check_port_bw_limit.induct)
  case (1 l st i c r g ps)
  note t = payload_below_result [OF 1(2), of i st]
  show ?case
  proof (cases "busy l st i")
    case True
    obtain r where "check_ports_bw_limit l st ps 0 = Some r"
      "if ports_fit st ps \<and> ports_fed l st ps then r = 0 + ports_load st ps \<and> 0 \<le> r else bw_error r"
      using 1(1) [OF t _ 1(2,3), of i] True 1(4) by auto
    then show ?thesis using t True by (auto split: if_splits)
  next
    case False
    have "asks st d = 0" if q: "q \<in> ports_ids ps" "pd_id d = q" for q d
    proof (cases "drm_atomic_get_mst_payload_state st q")
      case (Some p)
      have "drm_dp_mst_port_downstream_of_branch l q i = Some True" using linked_below(2) [OF 1(2) _ q(1), of i] 1(4) by simp
      moreover have "p \<in> set (payloads st)" "pl_port p = q" using Some by (auto simp: drm_atomic_get_mst_payload_state_def find_Some_iff)
      ultimately have "pbn p = 0" using False by (auto simp: busy_def)
      then show ?thesis using Some q(2) by (simp add: asks_def)
    qed (use q in \<open>simp add: asks_def\<close>)
    then have "ports_load st ps = 0 \<and> ports_fit st ps" by (intro idle(2) [of "ports_ids ps"]) auto
    then show ?thesis using t False by simp
  qed
next
  case (2 l st u)
  then show ?case by simp
next
  case (3 l st p ps u)
  obtain r where r: "check_port_bw_limit l st p = Some r"
    "if port_fits st p \<and> port_fed l st p then r = port_load st p \<and> 0 \<le> r \<and> r \<le> 65535 else bw_error r"
    using 3(1) [OF 3(3,4), of i] 3(5) by auto
  show ?case
  proof (cases "port_fits st p \<and> port_fed l st p")
    case False
    then have "bw_error r" using r(2) by simp
    then show ?thesis using r(1) False bw_error_neg by auto
  next
    case True
    then have rp: "r = port_load st p" "0 \<le> r" "r \<le> 65535" using r(2) by simp_all
    have w: "wrap32 (u + r) = u + r" by (rule wrap32_same) (use 3(6,7) rp in simp_all)
    have "0 \<le> u + r" "u + r + 65535 * int (length ps) < 2 ^ 31" using 3(6,7) rp by simp_all
    then have "\<exists>r'. check_ports_bw_limit l st ps (wrap32 (u + r)) = Some r' \<and>
        (if ports_fit st ps \<and> ports_fed l st ps then r' = wrap32 (u + r) + ports_load st ps \<and> 0 \<le> r' else bw_error r')"
      by (intro 3(2) [OF r(1) _ 3(3,4), of i]) (use 3(5) w rp(2) in simp_all)
    then obtain r' where "check_ports_bw_limit l st ps (u + r) = Some r'"
      "if ports_fit st ps \<and> ports_fed l st ps then r' = u + r + ports_load st ps \<and> 0 \<le> r' else bw_error r'"
      unfolding w by blast
    then show ?thesis using r(1) rp True w by (auto split: if_splits)
  qed
next
  case (4 l st n d m)
  note full = small_limit [of d]
  consider (none) "pd_pdt d = DP_PEER_DEVICE_NONE" | (sink) "pd_pdt d \<noteq> DP_PEER_DEVICE_NONE" "drm_dp_mst_is_end_device (pd_pdt d) (pd_mcs d)"
    | (branch) "pd_pdt d \<noteq> DP_PEER_DEVICE_NONE" "\<not> drm_dp_mst_is_end_device (pd_pdt d) (pd_mcs d)" by blast
  then show ?case
  proof cases
    case none
    then show ?thesis by simp
  next
    case sink
    show ?thesis
    proof (cases "drm_atomic_get_mst_payload_state st (pd_id d)")
      case None
      then show ?thesis using sink by (simp add: asks_def)
    next
      case (Some p)
      have "0 \<le> pbn p" using asks_nonneg [OF 4(3), of d] Some by (simp add: asks_def)
      then show ?thesis using sink Some full by (auto simp: asks_def bw_error_def)
    qed
  next
    case branch
    show ?thesis
    proof (cases m)
      case None
      then show ?thesis using branch by simp
    next
      case (Some b)
      then obtain r where r: "check_mstb_bw_limit l st b = Some r"
        "if branch_fits st b \<and> branch_fed l st b then r = branch_load st b \<and> 0 \<le> r else bw_error r"
        using 4(1) [OF branch Some 4(2,3)] 4(4) by auto
      show ?thesis
      proof (cases "branch_fits st b \<and> branch_fed l st b")
        case True
        then show ?thesis using branch Some full r by (auto simp: bw_error_def split: if_splits)
      next
        case False
        then have "bw_error r" using r(2) by simp
        moreover from this have "r \<le> 0" by (rule bw_error_neg [THEN less_imp_le])
        ultimately show ?thesis using branch Some r(1) False by auto
      qed
    qed
  qed
qed

end
