(* ===== verification/Mst_Payload_Props.thy ===== *)
theory Mst_Payload_Props
  imports Mst_Payload_Table Mst_Payload_Bw
begin

text \<open>
  The properties of payloads: the slots a mode needs, the check of slots and bandwidth, the identifiers
  over every history of updates, the payload table over every history of commits, and two ways in which
  they go wrong.
\<close>

section \<open>From a mode to time slots\<close>

lemma ceiling_div:
  fixes n d :: int
  assumes "0 \<le> n" "0 < d"
  shows "n \<le> (n + d - 1) div d * d" "((n + d - 1) div d - 1) * d < n"
proof -
  have e: "(n + d - 1) div d * d + (n + d - 1) mod d = n + d - 1" by simp
  have m: "0 \<le> (n + d - 1) mod d" "(n + d - 1) mod d < d" using assms(2) by simp_all
  show "n \<le> (n + d - 1) div d * d" using e m by linarith
  have "((n + d - 1) div d - 1) * d = (n + d - 1) div d * d - d" by (simp add: left_diff_distrib)
  then show "((n + d - 1) div d - 1) * d < n" using e m by linarith
qed

lemma pbn_of_mode:
  assumes "0 \<le> clock" "0 \<le> bpp" "clock * bpp < 2 ^ 31" and r: "rate = clock * (if dsc then bpp div 16 else bpp)"
  shows "drm_dp_calc_pbn_mode clock bpp dsc = (rate * (64 * 1006) + 8 * 54 * 1000 * 1000 - 1) div (8 * 54 * 1000 * 1000) \<and>
    0 \<le> rate \<and> rate < 2 ^ 31"
proof -
  define q where "q = (if dsc then bpp div 16 else bpp)"
  have "bpp div 16 \<le> bpp" "0 \<le> bpp div 16" using assms(2) by presburger+
  then have q: "0 \<le> q" "q \<le> bpp" using assms(2) by (simp_all add: q_def)
  have rq: "rate = clock * q" by (simp add: r q_def)
  have b: "0 \<le> rate" "rate < 2 ^ 31"
    using assms(1,3) q mult_left_mono [OF q(2) assms(1)] by (simp_all add: rq)
  have s: "sgn bpp * (\<bar>bpp\<bar> div 16) = bpp div 16" using assms(2) by (cases "bpp = 0") simp_all
  have "wrap32 (clock * (if dsc then sgn bpp * (\<bar>bpp\<bar> div 16) else bpp)) = rate"
    using wrap32_same [of rate] b unfolding s rq q_def by simp
  moreover have "take_bit 32 rate = rate" by (rule take_bit_int_eq_self) (use b in simp_all)
  moreover have "take_bit 64 (rate * (64 * 1006) + 8 * 54 * 1000 * 1000 - 1) = rate * (64 * 1006) + 8 * 54 * 1000 * 1000 - 1"
    by (rule take_bit_int_eq_self) (use b in simp_all)
  moreover have "wrap32 k = k" if k: "rate * (64 * 1006) \<le> k * (8 * 54 * 1000 * 1000)" "(k - 1) * (8 * 54 * 1000 * 1000) < rate * (64 * 1006)" for k
  proof -
    have "0 \<le> k" "k < 2 ^ 31" using k b by simp_all
    then show ?thesis by (intro wrap32_same) simp_all
  qed
  then have "wrap32 ((rate * (64 * 1006) + 8 * 54 * 1000 * 1000 - 1) div (8 * 54 * 1000 * 1000)) =
      (rate * (64 * 1006) + 8 * 54 * 1000 * 1000 - 1) div (8 * 54 * 1000 * 1000)"
    using ceiling_div [of "rate * (64 * 1006)" "8 * 54 * 1000 * 1000"] b(1) by simp
  ultimately show ?thesis using b by (simp add: drm_dp_calc_pbn_mode_def Let_def)
qed

lemma find_changed: "find P xs = Some x \<Longrightarrow> P (f x) \<Longrightarrow> find P (change_first P f xs) = Some (f x)"
  by (induction xs) (auto split: if_splits)

text \<open>
  C24: \<open>drm_dp_calc_pbn_mode\<close> and \<open>drm_dp_atomic_find_time_slots\<close>, for a mode whose bits per pixel come in
  sixteenths with compression, as documented, and whole without. The bandwidth is the least number of
  units that carries the pixels with the margin of 0.6 per cent, if no sixteenths are over. If some are,
  it is the least for the whole bits alone, and when what they are worth is a unit or more, it does not
  carry the pixels. A port that is not being released gets the least number of time slots that carries
  the bandwidth computed.
\<close>

theorem payload_mode_slots:
  assumes "0 \<le> clock" "0 \<le> bpp" "clock * bpp < 2 ^ 31" "0 < pbn_div st" "pbn_div st < 2 ^ 30"
    and "\<forall>p. drm_atomic_get_mst_payload_state st port = Some p \<longrightarrow> \<not> pl_delete p"
    and "bw = drm_dp_calc_pbn_mode clock bpp dsc"
    and rate16: "rate16 = clock * (if dsc then bpp else 16 * bpp)" "over = (if dsc then clock * (bpp mod 16) else 0)"
  shows "(if over = 0
      then rate16 * 1006 * 64 \<le> bw * (16 * 8 * 54 * 1000 * 1000) \<and> (bw - 1) * (16 * 8 * 54 * 1000 * 1000) < rate16 * 1006 * 64
      else (rate16 - over) * 1006 * 64 \<le> bw * (16 * 8 * 54 * 1000 * 1000) \<and>
        (bw - 1) * (16 * 8 * 54 * 1000 * 1000) < (rate16 - over) * 1006 * 64 \<and>
        (16 * 8 * 54 * 1000 * 1000 \<le> over * 1006 * 64 \<longrightarrow> bw * (16 * 8 * 54 * 1000 * 1000) < rate16 * 1006 * 64)) \<and>
    (\<exists>st' slots. drm_dp_atomic_find_time_slots True (Inr st) c port bw = Some (Inr st', slots) \<and>
       bw \<le> slots * pbn_div st \<and> (slots - 1) * pbn_div st < bw \<and>
       (\<exists>p. drm_atomic_get_mst_payload_state st' port = Some p \<and> time_slots p = slots \<and> pbn p = bw))"
proof -
  define rate where "rate = clock * (if dsc then bpp div 16 else bpp)"
  have whole: "rate16 - over = 16 * rate"
  proof (cases dsc)
    case True
    have "bpp = 16 * (bpp div 16) + bpp mod 16" by simp
    then have "clock * bpp = 16 * (clock * (bpp div 16)) + clock * (bpp mod 16)"
      by (metis distrib_left mult.left_commute)
    then show ?thesis using True rate16 by (simp add: rate_def)
  qed (simp add: rate16 rate_def)
  have bw: "bw = (rate * (64 * 1006) + 8 * 54 * 1000 * 1000 - 1) div (8 * 54 * 1000 * 1000)" "0 \<le> rate" "rate < 2 ^ 31"
    using pbn_of_mode [OF assms(1-3) rate_def] assms(7) by simp_all
  have c: "rate * (64 * 1006) \<le> bw * (8 * 54 * 1000 * 1000)" "(bw - 1) * (8 * 54 * 1000 * 1000) < rate * (64 * 1006)"
    using ceiling_div [of "rate * (64 * 1006)" "8 * 54 * 1000 * 1000"] bw(2) unfolding bw(1) by simp_all
  have b: "0 \<le> bw" "bw < 2 ^ 30" using c bw(2,3) by simp_all
  let ?d = "pbn_div st" and ?st = "st\<lparr>pending_crtc_mask := pending_crtc_mask st OR c\<rparr>"
  define n where "n = (bw + ?d - 1) div ?d"
  have n: "bw \<le> n * ?d" "(n - 1) * ?d < bw" unfolding n_def by (rule ceiling_div [OF b(1) assms(4)])+
  have w: "wrap32 (wrap32 (bw + ?d) - 1) = bw + ?d - 1" using wrap32_same [of "bw + ?d"] wrap32_same [of "bw + ?d - 1"] b assms(4,5) by simp
  have dv: "div_round_up bw ?d = Some n"
  proof (cases "bw + ?d - 1 = 0")
    case True
    then show ?thesis using assms(4) w by (simp add: div_round_up_def Let_def n_def)
  next
    case False
    then show ?thesis using assms(4) b(1) w by (simp add: div_round_up_def Let_def n_def)
  qed
  have g: "drm_atomic_get_mst_payload_state ?st port = drm_atomic_get_mst_payload_state st port" by (simp add: drm_atomic_get_mst_payload_state_def)
  have "\<exists>st'. drm_dp_atomic_find_time_slots True (Inr st) c port bw = Some (Inr st', n) \<and>
      (\<exists>p. drm_atomic_get_mst_payload_state st' port = Some p \<and> time_slots p = n \<and> pbn p = bw)"
  proof (cases "drm_atomic_get_mst_payload_state st port")
    case None
    then show ?thesis using g dv by (simp add: drm_dp_atomic_find_time_slots_def Let_def) (simp add: drm_atomic_get_mst_payload_state_def)
  next
    case (Some p)
    let ?f = "\<lambda>p. p\<lparr>time_slots := n, pbn := bw\<rparr>"
    have "drm_atomic_get_mst_payload_state (change_payload port ?f ?st) port = Some (?f p)"
      using find_changed [of "\<lambda>p. pl_port p = port" "payloads st" p ?f] Some
      by (auto simp: drm_atomic_get_mst_payload_state_def change_payload_def find_Some_iff)
    then show ?thesis using Some g dv assms(6) by (simp add: drm_dp_atomic_find_time_slots_def Let_def)
  qed
  moreover have "(rate16 - over) * 1006 * 64 \<le> bw * (16 * 8 * 54 * 1000 * 1000)"
    "(bw - 1) * (16 * 8 * 54 * 1000 * 1000) < (rate16 - over) * 1006 * 64" using c unfolding whole by linarith+
  ultimately show ?thesis using n by auto
qed

text \<open>A state for the examples, and the payload of a mode of 1080 lines at 60 Hz: 532 units, 18 slots.\<close>

definition stream :: "nat \<Rightarrow> u8 \<Rightarrow> u8 \<Rightarrow> int \<Rightarrow> int \<Rightarrow> payload" where
  "stream q start ident n bw =
     \<lparr>pl_port = q, vc_start_slot = start, vcpi = ident, time_slots = n, pbn = bw, pl_delete = False, dsc_enabled = False\<rparr>"

definition streams :: "payload list \<Rightarrow> u32 \<Rightarrow> topology_state" where
  "streams ps m = \<lparr>pending_crtc_mask = 0, payload_mask = m, payloads = ps, total_avail_slots = 63, start_slot = 1, pbn_div = 30\<rparr>"

definition small_mgr :: payload_mgr where
  "small_mgr = \<lparr>max_payloads = 4, payload_count = 2, next_start_slot = 11\<rparr>"

theorem payload_mode_slots_witness:
  "(\<exists>st' slots. drm_dp_atomic_find_time_slots True (Inr (streams [] 0)) 0 7 (drm_dp_calc_pbn_mode 148500 24 False) = Some (Inr st', slots) \<and> slots = 18) \<and>
   drm_dp_calc_pbn_mode 148500 (8 * 16 + 8) True * (16 * 8 * 54 * 1000 * 1000) < 148500 * (8 * 16 + 8) * 1006 * 64"
proof
  let ?bw = "drm_dp_calc_pbn_mode 148500 24 False"
  have g: "\<forall>p. drm_atomic_get_mst_payload_state (streams [] 0) 7 = Some p \<longrightarrow> \<not> pl_delete p" by (simp add: streams_def drm_atomic_get_mst_payload_state_def)
  have d: "pbn_div (streams [] 0) = 30" by (simp add: streams_def)
  have m: "(148500 :: int) * (16 * 24) * 1006 * 64 \<le> ?bw * (16 * 8 * 54 * 1000 * 1000) \<and>
    (?bw - 1) * (16 * 8 * 54 * 1000 * 1000) < 148500 * (16 * 24) * 1006 * 64 \<and>
    (\<exists>st' slots. drm_dp_atomic_find_time_slots True (Inr (streams [] 0)) 0 7 ?bw = Some (Inr st', slots) \<and>
       ?bw \<le> slots * 30 \<and> (slots - 1) * 30 < ?bw)"
    using payload_mode_slots [of 148500 24 "streams [] 0" 7 ?bw False "148500 * (16 * 24)" 0 0] g d by auto
  then have bw: "?bw = 532" by auto
  then obtain st' slots where s: "drm_dp_atomic_find_time_slots True (Inr (streams [] 0)) 0 7 ?bw = Some (Inr st', slots)" "532 \<le> slots * 30" "(slots - 1) * 30 < 532"
    using m by auto
  then have "slots = 18" by simp
  then show "\<exists>st' slots. drm_dp_atomic_find_time_slots True (Inr (streams [] 0)) 0 7 ?bw = Some (Inr st', slots) \<and> slots = 18"
    using s(1) by blast
  show "drm_dp_calc_pbn_mode 148500 (8 * 16 + 8) True * (16 * 8 * 54 * 1000 * 1000) < 148500 * (8 * 16 + 8) * 1006 * 64"
    using payload_mode_slots [of 148500 136 "streams [] 0" 7 "drm_dp_calc_pbn_mode 148500 136 True" True "148500 * 136" "148500 * 8" 0] g d by simp
qed

section \<open>Checking an update\<close>

text \<open>
  C11: \<open>drm_dp_mst_atomic_check_payload_alloc_limits\<close>: the check of the time slots always returns. It
  succeeds exactly when the payloads in use fit the slots of the link and are not more than the hardware
  has, and then every payload in use has an identifier and nothing else of the payloads has changed.
\<close>

theorem payload_slots_checked:
  assumes "slots_ok (payloads st)"
  shows "\<exists>st' r. drm_dp_mst_atomic_check_payload_alloc_limits mgr st = Some (st', r) \<and>
    (r = Inr () \<longleftrightarrow> (load (payloads st) \<le> uint (total_avail_slots st) \<and>
       (filter used (payloads st) = [] \<or> int (length (filter used (payloads st))) \<le> max_payloads mgr))) \<and>
    map (\<lambda>p. p\<lparr>vcpi := 0\<rparr>) (payloads st') = map (\<lambda>p. p\<lparr>vcpi := 0\<rparr>) (payloads st) \<and>
    (r = Inr () \<longrightarrow> (\<forall>p\<in>set (payloads st'). used p \<longrightarrow> vcpi p \<noteq> 0))"
proof -
  have t: "0 \<le> uint (total_avail_slots st)" "uint (total_avail_slots st) < 2 ^ 31"
    using unsigned_less [of "total_avail_slots st", where 'a = int] by simp_all
  obtain ps m r where a: "alloc_limits (max_payloads mgr) (payloads st) (uint (total_avail_slots st)) 0 (payload_mask st) = Some (ps, m, r)"
    "map (\<lambda>p. p\<lparr>vcpi := 0\<rparr>) ps = map (\<lambda>p. p\<lparr>vcpi := 0\<rparr>) (payloads st)"
    "case r of
       Inr k \<Rightarrow> load (payloads st) \<le> uint (total_avail_slots st) \<and> k = 0 + int (length (filter used (payloads st))) \<and>
         (filter used (payloads st) = [] \<or> k \<le> max_payloads mgr) \<and> (\<forall>p\<in>set ps. used p \<longrightarrow> vcpi p \<noteq> 0)
     | Inl e \<Rightarrow> uint (total_avail_slots st) < load (payloads st) \<or> max_payloads mgr < 0 + int (length (filter used (payloads st)))"
    using alloc_limits_result [OF assms t, of "max_payloads mgr" 0 "payload_mask st"] by blast
  show ?thesis
  proof (cases r)
    case (Inr k)
    then show ?thesis using a by (auto simp: drm_dp_mst_atomic_check_payload_alloc_limits_def Let_def)
  next
    case (Inl e)
    have "filter used (payloads st) \<noteq> []"
    proof
      assume n: "filter used (payloads st) = []"
      then have "alloc_limits mx ps v n m \<noteq> Some (qs, m', Inl e)" if "filter used ps = []" for mx ps v n m qs m'
        using that by (induction ps arbitrary: qs) (auto simp: used_def bind_eq_Some_conv split: if_splits)
      then show False using a(1) n Inl by blast
    qed
    then show ?thesis using a Inl by (auto simp: drm_dp_mst_atomic_check_payload_alloc_limits_def Let_def)
  qed
qed

theorem payload_slots_checked_witness:
  "\<exists>st. drm_dp_mst_atomic_check_payload_alloc_limits small_mgr (streams [stream 7 (- 1) 0 40 1200, stream 8 (- 1) 0 23 690] 0) = Some (st, Inr ())"
proof -
  let ?st = "streams [stream 7 (- 1) 0 40 1200, stream 8 (- 1) 0 23 690] 0"
  have s: "slots_ok (payloads ?st)" by (simp add: slots_ok_def streams_def stream_def)
  obtain st r where r: "drm_dp_mst_atomic_check_payload_alloc_limits small_mgr ?st = Some (st, r)"
    "r = Inr () \<longleftrightarrow> (load (payloads ?st) \<le> uint (total_avail_slots ?st) \<and>
       (filter used (payloads ?st) = [] \<or> int (length (filter used (payloads ?st))) \<le> max_payloads small_mgr))"
    using payload_slots_checked [OF s, of small_mgr] by blast
  have "r = Inr ()" unfolding r(2) by (simp add: streams_def stream_def small_mgr_def used_def)
  then show ?thesis using r(1) by blast
qed

text \<open>
  C9: \<open>drm_dp_mst_atomic_check_mstb_bw_limit\<close>, for a tree of branches whose pointers upwards agree with it:
  the check returns. It accepts the state exactly when every port can carry what the sinks below it ask
  for, added up, and no sink that has a payload is without bandwidth altogether (sinks of branches below
  which no payload takes bandwidth apart: these branches are skipped), and then returns the bandwidth
  that all sinks below the branch ask for. Otherwise it returns \<open>ENOSPC\<close> or \<open>EINVAL\<close>.
\<close>

theorem payload_bandwidth_checked:
  assumes "grounded l" "linked l b" "asks_ok st"
  shows "\<exists>r. check_mstb_bw_limit l st b = Some r \<and> (0 \<le> r \<longleftrightarrow> branch_fits st b \<and> branch_fed l st b) \<and>
    (0 \<le> r \<longrightarrow> r = branch_load st b) \<and> (r < 0 \<longrightarrow> r = - ENOSPC_code \<or> r = - EINVAL_code)"
proof -
  obtain r where r: "check_mstb_bw_limit l st b = Some r"
    "if branch_fits st b \<and> branch_fed l st b then r = branch_load st b \<and> 0 \<le> r else bw_error r"
    using check_bw_result(1) [OF assms(1,3,2)] by blast
  then show ?thesis using bw_error_neg [of r] by (auto simp: bw_error_def split: if_splits)
qed

definition sink_port :: "nat \<Rightarrow> u8 \<Rightarrow> u16 \<Rightarrow> mst_port" where
  "sink_port q n full = Port n \<lparr>pd_id = q, pd_pdt = DP_PEER_DEVICE_SST_SINK, pd_mcs = False, pd_input = False, pd_ddps = True, pd_ldps = False,
     pd_dpcd_rev = 0x14, pd_num_sdp_streams = 1, pd_num_sdp_stream_sinks = 1, pd_full_pbn = full, pd_fec_capable = False, pd_connector = True\<rparr> None"

definition two_sinks :: "u16 \<Rightarrow> u16 \<Rightarrow> mst_branch" where
  "two_sinks a b = Branch 1 1 (replicate 8 0) (replicate 16 0) [sink_port 7 8 a, sink_port 8 9 b]"

definition two_links :: links where
  "two_links = \<lparr>parent_of = [7 \<mapsto> 1, 8 \<mapsto> 1], port_above = Map.empty\<rparr>"

lemma two_linked: "grounded two_links" "linked two_links (two_sinks a b)"
  by (simp_all add: grounded_def two_links_def two_sinks_def sink_port_def)

theorem payload_bandwidth_checked_witness:
  "\<exists>r. check_mstb_bw_limit two_links (streams [stream 7 (- 1) 0 40 1200, stream 8 (- 1) 0 23 690] 0) (two_sinks 2000 1000) = Some r \<and> r = 1890"
proof -
  let ?st = "streams [stream 7 (- 1) 0 40 1200, stream 8 (- 1) 0 23 690] 0"
  have a: "asks_ok ?st" by (simp add: asks_ok_def streams_def stream_def)
  have e: "branch_load ?st (two_sinks 2000 1000) = 1890" "branch_fits ?st (two_sinks 2000 1000)" "branch_fed two_links ?st (two_sinks 2000 1000)"
    by (simp_all add: two_sinks_def sink_port_def peer_devices drm_dp_mst_is_end_device_def asks_def drm_atomic_get_mst_payload_state_def
        streams_def stream_def)
  show ?thesis using payload_bandwidth_checked [OF two_linked(1) two_linked(2) a, of 2000 1000] e by auto
qed

section \<open>Identifiers\<close>

text \<open>
  The states that updates lead to from one without payloads: slots are found and released, the check
  assigns the identifiers, and the next update starts with a copy. A state whose check has failed is
  given up.
\<close>

inductive updated :: "topology_state \<Rightarrow> bool" where
  no_payloads: "payloads st = [] \<Longrightarrow> payload_mask st = 0 \<Longrightarrow> updated st"
| slots_found: "updated st \<Longrightarrow> drm_dp_atomic_find_time_slots mem (Inr st) c port bw = Some (Inr st', r) \<Longrightarrow> updated st'"
| slots_released: "updated st \<Longrightarrow> drm_dp_atomic_release_time_slots oc nc ncs (Inr st) port = Some (Inr st', r) \<Longrightarrow> updated st'"
| slots_of_link: "updated st \<Longrightarrow> updated (drm_dp_mst_update_slots st cap)"
| slots_checked: "updated st \<Longrightarrow> max_payloads mgr \<le> 32 \<Longrightarrow>
    drm_dp_mst_atomic_check_payload_alloc_limits mgr st = Some (st', Inr ()) \<Longrightarrow> updated st'"
| next_update: "updated st \<Longrightarrow> updated (drm_dp_mst_duplicate_state st)"

lemma updated_ids: "updated st \<Longrightarrow> ids_ok (payloads st) (payload_mask st)"
proof (induction rule: updated.induct)
  case (no_payloads st)
  then show ?case by (simp add: ids_ok_def)
next
  case (slots_found st mem c port bw st' r)
  then show ?case using find_slots_ids by blast
next
  case (slots_released st oc nc ncs port st' r)
  then show ?case using release_ids by blast
next
  case (slots_of_link st cap)
  then show ?case by (simp add: drm_dp_mst_update_slots_def)
next
  case (slots_checked st mgr st')
  then show ?case using check_ids by blast
next
  case (next_update st)
  then show ?case using duplicate_ids by blast
qed

text \<open>
  C10: identifiers: after every sequence of finding and releasing slots, checking and starting the next
  update, on hardware with at most 32 payloads, two payloads in use that have an identifier have different
  ones, and the mask has exactly the bits of the identifiers in use.
\<close>

theorem payload_ids_unique:
  assumes "updated st"
  shows "distinct (map vcpi (filter (\<lambda>p. \<not> pl_delete p \<and> vcpi p \<noteq> 0) (payloads st))) \<and>
    (\<forall>i. bit (payload_mask st) i \<longleftrightarrow> (\<exists>p\<in>set (payloads st). \<not> pl_delete p \<and> unat (vcpi p) = i + 1))"
  using updated_ids [OF assms] by (simp add: ids_ok_def used_def)

text \<open>The first of two payloads is released, and the one that comes next takes its identifier.\<close>

definition gone :: "payload \<Rightarrow> payload" where
  "gone p = p\<lparr>pbn := 0, pl_delete := True\<rparr>"

lemma ffz_examples: "ffz 0 = 0" "ffz 1 = 1" "ffz 2 = 0"
  by (simp_all add: ffz_def upt_rec bit_1_iff bit_numeral_rec)

lemmas slot_checks = small_mgr_def streams_def stream_def drm_dp_mst_atomic_check_payload_alloc_limits_def wrap32_same ffz_examples vcpi_bit_def

lemma three_updates: "updated (streams [stream 9 (- 1) 1 10 300, stream 8 (- 1) 2 20 600] 0x3)"
proof -
  note code = streams_def stream_def drm_dp_atomic_find_time_slots_def drm_atomic_get_mst_payload_state_def div_round_up_def wrap32_def
  have u0: "updated (streams [] 0)" by (rule no_payloads) (simp_all add: streams_def)
  have u1: "updated (streams [stream 8 (- 1) 0 20 600] 0)"
    by (rule slots_found [OF u0, of True 0 8 600 _ 20]) (simp add: code)
  have u2: "updated (streams [stream 7 (- 1) 0 10 300, stream 8 (- 1) 0 20 600] 0)"
    by (rule slots_found [OF u1, of True 0 7 300 _ 10]) (simp add: code)
  have u3: "updated (streams [stream 7 (- 1) 1 10 300, stream 8 (- 1) 2 20 600] 0x3)"
    by (rule slots_checked [OF u2, of small_mgr])
      (simp_all add: slot_checks)
  have u4: "updated (streams [gone (stream 7 (- 1) 1 10 300), stream 8 (- 1) 2 20 600] 0x2)"
    by (rule slots_released [OF u3, of "Some 0" None None 7 _ 0])
      (simp add: streams_def stream_def gone_def drm_dp_atomic_release_time_slots_def drm_atomic_get_mst_payload_state_def vcpi_bit_def change_payload_def)
  have u5: "updated (streams [stream 8 (- 1) 2 20 600] 0x2)"
    using next_update [OF u4] by (simp add: streams_def stream_def gone_def drm_dp_mst_duplicate_state_def)
  have u6: "updated (streams [stream 9 (- 1) 0 10 300, stream 8 (- 1) 2 20 600] 0x2)"
    by (rule slots_found [OF u5, of True 0 9 300 _ 10]) (simp add: code)
  show ?thesis
    by (rule slots_checked [OF u6, of small_mgr])
      (simp_all add: slot_checks)
qed

theorem payload_ids_unique_witness:
  "distinct (map vcpi [stream 9 (- 1) 1 10 300, stream 8 (- 1) 2 20 600]) \<and> bit (payload_mask (streams [stream 9 (- 1) 1 10 300, stream 8 (- 1) 2 20 600] 0x3)) 1"
  using payload_ids_unique [OF three_updates] by (simp add: streams_def stream_def)

section \<open>The table\<close>

text \<open>What the table depends on of a payload.\<close>

definition place :: "payload \<Rightarrow> nat \<times> u8 \<times> int" where
  "place p = (pl_port p, vc_start_slot p, time_slots p)"

lemma same_places:
  "mset (map f qs) = mset (map f xs) \<Longrightarrow> \<exists>rs. mset rs = mset xs \<and> map f rs = map f qs"
proof (induction qs arbitrary: xs)
  case (Cons q qs)
  have "f q \<in> set (map f xs)" using Cons.prems by (metis list.set_intros(1) list.simps(9) set_mset_mset)
  then obtain x where x: "x \<in> set xs" "f x = f q" by auto
  then obtain as bs where s: "xs = as @ x # bs" using split_list by fast
  have "mset (map f qs) = mset (map f (as @ bs))" using Cons.prems x(2) unfolding s by simp
  then obtain rs where "mset rs = mset (as @ bs)" "map f rs = map f qs" using Cons.IH by blast
  then show ?case using x(2) s by (intro exI [of _ "x # rs"]) simp
qed simp

lemma chain_places: "map place rs = map place qs \<Longrightarrow> chain s rs e = chain s qs e"
proof (induction qs arbitrary: s rs)
  case (Cons q qs)
  then obtain r rs' where r: "rs = r # rs'" "place r = place q" "map place rs' = map place qs" by (cases rs) auto
  then show ?case using Cons.IH [OF r(3)] by (simp add: place_def)
qed simp

text \<open>An operation that leaves the places as they are keeps the table.\<close>

lemma table_ok_places:
  assumes ok: "table_ok mgr st" and d: "distinct (map pl_port (payloads st'))" and s: "start_slot st' = start_slot st"
    and m: "mset (map place (filter placed (payloads st'))) = mset (map place (filter placed (payloads st)))"
  shows "table_ok mgr st'"
proof -
  obtain qs where q: "mset qs = mset (filter placed (payloads st))" "chain (unat (start_slot st)) qs (table_end st)"
    using ok unfolding table_ok_def by blast
  have "mset (map place qs) = mset (map place (filter placed (payloads st')))" using q(1) m by simp
  then obtain rs where r: "mset rs = mset (filter placed (payloads st'))" "map place rs = map place qs" using same_places by blast
  have c: "chain (unat (start_slot st')) rs (table_end st)" using q(2) chain_places [OF r(2)] s by simp
  have l: "length rs = length (filter placed (payloads st))" using q(1) r(2) by (metis length_map size_mset)
  then have "rs \<noteq> [] \<longrightarrow> filter placed (payloads st) \<noteq> []" by (metis length_0_conv)
  then show ?thesis using ok l by (intro table_okI [OF d r(1) c]) (simp_all add: table_ok_def)
qed

lemma table_ok_same:
  assumes "table_ok mgr st" "map place (payloads st') = map place (payloads st)" "start_slot st' = start_slot st"
  shows "table_ok mgr st'"
proof (rule table_ok_places [OF assms(1) _ assms(3)])
  have k: "map pl_port xs = map fst (map place xs)" for xs by (simp add: place_def)
  have f: "map place (filter placed xs) = filter (\<lambda>(q, v, n). v \<noteq> - 1) (map place xs)" for xs by (induction xs) (auto simp: place_def placed_def)
  show "distinct (map pl_port (payloads st'))" using assms(1) unfolding table_ok_def k assms(2) by blast
  show "mset (map place (filter placed (payloads st'))) = mset (map place (filter placed (payloads st)))" unfolding f assms(2) by (rule refl)
qed

text \<open>The operations on the state of an update.\<close>

lemma alloc_places: "alloc_limits mx ps avl n m = Some (ps', m', r) \<Longrightarrow> map place ps' = map place ps"
  by (induction ps arbitrary: avl n m ps') (auto simp: Let_def bind_eq_Some_conv place_def split: if_splits)

lemma check_table:
  assumes "table_ok mgr st" "drm_dp_mst_atomic_check_payload_alloc_limits mgr' st = Some (st', r)"
  shows "table_ok mgr st'"
proof (rule table_ok_same [OF assms(1)])
  obtain ps m r' where a: "alloc_limits (max_payloads mgr') (payloads st) (uint (total_avail_slots st)) 0 (payload_mask st) = Some (ps, m, r')"
    using assms(2) by (auto simp: drm_dp_mst_atomic_check_payload_alloc_limits_def bind_eq_Some_conv)
  then have st': "payloads st' = ps" "start_slot st' = start_slot st"
    using assms(2) by (auto simp: drm_dp_mst_atomic_check_payload_alloc_limits_def Let_def split: sum.splits if_splits)
  show "map place (payloads st') = map place (payloads st)" using alloc_places [OF a] st' by simp
  show "start_slot st' = start_slot st" by (rule st'(2))
qed

lemma release_table:
  assumes "table_ok mgr st" "drm_dp_atomic_release_time_slots oc nc ncs (Inr st) port = Some (Inr st', r)"
  shows "table_ok mgr st'"
proof (rule table_ok_same [OF assms(1)])
  have c: "map place (change_first P (\<lambda>p. p\<lparr>pbn := 0, pl_delete := True\<rparr>) xs) = map place xs" for P xs
    by (rule change_first_map) (simp add: place_def)
  show "map place (payloads st') = map place (payloads st)" "start_slot st' = start_slot st"
    using assms(2) c unfolding drm_dp_atomic_release_time_slots_def Let_def
    by (auto simp: drm_atomic_get_mst_payload_state_def change_payload_def bind_eq_Some_conv split: option.splits if_splits)
qed

lemma duplicate_table:
  assumes "table_ok mgr st" "\<forall>p\<in>set (payloads st). placed p \<longrightarrow> \<not> pl_delete p"
  shows "table_ok mgr (drm_dp_mst_duplicate_state st)"
proof (rule table_ok_places [OF assms(1)])
  have "distinct (map pl_port (filter (\<lambda>p. \<not> pl_delete p) (payloads st)))" using assms(1) unfolding table_ok_def by (intro distinct_map_filter) blast
  then show "distinct (map pl_port (payloads (drm_dp_mst_duplicate_state st)))" by (simp add: drm_dp_mst_duplicate_state_def flip: rev_map)
  have "filter placed (filter (\<lambda>p. \<not> pl_delete p) (payloads st)) = filter placed (payloads st)" using assms(2) by (auto intro: filter_cong)
  then show "mset (map place (filter placed (payloads (drm_dp_mst_duplicate_state st)))) = mset (map place (filter placed (payloads st)))"
    by (simp add: drm_dp_mst_duplicate_state_def flip: rev_filter)
qed (simp add: drm_dp_mst_duplicate_state_def)

lemma find_slots_table:
  assumes ok: "table_ok mgr st" and f: "drm_dp_atomic_find_time_slots mem (Inr st) c port bw = Some (Inr st', r)"
    and np: "\<forall>p. drm_atomic_get_mst_payload_state st port = Some p \<longrightarrow> placed p \<longrightarrow> pl_delete p \<or> r = time_slots p"
  shows "table_ok mgr st'"
proof -
  define st1 where "st1 = st\<lparr>pending_crtc_mask := pending_crtc_mask st OR c\<rparr>"
  have e: "payloads st1 = payloads st" "start_slot st1 = start_slot st" by (simp_all add: st1_def)
  have ok1: "table_ok mgr st1" by (rule table_ok_same [OF ok]) (simp_all add: e)
  have ds: "distinct (map pl_port (payloads st))" using ok unfolding table_ok_def by blast
  note f1 = f [unfolded drm_dp_atomic_find_time_slots_def Let_def sum.case, folded st1_def]
  have g: "drm_atomic_get_mst_payload_state st1 port = drm_atomic_get_mst_payload_state st port" by (simp add: drm_atomic_get_mst_payload_state_def e)
  show ?thesis
  proof (cases "drm_atomic_get_mst_payload_state st1 port")
    case None
    then have n: "port \<notin> pl_port ` set (payloads st)" by (auto simp: drm_atomic_get_mst_payload_state_def e find_None_iff)
    have "table_ok mgr (st1\<lparr>payloads := p # payloads st\<rparr>)" if "pl_port p = port" "\<not> placed p" for p
      by (rule table_ok_places [OF ok]) (use that ds n e in simp_all)
    then show ?thesis using f1 None ok1 by (auto simp: bind_eq_Some_conv placed_def e split: if_splits)
  next
    case (Some p)
    have "table_ok mgr (change_payload port h st1)"
      if h: "h = (\<lambda>p. p\<lparr>time_slots := x, pbn := y\<rparr>)" "placed p \<longrightarrow> x = time_slots p" for h x y
    proof (rule table_ok_places [OF ok])
      obtain as bs where s: "payloads st = as @ p # bs" "payloads (change_payload port h st1) = as @ h p # bs"
        using payload_at [OF Some] unfolding e by blast
      show "distinct (map pl_port (payloads (change_payload port h st1)))" using ds unfolding s h(1) [symmetric] by (simp add: h(1))
      show "mset (map place (filter placed (payloads (change_payload port h st1)))) = mset (map place (filter placed (payloads st)))"
        unfolding s using h(2) by (simp add: placed_def place_def h(1))
      show "start_slot (change_payload port h st1) = start_slot st" by (simp add: change_payload_def e)
    qed
    moreover have "placed p \<longrightarrow> pl_delete p \<or> r = time_slots p" using np Some g by simp
    ultimately show ?thesis using f1 Some ok1 by (auto simp: bind_eq_Some_conv split: if_splits)
  qed
qed

text \<open>The slots of the link, and the payloads of a state whose check has succeeded fit into them.\<close>

definition link_ok :: "topology_state \<Rightarrow> bool" where
  "link_ok st \<longleftrightarrow> unat (start_slot st) + unat (total_avail_slots st) = 64"

definition fits_link :: "topology_state \<Rightarrow> bool" where
  "fits_link st \<longleftrightarrow> slots_ok (payloads st) \<and> load (payloads st) \<le> int (unat (total_avail_slots st))"

lemma fits_link_cong:
  assumes "map (\<lambda>p. (time_slots p, pl_delete p)) (payloads st') = map (\<lambda>p. (time_slots p, pl_delete p)) (payloads st)"
    "total_avail_slots st' = total_avail_slots st"
  shows "fits_link st' = fits_link st"
proof -
  let ?k = "\<lambda>p. (time_slots p, pl_delete p)"
  have l: "load ps = sum_list (map fst (filter (\<lambda>(n, d). \<not> d) (map ?k ps)))" for ps
    by (induction ps) auto
  have s: "slots_ok ps \<longleftrightarrow> (\<forall>x\<in>set (map ?k ps). 0 \<le> fst x \<and> fst x < 2 ^ 31)" for ps by (auto simp: slots_ok_def)
  show ?thesis unfolding fits_link_def l s assms by (rule refl)
qed

lemma check_fits:
  assumes "drm_dp_mst_atomic_check_payload_alloc_limits mgr st = Some (st', r)"
  shows "start_slot st' = start_slot st" "total_avail_slots st' = total_avail_slots st"
    "r = Inr () \<Longrightarrow> slots_ok (payloads st) \<Longrightarrow> fits_link st'"
proof -
  obtain ps m q where a: "alloc_limits (max_payloads mgr) (payloads st) (uint (total_avail_slots st)) 0 (payload_mask st) = Some (ps, m, q)"
    using assms by (auto simp: drm_dp_mst_atomic_check_payload_alloc_limits_def bind_eq_Some_conv)
  then have st': "payloads st' = ps" "start_slot st' = start_slot st" "total_avail_slots st' = total_avail_slots st"
    "r = Inr () \<Longrightarrow> \<exists>k. q = Inr k"
    using assms by (auto simp: drm_dp_mst_atomic_check_payload_alloc_limits_def Let_def split: sum.splits if_splits)
  then show "start_slot st' = start_slot st" "total_avail_slots st' = total_avail_slots st" by simp_all
  assume r: "r = Inr ()" and so: "slots_ok (payloads st)"
  have t: "0 \<le> uint (total_avail_slots st)" "uint (total_avail_slots st) < 2 ^ 31"
    using unsigned_less [of "total_avail_slots st", where 'a = int] by simp_all
  have "load (payloads st) \<le> uint (total_avail_slots st)" "map (\<lambda>p. p\<lparr>vcpi := 0\<rparr>) ps = map (\<lambda>p. p\<lparr>vcpi := 0\<rparr>) (payloads st)"
    using alloc_limits_result [OF so t, of "max_payloads mgr" 0 "payload_mask st"] a st'(4) [OF r] by auto
  moreover from this(2) have "map ((\<lambda>p. (time_slots p, pl_delete p)) \<circ> (\<lambda>p. p\<lparr>vcpi := 0\<rparr>)) ps =
      map ((\<lambda>p. (time_slots p, pl_delete p)) \<circ> (\<lambda>p. p\<lparr>vcpi := 0\<rparr>)) (payloads st)" unfolding map_map [symmetric] by (rule arg_cong)
  then have "map (\<lambda>p. (time_slots p, pl_delete p)) (payloads st') = map (\<lambda>p. (time_slots p, pl_delete p)) (payloads st)"
    by (simp add: st'(1) o_def)
  ultimately show "fits_link st'" using fits_link_cong [OF _ st'(3)] so by (simp add: fits_link_def)
qed

text \<open>Where the check has succeeded and what was released has been removed, there is room for another payload.\<close>

lemma room_left:
  assumes ok: "link_ok st" "fits_link st" and rem: "\<forall>q\<in>set (payloads st). placed q \<longrightarrow> \<not> pl_delete q"
    and p: "drm_atomic_get_mst_payload_state st port = Some p" "\<not> placed p" "\<not> pl_delete p"
  shows "table_end st + nat (time_slots p) \<le> 64"
proof -
  let ?s = "\<lambda>ps. sum_list (map time_slots (filter placed ps))"
  have so: "slots_ok (payloads st)" and ld: "load (payloads st) \<le> int (unat (total_avail_slots st))"
    using ok(2) by (simp_all add: fits_link_def)
  have le: "?s ps \<le> load ps" "0 \<le> ?s ps" if "\<forall>q\<in>set ps. placed q \<longrightarrow> \<not> pl_delete q" "slots_ok ps" for ps
    using that by (induction ps) (auto simp: slots_ok_def)
  obtain as bs where s: "payloads st = as @ p # bs" using payload_at [OF p(1)] by blast
  have ab: "slots_ok as" "slots_ok bs" "0 \<le> time_slots p" using so s by (simp_all add: slots_ok_def)
  have "load (as @ p # bs) = load as + (time_slots p + load bs)" using p(3) by (simp add: load_def used_def)
  moreover have "?s (as @ p # bs) = ?s as + ?s bs" using p(2) by simp
  moreover have "?s as \<le> load as" "0 \<le> ?s as" "?s bs \<le> load bs" "0 \<le> ?s bs"
    using le [of as] le [of bs] ab rem s by simp_all
  ultimately have "?s (payloads st) + time_slots p \<le> int (unat (total_avail_slots st))" "0 \<le> ?s (payloads st)" using ld unfolding s by linarith+
  then have "nat (?s (payloads st)) + nat (time_slots p) \<le> unat (total_avail_slots st)" using ab(3) by linarith
  then show ?thesis using ok(1) by (simp add: table_end_def link_ok_def)
qed

text \<open>
  The states that updates and commits lead to, from the one a manager is set up with. The flag says that
  the check of the slots has succeeded, on numbers of slots that are not negative, since the state was
  last changed by an update. A payload in the table is not given another number of slots; the payloads of
  a checked state are added after those it releases have been removed, each once and with at least one
  slot; and the next update starts when what was released has been removed. The slots of the link change
  only while the table is empty.
\<close>

inductive programmed :: "'s transfer \<Rightarrow> bool \<Rightarrow> payload_mgr \<Rightarrow> topology_state \<Rightarrow> bool" for tr :: "'s transfer" where
  nothing_placed: "payloads st = [] \<Longrightarrow> payload_count mgr = 0 \<Longrightarrow> start_slot st = 1 \<Longrightarrow> total_avail_slots st = 63 \<Longrightarrow>
    programmed tr False mgr st"
| table_found: "programmed tr c mgr st \<Longrightarrow>
    drm_dp_atomic_find_time_slots mem (Inr st) crtcs port bw = Some (Inr st', r) \<Longrightarrow>
    \<forall>p. drm_atomic_get_mst_payload_state st port = Some p \<longrightarrow> placed p \<longrightarrow> pl_delete p \<or> r = time_slots p \<Longrightarrow>
    programmed tr False mgr st'"
| table_released: "programmed tr c mgr st \<Longrightarrow> drm_dp_atomic_release_time_slots oc nc ncs (Inr st) port = Some (Inr st', r) \<Longrightarrow>
    programmed tr False mgr st'"
| table_of_link: "programmed tr c mgr st \<Longrightarrow> filter placed (payloads st) = [] \<Longrightarrow>
    programmed tr False mgr (drm_dp_mst_update_slots st cap)"
| table_checked: "programmed tr c mgr st \<Longrightarrow> drm_dp_mst_atomic_check_payload_alloc_limits mgr st = Some (st', r) \<Longrightarrow>
    programmed tr (r = Inr () \<and> slots_ok (payloads st)) mgr st'"
| table_next: "programmed tr c mgr st \<Longrightarrow> \<forall>p\<in>set (payloads st). placed p \<longrightarrow> \<not> pl_delete p \<Longrightarrow>
    programmed tr False mgr (drm_dp_mst_duplicate_state st)"
| table_added: "programmed tr True mgr st \<Longrightarrow> \<forall>p\<in>set (payloads st). placed p \<longrightarrow> \<not> pl_delete p \<Longrightarrow>
    drm_atomic_get_mst_payload_state st port = Some p \<Longrightarrow> \<not> placed p \<Longrightarrow> \<not> pl_delete p \<Longrightarrow> 0 < time_slots p \<Longrightarrow>
    drm_dp_add_payload_part1 tr valid mgr st port s = Some (mgr', st', s', r) \<Longrightarrow> programmed tr True mgr' st'"
| table_removed: "programmed tr c mgr st \<Longrightarrow> drm_dp_remove_payload tr below mgr st port s = Some (mgr', st', s') \<Longrightarrow>
    programmed tr c mgr' st'"

lemma release_link:
  "drm_dp_atomic_release_time_slots oc nc ncs (Inr st) port = Some (Inr st', r) \<Longrightarrow> link_ok st' = link_ok st"
  unfolding drm_dp_atomic_release_time_slots_def Let_def
  by (auto simp: link_ok_def change_payload_def bind_eq_Some_conv split: option.splits if_splits)

lemma find_link:
  "drm_dp_atomic_find_time_slots mem (Inr st) crtcs port bw = Some (Inr st', r) \<Longrightarrow> link_ok st' = link_ok st"
  unfolding drm_dp_atomic_find_time_slots_def Let_def
  by (auto simp: link_ok_def change_payload_def bind_eq_Some_conv split: option.splits if_splits)

lemma remove_fits:
  assumes "drm_dp_remove_payload tr below mgr st port s = Some (mgr', st', s')"
  shows "link_ok st' = link_ok st" "fits_link st' = fits_link st"
proof -
  have st': "start_slot st' = start_slot st" "total_avail_slots st' = total_avail_slots st"
    "map (\<lambda>p. (time_slots p, pl_delete p)) (payloads st') = map (\<lambda>p. (time_slots p, pl_delete p)) (payloads st)"
    using assms by (auto simp: drm_dp_remove_payload_def bind_eq_Some_conv Let_def split: if_splits)
  show "link_ok st' = link_ok st" by (simp add: link_ok_def st')
  show "fits_link st' = fits_link st" by (rule fits_link_cong) (rule st')+
qed

lemma add_fits:
  assumes "drm_dp_add_payload_part1 tr valid mgr st port s = Some (mgr', st', s', r)"
  shows "link_ok st' = link_ok st" "fits_link st' = fits_link st"
proof -
  have c: "map (\<lambda>p. (time_slots p, pl_delete p)) (change_first P (\<lambda>p. p\<lparr>vc_start_slot := v\<rparr>) ps) = map (\<lambda>p. (time_slots p, pl_delete p)) ps" for P v ps
    by (rule change_first_map) simp
  have st': "start_slot st' = start_slot st" "total_avail_slots st' = total_avail_slots st"
    "map (\<lambda>p. (time_slots p, pl_delete p)) (payloads st') = map (\<lambda>p. (time_slots p, pl_delete p)) (payloads st)"
    using assms c by (auto simp: drm_dp_add_payload_part1_def bind_eq_Some_conv Let_def change_payload_def split: if_splits prod.splits)
  show "link_ok st' = link_ok st" by (simp add: link_ok_def st')
  show "fits_link st' = fits_link st" by (rule fits_link_cong) (rule st')+
qed

lemma programmed_table: "programmed tr c mgr st \<Longrightarrow> table_ok mgr st \<and> link_ok st \<and> (c \<longrightarrow> fits_link st)"
proof (induction rule: programmed.induct)
  case (nothing_placed st mgr)
  moreover have "(1 :: nat) \<le> 64" by simp
  ultimately have "table_ok mgr st" by (intro table_okI [of st "[]" 1]) simp_all
  then show ?case using nothing_placed by (simp add: link_ok_def)
next
  case (table_found c mgr st mem crtcs port bw st' r)
  then show ?case using find_slots_table find_link by blast
next
  case (table_released c mgr st oc nc ncs port st' r)
  then show ?case using release_table release_link by blast
next
  case (table_of_link c mgr st cap)
  then have "payload_count mgr = 0" by (simp add: table_ok_def unat_eq_0)
  moreover have "distinct (map pl_port (payloads (drm_dp_mst_update_slots st cap)))" 
    using table_of_link by (simp add: table_ok_def drm_dp_mst_update_slots_def)
  moreover have "filter placed (payloads (drm_dp_mst_update_slots st cap)) = []" using table_of_link(2) by (simp add: drm_dp_mst_update_slots_def)
  moreover have "unat (start_slot (drm_dp_mst_update_slots st cap)) \<le> 64" by (simp add: drm_dp_mst_update_slots_def)
  ultimately have "table_ok mgr (drm_dp_mst_update_slots st cap)" by (intro table_okI [of _ "[]"]) simp_all
  moreover have "link_ok (drm_dp_mst_update_slots st cap)" by (simp add: link_ok_def drm_dp_mst_update_slots_def)
  ultimately show ?case by simp
next
  case (table_checked c mgr st st' r)
  note f = check_fits [OF table_checked(2)]
  have "table_ok mgr st'" "link_ok st'" using table_checked check_table f(1,2) by (auto simp: link_ok_def)
  then show ?case using f(3) by blast
next
  case (table_next c mgr st)
  then have "table_ok mgr (drm_dp_mst_duplicate_state st)" by (blast intro: duplicate_table)
  then show ?case using table_next by (simp add: link_ok_def drm_dp_mst_duplicate_state_def)
next
  case (table_added mgr st port p valid s mgr' st' s' r)
  then have ok: "table_ok mgr st" "link_ok st" "fits_link st" by simp_all
  have room: "table_end st + nat (time_slots p) \<le> 64"
    by (rule room_left [OF ok(2,3) table_added(2-5)])
  show ?case using add_keeps [OF ok(1) table_added(3,4,6) room, of tr valid s] table_added(7) add_fits [OF table_added(7)] ok by auto
next
  case (table_removed c mgr st below port s mgr' st' s')
  then have ok: "table_ok mgr st" by simp
  obtain p where p: "drm_atomic_get_mst_payload_state st port = Some p"
    using table_removed by (auto simp: drm_dp_remove_payload_def bind_eq_Some_conv)
  have "table_ok mgr' st'"
  proof (cases "placed p")
    case True
    then show ?thesis using remove_keeps [OF ok p True, of tr below s] table_removed(2) by auto
  next
    case False
    then show ?thesis using table_removed ok p by (simp add: drm_dp_remove_payload_def placed_def)
  qed
  then show ?case using table_removed remove_fits [OF table_removed(2)] by simp
qed

lemma table_covered:
  assumes "table_ok mgr st"
  shows "(\<Union>p\<in>set (filter placed (payloads st)). slots_of p) = {unat (start_slot st)..<table_end st}"
    "\<lbrakk>p \<in> set (payloads st); q \<in> set (payloads st); placed p; placed q; p \<noteq> q\<rbrakk> \<Longrightarrow> slots_of p \<inter> slots_of q = {}"
proof -
  obtain qs where q: "mset qs = mset (filter placed (payloads st))" "chain (unat (start_slot st)) qs (table_end st)"
    using assms unfolding table_ok_def by blast
  have s: "set (filter placed (payloads st)) = set qs" using mset_eq_setD [OF q(1)] by simp
  show "(\<Union>p\<in>set (filter placed (payloads st)). slots_of p) = {unat (start_slot st)..<table_end st}"
    unfolding s by (rule chain_covers [OF q(2)])
  show "slots_of p \<inter> slots_of q = {}" if "p \<in> set (payloads st)" "q \<in> set (payloads st)" "placed p" "placed q" "p \<noteq> q"
  proof -
    have "p \<in> set qs" "q \<in> set qs" using that unfolding s [symmetric] by simp_all
    then obtain as bs where "qs = as @ p # bs" "q \<in> set as \<union> set bs" using \<open>p \<noteq> q\<close> by (metis Un_iff in_set_conv_decomp set_ConsD set_append)
    then show ?thesis using chain_apart q(2) by blast
  qed
qed

text \<open>
  C8: the payload table: after every sequence of finding and releasing slots, checks of the slots, starts
  of an update, and adding and removing payloads, whatever the AUX channel does, the payloads that have
  been given a start slot hold exactly the slots from the first one of the link up to the next free one,
  no two of them share a slot, none is beyond the 64th, and the manager counts them and knows the next
  free slot. The sequences are those in which a payload that is in the table is not given another number
  of slots before it is removed, payloads are added to a state whose check has succeeded once those it
  releases have been removed, and the next update starts after that.
\<close>

theorem payload_table_packed:
  assumes "programmed tr c mgr st"
  shows "(\<Union>p\<in>set (filter placed (payloads st)). slots_of p) = {unat (start_slot st)..<table_end st} \<and>
    (\<forall>p\<in>set (payloads st). \<forall>q\<in>set (payloads st). placed p \<and> placed q \<and> p \<noteq> q \<longrightarrow> slots_of p \<inter> slots_of q = {}) \<and>
    distinct (map pl_port (payloads st)) \<and> table_end st \<le> 64 \<and>
    unat (payload_count mgr) = length (filter placed (payloads st)) \<and>
    (filter placed (payloads st) \<noteq> [] \<longrightarrow> unat (next_start_slot mgr) = table_end st)"
proof -
  have ok: "table_ok mgr st" using programmed_table [OF assms] by blast
  show ?thesis using table_covered [OF ok] ok unfolding table_ok_def by blast
qed

text \<open>Two payloads are added and the first is removed, over a channel that always works.\<close>

definition ready_transfer :: "unit transfer" where
  "ready_transfer req addr bs s = (s, int (length bs), 0, map (\<lambda>_. DP_PAYLOAD_TABLE_UPDATED) bs)"

lemma ready_write: "drm_dp_dpcd_write_payload ready_transfer v a n () = ((), 0)"
proof -
  have l: "access_loop (Suc k) 0 ready_transfer req addr bs () = ((), int (length bs), map (\<lambda>_. DP_PAYLOAD_TABLE_UPDATED) bs)" for k req addr bs
    by (simp add: ready_transfer_def)
  have a: "drm_dp_dpcd_access ready_transfer req addr bs () = ((), int (length bs), map (\<lambda>_. DP_PAYLOAD_TABLE_UPDATED) bs)" for req addr bs
    unfolding drm_dp_dpcd_access_def using l [of 31] by simp
  have t: "wait_table_updated ready_transfer (Suc k) () = ((), 0)" for k
    by (simp add: drm_dp_dpcd_read_def drm_dp_dpcd_probe_def a DP_PAYLOAD_TABLE_UPDATED_def)
  show ?thesis using t [of 19] by (simp add: drm_dp_dpcd_write_payload_def drm_dp_dpcd_write_def a)
qed

definition fresh_mgr :: payload_mgr where
  "fresh_mgr = \<lparr>max_payloads = 4, payload_count = 0, next_start_slot = 0\<rparr>"

lemma two_commits:
  "programmed ready_transfer True (small_mgr\<lparr>payload_count := 1, next_start_slot := 21\<rparr>) (streams [stream 7 (- 1) 1 10 300, stream 8 1 2 20 600] 0x3)"
proof -
  note code = streams_def stream_def drm_dp_atomic_find_time_slots_def drm_atomic_get_mst_payload_state_def div_round_up_def wrap32_def
  note table = streams_def stream_def fresh_mgr_def small_mgr_def drm_atomic_get_mst_payload_state_def change_payload_def drm_dp_create_payload_step1_def
    drm_dp_destroy_payload_step1_def ready_write
    table_end_def placed_def
  have u0: "programmed ready_transfer False fresh_mgr (streams [] 0)" by (rule nothing_placed) (simp_all add: streams_def fresh_mgr_def)
  have u1: "programmed ready_transfer False fresh_mgr (streams [stream 8 (- 1) 0 20 600] 0)"
    by (rule table_found [OF u0, of True 0 8 600 _ 20]) (simp_all add: code)
  have u2: "programmed ready_transfer False fresh_mgr (streams [stream 7 (- 1) 0 10 300, stream 8 (- 1) 0 20 600] 0)"
    by (rule table_found [OF u1, of True 0 7 300 _ 10]) (simp_all add: code)
  have u3: "programmed ready_transfer True fresh_mgr (streams [stream 7 (- 1) 1 10 300, stream 8 (- 1) 2 20 600] 0x3)"
    using table_checked [OF u2, of "streams [stream 7 (- 1) 1 10 300, stream 8 (- 1) 2 20 600] 0x3" "Inr ()"]
    by (simp add: slot_checks fresh_mgr_def slots_ok_def)
  have u4: "programmed ready_transfer True (small_mgr\<lparr>payload_count := 1\<rparr>) (streams [stream 7 1 1 10 300, stream 8 (- 1) 2 20 600] 0x3)"
    by (rule table_added [OF u3, of 7 "stream 7 (- 1) 1 10 300" True "()" _ _ "()" 0]) (simp_all add: table drm_dp_add_payload_part1_def)
  have u5: "programmed ready_transfer True (small_mgr\<lparr>next_start_slot := 31\<rparr>) (streams [stream 7 1 1 10 300, stream 8 11 2 20 600] 0x3)"
    by (rule table_added [OF u4, of 8 "stream 8 (- 1) 2 20 600" True "()" _ _ "()" 0]) (simp_all add: table drm_dp_add_payload_part1_def)
  show ?thesis
    by (rule table_removed [OF u5, of True 7 "()" _ _ "()"]) (simp add: table drm_dp_remove_payload_def word_sless_alt)
qed

theorem payload_table_packed_witness:
  "slots_of (stream 8 1 2 20 600) = {unat (1 :: u8)..<table_end (streams [stream 7 (- 1) 1 10 300, stream 8 1 2 20 600] 0x3)}"
  using payload_table_packed [OF two_commits] by (simp add: streams_def stream_def placed_def)

section \<open>What goes wrong\<close>

lemma payload_found: "distinct (map pl_port ps) \<Longrightarrow> q \<in> set ps \<Longrightarrow> find (\<lambda>x. pl_port x = pl_port q) ps = Some q"
  by (induction ps) force+

lemma placed_small: "table_ok mgr st \<Longrightarrow> q \<in> set (payloads st) \<Longrightarrow> placed q \<Longrightarrow> unat (vc_start_slot q) \<le> 64 \<and>
    0 < time_slots q \<and> unat (vc_start_slot q) + nat (time_slots q) \<le> table_end st"
proof -
  assume ok: "table_ok mgr st" and q: "q \<in> set (payloads st)" "placed q"
  obtain qs where s: "mset qs = mset (filter placed (payloads st))" "chain (unat (start_slot st)) qs (table_end st)" "table_end st \<le> 64"
    using ok unfolding table_ok_def by blast
  have "q \<in> set qs" using q mset_eq_setD [OF s(1)] by simp
  then show ?thesis using chain_between [OF s(2)] s(3) by force
qed

text \<open>A payload that is found again, and then removed.\<close>

lemma found_then_removed:
  assumes p: "drm_atomic_get_mst_payload_state st port = Some p" "placed p" "\<not> pl_delete p"
    and f: "drm_dp_atomic_find_time_slots mem (Inr st) crtcs port bw = Some (Inr st1, n)"
  shows "\<exists>as bs mgr' st' s'. payloads st = as @ p # bs \<and> drm_dp_remove_payload tr below mgr st1 port s = Some (mgr', st', s') \<and>
    payload_count mgr' = payload_count mgr - 1 \<and> next_start_slot mgr' = next_start_slot mgr - word_of_int n \<and>
    start_slot st' = start_slot st \<and> payloads st' = map (moved (p\<lparr>time_slots := n\<rparr>)) (as @ p\<lparr>time_slots := n, pbn := bw\<rparr> # bs)"
proof -
  define st0 where "st0 = st\<lparr>pending_crtc_mask := pending_crtc_mask st OR crtcs\<rparr>"
  have g: "drm_atomic_get_mst_payload_state st0 port = Some p" "payloads st0 = payloads st" "start_slot st0 = start_slot st"
    using p(1) by (simp_all add: st0_def drm_atomic_get_mst_payload_state_def)
  obtain as bs where s: "payloads st = as @ p # bs" "pl_port p = port"
    "\<And>f. change_payload port f st0 = st0\<lparr>payloads := as @ f p # bs\<rparr>" using payload_at [OF g(1)] g(2) by auto
  have st1: "st1 = st0\<lparr>payloads := as @ p\<lparr>time_slots := n, pbn := bw\<rparr> # bs\<rparr>"
    using f g(1) p(3) s(3) unfolding drm_dp_atomic_find_time_slots_def Let_def sum.case st0_def [symmetric]
    by (auto simp: bind_eq_Some_conv)
  let ?f = "\<lambda>p. p\<lparr>time_slots := n, pbn := bw\<rparr>"
  have "payloads (change_payload port ?f st0) = payloads st1" by (simp add: s(3) st1)
  moreover have "find (\<lambda>q. pl_port q = port) (payloads (change_payload port ?f st0)) = Some (?f p)"
    unfolding change_payload_def using g(1) s(2)
    by (simp add: find_changed drm_atomic_get_mst_payload_state_def)
  ultimately have "drm_atomic_get_mst_payload_state st1 port = Some (p\<lparr>time_slots := n, pbn := bw\<rparr>)"
    by (simp add: drm_atomic_get_mst_payload_state_def)
  then show ?thesis using p(2) s(1,2) g(3)
    by (intro exI [of _ as] exI [of _ bs]) (simp add: drm_dp_remove_payload_def Let_def placed_def moved_def [abs_def] st1)
qed

text \<open>
  C30: \<open>drm_dp_remove_payload\<close> of a payload in a correct table that the update has given another number of
  time slots: the start slots of what lies behind and the next free slot move by the new number, not by
  the one in the table, and if there is another payload in the table, the table is no longer correct.
\<close>

theorem payload_resized_removed:
  assumes ok: "table_ok mgr st" and p: "drm_atomic_get_mst_payload_state st port = Some p" "placed p" "\<not> pl_delete p"
    and f: "drm_dp_atomic_find_time_slots mem (Inr st) crtcs port bw = Some (Inr st1, n)" and n: "n mod 256 \<noteq> time_slots p"
  shows "\<exists>mgr' st' s'. drm_dp_remove_payload tr below mgr st1 port s = Some (mgr', st', s') \<and>
    next_start_slot mgr' = next_start_slot mgr - word_of_int n \<and>
    (\<forall>q\<in>set (payloads st). placed q \<and> pl_port q \<noteq> port \<longrightarrow> drm_atomic_get_mst_payload_state st' (pl_port q) =
       Some (if unat (vc_start_slot p) < unat (vc_start_slot q) then q\<lparr>vc_start_slot := vc_start_slot q - word_of_int n\<rparr> else q)) \<and>
    ((\<exists>q\<in>set (payloads st). placed q \<and> pl_port q \<noteq> port) \<longrightarrow> \<not> table_ok mgr' st')"
proof -
  let ?p = "p\<lparr>time_slots := n\<rparr>" and ?m = "\<lambda>q. moved (p\<lparr>time_slots := n\<rparr>) q"
  obtain as bs mgr' st' s' where r: "payloads st = as @ p # bs" "drm_dp_remove_payload tr below mgr st1 port s = Some (mgr', st', s')"
    "payload_count mgr' = payload_count mgr - 1" "next_start_slot mgr' = next_start_slot mgr - word_of_int n"
    "start_slot st' = start_slot st" "payloads st' = map ?m (as @ p\<lparr>time_slots := n, pbn := bw\<rparr> # bs)"
    using found_then_removed [OF p f, of tr below mgr s] by blast
  have pp: "pl_port p = port" using p(1) by (auto simp: drm_atomic_get_mst_payload_state_def find_Some_iff)
  have ds: "distinct (map pl_port (payloads st))" using ok unfolding table_ok_def by blast
  have mv: "pl_port (?m q) = pl_port q" for q by (simp add: moved_def)
  have ds': "distinct (map pl_port (payloads st'))" using ds unfolding r(6) r(1) by (simp add: mv o_def)
  have p64: "unat (vc_start_slot p) \<le> 64" "0 < time_slots p" "nat (time_slots p) \<le> 64"
    using placed_small [OF ok _ p(2)] ok unfolding r(1) table_ok_def by fastforce+
  have look: "drm_atomic_get_mst_payload_state st' (pl_port q) =
       Some (if unat (vc_start_slot p) < unat (vc_start_slot q) then q\<lparr>vc_start_slot := vc_start_slot q - word_of_int n\<rparr> else q)"
    if q: "q \<in> set (payloads st)" "placed q" "pl_port q \<noteq> port" for q
  proof -
    have "?m q \<in> set (payloads st')" using q pp unfolding r(1,6) by auto
    then have "drm_atomic_get_mst_payload_state st' (pl_port q) = Some (?m q)"
      using payload_found [OF ds'] mv by (metis drm_atomic_get_mst_payload_state_def)
    moreover have "vc_start_slot ?p <s vc_start_slot q \<longleftrightarrow> unat (vc_start_slot p) < unat (vc_start_slot q)"
      using sless_small [of "vc_start_slot p" "vc_start_slot q"] p64(1) placed_small [OF ok q(1,2)] by simp
    ultimately show ?thesis using q(3) pp by (simp add: moved_def)
  qed
  have "\<not> table_ok mgr' st'" if q: "q \<in> set (payloads st)" "placed q" "pl_port q \<noteq> port" for q
  proof
    assume ok': "table_ok mgr' st'"
    let ?oth = "filter placed (as @ bs)"
    have cnt: "unat (payload_count mgr) = Suc (length ?oth)" using ok p(2) unfolding table_ok_def r(1) by simp
    have "?oth \<noteq> []" using q pp unfolding r(1) by (auto simp: filter_empty_conv)
    have c': "length (filter placed (payloads st')) = length ?oth"
      using ok' cnt unfolding table_ok_def r(3) by (simp add: unat_sub word_le_nat_alt)
    have keep: "placed (?m x) \<Longrightarrow> placed x" for x using not_placed_moved [of x ?p] p64(1) by auto
    have np: "\<not> placed (?m (p\<lparr>time_slots := n, pbn := bw\<rparr>))" by (simp add: moved_def placed_def)
    have le: "length (filter placed (map ?m xs)) \<le> length (filter placed xs) \<and>
        (length (filter placed (map ?m xs)) = length (filter placed xs) \<longrightarrow> map time_slots (filter placed (map ?m xs)) = map time_slots (filter placed xs))" for xs
    proof (induction xs)
      case (Cons x xs)
      have "time_slots (?m x) = time_slots x" by (simp add: moved_def)
      then show ?case using Cons keep [of x] by auto
    qed simp
    have "filter placed (payloads st') = filter placed (map ?m (as @ bs))" using np unfolding r(6) by simp
    then have "map time_slots (filter placed (payloads st')) = map time_slots ?oth" using le [of "as @ bs"] c' by simp
    then have te: "table_end st' = unat (start_slot st) + nat (sum_list (map time_slots ?oth))" by (simp add: table_end_def r(5))
    have pos: "0 \<le> time_slots x" if "x \<in> set ?oth" for x
      using that placed_small [OF ok, of x] unfolding r(1) by force
    then have "0 \<le> sum_list (map time_slots ?oth)" by (intro sum_list_nonneg) auto
    moreover have "sum_list (map time_slots (filter placed (payloads st))) = sum_list (map time_slots ?oth) + time_slots p"
      using p(2) unfolding r(1) by simp
    ultimately have e: "table_end st = table_end st' + nat (time_slots p)"
      using p64(2) unfolding te unfolding table_end_def by (simp add: nat_add_distrib)
    have "filter placed (payloads st') \<noteq> []" using c' \<open>?oth \<noteq> []\<close> by (metis length_0_conv)
    then have n1: "unat (next_start_slot mgr') = table_end st'" using ok' unfolding table_ok_def by blast
    have n2: "unat (next_start_slot mgr) = table_end st"
      using ok q unfolding table_ok_def by (metis filter_empty_conv)
    have "next_start_slot mgr' = word_of_nat (table_end st')" "next_start_slot mgr = word_of_nat (table_end st)"
      by (simp_all flip: n1 n2)
    then have "word_of_nat (table_end st') + word_of_int n = (word_of_nat (table_end st) :: u8)"
      unfolding r(4) by (metis diff_add_cancel)
    then have "word_of_int n = (word_of_nat (nat (time_slots p)) :: u8)" unfolding e by simp
    then have "uint (word_of_int n :: u8) = uint (word_of_nat (nat (time_slots p)) :: u8)" by simp
    then have "n mod 256 = time_slots p mod 256" using p64(2) by (simp add: uint_word_of_int)
    then show False using n p64(2,3) by simp
  qed
  then show ?thesis using r(2,4) look by (intro exI [of _ mgr'] exI [of _ st'] exI [of _ s']) blast
qed

text \<open>
  Of two payloads of five slots each, at slots 1 and 6, the first is to get ten: removing it puts the
  second at slot -4.
\<close>

theorem payload_resized_removed_witness:
  "\<exists>st st' mgr s'. drm_dp_atomic_find_time_slots True (Inr (streams [stream 7 1 1 5 150, stream 8 6 2 5 150] 0x3)) 0 7 300 = Some (Inr st, 10) \<and>
     drm_dp_remove_payload ready_transfer False small_mgr st 7 () = Some (mgr, st', s') \<and> \<not> table_ok mgr st' \<and>
     drm_atomic_get_mst_payload_state st' 8 = Some (stream 8 (- 4) 2 5 150)"
proof -
  let ?st = "streams [stream 7 1 1 5 150, stream 8 6 2 5 150] 0x3"
  have ok: "table_ok small_mgr ?st"
    by (rule table_okI [of _ "payloads ?st" 11]) (simp_all add: streams_def stream_def placed_def small_mgr_def)
  have p: "drm_atomic_get_mst_payload_state ?st 7 = Some (stream 7 1 1 5 150)" "placed (stream 7 1 1 5 150)" "\<not> pl_delete (stream 7 1 1 5 150)"
    by (simp_all add: streams_def stream_def drm_atomic_get_mst_payload_state_def placed_def)
  obtain st where f: "drm_dp_atomic_find_time_slots True (Inr ?st) 0 7 300 = Some (Inr st, 10)"
    by (simp add: streams_def stream_def drm_dp_atomic_find_time_slots_def drm_atomic_get_mst_payload_state_def div_round_up_def wrap32_def)
  have q: "stream 8 6 2 5 150 \<in> set (payloads ?st)" "placed (stream 8 6 2 5 150)" "pl_port (stream 8 6 2 5 150) \<noteq> 7"
    "unat (vc_start_slot (stream 7 1 1 5 150)) < unat (vc_start_slot (stream 8 6 2 5 150))"
    by (simp_all add: streams_def stream_def placed_def)
  have "10 mod 256 \<noteq> time_slots (stream 7 1 1 5 150)" by (simp add: stream_def)
  then obtain mgr' st' s' where r: "drm_dp_remove_payload ready_transfer False small_mgr st 7 () = Some (mgr', st', s')"
    "\<forall>q\<in>set (payloads ?st). placed q \<and> pl_port q \<noteq> 7 \<longrightarrow> drm_atomic_get_mst_payload_state st' (pl_port q) =
       Some (if unat (vc_start_slot (stream 7 1 1 5 150)) < unat (vc_start_slot q) then q\<lparr>vc_start_slot := vc_start_slot q - word_of_int 10\<rparr> else q)"
    "(\<exists>q\<in>set (payloads ?st). placed q \<and> pl_port q \<noteq> 7) \<longrightarrow> \<not> table_ok mgr' st'"
    using payload_resized_removed [OF ok p f, of ready_transfer False "()"] by blast
  have "drm_atomic_get_mst_payload_state st' (pl_port (stream 8 6 2 5 150)) = Some ((stream 8 6 2 5 150)\<lparr>vc_start_slot := 6 - word_of_int 10\<rparr>)"
    using bspec [OF r(2) q(1)] q(2-4) by (simp add: stream_def)
  then have "drm_atomic_get_mst_payload_state st' 8 = Some (stream 8 (- 4) 2 5 150)" by (simp add: stream_def)
  then show ?thesis using f r(1,3) q(1-3) by blast
qed

text \<open>
  Releasing a payload is not always possible: the check of the slots accepts the update, but when the
  sink of the released payload has lost its bandwidth and another payload is in use, the check of the
  bandwidth fails with \<open>EINVAL\<close>, although the released payload asks for nothing.
\<close>

theorem payload_release_refused:
  "\<exists>st. drm_dp_atomic_release_time_slots (Some 0) None None (Inr (streams [stream 7 1 1 5 150, stream 8 6 2 5 150] 0x3)) 7 = Some (Inr st, 0) \<and>
     drm_dp_mst_atomic_check_payload_alloc_limits small_mgr st = Some (st, Inr ()) \<and>
     branch_load st (two_sinks 0 1000) = 150 \<and> branch_fits st (two_sinks 0 1000) \<and>
     drm_dp_mst_atomic_check two_links [(True, small_mgr, two_sinks 0 1000, st)] = Some ([st], - EINVAL_code)"
  by (simp add: streams_def stream_def drm_dp_atomic_release_time_slots_def drm_atomic_get_mst_payload_state_def change_payload_def slot_checks
      two_sinks_def sink_port_def peer_devices drm_dp_mst_is_end_device_def asks_def check_manager_def two_links_def EINVAL_code_def
      drm_dp_mst_port_downstream_of_branch.simps)

end
