(* ===== verification/Kernel_Bits.thy ===== *)
theory Kernel_Bits
  imports Prelude "HOL-Library.Log_Nat"
begin

text \<open>
  Bit functions of the kernel that the two allocators of video memory use: the position of the last set
  bit, its weight, and the powers of two, with what they compute.
\<close>

definition ilog2 :: "u64 \<Rightarrow> nat" where
  "ilog2 n = floorlog 2 (unat n) - 1"

definition rounddown_pow_of_two :: "u64 \<Rightarrow> u64" where
  "rounddown_pow_of_two n = push_bit (ilog2 n) 1"

definition is_power_of_2 :: "u64 \<Rightarrow> bool" where
  "is_power_of_2 n \<longleftrightarrow> n \<noteq> 0 \<and> n AND (n - 1) = 0"

section \<open>Powers of two\<close>

lemma ilog2_values:
  assumes "0 < unat n"
  shows "2 ^ ilog2 n \<le> unat n" "unat n < 2 ^ (ilog2 n + 1)" "ilog2 n < 64"
proof -
  let ?f = "floorlog 2 (unat n)"
  have b: "2 ^ (?f - 1) \<le> unat n \<and> unat n < 2 ^ ?f" by (rule floorlog_bounds) (use assms in auto)
  have "0 < ?f" using assms by (simp add: floorlog_def)
  then show "2 ^ ilog2 n \<le> unat n" "unat n < 2 ^ (ilog2 n + 1)" using b by (simp_all add: ilog2_def)
  then have "(2 :: nat) ^ ilog2 n < 2 ^ 64" using unsigned_less [of n, where 'a = nat] by simp
  then show "ilog2 n < 64" by (rule power_less_imp_less_exp [rotated]) simp
qed

lemma ilog2_unique:
  assumes "2 ^ k \<le> unat n" "unat n < 2 ^ (k + 1)"
  shows "ilog2 n = k"
proof -
  have "(0 :: nat) < 2 ^ k" by simp
  then have "0 < unat n" using assms(1) by linarith
  note v = ilog2_values [OF this]
  have "(2 :: nat) ^ k < 2 ^ (ilog2 n + 1)" "(2 :: nat) ^ ilog2 n < 2 ^ (k + 1)" using assms v by linarith+
  then have "k < ilog2 n + 1" "ilog2 n < k + 1" by (metis power_less_imp_less_exp one_less_numeral_iff semiring_norm(76))+
  then show ?thesis by simp
qed

lemma ilog2_power: "unat n = 2 ^ k \<Longrightarrow> ilog2 n = k"
  by (rule ilog2_unique) simp_all

lemma unat_bit: "n < 64 \<Longrightarrow> unat (push_bit n 1 :: u64) = 2 ^ n"
proof -
  assume "n < 64"
  then have "(2 :: nat) ^ n < 2 ^ 64" by (intro power_strict_increasing) auto
  moreover have "(push_bit n 1 :: u64) = word_of_nat (2 ^ n)" by (simp add: push_bit_eq_mult)
  ultimately show ?thesis by (simp only: unat_of_nat) (simp add: mod_less)
qed

lemma unat_drop: "unat (drop_bit k (x :: u64)) = unat x div 2 ^ k"
proof -
  have "take_bit 64 (unat x) = unat x" using unsigned_less [of x, where 'a = nat] by (intro take_bit_nat_eq_self) simp
  then show ?thesis unfolding unsigned_drop_bit_eq by (simp add: drop_bit_eq_div)
qed

lemma unat_push: "unat (x :: u64) * 2 ^ k < 2 ^ 64 \<Longrightarrow> unat (push_bit k x) = unat x * 2 ^ k"
  unfolding unsigned_push_bit_eq by (simp add: push_bit_eq_mult take_bit_nat_eq_self)

lemma rounddown_values: "0 < unat n \<Longrightarrow> unat (rounddown_pow_of_two n) = 2 ^ ilog2 n"
  unfolding rounddown_pow_of_two_def by (rule unat_bit) (rule ilog2_values(3))

lemma bit_of_size:
  assumes "2 ^ k \<le> unat n" "unat n < 2 ^ (k + 1)" "k < 64"
  shows "bit (n :: u64) k"
proof -
  have "unat n div 2 ^ k = 1" by (rule div_nat_eqI) (use assms in simp_all)
  then have "bit (unat n) k" by (simp add: bit_iff_odd)
  then show ?thesis using assms(3) by (simp add: bit_unsigned_iff)
qed

lemma power_of_2E:
  assumes "is_power_of_2 c"
  obtains k where "k < 64" "unat c = 2 ^ k" "ilog2 c = k"
proof -
  have "0 < unat c" using assms by (simp add: is_power_of_2_def unat_gt_0)
  note v = ilog2_values [OF this]
  have "unat c = 2 ^ ilog2 c"
  proof (rule ccontr)
    assume "unat c \<noteq> 2 ^ ilog2 c"
    then have "2 ^ ilog2 c \<le> unat c - 1" using v(1) by simp
    moreover have "unat (c - 1) = unat c - 1" using \<open>0 < unat c\<close> by (simp add: unat_sub word_le_nat_alt)
    ultimately have "bit (c - 1) (ilog2 c)" using v by (intro bit_of_size) simp_all
    then have "bit (c AND (c - 1)) (ilog2 c)" using bit_of_size [OF v] by (simp add: bit_and_iff)
    then show False using assms by (simp add: is_power_of_2_def)
  qed
  then show ?thesis using that v(3) by blast
qed

section \<open>Multiples\<close>

lemma low_bits:
  assumes "unat c = 2 ^ k" "k < 64"
  shows "c - 1 = (mask k :: u64)"
proof -
  have "c = word_of_nat (unat c)" by simp
  then have "c = 2 ^ k" unfolding assms(1) by simp
  then show ?thesis by (simp add: mask_eq_exp_minus_1)
qed

lemma aligned_dvd:
  assumes "unat c = 2 ^ k" "k < 64"
  shows "(x :: u64) AND (c - 1) = 0 \<longleftrightarrow> unat c dvd unat x"
proof -
  have "x AND (c - 1) = take_bit k x" by (simp add: low_bits [OF assms] take_bit_eq_mask)
  then show ?thesis
    by (simp add: assms(1) word_unat_eq_iff unsigned_take_bit_eq take_bit_eq_0_iff)
qed

end
