(* ===== verification/Buddy.thy ===== *)
theory Buddy
  imports Kernel_Bits
begin

text \<open>
  The buddy allocator of video memory, \<open>drm_buddy.c\<close>: trees of blocks whose headers hold offset,
  state and order, a free list for each order, splitting, merging, and allocation of ranges, of
  blocks within a range, and from the free lists.

  A block is identified by a number, its address; \<open>slab\<close> says which addresses hold a block. An address
  is not used twice, so a pointer to a block that has been freed stays a pointer to nothing. \<open>None\<close> as
  a result stands for what the kernel does not survive: a \<open>BUG_ON\<close>, a pointer to nothing, taking a
  block off a list it is not on or putting it on a list it is on already. A page has 4096 bytes.
\<close>

section \<open>Blocks\<close>

definition DRM_BUDDY_HEADER_OFFSET :: u64 where "DRM_BUDDY_HEADER_OFFSET = 0xfffffffffffff000"
definition DRM_BUDDY_HEADER_STATE :: u64 where "DRM_BUDDY_HEADER_STATE = 0xc00"
definition DRM_BUDDY_ALLOCATED :: u64 where "DRM_BUDDY_ALLOCATED = push_bit 10 1"
definition DRM_BUDDY_FREE :: u64 where "DRM_BUDDY_FREE = push_bit 10 2"
definition DRM_BUDDY_SPLIT :: u64 where "DRM_BUDDY_SPLIT = push_bit 10 3"
definition DRM_BUDDY_HEADER_UNUSED :: u64 where "DRM_BUDDY_HEADER_UNUSED = 0x3c0"
definition DRM_BUDDY_HEADER_ORDER :: u64 where "DRM_BUDDY_HEADER_ORDER = 0x3f"
definition PAGE_SHIFT :: nat where "PAGE_SHIFT = 12"
definition DRM_BUDDY_MAX_ORDER :: nat where "DRM_BUDDY_MAX_ORDER = 63 - PAGE_SHIFT"
definition DRM_BUDDY_RANGE_ALLOCATION :: u64 where "DRM_BUDDY_RANGE_ALLOCATION = push_bit 0 1"
definition DRM_BUDDY_TOPDOWN_ALLOCATION :: u64 where "DRM_BUDDY_TOPDOWN_ALLOCATION = push_bit 1 1"

lemmas buddy_masks = DRM_BUDDY_HEADER_OFFSET_def DRM_BUDDY_HEADER_STATE_def DRM_BUDDY_ALLOCATED_def
  DRM_BUDDY_FREE_def DRM_BUDDY_SPLIT_def DRM_BUDDY_HEADER_UNUSED_def DRM_BUDDY_HEADER_ORDER_def

record block =
  header :: u64
  left :: "nat option"
  right :: "nat option"
  parent :: "nat option"

definition drm_buddy_block_offset :: "block \<Rightarrow> u64" where
  "drm_buddy_block_offset b = header b AND DRM_BUDDY_HEADER_OFFSET"

definition drm_buddy_block_order :: "block \<Rightarrow> nat" where
  "drm_buddy_block_order b = unat (header b AND DRM_BUDDY_HEADER_ORDER)"

definition drm_buddy_block_state :: "block \<Rightarrow> u64" where
  "drm_buddy_block_state b = header b AND DRM_BUDDY_HEADER_STATE"

definition drm_buddy_block_is_allocated :: "block \<Rightarrow> bool" where
  "drm_buddy_block_is_allocated b \<longleftrightarrow> drm_buddy_block_state b = DRM_BUDDY_ALLOCATED"

definition drm_buddy_block_is_free :: "block \<Rightarrow> bool" where
  "drm_buddy_block_is_free b \<longleftrightarrow> drm_buddy_block_state b = DRM_BUDDY_FREE"

definition drm_buddy_block_is_split :: "block \<Rightarrow> bool" where
  "drm_buddy_block_is_split b \<longleftrightarrow> drm_buddy_block_state b = DRM_BUDDY_SPLIT"

section \<open>The allocator\<close>

text \<open>
  \<open>struct drm_buddy\<close>, and the slab the blocks come from: what it holds, the next address it hands out,
  and for which addresses it has memory.
\<close>

record buddy =
  free_list :: "nat list list"
  roots :: "nat list"
  n_roots :: nat
  max_order :: nat
  chunk_size :: u64
  mm_size :: u64
  avail :: u64
  slab :: "nat \<Rightarrow> block option"
  slab_next :: nat
  slab_ok :: "nat \<Rightarrow> bool"

definition drm_buddy_block_size :: "buddy \<Rightarrow> block \<Rightarrow> u64" where
  "drm_buddy_block_size mm b = push_bit (drm_buddy_block_order b) (chunk_size mm)"

definition set_block :: "buddy \<Rightarrow> nat \<Rightarrow> block \<Rightarrow> buddy" where
  "set_block mm p b = mm\<lparr>slab := (slab mm)(p \<mapsto> b)\<rparr>"

definition drm_block_alloc :: "buddy \<Rightarrow> nat option \<Rightarrow> nat \<Rightarrow> u64 \<Rightarrow> (buddy \<times> nat option) option" where
  "drm_block_alloc mm par ord offset =
     (if DRM_BUDDY_MAX_ORDER < ord then None
      else let p = slab_next mm; mm = mm\<lparr>slab_next := p + 1\<rparr>
           in if \<not> slab_ok mm p then Some (mm, None)
              else let h = offset OR word_of_nat ord
                   in if h AND DRM_BUDDY_HEADER_UNUSED \<noteq> 0 then None
                      else Some (set_block mm p \<lparr>header = h, left = None, right = None, parent = par\<rparr>, Some p))"

definition drm_block_free :: "buddy \<Rightarrow> nat \<Rightarrow> buddy option" where
  "drm_block_free mm p = (if slab mm p = None then None else Some (mm\<lparr>slab := (slab mm)(p := None)\<rparr>))"

section \<open>The free lists\<close>

text \<open>\<open>list_add\<close> and \<open>list_del\<close> on the link of a block, as on the free list of its order.\<close>

definition free_list_add :: "buddy \<Rightarrow> nat \<Rightarrow> nat \<Rightarrow> buddy option" where
  "free_list_add mm ord p =
     do { l \<leftarrow> buf_get (free_list mm) ord;
          if p \<in> set l then None else Some (mm\<lparr>free_list := (free_list mm)[ord := p # l]\<rparr>) }"

definition free_list_del :: "buddy \<Rightarrow> nat \<Rightarrow> nat \<Rightarrow> buddy option" where
  "free_list_del mm ord p =
     do { l \<leftarrow> buf_get (free_list mm) ord;
          l \<leftarrow> list_del p l;
          Some (mm\<lparr>free_list := (free_list mm)[ord := l]\<rparr>) }"

definition set_state :: "u64 \<Rightarrow> block \<Rightarrow> block" where
  "set_state st b = b\<lparr>header := (header b AND NOT DRM_BUDDY_HEADER_STATE) OR st\<rparr>"

definition mark_allocated :: "buddy \<Rightarrow> nat \<Rightarrow> buddy option" where
  "mark_allocated mm p =
     do { b \<leftarrow> slab mm p;
          let b = set_state DRM_BUDDY_ALLOCATED b;
          free_list_del (set_block mm p b) (drm_buddy_block_order b) p }"

definition mark_free :: "buddy \<Rightarrow> nat \<Rightarrow> buddy option" where
  "mark_free mm p =
     do { b \<leftarrow> slab mm p;
          let b = set_state DRM_BUDDY_FREE b;
          free_list_add (set_block mm p b) (drm_buddy_block_order b) p }"

definition mark_split :: "buddy \<Rightarrow> nat \<Rightarrow> buddy option" where
  "mark_split mm p =
     do { b \<leftarrow> slab mm p;
          let b = set_state DRM_BUDDY_SPLIT b;
          free_list_del (set_block mm p b) (drm_buddy_block_order b) p }"

section \<open>Splitting and merging\<close>

text \<open>A pointer that is followed must point to something.\<close>

definition set_left :: "nat \<Rightarrow> nat option \<Rightarrow> buddy \<Rightarrow> buddy option" where
  "set_left p l mm = do { b \<leftarrow> slab mm p; Some (set_block mm p (b\<lparr>left := l\<rparr>)) }"

definition set_right :: "nat \<Rightarrow> nat option \<Rightarrow> buddy \<Rightarrow> buddy option" where
  "set_right p r mm = do { b \<leftarrow> slab mm p; Some (set_block mm p (b\<lparr>right := r\<rparr>)) }"

definition split_block :: "buddy \<Rightarrow> nat \<Rightarrow> (buddy \<times> unit res) option" where
  "split_block mm p =
     do { b \<leftarrow> slab mm p;
          let ord = drm_buddy_block_order b - 1;
          let offset = drm_buddy_block_offset b;
          if \<not> drm_buddy_block_is_free b \<or> drm_buddy_block_order b = 0 then None
          else do {
            (mm, l) \<leftarrow> drm_block_alloc mm (Some p) ord offset;
            mm \<leftarrow> set_left p l mm;
            case l of
              None \<Rightarrow> Some (mm, Inl ENOMEM)
            | Some l \<Rightarrow> do {
                (mm, r) \<leftarrow> drm_block_alloc mm (Some p) ord (offset + push_bit ord (chunk_size mm));
                mm \<leftarrow> set_right p r mm;
                case r of
                  None \<Rightarrow> do { mm \<leftarrow> drm_block_free mm l; Some (mm, Inl ENOMEM) }
                | Some r \<Rightarrow> do {
                    mm \<leftarrow> mark_free mm l;
                    mm \<leftarrow> mark_free mm r;
                    mm \<leftarrow> mark_split mm p;
                    Some (mm, Inr ()) } } } }"

definition get_buddy :: "buddy \<Rightarrow> nat \<Rightarrow> nat option option" where
  "get_buddy mm p =
     do { b \<leftarrow> slab mm p;
          case parent b of
            None \<Rightarrow> Some None
          | Some q \<Rightarrow> do { pb \<leftarrow> slab mm q; Some (if left pb = Some p then right pb else left pb) } }"

partial_function (option) drm_buddy_free_merge :: "buddy \<Rightarrow> nat \<Rightarrow> buddy option" where
  "drm_buddy_free_merge mm p =
     do { b \<leftarrow> slab mm p;
          case parent b of
            None \<Rightarrow> mark_free mm p
          | Some q \<Rightarrow> do {
              bud \<leftarrow> get_buddy mm p;
              bud \<leftarrow> bud;
              bb \<leftarrow> slab mm bud;
              if \<not> drm_buddy_block_is_free bb then mark_free mm p
              else do {
                mm \<leftarrow> free_list_del mm (drm_buddy_block_order bb) bud;
                mm \<leftarrow> drm_block_free mm p;
                mm \<leftarrow> drm_block_free mm bud;
                drm_buddy_free_merge mm q } } }"

declare drm_buddy_free_merge.simps [code]

definition drm_buddy_free_block :: "buddy \<Rightarrow> nat \<Rightarrow> buddy option" where
  "drm_buddy_free_block mm p =
     do { b \<leftarrow> slab mm p;
          if \<not> drm_buddy_block_is_allocated b then None
          else drm_buddy_free_merge (mm\<lparr>avail := avail mm + drm_buddy_block_size mm b\<rparr>) p }"

fun drm_buddy_free_list :: "buddy \<Rightarrow> nat list \<Rightarrow> buddy option" where
  "drm_buddy_free_list mm [] = Some mm"
| "drm_buddy_free_list mm (p # ps) = do { mm \<leftarrow> drm_buddy_free_block mm p; drm_buddy_free_list mm ps }"

section \<open>Setting up and tearing down\<close>

text \<open>More bit functions of the kernel: the number of set bits, rounding down to a power of two.\<close>

definition hweight64 :: "u64 \<Rightarrow> nat" where
  "hweight64 n = length (filter (bit n) [0..<64])"

definition round_down :: "u64 \<Rightarrow> u64 \<Rightarrow> u64" where
  "round_down n c = n AND NOT (c - 1)"

text \<open>
  One root for each set bit of the size; \<open>sz\<close> is what is left of it. On failure what has been
  allocated is freed.
\<close>

fun free_roots :: "buddy \<Rightarrow> nat list \<Rightarrow> buddy option" where
  "free_roots mm [] = Some mm"
| "free_roots mm (p # ps) = do { mm \<leftarrow> drm_block_free mm p; free_roots mm ps }"

partial_function (option) init_roots :: "buddy \<Rightarrow> u64 \<Rightarrow> u64 \<Rightarrow> (buddy \<times> unit res) option" where
  "init_roots mm offset sz =
     (let root_size = rounddown_pow_of_two sz
      in do { (mm, r) \<leftarrow> drm_block_alloc mm None (ilog2 root_size - ilog2 (chunk_size mm)) offset;
              case r of
                None \<Rightarrow> do { mm \<leftarrow> free_roots mm (rev (roots mm)); Some (mm\<lparr>roots := [], free_list := []\<rparr>, Inl ENOMEM) }
              | Some r \<Rightarrow> do {
                  mm \<leftarrow> mark_free mm r;
                  b \<leftarrow> slab mm r;
                  if max_order mm < length (roots mm) \<or> drm_buddy_block_size mm b < chunk_size mm \<or> n_roots mm \<le> length (roots mm)
                  then None
                  else let mm = mm\<lparr>roots := roots mm @ [r]\<rparr>
                       in if sz - root_size = 0 then Some (mm, Inr ())
                          else init_roots mm (offset + root_size) (sz - root_size) } })"

declare init_roots.simps [code]

text \<open>\<open>mem1\<close>, \<open>mem2\<close>: whether there is memory for the two arrays.\<close>

definition drm_buddy_init :: "bool \<Rightarrow> bool \<Rightarrow> buddy \<Rightarrow> u64 \<Rightarrow> u64 \<Rightarrow> (buddy \<times> unit res) option" where
  "drm_buddy_init mem1 mem2 mm sz chunk =
     (if sz < chunk then Some (mm, Inl EINVAL)
      else if chunk < push_bit PAGE_SHIFT 1 then Some (mm, Inl EINVAL)
      else if \<not> is_power_of_2 chunk then Some (mm, Inl EINVAL)
      else
        let sz = round_down sz chunk;
            mm = mm\<lparr>mm_size := sz, avail := sz, chunk_size := chunk, max_order := ilog2 sz - ilog2 chunk\<rparr>
        in if DRM_BUDDY_MAX_ORDER < max_order mm then None
           else if \<not> mem1 then Some (mm, Inl ENOMEM)
           else
             let mm = mm\<lparr>free_list := replicate (max_order mm + 1) [], n_roots := hweight64 sz\<rparr>
             in if \<not> mem2 then Some (mm\<lparr>free_list := []\<rparr>, Inl ENOMEM)
                else init_roots (mm\<lparr>roots := []\<rparr>) 0 sz)"

text \<open>The state after tearing down, and whether a warning was given.\<close>

fun fini_roots :: "buddy \<Rightarrow> nat list \<Rightarrow> bool \<Rightarrow> (buddy \<times> bool) option" where
  "fini_roots mm [] w = Some (mm, w)"
| "fini_roots mm (p # ps) w =
     do { b \<leftarrow> slab mm p; mm \<leftarrow> drm_block_free mm p; fini_roots mm ps (w \<or> \<not> drm_buddy_block_is_free b) }"

definition drm_buddy_fini :: "buddy \<Rightarrow> (buddy \<times> bool) option" where
  "drm_buddy_fini mm =
     do { (mm, w) \<leftarrow> fini_roots mm (roots mm) False;
          Some (mm\<lparr>roots := [], free_list := []\<rparr>, w \<or> avail mm \<noteq> mm_size mm) }"

section \<open>Allocating\<close>

definition overlaps :: "u64 \<Rightarrow> u64 \<Rightarrow> u64 \<Rightarrow> u64 \<Rightarrow> bool" where
  "overlaps s1 e1 s2 e2 \<longleftrightarrow> s1 \<le> e2 \<and> s2 \<le> e1"

definition contains :: "u64 \<Rightarrow> u64 \<Rightarrow> u64 \<Rightarrow> u64 \<Rightarrow> bool" where
  "contains s1 e1 s2 e2 \<longleftrightarrow> s1 \<le> s2 \<and> e2 \<le> e1"

text \<open>The common error path of the two traversals: merge the block back with its buddy.\<close>

definition err_undo :: "buddy \<Rightarrow> nat \<Rightarrow> buddy option" where
  "err_undo mm p =
     do { b \<leftarrow> slab mm p;
          bud \<leftarrow> get_buddy mm p;
          case bud of
            None \<Rightarrow> Some mm
          | Some q \<Rightarrow> do { bb \<leftarrow> slab mm q;
              if drm_buddy_block_is_free b \<and> drm_buddy_block_is_free bb then drm_buddy_free_merge mm p else Some mm } }"

text \<open>The depth-first walk; \<open>stop\<close> is the last byte of the range.\<close>

partial_function (option) bias_loop :: "u64 \<Rightarrow> u64 \<Rightarrow> nat \<Rightarrow> buddy \<Rightarrow> nat list \<Rightarrow> (buddy \<times> nat res) option" where
  "bias_loop start stop ord mm dfs =
     (case dfs of
        [] \<Rightarrow> Some (mm, Inl ENOSPC)
      | p # dfs \<Rightarrow>
          do { b \<leftarrow> slab mm p;
               let block_start = drm_buddy_block_offset b;
               let block_end = block_start + drm_buddy_block_size mm b - 1;
               if drm_buddy_block_order b < ord \<or> \<not> overlaps start stop block_start block_end \<or> drm_buddy_block_is_allocated b
               then bias_loop start stop ord mm dfs
               else if contains start stop block_start block_end \<and> ord = drm_buddy_block_order b then
                 (if drm_buddy_block_is_free b then Some (mm, Inr p) else bias_loop start stop ord mm dfs)
               else do {
                 (mm, e) \<leftarrow> (if drm_buddy_block_is_split b then Some (mm, Inr ()) else split_block mm p);
                 case e of
                   Inl e \<Rightarrow> do { mm \<leftarrow> err_undo mm p; Some (mm, Inl e) }
                 | Inr _ \<Rightarrow> do { b \<leftarrow> slab mm p; l \<leftarrow> left b; r \<leftarrow> right b; bias_loop start stop ord mm (l # r # dfs) } } })"

declare bias_loop.simps [code]

definition alloc_range_bias :: "u64 \<Rightarrow> u64 \<Rightarrow> buddy \<Rightarrow> nat \<Rightarrow> (buddy \<times> nat res) option" where
  "alloc_range_bias start end mm ord = bias_loop start (end - 1) ord mm (roots mm)"

fun max_block :: "buddy \<Rightarrow> nat \<Rightarrow> nat list \<Rightarrow> nat option" where
  "max_block mm m [] = Some m"
| "max_block mm m (p # ps) =
     do { b \<leftarrow> slab mm p; mb \<leftarrow> slab mm m;
          max_block mm (if drm_buddy_block_offset mb < drm_buddy_block_offset b then p else m) ps }"

definition get_maxblock :: "buddy \<Rightarrow> nat list \<Rightarrow> nat option option" where
  "get_maxblock mm l = (case l of [] \<Rightarrow> Some None | p # _ \<Rightarrow> map_option Some (max_block mm p l))"

text \<open>The first block found in the free lists from the given order on, and its order.\<close>

fun find_free :: "buddy \<Rightarrow> u64 \<Rightarrow> nat list \<Rightarrow> (nat \<times> nat) option option" where
  "find_free mm flags [] = Some None"
| "find_free mm flags (i # is) =
     do { l \<leftarrow> buf_get (free_list mm) i;
          p \<leftarrow> (if flags AND DRM_BUDDY_TOPDOWN_ALLOCATION \<noteq> 0 then get_maxblock mm l
               else Some (case l of [] \<Rightarrow> None | p # _ \<Rightarrow> Some p));
          case p of Some p \<Rightarrow> Some (Some (p, i)) | None \<Rightarrow> find_free mm flags is }"

text \<open>Splitting down from order \<open>i\<close>, taking the right half each time.\<close>

fun split_down :: "buddy \<Rightarrow> nat \<Rightarrow> nat \<Rightarrow> nat \<Rightarrow> (buddy \<times> nat res) option" where
  "split_down mm p 0 ord = (if ord = 0 then Some (mm, Inr p) else None)"
| "split_down mm p (Suc i) ord =
     (if Suc i = ord then Some (mm, Inr p)
      else do { (mm, e) \<leftarrow> split_block mm p;
                case e of
                  Inl e \<Rightarrow> do { mm \<leftarrow> drm_buddy_free_merge mm p; Some (mm, Inl e) }
                | Inr _ \<Rightarrow> do { b \<leftarrow> slab mm p; r \<leftarrow> right b; split_down mm r i ord } })"

definition alloc_from_freelist :: "u64 \<Rightarrow> buddy \<Rightarrow> nat \<Rightarrow> (buddy \<times> nat res) option" where
  "alloc_from_freelist flags mm ord =
     do { f \<leftarrow> find_free mm flags [ord..<max_order mm + 1];
          case f of
            None \<Rightarrow> Some (mm, Inl ENOSPC)
          | Some (p, i) \<Rightarrow>
              do { b \<leftarrow> slab mm p; if \<not> drm_buddy_block_is_free b then None else split_down mm p i ord } }"

text \<open>
  Allocating exactly a range: \<open>allocated\<close> collects the blocks. On an error they are freed.
\<close>

partial_function (option) alloc_range_loop ::
  "u64 \<Rightarrow> u64 \<Rightarrow> buddy \<Rightarrow> nat list \<Rightarrow> nat list \<Rightarrow> (buddy \<times> (nat list) res) option" where
  "alloc_range_loop start stop mm dfs allocated =
     (case dfs of
        [] \<Rightarrow> Some (mm, Inr allocated)
      | p # dfs \<Rightarrow>
          do { b \<leftarrow> slab mm p;
               let block_start = drm_buddy_block_offset b;
               let block_end = block_start + drm_buddy_block_size mm b - 1;
               if \<not> overlaps start stop block_start block_end then alloc_range_loop start stop mm dfs allocated
               else if drm_buddy_block_is_allocated b then
                 do { mm \<leftarrow> drm_buddy_free_list mm allocated; Some (mm, Inl ENOSPC) }
               else if contains start stop block_start block_end then
                 (if \<not> drm_buddy_block_is_free b then do { mm \<leftarrow> drm_buddy_free_list mm allocated; Some (mm, Inl ENOSPC) }
                  else do { mm \<leftarrow> mark_allocated mm p;
                            alloc_range_loop start stop (mm\<lparr>avail := avail mm - drm_buddy_block_size mm b\<rparr>) dfs (allocated @ [p]) })
               else do {
                 (mm, e) \<leftarrow> (if drm_buddy_block_is_split b then Some (mm, Inr ()) else split_block mm p);
                 case e of
                   Inl e \<Rightarrow> do { mm \<leftarrow> err_undo mm p; mm \<leftarrow> drm_buddy_free_list mm allocated; Some (mm, Inl e) }
                 | Inr _ \<Rightarrow> do { b \<leftarrow> slab mm p; l \<leftarrow> left b; r \<leftarrow> right b;
                                alloc_range_loop start stop mm (l # r # dfs) allocated } } })"

declare alloc_range_loop.simps [code]

text \<open>\<open>blocks\<close> is the list of the caller, to which the new blocks are appended.\<close>

definition alloc_range :: "buddy \<Rightarrow> nat list \<Rightarrow> u64 \<Rightarrow> u64 \<Rightarrow> nat list \<Rightarrow> (buddy \<times> nat list \<times> unit res) option" where
  "alloc_range mm dfs start sz blocks =
     map_option (\<lambda>(mm, r). case r of Inl e \<Rightarrow> (mm, blocks, Inl e) | Inr l \<Rightarrow> (mm, blocks @ l, Inr ()))
       (alloc_range_loop start (start + sz - 1) mm dfs [])"

definition drm_buddy_alloc_range :: "buddy \<Rightarrow> u64 \<Rightarrow> u64 \<Rightarrow> nat list \<Rightarrow> (buddy \<times> nat list \<times> unit res) option" where
  "drm_buddy_alloc_range mm start sz blocks = alloc_range mm (roots mm) start sz blocks"

definition set_parent :: "nat \<Rightarrow> nat option \<Rightarrow> buddy \<Rightarrow> buddy option" where
  "set_parent p q mm = do { b \<leftarrow> slab mm p; Some (set_block mm p (b\<lparr>parent := q\<rparr>)) }"

definition drm_buddy_block_trim :: "buddy \<Rightarrow> u64 \<Rightarrow> nat list \<Rightarrow> (buddy \<times> nat list \<times> unit res) option" where
  "drm_buddy_block_trim mm new_size blocks =
     (case blocks of
        [p] \<Rightarrow>
          do { b \<leftarrow> slab mm p;
               if \<not> drm_buddy_block_is_allocated b \<or> drm_buddy_block_size mm b < new_size \<or> new_size = 0 \<or>
                  new_size AND (chunk_size mm - 1) \<noteq> 0
               then Some (mm, blocks, Inl EINVAL)
               else if new_size = drm_buddy_block_size mm b then Some (mm, blocks, Inr ())
               else do {
                 mm \<leftarrow> mark_free mm p;
                 let mm = mm\<lparr>avail := avail mm + drm_buddy_block_size mm b\<rparr>;
                 mm \<leftarrow> set_parent p None mm;
                 (mm, blocks, e) \<leftarrow> alloc_range mm [p] (drm_buddy_block_offset b) new_size [];
                 case e of
                   Inr _ \<Rightarrow> do { mm \<leftarrow> set_parent p (parent b) mm; Some (mm, blocks, e) }
                 | Inl _ \<Rightarrow> do {
                     mm \<leftarrow> mark_allocated mm p;
                     let mm = mm\<lparr>avail := avail mm - drm_buddy_block_size mm b\<rparr>;
                     mm \<leftarrow> set_parent p (parent b) mm;
                     Some (mm, p # blocks, e) } } }
      | _ \<Rightarrow> Some (mm, blocks, Inl EINVAL))"

section \<open>Allocating blocks\<close>

text \<open>\<open>fls\<close> takes an \<open>int\<close>: the number of pages loses its upper half.\<close>

definition fls :: "u64 \<Rightarrow> u32" where
  "fls n = word_of_nat (floorlog 2 (unat (ucast n :: u32)))"

lemma unat_sub_less: "x \<noteq> y \<Longrightarrow> unat (x - 1 - y) < unat (x - y)" for x :: "'a::len word"
  by (metis diff_diff_eq diff_diff_eq2 diff_eq_diff_eq eq_iff_diff_eq_0 measure_unat add.commute)

text \<open>
  Trying one order after the other, down to the smallest allowed; the counter is unsigned. \<open>pick\<close> is
  one of the two ways to look for a block.
\<close>

function pick_order ::
  "(buddy \<Rightarrow> nat \<Rightarrow> (buddy \<times> nat res) option) \<Rightarrow> u32 \<Rightarrow> buddy \<Rightarrow> u32 \<Rightarrow> (buddy \<times> (nat \<times> u32) res) option" where
  "pick_order pick min_order mm ord =
     do { (mm, r) \<leftarrow> pick mm (unat ord);
          case r of
            Inr p \<Rightarrow> Some (mm, Inr (p, ord))
          | Inl _ \<Rightarrow> if ord = min_order then Some (mm, Inl ENOSPC) else pick_order pick min_order mm (ord - 1) }"
  by pat_completeness auto

termination pick_order
  by (relation "measure (\<lambda>(pick, min_order, mm, ord). unat (ord - min_order))") (auto intro: unat_sub_less)

declare pick_order.simps [simp del]

definition block_picker :: "u64 \<Rightarrow> u64 \<Rightarrow> u64 \<Rightarrow> buddy \<Rightarrow> nat \<Rightarrow> (buddy \<times> nat res) option" where
  "block_picker start end flags =
     (if flags AND DRM_BUDDY_RANGE_ALLOCATION \<noteq> 0 then alloc_range_bias start end else alloc_from_freelist flags)"

partial_function (option) alloc_blocks_loop ::
  "(buddy \<Rightarrow> nat \<Rightarrow> (buddy \<times> nat res) option) \<Rightarrow> u32 \<Rightarrow> buddy \<Rightarrow> u64 \<Rightarrow> u32 \<Rightarrow> nat list \<Rightarrow> (buddy \<times> (nat list) res) option" where
  "alloc_blocks_loop pick min_order mm pages ord allocated =
     (let ord = min ord (fls pages - 1)
      in if max_order mm < unat ord \<or> ord < min_order then None
         else do {
           (mm, r) \<leftarrow> pick_order pick min_order mm ord;
           case r of
             Inl e \<Rightarrow> do { mm \<leftarrow> drm_buddy_free_list mm allocated; Some (mm, Inl e) }
           | Inr (p, ord) \<Rightarrow> do {
               b \<leftarrow> slab mm p;
               mm \<leftarrow> mark_allocated mm p;
               let mm = mm\<lparr>avail := avail mm - drm_buddy_block_size mm b\<rparr>;
               let pages = pages - push_bit (unat ord) 1;
               if pages = 0 then Some (mm, Inr (allocated @ [p]))
               else alloc_blocks_loop pick min_order mm pages ord (allocated @ [p]) } })"

declare alloc_blocks_loop.simps [code]

definition range_overflows :: "u64 \<Rightarrow> u64 \<Rightarrow> u64 \<Rightarrow> bool" where
  "range_overflows start sz limit \<longleftrightarrow> limit \<le> start \<or> limit - start < sz"

definition drm_buddy_alloc_blocks ::
  "buddy \<Rightarrow> u64 \<Rightarrow> u64 \<Rightarrow> u64 \<Rightarrow> u64 \<Rightarrow> nat list \<Rightarrow> u64 \<Rightarrow> (buddy \<times> nat list \<times> unit res) option" where
  "drm_buddy_alloc_blocks mm start end sz min_page_size blocks flags =
     (if sz < chunk_size mm \<or> min_page_size < chunk_size mm \<or> \<not> is_power_of_2 min_page_size \<or>
         (start OR end OR sz) AND (chunk_size mm - 1) \<noteq> 0 \<or> mm_size mm < end \<or> range_overflows start sz (mm_size mm)
      then Some (mm, blocks, Inl EINVAL)
      else if start + sz = end then drm_buddy_alloc_range mm start sz blocks
      else if sz AND (min_page_size - 1) \<noteq> 0 then Some (mm, blocks, Inl EINVAL)
      else
        let pages = drop_bit (ilog2 (chunk_size mm)) sz
        in map_option (\<lambda>(mm, r). case r of Inl e \<Rightarrow> (mm, blocks, Inl e) | Inr l \<Rightarrow> (mm, blocks @ l, Inr ()))
             (alloc_blocks_loop (block_picker start end flags)
               (word_of_nat (ilog2 min_page_size - ilog2 (chunk_size mm))) mm pages (fls pages - 1) []))"

end
