(* ===== verification/Buddy_Inv.thy ===== *)
theory Buddy_Inv
  imports Buddy
begin

text \<open>
  The invariant of the buddy allocator and the primitive changes of a state, each of which keeps it:
  handing a free block out, taking a block back, splitting a free block, merging two buddies.
\<close>

section \<open>Headers\<close>

lemma mask_values: "DRM_BUDDY_HEADER_ORDER = mask 6" "DRM_BUDDY_HEADER_OFFSET = NOT (mask 12)"
  by code_simp+

lemma header_set_state:
  assumes "st \<in> {DRM_BUDDY_ALLOCATED, DRM_BUDDY_FREE, DRM_BUDDY_SPLIT}"
  shows "drm_buddy_block_order (set_state st b) = drm_buddy_block_order b"
    "drm_buddy_block_offset (set_state st b) = drm_buddy_block_offset b"
    "drm_buddy_block_state (set_state st b) = st"
    "left (set_state st b) = left b" "right (set_state st b) = right b" "parent (set_state st b) = parent b"
  using assms
  by (auto simp: set_state_def drm_buddy_block_order_def drm_buddy_block_offset_def drm_buddy_block_state_def buddy_masks
      word_ao_dist and.assoc)

lemma header_pointers [simp]:
  "drm_buddy_block_order (b\<lparr>left := l\<rparr>) = drm_buddy_block_order b" "drm_buddy_block_offset (b\<lparr>left := l\<rparr>) = drm_buddy_block_offset b"
  "drm_buddy_block_state (b\<lparr>left := l\<rparr>) = drm_buddy_block_state b"
  "drm_buddy_block_order (b\<lparr>right := l\<rparr>) = drm_buddy_block_order b" "drm_buddy_block_offset (b\<lparr>right := l\<rparr>) = drm_buddy_block_offset b"
  "drm_buddy_block_state (b\<lparr>right := l\<rparr>) = drm_buddy_block_state b"
  "drm_buddy_block_order (b\<lparr>parent := l\<rparr>) = drm_buddy_block_order b" "drm_buddy_block_offset (b\<lparr>parent := l\<rparr>) = drm_buddy_block_offset b"
  "drm_buddy_block_state (b\<lparr>parent := l\<rparr>) = drm_buddy_block_state b"
  by (simp_all add: drm_buddy_block_order_def drm_buddy_block_offset_def drm_buddy_block_state_def)

lemma aligned_and_zero: "unat off mod 4096 = 0 \<Longrightarrow> off AND mask 12 = 0" for off :: u64
  by (simp flip: take_bit_eq_mask add: take_bit_eq_mod word_unat_eq_iff unat_mod)

lemma header_new:
  assumes "unat (off :: u64) mod 4096 = 0" "ord < 64"
    and b_def: "b = \<lparr>header = off OR word_of_nat ord, left = l, right = r, parent = q\<rparr>"
  shows "drm_buddy_block_order b = ord" "drm_buddy_block_offset b = off" "header b AND DRM_BUDDY_HEADER_UNUSED = 0"
    "drm_buddy_block_state b = 0"
proof -
  have z: "off AND mask 12 = 0" by (rule aligned_and_zero [OF assms(1)])
  have o: "word_of_nat ord AND mask 6 = (word_of_nat ord :: u64)"
    using assms(2) by (simp add: mask_eq_iff uint_nat unat_of_nat)
  have zz: "off AND m = 0" if "m AND mask 12 = m" for m
  proof -
    have "off AND m = (off AND mask 12) AND m" using that by (metis and.assoc and.commute)
    then show ?thesis using z by simp
  qed
  have oo: "(word_of_nat ord :: u64) AND m = 0" if "mask 6 AND m = 0" for m
  proof -
    have "(word_of_nat ord :: u64) AND m = (word_of_nat ord AND mask 6) AND m" by (simp only: o)
    then show ?thesis using that by (simp only: and.assoc and_zero_eq)
  qed
  have off: "off AND NOT (mask 12) = off"
  proof -
    have "off = off AND (mask 12 OR NOT (mask 12))" by simp
    also have "\<dots> = (off AND mask 12) OR (off AND NOT (mask 12))" by (simp only: word_ao_dist2)
    finally show ?thesis using z by simp
  qed
  have "off AND mask 6 = 0" by (rule zz) (simp add: mask_eq_exp_minus_1)
  then show "drm_buddy_block_order b = ord"
    using assms(2) o by (simp add: b_def drm_buddy_block_order_def mask_values word_ao_dist unat_of_nat take_bit_eq_mod)
  show "drm_buddy_block_offset b = off"
    using off oo [of "NOT (mask 12)"] by (simp add: b_def drm_buddy_block_offset_def mask_values word_ao_dist mask_eq_exp_minus_1)
  show "header b AND DRM_BUDDY_HEADER_UNUSED = 0" "drm_buddy_block_state b = 0"
    using zz [of DRM_BUDDY_HEADER_UNUSED] oo [of DRM_BUDDY_HEADER_UNUSED] zz [of DRM_BUDDY_HEADER_STATE] oo [of DRM_BUDDY_HEADER_STATE]
    by (simp_all add: b_def drm_buddy_block_state_def buddy_masks word_ao_dist mask_eq_exp_minus_1)
qed

lemma states_distinct [simp]:
  "DRM_BUDDY_ALLOCATED \<noteq> DRM_BUDDY_FREE" "DRM_BUDDY_ALLOCATED \<noteq> DRM_BUDDY_SPLIT" "DRM_BUDDY_FREE \<noteq> DRM_BUDDY_SPLIT"
  "DRM_BUDDY_FREE \<noteq> DRM_BUDDY_ALLOCATED" "DRM_BUDDY_SPLIT \<noteq> DRM_BUDDY_ALLOCATED" "DRM_BUDDY_SPLIT \<noteq> DRM_BUDDY_FREE"
  by (simp_all add: buddy_masks)


section \<open>The invariant\<close>

abbreviation "ord \<equiv> drm_buddy_block_order"
abbreviation "is_free \<equiv> drm_buddy_block_is_free"
abbreviation "is_allocated \<equiv> drm_buddy_block_is_allocated"
abbreviation "is_split \<equiv> drm_buddy_block_is_split"

lemmas buddy_states = drm_buddy_block_is_free_def drm_buddy_block_is_allocated_def drm_buddy_block_is_split_def

definition off :: "block \<Rightarrow> nat" where "off b = unat (drm_buddy_block_offset b)"

definition len :: "buddy \<Rightarrow> block \<Rightarrow> nat" where "len mm b = unat (chunk_size mm) * 2 ^ ord b"

text \<open>The bytes of a block.\<close>

definition ival :: "buddy \<Rightarrow> block \<Rightarrow> nat set" where "ival mm b = {off b ..< off b + len mm b}"

definition geometry :: "buddy \<Rightarrow> bool" where
  "geometry mm \<longleftrightarrow> (\<exists>k. 12 \<le> k \<and> unat (chunk_size mm) = 2 ^ k \<and> max_order mm + k \<le> 63) \<and>
     length (free_list mm) = max_order mm + 1 \<and> unat (mm_size mm) < unat (chunk_size mm) * 2 ^ (max_order mm + 1) \<and>
     unat (chunk_size mm) dvd unat (mm_size mm)"

definition block_ok :: "buddy \<Rightarrow> block \<Rightarrow> bool" where
  "block_ok mm b \<longleftrightarrow> (is_free b \<or> is_allocated b \<or> is_split b) \<and> ord b \<le> max_order mm \<and> off b mod len mm b = 0 \<and>
     off b + len mm b \<le> unat (mm_size mm)"

definition halves :: "buddy \<Rightarrow> block \<Rightarrow> block \<Rightarrow> block \<Rightarrow> bool" where
  "halves mm b bl br \<longleftrightarrow> ord bl = ord br \<and> ord b = Suc (ord bl) \<and> off bl = off b \<and> off br = off b + len mm bl"

definition child_of :: "buddy \<Rightarrow> nat \<Rightarrow> nat \<Rightarrow> bool" where
  "child_of mm p q \<longleftrightarrow> (\<exists>c. slab mm q = Some c \<and> is_split c \<and> (left c = Some p \<or> right c = Some p))"

definition children :: "buddy \<Rightarrow> nat \<Rightarrow> block \<Rightarrow> bool" where
  "children mm p b \<longleftrightarrow> (\<exists>l r bl br. left b = Some l \<and> right b = Some r \<and> l \<noteq> r \<and> slab mm l = Some bl \<and> slab mm r = Some br \<and>
     parent bl = Some p \<and> parent br = Some p \<and> halves mm b bl br)"

definition blocks_ok :: "buddy \<Rightarrow> bool" where
  "blocks_ok mm \<longleftrightarrow> (\<forall>p b. slab mm p = Some b \<longrightarrow> p < slab_next mm \<and> block_ok mm b)"

definition tree_ok :: "buddy \<Rightarrow> bool" where
  "tree_ok mm \<longleftrightarrow> (\<forall>p b. slab mm p = Some b \<longrightarrow> (parent b = None \<longleftrightarrow> p \<in> set (roots mm)) \<and>
     (\<forall>q. parent b = Some q \<longrightarrow> child_of mm p q) \<and> (is_split b \<longrightarrow> children mm p b))"

definition roots_ok :: "buddy \<Rightarrow> bool" where
  "roots_ok mm \<longleftrightarrow> distinct (roots mm) \<and> (\<forall>p\<in>set (roots mm). slab mm p \<noteq> None) \<and>
     (\<Union>p\<in>set (roots mm). ival mm (the (slab mm p))) = {0..<unat (mm_size mm)} \<and>
     (\<forall>p\<in>set (roots mm). \<forall>q\<in>set (roots mm). p \<noteq> q \<longrightarrow> ival mm (the (slab mm p)) \<inter> ival mm (the (slab mm q)) = {})"

definition frees_ok :: "buddy \<Rightarrow> bool" where
  "frees_ok mm \<longleftrightarrow> (\<forall>i\<le>max_order mm. distinct (free_list mm ! i) \<and>
     set (free_list mm ! i) = {p. \<exists>b. slab mm p = Some b \<and> is_free b \<and> ord b = i})"

definition leaves_ok :: "buddy \<Rightarrow> bool" where
  "leaves_ok mm \<longleftrightarrow> (\<forall>p q b c. slab mm p = Some b \<longrightarrow> slab mm q = Some c \<longrightarrow> p \<noteq> q \<longrightarrow> \<not> is_split b \<longrightarrow> \<not> is_split c \<longrightarrow>
     ival mm b \<inter> ival mm c = {})"

definition weight :: "buddy \<Rightarrow> (block \<Rightarrow> bool) \<Rightarrow> nat \<Rightarrow> nat" where
  "weight mm P p = (case slab mm p of None \<Rightarrow> 0 | Some b \<Rightarrow> if P b then len mm b else 0)"

definition total :: "buddy \<Rightarrow> (block \<Rightarrow> bool) \<Rightarrow> nat" where
  "total mm P = sum (weight mm P) {..<slab_next mm}"

definition account_ok :: "buddy \<Rightarrow> bool" where
  "account_ok mm \<longleftrightarrow> total mm is_free = unat (avail mm) \<and> total mm (\<lambda>b. \<not> is_split b) = unat (mm_size mm)"

definition buddy_wf :: "buddy \<Rightarrow> bool" where
  "buddy_wf mm \<longleftrightarrow> geometry mm \<and> blocks_ok mm \<and> tree_ok mm \<and> roots_ok mm \<and> frees_ok mm \<and> leaves_ok mm \<and> account_ok mm"

definition allocated :: "buddy \<Rightarrow> nat set" where
  "allocated mm = {p. \<exists>b. slab mm p = Some b \<and> is_allocated b}"

text \<open>There is memory for every block.\<close>

definition plenty :: "buddy \<Rightarrow> bool" where
  "plenty mm \<longleftrightarrow> (\<forall>n. slab_ok mm n)"

text \<open>What no operation changes after the start.\<close>

definition same_frame :: "buddy \<Rightarrow> buddy \<Rightarrow> bool" where
  "same_frame mm mm' \<longleftrightarrow> chunk_size mm' = chunk_size mm \<and> mm_size mm' = mm_size mm \<and> max_order mm' = max_order mm \<and>
     roots mm' = roots mm \<and> slab_ok mm' = slab_ok mm \<and> n_roots mm' = n_roots mm"

section \<open>Sizes\<close>

lemma len_cong: "chunk_size mm' = chunk_size mm \<Longrightarrow> len mm' b = len mm b"
  by (simp add: len_def)

lemma geometryE:
  assumes "geometry mm"
  obtains k where "12 \<le> k" "unat (chunk_size mm) = 2 ^ k" "max_order mm + k \<le> 63"
  using assms by (auto simp: geometry_def)

lemma len_pos: "geometry mm \<Longrightarrow> 0 < len mm b"
  by (erule geometryE) (simp add: len_def)

lemma len_power: "geometry mm \<Longrightarrow> \<exists>k. 12 \<le> k \<and> k \<le> 63 - max_order mm \<and> len mm b = 2 ^ (k + ord b)"
  by (erule geometryE) (auto simp: len_def power_add)

lemma unat_block_size:
  assumes "geometry mm" "ord b \<le> max_order mm"
  shows "unat (drm_buddy_block_size mm b) = len mm b" "len mm b < 2 ^ 64"
proof -
  obtain k where k: "12 \<le> k" "unat (chunk_size mm) = 2 ^ k" "max_order mm + k \<le> 63" by (rule geometryE [OF assms(1)])
  have "len mm b = 2 ^ (k + ord b)" using k(2) by (simp add: len_def power_add)
  moreover have "(2 :: nat) ^ (k + ord b) < 2 ^ 64" using k(3) assms(2) by (intro power_strict_increasing) auto
  ultimately show l: "len mm b < 2 ^ 64" by simp
  have "drm_buddy_block_size mm b = word_of_nat (len mm b)"
    by (simp add: drm_buddy_block_size_def push_bit_eq_mult len_def)
  then show "unat (drm_buddy_block_size mm b) = len mm b" using l by (simp add: unat_of_nat)
qed

lemma block_ends:
  assumes "geometry mm" "block_ok mm b"
  defines "e \<equiv> drm_buddy_block_offset b + drm_buddy_block_size mm b - 1"
  shows "unat e = off b + len mm b - 1" "unat (drm_buddy_block_offset b) = off b"
proof -
  have s: "unat (drm_buddy_block_size mm b) = len mm b" "0 < len mm b" "off b + len mm b \<le> unat (mm_size mm)"
    using assms(1,2) unat_block_size(1) len_pos by (auto simp: block_ok_def)
  then have "off b + len mm b < 2 ^ 64" using unsigned_less [of "mm_size mm", where 'a = nat] by simp
  then have u: "unat (drm_buddy_block_offset b + drm_buddy_block_size mm b) = off b + len mm b"
    using s(1) by (simp add: off_def unat_word_ariths)
  then have "1 \<le> drm_buddy_block_offset b + drm_buddy_block_size mm b" using s(2) by (simp add: word_le_nat_alt)
  then show "unat e = off b + len mm b - 1" using u by (simp add: e_def unat_sub)
qed (simp add: off_def)

lemma test_values:
  assumes "geometry mm" "block_ok mm b"
  defines "be \<equiv> drm_buddy_block_offset b + drm_buddy_block_size mm b - 1"
  shows "overlaps s e (drm_buddy_block_offset b) be \<longleftrightarrow> unat s < off b + len mm b \<and> off b \<le> unat e"
    "contains s e (drm_buddy_block_offset b) be \<longleftrightarrow> unat s \<le> off b \<and> off b + len mm b \<le> unat e + 1"
  using len_pos [OF assms(1), of b]
  unfolding overlaps_def contains_def word_le_nat_alt block_ends [OF assms(1,2), folded be_def] by auto

lemma range_tests:
  assumes "geometry mm" "block_ok mm b" "unat e = hi - 1" "unat s < hi"
  defines "be \<equiv> drm_buddy_block_offset b + drm_buddy_block_size mm b - 1"
  shows "overlaps s e (drm_buddy_block_offset b) be \<longleftrightarrow> {unat s..<hi} \<inter> ival mm b \<noteq> {}"
    "contains s e (drm_buddy_block_offset b) be \<longleftrightarrow> ival mm b \<subseteq> {unat s..<hi}"
proof -
  note b = block_ends [OF assms(1,2), folded be_def]
  have l: "0 < len mm b" by (rule len_pos [OF assms(1)])
  have "(\<exists>x. unat s \<le> x \<and> x < hi \<and> off b \<le> x \<and> x < off b + len mm b) \<longleftrightarrow> unat s \<le> off b + len mm b - 1 \<and> off b \<le> hi - 1"
    using l assms(4) by (auto intro!: exI [of _ "max (unat s) (off b)"])
  then show "overlaps s e (drm_buddy_block_offset b) be \<longleftrightarrow> {unat s..<hi} \<inter> ival mm b \<noteq> {}"
    unfolding overlaps_def word_le_nat_alt b assms(3) ival_def by auto
  show "contains s e (drm_buddy_block_offset b) be \<longleftrightarrow> ival mm b \<subseteq> {unat s..<hi}"
    unfolding contains_def word_le_nat_alt b assms(3) ival_def using l assms(4) by auto
qed

lemma ival_nonempty: "geometry mm \<Longrightarrow> ival mm b \<noteq> {}"
  using len_pos by (simp add: ival_def)

lemma halves_ival:
  assumes "halves mm b bl br"
  shows "ival mm b = ival mm bl \<union> ival mm br" "ival mm bl \<inter> ival mm br = {}" "len mm bl = len mm br"
    "len mm b = len mm bl + len mm br"
  using assms by (auto simp: halves_def ival_def len_def)

lemma ival_len: "card (ival mm b) = len mm b"
  by (simp add: ival_def)


section \<open>States that differ only in labels\<close>

definition shape :: "block \<Rightarrow> nat \<times> nat \<times> nat option \<times> (nat option \<times> nat option) option" where
  "shape b = (ord b, off b, parent b, if is_split b then Some (left b, right b) else None)"

definition same_shape :: "buddy \<Rightarrow> buddy \<Rightarrow> bool" where
  "same_shape mm mm' \<longleftrightarrow> (\<forall>p. map_option shape (slab mm' p) = map_option shape (slab mm p)) \<and>
     chunk_size mm' = chunk_size mm \<and> mm_size mm' = mm_size mm \<and> roots mm' = roots mm"

lemma shape_simps:
  "shape b = shape c \<longleftrightarrow> ord b = ord c \<and> off b = off c \<and> parent b = parent c \<and> (is_split b \<longleftrightarrow> is_split c) \<and>
     (is_split b \<longrightarrow> left b = left c \<and> right b = right c)"
  by (auto simp: shape_def)

lemma same_shapeD:
  assumes "same_shape mm mm'" "slab mm' p = Some b'"
  obtains b where "slab mm p = Some b" "shape b' = shape b"
  using assms by (cases "slab mm p") (auto simp: same_shape_def dest: spec [of _ p])

lemma same_shape_sym: "same_shape mm mm' \<Longrightarrow> same_shape mm' mm"
  by (simp add: same_shape_def)

lemma shape_ival: "shape b' = shape b \<Longrightarrow> chunk_size mm' = chunk_size mm \<Longrightarrow> ival mm' b' = ival mm b"
  by (simp add: shape_simps ival_def len_def)

lemma same_shape_child_of: "same_shape mm mm' \<Longrightarrow> child_of mm p q \<Longrightarrow> child_of mm' p q"
proof -
  assume s: "same_shape mm mm'" and "child_of mm p q"
  then obtain c where c: "slab mm q = Some c" "is_split c" "left c = Some p \<or> right c = Some p" by (auto simp: child_of_def)
  obtain c' where "slab mm' q = Some c'" "shape c = shape c'" by (rule same_shapeD [OF same_shape_sym [OF s] c(1)])
  then show "child_of mm' p q" using c by (auto simp: child_of_def shape_simps)
qed

lemma same_shape_children:
  assumes s: "same_shape mm mm'" and b: "shape b' = shape b" "is_split b" "children mm p b"
  shows "children mm' p b'"
proof -
  obtain l r bl br where c: "left b = Some l" "right b = Some r" "l \<noteq> r" "slab mm l = Some bl" "slab mm r = Some br"
    "parent bl = Some p" "parent br = Some p" "halves mm b bl br" using b(3) by (auto simp: children_def)
  obtain bl' where l: "slab mm' l = Some bl'" "shape bl = shape bl'" by (rule same_shapeD [OF same_shape_sym [OF s] c(4)])
  obtain br' where r: "slab mm' r = Some br'" "shape br = shape br'" by (rule same_shapeD [OF same_shape_sym [OF s] c(5)])
  have "halves mm' b' bl' br'"
    using c(8) b(1) l(2) r(2) s by (auto simp: halves_def shape_simps same_shape_def len_def)
  then show ?thesis using c b l r by (auto simp: children_def shape_simps)
qed

lemma same_shape_tree:
  assumes s: "same_shape mm mm'" and t: "tree_ok mm"
  shows "tree_ok mm'"
  unfolding tree_ok_def
proof (intro allI impI)
  fix p b' assume "slab mm' p = Some b'"
  then obtain b where b: "slab mm p = Some b" "shape b' = shape b" by (rule same_shapeD [OF s])
  have r: "roots mm' = roots mm" using s by (simp add: same_shape_def)
  show "(parent b' = None \<longleftrightarrow> p \<in> set (roots mm')) \<and> (\<forall>q. parent b' = Some q \<longrightarrow> child_of mm' p q) \<and> (is_split b' \<longrightarrow> children mm' p b')"
    using t b same_shape_child_of [OF s] same_shape_children [OF s b(2)] by (auto simp: tree_ok_def shape_simps r)
qed

lemma same_shape_leaves:
  assumes s: "same_shape mm mm'" and t: "leaves_ok mm"
  shows "leaves_ok mm'"
  unfolding leaves_ok_def
proof (intro allI impI)
  fix p q b' c' assume a: "slab mm' p = Some b'" "slab mm' q = Some c'" "p \<noteq> q" "\<not> is_split b'" "\<not> is_split c'"
  obtain b where b: "slab mm p = Some b" "shape b' = shape b" by (rule same_shapeD [OF s a(1)])
  obtain c where c: "slab mm q = Some c" "shape c' = shape c" by (rule same_shapeD [OF s a(2)])
  have e: "chunk_size mm' = chunk_size mm" using s by (simp add: same_shape_def)
  show "ival mm' b' \<inter> ival mm' c' = {}"
    using t a b c unfolding shape_ival [OF b(2) e] shape_ival [OF c(2) e] by (auto simp: leaves_ok_def shape_simps)
qed

lemma same_shape_roots:
  assumes s: "same_shape mm mm'" and t: "roots_ok mm"
  shows "roots_ok mm'"
proof -
  have e: "chunk_size mm' = chunk_size mm" "roots mm' = roots mm" "mm_size mm' = mm_size mm" using s by (simp_all add: same_shape_def)
  have "slab mm' p \<noteq> None \<and> ival mm' (the (slab mm' p)) = ival mm (the (slab mm p))" if p: "p \<in> set (roots mm)" for p
  proof -
    obtain b where b: "slab mm p = Some b" using t p by (auto simp: roots_ok_def)
    obtain b' where "slab mm' p = Some b'" "shape b = shape b'" by (rule same_shapeD [OF same_shape_sym [OF s] b])
    then show ?thesis using b shape_ival [of b' b mm' mm] e by simp
  qed
  then show ?thesis using t unfolding roots_ok_def e by simp
qed

section \<open>Totals\<close>

lemma total_change:
  assumes "\<And>p. p \<notin> D \<Longrightarrow> slab mm' p = slab mm p" "finite D" "chunk_size mm' = chunk_size mm"
    "\<And>p b. slab mm p = Some b \<Longrightarrow> p < slab_next mm" "\<And>p b. slab mm' p = Some b \<Longrightarrow> p < slab_next mm'"
  shows "total mm' P + sum (weight mm P) D = total mm P + sum (weight mm' P) D"
proof -
  define A where "A = {..<slab_next mm} \<union> {..<slab_next mm'} \<union> D"
  have fin: "finite A" "D \<subseteq> A" using assms(2) by (auto simp: A_def)
  have t: "total mm Q = sum (weight mm Q) A" for Q
    unfolding total_def by (rule sum.mono_neutral_left) (use assms(2,4) in \<open>auto simp: A_def weight_def split: option.splits\<close>)
  have t': "total mm' Q = sum (weight mm' Q) A" for Q
    unfolding total_def by (rule sum.mono_neutral_left) (use assms(2,5) in \<open>auto simp: A_def weight_def split: option.splits\<close>)
  have "sum (weight mm' P) (A - D) = sum (weight mm P) (A - D)"
    by (rule sum.cong) (auto simp: weight_def assms(1) len_def assms(3) split: option.splits)
  then show ?thesis
    unfolding t t' using sum.subset_diff [OF fin(2,1), of "weight mm P"] sum.subset_diff [OF fin(2,1), of "weight mm' P"] by simp
qed

lemma weight_Some: "slab mm p = Some b \<Longrightarrow> weight mm P p = (if P b then len mm b else 0)"
  by (simp add: weight_def)

lemma weight_None: "slab mm p = None \<Longrightarrow> weight mm P p = 0"
  by (simp add: weight_def)

lemma total_ge: "slab mm p = Some b \<Longrightarrow> p < slab_next mm \<Longrightarrow> P b \<Longrightarrow> len mm b \<le> total mm P"
  unfolding total_def using member_le_sum [of p "{..<slab_next mm}" "weight mm P"] by (simp add: weight_def)

lemma total_split: "total mm (\<lambda>b. P b \<or> Q b) = total mm P + total mm Q" if "\<And>b. \<not> (P b \<and> Q b)"
  unfolding total_def sum.distrib [symmetric] by (rule sum.cong) (use that in \<open>auto simp: weight_def split: option.splits\<close>)

end
