(* ===== verification/Buddy_Steps.thy ===== *)
theory Buddy_Steps
  imports Buddy_Inv
begin

text \<open>
  The primitive changes of the state of the buddy allocator, with the state each leads to, and the
  proofs that each keeps the invariant: a block is handed out, a block is taken back, a free block is
  split, two buddies are merged.
\<close>

section \<open>Facts of a well-formed state\<close>

lemma wf_block:
  assumes "buddy_wf mm" "slab mm p = Some b"
  shows "p < slab_next mm" "block_ok mm b" "geometry mm" "ord b \<le> max_order mm"
  using assms by (auto simp: buddy_wf_def blocks_ok_def block_ok_def)

lemma wf_fresh: "buddy_wf mm \<Longrightarrow> slab_next mm \<le> p \<Longrightarrow> slab mm p = None"
  by (cases "slab mm p") (auto dest: wf_block)

lemma wf_root_dom: "buddy_wf mm \<Longrightarrow> p \<in> set (roots mm) \<Longrightarrow> slab mm p \<noteq> None"
  by (auto simp: buddy_wf_def roots_ok_def)

lemma wf_free_list:
  assumes "buddy_wf mm" "i \<le> max_order mm"
  shows "i < length (free_list mm)" "distinct (free_list mm ! i)"
    "p \<in> set (free_list mm ! i) \<longleftrightarrow> (\<exists>b. slab mm p = Some b \<and> is_free b \<and> ord b = i)"
  using assms by (auto simp: buddy_wf_def geometry_def frees_ok_def)

lemma state_exclusive:
  "is_free b \<Longrightarrow> \<not> is_allocated b" "is_free b \<Longrightarrow> \<not> is_split b" "is_allocated b \<Longrightarrow> \<not> is_split b"
  "is_allocated b \<Longrightarrow> \<not> is_free b" "is_split b \<Longrightarrow> \<not> is_free b" "is_split b \<Longrightarrow> \<not> is_allocated b"
  by (auto simp: buddy_states)

lemma wf_avail:
  assumes "buddy_wf mm" "slab mm p = Some b"
  shows "is_free b \<Longrightarrow> len mm b \<le> unat (avail mm)"
    "is_allocated b \<Longrightarrow> unat (avail mm) + len mm b \<le> unat (mm_size mm)"
proof -
  have a: "total mm is_free = unat (avail mm)" "total mm (\<lambda>b. \<not> is_split b) = unat (mm_size mm)"
    using assms(1) by (auto simp: buddy_wf_def account_ok_def)
  show "is_free b \<Longrightarrow> len mm b \<le> unat (avail mm)"
    using total_ge [of mm p b is_free] wf_block(1) [OF assms] assms(2) a by simp
  have "total mm (\<lambda>b. is_free b \<or> is_allocated b) = total mm is_free + total mm is_allocated"
    by (rule total_split) (auto dest: state_exclusive)
  moreover have "total mm (\<lambda>b. is_free b \<or> is_allocated b) \<le> total mm (\<lambda>b. \<not> is_split b)"
    unfolding total_def by (rule sum_mono) (auto simp: weight_def dest: state_exclusive split: option.splits)
  ultimately show "unat (avail mm) + len mm b \<le> unat (mm_size mm)" if "is_allocated b"
    using total_ge [of mm p b is_allocated] wf_block(1) [OF assms] assms(2) a that by simp
qed

lemma set_state_simps [simp]:
  "ord (set_state DRM_BUDDY_ALLOCATED b) = ord b" "ord (set_state DRM_BUDDY_FREE b) = ord b" "ord (set_state DRM_BUDDY_SPLIT b) = ord b"
  "off (set_state DRM_BUDDY_ALLOCATED b) = off b" "off (set_state DRM_BUDDY_FREE b) = off b" "off (set_state DRM_BUDDY_SPLIT b) = off b"
  "is_allocated (set_state DRM_BUDDY_ALLOCATED b)" "is_free (set_state DRM_BUDDY_FREE b)" "is_split (set_state DRM_BUDDY_SPLIT b)"
  "\<not> is_free (set_state DRM_BUDDY_ALLOCATED b)" "\<not> is_split (set_state DRM_BUDDY_ALLOCATED b)"
  "\<not> is_allocated (set_state DRM_BUDDY_FREE b)" "\<not> is_split (set_state DRM_BUDDY_FREE b)"
  "\<not> is_free (set_state DRM_BUDDY_SPLIT b)" "\<not> is_allocated (set_state DRM_BUDDY_SPLIT b)"
  by (simp_all add: header_set_state off_def buddy_states)

lemma set_state_pointers [simp]:
  "left (set_state st b) = left b" "right (set_state st b) = right b" "parent (set_state st b) = parent b"
  by (simp_all add: set_state_def)

lemma frame_cong:
  assumes "same_frame mm mm'"
  shows "len mm' b = len mm b" "ival mm' b = ival mm b" "block_ok mm' b = block_ok mm b" "drm_buddy_block_size mm' b = drm_buddy_block_size mm b"
    "halves mm' b = halves mm b"
  using assms
  by (auto simp: same_frame_def len_def ival_def block_ok_def drm_buddy_block_size_def halves_def fun_eq_iff)

lemma same_frame_refl [simp]: "same_frame mm mm"
  by (simp add: same_frame_def)

lemma same_frame_trans: "same_frame m1 m2 \<Longrightarrow> same_frame m2 m3 \<Longrightarrow> same_frame m1 m3"
  by (simp add: same_frame_def)

section \<open>Handing out and taking back\<close>

definition handed :: "buddy \<Rightarrow> nat \<Rightarrow> block \<Rightarrow> buddy" where
  "handed mm p b = mm\<lparr>slab := (slab mm)(p \<mapsto> set_state DRM_BUDDY_ALLOCATED b),
     free_list := (free_list mm)[ord b := remove1 p (free_list mm ! ord b)], avail := avail mm - drm_buddy_block_size mm b\<rparr>"

definition returned :: "buddy \<Rightarrow> nat \<Rightarrow> block \<Rightarrow> buddy" where
  "returned mm p b = mm\<lparr>slab := (slab mm)(p \<mapsto> set_state DRM_BUDDY_FREE b),
     free_list := (free_list mm)[ord b := p # free_list mm ! ord b], avail := avail mm + drm_buddy_block_size mm b\<rparr>"

lemma mark_allocated_handed:
  assumes "buddy_wf mm" "slab mm p = Some b" "is_free b"
  shows "mark_allocated mm p = Some ((handed mm p b)\<lparr>avail := avail mm\<rparr>)"
proof -
  have "ord b < length (free_list mm)" "p \<in> set (free_list mm ! ord b)"
    using wf_free_list [OF assms(1) wf_block(4) [OF assms(1,2)]] assms(2,3) by auto
  then show ?thesis
    using assms(2) by (simp add: mark_allocated_def free_list_del_def list_del_def set_block_def buf_get_def handed_def)
qed

lemma mark_free_returned:
  assumes "ord b < length (free_list mm)" "slab mm p = Some b" "p \<notin> set (free_list mm ! ord b)"
  shows "mark_free mm p = Some ((returned mm p b)\<lparr>avail := avail mm\<rparr>)"
  using assms by (simp add: mark_free_def free_list_add_def set_block_def buf_get_def returned_def)

lemma relabel_wf:
  assumes wf: "buddy_wf mm" and b: "slab mm p = Some b" "shape b' = shape b" "block_ok mm b'"
    and m: "same_frame mm m" "slab m = (slab mm)(p \<mapsto> b')" "slab_next mm \<le> slab_next m" "length (free_list m) = length (free_list mm)"
    and f: "frees_ok m"
    and a: "unat (avail m) + weight mm is_free p = unat (avail mm) + weight m is_free p"
  shows "buddy_wf m"
proof -
  note fr = frame_cong [OF m(1)]
  have "same_shape mm m" using b m(1) by (simp add: same_shape_def m(2) same_frame_def)
  then have s: "tree_ok m" "roots_ok m" "leaves_ok m"
    using wf same_shape_tree same_shape_roots same_shape_leaves by (auto simp: buddy_wf_def)
  have g: "geometry m" using wf m(1,4) by (simp add: buddy_wf_def geometry_def same_frame_def)
  have bl: "blocks_ok m"
    unfolding blocks_ok_def fr m(2) using wf_block(1,2) [OF wf] b(1,3) m(3)
    by (auto split: if_splits intro: order.strict_trans2)
  have t: "total m P + weight mm P p = total mm P + weight m P p" for P
    using total_change [of "{p}" m mm P] m bl wf_block(1) [OF wf] by (simp add: blocks_ok_def same_frame_def)
  have "account_ok m"
    using t [of is_free] t [of "\<lambda>b. \<not> is_split b"] a wf b fr(1) m(1)
    by (simp add: account_ok_def buddy_wf_def weight_def m(2) shape_simps same_frame_def len_def split: if_splits)
  then show ?thesis using s g bl f by (simp add: buddy_wf_def)
qed

lemma handed_wf:
  assumes wf: "buddy_wf mm" and b: "slab mm p = Some b" "is_free b"
  shows "buddy_wf (handed mm p b)" "same_frame mm (handed mm p b)" "allocated (handed mm p b) = insert p (allocated mm)"
    "unat (avail (handed mm p b)) = unat (avail mm) - len mm b"
proof -
  have s: "unat (drm_buddy_block_size mm b) = len mm b" by (rule unat_block_size(1) [OF wf_block(3,4) [OF wf b(1)]])
  have l: "len mm b \<le> unat (avail mm)" by (rule wf_avail(1) [OF wf b])
  show fr: "same_frame mm (handed mm p b)" by (simp add: same_frame_def handed_def)
  show av: "unat (avail (handed mm p b)) = unat (avail mm) - len mm b"
    using s l by (simp add: handed_def unat_sub word_le_nat_alt)
  show "allocated (handed mm p b) = insert p (allocated mm)" by (auto simp: allocated_def handed_def)
  have f: "frees_ok (handed mm p b)"
    unfolding frees_ok_def
  proof (intro allI impI)
    fix i assume "i \<le> max_order (handed mm p b)"
    then have i: "i \<le> max_order mm" by (simp add: handed_def)
    note fl = wf_free_list [OF wf i]
    have "ord b < length (free_list mm)" using wf_free_list(1) [OF wf wf_block(4) [OF wf b(1)]] .
    then have e: "free_list (handed mm p b) ! i = (if i = ord b then remove1 p (free_list mm ! i) else free_list mm ! i)"
      by (simp add: handed_def nth_list_update)
    show "distinct (free_list (handed mm p b) ! i) \<and> set (free_list (handed mm p b) ! i) =
        {q. \<exists>c. slab (handed mm p b) q = Some c \<and> is_free c \<and> ord c = i}"
      unfolding e using fl b by (auto simp: handed_def)
  qed
  show "buddy_wf (handed mm p b)"
    by (rule relabel_wf [where p = p, OF wf b(1) _ _ fr _ _ _ f])
      (use wf_block(2) [OF wf b(1)] b s l av in \<open>auto simp: shape_simps block_ok_def len_def handed_def weight_def dest: state_exclusive\<close>)
qed

lemma returned_wf:
  assumes wf: "buddy_wf mm" and b: "slab mm p = Some b" "is_allocated b"
  shows "buddy_wf (returned mm p b)" "same_frame mm (returned mm p b)" "allocated (returned mm p b) = allocated mm - {p}"
    "unat (avail (returned mm p b)) = unat (avail mm) + len mm b"
proof -
  have s: "unat (drm_buddy_block_size mm b) = len mm b" by (rule unat_block_size(1) [OF wf_block(3,4) [OF wf b(1)]])
  have l: "unat (avail mm) + len mm b < 2 ^ 64"
    using wf_avail(2) [OF wf b] unsigned_less [of "mm_size mm", where 'a = nat] by simp
  show fr: "same_frame mm (returned mm p b)" by (simp add: same_frame_def returned_def)
  show av: "unat (avail (returned mm p b)) = unat (avail mm) + len mm b"
    using s l by (simp add: returned_def unat_word_ariths)
  show "allocated (returned mm p b) = allocated mm - {p}" by (auto simp: allocated_def returned_def split: if_splits)
  have f: "frees_ok (returned mm p b)"
    unfolding frees_ok_def
  proof (intro allI impI)
    fix i assume "i \<le> max_order (returned mm p b)"
    then have i: "i \<le> max_order mm" by (simp add: returned_def)
    note fl = wf_free_list [OF wf i]
    have "ord b < length (free_list mm)" using wf_free_list(1) [OF wf wf_block(4) [OF wf b(1)]] .
    then have e: "free_list (returned mm p b) ! i = (if i = ord b then p # free_list mm ! i else free_list mm ! i)"
      by (simp add: returned_def nth_list_update)
    show "distinct (free_list (returned mm p b) ! i) \<and> set (free_list (returned mm p b) ! i) =
        {q. \<exists>c. slab (returned mm p b) q = Some c \<and> is_free c \<and> ord c = i}"
      unfolding e using fl b by (auto simp: returned_def dest: state_exclusive)
  qed
  show "buddy_wf (returned mm p b)"
    by (rule relabel_wf [where p = p, OF wf b(1) _ _ fr _ _ _ f])
      (use wf_block(2) [OF wf b(1)] b s l av in \<open>auto simp: shape_simps block_ok_def len_def returned_def weight_def dest: state_exclusive\<close>)
qed

section \<open>Splitting and merging, seen from the tree\<close>

text \<open>\<open>mm'\<close> is \<open>mm\<close> with the leaf \<open>p\<close> split into the new leaves \<open>l\<close> and \<open>r\<close>.\<close>

definition split_rel :: "buddy \<Rightarrow> buddy \<Rightarrow> nat \<Rightarrow> nat \<Rightarrow> nat \<Rightarrow> block \<Rightarrow> block \<Rightarrow> block \<Rightarrow> block \<Rightarrow> bool" where
  "split_rel mm mm' p l r b b' bl br \<longleftrightarrow> l \<noteq> r \<and> l \<noteq> p \<and> r \<noteq> p \<and> slab mm l = None \<and> slab mm r = None \<and>
     slab mm p = Some b \<and> slab mm' p = Some b' \<and> slab mm' l = Some bl \<and> slab mm' r = Some br \<and>
     \<not> is_split b \<and> is_split b' \<and> \<not> is_split bl \<and> \<not> is_split br \<and> left b' = Some l \<and> right b' = Some r \<and> parent b' = parent b \<and>
     ord b' = ord b \<and> off b' = off b \<and> parent bl = Some p \<and> parent br = Some p \<and> halves mm b' bl br \<and>
     (\<forall>q. q \<notin> {p, l, r} \<longrightarrow> slab mm' q = slab mm q) \<and>
     chunk_size mm' = chunk_size mm \<and> mm_size mm' = mm_size mm \<and> roots mm' = roots mm"

lemma split_rel_frame:
  assumes "split_rel mm mm' p l r b b' bl br"
  shows "len mm' c = len mm c" "ival mm' c = ival mm c" "halves mm' = halves mm"
  using assms by (auto simp: split_rel_def len_def ival_def halves_def fun_eq_iff)

lemma split_rel_ival:
  assumes "split_rel mm mm' p l r b b' bl br"
  shows "ival mm b' = ival mm b" "ival mm b = ival mm bl \<union> ival mm br" "ival mm bl \<inter> ival mm br = {}"
    "len mm b = len mm bl + len mm br"
proof -
  have h: "halves mm b' bl br" "ord b' = ord b" "off b' = off b" using assms by (auto simp: split_rel_def)
  show "ival mm b' = ival mm b" using h(2,3) by (simp add: ival_def len_def)
  then show "ival mm b = ival mm bl \<union> ival mm br" "ival mm bl \<inter> ival mm br = {}" "len mm b = len mm bl + len mm br"
    using halves_ival [OF h(1)] h(2) by (auto simp: len_def)
qed

lemma split_rel_child_of:
  assumes s: "split_rel mm mm' p l r b b' bl br"
  shows "child_of mm q x \<Longrightarrow> child_of mm' q x" "child_of mm' q x \<Longrightarrow> q \<noteq> l \<Longrightarrow> q \<noteq> r \<Longrightarrow> child_of mm q x"
proof -
  show "child_of mm' q x" if "child_of mm q x"
  proof -
    obtain c where c: "slab mm x = Some c" "is_split c" "left c = Some q \<or> right c = Some q" using \<open>child_of mm q x\<close> by (auto simp: child_of_def)
    then have "x \<notin> {p, l, r}" using s by (auto simp: split_rel_def)
    then have "slab mm' x = Some c" using s c(1) by (auto simp: split_rel_def)
    then show ?thesis using c by (auto simp: child_of_def)
  qed
  show "child_of mm q x" if "child_of mm' q x" "q \<noteq> l" "q \<noteq> r"
  proof -
    obtain c where c: "slab mm' x = Some c" "is_split c" "left c = Some q \<or> right c = Some q" using \<open>child_of mm' q x\<close> by (auto simp: child_of_def)
    then have "x \<notin> {p, l, r}" using s \<open>q \<noteq> l\<close> \<open>q \<noteq> r\<close> by (auto simp: split_rel_def)
    then have "slab mm x = Some c" using s c(1) by (auto simp: split_rel_def)
    then show ?thesis using c by (auto simp: child_of_def)
  qed
qed

lemma split_rel_children:
  assumes s: "split_rel mm mm' p l r b b' bl br" and q: "q \<noteq> p"
  shows "children mm q c \<Longrightarrow> children mm' q c" "children mm' q c \<Longrightarrow> children mm q c"
proof -
  show "children mm' q c" if "children mm q c"
  proof -
    obtain x y bx by' where c: "left c = Some x" "right c = Some y" "x \<noteq> y" "slab mm x = Some bx" "slab mm y = Some by'"
      "parent bx = Some q" "parent by' = Some q" "halves mm c bx by'" using \<open>children mm q c\<close> by (auto simp: children_def)
    have n: "x \<noteq> l" "x \<noteq> r" "y \<noteq> l" "y \<noteq> r" using c s by (auto simp: split_rel_def)
    have "slab mm' x = Some (if x = p then b' else bx)" "slab mm' y = Some (if y = p then b' else by')"
      using n c(4,5) s by (auto simp: split_rel_def)
    moreover have "bx = b" if "x = p" using that c(4) s by (simp add: split_rel_def)
    moreover have "by' = b" if "y = p" using that c(5) s by (simp add: split_rel_def)
    ultimately show ?thesis
      using c s unfolding children_def split_rel_frame(3) [OF s] by (auto simp: split_rel_def halves_def len_def)
  qed
  show "children mm q c" if "children mm' q c"
  proof -
    obtain x y bx by' where c: "left c = Some x" "right c = Some y" "x \<noteq> y" "slab mm' x = Some bx" "slab mm' y = Some by'"
      "parent bx = Some q" "parent by' = Some q" "halves mm' c bx by'" using \<open>children mm' q c\<close> by (auto simp: children_def)
    have n: "x \<noteq> l" "x \<noteq> r" "y \<noteq> l" "y \<noteq> r" using c s q by (auto simp: split_rel_def)
    have "slab mm x = Some (if x = p then b else bx)" "slab mm y = Some (if y = p then b else by')"
      using n c(4,5) s by (auto simp: split_rel_def)
    moreover have "bx = b'" if "x = p" using that c(4) s by (simp add: split_rel_def)
    moreover have "by' = b'" if "y = p" using that c(5) s by (simp add: split_rel_def)
    ultimately show ?thesis
      using c s unfolding children_def split_rel_frame(3) [OF s] by (auto simp: split_rel_def halves_def len_def)
  qed
qed

lemma split_rel_tree:
  assumes s: "split_rel mm mm' p l r b b' bl br" and t: "tree_ok mm" and ro: "l \<notin> set (roots mm)" "r \<notin> set (roots mm)"
  shows "tree_ok mm'"
  unfolding tree_ok_def
proof (intro allI impI)
  fix q c assume c: "slab mm' q = Some c"
  have e: "roots mm' = roots mm" using s by (simp add: split_rel_def)
  have pc: "children mm' p b'" and lc: "child_of mm' l p" "child_of mm' r p"
    using s split_rel_frame(3) [OF s] by (auto simp: children_def child_of_def split_rel_def)
  have tb: "slab mm p = Some b" "parent b = None \<longleftrightarrow> p \<in> set (roots mm)" "\<And>x. parent b = Some x \<Longrightarrow> child_of mm p x"
    using t s by (auto simp: tree_ok_def split_rel_def)
  consider "q = p" | "q = l" | "q = r" | "q \<notin> {p, l, r}" by blast
  then show "(parent c = None \<longleftrightarrow> q \<in> set (roots mm')) \<and> (\<forall>x. parent c = Some x \<longrightarrow> child_of mm' q x) \<and> (is_split c \<longrightarrow> children mm' q c)"
  proof cases
    case 1
    have "c = b'" "parent b' = parent b" using c s 1 by (auto simp: split_rel_def)
    then show ?thesis using 1 tb pc split_rel_child_of(1) [OF s] e by simp
  next
    case 4
    then have "slab mm q = Some c" using c s by (auto simp: split_rel_def)
    then show ?thesis
      using t 4 split_rel_child_of(1) [OF s] split_rel_children(1) [OF s] unfolding e by (auto simp: tree_ok_def)
  qed (use c s lc ro e in \<open>auto simp: split_rel_def\<close>)
qed

lemma split_rel_tree_back:
  assumes s: "split_rel mm mm' p l r b b' bl br" and t: "tree_ok mm'"
  shows "tree_ok mm"
  unfolding tree_ok_def
proof (intro allI impI)
  fix q c assume c: "slab mm q = Some c"
  have e: "roots mm' = roots mm" using s by (simp add: split_rel_def)
  have n: "q \<noteq> l" "q \<noteq> r" using c s by (auto simp: split_rel_def)
  show "(parent c = None \<longleftrightarrow> q \<in> set (roots mm)) \<and> (\<forall>x. parent c = Some x \<longrightarrow> child_of mm q x) \<and> (is_split c \<longrightarrow> children mm q c)"
  proof (cases "q = p")
    case True
    then have b: "c = b" "slab mm' q = Some b'" "parent b' = parent b" "\<not> is_split b" using c s by (auto simp: split_rel_def)
    then have "(parent b' = None \<longleftrightarrow> q \<in> set (roots mm')) \<and> (\<forall>x. parent b' = Some x \<longrightarrow> child_of mm' q x)"
      using t unfolding tree_ok_def by blast
    then show ?thesis using b n split_rel_child_of(2) [OF s] e by auto
  next
    case False
    then have "slab mm' q = Some c" using c s n by (auto simp: split_rel_def)
    then show ?thesis
      using t n False split_rel_child_of(2) [OF s] split_rel_children(2) [OF s] e by (auto simp: tree_ok_def)
  qed
qed

lemma split_rel_leaves:
  assumes s: "split_rel mm mm' p l r b b' bl br" and t: "leaves_ok mm"
  shows "leaves_ok mm'"
  unfolding leaves_ok_def
proof (intro allI impI)
  fix q x c d assume a: "slab mm' q = Some c" "slab mm' x = Some d" "q \<noteq> x" "\<not> is_split c" "\<not> is_split d"
  note i = split_rel_ival [OF s] and f = split_rel_frame [OF s]
  have old: "(\<exists>q' c'. slab mm q' = Some c' \<and> \<not> is_split c' \<and> ival mm c \<subseteq> ival mm c' \<and> (q' = q \<or> q' = p \<and> q \<in> {l, r}))"
    if "slab mm' q = Some c" "\<not> is_split c" for q c
  proof (cases "q \<in> {l, r}")
    case True
    then show ?thesis using that s i(2) by (intro exI [of _ p] exI [of _ b]) (auto simp: split_rel_def)
  next
    case False
    then have "q \<noteq> p" using that s by (auto simp: split_rel_def)
    then show ?thesis using False that s by (intro exI [of _ q] exI [of _ c]) (auto simp: split_rel_def)
  qed
  obtain q' c' where q': "slab mm q' = Some c'" "\<not> is_split c'" "ival mm c \<subseteq> ival mm c'" "q' = q \<or> q' = p \<and> q \<in> {l, r}"
    using old [OF a(1,4)] by blast
  obtain x' d' where x': "slab mm x' = Some d'" "\<not> is_split d'" "ival mm d \<subseteq> ival mm d'" "x' = x \<or> x' = p \<and> x \<in> {l, r}"
    using old [OF a(2,5)] by blast
  show "ival mm' c \<inter> ival mm' d = {}"
  proof (cases "q' = x'")
    case True
    have "q \<noteq> p" "x \<noteq> p" using a s by (auto simp: split_rel_def)
    then have "{q, x} = {l, r}" using True q'(4) x'(4) a(3) by auto
    then show ?thesis using i(3) a s unfolding f by (auto simp: split_rel_def doubleton_eq_iff)
  next
    case False
    then have "ival mm c' \<inter> ival mm d' = {}" using t q' x' by (auto simp: leaves_ok_def)
    then show ?thesis using q'(3) x'(3) unfolding f by blast
  qed
qed

lemma split_rel_leaves_back:
  assumes s: "split_rel mm mm' p l r b b' bl br" and t: "leaves_ok mm'"
  shows "leaves_ok mm"
  unfolding leaves_ok_def
proof (intro allI impI)
  fix q x c d assume a: "slab mm q = Some c" "slab mm x = Some d" "q \<noteq> x" "\<not> is_split c" "\<not> is_split d"
  note i = split_rel_ival [OF s] and f = split_rel_frame [OF s]
  have two: "ival mm c \<inter> ival mm d = {}" if "slab mm' q = Some c" "slab mm' x = Some d" "q \<noteq> x" "\<not> is_split c" "\<not> is_split d" for q x c d
    using t that unfolding leaves_ok_def f by blast
  have same: "slab mm' q = Some c" "q \<noteq> l" "q \<noteq> r" if "slab mm q = Some c" "q \<noteq> p" for q c
    using that s by (auto simp: split_rel_def)
  have new: "slab mm' l = Some bl" "slab mm' r = Some br" "\<not> is_split bl" "\<not> is_split br" "slab mm p = Some b"
    using s by (auto simp: split_rel_def)
  have one: "ival mm b \<inter> ival mm d = {}" if d: "slab mm x = Some d" "x \<noteq> p" "\<not> is_split d" for x d
  proof -
    note sx = same [OF d(1,2)]
    show ?thesis
      using two [OF new(1) sx(1) _ new(3) d(3)] two [OF new(2) sx(1) _ new(4) d(3)] sx(2,3) unfolding i(2) by blast
  qed
  consider "q = p" | "x = p" | "q \<noteq> p" "x \<noteq> p" by blast
  then show "ival mm c \<inter> ival mm d = {}"
  proof cases
    case 1
    then have "c = b" "x \<noteq> p" using a(1,3) new(5) by auto
    then show ?thesis using one [OF a(2) _ a(5)] by simp
  next
    case 2
    then have "d = b" "q \<noteq> p" using a(2,3) new(5) by auto
    then show ?thesis using one [OF a(1) _ a(4)] by (simp add: Int_commute)
  next
    case 3
    then show ?thesis using two [OF same(1) [OF a(1)] same(1) [OF a(2)] a(3-5)] by simp
  qed
qed

lemma split_rel_root:
  assumes s: "split_rel mm mm' p l r b b' bl br" and q: "q \<noteq> l" "q \<noteq> r"
  shows "slab mm' q \<noteq> None \<longleftrightarrow> slab mm q \<noteq> None" "slab mm q \<noteq> None \<Longrightarrow> ival mm (the (slab mm' q)) = ival mm (the (slab mm q))"
  using assms split_rel_ival(1) [OF s] by (cases "q = p"; auto simp: split_rel_def)+

lemma split_rel_roots:
  assumes s: "split_rel mm mm' p l r b b' bl br" and ro: "l \<notin> set (roots mm)" "r \<notin> set (roots mm)"
  shows "roots_ok mm' \<longleftrightarrow> roots_ok mm"
proof -
  have e: "roots mm' = roots mm" "mm_size mm' = mm_size mm" using s by (simp_all add: split_rel_def)
  have r: "slab mm' q \<noteq> None \<longleftrightarrow> slab mm q \<noteq> None" "slab mm q \<noteq> None \<Longrightarrow> ival mm (the (slab mm' q)) = ival mm (the (slab mm q))"
    if "q \<in> set (roots mm)" for q
    using split_rel_root [OF s, of q] that ro by auto
  show ?thesis
  proof (cases "\<forall>q\<in>set (roots mm). slab mm q \<noteq> None")
    case True
    then have "\<forall>q\<in>set (roots mm). slab mm' q \<noteq> None \<and> ival mm (the (slab mm' q)) = ival mm (the (slab mm q))" using r by blast
    then show ?thesis using True unfolding roots_ok_def e split_rel_frame(2) [OF s] by simp
  next
    case False
    then have "\<not> (\<forall>q\<in>set (roots mm). slab mm' q \<noteq> None)" using r(1) by blast
    then show ?thesis using False unfolding roots_ok_def e by blast
  qed
qed

section \<open>Splitting a block\<close>

definition new_block :: "u64 \<Rightarrow> nat \<Rightarrow> nat \<Rightarrow> block" where
  "new_block offset n p = set_state DRM_BUDDY_FREE \<lparr>header = offset OR word_of_nat n, left = None, right = None, parent = Some p\<rparr>"

definition splitted :: "buddy \<Rightarrow> nat \<Rightarrow> block \<Rightarrow> buddy" where
  "splitted mm p b =
     (let n = ord b - 1; l = slab_next mm; r = slab_next mm + 1
      in mm\<lparr>slab := (slab mm)
            (p \<mapsto> set_state DRM_BUDDY_SPLIT (b\<lparr>left := Some l, right := Some r\<rparr>),
             l \<mapsto> new_block (drm_buddy_block_offset b) n p,
             r \<mapsto> new_block (drm_buddy_block_offset b + push_bit n (chunk_size mm)) n p),
           free_list := (free_list mm)[n := r # l # free_list mm ! n, ord b := remove1 p (free_list mm ! ord b)],
           slab_next := slab_next mm + 2\<rparr>)"

lemma new_block_facts:
  assumes "unat offset mod 4096 = 0" "n < 64"
  shows "ord (new_block offset n p) = n" "off (new_block offset n p) = unat offset" "is_free (new_block offset n p)"
    "parent (new_block offset n p) = Some p" "(offset OR word_of_nat n) AND DRM_BUDDY_HEADER_UNUSED = 0"
  using header_new [OF assms refl] by (simp_all add: new_block_def) (simp add: off_def)

lemma half_offsets:
  assumes wf: "buddy_wf mm" and b: "slab mm p = Some b" "ord b \<noteq> 0"
  shows "unat (drm_buddy_block_offset b) mod 4096 = 0" "unat (drm_buddy_block_offset b) = off b" "ord b - 1 < 64" "ord b - 1 \<le> DRM_BUDDY_MAX_ORDER"
    "unat (drm_buddy_block_offset b + push_bit (ord b - 1) (chunk_size mm)) = off b + unat (chunk_size mm) * 2 ^ (ord b - 1)"
    "unat (drm_buddy_block_offset b + push_bit (ord b - 1) (chunk_size mm)) mod 4096 = 0"
proof -
  let ?h = "unat (chunk_size mm) * 2 ^ (ord b - 1)"
  obtain k where k: "12 \<le> k" "unat (chunk_size mm) = 2 ^ k" "max_order mm + k \<le> 63" by (rule geometryE [OF wf_block(3) [OF wf b(1)]])
  have bo: "ord b \<le> max_order mm" "off b mod len mm b = 0" "off b + len mm b \<le> unat (mm_size mm)"
    using wf_block(2) [OF wf b(1)] by (auto simp: block_ok_def)
  have l: "len mm b = 2 * ?h" using b(2) by (simp add: len_def power_eq_if)
  have d: "4096 dvd ?h" using k(1) by (simp add: k(2) flip: power_add) (rule dvd_trans [OF _ le_imp_power_dvd [of 12]], auto)
  then have "4096 dvd len mm b" by (simp add: l)
  then have m: "off b mod 4096 = 0" using bo(2) by (metis dvd_eq_mod_eq_0 dvd_trans)
  show u: "unat (drm_buddy_block_offset b) = off b" by (simp add: off_def)
  show "unat (drm_buddy_block_offset b) mod 4096 = 0" using m u by simp
  show "ord b - 1 < 64" "ord b - 1 \<le> DRM_BUDDY_MAX_ORDER"
    using k(1,3) bo(1) by (simp_all add: DRM_BUDDY_MAX_ORDER_def PAGE_SHIFT_def)
  have lt: "off b + ?h < 2 ^ 64" using bo(3) l unsigned_less [of "mm_size mm", where 'a = nat] by simp
  have "push_bit (ord b - 1) (chunk_size mm) = word_of_nat ?h" by (simp add: push_bit_eq_mult)
  moreover have "unat (word_of_nat ?h :: u64) = ?h" unfolding unat_of_nat by (rule mod_less) (use lt in simp)
  ultimately have "unat (push_bit (ord b - 1) (chunk_size mm)) = ?h" by metis
  then show s: "unat (drm_buddy_block_offset b + push_bit (ord b - 1) (chunk_size mm)) = off b + ?h"
    using lt u by (simp add: unat_word_ariths)
  show "unat (drm_buddy_block_offset b + push_bit (ord b - 1) (chunk_size mm)) mod 4096 = 0"
    unfolding s using d m by (metis dvd_add dvd_eq_mod_eq_0)
qed

lemma block_alloc_ok:
  assumes "n \<le> DRM_BUDDY_MAX_ORDER" "(offset OR word_of_nat n) AND DRM_BUDDY_HEADER_UNUSED = 0" "slab_ok mm (slab_next mm)"
  shows "drm_block_alloc mm q n offset =
    Some (mm\<lparr>slab_next := slab_next mm + 1,
             slab := (slab mm)(slab_next mm \<mapsto> \<lparr>header = offset OR word_of_nat n, left = None, right = None, parent = q\<rparr>)\<rparr>, Some (slab_next mm))"
  using assms by (simp add: drm_block_alloc_def set_block_def Let_def)

lemma block_alloc_fails:
  assumes "n \<le> DRM_BUDDY_MAX_ORDER" "\<not> slab_ok mm (slab_next mm)"
  shows "drm_block_alloc mm q n offset = Some (mm\<lparr>slab_next := slab_next mm + 1\<rparr>, None)"
  using assms by (simp add: drm_block_alloc_def Let_def)

lemma split_block_raw:
  assumes b: "slab mm p = Some b" "is_free b" "ord b \<noteq> 0" and pn: "p < slab_next mm"
    and ok: "slab_ok mm (slab_next mm)" "slab_ok mm (slab_next mm + 1)"
    and h: "ord b - 1 < 64" "ord b - 1 \<le> DRM_BUDDY_MAX_ORDER" "unat (drm_buddy_block_offset b) mod 4096 = 0"
      "unat (drm_buddy_block_offset b + push_bit (ord b - 1) (chunk_size mm)) mod 4096 = 0"
    and l: "ord b - 1 < length (free_list mm)" "ord b < length (free_list mm)" "p \<in> set (free_list mm ! ord b)"
    "slab_next mm \<notin> set (free_list mm ! (ord b - 1))" "slab_next mm + 1 \<notin> set (free_list mm ! (ord b - 1))"
  shows "split_block mm p = Some (splitted mm p b, Inr ())"
proof -
  note nl = new_block_facts [OF h(3,1)] and nr = new_block_facts [OF h(4,1)]
  have d: "ord b \<noteq> ord b - 1" using b(3) by simp
  show ?thesis
    using b ok pn l h(1,2) nl nr d
    unfolding split_block_def set_left_def set_right_def mark_free_def mark_split_def free_list_add_def free_list_del_def list_del_def
      set_block_def Let_def new_block_def splitted_def
    by (simp add: block_alloc_ok buf_get_def fun_upd_twist nth_list_update)
qed

lemma split_block_lists:
  assumes wf: "buddy_wf mm" and b: "slab mm p = Some b" "is_free b" "ord b \<noteq> 0"
  shows "ord b - 1 < length (free_list mm)" "ord b < length (free_list mm)" "p \<in> set (free_list mm ! ord b)"
    "slab_next mm \<notin> set (free_list mm ! (ord b - 1))" "slab_next mm + 1 \<notin> set (free_list mm ! (ord b - 1))"
proof -
  note fl = wf_free_list [OF wf, of "ord b"] wf_free_list [OF wf, of "ord b - 1"]
  have "ord b \<le> max_order mm" by (rule wf_block(4) [OF wf b(1)])
  moreover have "slab mm (slab_next mm) = None" "slab mm (slab_next mm + 1) = None" by (simp_all add: wf_fresh [OF wf])
  ultimately show "ord b - 1 < length (free_list mm)" "ord b < length (free_list mm)" "p \<in> set (free_list mm ! ord b)"
    "slab_next mm \<notin> set (free_list mm ! (ord b - 1))" "slab_next mm + 1 \<notin> set (free_list mm ! (ord b - 1))"
    using fl b by auto
qed

lemma splitted_rel:
  assumes wf: "buddy_wf mm" and b: "slab mm p = Some b" "is_free b" "ord b \<noteq> 0"
  defines "l \<equiv> slab_next mm" and "r \<equiv> slab_next mm + 1"
  defines "bl \<equiv> new_block (drm_buddy_block_offset b) (ord b - 1) p"
    and "br \<equiv> new_block (drm_buddy_block_offset b + push_bit (ord b - 1) (chunk_size mm)) (ord b - 1) p"
  shows "split_rel mm (splitted mm p b) p l r b (set_state DRM_BUDDY_SPLIT (b\<lparr>left := Some l, right := Some r\<rparr>)) bl br"
proof -
  note h = half_offsets [OF wf b(1,3)]
  note nl = new_block_facts(1-4) [OF h(1,3), of p, folded bl_def] and nr = new_block_facts(1-4) [OF h(6,3), of p, folded br_def]
  have pn: "p < slab_next mm" by (rule wf_block(1) [OF wf b(1)])
  have fr: "slab mm l = None" "slab mm r = None" "l \<noteq> r" "l \<noteq> p" "r \<noteq> p"
    using pn by (simp_all add: wf_fresh [OF wf] l_def r_def)
  have e: "slab (splitted mm p b) = (slab mm)(p \<mapsto> set_state DRM_BUDDY_SPLIT (b\<lparr>left := Some l, right := Some r\<rparr>), l \<mapsto> bl, r \<mapsto> br)"
    "chunk_size (splitted mm p b) = chunk_size mm" "mm_size (splitted mm p b) = mm_size mm" "roots (splitted mm p b) = roots mm"
    by (simp_all add: splitted_def Let_def l_def r_def bl_def br_def)
  have o: "off (b\<lparr>left := l, right := r\<rparr>) = off b" for l r by (simp add: off_def)
  have "halves mm (set_state DRM_BUDDY_SPLIT (b\<lparr>left := Some l, right := Some r\<rparr>)) bl br"
    using nl nr h(2,5) b(3) by (simp add: halves_def len_def o)
  then show ?thesis
    unfolding split_rel_def e using b(1) fr nl(4) nr(4)
    by (simp add: o state_exclusive(2) [OF b(2)] state_exclusive(2) [OF nl(3)] state_exclusive(2) [OF nr(3)])
qed

lemma splitted_wf:
  assumes wf: "buddy_wf mm" and b: "slab mm p = Some b" "is_free b" "ord b \<noteq> 0"
  shows "buddy_wf (splitted mm p b)" "same_frame mm (splitted mm p b)" "allocated (splitted mm p b) = allocated mm"
    "avail (splitted mm p b) = avail mm" "\<And>q. q \<in> allocated mm \<Longrightarrow> slab (splitted mm p b) q = slab mm q"
proof -
  let ?m = "splitted mm p b"
  define l r where "l = slab_next mm" and "r = slab_next mm + 1"
  define b' bl br where "b' = set_state DRM_BUDDY_SPLIT (b\<lparr>left := Some l, right := Some r\<rparr>)"
    and "bl = new_block (drm_buddy_block_offset b) (ord b - 1) p"
    and "br = new_block (drm_buddy_block_offset b + push_bit (ord b - 1) (chunk_size mm)) (ord b - 1) p"
  have s: "split_rel mm ?m p l r b b' bl br"
    using splitted_rel [OF wf b] by (simp add: l_def r_def b'_def bl_def br_def)
  note h = half_offsets [OF wf b(1,3)]
  note nl = new_block_facts(1-4) [OF h(1,3), of p, folded bl_def] and nr = new_block_facts(1-4) [OF h(6,3), of p, folded br_def]
  have bo: "block_ok mm b" "ord b \<le> max_order mm" "geometry mm" by (rule wf_block [OF wf b(1)])+
  have pn: "p < slab_next mm" by (rule wf_block(1) [OF wf b(1)])
  have fr: "slab mm l = None" "slab mm r = None" "l \<noteq> r" "l \<noteq> p" "r \<noteq> p"
    using s by (auto simp: split_rel_def)
  have e: "slab ?m = (slab mm)(p \<mapsto> b', l \<mapsto> bl, r \<mapsto> br)" "avail ?m = avail mm" "slab_next ?m = slab_next mm + 2"
    by (simp_all add: splitted_def Let_def l_def r_def b'_def bl_def br_def)
  show fra: "same_frame mm ?m" and "avail ?m = avail mm" by (simp_all add: same_frame_def splitted_def Let_def)
  show "allocated ?m = allocated mm" "\<And>q. q \<in> allocated mm \<Longrightarrow> slab ?m q = slab mm q"
    using b(1,2) nl(3) nr(3) fr unfolding allocated_def e b'_def by (auto dest: state_exclusive)
  have ro: "l \<notin> set (roots mm)" "r \<notin> set (roots mm)" using wf_root_dom [OF wf, of l] wf_root_dom [OF wf, of r] fr by auto
  have t: "tree_ok ?m" "leaves_ok ?m" "roots_ok ?m"
    using split_rel_tree [OF s _ ro] split_rel_leaves [OF s] split_rel_roots [OF s ro] wf by (auto simp: buddy_wf_def)
  have g: "geometry ?m" using wf by (simp add: buddy_wf_def geometry_def splitted_def Let_def)
  have hl: "off bl = off b" "off br = off b + len mm bl" "ord bl = ord b - 1" "ord br = ord b - 1" "len mm br = len mm bl" "len mm b = 2 * len mm bl"
    using nl nr h(2,5) b(3) by (simp_all add: len_def power_eq_if)
  have "len mm b dvd off b" using bo(1) by (simp add: block_ok_def dvd_eq_mod_eq_0)
  then have dv: "len mm bl dvd off b" by (rule dvd_trans [rotated]) (simp add: hl(6))
  have b': "off b' = off b" "len mm b' = len mm b" "ord b' = ord b" "is_split b'"
    by (simp_all add: b'_def len_def) (simp add: off_def)
  have "ord b - 1 \<le> max_order mm" using bo(2) by simp
  then have ok: "block_ok mm b'" "block_ok mm bl" "block_ok mm br"
    using bo(1) hl(1-5) hl(6) nl(3) nr(3) dv unfolding block_ok_def b' by (simp_all add: b' dvd_eq_mod_eq_0 [symmetric])
  have bk: "blocks_ok ?m"
    unfolding blocks_ok_def e(1,3) frame_cong(3) [OF fra]
  proof (intro allI impI)
    fix q c assume c: "((slab mm)(p \<mapsto> b', l \<mapsto> bl, r \<mapsto> br)) q = Some c"
    consider "q = r" "c = br" | "q = l" "c = bl" | "q = p" "c = b'" | "slab mm q = Some c"
      using c by (metis fun_upd_apply option.inject)
    then show "q < slab_next mm + 2 \<and> block_ok mm c"
    proof cases
      case 4
      then show ?thesis using wf_block(1,2) [OF wf 4] by simp
    qed (use ok pn in \<open>simp_all add: l_def r_def\<close>)
  qed
  have tot: "total ?m P + sum (weight mm P) {p, l, r} = total mm P + sum (weight ?m P) {p, l, r}" for P
    by (rule total_change) (use fra bk wf_block(1) [OF wf] in \<open>auto simp: e(1) blocks_ok_def same_frame_def\<close>)
  have w: "sum (weight mm P) {p, l, r} = (if P b then len mm b else 0)"
    "sum (weight ?m P) {p, l, r} = (if P b' then len mm b else 0) + (if P bl then len mm bl else 0) + (if P br then len mm bl else 0)" for P
    using fr b(1) hl frame_cong(1) [OF fra] by (simp_all add: weight_def e(1)) (simp add: b'_def len_def)
  have ns: "\<not> is_split b" "\<not> is_split bl" "\<not> is_split br" using b(2) nl(3) nr(3) by (auto dest: state_exclusive)
  have ac: "account_ok ?m"
    using tot [of is_free] tot [of "\<lambda>b. \<not> is_split b"] wf hl(6) nl(3) nr(3) b(2) ns fra e(2) unfolding w
    by (simp add: account_ok_def buddy_wf_def b'_def same_frame_def)
  have "frees_ok ?m"
    unfolding frees_ok_def
  proof (intro allI impI)
    fix i assume "i \<le> max_order ?m"
    then have i: "i \<le> max_order mm" using fra by (simp add: same_frame_def)
    note fl = wf_free_list [OF wf i]
    have le: "ord b < length (free_list mm)" "ord b - 1 < length (free_list mm)" using wf_free_list(1) [OF wf, of "ord b"] bo(2) by auto
    have fe: "free_list ?m ! i = (if i = ord b then remove1 p (free_list mm ! i) else if i = ord b - 1 then r # l # free_list mm ! i else free_list mm ! i)"
      using le b(3) by (simp add: splitted_def Let_def nth_list_update l_def r_def)
    have "set (free_list ?m ! i) = {q. \<exists>c. slab ?m q = Some c \<and> is_free c \<and> ord c = i}"
      unfolding fe e(1) using fl fr b nl nr hl(3,4) by (auto simp: b'_def)
    moreover have "distinct (free_list ?m ! i)"
      unfolding fe using fl fr by auto
    ultimately show "distinct (free_list ?m ! i) \<and> set (free_list ?m ! i) = {q. \<exists>c. slab ?m q = Some c \<and> is_free c \<and> ord c = i}" by blast
  qed
  then show "buddy_wf ?m" using t g bk ac by (simp add: buddy_wf_def)
qed

text \<open>When there is no memory for a half, the block stays as it is but for its pointers.\<close>

lemma split_block_fails:
  assumes wf: "buddy_wf mm" and b: "slab mm p = Some b" "is_free b" "ord b \<noteq> 0"
    and no: "\<not> (slab_ok mm (slab_next mm) \<and> slab_ok mm (slab_next mm + 1))"
  shows "\<exists>m b'. split_block mm p = Some (m, Inl ENOMEM) \<and> buddy_wf m \<and> same_frame mm m \<and> avail m = avail mm \<and>
    slab m = (slab mm)(p \<mapsto> b') \<and> shape b' = shape b \<and> is_free b' \<and> free_list m = free_list mm"
proof -
  note h = half_offsets [OF wf b(1,3)]
  have pn: "p < slab_next mm" by (rule wf_block(1) [OF wf b(1)])
  have fr: "slab mm (slab_next mm) = None" by (simp add: wf_fresh [OF wf])
  define l where "l = (if slab_ok mm (slab_next mm) then Some (slab_next mm) else None)"
  define m where "m = mm\<lparr>slab_next := (if l = None then slab_next mm + 1 else slab_next mm + 2),
    slab := (slab mm)(p \<mapsto> (if l = None then b\<lparr>left := None\<rparr> else b\<lparr>left := l, right := None\<rparr>))\<rparr>"
  let ?b = "if l = None then b\<lparr>left := None\<rparr> else b\<lparr>left := l, right := None\<rparr>"
  have f: "is_free ?b" "ord ?b = ord b" "off ?b = off b" using b(2) by (auto simp: buddy_states off_def)
  have nf: "\<not> is_split ?b" "\<not> is_split b" by (rule state_exclusive(2) [OF f(1)], rule state_exclusive(2) [OF b(2)])
  have sh: "shape ?b = shape b" using f nf unfolding shape_simps by simp
  have fra: "same_frame mm m" by (simp add: same_frame_def m_def)
  have "split_block mm p = Some (m, Inl ENOMEM)"
  proof (cases "slab_ok mm (slab_next mm)")
    case True
    then have n: "\<not> slab_ok mm (slab_next mm + 1)" using no by simp
    have u: "((slab mm)(p \<mapsto> z))(slab_next mm := None) = (slab mm)(p \<mapsto> z)" for z
      using fr pn by (auto simp: fun_eq_iff)
    show ?thesis
      using True n b pn h(4) new_block_facts(5) [OF h(1,3)]
      unfolding split_block_def set_left_def set_right_def drm_block_free_def set_block_def Let_def m_def l_def
      by (simp add: block_alloc_ok block_alloc_fails fun_upd_twist [of "slab_next mm" p] u)
  next
    case False
    then show ?thesis
      using b pn h(4) unfolding split_block_def set_left_def set_block_def Let_def m_def l_def by (simp add: block_alloc_fails)
  qed
  moreover have "buddy_wf m"
  proof (rule relabel_wf [where p = p, OF wf b(1) sh _ fra])
    show "block_ok mm ?b" using wf_block(2) [OF wf b(1)] f unfolding block_ok_def by (simp add: len_def)
    show "frees_ok m"
      using wf b f unfolding buddy_wf_def frees_ok_def m_def by (auto simp: fun_eq_iff)
    show "unat (avail m) + weight mm is_free p = unat (avail mm) + weight m is_free p"
      using b f by (simp add: weight_def m_def len_def)
  qed (auto simp: m_def)
  ultimately show ?thesis using fra f(1) sh by (intro exI [of _ m] exI [of _ ?b]) (simp add: m_def)
qed

section \<open>Merging two buddies\<close>

definition merged :: "buddy \<Rightarrow> nat \<Rightarrow> nat \<Rightarrow> block \<Rightarrow> nat \<Rightarrow> block \<Rightarrow> buddy" where
  "merged mm p bud bb q c =
     mm\<lparr>slab := (slab mm)(p := None, bud := None, q \<mapsto> set_state DRM_BUDDY_ALLOCATED c),
        free_list := (free_list mm)[ord bb := remove1 bud (free_list mm ! ord bb)], avail := avail mm - drm_buddy_block_size mm bb\<rparr>"

lemma buddy_of:
  assumes wf: "buddy_wf mm" and b: "slab mm p = Some b" "parent b = Some q"
  obtains bud bb c l r bl br where "get_buddy mm p = Some (Some bud)" "slab mm bud = Some bb" "slab mm q = Some c" "is_split c"
    "left c = Some l" "right c = Some r" "l \<noteq> r" "slab mm l = Some bl" "slab mm r = Some br" "parent bl = Some q" "parent br = Some q"
    "halves mm c bl br" "l = p \<and> r = bud \<and> bl = b \<and> br = bb \<or> l = bud \<and> r = p \<and> bl = bb \<and> br = b" "q \<noteq> p" "q \<noteq> bud" "p \<noteq> bud"
proof -
  have t: "tree_ok mm" using wf by (simp add: buddy_wf_def)
  have "child_of mm p q" using t b unfolding tree_ok_def by blast
  then obtain c where c: "slab mm q = Some c" "is_split c" "left c = Some p \<or> right c = Some p" by (auto simp: child_of_def)
  have "children mm q c" using t c(1,2) unfolding tree_ok_def by blast
  then obtain l r bl br where k: "left c = Some l" "right c = Some r" "l \<noteq> r" "slab mm l = Some bl" "slab mm r = Some br"
    "parent bl = Some q" "parent br = Some q" "halves mm c bl br" unfolding children_def by blast
  have lp: "l = p \<or> r = p" using c(3) k(1,2) by auto
  have "ord bl \<noteq> ord c" "ord br \<noteq> ord c" using k(8) by (simp_all add: halves_def)
  then have lq: "l \<noteq> q" "r \<noteq> q" using k(4,5) c(1) by auto
  define bud where "bud = (if l = p then r else l)"
  have g: "get_buddy mm p = Some (Some bud)" using b c(1) k(1,2) lp by (simp add: get_buddy_def bud_def)
  have "\<exists>bb. slab mm bud = Some bb \<and> (l = p \<and> r = bud \<and> bl = b \<and> br = bb \<or> l = bud \<and> r = p \<and> bl = bb \<and> br = b)"
    using lp k(3,4,5) b(1) by (auto simp: bud_def)
  then obtain bb where bb: "slab mm bud = Some bb" "l = p \<and> r = bud \<and> bl = b \<and> br = bb \<or> l = bud \<and> r = p \<and> bl = bb \<and> br = b" by blast
  have "q \<noteq> p" "q \<noteq> bud" "p \<noteq> bud" using bb(2) k(3) lq by auto
  then show thesis by (rule that [OF g bb(1) c(1,2) k bb(2)])
qed

lemma merged_wf:
  assumes wf: "buddy_wf mm" and b: "slab mm p = Some b" "is_allocated b" "parent b = Some q"
    and bud: "get_buddy mm p = Some (Some bud)" "slab mm bud = Some bb" "is_free bb" and c: "slab mm q = Some c"
  shows "buddy_wf (merged mm p bud bb q c)" "same_frame mm (merged mm p bud bb q c)"
    "allocated (merged mm p bud bb q c) = insert q (allocated mm - {p})" "q \<noteq> p" "q \<noteq> bud" "p \<noteq> bud" "is_split c"
    "\<And>x. x \<in> allocated mm \<Longrightarrow> x \<noteq> p \<Longrightarrow> slab (merged mm p bud bb q c) x = slab mm x"
    "ord c = Suc (ord b)" "len mm c = len mm b + len mm bb" "ord bb = ord b"
proof -
  let ?m = "merged mm p bud bb q c"
  obtain l r bl br where k: "is_split c" "left c = Some l" "right c = Some r" "l \<noteq> r" "slab mm l = Some bl" "slab mm r = Some br"
    "parent bl = Some q" "parent br = Some q" "halves mm c bl br"
    "l = p \<and> r = bud \<and> bl = b \<and> br = bb \<or> l = bud \<and> r = p \<and> bl = bb \<and> br = b"
    and n: "q \<noteq> p" "q \<noteq> bud" "p \<noteq> bud"
    by (rule buddy_of [OF wf b(1,3)]) (use bud c in auto)
  show "q \<noteq> p" "q \<noteq> bud" "p \<noteq> bud" "is_split c" using n k(1) by auto
  show o: "ord c = Suc (ord b)" "len mm c = len mm b + len mm bb" "ord bb = ord b"
    using k(9,10) halves_ival(3,4) [OF k(9)] by (auto simp: halves_def)
  have e: "slab ?m = (slab mm)(p := None, bud := None, q \<mapsto> set_state DRM_BUDDY_ALLOCATED c)" "slab_next ?m = slab_next mm"
    by (simp_all add: merged_def)
  show fra: "same_frame mm ?m" by (simp add: same_frame_def merged_def)
  show "allocated ?m = insert q (allocated mm - {p})" "\<And>x. x \<in> allocated mm \<Longrightarrow> x \<noteq> p \<Longrightarrow> slab ?m x = slab mm x"
    using n b bud(2,3) c k(1) unfolding allocated_def e by (auto dest: state_exclusive split: if_splits)
  have nsp: "\<not> is_split b" "\<not> is_split bb" "\<not> is_free b" "\<not> is_free c" using b(2) bud(3) k(1) by (auto dest: state_exclusive)
  have s: "split_rel ?m mm q l r (set_state DRM_BUDDY_ALLOCATED c) c bl br"
    using k n nsp c fra unfolding split_rel_def e frame_cong(5) [OF fra] same_frame_def by auto
  have t: "tree_ok mm" "leaves_ok mm" "roots_ok mm" "geometry mm" "account_ok mm" using wf by (auto simp: buddy_wf_def)
  have ro: "l \<notin> set (roots ?m)" "r \<notin> set (roots ?m)"
  proof -
    have "parent bl = None \<longleftrightarrow> l \<in> set (roots mm)" "parent br = None \<longleftrightarrow> r \<in> set (roots mm)"
      using t(1) k(5,6) unfolding tree_ok_def by blast+
    then show "l \<notin> set (roots ?m)" "r \<notin> set (roots ?m)" using k(7,8) fra by (auto simp: same_frame_def)
  qed
  have t': "tree_ok ?m" "leaves_ok ?m" "roots_ok ?m"
    using split_rel_tree_back [OF s t(1)] split_rel_leaves_back [OF s t(2)] split_rel_roots [OF s ro] t(3) by auto
  have g: "geometry ?m" using t(4) by (simp add: geometry_def merged_def)
  have cb: "block_ok mm c" by (rule wf_block(2) [OF wf c])
  have bk: "blocks_ok ?m"
    unfolding blocks_ok_def e frame_cong(3) [OF fra]
    using wf_block(1,2) [OF wf] c cb by (auto simp: block_ok_def len_def split: if_splits)
  have tot: "total ?m P + sum (weight mm P) {p, bud, q} = total mm P + sum (weight ?m P) {p, bud, q}" for P
    by (rule total_change) (use fra bk wf_block(1) [OF wf] in \<open>auto simp: e(1) blocks_ok_def same_frame_def\<close>)
  have w: "sum (weight ?m P) {p, bud, q} = (if P (set_state DRM_BUDDY_ALLOCATED c) then len mm c else 0)"
    "sum (weight mm P) {p, bud, q} = (if P b then len mm b else 0) + (if P bb then len mm bb else 0) + (if P c then len mm c else 0)" for P
    using n b(1) bud(2) c frame_cong(1) [OF fra] by (simp_all add: weight_def e(1)) (simp add: len_def)
  have sz: "unat (drm_buddy_block_size mm bb) = len mm bb" by (rule unat_block_size(1) [OF wf_block(3,4) [OF wf bud(2)]])
  have "unat (avail ?m) = unat (avail mm) - len mm bb"
    using sz wf_avail(1) [OF wf bud(2,3)] by (simp add: merged_def unat_sub word_le_nat_alt)
  then have ac: "account_ok ?m"
    using tot [of is_free] tot [of "\<lambda>b. \<not> is_split b"] t(5) o(2) nsp k(1) b(2) bud(3) fra wf_avail(1) [OF wf bud(2,3)] unfolding w
    by (auto simp: account_ok_def same_frame_def dest: state_exclusive)
  have "frees_ok ?m"
    unfolding frees_ok_def
  proof (intro allI impI)
    fix i assume "i \<le> max_order ?m"
    then have i: "i \<le> max_order mm" using fra by (simp add: same_frame_def)
    note fl = wf_free_list [OF wf i]
    have "ord bb < length (free_list mm)" by (rule wf_free_list(1) [OF wf wf_block(4) [OF wf bud(2)]])
    then have fe: "free_list ?m ! i = (if i = ord bb then remove1 bud (free_list mm ! i) else free_list mm ! i)"
      by (simp add: merged_def nth_list_update)
    show "distinct (free_list ?m ! i) \<and> set (free_list ?m ! i) = {x. \<exists>d. slab ?m x = Some d \<and> is_free d \<and> ord d = i}"
      unfolding fe e(1) using fl b c bud n k(1) by (auto dest: state_exclusive)
  qed
  then show "buddy_wf ?m" using t' g bk ac by (simp add: buddy_wf_def)
qed

end
