(* ===== verification/Buddy_Free.thy ===== *)
theory Buddy_Free
  imports Buddy_Steps
begin

text \<open>
  Freeing: the loop that merges a block with its buddy as long as that is free ends, keeps the
  invariant, and gives back exactly the memory of the block.
\<close>

section \<open>Words\<close>

lemma set_state_again [simp]: "set_state DRM_BUDDY_FREE (set_state DRM_BUDDY_ALLOCATED b) = set_state DRM_BUDDY_FREE b"
  by (simp add: set_state_def buddy_masks word_ao_dist and.assoc)

lemma set_state_same: "is_allocated b \<Longrightarrow> set_state DRM_BUDDY_ALLOCATED b = b"
proof -
  assume "is_allocated b"
  then have "header b AND DRM_BUDDY_HEADER_STATE = DRM_BUDDY_ALLOCATED" by (simp add: buddy_states drm_buddy_block_state_def)
  moreover have "(header b AND NOT DRM_BUDDY_HEADER_STATE) OR (header b AND DRM_BUDDY_HEADER_STATE) = header b"
    by (simp flip: word_ao_dist2)
  ultimately show "set_state DRM_BUDDY_ALLOCATED b = b" by (simp add: set_state_def)
qed

lemma size_double: "ord c = Suc (ord b) \<Longrightarrow> ord bb = ord b \<Longrightarrow>
    drm_buddy_block_size mm c = drm_buddy_block_size mm b + drm_buddy_block_size mm bb"
  by (simp add: drm_buddy_block_size_def push_bit_eq_mult)

section \<open>The loop\<close>

text \<open>The state with the block that is being freed counted as handed out.\<close>

definition limbo :: "buddy \<Rightarrow> nat \<Rightarrow> block \<Rightarrow> buddy" where
  "limbo mm p b = mm\<lparr>slab := (slab mm)(p \<mapsto> set_state DRM_BUDDY_ALLOCATED b), avail := avail mm - drm_buddy_block_size mm b\<rparr>"

lemma limbo_simps [simp]:
  "slab (limbo mm p b) = (slab mm)(p \<mapsto> set_state DRM_BUDDY_ALLOCATED b)" "free_list (limbo mm p b) = free_list mm"
  "max_order (limbo mm p b) = max_order mm" "chunk_size (limbo mm p b) = chunk_size mm"
  by (simp_all add: limbo_def)

lemma limbo_frame: "same_frame mm (limbo mm p b)"
  by (simp add: same_frame_def limbo_def)

lemma limbo_allocated: "p \<in> allocated (limbo mm p b)"
  by (simp add: allocated_def)

text \<open>What freeing the block promises.\<close>

definition freed :: "buddy \<Rightarrow> nat \<Rightarrow> block \<Rightarrow> buddy \<Rightarrow> bool" where
  "freed mm p b mm' \<longleftrightarrow> buddy_wf mm' \<and> same_frame mm mm' \<and> avail mm' = avail mm \<and> slab_next mm' = slab_next mm \<and>
     allocated mm' = allocated (limbo mm p b) - {p} \<and> (\<forall>x. x \<in> allocated mm' \<longrightarrow> slab mm' x = slab mm x)"

lemma mark_free_freed:
  assumes wf: "buddy_wf (limbo mm p b)" and b: "slab mm p = Some b"
  shows "\<exists>mm'. mark_free mm p = Some mm' \<and> freed mm p b mm'"
proof -
  let ?a = "set_state DRM_BUDDY_ALLOCATED b"
  have a: "slab (limbo mm p b) p = Some ?a" "is_allocated ?a" by simp_all
  note o = wf_block(4) [OF wf a(1)]
  note fl = wf_free_list [OF wf o]
  have e: "returned (limbo mm p b) p ?a = (returned mm p b)\<lparr>avail := avail mm\<rparr>"
    by (simp add: returned_def limbo_def drm_buddy_block_size_def)
  have "mark_free mm p = Some (returned (limbo mm p b) p ?a)"
    unfolding e using fl b by (intro mark_free_returned) (auto simp: fun_upd_apply)
  moreover have "avail (returned (limbo mm p b) p ?a) = avail mm" "slab_next (returned (limbo mm p b) p ?a) = slab_next mm"
    "slab (returned (limbo mm p b) p ?a) = (slab mm)(p \<mapsto> set_state DRM_BUDDY_FREE b)"
    unfolding e by (simp_all add: returned_def)
  then have "freed mm p b (returned (limbo mm p b) p ?a)"
    unfolding freed_def using returned_wf(1-3) [OF wf a] same_frame_trans [OF limbo_frame] by simp
  ultimately show ?thesis by blast
qed

lemma free_merge_freed:
  assumes "buddy_wf (limbo mm p b)" "slab mm p = Some b"
  shows "\<exists>mm'. drm_buddy_free_merge mm p = Some mm' \<and> freed mm p b mm'"
  using assms
proof (induction "max_order mm - ord b" arbitrary: mm p b rule: less_induct)
  case less
  note wf = less.prems(1) and b = less.prems(2)
  let ?a = "set_state DRM_BUDDY_ALLOCATED b"
  have a: "slab (limbo mm p b) p = Some ?a" "is_allocated ?a" by simp_all
  note step = drm_buddy_free_merge.simps [of mm p, unfolded b, unfolded Option.bind.simps]
  show ?case
  proof (cases "parent b")
    case None
    then show ?thesis unfolding step using mark_free_freed [OF wf b] by simp
  next
    case (Some q)
    have q: "parent ?a = Some q" using Some by simp
    obtain bud bb c where g: "get_buddy (limbo mm p b) p = Some (Some bud)" "slab (limbo mm p b) bud = Some bb"
      "slab (limbo mm p b) q = Some c" "q \<noteq> p" "q \<noteq> bud" "p \<noteq> bud"
      using buddy_of [OF wf a(1) q] by metis
    have g': "get_buddy mm p = Some (Some bud)" "slab mm bud = Some bb" "slab mm q = Some c"
      using g b Some by (simp_all add: get_buddy_def)
    show ?thesis
    proof (cases "is_free bb")
      case False
      then show ?thesis unfolding step using Some g' mark_free_freed [OF wf b] by simp
    next
      case True
      note m = merged_wf [OF wf a q g(1,2) True g(3)]
      define mm2 where "mm2 = mm\<lparr>free_list := (free_list mm)[ord bb := remove1 bud (free_list mm ! ord bb)],
        slab := (slab mm)(p := None, bud := None)\<rparr>"
      have o: "ord bb \<le> max_order (limbo mm p b)" by (rule wf_block(4) [OF wf g(2)])
      have "bud \<in> set (free_list mm ! ord bb)" "ord bb < length (free_list mm)"
        using wf_free_list [OF wf o] g(2) True by auto
      then have "drm_buddy_free_merge mm p = drm_buddy_free_merge mm2 q"
        unfolding step using Some g' True g(6) b
        by (simp add: free_list_del_def buf_get_def list_del_def drm_block_free_def mm2_def)
      moreover have e: "limbo mm2 q c = merged (limbo mm p b) p bud bb q c"
        using g(4,5) size_double [of c b bb mm] m(9,11)
        by (simp add: limbo_def merged_def mm2_def fun_upd_twist drm_buddy_block_size_def)
      moreover have q2: "slab mm2 q = Some c" using g'(3) g(4,5) by (simp add: mm2_def)
      moreover have "max_order mm2 - ord c < max_order mm - ord b"
        using m(9) wf_block(4) [OF wf g(3)] by (simp add: mm2_def)
      ultimately obtain mm' where r: "drm_buddy_free_merge mm p = Some mm'" "freed mm2 q c mm'"
        using less.hyps [of mm2 c q] m(1) by auto
      have n: "q \<notin> allocated (limbo mm p b)" "bud \<notin> allocated (limbo mm p b)"
        using g(2,3) m(7) True state_exclusive(1) [of bb] state_exclusive(6) [of c] unfolding allocated_def by simp_all
      have al: "allocated mm' = allocated (limbo mm p b) - {p}"
        using r(2) m(3) n(1) unfolding freed_def e by simp
      have sl: "slab mm' x = slab mm x" if "x \<in> allocated mm'" for x
      proof -
        have "x \<noteq> p" "x \<noteq> bud" using that n(2) unfolding al by auto
        then show ?thesis using r(2) that unfolding freed_def by (simp add: mm2_def)
      qed
      have "same_frame mm mm2" "avail mm2 = avail mm" "slab_next mm2 = slab_next mm" by (simp_all add: mm2_def same_frame_def)
      moreover have "buddy_wf mm'" "same_frame mm2 mm'" "avail mm' = avail mm2" "slab_next mm' = slab_next mm2"
        using r(2) unfolding freed_def by blast+
      ultimately have "freed mm p b mm'"
        unfolding freed_def using al sl same_frame_trans by auto
      then show ?thesis using r(1) by blast
    qed
  qed
qed

section \<open>The operations\<close>

text \<open>What an operation that only gives the blocks \<open>ps\<close> back promises.\<close>

definition bytes :: "buddy \<Rightarrow> nat list \<Rightarrow> nat" where
  "bytes mm ps = sum_list (map (\<lambda>p. len mm (the (slab mm p))) ps)"

definition gives_back :: "buddy \<Rightarrow> nat list \<Rightarrow> buddy \<Rightarrow> bool" where
  "gives_back mm ps mm' \<longleftrightarrow> buddy_wf mm' \<and> same_frame mm mm' \<and> slab_next mm' = slab_next mm \<and> allocated mm' = allocated mm - set ps \<and>
     (\<forall>x. x \<in> allocated mm' \<longrightarrow> slab mm' x = slab mm x) \<and> unat (avail mm') = unat (avail mm) + bytes mm ps"

lemma free_block_gives_back:
  assumes wf: "buddy_wf mm" and p: "p \<in> allocated mm"
  shows "\<exists>mm'. drm_buddy_free_block mm p = Some mm' \<and> gives_back mm [p] mm'"
proof -
  obtain b where b: "slab mm p = Some b" "is_allocated b" using p by (auto simp: allocated_def)
  let ?m = "mm\<lparr>avail := avail mm + drm_buddy_block_size mm b\<rparr>"
  have s: "(slab mm)(p \<mapsto> b) = slab mm" using b(1) by auto
  have e: "limbo ?m p b = mm" using b s by (simp add: limbo_def set_state_same drm_buddy_block_size_def)
  have bp: "slab ?m p = Some b" using b by simp
  obtain mm' where m: "drm_buddy_free_merge ?m p = Some mm'" "freed ?m p b mm'"
    using free_merge_freed [of ?m p b, unfolded e, OF wf bp] by blast
  have "unat (avail mm + drm_buddy_block_size mm b) = unat (avail mm) + len mm b"
    using wf_avail(2) [OF wf b] unat_block_size(1) [OF wf_block(3,4) [OF wf b(1)]] unsigned_less [of "mm_size mm", where 'a = nat]
    by (simp add: unat_word_ariths)
  then have "gives_back mm [p] mm'"
    using m(2) b(1) unfolding freed_def e gives_back_def by (simp add: bytes_def same_frame_def)
  then show ?thesis using m(1) b by (simp add: drm_buddy_free_block_def)
qed

lemma free_list_gives_back:
  assumes "buddy_wf mm" "distinct ps" "set ps \<subseteq> allocated mm"
  shows "\<exists>mm'. drm_buddy_free_list mm ps = Some mm' \<and> gives_back mm ps mm'"
  using assms
proof (induction ps arbitrary: mm)
  case Nil
  then show ?case by (simp add: gives_back_def bytes_def)
next
  case (Cons p ps)
  obtain m where m: "drm_buddy_free_block mm p = Some m" "gives_back mm [p] m"
    using free_block_gives_back [of mm p] Cons.prems by auto
  have k: "buddy_wf m" "set ps \<subseteq> allocated m" using m(2) Cons.prems by (auto simp: gives_back_def)
  obtain mm' where m': "drm_buddy_free_list m ps = Some mm'" "gives_back m ps mm'"
    using Cons.IH [OF k(1) _ k(2)] Cons.prems(2) by auto
  have "bytes m ps = bytes mm ps"
  proof -
    have "len m (the (slab m x)) = len mm (the (slab mm x))" if "x \<in> set ps" for x
    proof -
      have "slab m x = slab mm x" using m(2) k(2) that unfolding gives_back_def by blast
      then show ?thesis using m(2) by (simp add: gives_back_def same_frame_def len_def)
    qed
    then show ?thesis unfolding bytes_def by (metis (mono_tags, lifting) map_eq_conv)
  qed
  then have "gives_back mm (p # ps) mm'"
    using m(2) m'(2) unfolding gives_back_def by (auto simp: bytes_def same_frame_def)
  then show ?case using m(1) m'(1) by simp
qed

end
