(* ===== verification/Buddy_Walk.thy ===== *)
theory Buddy_Walk
  imports Buddy_Free
begin

text \<open>
  The two walks over the trees of blocks. Both go down through split blocks and split free ones; the
  facts about one step down are shared. As \<open>drm_buddy_block_trim\<close> walks a tree whose root has been cut
  off its parent, the states of a walk are related to well-formed ones by putting that parent back.
\<close>

section \<open>A block cut off its parent\<close>

definition attach :: "(nat \<times> nat option) option \<Rightarrow> buddy \<Rightarrow> buddy" where
  "attach c mm = (case c of None \<Rightarrow> mm
     | Some (p, q) \<Rightarrow> mm\<lparr>slab := (\<lambda>x. if x = p then map_option (parent_update (\<lambda>_. q)) (slab mm x) else slab mm x)\<rparr>)"

lemma attach_simps [simp]:
  "free_list (attach c mm) = free_list mm" "roots (attach c mm) = roots mm" "max_order (attach c mm) = max_order mm"
  "chunk_size (attach c mm) = chunk_size mm" "mm_size (attach c mm) = mm_size mm" "avail (attach c mm) = avail mm"
  "slab_next (attach c mm) = slab_next mm" "slab_ok (attach c mm) = slab_ok mm" "n_roots (attach c mm) = n_roots mm"
  "slab (attach c mm) x = None \<longleftrightarrow> slab mm x = None"
  by (auto simp: attach_def split: option.splits)

lemma attach_None [simp]: "attach None mm = mm"
  by (simp add: attach_def)

definition attached :: "(nat \<times> nat option) option \<Rightarrow> nat \<Rightarrow> block \<Rightarrow> block" where
  "attached c x b = (case c of None \<Rightarrow> b | Some (p, q) \<Rightarrow> if x = p then b\<lparr>parent := q\<rparr> else b)"

lemma attached_simps [simp]:
  "ord (attached c x b) = ord b" "off (attached c x b) = off b" "drm_buddy_block_offset (attached c x b) = drm_buddy_block_offset b"
  "is_free (attached c x b) = is_free b" "is_split (attached c x b) = is_split b" "is_allocated (attached c x b) = is_allocated b"
  "left (attached c x b) = left b" "right (attached c x b) = right b" "len mm (attached c x b) = len mm b" "ival mm (attached c x b) = ival mm b"
  by (auto simp: attached_def off_def buddy_states len_def ival_def split: option.splits)

lemma slab_attach: "slab (attach c mm) x = map_option (attached c x) (slab mm x)"
  by (cases "slab mm x") (auto simp: attach_def attached_def split: option.splits)

lemma attached_set_state [simp]: "attached c x (set_state st b) = set_state st (attached c x b)"
  by (auto simp: attached_def set_state_def split: option.splits)

lemma attach_allocated [simp]: "allocated (attach c mm) = allocated mm"
  by (auto simp: allocated_def slab_attach)

text \<open>The cut block exists.\<close>

definition cut_ok :: "(nat \<times> nat option) option \<Rightarrow> buddy \<Rightarrow> bool" where
  "cut_ok c mm \<longleftrightarrow> (\<forall>p q. c = Some (p, q) \<longrightarrow> slab mm p \<noteq> None)"

text \<open>A walk only splits blocks.\<close>

definition keeps :: "(nat \<times> nat option) option \<Rightarrow> buddy \<Rightarrow> buddy \<Rightarrow> bool" where
  "keeps c mm mm' \<longleftrightarrow> buddy_wf (attach c mm') \<and> same_frame mm mm' \<and> avail mm' = avail mm \<and> allocated mm' = allocated mm \<and>
     (\<forall>x. x \<in> allocated mm \<longrightarrow> slab mm' x = slab mm x) \<and> (\<forall>x. slab mm x \<noteq> None \<longrightarrow> slab mm' x \<noteq> None)"

lemma keeps_refl: "buddy_wf (attach c mm) \<Longrightarrow> keeps c mm mm"
  by (simp add: keeps_def)

lemma keeps_trans: "keeps c m1 m2 \<Longrightarrow> keeps c m2 m3 \<Longrightarrow> keeps c m1 m3"
  unfolding keeps_def using same_frame_trans by metis

lemma keeps_cut: "keeps c mm mm' \<Longrightarrow> cut_ok c mm \<Longrightarrow> cut_ok c mm'"
  by (auto simp: keeps_def cut_ok_def)

lemma keeps_plenty: "keeps c mm mm' \<Longrightarrow> plenty mm \<Longrightarrow> plenty mm'"
  by (simp add: keeps_def same_frame_def plenty_def)

lemma attach_frame: "same_frame (attach c mm) mm" "same_frame mm (attach c mm)"
  by (simp_all add: same_frame_def)

lemma attached_block:
  assumes "buddy_wf (attach c mm)" "slab mm p = Some b"
  shows "p < slab_next mm" "block_ok mm b" "geometry mm" "ord b \<le> max_order mm"
proof -
  have s: "slab (attach c mm) p = Some (attached c p b)" using assms(2) by (simp add: slab_attach)
  note w = wf_block [OF assms(1) s]
  show "p < slab_next mm" "ord b \<le> max_order mm" using w(1,4) by simp_all
  show "block_ok mm b" using w(2) unfolding frame_cong(3) [OF attach_frame(2)] by (simp add: block_ok_def)
  show "geometry mm" using w(3) by (simp add: geometry_def)
qed

section \<open>One step down\<close>

lemma splitted_attach:
  assumes "slab mm p = Some b" "cut_ok c mm" "\<And>x. slab_next mm \<le> x \<Longrightarrow> slab mm x = None"
  shows "splitted (attach c mm) p (attached c p b) = attach c (splitted mm p b)"
proof -
  have n: "attached c (slab_next mm) x = x" "attached c (slab_next mm + 1) x = x" for x
    using assms(2,3) by (force simp: attached_def cut_ok_def split: option.splits)+
  have p: "p < slab_next mm" using assms(1,3) by (metis option.distinct(1) leI)
  have a: "(attached c p b)\<lparr>left := l, right := r\<rparr> = attached c p (b\<lparr>left := l, right := r\<rparr>)" for l r
    by (auto simp: attached_def split: option.splits)
  have "slab (splitted (attach c mm) p (attached c p b)) x = slab (attach c (splitted mm p b)) x" for x
    using n p a by (simp add: splitted_def Let_def slab_attach)
  then have "slab (splitted (attach c mm) p (attached c p b)) = slab (attach c (splitted mm p b))" by blast
  then show ?thesis
    by (cases c) (simp_all add: splitted_def Let_def attach_def split: prod.splits)
qed

text \<open>
  What one step down finds: the two halves of the block, which has been split if it was not; nothing
  else has changed.
\<close>

definition descends :: "(nat \<times> nat option) option \<Rightarrow> buddy \<Rightarrow> nat \<Rightarrow> block \<Rightarrow> buddy \<Rightarrow> nat \<Rightarrow> nat \<Rightarrow> block \<Rightarrow> block \<Rightarrow> bool" where
  "descends c mm p b mm' l r bl br \<longleftrightarrow> keeps c mm mm' \<and> (\<exists>b'. slab mm' p = Some b' \<and> left b' = Some l \<and> right b' = Some r \<and> is_split b' \<and> ord b' = ord b \<and> off b' = off b) \<and>
     slab mm' l = Some bl \<and> slab mm' r = Some br \<and> l \<noteq> r \<and> l \<noteq> p \<and> r \<noteq> p \<and> halves mm b bl br \<and>
     (\<forall>x. slab mm x \<noteq> None \<longrightarrow> x \<noteq> p \<longrightarrow> slab mm' x = slab mm x) \<and>
     (if is_split b then mm' = mm else slab mm l = None \<and> slab mm r = None \<and> is_free bl \<and> is_free br \<and>
       (\<forall>x. x \<noteq> p \<longrightarrow> x \<noteq> l \<longrightarrow> x \<noteq> r \<longrightarrow> slab mm' x = slab mm x))"

lemma step_down:
  assumes wf: "buddy_wf (attach c mm)" and cut: "cut_ok c mm" and ok: "plenty mm"
    and b: "slab mm p = Some b" "\<not> is_allocated b" "is_split b \<or> ord b \<noteq> 0"
  shows "\<exists>mm' l r bl br. (if is_split b then Some (mm, Inr ()) else split_block mm p) = Some (mm', Inr ()) \<and> descends c mm p b mm' l r bl br"
proof (cases "is_split b")
  case True
  have t: "tree_ok (attach c mm)" using wf by (simp add: buddy_wf_def)
  have "slab (attach c mm) p = Some (attached c p b)" using b(1) by (simp add: slab_attach)
  then have "children (attach c mm) p (attached c p b)" using t True unfolding tree_ok_def by (metis attached_simps(5))
  then obtain l r cl cr where ch: "left b = Some l" "right b = Some r" "l \<noteq> r" "slab (attach c mm) l = Some cl"
    "slab (attach c mm) r = Some cr" "halves (attach c mm) (attached c p b) cl cr" unfolding children_def attached_simps by blast
  obtain bl br where bs: "slab mm l = Some bl" "cl = attached c l bl" "slab mm r = Some br" "cr = attached c r br"
    using ch(4,5) unfolding slab_attach map_option_eq_Some by blast
  have "halves mm b bl br" using ch(6) bs(2,4) by (simp add: halves_def len_def)
  note k = ch(1-3) bs(1,3) this
  have "ord bl \<noteq> ord b" "ord br \<noteq> ord b" using k(6) by (simp_all add: halves_def)
  then have "l \<noteq> p" "r \<noteq> p" using k(4,5) b(1) by auto
  then have "descends c mm p b mm l r bl br" unfolding descends_def using k b(1) True keeps_refl [OF wf] by simp
  then show ?thesis using True by auto
next
  case False
  have a: "slab (attach c mm) p = Some (attached c p b)" using b(1) by (simp add: slab_attach)
  have f: "is_free b" "ord b \<noteq> 0" using attached_block(2) [OF wf b(1)] b(2,3) False by (auto simp: block_ok_def)
  note af = f [folded attached_simps(1,4) [of c p b]]
  have fresh: "slab mm x = None" if "slab_next mm \<le> x" for x
    using wf_fresh [OF wf, of x] that by simp
  note h = half_offsets [OF wf a af(2), unfolded attached_simps attach_simps]
  have s: "split_block mm p = Some (splitted mm p b, Inr ())"
    using split_block_lists [OF wf a af] ok
    by (intro split_block_raw [OF b(1) f attached_block(1) [OF wf b(1)] _ _ h(3,4) _ h(6)]) (simp_all add: plenty_def h(1))
  have e: "splitted (attach c mm) p (attached c p b) = attach c (splitted mm p b)"
    by (rule splitted_attach [OF b(1) cut]) (rule fresh)
  note w = splitted_wf [OF wf a af, unfolded e]
  define l r bl br where "l = slab_next mm" and "r = slab_next mm + 1"
    and "bl = new_block (drm_buddy_block_offset b) (ord b - 1) p"
    and "br = new_block (drm_buddy_block_offset b + push_bit (ord b - 1) (chunk_size mm)) (ord b - 1) p"
  have rel: "split_rel (attach c mm) (attach c (splitted mm p b)) p l r (attached c p b)
      (set_state DRM_BUDDY_SPLIT ((attached c p b)\<lparr>left := Some l, right := Some r\<rparr>)) bl br"
    using splitted_rel [OF wf a af] unfolding e by (simp add: l_def r_def bl_def br_def)
  have sl: "slab (splitted mm p b) = (slab mm)(p \<mapsto> set_state DRM_BUDDY_SPLIT (b\<lparr>left := Some l, right := Some r\<rparr>), l \<mapsto> bl, r \<mapsto> br)"
    by (simp add: splitted_def Let_def l_def r_def bl_def br_def)
  have d: "l \<noteq> r" "l \<noteq> p" "r \<noteq> p" "slab mm l = None" "slab mm r = None" "halves mm b bl br"
    using rel unfolding split_rel_def by (auto simp: halves_def off_def len_def)
  have fr: "is_free bl" "is_free br" by (simp_all add: bl_def br_def new_block_def)
  have "allocated (splitted mm p b) = allocated mm" using w(3) by simp
  moreover have "slab (splitted mm p b) x = slab mm x" if "x \<in> allocated mm" for x
  proof -
    have "x \<noteq> p" "x \<noteq> l" "x \<noteq> r" using that b(1,2) d(4,5) by (auto simp: allocated_def)
    then show ?thesis by (simp add: sl)
  qed
  ultimately have "keeps c mm (splitted mm p b)"
    unfolding keeps_def using w(1,2,4) by (simp add: sl same_frame_def)
  moreover have "off (b\<lparr>left := l, right := r\<rparr>) = off b" for l r by (simp add: off_def)
  ultimately have "descends c mm p b (splitted mm p b) l r bl br"
    unfolding descends_def using d fr False by (auto simp: sl)
  then show ?thesis using s False by auto
qed

end
