(* ===== verification/Buddy_Range.thy ===== *)
theory Buddy_Range
  imports Buddy_Walk
begin

text \<open>
  Allocating exactly a range: the walk takes the free blocks inside the range, and only those; it
  fails only when something of the range is in use, and then gives back what it took.
\<close>

section \<open>Taking blocks\<close>

definition bytes_of :: "buddy \<Rightarrow> nat \<Rightarrow> nat set" where
  "bytes_of mm x = ival mm (the (slab mm x))"

definition covered :: "buddy \<Rightarrow> nat list \<Rightarrow> nat set" where
  "covered mm ps = \<Union> (bytes_of mm ` set ps)"

text \<open>The blocks \<open>new\<close> have been taken, everything else is as it was.\<close>

definition took :: "(nat \<times> nat option) option \<Rightarrow> buddy \<Rightarrow> nat list \<Rightarrow> buddy \<Rightarrow> bool" where
  "took c mm new mm' \<longleftrightarrow> buddy_wf (attach c mm') \<and> same_frame mm mm' \<and> distinct new \<and> set new \<inter> allocated mm = {} \<and>
     allocated mm' = allocated mm \<union> set new \<and> (\<forall>x. x \<in> allocated mm \<longrightarrow> slab mm' x = slab mm x) \<and>
     unat (avail mm') + bytes mm' new = unat (avail mm) \<and> (\<forall>x. slab mm x \<noteq> None \<longrightarrow> slab mm' x \<noteq> None)"

lemma took_nil: "keeps c mm mm' \<Longrightarrow> took c mm [] mm'"
  by (simp add: keeps_def took_def bytes_def)

lemma bytes_cong:
  assumes "same_frame mm mm'" "\<And>x. x \<in> set ps \<Longrightarrow> slab mm' x = slab mm x"
  shows "bytes mm' ps = bytes mm ps"
proof -
  have "map (\<lambda>p. len mm' (the (slab mm' p))) ps = map (\<lambda>p. len mm (the (slab mm p))) ps"
    using assms frame_cong(1) [OF assms(1)] by simp
  then show ?thesis unfolding bytes_def by (rule arg_cong)
qed

lemma took_trans:
  assumes "took c mm xs m1" "took c m1 ys m2"
  shows "took c mm (xs @ ys) m2"
proof -
  have t: "allocated m1 = allocated mm \<union> set xs" "same_frame mm m1" "same_frame m1 m2" "\<And>x. x \<in> allocated m1 \<Longrightarrow> slab m2 x = slab m1 x"
    using assms by (auto simp: took_def)
  have "bytes m2 xs = bytes m1 xs" by (rule bytes_cong [OF t(3)]) (use t in auto)
  then have "bytes m2 (xs @ ys) = bytes m1 xs + bytes m2 ys" by (simp add: bytes_def)
  then show ?thesis
    using assms same_frame_trans [OF t(2,3)] t(1,4) unfolding took_def by auto
qed

lemma take_block:
  assumes wf: "buddy_wf (attach c mm)" and b: "slab mm p = Some b" "is_free b"
  shows "\<exists>m. mark_allocated mm p = Some m \<and> drm_buddy_block_size m b = drm_buddy_block_size mm b \<and>
    took c mm [p] (m\<lparr>avail := avail m - drm_buddy_block_size m b\<rparr>) \<and> slab m = (slab mm)(p \<mapsto> set_state DRM_BUDDY_ALLOCATED b)"
proof -
  have a: "slab (attach c mm) p = Some (attached c p b)" "is_free (attached c p b)" using b by (simp_all add: slab_attach)
  note o = attached_block(4) [OF wf b(1)]
  note fl = wf_free_list [OF wf, of "ord b"]
  have l: "ord b < length (free_list mm)" "p \<in> set (free_list mm ! ord b)"
    using fl o a by auto
  have e: "handed (attach c mm) p (attached c p b) = attach c (handed mm p b)"
  proof -
    have "slab (handed (attach c mm) p (attached c p b)) = slab (attach c (handed mm p b))"
      by (simp add: handed_def fun_eq_iff slab_attach)
    then show ?thesis by (cases c) (simp_all add: handed_def attach_def drm_buddy_block_size_def split: prod.splits)
  qed
  note w = handed_wf [OF wf a, unfolded e]
  let ?m = "(handed mm p b)\<lparr>avail := avail mm\<rparr>"
  have m: "mark_allocated mm p = Some ?m"
    using b(1) l by (simp add: mark_allocated_def free_list_del_def list_del_def set_block_def buf_get_def handed_def)
  have s: "?m\<lparr>avail := avail ?m - drm_buddy_block_size ?m b\<rparr> = handed mm p b"
    by (simp add: handed_def drm_buddy_block_size_def)
  have "len mm b \<le> unat (avail mm)" using wf_avail(1) [OF wf a] by (simp add: len_def)
  moreover have "bytes (handed mm p b) [p] = len mm b" by (simp add: bytes_def handed_def len_def)
  moreover have "p \<notin> allocated mm" using b by (auto simp: allocated_def dest: state_exclusive)
  moreover have "slab (handed mm p b) = (slab mm)(p \<mapsto> set_state DRM_BUDDY_ALLOCATED b)" by (simp add: handed_def)
  moreover have "unat (avail (handed mm p b)) = unat (avail mm) - len mm b" using w(4) by (simp add: len_def)
  ultimately have "took c mm [p] (handed mm p b)"
    using w(1-3) unfolding took_def by (auto simp: same_frame_def)
  then show ?thesis using m s by (auto simp: handed_def drm_buddy_block_size_def)
qed

section \<open>The walk\<close>

text \<open>What is in the way of taking the range: a block in use, or a split one that lies inside it.\<close>

definition blocked :: "buddy \<Rightarrow> nat \<Rightarrow> nat \<Rightarrow> block \<Rightarrow> bool" where
  "blocked mm s hi b \<longleftrightarrow> {s..<hi} \<inter> ival mm b \<noteq> {} \<and> (is_allocated b \<or> is_split b \<and> ival mm b \<subseteq> {s..<hi})"

definition apart :: "buddy \<Rightarrow> nat list \<Rightarrow> bool" where
  "apart mm ps \<longleftrightarrow> sorted_wrt (\<lambda>x y. bytes_of mm x \<inter> bytes_of mm y = {}) ps"

definition work :: "buddy \<Rightarrow> nat list \<Rightarrow> nat" where
  "work mm ps = sum_list (map (\<lambda>x. 2 * 2 ^ ord (the (slab mm x)) - 1) ps)"

lemma bytes_of_cong:
  assumes "same_frame mm mm'" "slab mm' x = slab mm x"
  shows "bytes_of mm' x = bytes_of mm x"
  using assms frame_cong(2) [OF assms(1)] by (simp add: bytes_of_def)

lemma apart_cong:
  assumes "same_frame mm mm'" "\<And>x. x \<in> set ps \<Longrightarrow> slab mm' x = slab mm x"
  shows "apart mm' ps \<longleftrightarrow> apart mm ps" "covered mm' ps = covered mm ps" "work mm' ps = work mm ps"
proof -
  have e: "bytes_of mm' x = bytes_of mm x" if "x \<in> set ps" for x using bytes_of_cong [OF assms(1)] assms(2) that by blast
  show "apart mm' ps \<longleftrightarrow> apart mm ps"
    unfolding apart_def using e by (auto intro: sorted_wrt_mono_rel [rotated])
  show "covered mm' ps = covered mm ps" unfolding covered_def using e by simp
  show "work mm' ps = work mm ps" unfolding work_def using assms(2) by (metis (mono_tags, lifting) map_eq_conv)
qed

lemma descends_frame:
  assumes d: "descends c mm p b mm' l r bl br" and b: "slab mm p = Some b"
  shows "same_frame mm mm'" "bytes_of mm' l \<union> bytes_of mm' r = bytes_of mm p" "bytes_of mm' l \<inter> bytes_of mm' r = {}"
    "ord b = Suc (ord bl)" "ord br = ord bl"
proof -
  have h: "halves mm b bl br" "slab mm' l = Some bl" "slab mm' r = Some br" using d by (simp_all add: descends_def)
  show f: "same_frame mm mm'" using d by (simp add: descends_def keeps_def)
  show "bytes_of mm' l \<union> bytes_of mm' r = bytes_of mm p" "bytes_of mm' l \<inter> bytes_of mm' r = {}"
    using halves_ival(1,2) [OF h(1)] h(2,3) b frame_cong(2) [OF f] by (simp_all add: bytes_of_def)
  show "ord b = Suc (ord bl)" "ord br = ord bl" using h(1) by (simp_all add: halves_def)
qed

text \<open>Boundaries of the range fall on chunks, so the smallest blocks are never cut by them.\<close>

lemma smallest_contained:
  assumes "geometry mm" "block_ok mm b" "ord b = 0" "unat (chunk_size mm) dvd s" "unat (chunk_size mm) dvd hi"
    "s < off b + len mm b" "off b < hi"
  shows "s \<le> off b" "off b + len mm b \<le> hi"
proof -
  let ?u = "unat (chunk_size mm)"
  have l: "len mm b = ?u" using assms(3) by (simp add: len_def)
  have "?u dvd off b" using assms(2) l by (simp add: block_ok_def dvd_eq_mod_eq_0)
  then obtain i j k where i: "s = ?u * i" "hi = ?u * j" "off b = ?u * k" using assms(4,5) by (auto elim!: dvdE)
  have "?u * i < ?u * (k + 1)" "?u * k < ?u * j" using assms(6,7) l i by (simp_all add: algebra_simps)
  then have "i \<le> k" "k + 1 \<le> j" by (metis Suc_eq_plus1 less_Suc_eq_le mult_less_cancel1, metis Suc_eq_plus1 Suc_leI mult_less_cancel1)
  then have "?u * i \<le> ?u * k" "?u * (k + 1) \<le> ?u * j" by (simp_all only: mult_le_mono2)
  then show "s \<le> off b" "off b + len mm b \<le> hi" using l i by (simp_all add: algebra_simps)
qed

text \<open>After a step down, the two halves take the place of the block.\<close>

lemma descends_list:
  assumes d: "descends c mm p b mm' l r bl br" and b: "slab mm p = Some b"
    and dfs: "\<forall>x\<in>set (p # dfs). slab mm x \<noteq> None" "apart mm (p # dfs)" and g: "geometry mm"
  shows "apart mm' (l # r # dfs)" "covered mm' (l # r # dfs) = covered mm (p # dfs)" "work mm' (l # r # dfs) < work mm (p # dfs)"
    "\<forall>x\<in>set (l # r # dfs). slab mm' x \<noteq> None"
proof -
  note f = descends_frame [OF d b]
  have "bytes_of mm p \<noteq> {}" using ival_nonempty [OF g] by (simp add: bytes_of_def)
  then have np: "p \<notin> set dfs" using dfs(2) by (auto simp: apart_def)
  have s: "slab mm' x = slab mm x" if "x \<in> set dfs" for x
  proof -
    have "x \<noteq> p" "slab mm x \<noteq> None" using np dfs(1) that by auto
    then show ?thesis using d unfolding descends_def by blast
  qed
  note c = apart_cong [of mm mm' dfs, OF f(1) s]
  have e: "bytes_of mm' x = bytes_of mm x" if "x \<in> set dfs" for x using bytes_of_cong [OF f(1) s [OF that]] .
  have k: "slab mm' l = Some bl" "slab mm' r = Some br" using d by (simp_all add: descends_def)
  have ap: "\<forall>y\<in>set dfs. bytes_of mm p \<inter> bytes_of mm y = {}" "apart mm dfs" using dfs(2) by (simp_all add: apart_def)
  have "bytes_of mm' l \<inter> bytes_of mm' y = {}" "bytes_of mm' r \<inter> bytes_of mm' y = {}" if "y \<in> set dfs" for y
    using ap(1) f(2) that unfolding e [OF that] by blast+
  then show "apart mm' (l # r # dfs)"
    using c(1) ap(2) f(3) by (simp add: apart_def)
  show "covered mm' (l # r # dfs) = covered mm (p # dfs)" using c(2) f(2) by (auto simp: covered_def)
  have "work mm' dfs = work mm dfs" by (rule c(3))
  moreover have "work mm (p # dfs) = (2 * 2 ^ Suc (ord bl) - 1) + work mm dfs" using b f(4) by (simp add: work_def del: power_Suc One_nat_def)
  moreover have "work mm' (l # r # dfs) = (2 * 2 ^ ord bl - 1) + ((2 * 2 ^ ord bl - 1) + work mm' dfs)"
    using k f(5) by (simp add: work_def del: One_nat_def)
  moreover have "0 < (2 :: nat) ^ ord bl" "(2 :: nat) ^ Suc (ord bl) = 2 * 2 ^ ord bl" by simp_all
  ultimately show "work mm' (l # r # dfs) < work mm (p # dfs)" by linarith
  show "\<forall>x\<in>set (l # r # dfs). slab mm' x \<noteq> None" using k s dfs(1) by simp
qed

definition range_taken ::
  "(nat \<times> nat option) option \<Rightarrow> nat \<Rightarrow> nat \<Rightarrow> buddy \<Rightarrow> nat list \<Rightarrow> nat list \<Rightarrow> (buddy \<times> (nat list) res) option \<Rightarrow> bool" where
  "range_taken c s hi mm dfs al res \<longleftrightarrow> (\<exists>m new. took c mm new m \<and>
     (res = Some (m, Inr (al @ new)) \<and> covered m new = {s..<hi} \<inter> covered mm dfs \<or>
      res = do { m \<leftarrow> drm_buddy_free_list m (al @ new); Some (m, Inl ENOSPC) } \<and>
        (\<exists>x b. slab mm x = Some b \<and> blocked mm s hi b \<and> ival mm b \<subseteq> covered mm dfs)))"

text \<open>The result of the rest of the walk, carried over a block that is taken, and over a step down.\<close>

lemma range_taken_take:
  assumes b: "slab mm p = Some b" "ival mm b \<subseteq> {s..<hi}" "0 < len mm b" and pr: "\<forall>y\<in>set rest. bytes_of mm p \<inter> bytes_of mm y = {}"
    and m: "took c mm [p] m" "slab m = (slab mm)(p \<mapsto> set_state DRM_BUDDY_ALLOCATED b)" and res: "range_taken c s hi m rest (al @ [p]) res"
  shows "range_taken c s hi mm (p # rest) al res"
proof -
  have bp: "bytes_of mm p = ival mm b" using b(1) by (simp add: bytes_of_def)
  then have ne: "bytes_of mm p \<noteq> {}" using b(3) by (simp add: ival_def)
  then have pn: "p \<notin> set rest" using pr by auto
  have fr: "same_frame mm m" "p \<in> allocated m" using m(1) by (simp_all add: took_def)
  note fc = frame_cong(2) [OF fr(1)]
  have cg: "covered m rest = covered mm rest" by (rule apart_cong(2) [OF fr(1)]) (use pn m(2) in auto)
  obtain m1 new where n: "took c m new m1"
    "res = Some (m1, Inr (al @ [p] @ new)) \<and> covered m1 new = {s..<hi} \<inter> covered m rest \<or>
     res = do { m \<leftarrow> drm_buddy_free_list m1 (al @ [p] @ new); Some (m, Inl ENOSPC) } \<and>
     (\<exists>x b. slab m x = Some b \<and> blocked m s hi b \<and> ival m b \<subseteq> covered m rest)"
    using res unfolding range_taken_def append.assoc by auto
  have tp: "took c mm ([p] @ new) m1" by (rule took_trans [OF m(1) n(1)])
  have "slab m1 p = slab m p" "same_frame mm m1" using n(1) tp fr(2) by (simp_all add: took_def)
  then have "bytes_of m1 p = ival mm b" using m(2) frame_cong(2) [of mm m1] by (simp add: bytes_of_def) (simp add: ival_def len_def)
  then have cov: "covered m1 ([p] @ new) = {s..<hi} \<inter> covered mm (p # rest)" if "covered m1 new = {s..<hi} \<inter> covered m rest"
    using that b(2) bp cg by (auto simp: covered_def)
  have blk: "\<exists>x b. slab mm x = Some b \<and> blocked mm s hi b \<and> ival mm b \<subseteq> covered mm (p # rest)"
    if d: "slab m x = Some d" "blocked m s hi d" "ival m d \<subseteq> covered m rest" for x d
  proof -
    have "x \<noteq> p"
    proof
      assume "x = p"
      then have "d = set_state DRM_BUDDY_ALLOCATED b" using d(1) m(2) by simp
      then have "ival m d = bytes_of mm p" unfolding bp fc by (simp add: ival_def len_def)
      then have "bytes_of mm p \<subseteq> covered mm rest" using d(3) cg by simp
      then have "bytes_of mm p = {}" using pr unfolding covered_def by blast
      then show False using ne by simp
    qed
    then have "slab mm x = Some d" using d(1) m(2) by simp
    moreover have "blocked mm s hi d" using d(2) fc by (simp add: blocked_def)
    moreover have "ival mm d \<subseteq> covered mm (p # rest)" using d(3) fc cg by (auto simp: covered_def)
    ultimately show ?thesis by blast
  qed
  show ?thesis
    unfolding range_taken_def using tp n(2) cov blk by (intro exI [of _ m1] exI [of _ "[p] @ new"]) blast
qed

lemma range_taken_descend:
  assumes d: "descends c mm p b m l r bl br" and b: "slab mm p = Some b" "\<not> ival mm b \<subseteq> {s..<hi}"
    and dfs: "\<forall>x\<in>set (p # rest). slab mm x \<noteq> None" "apart mm (p # rest)" "geometry mm"
    and res: "range_taken c s hi m (l # r # rest) al res"
  shows "range_taken c s hi mm (p # rest) al res"
proof -
  note cov = descends_list(2) [OF d b(1) dfs]
  have k: "keeps c mm m" "same_frame mm m" using d by (simp_all add: descends_def keeps_def)
  note fc = frame_cong(2) [OF k(2)]
  obtain b' where b': "slab m p = Some b'" "ord b' = ord b" "off b' = off b" "is_split b'"
    using d by (auto simp: descends_def)
  obtain m1 new where n: "took c m new m1"
    "res = Some (m1, Inr (al @ new)) \<and> covered m1 new = {s..<hi} \<inter> covered m (l # r # rest) \<or>
     res = do { m \<leftarrow> drm_buddy_free_list m1 (al @ new); Some (m, Inl ENOSPC) } \<and>
     (\<exists>x b. slab m x = Some b \<and> blocked m s hi b \<and> ival m b \<subseteq> covered m (l # r # rest))"
    using res unfolding range_taken_def by auto
  have tp: "took c mm new m1" using took_trans [OF took_nil [OF k(1)] n(1)] by simp
  have blk: "\<exists>x b. slab mm x = Some b \<and> blocked mm s hi b \<and> ival mm b \<subseteq> covered mm (p # rest)"
    if e: "slab m x = Some e" "blocked m s hi e" "ival m e \<subseteq> covered m (l # r # rest)" for x e
  proof -
    have "slab mm x = Some e"
    proof (cases "is_split b")
      case True
      then show ?thesis using e(1) d by (simp add: descends_def)
    next
      case False
      have "ival m b' = ival mm b" unfolding fc by (simp add: b' ival_def len_def)
      then have "x \<noteq> p" using e(1,2) b'(1,4) b(2) by (auto simp: blocked_def dest: state_exclusive)
      moreover have "x \<noteq> l" "x \<noteq> r"
        using e(1,2) d False by (auto simp: descends_def blocked_def dest: state_exclusive)
      ultimately show ?thesis using e(1) d False by (simp add: descends_def)
    qed
    moreover have "blocked mm s hi e" "ival mm e \<subseteq> covered mm (p # rest)" using e(2,3) fc cov unfolding blocked_def by simp_all
    ultimately show ?thesis by blast
  qed
  show ?thesis
    unfolding range_taken_def using tp n(2) cov blk by (intro exI [of _ m1] exI [of _ new]) auto
qed

lemma alloc_range_loop_taken:
  assumes "buddy_wf (attach c mm)" "cut_ok c mm" "plenty mm" "\<forall>x\<in>set dfs. slab mm x \<noteq> None" "apart mm dfs"
    and "unat start = s" "unat stop = hi - 1" "s < hi" "unat (chunk_size mm) dvd s" "unat (chunk_size mm) dvd hi"
  shows "range_taken c s hi mm dfs al (alloc_range_loop start stop mm dfs al)"
  using assms
proof (induction "work mm dfs" arbitrary: mm dfs al rule: less_induct)
  case less
  note wf = less.prems(1) and cut = less.prems(2) and ok = less.prems(3) and dom = less.prems(4) and ap = less.prems(5)
    and st = less.prems(6,7,8) and al = less.prems(9,10)
  show ?case
  proof (cases dfs)
    case Nil
    then show ?thesis
      using took_nil [OF keeps_refl [OF wf]]
      unfolding range_taken_def by (intro exI [of _ mm] exI [of _ "[]"]) (simp add: alloc_range_loop.simps covered_def)
  next
    case (Cons p rest)
    obtain b where b: "slab mm p = Some b" using dom Cons by auto
    note bo = attached_block [OF wf b]
    note tests = test_values [OF bo(3,2)]
    let ?be = "drm_buddy_block_offset b + drm_buddy_block_size mm b - 1"
    have ov: "overlaps start stop (drm_buddy_block_offset b) ?be \<longleftrightarrow> s < off b + len mm b \<and> off b < hi"
      unfolding tests st(1,2) using st(3) by auto
    have co: "contains start stop (drm_buddy_block_offset b) ?be \<longleftrightarrow> s \<le> off b \<and> off b + len mm b \<le> hi"
      unfolding tests st(1,2) using st(3) by auto
    have rest: "\<forall>x\<in>set rest. slab mm x \<noteq> None" "apart mm rest" and pr: "\<forall>y\<in>set rest. bytes_of mm p \<inter> bytes_of mm y = {}"
      and bp: "bytes_of mm p = ival mm b"
      using dom ap b Cons by (auto simp: apart_def bytes_of_def)
    have "0 < (2 :: nat) ^ ord b" "work mm dfs = (2 * 2 ^ ord b - 1) + work mm rest" using b by (simp, simp add: Cons work_def del: One_nat_def)
    then have wk: "work mm rest < work mm dfs" by linarith
    have lp: "0 < len mm b" by (rule len_pos [OF bo(3)])
    then have ne: "bytes_of mm p \<noteq> {}" by (simp add: bp ival_def)
    then have pn: "p \<notin> set rest" using pr by auto
    note step = alloc_range_loop.simps [of start stop mm dfs al, unfolded Cons list.case b Option.bind.simps Let_def]
    show ?thesis
    proof (cases "s < off b + len mm b \<and> off b < hi")
      case False
      then have n: "{s..<hi} \<inter> ival mm b = {}" by (auto simp: ival_def)
      have "alloc_range_loop start stop mm dfs al = alloc_range_loop start stop mm rest al"
        using False ov unfolding step Cons by simp
      moreover have "{s..<hi} \<inter> covered mm dfs = {s..<hi} \<inter> covered mm rest" "covered mm rest \<subseteq> covered mm dfs"
        using n bp by (auto simp: covered_def Cons)
      ultimately show ?thesis
        using less.hyps [OF wk wf cut ok rest(1,2) st al, of al] unfolding range_taken_def by (metis (no_types, lifting) order.trans)
    next
      case True
      then have hit: "{s..<hi} \<inter> ival mm b \<noteq> {}" using lp st(3) by (auto simp: ival_def intro!: exI [of _ "max s (off b)"])
      have sub: "ival mm b \<subseteq> covered mm dfs" using bp by (auto simp: covered_def Cons)
      have fail: ?thesis if "alloc_range_loop start stop mm dfs al = do { m \<leftarrow> drm_buddy_free_list mm al; Some (m, Inl ENOSPC) }" "blocked mm s hi b"
        unfolding range_taken_def
        using took_nil [OF keeps_refl [OF wf]] that b sub by (intro exI [of _ mm] exI [of _ "[]"]) auto
      show ?thesis
      proof (cases "is_allocated b")
        case a: True
        show ?thesis by (rule fail) (use True a ov hit in \<open>simp_all add: step Cons blocked_def\<close>)
      next
        case na: False
        show ?thesis
        proof (cases "s \<le> off b \<and> off b + len mm b \<le> hi")
          case inside: True
          then have sr: "ival mm b \<subseteq> {s..<hi}" by (auto simp: ival_def)
          show ?thesis
          proof (cases "is_free b")
            case False
            then have "is_split b" using na bo(2) by (auto simp: block_ok_def)
            then show ?thesis by (intro fail) (use True na inside False ov co hit sr in \<open>simp_all add: step Cons blocked_def\<close>)
          next
            case fr: True
            obtain m where m: "mark_allocated mm p = Some m" "drm_buddy_block_size m b = drm_buddy_block_size mm b"
              "took c mm [p] (m\<lparr>avail := avail m - drm_buddy_block_size m b\<rparr>)" "slab m = (slab mm)(p \<mapsto> set_state DRM_BUDDY_ALLOCATED b)"
              using take_block [OF wf b fr] by blast
            let ?m = "m\<lparr>avail := avail m - drm_buddy_block_size m b\<rparr>"
            have tk: "took c mm [p] ?m" and sl: "slab ?m = (slab mm)(p \<mapsto> set_state DRM_BUDDY_ALLOCATED b)" using m(3,4) by simp_all
            have fr': "same_frame mm ?m" "buddy_wf (attach c ?m)" using tk by (simp_all add: took_def)
            have same: "slab ?m x = slab mm x" if "x \<in> set rest" for x using that pn sl by auto
            have "range_taken c s hi ?m rest (al @ [p]) (alloc_range_loop start stop ?m rest (al @ [p]))"
              by (rule less.hyps [OF _ fr'(2) _ _ _ _ st])
                (use wk cut ok rest apart_cong [of mm ?m rest, OF fr'(1) same] same fr'(1) al sl pn in \<open>auto simp: cut_ok_def plenty_def same_frame_def\<close>)
            then have "range_taken c s hi mm dfs al (alloc_range_loop start stop ?m rest (al @ [p]))"
              unfolding Cons by (rule range_taken_take [OF b sr lp pr tk sl])
            then show ?thesis using True na inside fr ov co m(1) by (simp add: step Cons)
          qed
        next
          case cut_block: False
          have "is_split b \<or> ord b \<noteq> 0"
            using smallest_contained [OF bo(3,2) _ al] True cut_block by blast
          then obtain m l r bl br where d: "(if is_split b then Some (mm, Inr ()) else split_block mm p) = Some (m, Inr ())" "descends c mm p b m l r bl br"
            using step_down [OF wf cut ok b na] by blast
          note dl = descends_list [OF d(2) b dom [unfolded Cons] ap [unfolded Cons] bo(3), folded Cons]
          have k: "keeps c mm m" "same_frame mm m" "buddy_wf (attach c m)" using d(2) by (simp_all add: descends_def keeps_def)
          have "\<exists>b'. slab m p = Some b' \<and> left b' = Some l \<and> right b' = Some r" using d(2) by (auto simp: descends_def)
          moreover have "overlaps start stop (drm_buddy_block_offset b) ?be" "\<not> contains start stop (drm_buddy_block_offset b) ?be"
            using True cut_block ov co by blast+
          ultimately have "alloc_range_loop start stop mm dfs al = alloc_range_loop start stop m (l # r # rest) al"
            using na d(1) by (auto simp: step Cons split del: if_split)
          moreover have "range_taken c s hi m (l # r # rest) al (alloc_range_loop start stop m (l # r # rest) al)"
            by (rule less.hyps [OF dl(3) k(3) keeps_cut [OF k(1) cut] keeps_plenty [OF k(1) ok] dl(4,1) st])
              (use al k(2) in \<open>simp_all add: same_frame_def\<close>)
          moreover have "\<not> ival mm b \<subseteq> {s..<hi}" using cut_block lp by (auto simp: ival_def)
          ultimately show ?thesis
            unfolding Cons using range_taken_descend [OF d(2) b _ dom [unfolded Cons] ap [unfolded Cons] bo(3)] by metis
        qed
      qed
    qed
  qed
qed

end
