(* ===== verification/Buddy_Pick.thy ===== *)
theory Buddy_Pick
  imports Buddy_Range
begin

text \<open>
  The two ways to look for a free block of an order, by a walk over the trees within a range and from
  the free lists, the contract both keep, and the loop over the orders, proved once from the
  contract.
\<close>

section \<open>The contract\<close>

text \<open>
  \<open>inside\<close> is what holds of the blocks picked, \<open>stuck\<close> what holds of the state when none is found.
\<close>

definition picked :: "(buddy \<Rightarrow> block \<Rightarrow> bool) \<Rightarrow> buddy \<Rightarrow> nat \<Rightarrow> nat \<Rightarrow> bool" where
  "picked inside mm n p \<longleftrightarrow> (\<exists>b. slab mm p = Some b \<and> is_free b \<and> ord b = n \<and> inside mm b)"

locale picker =
  fixes pick :: "buddy \<Rightarrow> nat \<Rightarrow> (buddy \<times> nat res) option" and inside :: "buddy \<Rightarrow> block \<Rightarrow> bool"
    and stuck :: "buddy \<Rightarrow> nat \<Rightarrow> bool" and allowed :: "buddy \<Rightarrow> bool"
  assumes pick_returns: "buddy_wf mm \<Longrightarrow> plenty mm \<Longrightarrow> allowed mm \<Longrightarrow> n \<le> max_order mm \<Longrightarrow>
      \<exists>mm' r. pick mm n = Some (mm', r) \<and> keeps None mm mm' \<and>
        (case r of Inl e \<Rightarrow> stuck mm' n | Inr p \<Rightarrow> picked inside mm' n p)"
    and inside_frame: "same_frame mm mm' \<Longrightarrow> off b' = off b \<Longrightarrow> ord b' = ord b \<Longrightarrow> inside mm b \<Longrightarrow> inside mm' b'"
    and allowed_frame: "same_frame mm mm' \<Longrightarrow> allowed mm \<Longrightarrow> allowed mm'"
begin

lemma pick_order_returns:
  assumes "buddy_wf mm" "plenty mm" "allowed mm" "unat lo \<le> unat hi" "unat hi \<le> max_order mm"
  shows "\<exists>mm' r. pick_order pick lo mm hi = Some (mm', r) \<and> keeps None mm mm' \<and>
    (case r of Inl e \<Rightarrow> e = ENOSPC \<and> stuck mm' (unat lo)
     | Inr (p, n) \<Rightarrow> unat lo \<le> unat n \<and> unat n \<le> unat hi \<and> picked inside mm' (unat n) p)"
  using assms
proof (induction "unat hi" arbitrary: mm hi rule: less_induct)
  case less
  obtain m r where p: "pick mm (unat hi) = Some (m, r)" "keeps None mm m"
    "case r of Inl e \<Rightarrow> stuck m (unat hi) | Inr p \<Rightarrow> picked inside m (unat hi) p"
    using pick_returns [OF less.prems(1,2,3,5)] by blast
  show ?case
  proof (cases "\<exists>x. r = Inr x \<or> hi = lo")
    case True
    then show ?thesis using p less.prems(4) by (auto simp: pick_order.simps [of pick lo mm hi] split: sum.splits)
  next
    case False
    then have e: "pick_order pick lo mm hi = pick_order pick lo m (hi - 1)"
      using p(1) by (cases r) (auto simp: pick_order.simps [of pick lo mm hi])
    have "lo \<noteq> hi" using False by auto
    then have lt: "unat lo < unat hi" using less.prems(4) by (simp add: word_unat_eq_iff)
    then have u: "unat (hi - 1) = unat hi - 1" by (simp add: unat_sub word_le_nat_alt)
    have m: "buddy_wf m" "plenty m" "allowed m" "max_order m = max_order mm"
      using p(2) keeps_plenty [OF p(2) less.prems(2)] allowed_frame [OF _ less.prems(3)] by (auto simp: keeps_def same_frame_def)
    have h: "unat (hi - 1) < unat hi" "unat lo \<le> unat (hi - 1)" "unat (hi - 1) \<le> max_order m" using lt u m(4) less.prems(5) by simp_all
    obtain mm' r' where i: "pick_order pick lo m (hi - 1) = Some (mm', r')" "keeps None m mm'"
      "case r' of Inl e \<Rightarrow> e = ENOSPC \<and> stuck mm' (unat lo)
       | Inr (p, n) \<Rightarrow> unat lo \<le> unat n \<and> unat n \<le> unat (hi - 1) \<and> picked inside mm' (unat n) p"
      using less.hyps [OF h(1) m(1-3) h(2,3)] by blast
    show ?thesis
      using e i keeps_trans [OF p(2) i(2)] u by (auto split: sum.splits prod.splits)
  qed
qed

end

section \<open>Within a range\<close>

definition in_range :: "nat \<Rightarrow> nat \<Rightarrow> buddy \<Rightarrow> block \<Rightarrow> bool" where
  "in_range s hi mm b \<longleftrightarrow> s \<le> off b \<and> off b + len mm b \<le> hi"

definition on_chunks :: "nat \<Rightarrow> nat \<Rightarrow> buddy \<Rightarrow> bool" where
  "on_chunks s hi mm \<longleftrightarrow> unat (chunk_size mm) dvd s \<and> unat (chunk_size mm) dvd hi"

lemma bias_loop_returns:
  assumes "buddy_wf mm" "plenty mm" "\<forall>x\<in>set dfs. slab mm x \<noteq> None" "apart mm dfs"
    and "on_chunks (unat start) (unat stop + 1) mm"
  shows "\<exists>mm' r. bias_loop start stop n mm dfs = Some (mm', r) \<and> keeps None mm mm' \<and>
    (case r of Inl e \<Rightarrow> True | Inr p \<Rightarrow> picked (in_range (unat start) (unat stop + 1)) mm' n p)"
  using assms
proof (induction "work mm dfs" arbitrary: mm dfs rule: less_induct)
  case less
  note wf = less.prems(1) and ok = less.prems(2) and dom = less.prems(3) and ap = less.prems(4) and al = less.prems(5)
  have wf': "buddy_wf (attach None mm)" "cut_ok None mm" using wf by (simp_all add: cut_ok_def)
  show ?case
  proof (cases dfs)
    case Nil
    then show ?thesis using keeps_refl [OF wf'(1)] by (simp add: bias_loop.simps)
  next
    case (Cons p rest)
    obtain b where b: "slab mm p = Some b" using dom Cons by auto
    note bo = attached_block [OF wf'(1) b]
    note tests = test_values [OF bo(3,2), of start stop]
    let ?bs = "drm_buddy_block_offset b" and ?be = "drm_buddy_block_offset b + drm_buddy_block_size mm b - 1"
    note step = bias_loop.simps [of start stop n mm dfs, unfolded Cons list.case b Option.bind.simps Let_def, folded Cons]
    have rest: "\<forall>x\<in>set rest. slab mm x \<noteq> None" "apart mm rest" using dom ap Cons by (auto simp: apart_def)
    have "0 < (2 :: nat) ^ ord b" "work mm dfs = (2 * 2 ^ ord b - 1) + work mm rest" using b by (simp, simp add: Cons work_def del: One_nat_def)
    then have wk: "work mm rest < work mm dfs" by linarith
    note IH = less.hyps [OF wk wf ok rest al]
    show ?thesis
    proof (cases "ord b < n \<or> \<not> overlaps start stop ?bs ?be \<or> is_allocated b \<or> contains start stop ?bs ?be \<and> n = ord b \<and> \<not> is_free b")
      case True
      then have "bias_loop start stop n mm dfs = bias_loop start stop n mm rest" unfolding step by auto
      then show ?thesis using IH by simp
    next
      case go: False
      show ?thesis
      proof (cases "contains start stop ?bs ?be \<and> n = ord b")
        case True
        then have "bias_loop start stop n mm dfs = Some (mm, Inr p)" unfolding step using go by auto
        moreover have "picked (in_range (unat start) (unat stop + 1)) mm n p"
          using True go b tests(2) by (auto simp: picked_def in_range_def)
        ultimately show ?thesis using keeps_refl [OF wf'(1)] by simp
      next
        case False
        have "ord b \<noteq> 0"
        proof
          assume z: "ord b = 0"
          then have "unat start \<le> off b" "off b + len mm b \<le> unat stop + 1"
            using smallest_contained [OF bo(3,2) z, of "unat start" "unat stop + 1"] go al tests(1) by (auto simp: on_chunks_def)
          then show False using tests(2) go z False by auto
        qed
        then obtain m l r bl br where d: "(if is_split b then Some (mm, Inr ()) else split_block mm p) = Some (m, Inr ())" "descends None mm p b m l r bl br"
          using step_down [OF wf' ok b] go by blast
        note dl = descends_list [OF d(2) b dom [unfolded Cons] ap [unfolded Cons] bo(3), folded Cons]
        have k: "keeps None mm m" "same_frame mm m" "buddy_wf m" using d(2) by (simp_all add: descends_def keeps_def)
        have "\<exists>b'. slab m p = Some b' \<and> left b' = Some l \<and> right b' = Some r" using d(2) by (auto simp: descends_def)
        then have "bias_loop start stop n mm dfs = bias_loop start stop n m (l # r # rest)"
          unfolding step using go False d(1) by (auto split del: if_split)
        moreover have "\<exists>mm' r'. bias_loop start stop n m (l # r # rest) = Some (mm', r') \<and> keeps None m mm' \<and>
            (case r' of Inl e \<Rightarrow> True | Inr p \<Rightarrow> picked (in_range (unat start) (unat stop + 1)) mm' n p)"
          by (rule less.hyps [OF dl(3) k(3) keeps_plenty [OF k(1) ok] dl(4,1)]) (use al k(2) in \<open>simp add: on_chunks_def same_frame_def\<close>)
        ultimately show ?thesis using keeps_trans [OF k(1)] by auto
      qed
    qed
  qed
qed

lemma wf_roots:
  assumes "buddy_wf mm"
  shows "\<forall>x\<in>set (roots mm). slab mm x \<noteq> None" "apart mm (roots mm)" "covered mm (roots mm) = {0..<unat (mm_size mm)}"
proof -
  have r: "roots_ok mm" using assms by (simp add: buddy_wf_def)
  show "\<forall>x\<in>set (roots mm). slab mm x \<noteq> None" "covered mm (roots mm) = {0..<unat (mm_size mm)}"
    using r by (auto simp: roots_ok_def covered_def bytes_of_def)
  have "distinct (roots mm)" using r by (simp add: roots_ok_def)
  then have "roots mm ! i \<noteq> roots mm ! j" if "i < j" "j < length (roots mm)" for i j
    using that by (simp add: distinct_conv_nth)
  then show "apart mm (roots mm)"
    using r unfolding apart_def sorted_wrt_iff_nth_less roots_ok_def bytes_of_def by (metis nth_mem order.strict_trans)
qed

interpretation bias: picker "alloc_range_bias start end" "in_range (unat start) (unat (end - 1) + 1)" "\<lambda>_ _. True" "on_chunks (unat start) (unat (end - 1) + 1)"
  for start "end"
proof (unfold_locales, goal_cases)
  case (1 mm n)
  show ?case
    using bias_loop_returns [OF 1(1,2) wf_roots(1,2) [OF 1(1)] 1(3), of n] unfolding alloc_range_bias_def
    by (auto split: sum.splits)
qed (auto simp: in_range_def on_chunks_def same_frame_def len_def)

section \<open>From the free lists\<close>

lemma max_block_member:
  assumes "\<And>x. x \<in> set ps \<Longrightarrow> slab mm x \<noteq> None" "slab mm m \<noteq> None"
  shows "\<exists>p. max_block mm m ps = Some p \<and> p \<in> insert m (set ps)"
  using assms
proof (induction ps arbitrary: m)
  case (Cons x ps)
  have "slab mm x \<noteq> None" using Cons.prems(1) by simp
  then obtain b mb where b: "slab mm x = Some b" "slab mm m = Some mb" using Cons.prems(2) by (metis not_None_eq)
  let ?n = "if drm_buddy_block_offset mb < drm_buddy_block_offset b then x else m"
  have "\<exists>p. max_block mm ?n ps = Some p \<and> p \<in> insert ?n (set ps)" by (rule Cons.IH) (use Cons.prems b in auto)
  then show ?case using b by auto
qed simp

lemma find_free_result:
  assumes wf: "buddy_wf mm" and ords: "\<forall>i\<in>set ords. i \<le> max_order mm"
  shows "\<exists>f. find_free mm flags ords = Some f \<and>
    (case f of None \<Rightarrow> \<forall>i\<in>set ords. \<forall>x b. slab mm x = Some b \<longrightarrow> is_free b \<longrightarrow> ord b \<noteq> i
     | Some (p, i) \<Rightarrow> i \<in> set ords \<and> (\<exists>b. slab mm p = Some b \<and> is_free b \<and> ord b = i))"
  using ords
proof (induction ords)
  case (Cons i js)
  note fl = wf_free_list [OF wf, of i]
  let ?l = "free_list mm ! i"
  have i: "i < length (free_list mm)" "\<And>x. x \<in> set ?l \<longleftrightarrow> (\<exists>b. slab mm x = Some b \<and> is_free b \<and> ord b = i)"
    using fl Cons.prems by auto
  show ?case
  proof (cases ?l)
    case Nil
    then have "find_free mm flags (i # js) = find_free mm flags js"
      using i(1) by (simp add: buf_get_def get_maxblock_def)
    moreover have "\<forall>x b. slab mm x = Some b \<longrightarrow> is_free b \<longrightarrow> ord b \<noteq> i" using i(2) Nil by auto
    ultimately show ?thesis using Cons by (fastforce split: option.splits)
  next
    case (Cons q qs)
    have "\<And>x. x \<in> set (q # qs) \<Longrightarrow> slab mm x \<noteq> None" using i(2) Cons by auto
    then obtain x where x: "max_block mm q (q # qs) = Some x" "x \<in> set (q # qs)"
      using max_block_member [of "q # qs" mm q] by auto
    define p where "p = (if flags AND DRM_BUDDY_TOPDOWN_ALLOCATION \<noteq> 0 then x else q)"
    have "find_free mm flags (i # js) = Some (Some (p, i))"
      using i(1) Cons x(1) by (simp add: buf_get_def get_maxblock_def p_def)
    moreover have "p \<in> set ?l" using Cons x(2) by (simp add: p_def)
    ultimately show ?thesis using i(2) by auto
  qed
qed simp

lemma split_down_returns:
  assumes "buddy_wf mm" "plenty mm" "slab mm p = Some b" "is_free b" "ord b = i" "n \<le> i"
  shows "\<exists>mm' q. split_down mm p i n = Some (mm', Inr q) \<and> keeps None mm mm' \<and> picked (\<lambda>_ _. True) mm' n q"
  using assms
proof (induction i arbitrary: mm p b)
  case 0
  then show ?case using keeps_refl [of None mm] by (auto simp: picked_def)
next
  case (Suc i)
  show ?case
  proof (cases "Suc i = n")
    case True
    then show ?thesis using keeps_refl [of None mm] Suc.prems by (auto simp: picked_def)
  next
    case False
    have ns: "\<not> is_split b" "\<not> is_allocated b" using Suc.prems(4) by (auto dest: state_exclusive)
    obtain m l r bl br where d: "split_block mm p = Some (m, Inr ())" "descends None mm p b m l r bl br"
      using step_down [of None mm p b] Suc.prems ns by (auto simp: cut_ok_def)
    have k: "keeps None mm m" "slab m r = Some br" "is_free br" "ord br = i" "\<exists>b'. slab m p = Some b' \<and> right b' = Some r"
      using d(2) ns Suc.prems(5) by (auto simp: descends_def halves_def)
    have "buddy_wf m" "plenty m" using k(1) keeps_plenty [OF k(1) Suc.prems(2)] by (simp_all add: keeps_def)
    then obtain mm' q where "split_down m r i n = Some (mm', Inr q)" "keeps None m mm'" "picked (\<lambda>_ _. True) mm' n q"
      using Suc.IH [of m r br] k Suc.prems(6) False by auto
    then show ?thesis using d(1) k(5) False keeps_trans [OF k(1)] by auto
  qed
qed

definition no_free :: "buddy \<Rightarrow> nat \<Rightarrow> bool" where
  "no_free mm n \<longleftrightarrow> (\<forall>x b. slab mm x = Some b \<longrightarrow> is_free b \<longrightarrow> ord b < n)"

interpretation freelist: picker "alloc_from_freelist flags" "\<lambda>_ _. True" no_free "\<lambda>_. True" for flags
proof (unfold_locales, goal_cases)
  case (1 mm n)
  have le: "\<forall>i\<in>set [n..<max_order mm + 1]. i \<le> max_order mm" by auto
  obtain f where f: "find_free mm flags [n..<max_order mm + 1] = Some f"
    "case f of None \<Rightarrow> \<forall>i\<in>set [n..<max_order mm + 1]. \<forall>x b. slab mm x = Some b \<longrightarrow> is_free b \<longrightarrow> ord b \<noteq> i
     | Some (p, i) \<Rightarrow> i \<in> set [n..<max_order mm + 1] \<and> (\<exists>b. slab mm p = Some b \<and> is_free b \<and> ord b = i)"
    using find_free_result [OF 1(1), of "[n..<max_order mm + 1]" flags, OF le] by blast
  show ?case
  proof (cases f)
    case None
    have "no_free mm n"
      unfolding no_free_def
    proof (intro allI impI)
      fix x b assume b: "slab mm x = Some b" "is_free b"
      have "ord b \<le> max_order mm" by (rule wf_block(4) [OF 1(1) b(1)])
      moreover have "ord b \<notin> set [n..<max_order mm + 1]" using f(2) b unfolding None option.case by blast
      ultimately show "ord b < n" by auto
    qed
    then show ?thesis using f(1) None keeps_refl [of None mm] 1(1) by (simp add: alloc_from_freelist_def)
  next
    case (Some x)
    obtain p i where x: "x = (p, i)" by (cases x)
    obtain b where b: "slab mm p = Some b" "is_free b" "ord b = i" "n \<le> i" using f(2) Some x by auto
    show ?thesis using split_down_returns [OF 1(1,2) b] f(1) Some x b(1,2) by (fastforce simp: alloc_from_freelist_def)
  qed
qed auto

end
