(* ===== verification/Buddy_Bits.thy ===== *)
theory Buddy_Bits
  imports Buddy_Inv
begin

text \<open>
  What the bit functions of the kernel compute on the sizes the allocator is given: rounding to a
  multiple of a power of two, and the sum of powers of two a size is.
\<close>

section \<open>Rounding\<close>

lemma unat_round_down:
  assumes "unat c = 2 ^ k" "k < 64"
  shows "unat (round_down n c) = unat n div unat c * unat c"
proof -
  have "round_down n c = push_bit k (drop_bit k n)"
    unfolding round_down_def low_bits [OF assms] by (rule bit_word_eqI) (auto simp: bit_simps)
  moreover have "push_bit k (drop_bit k (unat n)) = unat n div 2 ^ k * 2 ^ k" by (simp add: push_bit_eq_mult drop_bit_eq_div)
  moreover have "unat n div 2 ^ k * 2 ^ k < 2 ^ 64" using div_times_less_eq_dividend [of "unat n" "2 ^ k"] unsigned_less [of n, where 'a = nat]
    by (simp del: div_times_less_eq_dividend add: order.strict_trans1)
  moreover have "take_bit 64 (unat n) = unat n" using unsigned_less [of n, where 'a = nat] by (intro take_bit_nat_eq_self) simp
  ultimately have "unat (round_down n c) = take_bit 64 (unat n div 2 ^ k * 2 ^ k)"
    by (simp add: unsigned_push_bit_eq unsigned_drop_bit_eq)
  also have "\<dots> = unat n div 2 ^ k * 2 ^ k" by (rule take_bit_nat_eq_self) fact
  finally show ?thesis by (simp add: assms(1))
qed

section \<open>The bits of a size\<close>

lemma hweight64_card: "hweight64 n = card {i. i < 64 \<and> bit n i}"
proof -
  have "{i. i < 64 \<and> bit n i} = {i. bit n i} \<inter> set [0..<64]" by auto
  then show ?thesis unfolding hweight64_def by (simp only: distinct_length_filter [OF distinct_upt])
qed

lemma top_bit_gone:
  assumes "0 < unat n"
  defines "r \<equiv> rounddown_pow_of_two n"
  shows "hweight64 n = Suc (hweight64 (n - r))" "unat (n - r) = unat n - 2 ^ ilog2 n" "unat (n - r) < 2 ^ ilog2 n"
proof -
  note v = ilog2_values [OF assms(1)]
  have r: "unat r = 2 ^ ilog2 n" unfolding r_def by (rule rounddown_values [OF assms(1)])
  then show u: "unat (n - r) = unat n - 2 ^ ilog2 n" using v(1) by (simp add: unat_sub word_le_nat_alt)
  then show l: "unat (n - r) < 2 ^ ilog2 n" using v(2) by simp
  have b: "bit n (ilog2 n)" by (rule bit_of_size [OF v])
  then have e: "n - r = unset_bit (ilog2 n) n" by (simp add: unset_bit_eq r_def rounddown_pow_of_two_def)
  have "{i. i < 64 \<and> bit n i} = insert (ilog2 n) {i. i < 64 \<and> bit (n - r) i}"
    unfolding e using b v(3) by (auto simp: bit_unset_bit_iff)
  moreover have "ilog2 n \<notin> {i. i < 64 \<and> bit (n - r) i}" unfolding e by (simp add: bit_unset_bit_iff)
  ultimately show "hweight64 n = Suc (hweight64 (n - r))" by (simp add: hweight64_card)
qed

end
