(* ===== verification/Buddy_Alloc.thy ===== *)
theory Buddy_Alloc
  imports Buddy_Pick Buddy_Bits
begin

text \<open>
  Allocating blocks: the loop that splits the request into powers of two, proved from the contract of
  the pickers, and allocation of a range; then the operation as a whole.
\<close>

section \<open>Cutting the request into powers of two\<close>

lemma fls_values:
  assumes "0 < unat pages" "unat pages < 2 ^ 32"
  shows "2 ^ unat (fls pages - 1) \<le> unat pages" "unat pages < 2 ^ (unat (fls pages - 1) + 1)"
proof -
  let ?f = "floorlog 2 (unat pages)"
  have b: "2 ^ (?f - 1) \<le> unat pages \<and> unat pages < 2 ^ ?f" by (rule floorlog_bounds) (use assms in auto)
  then have "(2 :: nat) ^ (?f - 1) < 2 ^ 32" using assms(2) by linarith
  then have "?f - 1 < 32" by (rule power_less_imp_less_exp [rotated]) simp
  then have f: "0 < ?f" "?f \<le> 32" using assms(1) by (auto simp: floorlog_def)
  have "unat (ucast pages :: u32) = unat pages" using assms(2) by (simp add: unsigned_ucast_eq take_bit_nat_eq_self)
  then have "unat (fls pages) = ?f" using f(2) by (simp add: fls_def unat_of_nat)
  then have "unat (fls pages - 1) = ?f - 1" using f(1) by (simp add: unat_sub word_le_nat_alt)
  then show "2 ^ unat (fls pages - 1) \<le> unat pages" "unat pages < 2 ^ (unat (fls pages - 1) + 1)" using b f(1) by simp_all
qed

text \<open>All blocks of a list are of the order and lie where they may.\<close>

definition all_blocks :: "(block \<Rightarrow> bool) \<Rightarrow> buddy \<Rightarrow> nat list \<Rightarrow> bool" where
  "all_blocks P mm ps \<longleftrightarrow> (\<forall>p\<in>set ps. \<exists>b. slab mm p = Some b \<and> P b)"

context picker
begin

definition blocks_taken :: "nat \<Rightarrow> nat \<Rightarrow> buddy \<Rightarrow> nat list \<Rightarrow> (buddy \<times> (nat list) res) option \<Rightarrow> bool" where
  "blocks_taken lo sz mm al res \<longleftrightarrow> (\<exists>m new. took None mm new m \<and> all_blocks (\<lambda>b. lo \<le> ord b \<and> inside m b) m new \<and>
     (res = Some (m, Inr (al @ new)) \<and> bytes m new = sz \<or>
      res = do { m \<leftarrow> drm_buddy_free_list m (al @ new); Some (m, Inl ENOSPC) } \<and> stuck m lo \<and> bytes m new < sz))"

lemma blocks_taken_take:
  assumes k: "keeps None mm m" and b: "picked inside m n p" "lo \<le> n"
    and m1: "took None m [p] m1" "slab m1 p = Some (set_state DRM_BUDDY_ALLOCATED b)" "slab m p = Some b"
    and res: "blocks_taken lo sz m1 (al @ [p]) res"
  shows "blocks_taken lo (sz + len m b) mm al res"
proof -
  obtain m2 new where n: "took None m1 new m2" "all_blocks (\<lambda>b. lo \<le> ord b \<and> inside m2 b) m2 new"
    "res = Some (m2, Inr (al @ [p] @ new)) \<and> bytes m2 new = sz \<or>
     res = do { m \<leftarrow> drm_buddy_free_list m2 (al @ [p] @ new); Some (m, Inl ENOSPC) } \<and> stuck m2 lo \<and> bytes m2 new < sz"
    using res unfolding blocks_taken_def append.assoc by blast
  have t: "took None m ([p] @ new) m2" by (rule took_trans [OF m1(1) n(1)])
  have tk: "took None mm ([p] @ new) m2" using took_trans [OF took_nil [OF k] t] by simp
  have s: "slab m2 p = Some (set_state DRM_BUDDY_ALLOCATED b)" using n(1) m1 by (simp add: took_def)
  have fr: "same_frame m m2" using t by (simp add: took_def)
  have "inside m2 (set_state DRM_BUDDY_ALLOCATED b)"
    by (rule inside_frame [OF fr, of _ b]) (use b(1) m1(3) in \<open>simp_all add: picked_def\<close>)
  then have "all_blocks (\<lambda>b. lo \<le> ord b \<and> inside m2 b) m2 ([p] @ new)"
    using n(2) s b m1(3) by (clarsimp simp: all_blocks_def picked_def)
  moreover have "bytes m2 ([p] @ new) = len m b + bytes m2 new"
    using s frame_cong(1) [OF fr] by (simp add: bytes_def) (simp add: len_def)
  ultimately show ?thesis
    unfolding blocks_taken_def using tk n(3) by (intro exI [of _ m2] exI [of _ "[p] @ new"]) auto
qed

lemma alloc_blocks_loop_taken:
  assumes "buddy_wf mm" "plenty mm" "allowed mm" "0 < unat pages" "unat pages < 2 ^ 32" "2 ^ unat lo dvd unat pages"
    "unat lo \<le> unat n" "unat pages * unat (chunk_size mm) \<le> unat (mm_size mm)"
  shows "blocks_taken (unat lo) (unat pages * unat (chunk_size mm)) mm al (alloc_blocks_loop pick lo mm pages n al)"
  using assms
proof (induction "unat pages" arbitrary: mm pages n al rule: less_induct)
  case less
  note wf = less.prems(1) and pos = less.prems(4) and small = less.prems(5)
  let ?u = "unat (chunk_size mm)"
  note f = fls_values [OF pos small]
  define h where "h = min n (fls pages - 1)"
  have uh: "unat h = min (unat n) (unat (fls pages - 1))" by (simp add: h_def min_def word_le_nat_alt)
  have "2 ^ unat lo \<le> unat pages" using less.prems(6) pos by (simp add: dvd_imp_le)
  then have "(2 :: nat) ^ unat lo < 2 ^ (unat (fls pages - 1) + 1)" using f(2) by linarith
  then have "unat lo < unat (fls pages - 1) + 1" by (rule power_less_imp_less_exp [rotated]) simp
  then have lo: "unat lo \<le> unat h" using less.prems(7) by (simp add: uh)
  have "(2 :: nat) ^ unat h \<le> 2 ^ unat (fls pages - 1)" by (rule power_increasing) (simp_all add: uh)
  then have hp: "2 ^ unat h \<le> unat pages" using f(1) by linarith
  have g: "geometry mm" using wf by (simp add: buddy_wf_def)
  have up: "0 < ?u" using g by (auto elim: geometryE)
  have "?u * 2 ^ unat h \<le> unat (mm_size mm)" using mult_le_mono2 [OF hp, of ?u] less.prems(8) unfolding mult.commute [of ?u] by (rule order.trans)
  then have "?u * 2 ^ unat h < ?u * 2 ^ (max_order mm + 1)" using g unfolding geometry_def by (blast intro: order.strict_trans1)
  then have "(2 :: nat) ^ unat h < 2 ^ (max_order mm + 1)" using up by (simp only: mult_less_cancel1)
  then have "unat h < max_order mm + 1" by (rule power_less_imp_less_exp [rotated]) simp
  then have hm: "unat h \<le> max_order mm" by simp
  note step = alloc_blocks_loop.simps [of pick lo mm pages n al, unfolded Let_def, folded h_def]
  have go: "\<not> (max_order mm < unat h \<or> h < lo)" using lo hm by (simp add: word_less_nat_alt)
  obtain m r where p: "pick_order pick lo mm h = Some (m, r)" "keeps None mm m"
    "case r of Inl e \<Rightarrow> e = ENOSPC \<and> stuck m (unat lo) | Inr (p, k) \<Rightarrow> unat lo \<le> unat k \<and> unat k \<le> unat h \<and> picked inside m (unat k) p"
    using pick_order_returns [OF wf less.prems(2,3) lo hm] by blast
  have fr: "same_frame mm m" "buddy_wf m" using p(2) by (simp_all add: keeps_def)
  show ?case
  proof (cases r)
    case (Inl e)
    then have "alloc_blocks_loop pick lo mm pages n al = do { m \<leftarrow> drm_buddy_free_list m (al @ []); Some (m, Inl ENOSPC) }"
      unfolding step using go p by simp
    then show ?thesis
      unfolding blocks_taken_def using took_nil [OF p(2)] p(3) Inl pos up
      by (intro exI [of _ m] exI [of _ "[]"]) (simp add: all_blocks_def bytes_def)
  next
    case (Inr x)
    obtain q k where x: "x = (q, k)" by (cases x)
    have k: "unat lo \<le> unat k" "unat k \<le> unat h" "picked inside m (unat k) q" using p(3) Inr x by simp_all
    obtain b where b: "slab m q = Some b" "is_free b" "ord b = unat k" using k(3) by (auto simp: picked_def)
    obtain m0 where m0: "mark_allocated m q = Some m0" "drm_buddy_block_size m0 b = drm_buddy_block_size m b"
      "took None m [q] (m0\<lparr>avail := avail m0 - drm_buddy_block_size m0 b\<rparr>)" "slab m0 = (slab m)(q \<mapsto> set_state DRM_BUDDY_ALLOCATED b)"
      using take_block [of None m q b] fr(2) b by auto
    define m1 where "m1 = m0\<lparr>avail := avail m0 - drm_buddy_block_size m0 b\<rparr>"
    have m1: "took None m [q] m1" "slab m1 q = Some (set_state DRM_BUDDY_ALLOCATED b)" "buddy_wf m1" "same_frame m m1"
      using m0(3,4) by (simp_all add: m1_def took_def)
    have k64: "unat k < 64" using k(2) hm wf_block(3) [OF fr(2) b(1)] fr(1) by (auto elim!: geometryE simp: same_frame_def)
    define pages' where "pages' = pages - push_bit (unat k) 1"
    have kp: "2 ^ unat k \<le> unat pages" using hp power_increasing [OF k(2), of "2 :: nat"] by linarith
    then have pp: "unat pages' = unat pages - 2 ^ unat k"
      using unat_bit [OF k64] by (simp add: pages'_def unat_sub word_le_nat_alt)
    have e: "alloc_blocks_loop pick lo mm pages n al =
        (if pages' = 0 then Some (m1, Inr (al @ [q])) else alloc_blocks_loop pick lo m1 pages' k (al @ [q]))"
      unfolding step using go p(1) Inr x b(1) m0(1) by (simp add: m1_def pages'_def)
    have u1: "chunk_size m1 = chunk_size mm" "mm_size m1 = mm_size mm" using fr(1) m1(4) by (simp_all add: same_frame_def)
    have "blocks_taken (unat lo) (unat pages' * ?u) m1 (al @ [q])
        (if pages' = 0 then Some (m1, Inr (al @ [q])) else alloc_blocks_loop pick lo m1 pages' k (al @ [q]))"
    proof (cases "pages' = 0")
      case True
      then show ?thesis
        unfolding blocks_taken_def using took_nil [OF keeps_refl [of None m1]] m1(3)
        by (intro exI [of _ m1] exI [of _ "[]"]) (simp add: all_blocks_def bytes_def)
    next
      case False
      then have pos': "0 < unat pages'" by (simp add: unat_gt_0)
      have "2 ^ unat lo dvd (2 :: nat) ^ unat k" using k(1) by (rule le_imp_power_dvd)
      then have d: "2 ^ unat lo dvd unat pages'" using less.prems(6) kp by (simp add: pp)
      have "blocks_taken (unat lo) (unat pages' * unat (chunk_size m1)) m1 (al @ [q]) (alloc_blocks_loop pick lo m1 pages' k (al @ [q]))"
      proof (rule less.hyps)
        show "unat pages' < unat pages" using pp kp pos by (simp add: diff_less)
        show "plenty m1" using keeps_plenty [OF p(2) less.prems(2)] m1(4) by (simp add: plenty_def same_frame_def)
        show "allowed m1" using allowed_frame [OF m1(4)] allowed_frame [OF fr(1)] less.prems(3) by blast
        show "unat pages' * unat (chunk_size m1) \<le> unat (mm_size m1)"
          using less.prems(8) mult_le_mono1 [of "unat pages'" "unat pages" ?u] pp unfolding u1 by linarith
      qed (use m1(3) pos' d k(1) pp small in auto)
      then show ?thesis using False u1 by simp
    qed
    then have "blocks_taken (unat lo) (unat pages' * ?u + len m b) mm al (alloc_blocks_loop pick lo mm pages n al)"
      unfolding e by (rule blocks_taken_take [OF p(2) k(3,1) m1(1,2) b(1)])
    moreover have "unat pages' * ?u + len m b = unat pages * ?u"
    proof -
      have "len m b = 2 ^ unat k * ?u" using b(3) fr(1) by (simp add: len_def same_frame_def mult.commute)
      then have "unat pages' * ?u + len m b = (unat pages' + 2 ^ unat k) * ?u" by (simp add: add_mult_distrib)
      then show ?thesis using pp kp by simp
    qed
    ultimately show ?thesis by simp
  qed
qed

end

end
