(* ===== verification/Buddy_Root.thy ===== *)
theory Buddy_Root
  imports Buddy_Steps Buddy_Bits
begin

text \<open>
  Setting up the allocator plants one root for each power of two of the size. The state with some of the
  roots is a well-formed allocator of the memory they cover; one more root makes one of more memory.
\<close>

section \<open>Planting a root\<close>

definition root_block :: "u64 \<Rightarrow> nat \<Rightarrow> block" where
  "root_block offset n = set_state DRM_BUDDY_FREE \<lparr>header = offset OR word_of_nat n, left = None, right = None, parent = None\<rparr>"

definition planted :: "buddy \<Rightarrow> nat \<Rightarrow> buddy" where
  "planted mm n = mm\<lparr>slab := (slab mm)(slab_next mm \<mapsto> root_block (mm_size mm) n), slab_next := slab_next mm + 1,
     free_list := (free_list mm)[n := slab_next mm # free_list mm ! n], roots := roots mm @ [slab_next mm],
     mm_size := mm_size mm + push_bit n (chunk_size mm), avail := avail mm + push_bit n (chunk_size mm)\<rparr>"

definition plantable :: "buddy \<Rightarrow> nat \<Rightarrow> bool" where
  "plantable mm n \<longleftrightarrow> n \<le> max_order mm \<and> unat (mm_size mm) + unat (chunk_size mm) * 2 ^ n < unat (chunk_size mm) * 2 ^ (max_order mm + 1) \<and>
     unat (chunk_size mm) * 2 ^ n dvd unat (mm_size mm)"

lemma root_block_facts:
  assumes "unat offset mod 4096 = 0" "n < 64"
  shows "ord (root_block offset n) = n" "off (root_block offset n) = unat offset" "is_free (root_block offset n)"
    "parent (root_block offset n) = None" "(offset OR word_of_nat n) AND DRM_BUDDY_HEADER_UNUSED = 0"
  using header_new [OF assms refl] by (simp_all add: root_block_def) (simp add: off_def)

lemma planted_values:
  assumes wf: "buddy_wf mm" and ok: "plantable mm n"
  shows "unat (mm_size mm) mod 4096 = 0" "n < 64" "n \<le> DRM_BUDDY_MAX_ORDER"
    "unat (mm_size (planted mm n)) = unat (mm_size mm) + unat (chunk_size mm) * 2 ^ n"
    "unat (avail mm) \<le> unat (mm_size mm)"
    "unat (avail (planted mm n)) = unat (avail mm) + unat (chunk_size mm) * 2 ^ n"
proof -
  have g: "geometry mm" using wf by (simp add: buddy_wf_def)
  obtain k where k: "12 \<le> k" "unat (chunk_size mm) = 2 ^ k" "max_order mm + k \<le> 63" by (rule geometryE [OF g])
  have n: "n \<le> max_order mm" using ok by (simp add: plantable_def)
  show "n < 64" "n \<le> DRM_BUDDY_MAX_ORDER" using n k(1,3) by (simp_all add: DRM_BUDDY_MAX_ORDER_def PAGE_SHIFT_def)
  have "(2 :: nat) ^ 12 dvd 2 ^ k" using k(1) by (rule le_imp_power_dvd)
  then show "unat (mm_size mm) mod 4096 = 0"
    using ok unfolding plantable_def k(2) dvd_eq_mod_eq_0 [symmetric] by (auto elim!: dvd_trans [rotated])
  let ?l = "unat (chunk_size mm) * 2 ^ n"
  have "unat (chunk_size mm) * 2 ^ (max_order mm + 1) \<le> 2 ^ 64"
    unfolding k(2) power_add [symmetric] by (rule power_increasing) (use k(3) in auto)
  then have lt: "unat (mm_size mm) + ?l < 2 ^ 64" using ok unfolding plantable_def by linarith
  have "push_bit n (chunk_size mm) = word_of_nat ?l" by (simp add: push_bit_eq_mult)
  moreover have "unat (word_of_nat ?l :: u64) = ?l" unfolding unat_of_nat by (rule mod_less) (use lt in simp)
  ultimately have l: "unat (push_bit n (chunk_size mm)) = ?l" by metis
  show "unat (mm_size (planted mm n)) = unat (mm_size mm) + ?l" using lt l by (simp add: planted_def unat_word_ariths)
  have "total mm is_free \<le> total mm (\<lambda>b. \<not> is_split b)"
    unfolding total_def by (rule sum_mono) (auto simp: weight_def dest: state_exclusive split: option.splits)
  then show a: "unat (avail mm) \<le> unat (mm_size mm)" using wf by (simp add: buddy_wf_def account_ok_def)
  show "unat (avail (planted mm n)) = unat (avail mm) + ?l" using lt l a by (simp add: planted_def unat_word_ariths)
qed

lemma planted_wf:
  assumes wf: "buddy_wf mm" and ok: "plantable mm n"
  shows "buddy_wf (planted mm n)" "allocated (planted mm n) = allocated mm"
proof -
  let ?m = "planted mm n" and ?p = "slab_next mm" and ?b = "root_block (mm_size mm) n"
  note v = planted_values [OF assms]
  note rb = root_block_facts [OF v(1,2)]
  have ns: "\<not> is_split ?b" "\<not> is_allocated ?b" using rb(3) by (auto dest: state_exclusive)
  have sl: "slab ?m = (slab mm)(?p \<mapsto> ?b)" "chunk_size ?m = chunk_size mm" "roots ?m = roots mm @ [?p]" "slab_next ?m = ?p + 1"
    "max_order ?m = max_order mm" "free_list ?m = (free_list mm)[n := ?p # free_list mm ! n]"
    by (simp_all add: planted_def)
  have fresh: "slab mm ?p = None" by (rule wf_fresh [OF wf]) simp
  have old: "x < ?p" "block_ok mm b" "x \<noteq> ?p" "slab ?m x = Some b" if "slab mm x = Some b" for x b
    using wf_block [OF wf that] sl(1) that by auto
  have lc: "len ?m b = len mm b" "ival ?m b = ival mm b" for b by (simp_all add: len_def ival_def sl(2))
  have lb: "len mm ?b = unat (chunk_size mm) * 2 ^ n" "ival mm ?b = {unat (mm_size mm)..<unat (mm_size ?m)}"
    using rb(1,2) v(4) by (simp_all add: len_def ival_def)
  have below: "ival mm b \<subseteq> {0..<unat (mm_size mm)}" if "slab mm x = Some b" for x b
    using old(2) [OF that] by (auto simp: block_ok_def ival_def)
  have apart: "ival mm b \<inter> ival mm ?b = {}" if "slab mm x = Some b" for x b
    using below [OF that] by (auto simp: lb(2))
  note p = wf [unfolded buddy_wf_def]
  have n: "n \<le> max_order mm" using ok by (simp add: plantable_def)
  have "geometry ?m"
    using p ok v(4) unfolding geometry_def plantable_def sl by (auto simp del: power_Suc)
  moreover have "blocks_ok ?m"
    using old rb ok v(4) lb(1) unfolding blocks_ok_def block_ok_def sl(1,4,5) lc
    by (auto simp: plantable_def dvd_eq_mod_eq_0 less_Suc_eq trans_le_add1)
  moreover have "tree_ok ?m"
  proof -
    have "child_of ?m x q" if "child_of mm x q" for x q
      using that old(4) unfolding child_of_def by blast
    moreover have "children ?m x b" if "children mm x b" for x b
      using that old(4) lc unfolding children_def halves_def by metis
    moreover have "?p \<notin> set (roots mm)" using fresh wf_root_dom [OF wf] by blast
    ultimately show ?thesis
      using p rb(4) ns unfolding tree_ok_def sl(1,3) by (auto simp del: fun_upd_apply simp: fun_upd_def)
  qed
  moreover have "roots_ok ?m"
  proof -
    have r: "roots_ok mm" using p by simp
    have np: "?p \<notin> set (roots mm)" using fresh wf_root_dom [OF wf] by blast
    have e: "the (slab ?m x) = the (slab mm x)" if "x \<in> set (roots mm)" for x using that np sl(1) by auto
    have d: "ival mm (the (slab mm x)) \<inter> ival mm ?b = {}" if "x \<in> set (roots mm)" for x
      using apart wf_root_dom [OF wf that] by force
    have "{0..<unat (mm_size ?m)} = {0..<unat (mm_size mm)} \<union> ival mm ?b"
      unfolding lb(2) by (rule ivl_disj_un_two(3) [symmetric]) (simp_all add: v(4))
    moreover have "(\<Union>x\<in>set (roots mm). ival mm (the (slab ?m x))) = (\<Union>x\<in>set (roots mm). ival mm (the (slab mm x)))"
      by (rule SUP_cong) (simp_all add: e)
    ultimately have u: "(\<Union>x\<in>set (roots ?m). ival ?m (the (slab ?m x))) = {0..<unat (mm_size ?m)}"
      using r unfolding roots_ok_def lc sl(3) by (simp add: sl(1) Un_commute)
    have "ival mm (the (slab ?m x)) \<inter> ival mm (the (slab ?m y)) = {}" if xy: "x \<in> set (roots ?m)" "y \<in> set (roots ?m)" "x \<noteq> y" for x y
    proof (cases "x = ?p \<or> y = ?p")
      case True
      have q: "the (slab ?m ?p) = ?b" by (simp add: sl(1))
      have o: "ival mm (the (slab ?m z)) \<inter> ival mm ?b = {}" if "z \<in> set (roots ?m)" "z \<noteq> ?p" for z
      proof -
        have z: "z \<in> set (roots mm)" using that unfolding sl(3) by simp
        show ?thesis unfolding e [OF z] by (rule d [OF z])
      qed
      show ?thesis
      proof (cases "x = ?p")
        case True
        then show ?thesis using o [OF xy(2)] xy(3) unfolding True q by (simp add: Int_commute)
      next
        case False
        then have "y = ?p" using \<open>x = ?p \<or> y = ?p\<close> by simp
        then show ?thesis using o [OF xy(1) False] q by simp
      qed
    next
      case False
      then have m: "x \<in> set (roots mm)" "y \<in> set (roots mm)" using xy unfolding sl(3) by auto
      show ?thesis using r m xy(3) unfolding e [OF m(1)] e [OF m(2)] roots_ok_def by meson
    qed
    moreover have "\<forall>x\<in>set (roots ?m). slab ?m x \<noteq> None" using wf_root_dom [OF wf] unfolding sl(1,3) by auto
    moreover have "distinct (roots ?m)" using r np unfolding sl(3) by (simp add: roots_ok_def)
    ultimately show ?thesis using u unfolding roots_ok_def lc by blast
  qed
  moreover have "frees_ok ?m"
  proof -
    have f: "frees_ok mm" "length (free_list mm) = max_order mm + 1" using p by (simp_all add: geometry_def)
    have "?p \<notin> set (free_list mm ! i)" if "i \<le> max_order mm" for i using wf_free_list(3) [OF wf that, of ?p] fresh by auto
    then show ?thesis
      using f n rb(1,3) fresh unfolding frees_ok_def sl by (auto simp: nth_list_update)
  qed
  moreover have "leaves_ok ?m"
  proof -
    have "leaves_ok mm" using p by simp
    then show ?thesis
      using apart unfolding leaves_ok_def lc sl(1) by (auto simp: Int_commute split: if_splits)
  qed
  moreover have "account_ok ?m"
  proof -
    have dom: "x < slab_next ?m" if "slab ?m x = Some b" for x b using that old(1) [of x b] sl(1,4) by (auto split: if_splits)
    have "total ?m P + sum (weight mm P) {?p} = total mm P + sum (weight ?m P) {?p}" for P
      by (rule total_change) (use sl(1,2) old(1) dom in simp_all)
    then have t: "total ?m P = total mm P + (if P ?b then len mm ?b else 0)" for P
      using fresh sl(1) lc(1) by (simp add: weight_def)
    have "total mm is_free = unat (avail mm)" "total mm (\<lambda>b. \<not> is_split b) = unat (mm_size mm)" using p by (simp_all add: account_ok_def)
    then show ?thesis
      using rb(3) ns(1) v(4,6) lb(1) unfolding account_ok_def t by simp
  qed
  ultimately show "buddy_wf ?m" by (simp add: buddy_wf_def)
  show "allocated ?m = allocated mm" using ns(2) fresh by (auto simp: allocated_def sl(1))
qed

end
