(* ===== verification/Buddy_Init.thy ===== *)
theory Buddy_Init
  imports Buddy_Root
begin

text \<open>
  Setting up the allocator: the loop over the powers of two of the size ends in a well-formed state
  in which all memory is free.
\<close>

section \<open>The loop over the roots\<close>

text \<open>The allocator of the memory below \<open>n\<close>.\<close>

definition upto :: "buddy \<Rightarrow> u64 \<Rightarrow> buddy" where
  "upto mm n = mm\<lparr>mm_size := n, avail := n\<rparr>"

text \<open>What is known when \<open>sz\<close> bytes from \<open>offset\<close> on have no root yet; the chunk is \<open>2 ^ k\<close>.\<close>

definition init_state :: "nat \<Rightarrow> buddy \<Rightarrow> u64 \<Rightarrow> u64 \<Rightarrow> bool" where
  "init_state k mm offset sz \<longleftrightarrow> buddy_wf (upto mm offset) \<and> plenty mm \<and> allocated mm = {} \<and> avail mm = mm_size mm \<and>
     unat (chunk_size mm) = 2 ^ k \<and> k < 64 \<and> 2 ^ k dvd unat sz \<and> unat offset + unat sz = unat (mm_size mm) \<and>
     unat (mm_size mm) < 2 ^ (max_order mm + k + 1) \<and> (0 < unat sz \<longrightarrow> 2 ^ (ilog2 sz + 1) dvd unat offset \<and>
       length (roots mm) + hweight64 sz = n_roots mm \<and> length (roots mm) + ilog2 sz \<le> max_order mm + k)"

text \<open>The state after one round, where the order of the new root is \<open>n\<close>.\<close>

definition rooted :: "buddy \<Rightarrow> u64 \<Rightarrow> nat \<Rightarrow> buddy" where
  "rooted mm offset n = mm\<lparr>slab := (slab mm)(slab_next mm \<mapsto> root_block offset n), slab_next := slab_next mm + 1,
     free_list := (free_list mm)[n := slab_next mm # free_list mm ! n], roots := roots mm @ [slab_next mm]\<rparr>"

lemma rooted_planted:
  assumes "push_bit n (chunk_size mm) = r"
  shows "upto (rooted mm offset n) (offset + r) = planted (upto mm offset) n"
  using assms by (simp add: upto_def rooted_def planted_def)

lemma init_orders:
  assumes st: "init_state k mm offset sz" and pos: "0 < unat sz"
  defines "r \<equiv> rounddown_pow_of_two sz"
  defines "n \<equiv> ilog2 r - ilog2 (chunk_size mm)"
  shows "push_bit n (chunk_size mm) = r" "unat r = 2 ^ ilog2 sz" "ilog2 sz = k + n" "unat (chunk_size mm) * 2 ^ n = 2 ^ ilog2 sz"
    "plantable (upto mm offset) n"
proof -
  note v = ilog2_values [OF pos]
  have s: "unat (chunk_size mm) = 2 ^ k" "2 ^ k dvd unat sz" "unat offset + unat sz = unat (mm_size mm)"
    "unat (mm_size mm) < 2 ^ (max_order mm + k + 1)" "2 ^ (ilog2 sz + 1) dvd unat offset"
    using st pos by (simp_all add: init_state_def)
  show r: "unat r = 2 ^ ilog2 sz" unfolding r_def by (rule rounddown_values [OF pos])
  have "2 ^ k \<le> unat sz" using s(2) pos by (simp add: dvd_imp_le)
  then have "(2 :: nat) ^ k < 2 ^ (ilog2 sz + 1)" using v(2) by linarith
  then have "k < ilog2 sz + 1" by (rule power_less_imp_less_exp [rotated]) simp
  then show kn: "ilog2 sz = k + n" using ilog2_power [OF r] ilog2_power [OF s(1)] by (simp add: n_def)
  show l: "unat (chunk_size mm) * 2 ^ n = 2 ^ ilog2 sz" by (simp add: s(1) kn power_add)
  have "push_bit n (chunk_size mm) = word_of_nat (unat (chunk_size mm) * 2 ^ n)" by (simp add: push_bit_eq_mult)
  then have "push_bit n (chunk_size mm) = word_of_nat (unat r)" unfolding l r .
  then show "push_bit n (chunk_size mm) = r" by simp
  have "(2 :: nat) ^ (k + n) < 2 ^ (max_order mm + k + 1)" using v(1) s(3,4) kn by (metis add.commute le_add2 order.strict_trans1 order.trans)
  then have "k + n < max_order mm + k + 1" by (rule power_less_imp_less_exp [rotated]) simp
  moreover have "(2 :: nat) ^ ilog2 sz dvd 2 ^ (ilog2 sz + 1)" by simp
  then have "2 ^ ilog2 sz dvd unat offset" using s(5) by (rule dvd_trans)
  moreover have "unat offset + 2 ^ ilog2 sz < 2 ^ (max_order mm + k + 1)" using v(1) s(3,4) by linarith
  ultimately show "plantable (upto mm offset) n"
    unfolding plantable_def by (simp add: upto_def l) (simp add: s(1) power_add mult.commute mult.left_commute)
qed

lemma init_step:
  assumes st: "init_state k mm offset sz" and pos: "0 < unat sz"
  defines "r \<equiv> rounddown_pow_of_two sz"
  defines "n \<equiv> ilog2 r - ilog2 (chunk_size mm)"
  shows "init_state k (rooted mm offset n) (offset + r) (sz - r)"
    "init_roots mm offset sz = (if sz - r = 0 then Some (rooted mm offset n, Inr ()) else init_roots (rooted mm offset n) (offset + r) (sz - r))"
proof -
  note w = init_orders [OF st pos, folded r_def, folded n_def] and t = top_bit_gone [OF pos, folded r_def]
  let ?m = "upto mm offset"
  have s: "buddy_wf ?m" "plenty mm" "allocated mm = {}" "unat offset + unat sz = unat (mm_size mm)" "2 ^ (ilog2 sz + 1) dvd unat offset"
    "length (roots mm) + hweight64 sz = n_roots mm" "length (roots mm) + ilog2 sz \<le> max_order mm + k" "2 ^ k dvd unat sz"
    using st pos by (simp_all add: init_state_def)
  note pw = planted_wf [OF s(1) w(5)] and pv = planted_values [OF s(1) w(5)]
  note e = rooted_planted [OF w(1), of offset]
  have ms: "mm_size (planted ?m n) = offset + r" by (simp add: planted_def upto_def w(1))
  have off: "unat offset mod 4096 = 0" "unat (offset + r) = unat offset + 2 ^ ilog2 sz"
    using pv(1,4) unfolding ms by (simp_all add: upto_def w(4))
  have rs: "roots (rooted mm offset n) = roots mm @ [slab_next mm]" "n_roots (rooted mm offset n) = n_roots mm"
    "chunk_size (rooted mm offset n) = chunk_size mm" "max_order (rooted mm offset n) = max_order mm" "mm_size (rooted mm offset n) = mm_size mm"
    "avail (rooted mm offset n) = avail mm" "slab_ok (rooted mm offset n) = slab_ok mm"
    by (simp_all add: rooted_def)
  have "allocated (upto x y) = allocated x" for x y by (simp add: allocated_def upto_def)
  then have al: "allocated (rooted mm offset n) = {}" using pw(2) s(3) unfolding e [symmetric] by simp
  have bits: "2 ^ (ilog2 (sz - r) + 1) dvd unat (offset + r) \<and> ilog2 (sz - r) < ilog2 sz" if z: "0 < unat (sz - r)"
  proof -
    have "(2 :: nat) ^ ilog2 (sz - r) < 2 ^ ilog2 sz" using ilog2_values(1) [OF z] t(3) by linarith
    then have lt: "ilog2 (sz - r) < ilog2 sz" by (rule power_less_imp_less_exp [rotated]) simp
    then have "(2 :: nat) ^ (ilog2 (sz - r) + 1) dvd 2 ^ ilog2 sz" by (intro le_imp_power_dvd) simp
    moreover have "2 ^ (ilog2 (sz - r) + 1) dvd unat offset" by (rule dvd_trans [OF le_imp_power_dvd s(5)]) (use lt in simp)
    ultimately show ?thesis using lt unfolding off(2) by simp
  qed
  have "(2 :: nat) ^ k dvd 2 ^ ilog2 sz" unfolding w(3) by (simp add: power_add)
  then have d: "2 ^ k dvd unat (sz - r)" using s(8) unfolding t(2) by simp
  have sum: "unat (offset + r) + unat (sz - r) = unat (mm_size mm)"
    using s(4) ilog2_values(1) [OF pos] unfolding off(2) t(2) by simp
  show "init_state k (rooted mm offset n) (offset + r) (sz - r)"
    unfolding init_state_def e rs
    using pw(1) s(2,6,7) st t(1) bits d sum al by (auto simp: init_state_def plenty_def rs)
  note rb = root_block_facts [OF off(1) pv(2)]
  have wf: "n < length (free_list mm)" "slab_next mm \<notin> set (free_list mm ! n)"
  proof -
    have n: "n \<le> max_order ?m" using w(5) by (simp add: plantable_def)
    have "slab mm (slab_next mm) = None" using wf_fresh [OF s(1), of "slab_next mm"] by (simp add: upto_def)
    then show "n < length (free_list mm)" "slab_next mm \<notin> set (free_list mm ! n)"
      using wf_free_list(1,3) [OF s(1) n] by (auto simp: upto_def)
  qed
  have al: "drm_block_alloc mm None n offset =
      Some (mm\<lparr>slab_next := slab_next mm + 1, slab := (slab mm)(slab_next mm \<mapsto> \<lparr>header = offset OR word_of_nat n, left = None, right = None, parent = None\<rparr>)\<rparr>, Some (slab_next mm))"
    by (rule block_alloc_ok) (use pv(3) rb(5) s(2) in \<open>simp_all add: plenty_def\<close>)
  have mf: "mark_free (mm\<lparr>slab_next := slab_next mm + 1, slab := (slab mm)(slab_next mm \<mapsto> \<lparr>header = offset OR word_of_nat n, left = None, right = None, parent = None\<rparr>)\<rparr>) (slab_next mm) =
      Some ((rooted mm offset n)\<lparr>roots := roots mm\<rparr>)"
    using rb(1) wf by (simp add: mark_free_def free_list_add_def set_block_def buf_get_def rooted_def root_block_def Let_def)
  have sz: "\<not> drm_buddy_block_size ((rooted mm offset n)\<lparr>roots := roots mm\<rparr>) (root_block offset n) < chunk_size mm"
    using w(2,3) st by (simp add: drm_buddy_block_size_def rb(1) rs(3) w(1) word_less_nat_alt init_state_def)
  have chk: "\<not> (max_order mm < length (roots mm) \<or> n_roots mm \<le> length (roots mm))"
    using s(6,7) t(1) w(3) by simp
  have rr: "(rooted mm offset n)\<lparr>roots := roots mm @ [slab_next mm]\<rparr> = rooted mm offset n"
    "slab (rooted mm offset n) (slab_next mm) = Some (root_block offset n)" by (simp_all add: rooted_def)
  show "init_roots mm offset sz = (if sz - r = 0 then Some (rooted mm offset n, Inr ()) else init_roots (rooted mm offset n) (offset + r) (sz - r))"
    unfolding init_roots.simps [of mm offset sz, unfolded Let_def, folded r_def, folded n_def] al
    using mf sz chk rr(2) rs by (simp add: Let_def rr(1))
qed

lemma init_roots_wf:
  assumes "init_state k mm offset sz" "0 < unat sz"
  shows "\<exists>mm'. init_roots mm offset sz = Some (mm', Inr ()) \<and> buddy_wf mm' \<and> plenty mm' \<and> allocated mm' = {} \<and>
    mm_size mm' = mm_size mm \<and> avail mm' = mm_size mm \<and> chunk_size mm' = chunk_size mm"
  using assms
proof (induction "unat sz" arbitrary: mm offset sz rule: less_induct)
  case less
  define r where "r = rounddown_pow_of_two sz"
  define n where "n = ilog2 r - ilog2 (chunk_size mm)"
  note step = init_step [OF less.prems, folded r_def, folded n_def]
  have rs: "chunk_size (rooted mm offset n) = chunk_size mm" "mm_size (rooted mm offset n) = mm_size mm" "avail (rooted mm offset n) = avail mm"
    by (simp_all add: rooted_def)
  show ?case
  proof (cases "sz - r = 0")
    case True
    have st: "init_state k (rooted mm offset n) (offset + r) 0" using step(1) unfolding True .
    then have "offset + r = mm_size mm" by (simp add: init_state_def rs word_unat_eq_iff)
    then have "upto (rooted mm offset n) (offset + r) = rooted mm offset n"
      using less.prems(1) by (simp add: upto_def rooted_def init_state_def)
    then show ?thesis using step(2) True st less.prems(1) rs by (auto simp: init_state_def)
  next
    case False
    then have "0 < unat (sz - r)" by (simp only: unat_gt_0) simp
    moreover have "unat (sz - r) < unat sz"
      unfolding top_bit_gone(2) [OF less.prems(2), folded r_def] using less.prems(2) by (intro diff_less) simp_all
    ultimately have "0 < unat (sz - r)" "unat (sz - r) < unat sz" by blast+
    then show ?thesis using less.hyps [OF _ step(1)] step(2) False rs by simp
  qed
qed

section \<open>The operation\<close>

lemma drm_buddy_init_wf:
  assumes "plenty mm" "slab mm = Map.empty" "chunk \<le> sz" "4096 \<le> chunk" "is_power_of_2 chunk"
  shows "\<exists>mm'. drm_buddy_init True True mm sz chunk = Some (mm', Inr ()) \<and> buddy_wf mm' \<and> plenty mm' \<and> allocated mm' = {} \<and>
    unat (mm_size mm') = unat sz div unat chunk * unat chunk \<and> avail mm' = mm_size mm' \<and> chunk_size mm' = chunk"
proof -
  obtain k where k: "k < 64" "unat chunk = 2 ^ k" "ilog2 chunk = k" by (rule power_of_2E [OF assms(5)])
  define s where "s = round_down sz chunk"
  have s: "unat s = unat sz div unat chunk * unat chunk" unfolding s_def by (rule unat_round_down [OF k(2,1)])
  have c: "unat chunk \<le> unat sz" "4096 \<le> unat chunk" using assms(3,4) by (simp_all add: word_le_nat_alt)
  then have "0 < unat sz div unat chunk" by (simp add: div_greater_zero_iff)
  then have sp: "unat chunk \<le> unat s" by (simp add: s)
  then have pos: "0 < unat s" using c(2) by simp
  note v = ilog2_values [OF pos]
  have "(2 :: nat) ^ k < 2 ^ (ilog2 s + 1)" using sp k(2) v(2) by linarith
  then have "k < ilog2 s + 1" by (rule power_less_imp_less_exp [rotated]) simp
  then have kl: "k \<le> ilog2 s" by simp
  have "(2 :: nat) ^ 12 \<le> 2 ^ k" using c(2) k(2) by simp
  then have k12: "12 \<le> k" by (rule power_le_imp_le_exp [rotated]) simp
  define m where "m = mm\<lparr>mm_size := s, avail := s, chunk_size := chunk, max_order := ilog2 s - k,
    free_list := replicate (ilog2 s - k + 1) [], n_roots := hweight64 s, roots := []\<rparr>"
  have "geometry (upto m 0)"
    using k k12 kl v(3) by (auto simp: geometry_def upto_def m_def)
  moreover have "total (upto m 0) P = 0" for P by (simp add: total_def weight_def upto_def m_def assms(2))
  ultimately have "buddy_wf (upto m 0)"
    using assms(2) nth_replicate [of _ "ilog2 s - k + 1" "[] :: nat list"] unfolding buddy_wf_def blocks_ok_def tree_ok_def roots_ok_def frees_ok_def leaves_ok_def account_ok_def
    by (simp add: upto_def m_def less_Suc_eq_le del: replicate_Suc replicate.simps)
  moreover have "allocated m = {}" using assms(2) by (simp add: allocated_def m_def)
  ultimately have "init_state k m 0 s"
    unfolding init_state_def using assms(1) k s v(2) kl by (simp add: m_def plenty_def)
  then obtain mm' where i: "init_roots m 0 s = Some (mm', Inr ())" "buddy_wf mm'" "plenty mm'" "allocated mm' = {}"
    "mm_size mm' = s" "avail mm' = s" "chunk_size mm' = chunk"
    using init_roots_wf [OF _ pos] by (force simp: m_def)
  have "\<not> sz < chunk" "\<not> chunk < push_bit PAGE_SHIFT 1" "\<not> DRM_BUDDY_MAX_ORDER < ilog2 s - k"
    using assms(3,4) k12 v(3) by (simp_all add: not_less PAGE_SHIFT_def DRM_BUDDY_MAX_ORDER_def)
  then have "drm_buddy_init True True mm sz chunk = init_roots m 0 s"
    using assms(5) k(3) unfolding drm_buddy_init_def Let_def s_def [symmetric] m_def
    by simp
  then show ?thesis using i s by simp
qed

lemma init_no_memory:
  assumes "chunk \<le> sz" "4096 \<le> chunk" "is_power_of_2 chunk" "\<not> (mem1 \<and> mem2)"
  shows "\<exists>mm'. drm_buddy_init mem1 mem2 mm sz chunk = Some (mm', Inl ENOMEM) \<and> free_list mm' = (if mem1 then [] else free_list mm)"
proof -
  obtain k where k: "k < 64" "unat chunk = 2 ^ k" "ilog2 chunk = k" by (rule power_of_2E [OF assms(3)])
  have c: "(2 :: nat) ^ 12 \<le> 2 ^ k" "unat chunk \<le> unat sz" using assms(1,2) k(2) by (simp_all add: word_le_nat_alt)
  have k12: "12 \<le> k" by (rule power_le_imp_le_exp [OF _ c(1)]) simp
  have "0 < unat sz div unat chunk" using c(2) k(2) by (simp add: div_greater_zero_iff)
  then have "0 < unat (round_down sz chunk)" unfolding unat_round_down [OF k(2,1)] using k(2) by simp
  then have "ilog2 (round_down sz chunk) < 64" by (rule ilog2_values(3))
  then have "\<not> sz < chunk" "\<not> chunk < push_bit PAGE_SHIFT 1" "\<not> DRM_BUDDY_MAX_ORDER < ilog2 (round_down sz chunk) - ilog2 chunk"
    using assms(1,2) k(3) k12 by (simp_all add: not_less PAGE_SHIFT_def DRM_BUDDY_MAX_ORDER_def)
  then show ?thesis using assms(3,4) unfolding drm_buddy_init_def Let_def by auto
qed

end
