(* ===== verification/Buddy_Calls.thy ===== *)
theory Buddy_Calls
  imports Buddy_Alloc Buddy_Init
begin

text \<open>
  The operations of the buddy allocator as its clients see them: what a call does to the blocks that
  are handed out and to the count of free bytes, and when it fails.
\<close>

section \<open>What a client gains\<close>

text \<open>The client has got the blocks \<open>new\<close>; what has been handed out before is untouched.\<close>

definition gained :: "buddy \<Rightarrow> nat list \<Rightarrow> buddy \<Rightarrow> bool" where
  "gained mm new mm' \<longleftrightarrow> buddy_wf mm' \<and> same_frame mm mm' \<and> distinct new \<and> set new \<inter> allocated mm = {} \<and>
     allocated mm' = allocated mm \<union> set new \<and> (\<forall>x. x \<in> allocated mm \<longrightarrow> slab mm' x = slab mm x) \<and>
     unat (avail mm') + bytes mm' new = unat (avail mm)"

lemma gained_refl: "buddy_wf mm \<Longrightarrow> gained mm [] mm"
  by (simp add: gained_def bytes_def)

lemma took_gained: "took None mm new mm' \<Longrightarrow> gained mm new mm'"
  by (auto simp: took_def gained_def)

lemma took_undone:
  assumes "took None mm new m"
  shows "\<exists>mm'. drm_buddy_free_list m new = Some mm' \<and> gained mm [] mm'"
proof -
  have t: "buddy_wf m" "distinct new" "set new \<subseteq> allocated m" "set new \<inter> allocated mm = {}" "allocated m = allocated mm \<union> set new"
    "same_frame mm m" "unat (avail m) + bytes m new = unat (avail mm)" "\<And>x. x \<in> allocated mm \<Longrightarrow> slab m x = slab mm x"
    using assms by (auto simp: took_def)
  obtain mm' where m: "drm_buddy_free_list m new = Some mm'" "gives_back m new mm'" using free_list_gives_back [OF t(1-3)] by blast
  have a: "allocated mm' = allocated mm" using m(2) t(4,5) by (auto simp: gives_back_def)
  have "slab mm' x = slab mm x" if "x \<in> allocated mm" for x using m(2) t(8) that a unfolding gives_back_def by metis
  then have "gained mm [] mm'"
    using m(2) t(6,7) a same_frame_trans unfolding gives_back_def gained_def by (auto simp: bytes_def)
  then show ?thesis using m(1) by blast
qed

lemma bytes_card:
  assumes "buddy_wf mm" "distinct ps" "set ps \<subseteq> allocated mm"
  shows "bytes mm ps = card (covered mm ps)"
proof -
  have b: "\<exists>b. slab mm p = Some b \<and> \<not> is_split b" if "p \<in> set ps" for p
    using that assms(3) by (auto simp: allocated_def dest: state_exclusive)
  have "leaves_ok mm" using assms(1) by (simp add: buddy_wf_def)
  then have "bytes_of mm p \<inter> bytes_of mm q = {}" if "p \<in> set ps" "q \<in> set ps" "p \<noteq> q" for p q
    using b [OF that(1)] b [OF that(2)] that(3) unfolding leaves_ok_def bytes_of_def by force
  then have "card (covered mm ps) = (\<Sum>p\<in>set ps. card (bytes_of mm p))"
    unfolding covered_def by (intro card_UN_disjoint) (auto simp: bytes_of_def ival_def)
  then show ?thesis using assms(2) by (simp add: bytes_def bytes_of_def ival_len sum_list_distinct_conv_sum_set)
qed

section \<open>Ranges\<close>

lemma alloc_range_result:
  assumes wf: "buddy_wf mm" and ok: "plenty mm" and al: "unat (chunk_size mm) dvd unat start" "unat (chunk_size mm) dvd unat sz"
    and b: "0 < unat sz" "unat start + unat sz \<le> unat (mm_size mm)"
  shows "\<exists>mm' new r. drm_buddy_alloc_range mm start sz blocks = Some (mm', blocks @ new, r) \<and> gained mm new mm' \<and>
    (case r of Inl e \<Rightarrow> e = ENOSPC \<and> new = [] \<and> (\<exists>x b. slab mm x = Some b \<and> blocked mm (unat start) (unat start + unat sz) b)
     | Inr _ \<Rightarrow> covered mm' new = {unat start..<unat start + unat sz})"
proof -
  let ?s = "unat start" and ?hi = "unat start + unat sz"
  have "?hi < 2 ^ 64" using b(2) unsigned_less [of "mm_size mm", where 'a = nat] by simp
  then have u: "unat (start + sz) = ?hi" by (simp add: unat_word_ariths)
  then have "1 \<le> start + sz" using b(1) by (simp add: word_le_nat_alt)
  then have stop: "unat (start + sz - 1) = ?hi - 1" using u by (simp add: unat_sub)
  note r = wf_roots [OF wf]
  have "range_taken None ?s ?hi mm (roots mm) [] (alloc_range_loop start (start + sz - 1) mm (roots mm) [])"
    by (rule alloc_range_loop_taken) (use assms r(1,2) stop in \<open>simp_all add: cut_ok_def\<close>)
  then obtain m new where n: "took None mm new m"
    "alloc_range_loop start (start + sz - 1) mm (roots mm) [] = Some (m, Inr new) \<and> covered m new = {?s..<?hi} \<inter> covered mm (roots mm) \<or>
     alloc_range_loop start (start + sz - 1) mm (roots mm) [] = do { m \<leftarrow> drm_buddy_free_list m new; Some (m, Inl ENOSPC) } \<and>
     (\<exists>x b. slab mm x = Some b \<and> blocked mm ?s ?hi b \<and> ival mm b \<subseteq> covered mm (roots mm))"
    unfolding range_taken_def by auto
  show ?thesis
    using n(2)
  proof
    assume s: "alloc_range_loop start (start + sz - 1) mm (roots mm) [] = Some (m, Inr new) \<and> covered m new = {?s..<?hi} \<inter> covered mm (roots mm)"
    then have "covered m new = {?s..<?hi}" using r(3) b(2) by auto
    then show ?thesis
      using s took_gained [OF n(1)] by (intro exI [of _ m] exI [of _ new] exI [of _ "Inr ()"]) (simp add: drm_buddy_alloc_range_def alloc_range_def)
  next
    assume s: "alloc_range_loop start (start + sz - 1) mm (roots mm) [] = do { m \<leftarrow> drm_buddy_free_list m new; Some (m, Inl ENOSPC) } \<and>
      (\<exists>x b. slab mm x = Some b \<and> blocked mm ?s ?hi b \<and> ival mm b \<subseteq> covered mm (roots mm))"
    obtain mm' where "drm_buddy_free_list m new = Some mm'" "gained mm [] mm'" using took_undone [OF n(1)] by blast
    then show ?thesis
      using s by (intro exI [of _ mm'] exI [of _ "[]"] exI [of _ "Inl ENOSPC"]) (auto simp: drm_buddy_alloc_range_def alloc_range_def)
  qed
qed

section \<open>Blocks\<close>

context picker
begin

lemma blocks_result:
  assumes "blocks_taken lo sz mm [] res"
  shows "\<exists>mm' new r. map_option (\<lambda>(mm, r). case r of Inl e \<Rightarrow> (mm, blocks, Inl e) | Inr l \<Rightarrow> (mm, blocks @ l, Inr ())) res =
      Some (mm', blocks @ new, r) \<and> gained mm new mm' \<and>
    (case r of Inl e \<Rightarrow> e = ENOSPC \<and> new = [] \<and> (\<exists>m al. took None mm al m \<and> stuck m lo \<and> bytes m al < sz)
     | Inr _ \<Rightarrow> bytes mm' new = sz \<and> all_blocks (\<lambda>b. lo \<le> ord b \<and> inside mm' b) mm' new)"
proof -
  obtain m new where n: "took None mm new m" "all_blocks (\<lambda>b. lo \<le> ord b \<and> inside m b) m new"
    "res = Some (m, Inr new) \<and> bytes m new = sz \<or>
     res = do { m \<leftarrow> drm_buddy_free_list m new; Some (m, Inl ENOSPC) } \<and> stuck m lo \<and> bytes m new < sz"
    using assms unfolding blocks_taken_def by auto
  obtain mm' where "drm_buddy_free_list m new = Some mm'" "gained mm [] mm'" using took_undone [OF n(1)] by blast
  then show ?thesis using n took_gained [OF n(1)] by fastforce
qed

end

text \<open>When the arguments are in order.\<close>

definition request_ok :: "buddy \<Rightarrow> u64 \<Rightarrow> u64 \<Rightarrow> u64 \<Rightarrow> u64 \<Rightarrow> bool" where
  "request_ok mm start end sz min_page \<longleftrightarrow> chunk_size mm \<le> sz \<and> chunk_size mm \<le> min_page \<and> is_power_of_2 min_page \<and>
     unat (chunk_size mm) dvd unat start \<and> unat (chunk_size mm) dvd unat end \<and> unat (chunk_size mm) dvd unat sz \<and>
     end \<le> mm_size mm \<and> unat start + unat sz \<le> unat (mm_size mm) \<and> (start + sz \<noteq> end \<longrightarrow> unat min_page dvd unat sz)"

lemma chunk_power:
  assumes "buddy_wf mm"
  obtains k where "12 \<le> k" "k < 64" "unat (chunk_size mm) = 2 ^ k" "ilog2 (chunk_size mm) = k"
proof -
  have "geometry mm" using assms by (simp add: buddy_wf_def)
  then obtain k where "12 \<le> k" "unat (chunk_size mm) = 2 ^ k" "max_order mm + k \<le> 63" by (rule geometryE)
  then show ?thesis using that [of k] ilog2_power by auto
qed

lemma not_overflows: "0 < unat sz \<Longrightarrow> \<not> range_overflows start sz limit \<longleftrightarrow> unat start + unat sz \<le> unat limit"
  by (auto simp: range_overflows_def word_le_nat_alt word_less_nat_alt not_le not_less unat_sub)

text \<open>The two checks of the operation, read on numbers.\<close>

lemma request_checks:
  assumes "buddy_wf mm"
  shows "request_ok mm start end sz mp \<longleftrightarrow>
    \<not> (sz < chunk_size mm \<or> mp < chunk_size mm \<or> \<not> is_power_of_2 mp \<or> (start OR end OR sz) AND (chunk_size mm - 1) \<noteq> 0 \<or>
       mm_size mm < end \<or> range_overflows start sz (mm_size mm)) \<and> (start + sz \<noteq> end \<longrightarrow> sz AND (mp - 1) = 0)"
proof -
  obtain k where k: "12 \<le> k" "k < 64" "unat (chunk_size mm) = 2 ^ k" by (rule chunk_power [OF assms])
  note al = aligned_dvd [OF k(3,2)]
  have "(start OR end OR sz) AND (chunk_size mm - 1) = 0 \<longleftrightarrow>
      unat (chunk_size mm) dvd unat start \<and> unat (chunk_size mm) dvd unat end \<and> unat (chunk_size mm) dvd unat sz"
    by (simp add: word_ao_dist or_eq_0_iff al [symmetric])
  moreover have "is_power_of_2 mp \<Longrightarrow> sz AND (mp - 1) = 0 \<longleftrightarrow> unat mp dvd unat sz"
    by (erule power_of_2E) (rule aligned_dvd)
  moreover have "0 < unat (chunk_size mm)" by (simp add: k(3))
  then have "0 < unat sz" if "chunk_size mm \<le> sz" using that unfolding word_le_nat_alt by simp
  note not_overflows [OF this]
  ultimately show ?thesis unfolding request_ok_def by (auto simp: not_less)
qed

text \<open>The blocks of a request that is not one for a whole range.\<close>

definition as_asked :: "u64 \<Rightarrow> u64 \<Rightarrow> u64 \<Rightarrow> u64 \<Rightarrow> buddy \<Rightarrow> block \<Rightarrow> bool" where
  "as_asked start end min_page flags mm b \<longleftrightarrow> unat min_page dvd off b \<and> unat min_page dvd len mm b \<and>
     (flags AND DRM_BUDDY_RANGE_ALLOCATION \<noteq> 0 \<longrightarrow> in_range (unat start) (unat (end - 1) + 1) mm b)"

lemma pages_values:
  assumes wf: "buddy_wf mm" and ok: "request_ok mm start end sz mp" "start + sz \<noteq> end" and small: "unat sz < 2 ^ 32 * unat (chunk_size mm)"
  defines "pages \<equiv> drop_bit (ilog2 (chunk_size mm)) sz"
    and "lo \<equiv> word_of_nat (ilog2 mp - ilog2 (chunk_size mm)) :: u32"
  shows "0 < unat pages" "unat pages < 2 ^ 32" "2 ^ unat lo dvd unat pages" "unat lo \<le> unat (fls pages - 1)"
    "unat pages * unat (chunk_size mm) = unat sz" "unat (chunk_size mm) * 2 ^ unat lo = unat mp"
proof -
  obtain k where k: "k < 64" "unat (chunk_size mm) = 2 ^ k" "ilog2 (chunk_size mm) = k" by (rule chunk_power [OF wf])
  have r: "2 ^ k \<le> unat sz" "2 ^ k \<le> unat mp" "is_power_of_2 mp" "2 ^ k dvd unat sz" "unat mp dvd unat sz"
    using ok k(2) by (simp_all add: request_ok_def word_le_nat_alt)
  obtain j where j: "j < 64" "unat mp = 2 ^ j" "ilog2 mp = j" by (rule power_of_2E [OF r(3)])
  have kj: "k \<le> j" using r(2) j(2) by (simp add: power_le_imp_le_exp)
  have p: "unat pages = unat sz div 2 ^ k" unfolding pages_def k(3) by (rule unat_drop)
  show u: "unat pages * unat (chunk_size mm) = unat sz" using r(4) by (simp add: p k(2))
  show pos: "0 < unat pages" using r(1) by (simp add: p div_greater_zero_iff)
  have "unat pages * 2 ^ k < 2 ^ 32 * 2 ^ k" using u small k(2) by simp
  then show lt: "unat pages < 2 ^ 32" by (simp only: mult_less_cancel2)
  have "j - k < 2 ^ 32" using j(1) by simp
  then have lo: "unat lo = j - k" unfolding lo_def j(3) k(3) unat_of_nat by (intro mod_less) simp
  show "unat (chunk_size mm) * 2 ^ unat lo = unat mp" using kj by (simp add: lo k(2) j(2) flip: power_add)
  then have "2 ^ k * 2 ^ unat lo dvd 2 ^ k * unat pages" using r(5) u k(2) by (simp add: mult.commute)
  then show d: "2 ^ unat lo dvd unat pages" by simp
  have "2 ^ unat lo \<le> unat pages" using d pos by (rule dvd_imp_le)
  then have "(2 :: nat) ^ unat lo < 2 ^ (unat (fls pages - 1) + 1)" using fls_values(2) [OF pos lt] by linarith
  then have "unat lo < unat (fls pages - 1) + 1" by (rule power_less_imp_less_exp [rotated]) simp
  then show "unat lo \<le> unat (fls pages - 1)" by simp
qed

lemma of_size:
  assumes "buddy_wf mm" "slab mm p = Some b" "unat (chunk_size mm) * 2 ^ lo = unat mp" "lo \<le> ord b"
  shows "unat mp dvd off b" "unat mp dvd len mm b"
proof -
  show l: "unat mp dvd len mm b" unfolding assms(3) [symmetric] len_def by (intro mult_dvd_mono le_imp_power_dvd assms(4)) simp
  have "len mm b dvd off b" using wf_block(2) [OF assms(1,2)] by (simp add: block_ok_def dvd_eq_mod_eq_0)
  with l show "unat mp dvd off b" by (rule dvd_trans)
qed

text \<open>Whatever the arguments, the operation returns, and this is what the result says.\<close>

definition blocks_given :: "buddy \<Rightarrow> u64 \<Rightarrow> u64 \<Rightarrow> u64 \<Rightarrow> u64 \<Rightarrow> u64 \<Rightarrow> buddy \<Rightarrow> nat list \<Rightarrow> bool" where
  "blocks_given mm start end sz min_page flags mm' new \<longleftrightarrow> bytes mm' new = unat sz \<and>
     (if start + sz = end then covered mm' new = {unat start..<unat end}
      else all_blocks (as_asked start end min_page flags mm') mm' new)"

lemma alloc_blocks_result:
  assumes wf: "buddy_wf mm" and ok: "plenty mm" and small: "unat sz < 2 ^ 32 * unat (chunk_size mm)"
  shows "\<exists>mm' new r. drm_buddy_alloc_blocks mm start end sz min_page blocks flags = Some (mm', blocks @ new, r) \<and> gained mm new mm' \<and>
    (case r of
       Inr _ \<Rightarrow> request_ok mm start end sz min_page \<and> blocks_given mm start end sz min_page flags mm' new
     | Inl e \<Rightarrow> new = [] \<and> (if request_ok mm start end sz min_page then e = ENOSPC else e = EINVAL \<and> mm' = mm))"
proof (cases "request_ok mm start end sz min_page")
  case False
  then have "drm_buddy_alloc_blocks mm start end sz min_page blocks flags = Some (mm, blocks @ [], Inl EINVAL)"
    unfolding request_checks [OF wf] drm_buddy_alloc_blocks_def by auto
  then show ?thesis using False gained_refl [OF wf] by (intro exI [of _ mm] exI [of _ "[]"] exI [of _ "Inl EINVAL"]) simp
next
  case ro: True
  have r: "unat (chunk_size mm) dvd unat start" "unat (chunk_size mm) dvd unat sz" "unat start + unat sz \<le> unat (mm_size mm)"
    "unat (chunk_size mm) \<le> unat sz" "unat (chunk_size mm) dvd unat end" using ro by (simp_all add: request_ok_def word_le_nat_alt)
  have up: "0 < unat (chunk_size mm)" by (rule chunk_power [OF wf]) simp
  then have pos: "0 < unat sz" using r(4) by linarith
  note chk = conjunct1 [OF ro [unfolded request_checks [OF wf]]]
  show ?thesis
  proof (cases "start + sz = end")
    case True
    have "drm_buddy_alloc_blocks mm start end sz min_page blocks flags = drm_buddy_alloc_range mm start sz blocks"
      unfolding drm_buddy_alloc_blocks_def if_not_P [OF chk] if_P [OF True] by (rule refl)
    moreover obtain mm' new res where n: "drm_buddy_alloc_range mm start sz blocks = Some (mm', blocks @ new, res)" "gained mm new mm'"
      "case res of Inl e \<Rightarrow> e = ENOSPC \<and> new = [] \<and> (\<exists>x b. slab mm x = Some b \<and> blocked mm (unat start) (unat start + unat sz) b)
       | Inr _ \<Rightarrow> covered mm' new = {unat start..<unat start + unat sz}"
      using alloc_range_result [OF wf ok r(1,2) pos r(3), of blocks] by blast
    moreover have "unat (mm_size mm) < 2 ^ 64" using unsigned_less [of "mm_size mm", where 'a = nat] by simp
    then have "unat end = unat start + unat sz" using r(3) True by (auto simp: unat_word_ariths)
    moreover have "bytes mm' new = card (covered mm' new)" using n(2) by (intro bytes_card) (auto simp: gained_def)
    ultimately show ?thesis
      using ro True by (intro exI [of _ mm'] exI [of _ new] exI [of _ res]) (auto simp: blocks_given_def split: sum.splits)
  next
    case False
    have no: "\<not> sz AND (min_page - 1) \<noteq> 0" using ro False unfolding request_checks [OF wf] by blast
    define pages where "pages = drop_bit (ilog2 (chunk_size mm)) sz"
    define lo where "lo = (word_of_nat (ilog2 min_page - ilog2 (chunk_size mm)) :: u32)"
    note v = pages_values [OF wf ro False small, folded pages_def lo_def]
    have fit: "unat pages * unat (chunk_size mm) \<le> unat (mm_size mm)" using r(3) v(5) by simp
    have call: "drm_buddy_alloc_blocks mm start end sz min_page blocks flags =
        map_option (\<lambda>(mm, r). case r of Inl e \<Rightarrow> (mm, blocks, Inl e) | Inr l \<Rightarrow> (mm, blocks @ l, Inr ()))
          (alloc_blocks_loop (block_picker start end flags) lo mm pages (fls pages - 1) [])"
      unfolding drm_buddy_alloc_blocks_def pages_def lo_def Let_def if_not_P [OF chk] if_not_P [OF False] if_not_P [OF no] by (rule refl)
    define rng where "rng \<longleftrightarrow> flags AND DRM_BUDDY_RANGE_ALLOCATION \<noteq> 0"
    have "unat (end - 1) + 1 = (if end = 0 then 2 ^ 64 else unat end)" by (simp add: unat_sub word_le_nat_alt unat_gt_0 Suc_leI unsigned_minus_1_eq_mask mask_eq_exp_minus_1)
    moreover have "unat (chunk_size mm) dvd 2 ^ 64" by (rule chunk_power [OF wf]) (simp add: le_imp_power_dvd del: power_numeral)
    ultimately have oc: "on_chunks (unat start) (unat (end - 1) + 1) mm" using r(1,5) by (simp add: on_chunks_def)
    have "\<exists>mm' new res. drm_buddy_alloc_blocks mm start end sz min_page blocks flags = Some (mm', blocks @ new, res) \<and> gained mm new mm' \<and>
      (case res of Inl e \<Rightarrow> e = ENOSPC \<and> new = []
       | Inr _ \<Rightarrow> bytes mm' new = unat sz \<and> all_blocks (\<lambda>b. unat lo \<le> ord b \<and> (rng \<longrightarrow> in_range (unat start) (unat (end - 1) + 1) mm' b)) mm' new)"
    proof (cases rng)
      case True
      then have bp: "block_picker start end flags = alloc_range_bias start end" by (simp add: block_picker_def rng_def)
      obtain mm' new res where "drm_buddy_alloc_blocks mm start end sz min_page blocks flags = Some (mm', blocks @ new, res)" "gained mm new mm'"
        "case res of Inl e \<Rightarrow> e = ENOSPC \<and> new = [] \<and> (\<exists>m al. took None mm al m \<and> True \<and> bytes m al < unat sz)
         | Inr _ \<Rightarrow> bytes mm' new = unat sz \<and> all_blocks (\<lambda>b. unat lo \<le> ord b \<and> in_range (unat start) (unat (end - 1) + 1) mm' b) mm' new"
        using bias.blocks_result [OF bias.alloc_blocks_loop_taken [OF wf ok oc v(1-4) fit, where al = "[]"], of blocks]
        unfolding call bp v(5) by blast
      then show ?thesis
        using True by (intro exI [of _ mm'] exI [of _ new] exI [of _ res] conjI) (simp_all split: sum.splits)
    next
      case False
      then have bp: "block_picker start end flags = alloc_from_freelist flags" by (simp add: block_picker_def rng_def)
      obtain mm' new res where "drm_buddy_alloc_blocks mm start end sz min_page blocks flags = Some (mm', blocks @ new, res)" "gained mm new mm'"
        "case res of Inl e \<Rightarrow> e = ENOSPC \<and> new = [] \<and> (\<exists>m al. took None mm al m \<and> no_free m (unat lo) \<and> bytes m al < unat sz)
         | Inr _ \<Rightarrow> bytes mm' new = unat sz \<and> all_blocks (\<lambda>b. unat lo \<le> ord b \<and> True) mm' new"
        using freelist.blocks_result [OF freelist.alloc_blocks_loop_taken [OF wf ok TrueI v(1-4) fit, where al = "[]"], of blocks]
        unfolding call bp v(5) by blast
      then show ?thesis
        using False by (intro exI [of _ mm'] exI [of _ new] exI [of _ res] conjI) (simp_all split: sum.splits)
    qed
    then obtain mm' new res where n: "drm_buddy_alloc_blocks mm start end sz min_page blocks flags = Some (mm', blocks @ new, res)" "gained mm new mm'"
      "case res of Inl e \<Rightarrow> e = ENOSPC \<and> new = []
       | Inr _ \<Rightarrow> bytes mm' new = unat sz \<and> all_blocks (\<lambda>b. unat lo \<le> ord b \<and> (rng \<longrightarrow> in_range (unat start) (unat (end - 1) + 1) mm' b)) mm' new"
      by blast
    have m: "buddy_wf mm'" "chunk_size mm' = chunk_size mm" using n(2) by (simp_all add: gained_def same_frame_def)
    have "all_blocks (as_asked start end min_page flags mm') mm' new"
      if got: "all_blocks (\<lambda>b. unat lo \<le> ord b \<and> (rng \<longrightarrow> in_range (unat start) (unat (end - 1) + 1) mm' b)) mm' new"
      unfolding all_blocks_def
    proof
      fix p assume "p \<in> set new"
      then obtain b where b: "slab mm' p = Some b" "unat lo \<le> ord b" "rng \<longrightarrow> in_range (unat start) (unat (end - 1) + 1) mm' b"
        using got by (auto simp: all_blocks_def)
      then show "\<exists>b. slab mm' p = Some b \<and> as_asked start end min_page flags mm' b"
        using of_size [OF m(1) b(1) _ b(2), of min_page] v(6) m(2) by (simp add: as_asked_def rng_def)
    qed
    then show ?thesis
      using n ro False by (intro exI [of _ mm'] exI [of _ new] exI [of _ res]) (auto simp: blocks_given_def split: sum.splits)
  qed
qed

end
