(* ===== verification/Buddy_Trim.thy ===== *)
theory Buddy_Trim
  imports Buddy_Calls
begin

text \<open>
  Two facts that need the tree as a whole: a request finds enough memory when there is enough, and
  giving back the rest of a block always succeeds, because nothing can be in use below a free block.
\<close>

section \<open>Enough memory\<close>

lemma nothing_free:
  assumes "buddy_wf mm" "no_free mm 0"
  shows "avail mm = 0"
proof -
  have "total mm is_free = 0"
    unfolding total_def using assms(2) by (auto simp: weight_def no_free_def split: option.splits)
  then show ?thesis using assms(1) by (simp add: buddy_wf_def account_ok_def unsigned_eq_0_iff)
qed

lemma enough_memory:
  assumes wf: "buddy_wf mm" and ok: "plenty mm" and small: "unat sz < 2 ^ 32 * unat (chunk_size mm)"
    and ro: "request_ok mm start end sz (chunk_size mm)" "start + sz \<noteq> end" "flags AND DRM_BUDDY_RANGE_ALLOCATION = 0"
    and enough: "sz \<le> avail mm"
  shows "\<exists>mm' new. drm_buddy_alloc_blocks mm start end sz (chunk_size mm) blocks flags = Some (mm', blocks @ new, Inr ())"
proof -
  define pages where "pages = drop_bit (ilog2 (chunk_size mm)) sz"
  define lo where "lo = (word_of_nat (ilog2 (chunk_size mm) - ilog2 (chunk_size mm)) :: u32)"
  note v = pages_values [OF wf ro(1,2) small, folded pages_def lo_def]
  have lo: "unat lo = 0" by (simp add: lo_def)
  have fit: "unat pages * unat (chunk_size mm) \<le> unat (mm_size mm)" using ro(1) v(5) by (simp add: request_ok_def)
  note chk = conjunct1 [OF ro(1) [unfolded request_checks [OF wf]]]
  have no: "\<not> sz AND (chunk_size mm - 1) \<noteq> 0" using ro(1,2) unfolding request_checks [OF wf] by blast
  have bp: "block_picker start end flags = alloc_from_freelist flags" using ro(3) by (simp add: block_picker_def)
  have call: "drm_buddy_alloc_blocks mm start end sz (chunk_size mm) blocks flags =
      map_option (\<lambda>(mm, r). case r of Inl e \<Rightarrow> (mm, blocks, Inl e) | Inr l \<Rightarrow> (mm, blocks @ l, Inr ()))
        (alloc_blocks_loop (alloc_from_freelist flags) lo mm pages (fls pages - 1) [])"
    unfolding drm_buddy_alloc_blocks_def pages_def lo_def Let_def if_not_P [OF chk] if_not_P [OF ro(2)] if_not_P [OF no] bp by (rule refl)
  obtain mm' new r where n: "drm_buddy_alloc_blocks mm start end sz (chunk_size mm) blocks flags = Some (mm', blocks @ new, r)"
    "case r of Inl e \<Rightarrow> e = ENOSPC \<and> new = [] \<and> (\<exists>m al. took None mm al m \<and> no_free m (unat lo) \<and> bytes m al < unat sz)
     | Inr _ \<Rightarrow> bytes mm' new = unat sz \<and> all_blocks (\<lambda>b. unat lo \<le> ord b \<and> True) mm' new"
    using freelist.blocks_result [OF freelist.alloc_blocks_loop_taken [OF wf ok TrueI v(1-4) fit, where al = "[]"], of blocks]
    unfolding call v(5) by blast
  show ?thesis
  proof (cases r)
    case (Inl e)
    then obtain m al where m: "took None mm al m" "no_free m 0" "bytes m al < unat sz" using n(2) lo by auto
    then have "avail m = 0" using nothing_free by (simp add: took_def)
    then have "bytes m al = unat (avail mm)" using m(1) by (simp add: took_def)
    then show ?thesis using m(3) enough by (simp add: word_le_nat_alt)
  qed (use n in auto)
qed

section \<open>Nothing in use below a free block\<close>

lemma leaf_inside:
  assumes wf: "buddy_wf mm" and b: "slab mm x = Some b" "is_split b"
  shows "\<exists>y c. slab mm y = Some c \<and> \<not> is_split c \<and> ival mm c \<subset> ival mm b"
  using b
proof (induction "ord b" arbitrary: x b rule: less_induct)
  case less
  have t: "tree_ok mm" and g: "geometry mm" using wf by (simp_all add: buddy_wf_def)
  obtain l r bl br where ch: "slab mm l = Some bl" "slab mm r = Some br" "halves mm b bl br"
    using t less.prems unfolding tree_ok_def children_def by meson
  have s: "ival mm bl \<subset> ival mm b"
    using halves_ival(1,2) [OF ch(3)] ival_nonempty [OF g, of br] by blast
  have o: "ord bl < ord b" using ch(3) by (simp add: halves_def)
  show ?case
  proof (cases "is_split bl")
    case True
    then show ?thesis using less.hyps [OF o ch(1)] s by blast
  next
    case False
    then show ?thesis using ch(1) s by blast
  qed
qed

lemma not_blocked_below:
  assumes wf: "buddy_wf mm" and p: "slab mm p = Some b" "is_free b"
    and x: "slab mm x = Some d" "ival mm d \<subseteq> ival mm b"
  shows "\<not> blocked mm s hi d"
proof
  assume bl: "blocked mm s hi d"
  have lf: "leaves_ok mm" and g: "geometry mm" using wf by (simp_all add: buddy_wf_def)
  have ns: "\<not> is_split b" by (rule state_exclusive(2) [OF p(2)])
  have dis: "y = p" if "slab mm y = Some c" "\<not> is_split c" "ival mm c \<subseteq> ival mm b" for y c
  proof (rule ccontr)
    assume "y \<noteq> p"
    then have "ival mm c \<inter> ival mm b = {}" using lf that(1,2) p(1) ns unfolding leaves_ok_def by meson
    then show False using that(3) ival_nonempty [OF g, of c] by blast
  qed
  show False
  proof (cases "is_split d")
    case True
    then obtain y c where c: "slab mm y = Some c" "\<not> is_split c" "ival mm c \<subset> ival mm d" using leaf_inside [OF wf x(1)] by blast
    then have "y = p" using dis x(2) by blast
    then show False using c x(2) p(1) by auto
  next
    case False
    then have "x = p" using dis x by blast
    then show False using bl False x(1) p by (auto simp: blocked_def dest: state_exclusive)
  qed
qed

section \<open>Giving back the rest of a block\<close>

definition trimmed :: "buddy \<Rightarrow> nat \<Rightarrow> block \<Rightarrow> nat \<Rightarrow> buddy \<Rightarrow> nat list \<Rightarrow> bool" where
  "trimmed mm p b n mm' new \<longleftrightarrow> buddy_wf mm' \<and> same_frame mm mm' \<and> distinct new \<and> set new \<inter> (allocated mm - {p}) = {} \<and>
     allocated mm' = allocated mm - {p} \<union> set new \<and> (\<forall>x. x \<in> allocated mm - {p} \<longrightarrow> slab mm' x = slab mm x) \<and>
     covered mm' new = {off b..<off b + n} \<and> unat (avail mm') + n = unat (avail mm) + len mm b"

lemma trim_walk:
  assumes wf: "buddy_wf mm" and ok: "plenty mm" and b: "slab mm p = Some b" "is_allocated b"
    and n: "0 < unat n" "unat n \<le> len mm b" "unat (chunk_size mm) dvd unat n"
  defines "m \<equiv> (returned mm p b)\<lparr>slab := (slab mm)(p \<mapsto> set_state DRM_BUDDY_FREE b\<lparr>parent := None\<rparr>)\<rparr>" and "c \<equiv> Some (p, parent b)"
  shows "\<exists>m' new. alloc_range m [p] (drm_buddy_block_offset b) n [] = Some (m', new, Inr ()) \<and> took c m new m' \<and>
    covered m' new = {off b..<off b + unat n}"
proof -
  note w = returned_wf [OF wf b]
  have e: "attach c m = returned mm p b"
  proof -
    have "set_state DRM_BUDDY_FREE b\<lparr>parent := parent b\<rparr> = set_state DRM_BUDDY_FREE b" by (simp add: set_state_def)
    then have "slab (attach c m) = slab (returned mm p b)"
      by (auto simp: c_def m_def attach_def returned_def fun_eq_iff)
    then show ?thesis by (simp add: attach_def c_def m_def)
  qed
  have wa: "buddy_wf (attach c m)" unfolding e by (rule w(1))
  have mp: "slab m p = Some (set_state DRM_BUDDY_FREE b\<lparr>parent := None\<rparr>)" by (simp add: m_def)
  have fr: "same_frame mm m" using w(2) by (simp add: m_def same_frame_def)
  note bo = wf_block [OF wf b(1)]
  have "off (x\<lparr>parent := q\<rparr>) = off x" for x q by (simp add: off_def)
  then have iv: "bytes_of m p = ival mm b" using mp unfolding bytes_of_def frame_cong(2) [OF fr] by (simp add: ival_def len_def)
  have cs: "chunk_size m = chunk_size mm" using fr by (simp add: same_frame_def)
  have "len mm b dvd off b" using bo(2) by (simp add: block_ok_def dvd_eq_mod_eq_0)
  then have d: "unat (chunk_size m) dvd off b" by (auto simp: cs len_def elim: dvd_trans [rotated])
  have lt: "off b + unat n < 2 ^ 64" using bo(2) n(2) unsigned_less [of "mm_size mm", where 'a = nat] by (simp add: block_ok_def)
  have u: "unat (drm_buddy_block_offset b) = off b" by (simp add: off_def)
  then have un: "unat (drm_buddy_block_offset b + n) = off b + unat n" using lt by (simp add: unat_word_ariths)
  then have "1 \<le> drm_buddy_block_offset b + n" using n(1) by (simp add: word_le_nat_alt)
  then have stop: "unat (drm_buddy_block_offset b + n - 1) = off b + unat n - 1" using un by (simp add: unat_sub)
  have "range_taken c (off b) (off b + unat n) m [p] [] (alloc_range_loop (drm_buddy_block_offset b) (drm_buddy_block_offset b + n - 1) m [p] [])"
    by (rule alloc_range_loop_taken [OF wa])
      (use ok mp u stop n d fr cs in \<open>simp_all add: c_def cut_ok_def plenty_def apart_def same_frame_def\<close>)
  then obtain m' new where r: "took c m new m'"
    "alloc_range_loop (drm_buddy_block_offset b) (drm_buddy_block_offset b + n - 1) m [p] [] = Some (m', Inr new) \<and>
       covered m' new = {off b..<off b + unat n} \<inter> covered m [p] \<or>
     (\<exists>x d. slab m x = Some d \<and> blocked m (off b) (off b + unat n) d \<and> ival m d \<subseteq> covered m [p])"
    unfolding range_taken_def append_Nil by blast
  have cv: "covered m [p] = ival mm b" using iv by (simp add: covered_def)
  have "\<not> (\<exists>x d. slab m x = Some d \<and> blocked m (off b) (off b + unat n) d \<and> ival m d \<subseteq> covered m [p])"
  proof (clarsimp simp only: cv)
    fix x d assume d: "slab m x = Some d" "blocked m (off b) (off b + unat n) d" "ival m d \<subseteq> ival mm b"
    have s: "slab (returned mm p b) x = Some (attached c x d)" using d(1) by (simp add: slab_attach flip: e)
    have q: "slab (returned mm p b) p = Some (set_state DRM_BUDDY_FREE b)" by (simp add: returned_def)
    note f = frame_cong(2) [OF w(2)] frame_cong(2) [OF fr]
    have sb: "ival mm (set_state DRM_BUDDY_FREE b) = ival mm b" by (simp add: ival_def len_def)
    have "\<not> blocked (returned mm p b) (off b) (off b + unat n) (attached c x d)"
      by (rule not_blocked_below [OF w(1) q _ s]) (use d(3) in \<open>simp_all add: f sb\<close>)
    then show False using d(2) f by (simp add: blocked_def)
  qed
  then have s: "alloc_range_loop (drm_buddy_block_offset b) (drm_buddy_block_offset b + n - 1) m [p] [] = Some (m', Inr new)"
    "covered m' new = {off b..<off b + unat n} \<inter> ival mm b" using r(2) cv by auto
  have "{off b..<off b + unat n} \<inter> ival mm b = {off b..<off b + unat n}" using n(2) by (auto simp: ival_def)
  then show ?thesis using r(1) s by (auto simp: alloc_range_def)
qed

lemma trim_result:
  assumes wf: "buddy_wf mm" and ok: "plenty mm" and b: "slab mm p = Some b"
  shows "\<exists>mm' new r. drm_buddy_block_trim mm n [p] = Some (mm', new, r) \<and>
    (if is_allocated b \<and> 0 < unat n \<and> unat n \<le> len mm b \<and> unat (chunk_size mm) dvd unat n
     then r = Inr () \<and> trimmed mm p b (unat n) mm' new else r = Inl EINVAL \<and> mm' = mm \<and> new = [p])"
proof -
  obtain k where k: "k < 64" "unat (chunk_size mm) = 2 ^ k" by (rule chunk_power [OF wf])
  note bo = wf_block [OF wf b]
  have s: "unat (drm_buddy_block_size mm b) = len mm b" by (rule unat_block_size(1) [OF bo(3,4)])
  have chk: "(\<not> is_allocated b \<or> drm_buddy_block_size mm b < n \<or> n = 0 \<or> n AND (chunk_size mm - 1) \<noteq> 0) \<longleftrightarrow>
      \<not> (is_allocated b \<and> 0 < unat n \<and> unat n \<le> len mm b \<and> unat (chunk_size mm) dvd unat n)"
    by (auto simp: aligned_dvd [OF k(2,1)] word_less_nat_alt s not_less unat_gt_0)
  show ?thesis
  proof (cases "is_allocated b \<and> 0 < unat n \<and> unat n \<le> len mm b \<and> unat (chunk_size mm) dvd unat n")
    case False
    then show ?thesis using b chk by (simp add: drm_buddy_block_trim_def)
  next
    case True
    then have a: "p \<in> allocated mm" using b by (simp add: allocated_def)
    show ?thesis
    proof (cases "n = drm_buddy_block_size mm b")
      case eq: True
      have "trimmed mm p b (unat n) mm [p]"
        using wf a b s eq by (auto simp: trimmed_def covered_def bytes_of_def ival_def)
      moreover have "drm_buddy_block_trim mm n [p] = Some (mm, [p], Inr ())"
        using b True chk eq by (simp add: drm_buddy_block_trim_def)
      ultimately show ?thesis using True by simp
    next
      case ne: False
      define m where "m = (returned mm p b)\<lparr>slab := (slab mm)(p \<mapsto> set_state DRM_BUDDY_FREE b\<lparr>parent := None\<rparr>)\<rparr>"
      define c where "c = Some (p, parent b)"
      obtain m' new where r: "alloc_range m [p] (drm_buddy_block_offset b) n [] = Some (m', new, Inr ())" "took c m new m'"
        "covered m' new = {off b..<off b + unat n}"
        using trim_walk [OF wf ok b, folded m_def c_def] True by blast
      have mf: "mark_free mm p = Some ((returned mm p b)\<lparr>avail := avail mm\<rparr>)"
        by (rule mark_free_returned) (use wf_free_list [OF wf bo(4)] b True in \<open>auto dest: state_exclusive\<close>)
      have sp: "set_parent p None ((returned mm p b)\<lparr>avail := avail mm + drm_buddy_block_size mm b\<rparr>) = Some m"
        by (simp add: set_parent_def set_block_def returned_def m_def)
      have "slab m' p \<noteq> None" using r(2) by (auto simp: took_def m_def)
      then have "set_parent p (parent b) m' = Some (attach c m')"
        by (auto simp: set_parent_def set_block_def attach_def c_def fun_eq_iff)
      then have call: "drm_buddy_block_trim mm n [p] = Some (attach c m', new, Inr ())"
        using b True chk ne mf sp r(1) by (simp add: drm_buddy_block_trim_def drm_buddy_block_size_def returned_def Let_def)
      have "is_allocated (x\<lparr>parent := q\<rparr>) = is_allocated x" for x q by (simp add: buddy_states)
      then have am: "allocated m = allocated mm - {p}" by (auto simp: allocated_def m_def)
      have ap: "slab (attach c m') x = slab m' x" if "x \<noteq> p" for x using that by (simp add: attach_def c_def)
      have fr: "same_frame mm m" by (simp add: m_def returned_def same_frame_def)
      have tk: "buddy_wf (attach c m')" "same_frame m m'" "distinct new" "set new \<inter> allocated m = {}" "allocated m' = allocated m \<union> set new"
        "\<And>x. x \<in> allocated m \<Longrightarrow> slab m' x = slab m x" "unat (avail m') + bytes m' new = unat (avail m)"
        using r(2) by (simp_all add: took_def)
      have keep: "slab (attach c m') x = slab mm x" if "x \<in> allocated mm - {p}" for x
        using that tk(6) [of x] ap [of x] am by (simp add: m_def)
      have at: "the (slab (attach c m') x) = attached c x (the (slab m' x))" if "x \<in> set new" for x
      proof -
        have "x \<in> allocated m'" using that tk(5) by simp
        then show ?thesis by (auto simp: slab_attach allocated_def)
      qed
      have af: "ival (attach c m') d = ival m' d" "len (attach c m') d = len m' d" for d by (simp_all add: ival_def len_def)
      have cov: "covered (attach c m') new = {off b..<off b + unat n}"
        using r(3) at by (simp add: covered_def bytes_of_def af)
      have "bytes m' new = bytes (attach c m') new"
        unfolding bytes_def by (intro arg_cong [of _ _ sum_list] map_cong) (simp_all add: at af)
      also have "\<dots> = unat n"
        using bytes_card [OF tk(1,3)] tk(5) cov by simp
      finally have "unat (avail m') + unat n = unat (avail mm) + len mm b"
        using tk(7) returned_wf(4) [OF wf b] True by (simp add: m_def)
      then have "trimmed mm p b (unat n) (attach c m') new"
        unfolding trimmed_def
        using tk(1,3,4,5) keep cov am same_frame_trans [OF fr tk(2)] by (simp add: same_frame_def)
      then show ?thesis using call True by simp
    qed
  qed
qed

end
