(* ===== verification/Buddy_Client.thy ===== *)
theory Buddy_Client
  imports Buddy_Trim
begin

text \<open>
  What the allocator promises its clients, said without trees, lists and headers: some bytes are owned,
  each by one handle, and the rest is room. The operations of the allocator are shown to be steps of
  this specification, and what follows for every history of calls is proved from it.
\<close>

section \<open>The specification\<close>

record vram =
  owned :: "nat \<Rightarrow> nat set option"
  room :: nat

definition amount :: "vram \<Rightarrow> nat set \<Rightarrow> nat" where
  "amount v P = (\<Sum>p\<in>P. card (the (owned v p)))"

definition parts :: "vram \<Rightarrow> nat set \<Rightarrow> nat set" where
  "parts v P = (\<Union>p\<in>P. the (owned v p))"

text \<open>\<open>N\<close> bytes in all: what is owned is owned once, and the rest is room.\<close>

definition vram_ok :: "nat \<Rightarrow> vram \<Rightarrow> bool" where
  "vram_ok N v \<longleftrightarrow> finite (dom (owned v)) \<and> (\<forall>p M. owned v p = Some M \<longrightarrow> M \<subseteq> {0..<N}) \<and>
     (\<forall>p q M K. owned v p = Some M \<longrightarrow> owned v q = Some K \<longrightarrow> p \<noteq> q \<longrightarrow> M \<inter> K = {}) \<and>
     room v + amount v (dom (owned v)) = N"

text \<open>The steps: blocks are given out, blocks are taken back, a block is cut down to its first bytes.\<close>

definition gives :: "nat \<Rightarrow> vram \<Rightarrow> nat list \<Rightarrow> vram \<Rightarrow> bool" where
  "gives N v ps v' \<longleftrightarrow> vram_ok N v' \<and> distinct ps \<and> set ps \<inter> dom (owned v) = {} \<and>
     dom (owned v') = dom (owned v) \<union> set ps \<and> (\<forall>p\<in>dom (owned v). owned v' p = owned v p)"

definition takes_back :: "vram \<Rightarrow> nat list \<Rightarrow> vram \<Rightarrow> bool" where
  "takes_back v ps v' \<longleftrightarrow> owned v' = owned v |` (- set ps) \<and> room v' = room v + amount v (set ps)"

definition cuts :: "nat \<Rightarrow> vram \<Rightarrow> nat \<Rightarrow> nat set \<Rightarrow> nat list \<Rightarrow> vram \<Rightarrow> bool" where
  "cuts N v p M ps v' \<longleftrightarrow> vram_ok N v' \<and> distinct ps \<and> set ps \<inter> (dom (owned v) - {p}) = {} \<and>
     dom (owned v') = dom (owned v) - {p} \<union> set ps \<and> (\<forall>q\<in>dom (owned v) - {p}. owned v' q = owned v q) \<and> parts v' (set ps) = M"

lemma amount_parts:
  assumes "vram_ok N v" "P \<subseteq> dom (owned v)"
  shows "amount v P = card (parts v P)"
proof -
  have ok: "finite (dom (owned v))" "\<And>p M. owned v p = Some M \<Longrightarrow> M \<subseteq> {0..<N}"
    "\<And>p q M K. owned v p = Some M \<Longrightarrow> owned v q = Some K \<Longrightarrow> p \<noteq> q \<Longrightarrow> M \<inter> K = {}"
    using assms(1) unfolding vram_ok_def by blast+
  have fin: "finite P" by (rule finite_subset [OF assms(2) ok(1)])
  have o: "owned v p = Some (the (owned v p))" if "p \<in> P" for p using that assms(2) by auto
  have "\<forall>p\<in>P. finite (the (owned v p))" using finite_subset [OF ok(2) [OF o]] by blast
  moreover have "\<forall>p\<in>P. \<forall>q\<in>P. p \<noteq> q \<longrightarrow> the (owned v p) \<inter> the (owned v q) = {}" using ok(3) [OF o o] by blast
  ultimately show ?thesis unfolding amount_def parts_def using card_UN_disjoint [OF fin] by metis
qed

lemma takes_back_ok:
  assumes ok: "vram_ok N v" and t: "takes_back v ps v'" and ps: "set ps \<subseteq> dom (owned v)"
  shows "vram_ok N v'"
proof -
  have fin: "finite (dom (owned v))" using ok by (simp add: vram_ok_def)
  have d: "dom (owned v') = dom (owned v) - set ps" using t by (auto simp: takes_back_def restrict_map_def split: if_splits)
  have e: "owned v' p = owned v p" if "p \<in> dom (owned v')" for p using that t by (auto simp: takes_back_def restrict_map_def split: if_splits)
  have "amount v' (dom (owned v')) = amount v (dom (owned v) - set ps)" unfolding d amount_def by (rule sum.cong) (use e d in auto)
  moreover have "amount v (dom (owned v)) = amount v (dom (owned v) - set ps) + amount v (set ps)"
    unfolding amount_def by (rule sum.subset_diff [OF ps fin])
  ultimately have "room v' + amount v' (dom (owned v')) = N" using ok t by (simp add: vram_ok_def takes_back_def)
  then show ?thesis
    using ok e fin d unfolding vram_ok_def by (metis domI finite_Diff)
qed

lemma gives_room:
  assumes "vram_ok N v" "gives N v ps v'"
  shows "room v' + amount v' (set ps) = room v"
proof -
  have d: "dom (owned v') = dom (owned v) \<union> set ps" "set ps \<inter> dom (owned v) = {}" "finite (dom (owned v))"
    using assms by (auto simp: gives_def vram_ok_def)
  have "amount v' (dom (owned v)) = amount v (dom (owned v))"
    unfolding amount_def by (rule sum.cong) (use assms(2) in \<open>auto simp: gives_def\<close>)
  moreover have "amount v' (dom (owned v')) = amount v' (dom (owned v)) + amount v' (set ps)"
    unfolding d(1) amount_def using d(2,3) by (intro sum.union_disjoint) auto
  ultimately show ?thesis using assms by (simp add: gives_def vram_ok_def)
qed

text \<open>Giving blocks and taking them back leaves everything as it was.\<close>

lemma gives_takes_back:
  assumes "vram_ok N v" "gives N v ps v1" "takes_back v1 ps v2"
  shows "owned v2 = owned v" "room v2 = room v"
proof -
  have g: "dom (owned v1) = dom (owned v) \<union> set ps" "set ps \<inter> dom (owned v) = {}" "\<And>p. p \<in> dom (owned v) \<Longrightarrow> owned v1 p = owned v p"
    using assms(2) by (auto simp: gives_def)
  have "owned v2 p = owned v p" for p
  proof (cases "p \<in> set ps")
    case True
    then have "p \<notin> dom (owned v)" using g(2) by auto
    then have "owned v p = None" by auto
    then show ?thesis using True assms(3) by (simp add: takes_back_def)
  next
    case False
    then show ?thesis using g assms(3) by (cases "p \<in> dom (owned v)") (auto simp: takes_back_def restrict_map_def)
  qed
  then show "owned v2 = owned v" by blast
  show "room v2 = room v" using gives_room [OF assms(1,2)] assms(3) by (simp add: takes_back_def)
qed

section \<open>What the state of the allocator stands for\<close>

definition view :: "buddy \<Rightarrow> vram" where
  "view mm = \<lparr>owned = (\<lambda>p. if p \<in> allocated mm then Some (bytes_of mm p) else None), room = unat (avail mm)\<rparr>"

lemma view_simps [simp]: "dom (owned (view mm)) = allocated mm" "room (view mm) = unat (avail mm)"
  by (auto simp: view_def split: if_splits)

lemma view_owned: "owned (view mm) p = (if p \<in> allocated mm then Some (bytes_of mm p) else None)"
  by (simp add: view_def)

lemma view_amount:
  assumes "buddy_wf mm" "distinct ps" "set ps \<subseteq> allocated mm"
  shows "amount (view mm) (set ps) = bytes mm ps" "parts (view mm) (set ps) = covered mm ps"
proof -
  have "amount (view mm) (set ps) = (\<Sum>p\<in>set ps. len mm (the (slab mm p)))"
    unfolding amount_def by (rule sum.cong) (use assms(3) in \<open>auto simp: view_owned bytes_of_def ival_len\<close>)
  then show "amount (view mm) (set ps) = bytes mm ps" using assms(2) by (simp add: bytes_def sum_list_distinct_conv_sum_set)
  show "parts (view mm) (set ps) = covered mm ps" unfolding parts_def covered_def by (rule SUP_cong) (use assms(3) in \<open>auto simp: view_owned\<close>)
qed

lemma view_ok:
  assumes wf: "buddy_wf mm"
  shows "vram_ok (unat (mm_size mm)) (view mm)"
proof -
  have al: "\<exists>b. slab mm p = Some b \<and> is_allocated b \<and> p < slab_next mm" if "p \<in> allocated mm" for p
    using that wf_block(1) [OF wf] by (auto simp: allocated_def)
  then have fin: "finite (allocated mm)" by (meson finite_lessThan finite_subset lessThan_iff subsetI)
  have "bytes_of mm p \<subseteq> {0..<unat (mm_size mm)}" if "p \<in> allocated mm" for p
    using al [OF that] wf_block(2) [OF wf] by (force simp: bytes_of_def ival_def block_ok_def)
  moreover have "bytes_of mm p \<inter> bytes_of mm q = {}" if pq: "p \<in> allocated mm" "q \<in> allocated mm" "p \<noteq> q" for p q
  proof -
    obtain b where b: "slab mm p = Some b" "is_allocated b" using al [OF pq(1)] by blast
    obtain c where c: "slab mm q = Some c" "is_allocated c" using al [OF pq(2)] by blast
    note bc = b c
    have "\<not> is_split b" "\<not> is_split c" using bc(2,4) by (auto dest: state_exclusive)
    then show ?thesis using wf bc pq(3) unfolding buddy_wf_def leaves_ok_def bytes_of_def by (metis option.sel)
  qed
  moreover have "unat (avail mm) + amount (view mm) (allocated mm) = unat (mm_size mm)"
  proof -
    have "total mm is_allocated = (\<Sum>p\<in>allocated mm. card (bytes_of mm p))"
      unfolding total_def
      by (rule sum.mono_neutral_cong_right) (use al in \<open>force simp: weight_def allocated_def bytes_of_def ival_len split: option.splits\<close>)+
    moreover have "amount (view mm) (allocated mm) = (\<Sum>p\<in>allocated mm. card (bytes_of mm p))" by (simp add: amount_def view_owned)
    moreover have "total mm (\<lambda>b. is_free b \<or> is_allocated b) = total mm is_free + total mm is_allocated"
      by (rule total_split) (auto dest: state_exclusive)
    moreover have "total mm (\<lambda>b. is_free b \<or> is_allocated b) = total mm (\<lambda>b. \<not> is_split b)"
      unfolding total_def
      by (rule sum.cong) (use wf_block(2) [OF wf] in \<open>auto simp: weight_def block_ok_def dest: state_exclusive split: option.splits\<close>)
    ultimately show ?thesis using wf by (simp add: buddy_wf_def account_ok_def)
  qed
  ultimately show ?thesis using fin by (auto simp: vram_ok_def view_owned split: if_splits)
qed

lemma view_gained:
  assumes "gained mm new mm'"
  shows "gives (unat (mm_size mm)) (view mm) new (view mm')"
proof -
  have g: "buddy_wf mm'" "same_frame mm mm'" "distinct new" "set new \<inter> allocated mm = {}" "allocated mm' = allocated mm \<union> set new"
    "\<And>x. x \<in> allocated mm \<Longrightarrow> slab mm' x = slab mm x" using assms by (simp_all add: gained_def)
  have "unat (mm_size mm') = unat (mm_size mm)" using g(2) by (simp add: same_frame_def)
  then show ?thesis
    using view_ok [OF g(1)] g bytes_of_cong [OF g(2) g(6)] by (simp add: gives_def view_owned)
qed

lemma view_same:
  assumes "gained mm [] mm'"
  shows "view mm' = view mm"
proof -
  have g: "same_frame mm mm'" "allocated mm' = allocated mm" "\<And>x. x \<in> allocated mm \<Longrightarrow> slab mm' x = slab mm x" "unat (avail mm') = unat (avail mm)"
    using assms by (simp_all add: gained_def bytes_def)
  then show ?thesis using bytes_of_cong [OF g(1) g(3)] by (auto simp: view_def fun_eq_iff)
qed

lemma view_gives_back:
  assumes wf: "buddy_wf mm" and ps: "distinct ps" "set ps \<subseteq> allocated mm" and g: "gives_back mm ps mm'"
  shows "takes_back (view mm) ps (view mm')"
proof -
  have a: "allocated mm' = allocated mm - set ps" "unat (avail mm') = unat (avail mm) + bytes mm ps" "same_frame mm mm'"
    "\<And>x. x \<in> allocated mm' \<Longrightarrow> slab mm' x = slab mm x" using g by (simp_all add: gives_back_def)
  then show ?thesis
    using bytes_of_cong [OF a(3) a(4)] view_amount(1) [OF wf ps] by (auto simp: takes_back_def view_owned restrict_map_def fun_eq_iff)
qed

lemma view_trimmed:
  assumes "trimmed mm p b n mm' new"
  shows "cuts (unat (mm_size mm)) (view mm) p {off b..<off b + n} new (view mm')"
proof -
  have g: "buddy_wf mm'" "same_frame mm mm'" "distinct new" "set new \<inter> (allocated mm - {p}) = {}" "allocated mm' = allocated mm - {p} \<union> set new"
    "\<And>x. x \<in> allocated mm - {p} \<Longrightarrow> slab mm' x = slab mm x" "covered mm' new = {off b..<off b + n}"
    using assms by (simp_all add: trimmed_def)
  have s: "unat (mm_size mm') = unat (mm_size mm)" using g(2) by (simp add: same_frame_def)
  have "parts (view mm') (set new) = covered mm' new" by (rule view_amount(2) [OF g(1,3)]) (simp add: g(5))
  then show ?thesis
    using view_ok [OF g(1)] g bytes_of_cong [OF g(2) g(6)] unfolding cuts_def s by (auto simp: view_owned)
qed

end
