(* ===== verification/Buddy_Runs.thy ===== *)
theory Buddy_Runs
  imports Buddy_Client
begin

text \<open>
  The contract of the allocator as an interface, the proof that \<open>drm_buddy.c\<close> provides it, and the
  histories of calls.
\<close>

section \<open>The contract\<close>

text \<open>
  \<open>get\<close> asks for blocks, \<open>put\<close> returns blocks, \<open>cut\<close> returns all but the first bytes of a block. A call
  that is refused changes nothing that the client can see.
\<close>

locale vram_provider =
  fixes ready :: "'s \<Rightarrow> bool" and look :: "'s \<Rightarrow> vram" and extent :: "'s \<Rightarrow> nat" and served :: "'s \<Rightarrow> 'r \<Rightarrow> bool"
    and asked :: "'r \<Rightarrow> nat" and get :: "'s \<Rightarrow> 'r \<Rightarrow> ('s \<times> nat list \<times> unit res) option" and put :: "'s \<Rightarrow> nat list \<Rightarrow> 's option"
    and cut :: "'s \<Rightarrow> u64 \<Rightarrow> nat \<Rightarrow> ('s \<times> nat list \<times> unit res) option"
  assumes look_ok: "ready s \<Longrightarrow> vram_ok (extent s) (look s)"
    and get_returns: "ready s \<Longrightarrow> served s r \<Longrightarrow> \<exists>s' new res. get s r = Some (s', new, res) \<and> ready s' \<and> extent s' = extent s \<and>
      (case res of Inl e \<Rightarrow> new = [] \<and> look s' = look s
       | Inr _ \<Rightarrow> gives (extent s) (look s) new (look s') \<and> amount (look s') (set new) = asked r)"
    and put_returns: "ready s \<Longrightarrow> distinct ps \<Longrightarrow> set ps \<subseteq> dom (owned (look s)) \<Longrightarrow> \<exists>s'. put s ps = Some s' \<and> ready s' \<and> extent s' = extent s \<and>
      takes_back (look s) ps (look s')"
    and cut_returns: "ready s \<Longrightarrow> p \<in> dom (owned (look s)) \<Longrightarrow> \<exists>s' new res. cut s n p = Some (s', new, res) \<and> ready s' \<and> extent s' = extent s \<and>
      (case res of Inl e \<Rightarrow> s' = s \<and> new = [p]
       | Inr _ \<Rightarrow> \<exists>a l. owned (look s) p = Some {a..<a + l} \<and> unat n \<le> l \<and> cuts (extent s) (look s) p {a..<a + unat n} new (look s'))"
begin

text \<open>Returning what was got restores the state the client sees.\<close>

lemma get_put:
  assumes "ready s" "served s r" "get s r = Some (s1, new, Inr ())"
  shows "\<exists>s2. put s1 new = Some s2 \<and> ready s2 \<and> look s2 = look s"
proof -
  have g: "ready s1" "gives (extent s) (look s) new (look s1)" using get_returns [OF assms(1,2)] assms(3) by auto
  then have "distinct new" "set new \<subseteq> dom (owned (look s1))" by (auto simp: gives_def)
  then obtain s2 where p: "put s1 new = Some s2" "ready s2" "takes_back (look s1) new (look s2)" using put_returns [OF g(1)] by blast
  have "look s2 = look s" using gives_takes_back [OF look_ok [OF assms(1)] g(2) p(3)] by simp
  then show ?thesis using p by blast
qed

text \<open>A refused or a granted request never touches what is owned already.\<close>

lemma get_keeps:
  assumes "ready s" "served s r" "get s r = Some (s', new, res)" "owned (look s) p = Some M"
  shows "owned (look s') p = Some M" "p \<notin> set new" "\<And>q. q \<in> set new \<Longrightarrow> M \<inter> the (owned (look s') q) = {}"
proof -
  have g: "new = [] \<and> look s' = look s \<or> gives (extent s) (look s) new (look s')"
    using get_returns [OF assms(1,2)] assms(3) by (auto split: sum.splits)
  have d: "p \<in> dom (owned (look s))" using assms(4) by auto
  have "owned (look s') p = owned (look s) p \<and> p \<notin> set new" using g d unfolding gives_def by fastforce
  then show k: "owned (look s') p = Some M" "p \<notin> set new" using assms(4) by simp_all
  show "M \<inter> the (owned (look s') q) = {}" if q: "q \<in> set new" for q
  proof -
    have "vram_ok (extent s) (look s')" "q \<in> dom (owned (look s'))" "p \<noteq> q" using g q k(2) by (auto simp: gives_def)
    then show ?thesis using k(1) unfolding vram_ok_def by (metis domIff option.collapse)
  qed
qed

end

section \<open>The allocator provides it\<close>

fun serves :: "buddy \<Rightarrow> u64 \<times> u64 \<times> u64 \<times> u64 \<times> u64 \<Rightarrow> bool" where
  "serves mm (start, end, sz, min_page, flags) \<longleftrightarrow> unat sz < 2 ^ 32 * unat (chunk_size mm)"

fun request :: "buddy \<Rightarrow> u64 \<times> u64 \<times> u64 \<times> u64 \<times> u64 \<Rightarrow> (buddy \<times> nat list \<times> unit res) option" where
  "request mm (start, end, sz, min_page, flags) = drm_buddy_alloc_blocks mm start end sz min_page [] flags"

lemma gained_plenty: "gained mm new mm' \<Longrightarrow> plenty mm \<Longrightarrow> plenty mm'"
  by (simp add: gained_def same_frame_def plenty_def)

interpretation vp: vram_provider "\<lambda>mm. buddy_wf mm \<and> plenty mm" view "\<lambda>mm. unat (mm_size mm)" serves "\<lambda>(_, _, sz, _). unat sz" request
  drm_buddy_free_list "\<lambda>mm n p. drm_buddy_block_trim mm n [p]"
proof (unfold_locales, goal_cases)
  case (1 mm)
  then show ?case using view_ok by blast
next
  case (2 mm r)
  obtain start "end" sz min_page flags where r: "r = (start, end, sz, min_page, flags)" by (cases r)
  have small: "unat sz < 2 ^ 32 * unat (chunk_size mm)" using 2(2) by (simp add: r)
  obtain mm' new res where g: "drm_buddy_alloc_blocks mm start end sz min_page [] flags = Some (mm', [] @ new, res)" "gained mm new mm'"
    "case res of Inr _ \<Rightarrow> request_ok mm start end sz min_page \<and> blocks_given mm start end sz min_page flags mm' new
     | Inl e \<Rightarrow> new = [] \<and> (if request_ok mm start end sz min_page then e = ENOSPC else e = EINVAL \<and> mm' = mm)"
    using alloc_blocks_result [OF conjunct1 [OF 2(1)] conjunct2 [OF 2(1)] small] by blast
  have w: "buddy_wf mm'" "plenty mm'" "mm_size mm' = mm_size mm" "distinct new" "set new \<subseteq> allocated mm'"
    using g(2) gained_plenty [OF g(2)] 2(1) by (auto simp: gained_def same_frame_def)
  show ?case
  proof (cases res)
    case (Inl e)
    then show ?thesis using g w view_same [of mm mm'] by (auto simp: r)
  next
    case (Inr u)
    have "amount (view mm') (set new) = unat sz"
      using g(3) view_amount(1) [OF w(1,4,5)] by (simp add: Inr blocks_given_def)
    then show ?thesis using g w view_gained [OF g(2)] Inr by (auto simp: r)
  qed
next
  case (3 mm ps)
  then obtain mm' where g: "drm_buddy_free_list mm ps = Some mm'" "gives_back mm ps mm'"
    using free_list_gives_back [of mm ps] by auto
  then show ?case
    using 3 view_gives_back [of mm ps mm'] by (auto simp: gives_back_def same_frame_def plenty_def)
next
  case (4 mm p n)
  then obtain b where b: "slab mm p = Some b" "is_allocated b" by (auto simp: allocated_def)
  then have o: "owned (view mm) p = Some {off b..<off b + len mm b}" by (auto simp: view_owned allocated_def bytes_of_def ival_def)
  have w: "buddy_wf mm" "plenty mm" using 4(1) by simp_all
  obtain mm' new r where t: "drm_buddy_block_trim mm n [p] = Some (mm', new, r)"
    "if is_allocated b \<and> 0 < unat n \<and> unat n \<le> len mm b \<and> unat (chunk_size mm) dvd unat n
     then r = Inr () \<and> trimmed mm p b (unat n) mm' new else r = Inl EINVAL \<and> mm' = mm \<and> new = [p]"
    using trim_result [OF w b(1), of n] by blast
  show ?case
  proof (cases r)
    case (Inl e)
    then show ?thesis using t w by (auto split: if_splits)
  next
    case (Inr u)
    then have tr: "trimmed mm p b (unat n) mm' new" "unat n \<le> len mm b" using t(2) by (auto split: if_splits)
    then have "buddy_wf mm' \<and> plenty mm' \<and> mm_size mm' = mm_size mm" using w(2) by (simp add: trimmed_def same_frame_def plenty_def)
    then show ?thesis using t(1) Inr o tr view_trimmed [OF tr(1)] by auto
  qed
qed

section \<open>Histories of calls\<close>

datatype client_op = Alloc u64 u64 u64 u64 u64 | Free "nat list" | Trim u64 nat

fun client_step :: "buddy \<Rightarrow> client_op \<Rightarrow> (buddy \<times> nat list \<times> unit res) option" where
  "client_step mm (Alloc start end sz min_page flags) = drm_buddy_alloc_blocks mm start end sz min_page [] flags"
| "client_step mm (Free ps) = map_option (\<lambda>mm. (mm, [], Inr ())) (drm_buddy_free_list mm ps)"
| "client_step mm (Trim n p) = drm_buddy_block_trim mm n [p]"

text \<open>A client returns or cuts only what it owns, and does not ask for \<open>2 ^ 32\<close> chunks at once.\<close>

fun legal :: "buddy \<Rightarrow> client_op \<Rightarrow> bool" where
  "legal mm (Alloc start end sz min_page flags) \<longleftrightarrow> serves mm (start, end, sz, min_page, flags)"
| "legal mm (Free ps) \<longleftrightarrow> distinct ps \<and> set ps \<subseteq> dom (owned (view mm))"
| "legal mm (Trim n p) \<longleftrightarrow> p \<in> dom (owned (view mm))"

text \<open>What each call does, on the specification.\<close>

fun spec_step :: "nat \<Rightarrow> vram \<Rightarrow> client_op \<Rightarrow> nat list \<Rightarrow> unit res \<Rightarrow> vram \<Rightarrow> bool" where
  "spec_step N v (Alloc start end sz min_page flags) out (Inr _) v' \<longleftrightarrow>
     gives N v out v' \<and> amount v' (set out) = unat sz"
| "spec_step N v (Alloc start end sz min_page flags) out (Inl _) v' \<longleftrightarrow> out = [] \<and> v' = v"
| "spec_step N v (Free ps) out res v' \<longleftrightarrow> res = Inr () \<and> takes_back v ps v'"
| "spec_step N v (Trim n p) out (Inr _) v' \<longleftrightarrow>
     (\<exists>a l. owned v p = Some {a..<a + l} \<and> unat n \<le> l \<and> cuts N v p {a..<a + unat n} out v')"
| "spec_step N v (Trim n p) out (Inl _) v' \<longleftrightarrow> out = [p] \<and> v' = v"

lemma client_step_simulates:
  assumes "buddy_wf mm" "plenty mm" "legal mm op"
  shows "\<exists>mm' out res. client_step mm op = Some (mm', out, res) \<and> buddy_wf mm' \<and> plenty mm' \<and> mm_size mm' = mm_size mm \<and>
    spec_step (unat (mm_size mm)) (view mm) op out res (view mm')"
proof (cases op)
  case (Alloc start "end" sz min_page flags)
  have s: "serves mm (start, end, sz, min_page, flags)" using assms(3) Alloc by simp
  obtain mm' new res where g: "request mm (start, end, sz, min_page, flags) = Some (mm', new, res)" "buddy_wf mm' \<and> plenty mm'"
    "unat (mm_size mm') = unat (mm_size mm)" "case res of Inl e \<Rightarrow> new = [] \<and> view mm' = view mm
       | Inr _ \<Rightarrow> gives (unat (mm_size mm)) (view mm) new (view mm') \<and> amount (view mm') (set new) = unat sz"
    using vp.get_returns [OF conjI [OF assms(1,2)] s] by auto
  have "mm_size mm' = mm_size mm" using g(3) by (simp add: word_unat_eq_iff)
  then show ?thesis using g(1,2,4) Alloc by (cases res) auto
next
  case (Free ps)
  have s: "distinct ps" "set ps \<subseteq> dom (owned (view mm))" using assms(3) Free by simp_all
  obtain mm' where g: "drm_buddy_free_list mm ps = Some mm'" "buddy_wf mm' \<and> plenty mm'" "unat (mm_size mm') = unat (mm_size mm)"
    "takes_back (view mm) ps (view mm')" using vp.put_returns [OF conjI [OF assms(1,2)] s] by auto
  have "mm_size mm' = mm_size mm" using g(3) by (simp add: word_unat_eq_iff)
  then show ?thesis using g(1,2,4) Free by simp
next
  case (Trim n p)
  have s: "p \<in> dom (owned (view mm))" using assms(3) Trim by simp
  obtain mm' new res where g: "drm_buddy_block_trim mm n [p] = Some (mm', new, res)" "buddy_wf mm' \<and> plenty mm'"
    "unat (mm_size mm') = unat (mm_size mm)" "case res of Inl e \<Rightarrow> mm' = mm \<and> new = [p]
       | Inr _ \<Rightarrow> \<exists>a l. owned (view mm) p = Some {a..<a + l} \<and> unat n \<le> l \<and>
           cuts (unat (mm_size mm)) (view mm) p {a..<a + unat n} new (view mm')"
    using vp.cut_returns [OF conjI [OF assms(1,2)] s, of n] by auto
  have "mm_size mm' = mm_size mm" using g(3) by (simp add: word_unat_eq_iff)
  then show ?thesis using g(1,2,4) Trim by (cases res) auto
qed

inductive reached :: "buddy \<Rightarrow> buddy \<Rightarrow> bool" for mm0 where
  reached_start: "reached mm0 mm0"
| reached_step: "reached mm0 mm \<Longrightarrow> legal mm op \<Longrightarrow> client_step mm op = Some (mm', out, res) \<Longrightarrow> reached mm0 mm'"

inductive_cases reached_stepE: "reached mm0 mm"

lemma reached_wf:
  assumes "reached mm0 mm" "buddy_wf mm0" "plenty mm0"
  shows "buddy_wf mm \<and> plenty mm \<and> mm_size mm = mm_size mm0"
  using assms
proof induction
  case (reached_step mm op mm' out res)
  then show ?case using client_step_simulates [of mm op] by auto
qed simp

end
