(* ===== verification/Buddy_Props.thy ===== *)
theory Buddy_Props
  imports Buddy_Runs
begin

text \<open>
  The properties of the buddy allocator, each with a witness: setting up, allocating, giving back,
  trimming, refinement of the specification, and what goes wrong without memory for blocks, for very
  large requests, and after a failed search in a range.
\<close>

section \<open>A small allocator\<close>

text \<open>Four chunks of a page, just set up.\<close>

definition blank :: buddy where
  "blank = \<lparr>free_list = [], roots = [], n_roots = 0, max_order = 0, chunk_size = 0, mm_size = 0, avail = 0,
     slab = Map.empty, slab_next = 0, slab_ok = (\<lambda>_. True)\<rparr>"

definition four :: buddy where
  "four = \<lparr>free_list = [[], [], [0]], roots = [0], n_roots = 1, max_order = 2, chunk_size = 0x1000, mm_size = 0x4000, avail = 0x4000,
     slab = [0 \<mapsto> \<lparr>header = 0x802, left = None, right = None, parent = None\<rparr>], slab_next = 1, slab_ok = (\<lambda>_. True)\<rparr>"

text \<open>The definitions that evaluate a call on such a state.\<close>

lemmas buddy_eval = split_block_def Let_def drm_block_alloc_def drm_block_free_def set_block_def set_left_def set_right_def set_state_def
  free_list_add_def free_list_del_def list_del_def buf_get_def mark_free_def mark_split_def mark_allocated_def buddy_masks buddy_states
  drm_buddy_block_state_def drm_buddy_block_order_def drm_buddy_block_offset_def drm_buddy_block_size_def DRM_BUDDY_MAX_ORDER_def PAGE_SHIFT_def
  get_buddy_def overlaps_def contains_def drm_buddy_alloc_range_def alloc_range_def alloc_range_loop.simps drm_buddy_alloc_blocks_def
  alloc_blocks_loop.simps pick_order.simps block_picker_def alloc_range_bias_def bias_loop.simps range_overflows_def is_power_of_2_def
  DRM_BUDDY_RANGE_ALLOCATION_def alloc_from_freelist_def DRM_BUDDY_TOPDOWN_ALLOCATION_def ilog2_def fls_def compute_floorlog
  drm_buddy_free_block_def drm_buddy_free_merge.simps drm_buddy_fini_def drm_buddy_block_trim_def set_parent_def

lemma blank_facts: "plenty blank" "slab blank = Map.empty"
  by (simp_all add: blank_def plenty_def)

lemma small_chunk: "is_power_of_2 (0x1000 :: u64)"
  by (simp add: is_power_of_2_def)

lemma four_set_up: "drm_buddy_init True True blank 0x4000 0x1000 = Some (four, Inr ())"
proof -
  have i: "ilog2 0x4000 = 14" "ilog2 0x1000 = 12" by (simp_all add: ilog2_power)
  then have r: "rounddown_pow_of_two 0x4000 = 0x4000" by (simp add: rounddown_pow_of_two_def)
  have "hweight64 0x4000 = Suc (hweight64 0)" using top_bit_gone(1) [of "0x4000"] by (simp add: r)
  moreover have "round_down 0x4000 0x1000 = 0x4000" by (simp add: round_down_def)
  ultimately have v: "ilog2 0x4000 = 14" "ilog2 0x1000 = 12" "hweight64 0x4000 = 1" "rounddown_pow_of_two 0x4000 = 0x4000" "round_down 0x4000 0x1000 = 0x4000"
    using i r by (simp_all add: hweight64_def)
  have "replicate 3 [] = ([[], [], []] :: nat list list)" by (simp add: numeral_eq_Suc)
  then show ?thesis
    using small_chunk
    by (simp add: drm_buddy_init_def init_roots.simps v Let_def blank_def four_def drm_block_alloc_def DRM_BUDDY_MAX_ORDER_def PAGE_SHIFT_def
        mark_free_def free_list_add_def set_block_def set_state_def buf_get_def buddy_masks drm_buddy_block_order_def drm_buddy_block_size_def)
qed

lemma four_facts: "buddy_wf four" "plenty four" "allocated four = {}" "chunk_size four = 0x1000" "mm_size four = 0x4000" "avail four = 0x4000"
proof -
  show "buddy_wf four" "plenty four" "allocated four = {}"
    using drm_buddy_init_wf [OF blank_facts _ _ small_chunk, of "0x4000"] four_set_up by auto
qed (simp_all add: four_def)

lemma wf_slab_ok:
  assumes "buddy_wf mm"
  shows "buddy_wf (mm\<lparr>slab_ok := g\<rparr>)"
proof -
  let ?m = "mm\<lparr>slab_ok := g\<rparr>"
  have l: "len ?m = len mm" "ival ?m = ival mm" "weight ?m P = weight mm P" for P
    by (simp_all add: len_def ival_def weight_def fun_eq_iff split: option.splits)
  show ?thesis
    using assms unfolding buddy_wf_def geometry_def blocks_ok_def block_ok_def tree_ok_def child_of_def children_def halves_def
      roots_ok_def frees_ok_def leaves_ok_def account_ok_def total_def l by simp
qed

section \<open>Setting up\<close>

text \<open>
  \<open>drm_buddy_init\<close>: a chunk size that is not a power of two, is below a page or exceeds the size is
  refused and nothing is changed. Otherwise the allocator is well formed, nothing is handed out, and
  the free bytes are the size rounded down to whole chunks, whatever the size; without memory for one
  of the arrays the call fails with ENOMEM.
\<close>

theorem buddy_init_correct:
  assumes "plenty mm" "slab mm = Map.empty"
  shows "if chunk \<le> sz \<and> 4096 \<le> chunk \<and> is_power_of_2 chunk
    then (\<exists>mm'. drm_buddy_init True True mm sz chunk = Some (mm', Inr ()) \<and> buddy_wf mm' \<and> dom (owned (view mm')) = {} \<and>
           room (view mm') = unat sz div unat chunk * unat chunk \<and> chunk_size mm' = chunk) \<and>
         (\<forall>mem1 mem2. \<not> (mem1 \<and> mem2) \<longrightarrow>
           (\<exists>mm'. drm_buddy_init mem1 mem2 mm sz chunk = Some (mm', Inl ENOMEM) \<and> free_list mm' = (if mem1 then [] else free_list mm)))
    else \<forall>mem1 mem2. drm_buddy_init mem1 mem2 mm sz chunk = Some (mm, Inl EINVAL)"
proof (cases "chunk \<le> sz \<and> 4096 \<le> chunk \<and> is_power_of_2 chunk")
  case True
  then obtain mm' where "drm_buddy_init True True mm sz chunk = Some (mm', Inr ())" "buddy_wf mm'" "allocated mm' = {}"
    "unat (mm_size mm') = unat sz div unat chunk * unat chunk" "avail mm' = mm_size mm'" "chunk_size mm' = chunk"
    using drm_buddy_init_wf [OF assms, of chunk sz] by blast
  then show ?thesis using True init_no_memory [of chunk sz _ _ mm] by auto
next
  case False
  then show ?thesis by (auto simp: drm_buddy_init_def PAGE_SHIFT_def not_less)
qed

theorem buddy_init_correct_witness:
  "\<exists>mm'. drm_buddy_init True True blank 0x7fff 0x1000 = Some (mm', Inr ()) \<and> buddy_wf mm' \<and> room (view mm') = 0x7000"
  using buddy_init_correct [OF blank_facts, of "0x1000" "0x7fff"] small_chunk by auto

section \<open>Allocating\<close>

text \<open>
  C3: \<open>drm_buddy_alloc_blocks\<close>, for every request below \<open>2 ^ 32\<close> chunks and every well-formed state
  with memory for blocks: the call returns. It answers EINVAL, and changes nothing, exactly when the
  arguments are not in order; otherwise it either fails with ENOSPC, handing out nothing and leaving
  what is handed out untouched, or appends new blocks to the list: exactly the bytes from \<open>start\<close> to
  \<open>end\<close> if the size fills the range, else blocks of the requested total size, each at least as large as
  and aligned to the minimum page size, and inside the range if the flag asks for it.
\<close>

theorem buddy_alloc_blocks_correct:
  assumes "buddy_wf mm" "plenty mm" "unat sz < 2 ^ 32 * unat (chunk_size mm)"
  shows "\<exists>mm' new r. drm_buddy_alloc_blocks mm start end sz min_page blocks flags = Some (mm', blocks @ new, r) \<and> gained mm new mm' \<and>
    (case r of
       Inr _ \<Rightarrow> request_ok mm start end sz min_page \<and> blocks_given mm start end sz min_page flags mm' new
     | Inl e \<Rightarrow> new = [] \<and> (if request_ok mm start end sz min_page then e = ENOSPC else e = EINVAL \<and> mm' = mm))"
  using assms by (rule alloc_blocks_result)

theorem buddy_alloc_blocks_correct_witness:
  "\<exists>mm' new. drm_buddy_alloc_blocks four 0x1000 0x4000 0x2000 0x1000 [] DRM_BUDDY_RANGE_ALLOCATION = Some (mm', new, Inr ()) \<and>
    bytes mm' new = 0x2000 \<and> gained four new mm' \<and> all_blocks (\<lambda>b. 0x1000 \<le> off b) mm' new"
proof -
  have "map_option (snd \<circ> snd) (drm_buddy_alloc_blocks four 0x1000 0x4000 0x2000 0x1000 [] DRM_BUDDY_RANGE_ALLOCATION) = Some (Inr ())"
    by (simp add: four_def buddy_eval)
  moreover obtain mm' new r where c: "drm_buddy_alloc_blocks four 0x1000 0x4000 0x2000 0x1000 [] DRM_BUDDY_RANGE_ALLOCATION = Some (mm', [] @ new, r)"
    "gained four new mm'" "case r of Inl e \<Rightarrow> True | Inr _ \<Rightarrow> blocks_given four 0x1000 0x4000 0x2000 0x1000 DRM_BUDDY_RANGE_ALLOCATION mm' new"
    using buddy_alloc_blocks_correct [of four "0x2000" "0x1000" "0x4000" "0x1000" "[]" DRM_BUDDY_RANGE_ALLOCATION] four_facts
    by (fastforce split: sum.splits)
  ultimately have n: "drm_buddy_alloc_blocks four 0x1000 0x4000 0x2000 0x1000 [] DRM_BUDDY_RANGE_ALLOCATION = Some (mm', new, Inr ())"
    "gained four new mm'" "blocks_given four 0x1000 0x4000 0x2000 0x1000 DRM_BUDDY_RANGE_ALLOCATION mm' new" by auto
  have "all_blocks (\<lambda>b. 0x1000 \<le> off b) mm' new"
    using n(3) by (auto simp: blocks_given_def all_blocks_def as_asked_def in_range_def DRM_BUDDY_RANGE_ALLOCATION_def)
  then show ?thesis using n by (auto simp: blocks_given_def)
qed

text \<open>
  C23: Without a range (neither the flag, nor a size that fills the range given), and with the chunk as
  smallest page, fragmentation never makes a request of fewer than \<open>2 ^ 32\<close> chunks fail: whenever as many
  bytes are free as are asked for, and there is memory for the block structures, the call succeeds. With a
  larger smallest page this does not hold: the free chunks may be apart.
\<close>

theorem buddy_enough_memory:
  assumes "buddy_wf mm" "plenty mm" "unat sz < 2 ^ 32 * unat (chunk_size mm)"
    and "request_ok mm start end sz (chunk_size mm)" "start + sz \<noteq> end" "flags AND DRM_BUDDY_RANGE_ALLOCATION = 0" "sz \<le> avail mm"
  shows "\<exists>mm' new. drm_buddy_alloc_blocks mm start end sz (chunk_size mm) blocks flags = Some (mm', blocks @ new, Inr ())"
  using assms by (rule enough_memory)

theorem buddy_enough_memory_witness:
  "\<exists>mm' new. drm_buddy_alloc_blocks four 0 0x4000 0x3000 0x1000 [] 0 = Some (mm', new, Inr ())"
proof -
  have "request_ok four 0 0x4000 0x3000 (chunk_size four)"
    unfolding request_ok_def using four_facts small_chunk by simp
  then show ?thesis
    using buddy_enough_memory [of four "0x3000" 0 "0x4000" 0 "[]"] four_facts by simp
qed

section \<open>Trimming\<close>

text \<open>
  C22: \<open>drm_buddy_block_trim\<close> on the list with one block: unless the block is not handed out, or the new
  size is zero, too large or not a number of chunks (EINVAL, nothing changes), it always succeeds. The
  blocks it leaves in the list cover the first bytes of the block and nothing else, the rest is free,
  and no other block handed out is touched.
\<close>

theorem buddy_trim_correct:
  assumes "buddy_wf mm" "plenty mm" "slab mm p = Some b"
  shows "\<exists>mm' new r. drm_buddy_block_trim mm n [p] = Some (mm', new, r) \<and>
    (if drm_buddy_block_is_allocated b \<and> 0 < unat n \<and> unat n \<le> len mm b \<and> unat (chunk_size mm) dvd unat n
     then r = Inr () \<and> trimmed mm p b (unat n) mm' new else r = Inl EINVAL \<and> mm' = mm \<and> new = [p])"
  using assms by (rule trim_result)

text \<open>The first call of the witness hands out all of the memory as one block.\<close>

definition four_taken :: buddy where
  "four_taken = four\<lparr>free_list := [[], [], []], avail := 0, slab := [0 \<mapsto> \<lparr>header = 0x402, left = None, right = None, parent = None\<rparr>]\<rparr>"

lemma four_taken_facts:
  "drm_buddy_alloc_blocks four 0 0x4000 0x4000 0x1000 [] 0 = Some (four_taken, [0], Inr ())" "buddy_wf four_taken" "plenty four_taken"
proof -
  show e: "drm_buddy_alloc_blocks four 0 0x4000 0x4000 0x1000 [] 0 = Some (four_taken, [0], Inr ())"
    by (simp add: four_def four_taken_def buddy_eval)
  obtain mm' new r where "drm_buddy_alloc_blocks four 0 0x4000 0x4000 0x1000 [] 0 = Some (mm', [] @ new, r)" "gained four new mm'"
    using alloc_blocks_result [OF four_facts(1,2), of "0x4000" 0 "0x4000" "0x1000" "[]" 0] four_facts(4) by auto
  then show "buddy_wf four_taken" "plenty four_taken" using e gained_plenty [OF _ four_facts(2)] by (auto simp: gained_def)
qed

theorem buddy_trim_correct_witness:
  "\<exists>mm' new. drm_buddy_block_trim four_taken 0x3000 [0] = Some (mm', new, Inr ()) \<and> covered mm' new = {0..<0x3000} \<and> avail mm' = 0x1000"
proof -
  define b :: block where "b = \<lparr>header = 0x402, left = None, right = None, parent = None\<rparr>"
  have b: "slab four_taken 0 = Some b" "is_allocated b" "len four_taken b = 0x4000" "off b = 0" "chunk_size four_taken = 0x1000" "avail four_taken = 0"
    by (simp_all add: four_taken_def four_def b_def buddy_states buddy_masks drm_buddy_block_state_def len_def drm_buddy_block_order_def
        off_def drm_buddy_block_offset_def)
  have "(0x1000 :: nat) dvd 0x3000" by simp
  then obtain mm' new where n: "drm_buddy_block_trim four_taken 0x3000 [0] = Some (mm', new, Inr ())" "trimmed four_taken 0 b 0x3000 mm' new"
    using buddy_trim_correct [OF four_taken_facts(2,3) b(1), of "0x3000"] b by auto
  then have "unat (avail mm') = unat (0x1000 :: u64)" using b by (simp add: trimmed_def)
  then show ?thesis using n b by (auto simp: trimmed_def word_unat_eq_iff)
qed

section \<open>The contract\<close>

text \<open>
  C2: The allocator refines the specification: from every well-formed state, every call a client may
  make returns, and changes what is owned and the room exactly as the specification of that call
  says; trees, free lists and headers do not show.
\<close>

theorem buddy_refines_spec:
  assumes "buddy_wf mm" "plenty mm" "legal mm op"
  shows "\<exists>mm' out res. client_step mm op = Some (mm', out, res) \<and> buddy_wf mm' \<and> plenty mm' \<and> mm_size mm' = mm_size mm \<and>
    spec_step (unat (mm_size mm)) (view mm) op out res (view mm')"
  using assms by (rule client_step_simulates)

theorem buddy_refines_spec_witness:
  "\<exists>mm' res. client_step four_taken (Free [0]) = Some (mm', [], res) \<and> takes_back (view four_taken) [0] (view mm')"
proof -
  have "0 \<in> allocated four_taken"
    by (simp add: allocated_def four_taken_def buddy_states buddy_masks drm_buddy_block_state_def)
  then show ?thesis
    using buddy_refines_spec [OF four_taken_facts(2,3), of "Free [0]"] by auto
qed

text \<open>
  C4: Whatever sequence of calls follows setting up: no two handles ever own a common byte, all owned
  bytes lie in the memory, what is owned and the room always make up the size set up, and no legal call
  ever runs into one of the assertions of the code.
\<close>

theorem buddy_runs_safe:
  assumes "plenty mm" "slab mm = Map.empty" "drm_buddy_init True True mm sz chunk = Some (mm0, Inr ())" "reached mm0 mm1"
  shows "vram_ok (unat sz div unat chunk * unat chunk) (view mm1) \<and> (\<forall>op. legal mm1 op \<longrightarrow> client_step mm1 op \<noteq> None)"
proof -
  have "chunk \<le> sz \<and> 4096 \<le> chunk \<and> is_power_of_2 chunk"
    using assms(3) by (auto simp: drm_buddy_init_def PAGE_SHIFT_def not_less split: if_splits)
  then have m: "buddy_wf mm0" "plenty mm0" "unat (mm_size mm0) = unat sz div unat chunk * unat chunk"
    using drm_buddy_init_wf [OF assms(1,2), of chunk sz] assms(3) by auto
  then have r: "buddy_wf mm1" "plenty mm1" "mm_size mm1 = mm_size mm0" using reached_wf [OF assms(4)] by simp_all
  have "client_step mm1 op \<noteq> None" if "legal mm1 op" for op using client_step_simulates [OF r(1,2) that] by auto
  then show ?thesis using view_ok [OF r(1)] r(3) m(3) by simp
qed

theorem buddy_runs_safe_witness:
  "reached four four_taken \<and> vram_ok 0x4000 (view four_taken)"
proof -
  have "client_step four (Alloc 0 0x4000 0x4000 0x1000 0) = Some (four_taken, [0], Inr ())" using four_taken_facts(1) by simp
  then have "reached four four_taken"
    by (rule reached_step [OF reached_start, rotated]) (simp add: four_facts(4))
  then show ?thesis using buddy_runs_safe [OF blank_facts four_set_up] by simp
qed

text \<open>
  Returning the blocks of a granted request restores what every client owns and the number of free
  bytes exactly, however the trees have been split in between.
\<close>

theorem buddy_alloc_free_roundtrip:
  assumes "buddy_wf mm" "plenty mm" "unat sz < 2 ^ 32 * unat (chunk_size mm)"
    and "drm_buddy_alloc_blocks mm start end sz min_page [] flags = Some (mm1, new, Inr ())"
  shows "\<exists>mm2. drm_buddy_free_list mm1 new = Some mm2 \<and> buddy_wf mm2 \<and> view mm2 = view mm"
  using vp.get_put [of mm "(start, end, sz, min_page, flags)" mm1 new] assms by auto

theorem buddy_alloc_free_roundtrip_witness: "\<exists>mm. drm_buddy_free_list four_taken [0] = Some mm \<and> view mm = view four"
  using buddy_alloc_free_roundtrip [OF four_facts(1,2) _ four_taken_facts(1)] four_facts(4) by auto

section \<open>What goes wrong\<close>

text \<open>
  C25: Without memory for two more blocks, a request that has to split a block whose buddy is not free
  ends in corruption, not in ENOMEM: the error path puts the block on the free list it is still on.
\<close>

theorem buddy_out_of_memory_corrupts:
  assumes wf: "buddy_wf mm" and f: "find_free mm flags [n..<max_order mm + 1] = Some (Some (p, i))" "i \<noteq> n"
    and b: "slab mm p = Some b" "\<forall>q c. get_buddy mm p = Some (Some q) \<longrightarrow> slab mm q = Some c \<longrightarrow> \<not> drm_buddy_block_is_free c"
    and no: "\<not> (slab_ok mm (slab_next mm) \<and> slab_ok mm (slab_next mm + 1))"
  shows "alloc_from_freelist flags mm n = None"
proof -
  have "\<forall>i\<in>set [n..<max_order mm + 1]. i \<le> max_order mm" by auto
  then have i: "i \<in> set [n..<max_order mm + 1]" "is_free b" "ord b = i"
    using find_free_result [OF wf, of "[n..<max_order mm + 1]" flags] f(1) b(1) by auto
  then have "n < i" using f(2) unfolding set_upt by auto
  then obtain j where j: "i = Suc j" by (cases i) auto
  obtain m b' where m: "split_block mm p = Some (m, Inl ENOMEM)" "buddy_wf m" "slab m = (slab mm)(p \<mapsto> b')" "shape b' = shape b" "is_free b'"
    using split_block_fails [OF wf b(1) i(2) _ no] i(3) j by auto
  have s: "parent b' = parent b" "ord b' = ord b" using m(4) by (simp_all add: shape_simps)
  have "p \<in> set (free_list m ! ord b')" "ord b' < length (free_list m)"
    using wf_free_list [OF m(2) wf_block(4) [OF m(2)], of p b'] m(3,5) by auto
  then have mf: "mark_free m p = None"
    using m(3) by (simp add: mark_free_def free_list_add_def buf_get_def set_block_def)
  have "drm_buddy_free_merge m p = None"
  proof (cases "parent b")
    case None
    then show ?thesis using m(3) s mf by (simp add: drm_buddy_free_merge.simps [of m p])
  next
    case (Some q)
    have "tree_ok mm" using wf by (simp add: buddy_wf_def)
    then have "child_of mm p q" using b(1) Some unfolding tree_ok_def by blast
    then obtain c where c: "slab mm q = Some c" "is_split c" unfolding child_of_def by blast
    have "q \<noteq> p" using c b(1) i(2) by (auto dest: state_exclusive)
    then have g: "get_buddy m p = Some (if left c = Some p then right c else left c)" "get_buddy mm p = Some (if left c = Some p then right c else left c)"
      using m(3) s Some c(1) b(1) by (simp_all add: get_buddy_def)
    define bud where "bud = (if left c = Some p then right c else left c)"
    show ?thesis
    proof (cases "bud = None")
      case True
      then show ?thesis using m(3) s Some g(1) by (simp add: drm_buddy_free_merge.simps [of m p] bud_def)
    next
      case False
      then obtain q' where q': "bud = Some q'" by auto
      show ?thesis
      proof (cases "slab m q'")
        case None
        then show ?thesis using m(3) s Some g(1) q' by (simp add: drm_buddy_free_merge.simps [of m p] bud_def)
      next
        case (Some d)
        have "children mm q c" using \<open>tree_ok mm\<close> c by (simp add: tree_ok_def)
        then have "q' \<noteq> p" using q' by (auto simp: children_def bud_def split: if_splits)
        then have "\<not> is_free d" using b(2) g(2) q' Some m(3) by (simp add: bud_def)
        then show ?thesis using m(3) s \<open>parent b = Some q\<close> g(1) q' Some mf by (simp add: drm_buddy_free_merge.simps [of m p] bud_def)
      qed
    qed
  qed
  then show ?thesis using f b(1) i j m(1) by (simp add: alloc_from_freelist_def)
qed

text \<open>The whole call, on an allocator that has been set up a moment ago.\<close>

theorem buddy_out_of_memory_corrupts_witness:
  "alloc_from_freelist 0 (four\<lparr>slab_ok := \<lambda>_. False\<rparr>) 0 = None \<and> drm_buddy_alloc_blocks (four\<lparr>slab_ok := \<lambda>_. False\<rparr>) 0 0x4000 0x1000 0x1000 [] 0 = None"
proof -
  let ?m = "four\<lparr>slab_ok := \<lambda>_. False\<rparr>"
  have w: "buddy_wf ?m" by (rule wf_slab_ok [OF four_facts(1)])
  have f: "find_free ?m 0 [0..<max_order ?m + 1] = Some (Some (0, 2))"
    by (simp add: four_def buf_get_def upt_rec numeral_eq_Suc)
  have s: "slab ?m 0 = Some \<lparr>header = 0x802, left = None, right = None, parent = None\<rparr>" by (simp add: four_def)
  have "get_buddy ?m 0 = Some None" by (simp add: four_def get_buddy_def)
  then have a: "alloc_from_freelist 0 ?m 0 = None"
    by (intro buddy_out_of_memory_corrupts [OF w f _ s]) simp_all
  define m where "m = ?m"
  have v: "chunk_size m = 0x1000" "mm_size m = 0x4000" "max_order m = 2" "alloc_from_freelist 0 m 0 = None"
    using a by (simp_all add: m_def) (simp_all add: four_def)
  have "ilog2 0x1000 = 12" by (rule ilog2_power) simp
  then have "drm_buddy_alloc_blocks m 0 0x4000 0x1000 0x1000 [] 0 = None"
    by (simp add: drm_buddy_alloc_blocks_def v is_power_of_2_def range_overflows_def block_picker_def alloc_blocks_loop.simps pick_order.simps
        fls_def compute_floorlog)
  then show ?thesis using a by (simp add: m_def)
qed

text \<open>
  C26: The number of chunks is passed to \<open>fls\<close>, which takes an \<open>int\<close>: a request in order for a multiple
  of \<open>2 ^ 32\<close> chunks, not for a whole range, hits the assertion on the order, however much is free.
\<close>

theorem buddy_huge_request_bugs:
  assumes wf: "buddy_wf mm" and ro: "request_ok mm start end sz min_page" "start + sz \<noteq> end"
    and huge: "2 ^ 32 * unat (chunk_size mm) dvd unat sz"
  shows "drm_buddy_alloc_blocks mm start end sz min_page blocks flags = None"
proof -
  obtain k where k: "12 \<le> k" "k < 64" "unat (chunk_size mm) = 2 ^ k" "ilog2 (chunk_size mm) = k" by (rule chunk_power [OF wf])
  note chk = conjunct1 [OF ro(1) [unfolded request_checks [OF wf]]]
  have no: "\<not> sz AND (min_page - 1) \<noteq> 0" using ro unfolding request_checks [OF wf] by blast
  define pages where "pages = drop_bit (ilog2 (chunk_size mm)) sz"
  have p: "unat pages = unat sz div 2 ^ k" unfolding pages_def k(4) by (rule unat_drop)
  obtain j where "unat sz = 2 ^ 32 * 2 ^ k * j" using huge k(3) by (auto elim: dvdE)
  then have "unat sz = 2 ^ k * (2 ^ 32 * j)" by (simp only: mult.commute mult.left_commute)
  then have "unat pages = 2 ^ 32 * j" unfolding p by simp
  then have "unat (ucast pages :: u32) = 0" by (simp add: unsigned_ucast_eq take_bit_eq_mod)
  then have f: "fls pages - 1 = - 1" by (simp add: fls_def floorlog_def)
  have "max_order mm \<le> 63" using wf by (auto simp: buddy_wf_def elim: geometryE)
  moreover have "unat (- 1 :: u32) = 2 ^ 32 - 1" by (simp add: unsigned_minus_1_eq_mask mask_eq_exp_minus_1)
  ultimately have "max_order mm < unat (- 1 :: u32)" by simp
  then have "alloc_blocks_loop pick lo mm pages (fls pages - 1) [] = None" for pick lo
    by (subst alloc_blocks_loop.simps) (simp add: f Let_def)
  then show ?thesis
    unfolding drm_buddy_alloc_blocks_def Let_def if_not_P [OF chk] if_not_P [OF ro(2)] if_not_P [OF no] pages_def [symmetric] by simp
qed

theorem buddy_huge_request_bugs_witness:
  "\<exists>mm. drm_buddy_init True True blank 0x200000000000 0x1000 = Some (mm, Inr ()) \<and> avail mm = 0x200000000000 \<and>
    drm_buddy_alloc_blocks mm 0 0x200000000000 0x100000000000 0x1000 [] 0 = None"
proof -
  obtain mm where m: "drm_buddy_init True True blank 0x200000000000 0x1000 = Some (mm, Inr ())" "buddy_wf mm" "avail mm = mm_size mm"
    "unat (mm_size mm) = unat (0x200000000000 :: u64) div 4096 * 4096" "chunk_size mm = 0x1000"
    using drm_buddy_init_wf [OF blank_facts _ _ small_chunk, of "0x200000000000"] by auto
  then have s: "mm_size mm = 0x200000000000" by (simp add: word_unat_eq_iff)
  have "drm_buddy_alloc_blocks mm 0 0x200000000000 0x100000000000 0x1000 [] 0 = None"
    by (rule buddy_huge_request_bugs [OF m(2)]) (use m(5) s small_chunk in \<open>simp_all add: request_ok_def\<close>)
  then show ?thesis using m s by simp
qed

text \<open>
  An example: a search in a range that fails leaves the blocks split that it has split on the way. On four
  chunks: the upper half is handed out; a block of two chunks is sought from chunk 1 on, in vain; the
  upper half is returned. Now all bytes are free, but a request for all of them fails, and tearing down
  warns and leaves blocks behind.
\<close>

theorem buddy_search_leaves_splits:
  "do { (mm, upper, _) \<leftarrow> drm_buddy_alloc_blocks four 0x2000 0x4000 0x2000 0x1000 [] 0;
        (mm, none, sought) \<leftarrow> drm_buddy_alloc_blocks mm 0x1000 0x4000 0x2000 0x2000 [] DRM_BUDDY_RANGE_ALLOCATION;
        mm \<leftarrow> drm_buddy_free_list mm upper;
        (mm', got, all_memory) \<leftarrow> drm_buddy_alloc_blocks mm 0 0x4000 0x4000 0x1000 [] 0;
        (mm'', warned) \<leftarrow> drm_buddy_fini mm;
        Some (sought, avail mm, all_memory, warned, map (\<lambda>p. slab mm'' p \<noteq> None) [0..<slab_next mm'']) } =
   Some (Inl ENOSPC, mm_size four, Inl ENOSPC, True, [False, True, True, True, True])"
  by (simp add: four_def buddy_eval)

end
