(* ===== verification/Ttm_Buddy.thy ===== *)
theory Ttm_Buddy
  imports Buddy_Runs
begin

text \<open>
  The manager of video memory that the i915 driver builds on the buddy allocator,
  \<open>i915_ttm_buddy_manager.c\<close>: what a buffer object asks for is turned into a request for blocks, a
  contiguous buffer is cut out of one block, and the pages the CPU can see are counted.

  Every call runs under the lock of the manager, so each is one step here. Of the resource and the
  manager of TTM the fields that the code uses are kept; the list of recently used resources and the
  registration with the device are not. \<open>mem\<close> says whether there is memory for the structure that is
  allocated. The two questions about places assert with \<open>GEM_BUG_ON\<close> that a place which is not empty of
  limits has a last page; a failed assertion is \<open>None\<close>. The assertions of setting up and allocating, about
  the smallest page, the alignment of the size and sizes of zero, check nothing in a build without
  debugging and are left out: the allocator refuses the requests they are about.
\<close>

section \<open>Data\<close>

record ttm_place =
  fpfn :: u32
  lpfn :: u32
  place_flags :: u32

definition TTM_PL_FLAG_CONTIGUOUS :: u32 where "TTM_PL_FLAG_CONTIGUOUS = push_bit 0 1"
definition TTM_PL_FLAG_TOPDOWN :: u32 where "TTM_PL_FLAG_TOPDOWN = push_bit 1 1"

text \<open>\<open>struct i915_ttm_buddy_resource\<close>, with \<open>start\<close> and \<open>num_pages\<close> of its base.\<close>

record bman_res =
  res_start :: u64
  num_pages :: u64
  res_blocks :: "nat list"
  res_flags :: u64
  used_visible_size :: u64

text \<open>\<open>struct i915_ttm_buddy_manager\<close>, with \<open>size\<close> and \<open>usage\<close> of its base.\<close>

record bman =
  bman_mm :: buddy
  man_size :: u64
  man_usage :: u64
  reserved :: "nat list"
  visible_size :: u64
  visible_avail :: u64
  visible_reserved :: u64
  default_page_size :: u64

definition roundup_pow_of_two :: "u64 \<Rightarrow> u64" where
  "roundup_pow_of_two n = push_bit (floorlog 2 (unat (n - 1))) 1"

section \<open>Allocating\<close>

text \<open>Adding up the pages of the blocks that the CPU can see.\<close>

fun add_visible :: "buddy \<Rightarrow> u64 \<Rightarrow> nat list \<Rightarrow> u64 \<Rightarrow> u64 option" where
  "add_visible mm vis [] used = Some used"
| "add_visible mm vis (p # ps) used =
     do { b \<leftarrow> slab mm p;
          let start = drop_bit PAGE_SHIFT (drm_buddy_block_offset b);
          if start < vis
          then let end = start + drop_bit PAGE_SHIFT (drm_buddy_block_size mm b)
               in add_visible mm vis ps (used + (min end vis - start))
          else add_visible mm vis ps used }"

text \<open>\<open>ttm_resource_init\<close> and \<open>ttm_resource_fini\<close>, as far as the manager is concerned.\<close>

definition resource_init :: "u64 \<Rightarrow> bman \<Rightarrow> bman" where
  "resource_init npages bman = bman\<lparr>man_usage := man_usage bman + push_bit PAGE_SHIFT npages\<rparr>"

definition resource_fini :: "u64 \<Rightarrow> bman \<Rightarrow> bman" where
  "resource_fini npages bman = bman\<lparr>man_usage := man_usage bman - push_bit PAGE_SHIFT npages\<rparr>"

text \<open>The last page allowed, the flags, and size, minimum page size and last page of the request.\<close>

definition place_lpfn :: "bman \<Rightarrow> ttm_place \<Rightarrow> u64" where
  "place_lpfn bman place = (if lpfn place = 0 then man_size bman else ucast (lpfn place))"

definition buddy_flags :: "bman \<Rightarrow> ttm_place \<Rightarrow> u64" where
  "buddy_flags bman place =
     (if place_flags place AND TTM_PL_FLAG_TOPDOWN \<noteq> 0 then DRM_BUDDY_TOPDOWN_ALLOCATION else 0) OR
     (if fpfn place \<noteq> 0 \<or> place_lpfn bman place \<noteq> man_size bman then DRM_BUDDY_RANGE_ALLOCATION else 0)"

definition request_size :: "bman \<Rightarrow> u64 \<Rightarrow> u32 \<Rightarrow> ttm_place \<Rightarrow> u64 \<times> u64 \<times> u64" where
  "request_size bman npages page_alignment place =
     (let lpf = place_lpfn bman place;
          size = push_bit PAGE_SHIFT npages;
          min_page_size = (if page_alignment \<noteq> 0 then ucast (push_bit PAGE_SHIFT page_alignment) else default_page_size bman)
      in if ucast (fpfn place) + npages \<noteq> ucast (lpfn place) \<and> place_flags place AND TTM_PL_FLAG_CONTIGUOUS \<noteq> 0
         then let size = roundup_pow_of_two size;
                  pages = drop_bit (ilog2 (chunk_size (bman_mm bman))) size
              in (size, size, if lpf < pages then pages else lpf)
         else (size, min_page_size, lpf))"

definition i915_ttm_buddy_man_alloc :: "bool \<Rightarrow> bman \<Rightarrow> u64 \<Rightarrow> u32 \<Rightarrow> ttm_place \<Rightarrow> (bman \<times> bman_res res) option" where
  "i915_ttm_buddy_man_alloc mem bman npages page_alignment place =
     (if \<not> mem then Some (bman, Inl ENOMEM)
      else
        let bman = resource_init npages bman;
            flags = buddy_flags bman place;
            (size, min_page_size, lpf) = request_size bman npages page_alignment place;
            n_pages = drop_bit (ilog2 (chunk_size (bman_mm bman))) size
        in if push_bit PAGE_SHIFT lpf < size then Some (resource_fini npages bman, Inl E2BIG)
           else if lpf \<le> visible_size bman \<and> visible_avail bman < n_pages then Some (resource_fini npages bman, Inl ENOSPC)
           else do {
             (mm, blocks, e) \<leftarrow> drm_buddy_alloc_blocks (bman_mm bman) (push_bit PAGE_SHIFT (ucast (fpfn place))) (push_bit PAGE_SHIFT lpf)
               (push_bit PAGE_SHIFT n_pages) min_page_size [] flags;
             case e of
               Inl e \<Rightarrow> do { mm \<leftarrow> drm_buddy_free_list mm blocks; Some (resource_fini npages (bman\<lparr>bman_mm := mm\<rparr>), Inl e) }
             | Inr _ \<Rightarrow> do {
                 (mm, blocks, _) \<leftarrow> (if place_flags place AND TTM_PL_FLAG_CONTIGUOUS \<noteq> 0
                   then drm_buddy_block_trim mm (push_bit PAGE_SHIFT npages) blocks else Some (mm, blocks, Inr ()));
                 used \<leftarrow> (if lpf \<le> visible_size bman then Some npages else add_visible mm (visible_size bman) blocks 0);
                 let start = (if ucast (lpfn place - fpfn place) = n_pages then ucast (fpfn place)
                              else if lpf \<le> visible_size bman then 0 else visible_size bman);
                 Some (bman\<lparr>bman_mm := mm, visible_avail := visible_avail bman - used\<rparr>,
                       Inr \<lparr>res_start = start, num_pages = npages, res_blocks = blocks, res_flags = flags, used_visible_size = used\<rparr>) } })"

definition i915_ttm_buddy_man_free :: "bman \<Rightarrow> bman_res \<Rightarrow> bman option" where
  "i915_ttm_buddy_man_free bman r =
     do { mm \<leftarrow> drm_buddy_free_list (bman_mm bman) (res_blocks r);
          Some (resource_fini (num_pages r) (bman\<lparr>bman_mm := mm, visible_avail := visible_avail bman + used_visible_size r\<rparr>)) }"

section \<open>Looking at a resource\<close>

text \<open>The first and the last page of a block; \<open>P\<close> is asked of the blocks until one answers.\<close>

fun any_block :: "buddy \<Rightarrow> (u64 \<Rightarrow> u64 \<Rightarrow> bool) \<Rightarrow> nat list \<Rightarrow> bool option" where
  "any_block mm P [] = Some False"
| "any_block mm P (p # ps) =
     do { b \<leftarrow> slab mm p;
          let first = drop_bit PAGE_SHIFT (drm_buddy_block_offset b);
          let stop = first + drop_bit PAGE_SHIFT (drm_buddy_block_size mm b);
          if P first stop then Some True else any_block mm P ps }"

definition i915_ttm_buddy_man_intersects :: "bman \<Rightarrow> bman_res \<Rightarrow> ttm_place \<Rightarrow> bool option" where
  "i915_ttm_buddy_man_intersects bman r place =
     (if fpfn place = 0 \<and> lpfn place = 0 then Some True
      else if lpfn place = 0 then None
      else if fpfn place = 0 \<and> ucast (lpfn place) = visible_size bman then Some (0 < used_visible_size r)
      else any_block (bman_mm bman) (\<lambda>first stop. ucast (fpfn place) < stop \<and> first < ucast (lpfn place)) (res_blocks r))"

definition i915_ttm_buddy_man_compatible :: "bman \<Rightarrow> bman_res \<Rightarrow> ttm_place \<Rightarrow> bool option" where
  "i915_ttm_buddy_man_compatible bman r place =
     (if fpfn place = 0 \<and> lpfn place = 0 then Some True
      else if lpfn place = 0 then None
      else if fpfn place = 0 \<and> ucast (lpfn place) = visible_size bman then Some (used_visible_size r = num_pages r)
      else map_option Not
        (any_block (bman_mm bman) (\<lambda>first stop. first < ucast (fpfn place) \<or> ucast (lpfn place) < stop) (res_blocks r)))"

section \<open>Setting up, reserving, tearing down\<close>

text \<open>\<open>mem1\<close> and \<open>mem2\<close> are for the arrays of the allocator, \<open>mm\<close> for the slab behind it.\<close>

definition i915_ttm_buddy_man_init ::
  "bool \<Rightarrow> bool \<Rightarrow> bool \<Rightarrow> buddy \<Rightarrow> u64 \<Rightarrow> u64 \<Rightarrow> u64 \<Rightarrow> u64 \<Rightarrow> (bman res) option" where
  "i915_ttm_buddy_man_init mem mem1 mem2 mm sz visible page_size chunk =
     (if \<not> mem then Some (Inl ENOMEM)
      else do {
        (mm, e) \<leftarrow> drm_buddy_init mem1 mem2 mm sz chunk;
        case e of
          Inl e \<Rightarrow> Some (Inl e)
        | Inr _ \<Rightarrow> let v = drop_bit PAGE_SHIFT visible
                   in Some (Inr \<lparr>bman_mm = mm, man_size = drop_bit PAGE_SHIFT (mm_size mm), man_usage = 0, reserved = [],
                       visible_size = v, visible_avail = v, visible_reserved = 0, default_page_size = page_size\<rparr>) })"

definition i915_ttm_buddy_man_reserve :: "bman \<Rightarrow> u64 \<Rightarrow> u64 \<Rightarrow> (bman \<times> unit res) option" where
  "i915_ttm_buddy_man_reserve bman start sz =
     do { let fpf = drop_bit PAGE_SHIFT start;
          (mm, blocks, e) \<leftarrow> drm_buddy_alloc_blocks (bman_mm bman) start (start + sz) sz (chunk_size (bman_mm bman)) (reserved bman)
            DRM_BUDDY_RANGE_ALLOCATION;
          let bman = bman\<lparr>bman_mm := mm, reserved := blocks\<rparr>;
          let visible = min (fpf + drop_bit PAGE_SHIFT sz) (visible_size bman) - fpf;
          Some (if fpf < visible_size bman
                then bman\<lparr>visible_reserved := visible_reserved bman + visible, visible_avail := visible_avail bman - visible\<rparr> else bman, e) }"

text \<open>\<open>evicted\<close> is what evicting all resources returns; the result tells whether a warning was given.\<close>

definition i915_ttm_buddy_man_fini :: "bman \<Rightarrow> unit res \<Rightarrow> (buddy \<times> bool) res option" where
  "i915_ttm_buddy_man_fini bman evicted =
     (case evicted of
        Inl e \<Rightarrow> Some (Inl e)
      | Inr _ \<Rightarrow> do { mm \<leftarrow> drm_buddy_free_list (bman_mm bman) (reserved bman);
                     (mm, w) \<leftarrow> drm_buddy_fini mm;
                     Some (Inr (mm, w \<or> visible_avail bman + visible_reserved bman \<noteq> visible_size bman)) })"

definition i915_ttm_buddy_man_visible_size :: "bman \<Rightarrow> u64" where
  "i915_ttm_buddy_man_visible_size bman = visible_size bman"

definition i915_ttm_buddy_man_avail :: "bman \<Rightarrow> u64 \<times> u64" where
  "i915_ttm_buddy_man_avail bman = (drop_bit PAGE_SHIFT (avail (bman_mm bman)), visible_avail bman)"

end
