(* ===== verification/Ttm_Buddy_Inv.thy ===== *)
theory Ttm_Buddy_Inv
  imports Ttm_Buddy
begin

text \<open>
  The account the manager keeps: which blocks belong to which resource, and how many pages that the
  CPU can see are in use.
\<close>

section \<open>Parts of the memory\<close>

lemma parts_union: "parts v (P \<union> Q) = parts v P \<union> parts v Q"
  by (auto simp: parts_def)

lemma parts_within: "vram_ok N v \<Longrightarrow> P \<subseteq> dom (owned v) \<Longrightarrow> parts v P \<subseteq> {0..<N}"
  by (force simp: parts_def vram_ok_def)

lemma parts_cong: "(\<And>p. p \<in> P \<Longrightarrow> owned v' p = owned v p) \<Longrightarrow> parts v' P = parts v P"
  by (auto simp: parts_def)

lemma parts_apart:
  assumes "vram_ok N v" "P \<subseteq> dom (owned v)" "Q \<subseteq> dom (owned v)" "P \<inter> Q = {}"
  shows "parts v P \<inter> parts v Q = {}"
proof -
  have "the (owned v p) \<inter> the (owned v q) = {}" if pq: "p \<in> P" "q \<in> Q" for p q
  proof -
    obtain M K where "owned v p = Some M" "owned v q = Some K" "p \<noteq> q" using assms(2-4) pq by blast
    then show ?thesis using assms(1) unfolding vram_ok_def by (metis option.sel)
  qed
  then show ?thesis by (auto simp: parts_def)
qed

text \<open>How many bytes of some parts lie below \<open>K\<close>.\<close>

definition below :: "nat \<Rightarrow> vram \<Rightarrow> nat set \<Rightarrow> nat" where
  "below K v P = card (parts v P \<inter> {0..<K})"

lemma below_le: "below K v P \<le> K"
  unfolding below_def using card_mono [of "{0..<K}" "parts v P \<inter> {0..<K}"] by simp

lemma below_union:
  assumes "vram_ok N v" "P \<subseteq> dom (owned v)" "Q \<subseteq> dom (owned v)" "P \<inter> Q = {}"
  shows "below K v (P \<union> Q) = below K v P + below K v Q"
proof -
  have "(parts v P \<inter> {0..<K}) \<inter> (parts v Q \<inter> {0..<K}) = {}" using parts_apart [OF assms] by blast
  moreover have "parts v (P \<union> Q) \<inter> {0..<K} = (parts v P \<inter> {0..<K}) \<union> (parts v Q \<inter> {0..<K})" by (auto simp: parts_union)
  ultimately show ?thesis unfolding below_def by (simp add: card_Un_disjoint)
qed

lemma below_cong: "(\<And>p. p \<in> P \<Longrightarrow> owned v' p = owned v p) \<Longrightarrow> below K v' P = below K v P"
  using parts_cong [of P v' v] by (simp add: below_def)

section \<open>The loop over the blocks\<close>

lemma page_multiples:
  assumes wf: "buddy_wf mm" and c: "chunk_size mm = 0x1000" and b: "slab mm p = Some b"
  shows "4096 dvd off b" "4096 dvd len mm b" "unat (drop_bit PAGE_SHIFT (drm_buddy_block_offset b)) = off b div 4096"
    "unat (drop_bit PAGE_SHIFT (drm_buddy_block_size mm b)) = len mm b div 4096" "off b + len mm b < 2 ^ 64"
proof -
  note w = wf_block [OF wf b]
  show l: "4096 dvd len mm b" by (simp add: len_def c)
  have "len mm b dvd off b" using w(2) by (simp add: block_ok_def dvd_eq_mod_eq_0)
  then show "4096 dvd off b" by (rule dvd_trans [OF l])
  show "unat (drop_bit PAGE_SHIFT (drm_buddy_block_offset b)) = off b div 4096" by (simp add: unat_drop PAGE_SHIFT_def off_def)
  show "unat (drop_bit PAGE_SHIFT (drm_buddy_block_size mm b)) = len mm b div 4096"
    using unat_block_size(1) [OF w(3,4)] by (simp add: unat_drop PAGE_SHIFT_def)
  show "off b + len mm b < 2 ^ 64" using w(2) unsigned_less [of "mm_size mm", where 'a = nat] by (simp add: block_ok_def)
qed

lemma add_visible_counts:
  assumes wf: "buddy_wf mm" and c: "chunk_size mm = 0x1000" and ps: "distinct ps" "set ps \<subseteq> allocated mm"
    and fit: "unat used * 4096 + below (unat vis * 4096) (view mm) (set ps) < 2 ^ 64"
  shows "\<exists>u. add_visible mm vis ps used = Some u \<and> unat u * 4096 = unat used * 4096 + below (unat vis * 4096) (view mm) (set ps)"
  using ps fit
proof (induction ps arbitrary: used)
  case Nil
  then show ?case by (simp add: below_def parts_def)
next
  case (Cons p ps)
  let ?K = "unat vis * 4096"
  have p: "p \<in> allocated mm" "p \<notin> set ps" "distinct ps" "set ps \<subseteq> allocated mm" using Cons.prems by simp_all
  obtain b where b: "slab mm p = Some b" using p(1) by (auto simp: allocated_def)
  note m = page_multiples [OF wf c b]
  obtain s l where s: "off b = 4096 * s" "len mm b = 4096 * l" using m(1,2) by (auto elim!: dvdE)
  have iv: "parts (view mm) {p} = {4096 * s..<4096 * (s + l)}"
    using p(1) b by (simp add: parts_def view_owned bytes_of_def ival_def s algebra_simps)
  have bp: "below ?K (view mm) {p} = 4096 * (min (s + l) (unat vis) - s)"
  proof -
    have "{4096 * s..<4096 * (s + l)} \<inter> {0..<?K} = {4096 * s..<4096 * min (s + l) (unat vis)}" by (auto simp: min_def)
    then show ?thesis unfolding below_def iv by (simp add: diff_mult_distrib2)
  qed
  have bu: "below ?K (view mm) (set (p # ps)) = below ?K (view mm) {p} + below ?K (view mm) (set ps)"
    using below_union [OF view_ok [OF wf], of "{p}" "set ps"] p by simp
  have st: "unat (drop_bit PAGE_SHIFT (drm_buddy_block_offset b)) = s" "unat (drop_bit PAGE_SHIFT (drm_buddy_block_size mm b)) = l"
    using m(3,4) s by simp_all
  have "4096 * (s + l) < 2 ^ 64" using m(5) s by simp
  then have en: "unat (drop_bit PAGE_SHIFT (drm_buddy_block_offset b) + drop_bit PAGE_SHIFT (drm_buddy_block_size mm b)) = s + l"
    using st by (simp add: unat_word_ariths)
  let ?s = "drop_bit PAGE_SHIFT (drm_buddy_block_offset b)"
  define e where "e = ?s + drop_bit PAGE_SHIFT (drm_buddy_block_size mm b)"
  have mn: "unat (min e vis) = min (s + l) (unat vis)" using en by (simp add: e_def min_def word_le_nat_alt)
  show ?case
  proof (cases "?s < vis")
    case True
    then have "s < unat vis" using st(1) by (simp add: word_less_nat_alt)
    then have "unat (min e vis - ?s) = min (s + l) (unat vis) - s"
      using mn st(1) by (simp add: unat_sub word_le_nat_alt)
    then have d: "unat (min e vis - ?s) * 4096 = below ?K (view mm) {p}" by (simp add: bp)
    then have "unat used * 4096 + unat (min e vis - ?s) * 4096 < 2 ^ 64" using Cons.prems(3) bu by linarith
    then have "unat used + unat (min e vis - ?s) < 2 ^ 64" by linarith
    then have u: "unat (used + (min e vis - ?s)) = unat used + unat (min e vis - ?s)" by (simp add: unat_word_ariths)
    then have "unat (used + (min e vis - ?s)) * 4096 + below ?K (view mm) (set ps) < 2 ^ 64" using Cons.prems(3) bu d by (simp add: add_mult_distrib)
    then obtain n where "add_visible mm vis ps (used + (min e vis - ?s)) = Some n"
      "unat n * 4096 = unat (used + (min e vis - ?s)) * 4096 + below ?K (view mm) (set ps)" using Cons.IH [OF p(3,4)] by blast
    moreover have "add_visible mm vis (p # ps) used = add_visible mm vis ps (used + (min e vis - ?s))"
      using b True by (simp add: Let_def e_def)
    ultimately show ?thesis using u d bu by (simp add: add_mult_distrib)
  next
    case False
    then have "below ?K (view mm) {p} = 0" using st(1) by (simp add: bp word_less_nat_alt not_less)
    then show ?thesis using Cons.IH [OF p(3,4), of used] Cons.prems(3) b False bu by simp
  qed
qed

section \<open>The invariant of the manager\<close>

definition held :: "bman \<Rightarrow> bman_res list \<Rightarrow> nat list" where
  "held bman rs = reserved bman @ concat (map res_blocks rs)"

definition sight :: "bman \<Rightarrow> nat" where
  "sight bman = unat (visible_size bman) * 4096"

text \<open>
  \<open>rs\<close> are the resources that are in use. \<open>bman_sound\<close>: every block handed out is in exactly one of
  them or reserved, and the usage is the sum of their pages. \<open>bman_ok\<close>, the correct account: besides, each
  resource has its pages, its count of pages the CPU can see is right, and so are the counts of the
  manager.
\<close>

definition res_ok :: "bman \<Rightarrow> bman_res \<Rightarrow> bool" where
  "res_ok bman r \<longleftrightarrow> amount (view (bman_mm bman)) (set (res_blocks r)) = unat (num_pages r) * 4096 \<and>
     unat (used_visible_size r) * 4096 = below (sight bman) (view (bman_mm bman)) (set (res_blocks r))"

definition bman_sound :: "bman \<Rightarrow> bman_res list \<Rightarrow> bool" where
  "bman_sound bman rs \<longleftrightarrow> buddy_wf (bman_mm bman) \<and> plenty (bman_mm bman) \<and> chunk_size (bman_mm bman) = 0x1000 \<and>
     unat (man_size bman) * 4096 = unat (mm_size (bman_mm bman)) \<and> unat (man_size bman) < 2 ^ 32 \<and>
     distinct (held bman rs) \<and> set (held bman rs) = dom (owned (view (bman_mm bman))) \<and>
     man_usage bman = sum_list (map (\<lambda>r. push_bit PAGE_SHIFT (num_pages r)) rs)"

definition bman_ok :: "bman \<Rightarrow> bman_res list \<Rightarrow> bool" where
  "bman_ok bman rs \<longleftrightarrow> bman_sound bman rs \<and> (\<forall>r\<in>set rs. res_ok bman r) \<and>
     unat (visible_reserved bman) * 4096 = below (sight bman) (view (bman_mm bman)) (set (reserved bman)) \<and>
     unat (visible_avail bman) * 4096 + below (sight bman) (view (bman_mm bman)) (set (held bman rs)) = sight bman"

lemma bman_ok_sound: "bman_ok bman rs \<Longrightarrow> bman_sound bman rs"
  by (simp add: bman_ok_def)

section \<open>Who holds the blocks\<close>

text \<open>What the calls do to the owners, whatever they count.\<close>

lemma sound_same:
  assumes ok: "bman_sound bman rs" and m: "buddy_wf mm" "same_frame (bman_mm bman) mm" "view mm = view (bman_mm bman)"
    and b: "bman_mm bman' = mm" "man_size bman' = man_size bman" "man_usage bman' = man_usage bman" "reserved bman' = reserved bman"
  shows "bman_sound bman' rs"
proof -
  have f: "chunk_size mm = chunk_size (bman_mm bman)" "mm_size mm = mm_size (bman_mm bman)" "plenty mm = plenty (bman_mm bman)"
    using m(2) by (simp_all add: same_frame_def plenty_def)
  have "held bman' rs = held bman rs" by (simp add: held_def b)
  then show ?thesis using ok m(1) unfolding bman_sound_def b f m(3) by simp
qed

lemma sound_add:
  assumes ok: "bman_sound bman rs" and m: "buddy_wf mm" "same_frame (bman_mm bman) mm"
    and g: "gives (unat (mm_size (bman_mm bman))) (view (bman_mm bman)) (res_blocks r) (view mm)"
    and b: "bman_mm bman' = mm" "man_size bman' = man_size bman" "reserved bman' = reserved bman"
      "man_usage bman' = man_usage bman + push_bit PAGE_SHIFT (num_pages r)"
  shows "bman_sound bman' (r # rs)"
proof -
  have o: "distinct (held bman rs)" "set (held bman rs) = dom (owned (view (bman_mm bman)))"
    using ok unfolding bman_sound_def by blast+
  have "distinct (held bman' (r # rs))" "set (held bman' (r # rs)) = dom (owned (view mm))"
    using g o by (auto simp: gives_def held_def b)
  then show ?thesis using ok m by (simp add: bman_sound_def same_frame_def plenty_def b)
qed

lemma sound_drop:
  assumes ok: "bman_sound bman rs" and r: "r \<in> set rs" and m: "buddy_wf mm" "same_frame (bman_mm bman) mm"
    and t: "takes_back (view (bman_mm bman)) (res_blocks r) (view mm)"
    and b: "bman_mm bman' = mm" "man_size bman' = man_size bman" "reserved bman' = reserved bman"
      "man_usage bman' = man_usage bman - push_bit PAGE_SHIFT (num_pages r)"
  shows "bman_sound bman' (remove1 r rs)"
proof -
  obtain xs ys where rs: "rs = xs @ r # ys" "r \<notin> set xs" using split_list_first [OF r] by blast
  then have rm: "remove1 r rs = xs @ ys" by (simp add: remove1_append)
  have o: "distinct (held bman rs)" "set (held bman rs) = dom (owned (view (bman_mm bman)))"
    using ok unfolding bman_sound_def by blast+
  have "distinct (held bman' (xs @ ys))" "set (held bman' (xs @ ys)) = set (held bman rs) - set (res_blocks r)"
    using o(1) by (auto simp: held_def b rs(1))
  moreover have "dom (owned (view mm)) = set (held bman rs) - set (res_blocks r)" using t o(2) by (auto simp: takes_back_def)
  moreover have "man_usage bman' = sum_list (map (\<lambda>r. push_bit PAGE_SHIFT (num_pages r)) (xs @ ys))"
    using ok rs by (simp add: b bman_sound_def)
  ultimately show ?thesis using ok m by (simp add: rm bman_sound_def same_frame_def plenty_def b)
qed

lemma sound_reserve:
  assumes ok: "bman_sound bman rs" and m: "buddy_wf mm" "same_frame (bman_mm bman) mm"
    and g: "gives (unat (mm_size (bman_mm bman))) (view (bman_mm bman)) ps (view mm)"
    and b: "bman_mm bman' = mm" "man_size bman' = man_size bman" "reserved bman' = reserved bman @ ps" "man_usage bman' = man_usage bman"
  shows "bman_sound bman' rs"
proof -
  have o: "distinct (held bman rs)" "set (held bman rs) = dom (owned (view (bman_mm bman)))"
    using ok unfolding bman_sound_def by blast+
  have "distinct (held bman' rs)" "set (held bman' rs) = dom (owned (view mm))"
    using g o by (auto simp: gives_def held_def b)
  then show ?thesis using ok m by (simp add: bman_sound_def same_frame_def plenty_def b)
qed

section \<open>The counts\<close>

text \<open>A change of the allocator that clients do not see.\<close>

lemma bman_ok_same:
  assumes ok: "bman_ok bman rs" and m: "buddy_wf mm" "same_frame (bman_mm bman) mm" "view mm = view (bman_mm bman)"
  shows "bman_ok (bman\<lparr>bman_mm := mm\<rparr>) rs"
proof -
  have e: "held (bman\<lparr>bman_mm := mm\<rparr>) rs = held bman rs" "res_ok (bman\<lparr>bman_mm := mm\<rparr>) = res_ok bman" "sight (bman\<lparr>bman_mm := mm\<rparr>) = sight bman"
    using m(3) by (simp_all add: held_def res_ok_def sight_def fun_eq_iff)
  have "bman_sound (bman\<lparr>bman_mm := mm\<rparr>) rs" by (rule sound_same [OF bman_ok_sound [OF ok] m]) simp_all
  then show ?thesis using ok unfolding bman_ok_def e by (simp add: m(3))
qed

text \<open>Resources whose blocks are left alone stay as they are.\<close>

lemma res_ok_cong:
  assumes "res_ok bman r" "\<And>p. p \<in> set (res_blocks r) \<Longrightarrow> owned (view (bman_mm bman')) p = owned (view (bman_mm bman)) p"
    "visible_size bman' = visible_size bman"
  shows "res_ok bman' r"
proof -
  have "amount (view (bman_mm bman')) (set (res_blocks r)) = amount (view (bman_mm bman)) (set (res_blocks r))"
    unfolding amount_def using assms(2) by simp
  then show ?thesis
    using assms(1) below_cong [of "set (res_blocks r)" "view (bman_mm bman')" "view (bman_mm bman)"] assms(2,3) by (simp add: res_ok_def sight_def)
qed

lemma gives_keeps: "gives N v ps v' \<Longrightarrow> p \<in> dom (owned v) \<Longrightarrow> owned v' p = owned v p"
  by (simp add: gives_def)

lemma bman_ok_add:
  assumes ok: "bman_ok bman rs" and m: "buddy_wf mm" "same_frame (bman_mm bman) mm"
    and g: "gives (unat (mm_size (bman_mm bman))) (view (bman_mm bman)) (res_blocks r) (view mm)"
    and a: "amount (view mm) (set (res_blocks r)) = unat (num_pages r) * 4096"
    and u: "unat (used_visible_size r) * 4096 = below (sight bman) (view mm) (set (res_blocks r))"
  defines "bman' \<equiv> bman\<lparr>bman_mm := mm, man_usage := man_usage bman + push_bit PAGE_SHIFT (num_pages r),
      visible_avail := visible_avail bman - used_visible_size r\<rparr>"
  shows "bman_ok bman' (r # rs)"
proof -
  let ?v = "view (bman_mm bman)" and ?K = "sight bman"
  have o: "distinct (held bman rs)" "set (held bman rs) = dom (owned ?v)" "\<forall>r\<in>set rs. res_ok bman r"
    "unat (visible_reserved bman) * 4096 = below ?K ?v (set (reserved bman))"
    "unat (visible_avail bman) * 4096 + below ?K ?v (set (held bman rs)) = ?K"
    using ok unfolding bman_ok_def bman_sound_def by blast+
  have s: "sight bman' = ?K" "visible_size bman' = visible_size bman" "bman_mm bman' = mm" "reserved bman' = reserved bman"
    "visible_reserved bman' = visible_reserved bman" by (simp_all add: bman'_def sight_def)
  have h: "set (held bman' (r # rs)) = set (held bman rs) \<union> set (res_blocks r)" "set (held bman rs) \<inter> set (res_blocks r) = {}"
    "distinct (res_blocks r)" "dom (owned (view mm)) = dom (owned ?v) \<union> set (res_blocks r)"
    using g o(2) by (auto simp: gives_def held_def s)
  have same: "owned (view mm) p = owned ?v p" if "p \<in> set (held bman rs)" for p using gives_keeps [OF g] o(2) that by simp
  have old: "res_ok bman' x" if "x \<in> set rs" for x
  proof (rule res_ok_cong [of bman])
    show "owned (view (bman_mm bman')) p = owned ?v p" if "p \<in> set (res_blocks x)" for p
      unfolding s by (rule same) (use that \<open>x \<in> set rs\<close> in \<open>auto simp: held_def\<close>)
  qed (use o(3) that s in simp_all)
  have new: "res_ok bman' r" using a u s by (simp add: res_ok_def)
  have rv: "below ?K (view mm) (set (reserved bman)) = below ?K ?v (set (reserved bman))" by (rule below_cong) (use same in \<open>simp add: held_def\<close>)
  have "below ?K (view mm) (set (held bman rs)) = below ?K ?v (set (held bman rs))" by (rule below_cong) (use same in simp)
  moreover have "below ?K (view mm) (set (held bman rs) \<union> set (res_blocks r)) =
      below ?K (view mm) (set (held bman rs)) + below ?K (view mm) (set (res_blocks r))"
    by (rule below_union) (use g h o(2) in \<open>auto simp: gives_def\<close>)
  moreover note below_le [of ?K "view mm" "set (held bman rs) \<union> set (res_blocks r)"]
  ultimately have sum: "below ?K (view mm) (set (held bman' (r # rs))) = below ?K ?v (set (held bman rs)) + unat (used_visible_size r) * 4096"
    "unat (used_visible_size r) \<le> unat (visible_avail bman)" using u h(1) o(5) by simp_all
  then have va: "unat (visible_avail bman') = unat (visible_avail bman) - unat (used_visible_size r)"
    by (simp add: bman'_def unat_sub word_le_nat_alt)
  have "unat (visible_avail bman') * 4096 + below ?K (view mm) (set (held bman' (r # rs))) = ?K"
    using sum o(5) unfolding va by (simp add: diff_mult_distrib)
  moreover have "bman_sound bman' (r # rs)"
    by (rule sound_add [OF bman_ok_sound [OF ok] m g]) (simp_all add: bman'_def)
  ultimately show ?thesis
    unfolding bman_ok_def s using old new rv o(4) by auto
qed

lemma bman_ok_drop:
  assumes ok: "bman_ok bman rs" and r: "r \<in> set rs" and m: "buddy_wf mm" "same_frame (bman_mm bman) mm"
    and t: "takes_back (view (bman_mm bman)) (res_blocks r) (view mm)"
  defines "bman' \<equiv> bman\<lparr>bman_mm := mm, man_usage := man_usage bman - push_bit PAGE_SHIFT (num_pages r),
      visible_avail := visible_avail bman + used_visible_size r\<rparr>"
  shows "bman_ok bman' (remove1 r rs)"
proof -
  let ?v = "view (bman_mm bman)" and ?K = "sight bman"
  obtain xs ys where rs: "rs = xs @ r # ys" "r \<notin> set xs" using split_list_first [OF r] by blast
  then have rm: "remove1 r rs = xs @ ys" by (simp add: remove1_append)
  have o: "distinct (held bman rs)" "set (held bman rs) = dom (owned ?v)" "\<forall>r\<in>set rs. res_ok bman r"
    "unat (visible_reserved bman) * 4096 = below ?K ?v (set (reserved bman))"
    "unat (visible_avail bman) * 4096 + below ?K ?v (set (held bman rs)) = ?K" "buddy_wf (bman_mm bman)"
    using ok unfolding bman_ok_def bman_sound_def by blast+
  have s: "sight bman' = ?K" "visible_size bman' = visible_size bman" "bman_mm bman' = mm" "reserved bman' = reserved bman"
    "visible_reserved bman' = visible_reserved bman" by (simp_all add: bman'_def sight_def)
  have h: "set (held bman rs) = set (held bman' (xs @ ys)) \<union> set (res_blocks r)" "set (held bman' (xs @ ys)) \<inter> set (res_blocks r) = {}"
    "distinct (held bman' (xs @ ys))" "set (res_blocks r) \<subseteq> dom (owned ?v)"
    using o(1,2) by (auto simp: held_def s rs)
  have same: "owned (view mm) p = owned ?v p" if "p \<in> set (held bman' (xs @ ys))" for p
    using t h(2) that by (auto simp: takes_back_def restrict_map_def)
  have old: "res_ok bman' x" if "x \<in> set (xs @ ys)" for x
  proof (rule res_ok_cong [of bman])
    show "owned (view (bman_mm bman')) p = owned ?v p" if "p \<in> set (res_blocks x)" for p
      unfolding s by (rule same) (use that \<open>x \<in> set (xs @ ys)\<close> in \<open>auto simp: held_def\<close>)
  qed (use o(3) that s rs in auto)
  have rv: "below ?K (view mm) (set (reserved bman)) = below ?K ?v (set (reserved bman))" by (rule below_cong) (use same in \<open>simp add: held_def s\<close>)
  have "below ?K (view mm) (set (held bman' (xs @ ys))) = below ?K ?v (set (held bman' (xs @ ys)))" by (rule below_cong) (use same in simp)
  moreover have "below ?K ?v (set (held bman rs)) = below ?K ?v (set (held bman' (xs @ ys))) + below ?K ?v (set (res_blocks r))"
    unfolding h(1) by (rule below_union [OF view_ok [OF o(6)]]) (use h o(2) in blast)+
  moreover have "below ?K ?v (set (res_blocks r)) = unat (used_visible_size r) * 4096" using o(3) r by (simp add: res_ok_def)
  ultimately have sum: "unat (visible_avail bman) * 4096 + (below ?K (view mm) (set (held bman' (xs @ ys))) + unat (used_visible_size r) * 4096) = ?K"
    using o(5) by simp
  then have "unat (visible_avail bman) + unat (used_visible_size r) \<le> unat (visible_size bman)" by (simp add: sight_def)
  then have "unat (visible_avail bman) + unat (used_visible_size r) < 2 ^ 64"
    using unsigned_less [of "visible_size bman", where 'a = nat] by simp
  then have "unat (visible_avail bman') = unat (visible_avail bman) + unat (used_visible_size r)" by (simp add: bman'_def unat_word_ariths)
  then have "unat (visible_avail bman') * 4096 + below ?K (view mm) (set (held bman' (xs @ ys))) = ?K" using sum by (simp add: add_mult_distrib)
  moreover have "bman_sound bman' (xs @ ys)"
    using sound_drop [OF bman_ok_sound [OF ok] r m t, of bman'] by (simp add: bman'_def rm)
  ultimately show ?thesis
    unfolding rm bman_ok_def s using old rv o(4) by auto
qed

text \<open>A range that is reserved.\<close>

lemma bman_ok_reserve:
  assumes ok: "bman_ok bman rs" and m: "buddy_wf mm" "same_frame (bman_mm bman) mm"
    and g: "gives (unat (mm_size (bman_mm bman))) (view (bman_mm bman)) ps (view mm)"
    and u: "unat n * 4096 = below (sight bman) (view mm) (set ps)"
  defines "bman' \<equiv> bman\<lparr>bman_mm := mm, reserved := reserved bman @ ps, visible_reserved := visible_reserved bman + n,
      visible_avail := visible_avail bman - n\<rparr>"
  shows "bman_ok bman' rs"
proof -
  let ?v = "view (bman_mm bman)" and ?K = "sight bman"
  have o: "distinct (held bman rs)" "set (held bman rs) = dom (owned ?v)" "\<forall>r\<in>set rs. res_ok bman r"
    "unat (visible_reserved bman) * 4096 = below ?K ?v (set (reserved bman))"
    "unat (visible_avail bman) * 4096 + below ?K ?v (set (held bman rs)) = ?K"
    using ok unfolding bman_ok_def bman_sound_def by blast+
  have s: "sight bman' = ?K" "visible_size bman' = visible_size bman" "bman_mm bman' = mm" "reserved bman' = reserved bman @ ps"
    by (simp_all add: bman'_def sight_def)
  have h: "set (held bman' rs) = set (held bman rs) \<union> set ps" "set (held bman rs) \<inter> set ps = {}"
    "distinct ps" "dom (owned (view mm)) = dom (owned ?v) \<union> set ps" "set (reserved bman) \<subseteq> set (held bman rs)"
    using g o(2) by (auto simp: gives_def held_def s)
  have same: "owned (view mm) p = owned ?v p" if "p \<in> set (held bman rs)" for p using gives_keeps [OF g] o(2) that by simp
  have old: "res_ok bman' x" if "x \<in> set rs" for x
  proof (rule res_ok_cong [of bman])
    show "owned (view (bman_mm bman')) p = owned ?v p" if "p \<in> set (res_blocks x)" for p
      unfolding s by (rule same) (use that \<open>x \<in> set rs\<close> in \<open>auto simp: held_def\<close>)
  qed (use o(3) that s in simp_all)
  have add: "below ?K (view mm) (P \<union> set ps) = below ?K ?v P + unat n * 4096" if "P \<subseteq> set (held bman rs)" for P
  proof -
    have "below ?K (view mm) (P \<union> set ps) = below ?K (view mm) P + below ?K (view mm) (set ps)"
      by (rule below_union) (use g h o(2) that in \<open>auto simp: gives_def\<close>)
    moreover have "below ?K (view mm) P = below ?K ?v P" by (rule below_cong) (use same that in blast)
    ultimately show ?thesis using u by simp
  qed
  have sum: "below ?K (view mm) (set (held bman' rs)) = below ?K ?v (set (held bman rs)) + unat n * 4096" unfolding h(1) by (rule add) simp
  have "unat n \<le> unat (visible_avail bman)"
    using below_le [of ?K "view mm" "set (held bman' rs)"] o(5) unfolding sum by simp
  then have "unat (visible_avail bman') = unat (visible_avail bman) - unat n" by (simp add: bman'_def unat_sub word_le_nat_alt)
  then have "unat (visible_avail bman') * 4096 + below ?K (view mm) (set (held bman' rs)) = ?K"
    using \<open>unat n \<le> unat (visible_avail bman)\<close> o(5) unfolding sum by (simp add: diff_mult_distrib)
  moreover have res: "below ?K (view mm) (set (reserved bman')) = below ?K ?v (set (reserved bman)) + unat n * 4096"
    using add [OF h(5)] by (simp add: s)
  then have "unat (visible_reserved bman) + unat n \<le> unat (visible_size bman)"
    using below_le [of ?K "view mm" "set (reserved bman')"] o(4) by (simp add: sight_def)
  then have "unat (visible_reserved bman) + unat n < 2 ^ 64" using unsigned_less [of "visible_size bman", where 'a = nat] by simp
  then have "unat (visible_reserved bman') = unat (visible_reserved bman) + unat n" by (simp add: bman'_def unat_word_ariths)
  then have "unat (visible_reserved bman') * 4096 = below ?K (view mm) (set (reserved bman'))" using res o(4) by (simp add: add_mult_distrib)
  moreover have "bman_sound bman' rs"
    by (rule sound_reserve [OF bman_ok_sound [OF ok] m g]) (simp_all add: bman'_def)
  ultimately show ?thesis
    unfolding bman_ok_def s(1,3) using old by auto
qed

end
