(* ===== verification/Ttm_Buddy_Alloc.thy ===== *)
theory Ttm_Buddy_Alloc
  imports Ttm_Buddy_Inv
begin

text \<open>
  Allocating a resource: the request made to the allocator, cutting a contiguous resource out of one
  block, and the pages seen.
\<close>

section \<open>The request\<close>

definition contiguous :: "ttm_place \<Rightarrow> bool" where
  "contiguous place \<longleftrightarrow> place_flags place AND TTM_PL_FLAG_CONTIGUOUS \<noteq> 0"

text \<open>The size is rounded up to a power of two.\<close>

definition rounded :: "u64 \<Rightarrow> ttm_place \<Rightarrow> bool" where
  "rounded npages place \<longleftrightarrow> ucast (fpfn place) + npages \<noteq> ucast (lpfn place) \<and> contiguous place"

lemma roundup_values:
  assumes "4096 \<le> unat n" "unat n \<le> 2 ^ 63"
  shows "unat n \<le> unat (roundup_pow_of_two n)" "unat (roundup_pow_of_two n) \<le> 2 ^ 63" "4096 dvd unat (roundup_pow_of_two n)"
proof -
  have u: "unat (n - 1) = unat n - 1" using assms(1) by (simp add: unat_sub word_le_nat_alt)
  define k where "k = floorlog 2 (unat (n - 1))"
  have b: "2 ^ (k - 1) \<le> unat n - 1 \<and> unat n - 1 < 2 ^ k" unfolding k_def u by (rule floorlog_bounds) (use assms(1) in auto)
  then have "(2 :: nat) ^ (k - 1) < 2 ^ 63" using assms by linarith
  then have "k - 1 < 63" by (rule power_less_imp_less_exp [rotated]) simp
  then have k63: "k \<le> 63" by simp
  have "4096 \<le> (2 :: nat) ^ k" using b assms(1) by linarith
  then have "(2 :: nat) ^ 12 \<le> 2 ^ k" by simp
  then have k12: "12 \<le> k" by (rule power_le_imp_le_exp [rotated]) simp
  have r: "unat (roundup_pow_of_two n) = 2 ^ k" unfolding roundup_pow_of_two_def k_def [symmetric] by (rule unat_bit) (use k63 in simp)
  show "unat n \<le> unat (roundup_pow_of_two n)" using b assms(1) unfolding r by linarith
  show "unat (roundup_pow_of_two n) \<le> 2 ^ 63" unfolding r by (rule power_increasing [OF k63]) simp
  have "(2 :: nat) ^ 12 dvd 2 ^ k" by (rule le_imp_power_dvd [OF k12])
  then show "4096 dvd unat (roundup_pow_of_two n)" unfolding r by simp
qed

lemma request_values:
  assumes ok: "bman_sound bman rs" and np: "0 < unat np" "unat np < 2 ^ 51" and r: "request_size bman np al place = (sz, mp, lpf)"
  shows "unat np * 4096 \<le> unat sz" "unat sz \<le> 2 ^ 63" "4096 dvd unat sz" "unat lpf < 2 ^ 52" "unat (push_bit PAGE_SHIFT np) = unat np * 4096"
    "if rounded np place then mp = sz \<and> unat lpf = max (unat (place_lpfn bman place)) (unat sz div 4096)
     else unat sz = unat np * 4096 \<and> lpf = place_lpfn bman place"
    "unat (push_bit PAGE_SHIFT lpf) = unat lpf * 4096" "push_bit PAGE_SHIFT (drop_bit (ilog2 (chunk_size (bman_mm bman))) sz) = sz"
    "unat (drop_bit (ilog2 (chunk_size (bman_mm bman))) sz) = unat sz div 4096"
proof -
  let ?s = "push_bit PAGE_SHIFT np"
  have "chunk_size (bman_mm bman) = 0x1000" using ok by (simp add: bman_sound_def)
  then have il: "ilog2 (chunk_size (bman_mm bman)) = 12" by (simp add: ilog2_power)
  have "unat np * 2 ^ 12 < 2 ^ 64" using np(2) by simp
  then show s: "unat ?s = unat np * 4096" using unat_push [of np 12] by (simp add: PAGE_SHIFT_def)
  have "4096 \<le> unat ?s" "unat ?s \<le> 2 ^ 63" using s np by simp_all
  note rv = roundup_values [OF this]
  have "unat (place_lpfn bman place) < 2 ^ 32"
    using ok unsigned_less [of "lpfn place", where 'a = nat] by (auto simp: place_lpfn_def bman_sound_def unsigned_ucast_eq take_bit_nat_eq_self)
  then have pl: "unat (place_lpfn bman place) < 2 ^ 52" by simp
  let ?r = "roundup_pow_of_two ?s"
  have e: "(sz, mp, lpf) = (?r, ?r, if place_lpfn bman place < drop_bit 12 ?r then drop_bit 12 ?r else place_lpfn bman place)"
    if y: "rounded np place" using r y unfolding request_size_def Let_def rounded_def contiguous_def il by (auto split: if_splits)
  have n: "sz = ?s \<and> lpf = place_lpfn bman place" if n: "\<not> rounded np place"
    using r n unfolding request_size_def Let_def rounded_def contiguous_def by auto
  have dv: "unat (drop_bit 12 x) = unat x div 4096" for x :: u64 using unat_drop [of 12 x] by simp
  have szc: "sz = ?r \<or> sz = ?s" using e n by blast
  have "4096 dvd unat ?s" by (simp add: s)
  then show sz: "unat np * 4096 \<le> unat sz" "unat sz \<le> 2 ^ 63" "4096 dvd unat sz"
    using szc rv s \<open>unat ?s \<le> 2 ^ 63\<close> by auto
  have dr: "unat (drop_bit 12 sz) = unat sz div 4096" by (rule dv)
  show mx: "if rounded np place then mp = sz \<and> unat lpf = max (unat (place_lpfn bman place)) (unat sz div 4096)
     else unat sz = unat np * 4096 \<and> lpf = place_lpfn bman place"
  proof (cases "rounded np place")
    case True
    then show ?thesis using e [OF True] dr by (simp add: word_less_nat_alt max_def)
  next
    case False
    then show ?thesis using n s by simp
  qed
  have "unat sz div 4096 < 2 ^ 52" using sz(2) by simp
  then show l: "unat lpf < 2 ^ 52" using mx pl by (cases "rounded np place") simp_all
  have "unat lpf * 2 ^ 12 < 2 ^ 64" using l by simp
  then show "unat (push_bit PAGE_SHIFT lpf) = unat lpf * 4096" using unat_push [of lpf 12] by (simp add: PAGE_SHIFT_def)
  show d: "unat (drop_bit (ilog2 (chunk_size (bman_mm bman))) sz) = unat sz div 4096" by (simp add: il dv)
  have "unat (drop_bit 12 sz) * 2 ^ 12 < 2 ^ 64" using sz by (simp add: dv)
  then have "unat (push_bit 12 (drop_bit 12 sz)) = unat sz" using sz(3) unat_push [of "drop_bit 12 sz" 12] by (simp add: dv)
  then show "push_bit PAGE_SHIFT (drop_bit (ilog2 (chunk_size (bman_mm bman))) sz) = sz" by (simp add: il PAGE_SHIFT_def word_unat_eq_iff)
qed

section \<open>Cutting\<close>

text \<open>A block that has been given out and is cut down at once.\<close>

lemma given_cut:
  assumes wf: "buddy_wf mm" "plenty mm" and g: "gained mm [p] m" and b: "slab m p = Some b"
    and n: "0 < unat n" "unat n \<le> len m b" "unat (chunk_size mm) dvd unat n"
  shows "\<exists>m' new. drm_buddy_block_trim m n [p] = Some (m', new, Inr ()) \<and> buddy_wf m' \<and> same_frame mm m' \<and>
    gives (unat (mm_size mm)) (view mm) new (view m') \<and> parts (view m') (set new) = {off b..<off b + unat n}"
proof -
  have gm: "buddy_wf m" "same_frame mm m" "allocated m = allocated mm \<union> {p}" "p \<notin> allocated mm" using g by (simp_all add: gained_def)
  have pm: "plenty m" by (rule gained_plenty [OF g wf(2)])
  have "p \<in> allocated m" using gm(3) by simp
  then have a: "is_allocated b" using b by (simp add: allocated_def)
  have fr: "chunk_size m = chunk_size mm" "mm_size m = mm_size mm" using gm(2) by (simp_all add: same_frame_def)
  obtain m' new r where t: "drm_buddy_block_trim m n [p] = Some (m', new, r)" "r = Inr ()" "trimmed m p b (unat n) m' new"
    using trim_result [OF gm(1) pm b, of n] a n fr by auto
  have sf: "same_frame mm m'" using same_frame_trans [OF gm(2)] t(3) by (simp add: trimmed_def)
  have c: "cuts (unat (mm_size mm)) (view m) p {off b..<off b + unat n} new (view m')" using view_trimmed [OF t(3)] fr by simp
  have v: "gives (unat (mm_size mm)) (view mm) [p] (view m)" by (rule view_gained [OF g])
  have d: "dom (owned (view m)) - {p} = dom (owned (view mm))" using gm(3,4) by auto
  have c': "vram_ok (unat (mm_size mm)) (view m')" "distinct new" "set new \<inter> dom (owned (view mm)) = {}"
    "dom (owned (view m')) = dom (owned (view mm)) \<union> set new" "\<forall>q\<in>dom (owned (view mm)). owned (view m') q = owned (view m) q"
    using c unfolding cuts_def d by simp_all
  have "owned (view m') q = owned (view mm) q" if q: "q \<in> dom (owned (view mm))" for q
    using bspec [OF c'(5) q] gives_keeps [OF v q] by simp
  then have "gives (unat (mm_size mm)) (view mm) new (view m')" unfolding gives_def using c'(1-4) by (intro conjI ballI)
  moreover have "buddy_wf m'" "parts (view m') (set new) = {off b..<off b + unat n}" using t(3) c unfolding trimmed_def cuts_def by blast+
  ultimately show ?thesis using t(1,2) sf by blast
qed

text \<open>A list of blocks of the size of the whole has one block.\<close>

lemma one_block:
  assumes "buddy_wf m" "bytes m new = s" "0 < s" "\<And>p. p \<in> set new \<Longrightarrow> \<exists>b. slab m p = Some b \<and> s dvd len m b"
  shows "\<exists>p b. new = [p] \<and> slab m p = Some b \<and> len m b = s"
proof (cases new)
  case Nil
  then show ?thesis using assms(2,3) by (simp add: bytes_def)
next
  case (Cons p ps)
  have ge: "\<exists>b. slab m q = Some b \<and> s \<le> len m b" if q: "q \<in> set new" for q
  proof -
    obtain b where b: "slab m q = Some b" "s dvd len m b" using assms(4) [OF q] by blast
    have "0 < len m b" by (rule len_pos [OF wf_block(3) [OF assms(1) b(1)]])
    then show ?thesis using b dvd_imp_le by blast
  qed
  obtain b where b: "slab m p = Some b" "s \<le> len m b" using ge [of p] Cons by auto
  have "ps = []"
  proof (cases ps)
    case (Cons q qs)
    then obtain c where "slab m q = Some c" "s \<le> len m c" using ge [of q] \<open>new = p # ps\<close> by auto
    then show ?thesis using assms(2,3) b Cons \<open>new = p # ps\<close> by (simp add: bytes_def)
  qed
  then show ?thesis using assms(2) b Cons by (simp add: bytes_def)
qed

end
