(* ===== verification/Ttm_Buddy_Given.thy ===== *)
theory Ttm_Buddy_Given
  imports Ttm_Buddy_Alloc
begin

text \<open>
  What a granted resource holds: the bytes that were asked for, inside the range, and in one piece where
  the place says contiguous.
\<close>

section \<open>The allocator on any request\<close>

text \<open>With less than \<open>2 ^ 32\<close> chunks in all, a larger request is refused as out of order.\<close>

lemma alloc_blocks_any:
  assumes wf: "buddy_wf mm" "plenty mm" and small: "unat (mm_size mm) < 2 ^ 32 * unat (chunk_size mm)"
  shows "\<exists>mm' new r. drm_buddy_alloc_blocks mm start end sz min_page blocks flags = Some (mm', blocks @ new, r) \<and> gained mm new mm' \<and>
    (case r of
       Inr _ \<Rightarrow> request_ok mm start end sz min_page \<and> blocks_given mm start end sz min_page flags mm' new
     | Inl e \<Rightarrow> new = [] \<and> (if request_ok mm start end sz min_page then e = ENOSPC else e = EINVAL \<and> mm' = mm))"
proof (cases "request_ok mm start end sz min_page")
  case True
  then have "unat sz < 2 ^ 32 * unat (chunk_size mm)" using small by (simp add: request_ok_def)
  then show ?thesis by (rule alloc_blocks_result [OF wf])
next
  case False
  then have "drm_buddy_alloc_blocks mm start end sz min_page blocks flags = Some (mm, blocks @ [], Inl EINVAL)"
    unfolding request_checks [OF wf(1)] drm_buddy_alloc_blocks_def by auto
  then show ?thesis using False gained_refl [OF wf(1)] by (intro exI [of _ mm] exI [of _ "[]"] exI [of _ "Inl EINVAL"]) simp
qed

section \<open>The range\<close>

lemma range_flag: "buddy_flags bman place AND DRM_BUDDY_RANGE_ALLOCATION \<noteq> 0 \<longleftrightarrow> fpfn place \<noteq> 0 \<or> place_lpfn bman place \<noteq> man_size bman"
  by (simp add: buddy_flags_def DRM_BUDDY_RANGE_ALLOCATION_def DRM_BUDDY_TOPDOWN_ALLOCATION_def)

lemma start_bytes: "unat (push_bit PAGE_SHIFT (ucast (f :: u32) :: u64)) = unat f * 4096"
proof -
  have u: "unat (ucast f :: u64) = unat f"
    using unsigned_less [of f, where 'a = nat] by (simp add: unsigned_ucast_eq take_bit_nat_eq_self)
  then have "unat (ucast f :: u64) * 2 ^ 12 < 2 ^ 64" using unsigned_less [of f, where 'a = nat] by simp
  then show ?thesis using unat_push [of "ucast f" 12] u by (simp add: PAGE_SHIFT_def)
qed

lemma asked_range:
  assumes ok: "bman_sound bman rs" and m: "buddy_wf m" "same_frame (bman_mm bman) m" and b: "slab m p = Some b"
    and a: "as_asked start end mp (buddy_flags bman place) m b" and s: "start = push_bit PAGE_SHIFT (ucast (fpfn place))"
    and e: "unat end = unat lpf * 4096" "place_lpfn bman place \<le> lpf" "0 < unat end"
  shows "unat (fpfn place) * 4096 \<le> off b \<and> off b + len m b \<le> unat lpf * 4096"
proof (cases "buddy_flags bman place AND DRM_BUDDY_RANGE_ALLOCATION \<noteq> 0")
  case True
  have "unat (end - 1) + 1 = unat end" using e(3) by (simp add: unat_sub word_le_nat_alt)
  then show ?thesis using a True e(1) start_bytes [of "fpfn place"] by (simp add: as_asked_def in_range_def s)
next
  case False
  then have f: "fpfn place = 0" "place_lpfn bman place = man_size bman" unfolding range_flag by simp_all
  have "off b + len m b \<le> unat (mm_size m)" using wf_block(2) [OF m(1) b] by (simp add: block_ok_def)
  moreover have "unat (mm_size m) = unat (man_size bman) * 4096" using ok m(2) by (simp add: bman_sound_def same_frame_def)
  ultimately show ?thesis using f e(2) by (simp add: word_le_nat_alt)
qed

section \<open>The bytes of a granted resource\<close>

definition granted :: "bman \<Rightarrow> u64 \<Rightarrow> ttm_place \<Rightarrow> nat \<Rightarrow> nat set \<Rightarrow> bool" where
  "granted bman np place lpf M \<longleftrightarrow> card M = unat np * 4096 \<and> M \<subseteq> {0..<lpf * 4096} \<and>
     M \<subseteq> {unat (fpfn place) * 4096..<unat (place_lpfn bman place) * 4096} \<and>
     (contiguous place \<longrightarrow> (\<exists>a. M = {a..<a + unat np * 4096}))"

definition cut_stage :: "ttm_place \<Rightarrow> u64 \<Rightarrow> buddy \<Rightarrow> nat list \<Rightarrow> (buddy \<times> nat list \<times> unit res) option" where
  "cut_stage place np m new =
     (if contiguous place then drm_buddy_block_trim m (push_bit PAGE_SHIFT np) new else Some (m, new, Inr ()))"

text \<open>A block of a power of two, cut down to what was asked for.\<close>

lemma granted_cut:
  assumes ok: "bman_sound bman rs" and np: "0 < unat np" "unat np < 2 ^ 51" and r: "request_size bman np al place = (sz, mp, lpf)"
    and y: "rounded np place" and le: "unat sz \<le> unat lpf * 4096"
    and ne: "push_bit PAGE_SHIFT (ucast (fpfn place)) + sz \<noteq> push_bit PAGE_SHIFT lpf"
    and g: "gained (bman_mm bman) new m" and bts: "bytes m new = unat sz"
    and all: "all_blocks (as_asked (push_bit PAGE_SHIFT (ucast (fpfn place))) (push_bit PAGE_SHIFT lpf) mp (buddy_flags bman place) m) m new"
  shows "\<exists>m' bl r. cut_stage place np m new = Some (m', bl, r) \<and> buddy_wf m' \<and> same_frame (bman_mm bman) m' \<and>
    gives (unat (mm_size (bman_mm bman))) (view (bman_mm bman)) bl (view m') \<and> granted bman np place (unat lpf) (parts (view m') (set bl))"
proof -
  note v = request_values [OF ok np r]
  have m: "buddy_wf m" "same_frame (bman_mm bman) m" using g by (simp_all add: gained_def)
  have o: "buddy_wf (bman_mm bman)" "plenty (bman_mm bman)" "chunk_size (bman_mm bman) = 0x1000" using ok by (simp_all add: bman_sound_def)
  have x: "mp = sz" "unat lpf = max (unat (place_lpfn bman place)) (unat sz div 4096)" using v(6) y by simp_all
  have sp: "0 < unat sz" using v(1) np(1) by linarith
  have "\<exists>b. slab m p = Some b \<and> unat sz dvd len m b" if q: "p \<in> set new" for p
    using all q unfolding all_blocks_def as_asked_def x(1) by blast
  then obtain p b where pb: "new = [p]" "slab m p = Some b" "len m b = unat sz" using one_block [OF m(1) bts sp] by blast
  have as: "as_asked (push_bit PAGE_SHIFT (ucast (fpfn place))) (push_bit PAGE_SHIFT lpf) mp (buddy_flags bman place) m b"
    using all pb(1,2) by (simp add: all_blocks_def)
  have "place_lpfn bman place \<le> lpf" "0 < unat (push_bit PAGE_SHIFT lpf)" using x(2) v(7) sp le by (simp_all add: word_le_nat_alt)
  then have rg: "unat (fpfn place) * 4096 \<le> off b" "off b + unat sz \<le> unat lpf * 4096"
    using asked_range [OF ok m pb(2) as refl v(7)] pb(3) by simp_all
  have n: "0 < unat (push_bit PAGE_SHIFT np)" "unat (push_bit PAGE_SHIFT np) \<le> len m b"
    "unat (chunk_size (bman_mm bman)) dvd unat (push_bit PAGE_SHIFT np)" using v(1,5) np(1) pb(3) o(3) by simp_all
  obtain m' bl where c: "drm_buddy_block_trim m (push_bit PAGE_SHIFT np) [p] = Some (m', bl, Inr ())" "buddy_wf m'" "same_frame (bman_mm bman) m'"
    "gives (unat (mm_size (bman_mm bman))) (view (bman_mm bman)) bl (view m')" "parts (view m') (set bl) = {off b..<off b + unat np * 4096}"
    using given_cut [OF o(1,2) g [unfolded pb(1)] pb(2) n] v(5) by auto
  have "unat lpf = unat (place_lpfn bman place)"
  proof (rule ccontr)
    assume "unat lpf \<noteq> unat (place_lpfn bman place)"
    then have l: "unat lpf * 4096 = unat sz" using x(2) v(3) by (simp add: max_def split: if_splits)
    then have f: "fpfn place = 0" using rg by (simp add: word_unat_eq_iff)
    have "unat (push_bit PAGE_SHIFT (ucast (fpfn place)) + sz) = unat (push_bit PAGE_SHIFT lpf)" using l v(7) by (simp add: f)
    then have "push_bit PAGE_SHIFT (ucast (fpfn place)) + sz = push_bit PAGE_SHIFT lpf" by (simp only: word_unat_eq_iff)
    then show False using ne by contradiction
  qed
  moreover have "off b + unat np * 4096 \<le> unat lpf * 4096" using rg(2) v(1) by linarith
  ultimately have "granted bman np place (unat lpf) (parts (view m') (set bl))"
    using rg(1) unfolding granted_def c(5) by auto
  moreover have "cut_stage place np m new = Some (m', bl, Inr ())" using y c(1) by (simp add: cut_stage_def rounded_def pb(1))
  ultimately show ?thesis using c(2-4) by blast
qed

text \<open>Blocks that are kept as they are.\<close>

lemma granted_kept:
  assumes g: "gained mm new m" and c: "cut_stage place np m new = Some (m, new, r)"
    and gr: "granted bman np place lpf (covered m new)"
  shows "\<exists>m' bl r. cut_stage place np m new = Some (m', bl, r) \<and> buddy_wf m' \<and> same_frame mm m' \<and>
    gives (unat (mm_size mm)) (view mm) bl (view m') \<and> granted bman np place lpf (parts (view m') (set bl))"
proof -
  have m: "buddy_wf m" "same_frame mm m" "distinct new" "set new \<subseteq> allocated m" using g by (auto simp: gained_def)
  have "parts (view m) (set new) = covered m new" by (rule view_amount(2) [OF m(1,3,4)])
  then show ?thesis using c m(1,2) gr view_gained [OF g] by (intro exI [of _ m] exI [of _ new] exI [of _ r]) simp
qed

text \<open>A range that is filled.\<close>

lemma granted_whole:
  assumes ok: "bman_sound bman rs" and np: "0 < unat np" "unat np < 2 ^ 51" and r: "request_size bman np al place = (sz, mp, lpf)"
    and y: "\<not> rounded np place" and g: "gained (bman_mm bman) new m" and le: "unat (fpfn place) * 4096 + unat sz = unat lpf * 4096"
    and cov: "covered m new = {unat (fpfn place) * 4096..<unat lpf * 4096}"
  shows "\<exists>m' bl r. cut_stage place np m new = Some (m', bl, r) \<and> buddy_wf m' \<and> same_frame (bman_mm bman) m' \<and>
    gives (unat (mm_size (bman_mm bman))) (view (bman_mm bman)) bl (view m') \<and> granted bman np place (unat lpf) (parts (view m') (set bl))"
proof -
  note v = request_values [OF ok np r]
  have m: "buddy_wf m" "set new \<subseteq> allocated m" using g by (auto simp: gained_def)
  have o: "buddy_wf (bman_mm bman)" "plenty (bman_mm bman)" "chunk_size (bman_mm bman) = 0x1000" using ok by (simp_all add: bman_sound_def)
  have x: "unat sz = unat np * 4096" "lpf = place_lpfn bman place" using v(6) y by simp_all
  let ?F = "unat (fpfn place) * 4096"
  have gr: "granted bman np place (unat lpf) {?F..<unat lpf * 4096}"
    using le x exI [of "\<lambda>a. {?F..<unat lpf * 4096} = {a..<a + unat np * 4096}" ?F] unfolding granted_def by auto
  show ?thesis
  proof (cases "contiguous place \<and> (\<exists>p. new = [p])")
    case True
    then obtain p where p: "new = [p]" "contiguous place" by blast
    then obtain b where b: "slab m p = Some b" using m(2) by (auto simp: allocated_def)
    have pos: "0 < len m b" by (rule len_pos [OF wf_block(3) [OF m(1) b]])
    have iv: "{off b..<off b + len m b} = {?F..<unat lpf * 4096}" using cov p(1) b by (simp add: covered_def bytes_of_def ival_def)
    moreover have "?F < unat lpf * 4096" using le x(1) np(1) by linarith
    ultimately have e: "off b = ?F" "off b + len m b = unat lpf * 4096" using pos by (simp_all add: atLeastLessThan_eq_iff)
    have n: "0 < unat (push_bit PAGE_SHIFT np)" "unat (push_bit PAGE_SHIFT np) \<le> len m b"
      "unat (chunk_size (bman_mm bman)) dvd unat (push_bit PAGE_SHIFT np)" using v(5) np(1) e le x(1) o(3) by simp_all
    obtain m' bl where c: "drm_buddy_block_trim m (push_bit PAGE_SHIFT np) [p] = Some (m', bl, Inr ())" "buddy_wf m'" "same_frame (bman_mm bman) m'"
      "gives (unat (mm_size (bman_mm bman))) (view (bman_mm bman)) bl (view m')" "parts (view m') (set bl) = {off b..<off b + unat np * 4096}"
      using given_cut [OF o(1,2) g [unfolded p(1)] b n] v(5) by auto
    have "off b + unat np * 4096 = unat lpf * 4096" using e(1) le x(1) by linarith
    then have "granted bman np place (unat lpf) (parts (view m') (set bl))" using gr e(1) unfolding c(5) by simp
    moreover have "cut_stage place np m new = Some (m', bl, Inr ())" using p c(1) by (simp add: cut_stage_def)
    ultimately show ?thesis using c(2-4) by blast
  next
    case False
    then have "cut_stage place np m new = Some (m, new, if contiguous place then Inl EINVAL else Inr ())"
      by (auto simp: cut_stage_def drm_buddy_block_trim_def split: list.splits)
    then show ?thesis by (rule granted_kept [OF g]) (use gr in \<open>simp add: cov\<close>)
  qed
qed

text \<open>Pages anywhere in the range.\<close>

lemma granted_loose:
  assumes ok: "bman_sound bman rs" and np: "0 < unat np" "unat np < 2 ^ 51" and r: "request_size bman np al place = (sz, mp, lpf)"
    and y: "\<not> contiguous place" and le: "unat sz \<le> unat lpf * 4096"
    and g: "gained (bman_mm bman) new m" and bts: "bytes m new = unat sz"
    and all: "all_blocks (as_asked (push_bit PAGE_SHIFT (ucast (fpfn place))) (push_bit PAGE_SHIFT lpf) mp (buddy_flags bman place) m) m new"
  shows "\<exists>m' bl r. cut_stage place np m new = Some (m', bl, r) \<and> buddy_wf m' \<and> same_frame (bman_mm bman) m' \<and>
    gives (unat (mm_size (bman_mm bman))) (view (bman_mm bman)) bl (view m') \<and> granted bman np place (unat lpf) (parts (view m') (set bl))"
proof (rule granted_kept [OF g])
  note v = request_values [OF ok np r]
  have m: "buddy_wf m" "same_frame (bman_mm bman) m" "distinct new" "set new \<subseteq> allocated m" using g by (auto simp: gained_def)
  have x: "unat sz = unat np * 4096" "lpf = place_lpfn bman place" using v(6) y by (simp_all add: rounded_def)
  have pos: "0 < unat (push_bit PAGE_SHIFT lpf)" using v(7) le x(1) np(1) by linarith
  have one: "bytes_of m p \<subseteq> {unat (fpfn place) * 4096..<unat lpf * 4096}" if p: "p \<in> set new" for p
  proof -
    obtain b where b: "slab m p = Some b"
      "as_asked (push_bit PAGE_SHIFT (ucast (fpfn place))) (push_bit PAGE_SHIFT lpf) mp (buddy_flags bman place) m b"
      using all p unfolding all_blocks_def by blast
    show ?thesis using asked_range [OF ok m(1,2) b refl v(7) _ pos] x(2) b(1) by (auto simp: bytes_of_def ival_def)
  qed
  then have "covered m new \<subseteq> {unat (fpfn place) * 4096..<unat lpf * 4096}" unfolding covered_def by blast
  moreover have "card (covered m new) = unat np * 4096" using bytes_card [OF m(1,3,4)] bts x(1) by simp
  moreover have "unat lpf = unat (place_lpfn bman place)" using x(2) by simp
  ultimately show "granted bman np place (unat lpf) (covered m new)"
    using y unfolding granted_def by (auto dest: subsetD)
  show "cut_stage place np m new = Some (m, new, Inr ())" using y by (simp add: cut_stage_def)
qed

end
