(* ===== verification/Ttm_Buddy_Calls.thy ===== *)
theory Ttm_Buddy_Calls
  imports Ttm_Buddy_Given
begin

text \<open>The calls of the manager, each as a whole.\<close>

section \<open>Allocating\<close>

text \<open>
  A contiguous request whose size, rounded up to a power of two, fills the range up to its end. The
  allocator may serve it with several blocks, and then trimming does nothing.
\<close>

definition uncut :: "bman \<Rightarrow> u64 \<Rightarrow> u32 \<Rightarrow> ttm_place \<Rightarrow> bool" where
  "uncut bman np al place \<longleftrightarrow> rounded np place \<and>
     (case request_size bman np al place of (sz, _, lpf) \<Rightarrow> push_bit PAGE_SHIFT (ucast (fpfn place)) + sz = push_bit PAGE_SHIFT lpf)"

definition visible_part :: "bman \<Rightarrow> u64 \<Rightarrow> u64 \<Rightarrow> buddy \<Rightarrow> nat list \<Rightarrow> u64 option" where
  "visible_part bman np lpf mm blocks = (if lpf \<le> visible_size bman then Some np else add_visible mm (visible_size bman) blocks 0)"

lemma alloc_eq:
  assumes "request_size bman np al place = (sz, mp, lpf)" "push_bit PAGE_SHIFT (drop_bit (ilog2 (chunk_size (bman_mm bman))) sz) = sz"
  defines "n_pages \<equiv> drop_bit (ilog2 (chunk_size (bman_mm bman))) sz"
  shows "i915_ttm_buddy_man_alloc mem bman np al place =
    (if \<not> mem then Some (bman, Inl ENOMEM) else if push_bit PAGE_SHIFT lpf < sz then Some (bman, Inl E2BIG)
     else if lpf \<le> visible_size bman \<and> visible_avail bman < n_pages then Some (bman, Inl ENOSPC)
     else do {
       (mm, blocks, e) \<leftarrow> drm_buddy_alloc_blocks (bman_mm bman) (push_bit PAGE_SHIFT (ucast (fpfn place))) (push_bit PAGE_SHIFT lpf)
         sz mp [] (buddy_flags bman place);
       case e of
         Inl e \<Rightarrow> do { mm \<leftarrow> drm_buddy_free_list mm blocks; Some (bman\<lparr>bman_mm := mm\<rparr>, Inl e) }
       | Inr _ \<Rightarrow> do {
           (mm, blocks, _) \<leftarrow> cut_stage place np mm blocks;
           used \<leftarrow> visible_part bman np lpf mm blocks;
           Some (bman\<lparr>bman_mm := mm, man_usage := man_usage bman + push_bit PAGE_SHIFT np, visible_avail := visible_avail bman - used\<rparr>,
             Inr \<lparr>res_start = (if ucast (lpfn place - fpfn place) = n_pages then ucast (fpfn place)
                              else if lpf \<le> visible_size bman then 0 else visible_size bman),
                  num_pages = np, res_blocks = blocks, res_flags = buddy_flags bman place, used_visible_size = used\<rparr>) } })"
proof -
  have i: "resource_fini np (resource_init np bman) = bman" "resource_fini np ((resource_init np bman)\<lparr>bman_mm := m\<rparr>) = bman\<lparr>bman_mm := m\<rparr>"
    "bman_mm (resource_init np bman) = bman_mm bman" "visible_size (resource_init np bman) = visible_size bman"
    "visible_avail (resource_init np bman) = visible_avail bman" for m
    by (simp_all add: resource_init_def resource_fini_def)
  have d: "man_size (resource_init np bman) = man_size bman" "default_page_size (resource_init np bman) = default_page_size bman"
    by (simp_all add: resource_init_def)
  have j: "buddy_flags (resource_init np bman) place = buddy_flags bman place" "request_size (resource_init np bman) np al place = (sz, mp, lpf)"
    unfolding assms(1) [symmetric] buddy_flags_def request_size_def place_lpfn_def d i by (rule refl)+
  have k: "(resource_init np bman)\<lparr>bman_mm := m, visible_avail := x\<rparr> =
      bman\<lparr>bman_mm := m, man_usage := man_usage bman + push_bit PAGE_SHIFT np, visible_avail := x\<rparr>" for m x
    by (simp add: resource_init_def)
  show ?thesis
    unfolding i915_ttm_buddy_man_alloc_def Let_def j i k prod.case cut_stage_def contiguous_def visible_part_def n_pages_def assms(2) by (rule refl)
qed

text \<open>How many pages the CPU can see.\<close>

lemma visible_part_counts:
  assumes ok: "bman_sound bman rs" and m: "buddy_wf m" "same_frame (bman_mm bman) m"
    and g: "gives (unat (mm_size (bman_mm bman))) (view (bman_mm bman)) bl (view m)"
  shows "\<exists>u. visible_part bman np lpf m bl = Some u \<and>
    (card (parts (view m) (set bl)) = unat np * 4096 \<and> parts (view m) (set bl) \<subseteq> {0..<unat lpf * 4096} \<longrightarrow>
       unat u * 4096 = below (sight bman) (view m) (set bl))"
proof (cases "lpf \<le> visible_size bman")
  case True
  then have "unat lpf * 4096 \<le> sight bman" by (simp add: sight_def word_le_nat_alt)
  then have "parts (view m) (set bl) \<inter> {0..<sight bman} = parts (view m) (set bl)"
    if "parts (view m) (set bl) \<subseteq> {0..<unat lpf * 4096}" using that by force
  then show ?thesis using True by (simp add: visible_part_def below_def)
next
  case False
  have d: "distinct bl" "set bl \<subseteq> allocated m" "chunk_size m = 0x1000" "set bl \<subseteq> dom (owned (view m))"
    using g ok m(2) by (auto simp: gives_def bman_sound_def same_frame_def)
  have "parts (view m) (set bl) \<subseteq> {0..<unat (mm_size m)}" by (rule parts_within [OF view_ok [OF m(1)] d(4)])
  then have "below (sight bman) (view m) (set bl) \<le> unat (mm_size m)"
    unfolding below_def using card_mono [of "{0..<unat (mm_size m)}" "parts (view m) (set bl) \<inter> {0..<sight bman}"] by auto
  then have "below (sight bman) (view m) (set bl) < 2 ^ 64" using unsigned_less [of "mm_size m", where 'a = nat] by simp
  then show ?thesis
    using add_visible_counts [OF m(1) d(3,1,2), of 0 "visible_size bman"] False by (auto simp: visible_part_def sight_def)
qed

text \<open>A contiguous request whose size is not rounded is for the whole range.\<close>

lemma exact_fills:
  assumes ok: "bman_sound bman rs" and np: "0 < unat np" "unat np < 2 ^ 51" and r: "request_size bman np al place = (sz, mp, lpf)"
    and y: "\<not> rounded np place" and c: "contiguous place"
  shows "push_bit PAGE_SHIFT (ucast (fpfn place)) + sz = push_bit PAGE_SHIFT lpf"
proof -
  note v = request_values [OF ok np r]
  have x: "unat sz = unat np * 4096" "lpf = place_lpfn bman place" using v(6) y by simp_all
  have uc: "unat (ucast w :: u64) = unat w" for w :: u32
    using unsigned_less [of w, where 'a = nat] by (simp add: unsigned_ucast_eq take_bit_nat_eq_self)
  have "unat (fpfn place) + unat np < 2 ^ 64" using np(2) unsigned_less [of "fpfn place", where 'a = nat] by simp
  then have "unat (ucast (fpfn place) + np) = unat (fpfn place) + unat np" by (simp add: unat_word_ariths uc)
  moreover have "ucast (fpfn place) + np = ucast (lpfn place)" using y c by (simp add: rounded_def)
  ultimately have s: "unat (lpfn place) = unat (fpfn place) + unat np" by (simp add: uc)
  then have "lpfn place \<noteq> 0" using np(1) by auto
  then have l: "unat lpf = unat (fpfn place) + unat np" using s by (simp add: x(2) place_lpfn_def uc)
  have "unat (push_bit PAGE_SHIFT (ucast (fpfn place)) + sz) = unat (push_bit PAGE_SHIFT lpf)"
    unfolding v(7) unat_word_ariths start_bytes x(1) using l v(4) by simp
  then show ?thesis by (simp add: word_unat_eq_iff)
qed

text \<open>A request that is not cut: either all of the range, or its beginning.\<close>

lemma uncut_blocks:
  assumes ok: "bman_sound bman rs" and np: "0 < unat np" "unat np < 2 ^ 51" and r: "request_size bman np al place = (sz, mp, lpf)"
    and y: "rounded np place" and g: "gained (bman_mm bman) new m" and le: "unat (fpfn place) * 4096 + unat sz = unat lpf * 4096"
    and cov: "covered m new = {unat (fpfn place) * 4096..<unat lpf * 4096}"
  shows "\<exists>m' bl r. cut_stage place np m new = Some (m', bl, r) \<and> buddy_wf m' \<and> same_frame (bman_mm bman) m' \<and>
    gives (unat (mm_size (bman_mm bman))) (view (bman_mm bman)) bl (view m') \<and>
    parts (view m') (set bl) \<in> {{unat (fpfn place) * 4096..<unat (fpfn place) * 4096 + unat np * 4096}, {unat (fpfn place) * 4096..<unat lpf * 4096}} \<and>
    (\<not> unat sz dvd unat (fpfn place) * 4096 \<longrightarrow> parts (view m') (set bl) = {unat (fpfn place) * 4096..<unat lpf * 4096})"
proof -
  note v = request_values [OF ok np r]
  have m: "buddy_wf m" "same_frame (bman_mm bman) m" "distinct new" "set new \<subseteq> allocated m" using g by (auto simp: gained_def)
  have o: "buddy_wf (bman_mm bman)" "plenty (bman_mm bman)" "chunk_size (bman_mm bman) = 0x1000" using ok by (simp_all add: bman_sound_def)
  let ?F = "unat (fpfn place) * 4096"
  show ?thesis
  proof (cases "\<exists>p. new = [p]")
    case True
    then obtain p where p: "new = [p]" by blast
    then obtain b where b: "slab m p = Some b" using m(4) by (auto simp: allocated_def)
    have pos: "0 < len m b" by (rule len_pos [OF wf_block(3) [OF m(1) b]])
    have "{off b..<off b + len m b} = {?F..<unat lpf * 4096}" using cov p b by (simp add: covered_def bytes_of_def ival_def)
    moreover have "?F < unat lpf * 4096" using le v(1) np(1) by linarith
    ultimately have e: "off b = ?F" "off b + len m b = unat lpf * 4096" using pos by (simp_all add: atLeastLessThan_eq_iff)
    have n: "0 < unat (push_bit PAGE_SHIFT np)" "unat (push_bit PAGE_SHIFT np) \<le> len m b"
      "unat (chunk_size (bman_mm bman)) dvd unat (push_bit PAGE_SHIFT np)" using v(1,5) np(1) e le o(3) by simp_all
    obtain m' bl where c: "drm_buddy_block_trim m (push_bit PAGE_SHIFT np) [p] = Some (m', bl, Inr ())" "buddy_wf m'" "same_frame (bman_mm bman) m'"
      "gives (unat (mm_size (bman_mm bman))) (view (bman_mm bman)) bl (view m')" "parts (view m') (set bl) = {off b..<off b + unat np * 4096}"
      using given_cut [OF o(1,2) g [unfolded p] b n] v(5) by auto
    have "cut_stage place np m new = Some (m', bl, Inr ())" using p c(1) y by (simp add: cut_stage_def rounded_def)
    moreover have "unat sz dvd ?F"
    proof -
      have "len m b dvd off b" using wf_block(2) [OF m(1) b] by (simp add: block_ok_def dvd_eq_mod_eq_0)
      moreover have "len m b = unat sz" using e le by simp
      ultimately show ?thesis by (simp add: e(1))
    qed
    ultimately show ?thesis using c(2-5) e(1) by auto
  next
    case False
    then have "cut_stage place np m new = Some (m, new, Inl EINVAL)"
      using y by (auto simp: cut_stage_def rounded_def drm_buddy_block_trim_def split: list.splits)
    moreover have "parts (view m) (set new) = covered m new" by (rule view_amount(2) [OF m(1,3,4)])
    ultimately show ?thesis using m(1,2) view_gained [OF g] cov by auto
  qed
qed

text \<open>A resource that has been handed out, whatever its counts say.\<close>

definition entered :: "bman \<Rightarrow> bman_res \<Rightarrow> bman \<Rightarrow> bool" where
  "entered bman x bman' \<longleftrightarrow> (\<exists>mm. buddy_wf mm \<and> same_frame (bman_mm bman) mm \<and>
     gives (unat (mm_size (bman_mm bman))) (view (bman_mm bman)) (res_blocks x) (view mm) \<and>
     bman' = bman\<lparr>bman_mm := mm, man_usage := man_usage bman + push_bit PAGE_SHIFT (num_pages x),
       visible_avail := visible_avail bman - used_visible_size x\<rparr>)"

lemma entered_sound: "bman_sound bman rs \<Longrightarrow> entered bman x bman' \<Longrightarrow> bman_sound bman' (x # rs)"
  unfolding entered_def by (elim exE conjE) (rule sound_add [of bman], simp_all)

lemma entered_amount:
  assumes "entered bman x bman'"
  shows "amount (view (bman_mm bman')) (set (res_blocks x)) = card (parts (view (bman_mm bman')) (set (res_blocks x)))"
proof -
  have "buddy_wf (bman_mm bman')" "set (res_blocks x) \<subseteq> dom (owned (view (bman_mm bman')))"
    using assms by (auto simp: entered_def gives_def)
  then show ?thesis using amount_parts [OF view_ok] by simp
qed

lemma entered_ok:
  assumes ok: "bman_ok bman rs" and e: "entered bman x bman'"
    and M: "card (parts (view (bman_mm bman')) (set (res_blocks x))) = unat (num_pages x) * 4096"
    and u: "unat (used_visible_size x) * 4096 = below (sight bman) (view (bman_mm bman')) (set (res_blocks x))"
  shows "bman_ok bman' (x # rs)"
proof -
  obtain mm where mm: "buddy_wf mm" "same_frame (bman_mm bman) mm"
    "gives (unat (mm_size (bman_mm bman))) (view (bman_mm bman)) (res_blocks x) (view mm)"
    "bman' = bman\<lparr>bman_mm := mm, man_usage := man_usage bman + push_bit PAGE_SHIFT (num_pages x),
       visible_avail := visible_avail bman - used_visible_size x\<rparr>" using e by (auto simp: entered_def)
  have "amount (view mm) (set (res_blocks x)) = unat (num_pages x) * 4096" using entered_amount [OF e] M by (simp add: mm(4))
  then show ?thesis using bman_ok_add [OF ok mm(1-3)] u unfolding mm(4) by simp
qed

text \<open>What a call that allocates says and does.\<close>

definition alloc_says :: "bman \<Rightarrow> u64 \<Rightarrow> u32 \<Rightarrow> ttm_place \<Rightarrow> bman \<Rightarrow> bman_res res \<Rightarrow> bool" where
  "alloc_says bman np al place bman' r \<longleftrightarrow>
    (case r of
       Inl e \<Rightarrow> e \<in> {ENOMEM, E2BIG, ENOSPC, EINVAL} \<and>
         (\<exists>mm. bman' = bman\<lparr>bman_mm := mm\<rparr> \<and> buddy_wf mm \<and> same_frame (bman_mm bman) mm \<and> view mm = view (bman_mm bman))
     | Inr x \<Rightarrow> num_pages x = np \<and> entered bman x bman' \<and>
         (case request_size bman np al place of (sz, _, lpf) \<Rightarrow>
           (let M = parts (view (bman_mm bman')) (set (res_blocks x)); F = unat (fpfn place) * 4096
            in (card M = unat np * 4096 \<and> M \<subseteq> {0..<unat lpf * 4096} \<longrightarrow>
                  unat (used_visible_size x) * 4096 = below (sight bman) (view (bman_mm bman')) (set (res_blocks x))) \<and>
               (if uncut bman np al place
                then F + unat sz = unat lpf * 4096 \<and> M \<in> {{F..<F + unat np * 4096}, {F..<F + unat sz}} \<and>
                  (\<not> unat sz dvd F \<longrightarrow> M = {F..<F + unat sz})
                else granted bman np place (unat lpf) M))))"

lemma alloc_result:
  assumes ok: "bman_sound bman rs" and np: "0 < unat np" "unat np < 2 ^ 51"
  shows "\<exists>bman' r. i915_ttm_buddy_man_alloc mem bman np al place = Some (bman', r) \<and> alloc_says bman np al place bman' r"
proof -
  obtain sz mp lpf where rq: "request_size bman np al place = (sz, mp, lpf)" by (cases "request_size bman np al place") auto
  note v = request_values [OF ok np rq]
  note eq = alloc_eq [OF rq v(8), of mem]
  let ?N = "drop_bit (ilog2 (chunk_size (bman_mm bman))) sz"
  have o: "buddy_wf (bman_mm bman)" "plenty (bman_mm bman)" "unat (mm_size (bman_mm bman)) < 2 ^ 32 * unat (chunk_size (bman_mm bman))"
    using ok by (simp_all add: bman_sound_def)
  show ?thesis
  proof (cases "mem \<and> \<not> push_bit PAGE_SHIFT lpf < sz \<and> \<not> (lpf \<le> visible_size bman \<and> visible_avail bman < ?N)")
    case False
    then obtain e where "i915_ttm_buddy_man_alloc mem bman np al place = Some (bman, Inl e)" "e \<in> {ENOMEM, E2BIG, ENOSPC, EINVAL}"
      unfolding eq by (cases mem; cases "push_bit PAGE_SHIFT lpf < sz") simp_all
    moreover have "same_frame (bman_mm bman) (bman_mm bman)" by (simp add: same_frame_def)
    ultimately show ?thesis unfolding alloc_says_def using o(1)
      by (intro exI [of _ bman] exI [of _ "Inl e"] conjI) (auto intro!: exI [of _ "bman_mm bman"])
  next
    case True
    let ?en = "push_bit PAGE_SHIFT lpf"
    have t: "\<not> \<not> mem" "\<not> ?en < sz" "\<not> (lpf \<le> visible_size bman \<and> visible_avail bman < ?N)" using True by blast+
    note eq = eq [unfolded if_not_P [OF t(1)] if_not_P [OF t(2)] if_not_P [OF t(3)]]
    let ?st = "push_bit PAGE_SHIFT (ucast (fpfn place)) :: u64"
    obtain m new e where a: "drm_buddy_alloc_blocks (bman_mm bman) ?st ?en sz mp [] (buddy_flags bman place) = Some (m, new, e)"
      "gained (bman_mm bman) new m"
      "case e of Inr _ \<Rightarrow> request_ok (bman_mm bman) ?st ?en sz mp \<and> blocks_given (bman_mm bman) ?st ?en sz mp (buddy_flags bman place) m new
       | Inl e \<Rightarrow> new = [] \<and> (if request_ok (bman_mm bman) ?st ?en sz mp then e = ENOSPC else e = EINVAL \<and> m = bman_mm bman)"
      using alloc_blocks_any [OF o, of ?st ?en sz mp "[]" "buddy_flags bman place"] unfolding append_Nil by blast
    have m: "buddy_wf m" "same_frame (bman_mm bman) m" using a(2) by (simp_all add: gained_def)
    show ?thesis
    proof (cases e)
      case (Inl er)
      then have n: "new = []" "er \<in> {ENOMEM, E2BIG, ENOSPC, EINVAL}" using a(3) by (auto split: if_splits)
      have vw: "view m = view (bman_mm bman)" by (rule view_same) (use a(2) n in simp)
      have "i915_ttm_buddy_man_alloc mem bman np al place = Some (bman\<lparr>bman_mm := m\<rparr>, Inl er)"
        unfolding eq a(1) Inl n(1) by simp
      then show ?thesis unfolding alloc_says_def using m vw n(2)
        by (intro exI [of _ "bman\<lparr>bman_mm := m\<rparr>"] exI [of _ "Inl er"] conjI) (auto intro!: exI [of _ m])
    next
      case (Inr y)
      then have bg: "bytes m new = unat sz" "if ?st + sz = ?en then covered m new = {unat ?st..<unat ?en}
          else all_blocks (as_asked ?st ?en mp (buddy_flags bman place) m) m new" "request_ok (bman_mm bman) ?st ?en sz mp"
        using a(3) by (simp_all add: blocks_given_def)
      have le: "unat sz \<le> unat lpf * 4096" using t(2) v(7) by (simp add: word_less_nat_alt not_less)
      have whole: "unat (fpfn place) * 4096 + unat sz = unat lpf * 4096" if "?st + sz = ?en"
      proof -
        have "unat ?st + unat sz < 2 ^ 64"
          using bg(3) unsigned_less [of "mm_size (bman_mm bman)", where 'a = nat] by (simp add: request_ok_def)
        then have "unat ?st + unat sz = unat ?en" by (simp add: unat_word_ariths flip: that)
        then show ?thesis unfolding start_bytes v(7) .
      qed
      let ?F = "unat (fpfn place) * 4096"
      obtain m' bl r where c: "cut_stage place np m new = Some (m', bl, r)" "buddy_wf m'" "same_frame (bman_mm bman) m'"
        "gives (unat (mm_size (bman_mm bman))) (view (bman_mm bman)) bl (view m')"
        "if uncut bman np al place then ?F + unat sz = unat lpf * 4096 \<and>
            parts (view m') (set bl) \<in> {{?F..<?F + unat np * 4096}, {?F..<?F + unat sz}} \<and>
            (\<not> unat sz dvd ?F \<longrightarrow> parts (view m') (set bl) = {?F..<?F + unat sz})
         else granted bman np place (unat lpf) (parts (view m') (set bl))"
      proof (cases "uncut bman np al place")
        case True
        then have y: "rounded np place" "?st + sz = ?en" using rq by (simp_all add: uncut_def)
        have "covered m new = {?F..<unat lpf * 4096}" using bg(2) y(2) unfolding start_bytes v(7) by simp
        then show ?thesis using uncut_blocks [OF ok np rq y(1) a(2) whole [OF y(2)]] whole [OF y(2)] True that by fastforce
      next
        case nu: False
        show ?thesis
        proof (cases "rounded np place")
          case y: True
          then have "?st + sz \<noteq> ?en" using nu rq by (simp add: uncut_def)
          then show ?thesis using granted_cut [OF ok np rq y le _ a(2) bg(1)] bg(2) nu that by fastforce
        next
          case n: False
          show ?thesis
          proof (cases "?st + sz = ?en")
            case True
            have "covered m new = {?F..<unat lpf * 4096}" using bg(2) True unfolding start_bytes v(7) by simp
            then show ?thesis using granted_whole [OF ok np rq n a(2) whole [OF True]] nu that by fastforce
          next
            case False
            then have "\<not> contiguous place" using exact_fills [OF ok np rq n] by blast
            then show ?thesis using granted_loose [OF ok np rq _ le a(2) bg(1)] bg(2) False nu that by fastforce
          qed
        qed
      qed
      obtain u where u: "visible_part bman np lpf m' bl = Some u"
        "card (parts (view m') (set bl)) = unat np * 4096 \<and> parts (view m') (set bl) \<subseteq> {0..<unat lpf * 4096} \<longrightarrow>
           unat u * 4096 = below (sight bman) (view m') (set bl)"
        using visible_part_counts [OF ok c(2-4)] by blast
      let ?b = "bman\<lparr>bman_mm := m', man_usage := man_usage bman + push_bit PAGE_SHIFT np, visible_avail := visible_avail bman - u\<rparr>"
      obtain x where x: "i915_ttm_buddy_man_alloc mem bman np al place = Some (?b, Inr x)" "res_blocks x = bl" "num_pages x = np" "used_visible_size x = u"
        unfolding eq using a(1) Inr c(1) u(1) by simp
      have "entered bman x ?b" unfolding entered_def using c(2-4) x(2-4) by blast
      moreover have "bman_mm ?b = m'" by simp
      ultimately show ?thesis unfolding alloc_says_def using x u(2) c(5) rq
        by (intro exI [of _ ?b] exI [of _ "Inr x"]) (simp only: sum.case prod.case Let_def simp_thms)
    qed
  qed
qed

section \<open>Which requests are not cut\<close>

lemma rounded_size:
  "rounded np place \<Longrightarrow> request_size bman np al place = (sz, mp, lpf) \<Longrightarrow> sz = roundup_pow_of_two (push_bit PAGE_SHIFT np)"
  by (simp add: request_size_def rounded_def contiguous_def Let_def)

lemma rounded_up_le:
  assumes "0 < unat np" "unat np < 2 ^ 51"
  shows "unat np * 4096 \<le> unat (roundup_pow_of_two (push_bit PAGE_SHIFT np))"
proof -
  have "unat np * 2 ^ 12 < 2 ^ 64" using assms(2) by simp
  then have "unat (push_bit PAGE_SHIFT np) = unat np * 4096" using unat_push [of np 12] by (simp add: PAGE_SHIFT_def)
  then show ?thesis using roundup_values(1) [of "push_bit PAGE_SHIFT np"] assms by simp
qed

lemma page_sum: "0 < unat np \<Longrightarrow> unat np < 2 ^ 51 \<Longrightarrow> ucast (f :: u32) + np = ucast (l :: u32) \<longleftrightarrow> unat f + unat np = unat l"
  for np :: u64
proof -
  assume np: "unat np < 2 ^ 51"
  have uc: "unat (ucast w :: u64) = unat w" for w :: u32
    using unsigned_less [of w, where 'a = nat] by (simp add: unsigned_ucast_eq take_bit_nat_eq_self)
  have "unat f + unat np < 2 ^ 64" using np unsigned_less [of f, where 'a = nat] by simp
  then have "unat (ucast f + np) = unat f + unat np" by (simp add: unat_word_ariths uc)
  then show ?thesis by (simp add: word_unat_eq_iff uc)
qed

lemma place_lpfn_pages: "lpfn place \<noteq> 0 \<Longrightarrow> unat (place_lpfn bman place) = unat (lpfn place)"
  using unsigned_less [of "lpfn place", where 'a = nat]
  by (simp add: place_lpfn_def unsigned_ucast_eq take_bit_nat_eq_self)

lemma uncut_exact:
  assumes ok: "bman_sound bman rs" and np: "0 < unat np" "unat np < 2 ^ 51" and r: "request_size bman np al place = (sz, mp, lpf)"
    and y: "rounded np place" and e: "unat (fpfn place) * 4096 + unat sz = unat lpf * 4096"
  shows "uncut bman np al place"
proof -
  note v = request_values [OF ok np r]
  have "unat lpf * 4096 < 2 ^ 64" using v(4) by simp
  then have "unat (push_bit PAGE_SHIFT (ucast (fpfn place)) + sz) = unat (push_bit PAGE_SHIFT lpf)"
    unfolding unat_word_ariths start_bytes v(7) e by simp
  then show ?thesis using y r by (simp add: uncut_def word_unat_eq_iff)
qed

text \<open>The granted resource: who holds what, and when the counts are right.\<close>

lemma granted_resource:
  assumes ok: "bman_sound bman rs" and np: "0 < unat np" "unat np < 2 ^ 51"
    and s: "alloc_says bman np al place bman' (Inr x)"
  defines "M \<equiv> parts (view (bman_mm bman')) (set (res_blocks x))" and "F \<equiv> unat (fpfn place) * 4096"
    and "z \<equiv> unat (roundup_pow_of_two (push_bit PAGE_SHIFT np))"
  shows "num_pages x = np" "bman_sound bman' (x # rs)" "entered bman x bman'"
    "uncut bman np al place \<Longrightarrow> \<not> z dvd F \<Longrightarrow> M = {F..<F + z}"
    "bman_ok bman rs \<Longrightarrow>
       if uncut bman np al place then M \<in> {{F..<F + unat np * 4096}, {F..<F + z}} \<and> (bman_ok bman' (x # rs) \<longleftrightarrow> M = {F..<F + unat np * 4096})
       else bman_ok bman' (x # rs) \<and> card M = unat np * 4096 \<and> M \<subseteq> {F..<unat (place_lpfn bman place) * 4096} \<and>
         (contiguous place \<longrightarrow> (\<exists>a. M = {a..<a + unat np * 4096}))"
    "uncut bman np al place \<Longrightarrow> {F..<F + unat np * 4096} \<subseteq> M"
proof -
  obtain sz mp lpf where rq: "request_size bman np al place = (sz, mp, lpf)" by (cases "request_size bman np al place") auto
  note v = request_values [OF ok np rq]
  have g: "num_pages x = np" "entered bman x bman'"
    "card M = unat np * 4096 \<and> M \<subseteq> {0..<unat lpf * 4096} \<longrightarrow>
       unat (used_visible_size x) * 4096 = below (sight bman) (view (bman_mm bman')) (set (res_blocks x))"
    "if uncut bman np al place then F + unat sz = unat lpf * 4096 \<and> M \<in> {{F..<F + unat np * 4096}, {F..<F + unat sz}} \<and>
        (\<not> unat sz dvd F \<longrightarrow> M = {F..<F + unat sz})
     else granted bman np place (unat lpf) M"
    using s unfolding alloc_says_def sum.case rq prod.case Let_def M_def [symmetric] F_def [symmetric] by blast+
  show "num_pages x = np" "entered bman x bman'" by (rule g(1,2))+
  show sd: "bman_sound bman' (x # rs)" by (rule entered_sound [OF ok g(2)])
  have z: "unat sz = z" if "uncut bman np al place" using that rounded_size [OF _ rq] by (simp add: uncut_def z_def)
  show "M = {F..<F + z}" if "uncut bman np al place" "\<not> z dvd F" using g(4) that z by simp
  show "{F..<F + unat np * 4096} \<subseteq> M" if "uncut bman np al place" using g(4) that v(1) by auto
  assume b: "bman_ok bman rs"
  have enter: "bman_ok bman' (x # rs)" if "card M = unat np * 4096" "M \<subseteq> {0..<unat lpf * 4096}"
    using entered_ok [OF b g(2)] g(1,3) that unfolding M_def by blast
  show "if uncut bman np al place then M \<in> {{F..<F + unat np * 4096}, {F..<F + z}} \<and> (bman_ok bman' (x # rs) \<longleftrightarrow> M = {F..<F + unat np * 4096})
       else bman_ok bman' (x # rs) \<and> card M = unat np * 4096 \<and> M \<subseteq> {F..<unat (place_lpfn bman place) * 4096} \<and>
         (contiguous place \<longrightarrow> (\<exists>a. M = {a..<a + unat np * 4096}))"
  proof (cases "uncut bman np al place")
    case True
    then have u: "F + unat sz = unat lpf * 4096" "M \<in> {{F..<F + unat np * 4096}, {F..<F + unat sz}}"
      using g(4) unfolding if_P [OF True] by blast+
    have "card M = unat np * 4096" if "bman_ok bman' (x # rs)"
    proof -
      have "res_ok bman' x" using that by (simp add: bman_ok_def)
      then show ?thesis using entered_amount [OF g(2)] g(1) by (simp add: res_ok_def M_def)
    qed
    then have "bman_ok bman' (x # rs) \<longleftrightarrow> M = {F..<F + unat np * 4096}"
      using enter u v(1) by (auto simp: z [OF True])
    then show ?thesis using u(2) True z [OF True] by simp
  next
    case False
    then have gr: "granted bman np place (unat lpf) M" using g(4) by simp
    then have "bman_ok bman' (x # rs)" using enter by (simp add: granted_def)
    then show ?thesis using gr False by (simp add: granted_def F_def)
  qed
qed

text \<open>The rounded size fills the range.\<close>

lemma uncut_fills:
  assumes ok: "bman_sound bman rs" and np: "0 < unat np" "unat np < 2 ^ 51" and c: "contiguous place"
  defines "sz \<equiv> unat (roundup_pow_of_two (push_bit PAGE_SHIFT np))"
  assumes f: "unat (fpfn place) * 4096 + sz = unat (place_lpfn bman place) * 4096" and n: "sz \<noteq> unat np * 4096"
  shows "uncut bman np al place"
proof -
  have "unat (fpfn place) + unat np \<noteq> unat (lpfn place)"
  proof
    assume a: "unat (fpfn place) + unat np = unat (lpfn place)"
    then have "lpfn place \<noteq> 0" using np(1) by auto
    then show False using f n a place_lpfn_pages [of place bman] by auto
  qed
  then have y: "rounded np place" using c page_sum [OF np] by (simp add: rounded_def)
  obtain z mp lpf where rq: "request_size bman np al place = (z, mp, lpf)" by (cases "request_size bman np al place") auto
  note v = request_values [OF ok np rq]
  have z: "unat z = sz" using rounded_size [OF y rq] by (simp add: sz_def)
  then have "unat lpf = unat (place_lpfn bman place)" using v(6) y f by (simp add: max_def split: if_splits)
  then show ?thesis using uncut_exact [OF ok np rq y] f z by simp
qed

text \<open>More pages than the place has, from page 0 on.\<close>

lemma uncut_beyond:
  assumes ok: "bman_sound bman rs" and np: "0 < unat np" "unat np < 2 ^ 51" and c: "contiguous place"
    and p: "fpfn place = 0" "0 < lpfn place" "unat (lpfn place) < unat np"
  shows "uncut bman np al place" "i915_ttm_buddy_man_alloc mem bman np al place \<noteq> Some (bman', Inl E2BIG)"
proof -
  have "ucast (fpfn place) + np \<noteq> ucast (lpfn place)" unfolding page_sum [OF np] using p by simp
  then have y: "rounded np place" using c by (simp add: rounded_def)
  obtain sz mp lpf where rq: "request_size bman np al place = (sz, mp, lpf)" by (cases "request_size bman np al place") auto
  note v = request_values [OF ok np rq]
  have "unat (place_lpfn bman place) = unat (lpfn place)" using p(2) by (intro place_lpfn_pages) auto
  moreover have "unat np \<le> unat sz div 4096" using v(1) by linarith
  ultimately have "unat lpf = unat sz div 4096" using v(6) y p(3) by (simp add: max_def)
  then have l: "unat lpf * 4096 = unat sz" using v(3) by simp
  then show "uncut bman np al place" by (intro uncut_exact [OF ok np rq y]) (simp add: p(1))
  have big: "\<not> push_bit PAGE_SHIFT lpf < sz" using v(7) l by (simp add: word_less_nat_alt)
  have o: "buddy_wf (bman_mm bman)" "plenty (bman_mm bman)" "unat (mm_size (bman_mm bman)) < 2 ^ 32 * unat (chunk_size (bman_mm bman))"
    using ok by (simp_all add: bman_sound_def)
  let ?st = "push_bit PAGE_SHIFT (ucast (fpfn place)) :: u64" and ?en = "push_bit PAGE_SHIFT lpf"
  obtain m new e where a: "drm_buddy_alloc_blocks (bman_mm bman) ?st ?en sz mp [] (buddy_flags bman place) = Some (m, new, e)"
    "case e of Inr _ \<Rightarrow> True | Inl e \<Rightarrow> e = ENOSPC \<or> e = EINVAL"
    using alloc_blocks_any [OF o, of ?st ?en sz mp "[]" "buddy_flags bman place"] unfolding append_Nil
    by (fastforce split: sum.splits if_splits)
  show "i915_ttm_buddy_man_alloc mem bman np al place \<noteq> Some (bman', Inl E2BIG)"
    unfolding alloc_eq [OF rq v(8)] a(1) using big a(2) by (auto split: sum.splits bind_splits)
qed

end
