(* ===== verification/Ttm_Buddy_Rest.thy ===== *)
theory Ttm_Buddy_Rest
  imports Ttm_Buddy_Calls
begin

text \<open>Freeing, setting up, reserving, and asking where a resource lies.\<close>

section \<open>Freeing\<close>

text \<open>The manager without a resource that has been freed.\<close>

definition left :: "bman \<Rightarrow> bman_res \<Rightarrow> bman \<Rightarrow> bool" where
  "left bman r bman' \<longleftrightarrow> (\<exists>mm. buddy_wf mm \<and> same_frame (bman_mm bman) mm \<and>
     takes_back (view (bman_mm bman)) (res_blocks r) (view mm) \<and>
     bman' = bman\<lparr>bman_mm := mm, man_usage := man_usage bman - push_bit PAGE_SHIFT (num_pages r),
       visible_avail := visible_avail bman + used_visible_size r\<rparr>)"

lemma free_result:
  assumes ok: "bman_sound bman rs" and r: "r \<in> set rs"
  shows "\<exists>bman'. i915_ttm_buddy_man_free bman r = Some bman' \<and> left bman r bman' \<and> bman_sound bman' (remove1 r rs) \<and>
    (bman_ok bman rs \<longrightarrow> bman_ok bman' (remove1 r rs))"
proof -
  have wf: "buddy_wf (bman_mm bman)" using ok by (simp add: bman_sound_def)
  have h: "distinct (held bman rs)" "set (held bman rs) = allocated (bman_mm bman)" using ok by (simp_all add: bman_sound_def)
  obtain xs ys where "rs = xs @ r # ys" using split_list [OF r] by blast
  then have "held bman rs = (reserved bman @ concat (map res_blocks xs)) @ res_blocks r @ concat (map res_blocks ys)" by (simp add: held_def)
  then have ps: "distinct (res_blocks r)" "set (res_blocks r) \<subseteq> allocated (bman_mm bman)" using h by (simp, fastforce)
  obtain mm where m: "drm_buddy_free_list (bman_mm bman) (res_blocks r) = Some mm" "gives_back (bman_mm bman) (res_blocks r) mm"
    using free_list_gives_back [OF wf ps] by blast
  have t: "takes_back (view (bman_mm bman)) (res_blocks r) (view mm)" by (rule view_gives_back [OF wf ps m(2)])
  have w: "buddy_wf mm" "same_frame (bman_mm bman) mm" using m(2) by (simp_all add: gives_back_def)
  let ?b = "bman\<lparr>bman_mm := mm, man_usage := man_usage bman - push_bit PAGE_SHIFT (num_pages r), visible_avail := visible_avail bman + used_visible_size r\<rparr>"
  have "i915_ttm_buddy_man_free bman r = Some ?b" using m(1) by (simp add: i915_ttm_buddy_man_free_def resource_fini_def)
  moreover have "left bman r ?b" using w t by (auto simp: left_def)
  moreover have "bman_sound ?b (remove1 r rs)" by (rule sound_drop [OF ok r w t]) simp_all
  ultimately show ?thesis using bman_ok_drop [OF _ r w t] by blast
qed

text \<open>Freeing what was just handed out.\<close>

lemma enter_leave:
  assumes wf: "buddy_wf (bman_mm bman)" and e: "entered bman x bman'" and l: "left bman' x bman''"
  shows "view (bman_mm bman'') = view (bman_mm bman)"
    "\<exists>mm. buddy_wf mm \<and> same_frame (bman_mm bman) mm \<and> bman'' = bman\<lparr>bman_mm := mm\<rparr>"
proof -
  obtain m where m: "same_frame (bman_mm bman) m" "gives (unat (mm_size (bman_mm bman))) (view (bman_mm bman)) (res_blocks x) (view m)"
    "bman' = bman\<lparr>bman_mm := m, man_usage := man_usage bman + push_bit PAGE_SHIFT (num_pages x),
       visible_avail := visible_avail bman - used_visible_size x\<rparr>" using e by (auto simp: entered_def)
  obtain k where k: "buddy_wf k" "same_frame m k" "takes_back (view m) (res_blocks x) (view k)" "bman'' = bman\<lparr>bman_mm := k\<rparr>"
    using l unfolding left_def m(3) by auto
  have "view k = view (bman_mm bman)"
    by (rule vram.equality) (use gives_takes_back [OF view_ok [OF wf] m(2) k(3)] in simp_all)
  then show "view (bman_mm bman'') = view (bman_mm bman)" by (simp add: k(4))
  show "\<exists>mm. buddy_wf mm \<and> same_frame (bman_mm bman) mm \<and> bman'' = bman\<lparr>bman_mm := mm\<rparr>"
    using k same_frame_trans [OF m(1) k(2)] by blast
qed

section \<open>Setting up\<close>

lemma init_result:
  assumes pl: "plenty mm" "slab mm = Map.empty" and c: "0x1000 \<le> sz" "unat sz < 2 ^ 44"
  shows "\<exists>bman. i915_ttm_buddy_man_init True True True mm sz visible page_size 0x1000 = Some (Inr bman) \<and> bman_ok bman [] \<and>
    visible_size bman = drop_bit PAGE_SHIFT visible"
proof -
  have pw: "is_power_of_2 (0x1000 :: u64)" by (simp add: is_power_of_2_def)
  obtain m where m: "drm_buddy_init True True mm sz 0x1000 = Some (m, Inr ())" "buddy_wf m" "plenty m" "allocated m = {}"
    "unat (mm_size m) = unat sz div unat (0x1000 :: u64) * unat (0x1000 :: u64)" "chunk_size m = 0x1000"
    using drm_buddy_init_wf [OF pl c(1) _ pw] by auto
  have s: "unat (mm_size m) = unat sz div 4096 * 4096" using m(5) by simp
  let ?b = "\<lparr>bman_mm = m, man_size = drop_bit PAGE_SHIFT (mm_size m), man_usage = 0, reserved = [],
    visible_size = drop_bit PAGE_SHIFT visible, visible_avail = drop_bit PAGE_SHIFT visible, visible_reserved = 0, default_page_size = page_size\<rparr>"
  have ms: "unat (man_size ?b) = unat sz div 4096" by (simp add: unat_drop PAGE_SHIFT_def s)
  have "bman_ok ?b []"
    unfolding bman_ok_def bman_sound_def ms using m s c(2) by (simp add: held_def sight_def below_def parts_def)
  moreover have "i915_ttm_buddy_man_init True True True mm sz visible page_size 0x1000 = Some (Inr ?b)"
    using m(1) by (simp add: i915_ttm_buddy_man_init_def Let_def)
  ultimately show ?thesis by (intro exI [of _ ?b]) simp
qed

section \<open>Reserving\<close>

lemma reserve_result:
  fixes start sz :: u64
  assumes ok: "bman_sound bman rs"
  defines "f \<equiv> drop_bit PAGE_SHIFT start" and "n \<equiv> min (drop_bit PAGE_SHIFT start + drop_bit PAGE_SHIFT sz) (visible_size bman) - drop_bit PAGE_SHIFT start"
  shows "\<exists>mm new e. i915_ttm_buddy_man_reserve bman start sz =
      Some (let b = bman\<lparr>bman_mm := mm, reserved := reserved bman @ new\<rparr>
            in if f < visible_size bman then b\<lparr>visible_reserved := visible_reserved bman + n, visible_avail := visible_avail bman - n\<rparr> else b, e) \<and>
    gained (bman_mm bman) new mm \<and>
    (case e of Inl _ \<Rightarrow> new = []
     | Inr _ \<Rightarrow> request_ok (bman_mm bman) start (start + sz) sz 0x1000 \<and> covered mm new = {unat start..<unat (start + sz)})"
proof -
  have o: "buddy_wf (bman_mm bman)" "plenty (bman_mm bman)" "unat (mm_size (bman_mm bman)) < 2 ^ 32 * unat (chunk_size (bman_mm bman))"
    "chunk_size (bman_mm bman) = 0x1000" using ok by (simp_all add: bman_sound_def)
  obtain mm new e where a: "drm_buddy_alloc_blocks (bman_mm bman) start (start + sz) sz (chunk_size (bman_mm bman)) (reserved bman)
      DRM_BUDDY_RANGE_ALLOCATION = Some (mm, reserved bman @ new, e)" "gained (bman_mm bman) new mm"
    "case e of Inr _ \<Rightarrow> request_ok (bman_mm bman) start (start + sz) sz (chunk_size (bman_mm bman)) \<and>
         blocks_given (bman_mm bman) start (start + sz) sz (chunk_size (bman_mm bman)) DRM_BUDDY_RANGE_ALLOCATION mm new
     | Inl e \<Rightarrow> new = [] \<and> (if request_ok (bman_mm bman) start (start + sz) sz (chunk_size (bman_mm bman)) then e = ENOSPC else e = EINVAL \<and> mm = bman_mm bman)"
    using alloc_blocks_any [OF o(1-3), of start "start + sz" sz "chunk_size (bman_mm bman)" "reserved bman" DRM_BUDDY_RANGE_ALLOCATION] by blast
  have "case e of Inl _ \<Rightarrow> new = []
     | Inr _ \<Rightarrow> request_ok (bman_mm bman) start (start + sz) sz 0x1000 \<and> covered mm new = {unat start..<unat (start + sz)}"
    using a(3) o(4) by (cases e) (simp_all add: blocks_given_def)
  moreover have "i915_ttm_buddy_man_reserve bman start sz =
      Some (let b = bman\<lparr>bman_mm := mm, reserved := reserved bman @ new\<rparr>
            in if f < visible_size bman then b\<lparr>visible_reserved := visible_reserved bman + n, visible_avail := visible_avail bman - n\<rparr> else b, e)"
    using a(1) unfolding i915_ttm_buddy_man_reserve_def Let_def f_def n_def by simp
  ultimately show ?thesis using a(2) by blast
qed

text \<open>The pages counted for a range that was reserved.\<close>

lemma reserved_count:
  fixes start sz :: u64
  assumes ok: "bman_sound bman rs" and r: "request_ok (bman_mm bman) start (start + sz) sz 0x1000" and g: "gained (bman_mm bman) new mm"
    and c: "covered mm new = {unat start..<unat (start + sz)}"
  defines "f \<equiv> drop_bit PAGE_SHIFT start" and "n \<equiv> min (drop_bit PAGE_SHIFT start + drop_bit PAGE_SHIFT sz) (visible_size bman) - drop_bit PAGE_SHIFT start"
  shows "below (sight bman) (view mm) (set new) = (if f < visible_size bman then unat n * 4096 else 0)"
proof -
  have k: "4096 dvd unat start" "4096 dvd unat sz" "unat start + unat sz \<le> unat (mm_size (bman_mm bman))"
    using r ok by (simp_all add: request_ok_def bman_sound_def)
  have lt: "unat start + unat sz < 2 ^ 64" using k(3) unsigned_less [of "mm_size (bman_mm bman)", where 'a = nat] by simp
  then have e: "unat (start + sz) = unat start + unat sz" by (simp add: unat_word_ariths)
  have d: "unat f = unat start div 4096" "unat (drop_bit PAGE_SHIFT sz) = unat sz div 4096" by (simp_all add: f_def unat_drop PAGE_SHIFT_def)
  obtain a l where al: "unat start = 4096 * a" "unat sz = 4096 * l" using k(1,2) by (auto elim!: dvdE)
  have u: "unat (f + drop_bit PAGE_SHIFT sz) = a + l" using d al lt by (simp add: unat_word_ariths)
  have "parts (view mm) (set new) = covered mm new"
    by (rule view_amount(2)) (use g in \<open>auto simp: gained_def\<close>)
  then have b: "below (sight bman) (view mm) (set new) = card ({4096 * a..<4096 * (a + l)} \<inter> {0..<unat (visible_size bman) * 4096})"
    using c e al by (simp add: below_def sight_def algebra_simps)
  have "{4096 * a..<4096 * (a + l)} \<inter> {0..<unat (visible_size bman) * 4096} = {4096 * a..<4096 * min (a + l) (unat (visible_size bman))}"
    by (auto simp: min_def)
  then have b: "below (sight bman) (view mm) (set new) = 4096 * (min (a + l) (unat (visible_size bman)) - a)"
    using b by (simp add: diff_mult_distrib2)
  have fa: "unat f = a" using d al by simp
  show ?thesis
  proof (cases "f < visible_size bman")
    case True
    then have "a < unat (visible_size bman)" using fa by (simp add: word_less_nat_alt)
    moreover have "unat (min (f + drop_bit PAGE_SHIFT sz) (visible_size bman)) = min (a + l) (unat (visible_size bman))"
      using u by (simp add: min_def word_le_nat_alt)
    ultimately have "unat n = min (a + l) (unat (visible_size bman)) - a"
      unfolding n_def f_def [symmetric] using fa by (simp add: unat_sub word_le_nat_alt)
    then show ?thesis using b True by simp
  next
    case False
    then show ?thesis using b fa by (simp add: word_less_nat_alt)
  qed
qed

lemma reserve_succeeds:
  assumes ok: "bman_sound bman rs" and r: "i915_ttm_buddy_man_reserve bman start sz = Some (bman', Inr ())"
  shows "bman_sound bman' rs \<and> (bman_ok bman rs \<longrightarrow> bman_ok bman' rs) \<and> visible_size bman' = visible_size bman \<and>
    (\<exists>new. reserved bman' = reserved bman @ new \<and> parts (view (bman_mm bman')) (set new) = {unat start..<unat (start + sz)})"
proof -
  define f where "f = drop_bit PAGE_SHIFT start"
  define n where "n = min (f + drop_bit PAGE_SHIFT sz) (visible_size bman) - f"
  define u where "u = (if f < visible_size bman then n else 0)"
  obtain mm new e where a: "i915_ttm_buddy_man_reserve bman start sz =
      Some (let b = bman\<lparr>bman_mm := mm, reserved := reserved bman @ new\<rparr>
            in if f < visible_size bman then b\<lparr>visible_reserved := visible_reserved bman + n, visible_avail := visible_avail bman - n\<rparr> else b, e)"
    "gained (bman_mm bman) new mm"
    "case e of Inl _ \<Rightarrow> new = []
     | Inr _ \<Rightarrow> request_ok (bman_mm bman) start (start + sz) sz 0x1000 \<and> covered mm new = {unat start..<unat (start + sz)}"
    using reserve_result [OF ok, of start sz] unfolding f_def n_def by blast
  have e: "e = Inr ()" using a(1) r by simp
  have b: "bman' = bman\<lparr>bman_mm := mm, reserved := reserved bman @ new, visible_reserved := visible_reserved bman + u,
      visible_avail := visible_avail bman - u\<rparr>"
    using a(1) r unfolding u_def Let_def by (cases "f < visible_size bman") simp_all
  have q: "request_ok (bman_mm bman) start (start + sz) sz 0x1000" "covered mm new = {unat start..<unat (start + sz)}" using a(3) e by simp_all
  have "unat u * 4096 = below (sight bman) (view mm) (set new)"
    using reserved_count [OF ok q(1) a(2) q(2)] unfolding u_def n_def f_def by simp
  moreover have m: "buddy_wf mm" "same_frame (bman_mm bman) mm" "distinct new" "set new \<subseteq> allocated mm" using a(2) by (auto simp: gained_def)
  ultimately have "bman_ok bman rs \<longrightarrow> bman_ok bman' rs" unfolding b by (intro impI bman_ok_reserve view_gained a(2))
  moreover have "bman_sound bman' rs"
    by (rule sound_reserve [OF ok m(1,2) view_gained [OF a(2)]]) (simp_all add: b)
  moreover have "parts (view mm) (set new) = {unat start..<unat (start + sz)}" using view_amount(2) [OF m(1,3,4)] q(2) by simp
  ultimately show ?thesis unfolding b by simp
qed

lemma reserve_refused:
  assumes ok: "bman_sound bman rs" and r: "i915_ttm_buddy_man_reserve bman start sz = Some (bman', Inl e)"
  shows "bman_sound bman' rs \<and> view (bman_mm bman') = view (bman_mm bman) \<and>
    (bman_ok bman rs \<and> \<not> drop_bit PAGE_SHIFT start < visible_size bman \<longrightarrow> bman_ok bman' rs)"
proof -
  define f where "f = drop_bit PAGE_SHIFT start"
  define n where "n = min (f + drop_bit PAGE_SHIFT sz) (visible_size bman) - f"
  obtain mm new e' where a: "i915_ttm_buddy_man_reserve bman start sz =
      Some (let b = bman\<lparr>bman_mm := mm, reserved := reserved bman @ new\<rparr>
            in if f < visible_size bman then b\<lparr>visible_reserved := visible_reserved bman + n, visible_avail := visible_avail bman - n\<rparr> else b, e')"
    "gained (bman_mm bman) new mm" "case e' of Inl _ \<Rightarrow> new = [] | Inr _ \<Rightarrow> True"
    using reserve_result [OF ok, of start sz] unfolding f_def n_def by (fastforce split: sum.splits)
  have new: "new = []" using a(1,3) r by auto
  have b: "bman' = (if f < visible_size bman
      then bman\<lparr>bman_mm := mm, visible_reserved := visible_reserved bman + n, visible_avail := visible_avail bman - n\<rparr> else bman\<lparr>bman_mm := mm\<rparr>)"
    using a(1) r new by (auto simp: Let_def)
  have m: "buddy_wf mm" "same_frame (bman_mm bman) mm" using a(2) by (auto simp: gained_def)
  have v: "view mm = view (bman_mm bman)" by (rule view_same) (use a(2) new in simp)
  have "bman_sound bman' rs" by (rule sound_same [OF ok m v]) (simp_all add: b)
  then show ?thesis using bman_ok_same [OF _ m v] v unfolding b f_def by auto
qed

text \<open>A call that fails still counts the pages of the range.\<close>

lemma reserve_fails:
  assumes ok: "bman_ok bman rs" and r: "i915_ttm_buddy_man_reserve bman start sz = Some (bman', Inl e)"
    and f: "drop_bit PAGE_SHIFT start < visible_size bman" "0x1000 \<le> sz" "unat start + unat sz < 2 ^ 64"
  shows "visible_avail bman' \<noteq> visible_avail bman" "view (bman_mm bman') = view (bman_mm bman)" "\<not> bman_ok bman' rs'"
proof -
  define f where "f = drop_bit PAGE_SHIFT start"
  define n where "n = min (f + drop_bit PAGE_SHIFT sz) (visible_size bman) - f"
  obtain mm new e' where a: "i915_ttm_buddy_man_reserve bman start sz =
      Some (let b = bman\<lparr>bman_mm := mm, reserved := reserved bman @ new\<rparr>
            in if f < visible_size bman then b\<lparr>visible_reserved := visible_reserved bman + n, visible_avail := visible_avail bman - n\<rparr> else b, e')"
    "gained (bman_mm bman) new mm" "case e' of Inl _ \<Rightarrow> new = [] | Inr _ \<Rightarrow> True"
    using reserve_result [OF bman_ok_sound [OF ok], of start sz] unfolding f_def n_def by (fastforce split: sum.splits)
  have new: "new = []" using a(1,3) r by auto
  then have b: "bman' = bman\<lparr>bman_mm := mm, visible_reserved := visible_reserved bman + n, visible_avail := visible_avail bman - n\<rparr>"
    using a(1) r f(1) by (simp add: f_def Let_def)
  have "unat f + unat (drop_bit PAGE_SHIFT sz) < 2 ^ 64" using f(3) by (simp add: f_def unat_drop PAGE_SHIFT_def)
  then have "unat (f + drop_bit PAGE_SHIFT sz) = unat f + unat (drop_bit PAGE_SHIFT sz)" by (simp add: unat_word_ariths)
  moreover have "0 < unat (drop_bit PAGE_SHIFT sz)" using f(2) by (simp add: unat_drop PAGE_SHIFT_def word_le_nat_alt div_greater_zero_iff)
  ultimately have "f < f + drop_bit PAGE_SHIFT sz" by (simp add: word_less_nat_alt)
  then have n: "n \<noteq> 0" using f(1) unfolding n_def f_def [symmetric] by (auto simp: min_def)
  then show "visible_avail bman' \<noteq> visible_avail bman" unfolding b by simp
  have v: "view mm = view (bman_mm bman)" by (rule view_same) (use a(2) new in simp)
  then show "view (bman_mm bman') = view (bman_mm bman)" unfolding b by simp
  show "\<not> bman_ok bman' rs'"
  proof
    assume k: "bman_ok bman' rs'"
    have s: "sight bman' = sight bman" "reserved bman' = reserved bman" "view (bman_mm bman') = view (bman_mm bman)" using v by (simp_all add: b sight_def)
    have "unat (visible_reserved bman') * 4096 = below (sight bman') (view (bman_mm bman')) (set (reserved bman'))"
      "unat (visible_reserved bman) * 4096 = below (sight bman) (view (bman_mm bman)) (set (reserved bman))"
      using k ok unfolding bman_ok_def by blast+
    then have "unat (visible_reserved bman') = unat (visible_reserved bman)" unfolding s by simp
    then show False using n unfolding b by (simp add: word_unat_eq_iff [symmetric])
  qed
qed

section \<open>Where a resource lies\<close>

text \<open>The bytes a place speaks of; without limits it is all memory.\<close>

definition place_bytes :: "ttm_place \<Rightarrow> nat set" where
  "place_bytes place = (if fpfn place = 0 \<and> lpfn place = 0 then UNIV else {unat (fpfn place) * 4096..<unat (lpfn place) * 4096})"

lemma any_block_iff:
  assumes wf: "buddy_wf mm" and c: "chunk_size mm = 0x1000" and ps: "set ps \<subseteq> allocated mm"
    and Q: "\<And>s e. s < e \<Longrightarrow> P s e \<longleftrightarrow> Q {unat s * 4096..<unat e * 4096}"
  shows "any_block mm P ps = Some (\<exists>p\<in>set ps. Q (bytes_of mm p))"
  using ps
proof (induction ps)
  case (Cons p ps)
  then obtain b where b: "slab mm p = Some b" by (auto simp: allocated_def)
  note m = page_multiples [OF wf c b]
  have pos: "0 < len mm b" by (rule len_pos [OF wf_block(3) [OF wf b]])
  define s where "s = drop_bit PAGE_SHIFT (drm_buddy_block_offset b)"
  define e where "e = s + drop_bit PAGE_SHIFT (drm_buddy_block_size mm b)"
  have s: "unat s * 4096 = off b" using m(1,3) by (simp add: s_def)
  have "unat s + unat (drop_bit PAGE_SHIFT (drm_buddy_block_size mm b)) < 2 ^ 64"
    using m(5) unfolding s_def m(3,4) by simp
  then have "unat e = unat s + len mm b div 4096" by (simp add: e_def unat_word_ariths m(4))
  then have e: "unat e * 4096 = off b + len mm b" using s m(2) by (simp add: add_mult_distrib)
  have bo: "bytes_of mm p = {unat s * 4096..<unat e * 4096}" using b s e by (simp add: bytes_of_def ival_def)
  have lt: "s < e" using s e pos by (simp add: word_less_nat_alt)
  have P: "P s e \<longleftrightarrow> Q (bytes_of mm p)" unfolding bo by (rule Q [OF lt])
  have a: "any_block mm P (p # ps) = (if P s e then Some True else any_block mm P ps)" using b by (simp add: Let_def s_def e_def)
  then show ?case using P Cons by simp
qed simp

lemma ucast_less: "ucast (w :: u32) < (s :: u64) \<longleftrightarrow> unat w < unat s" "s < ucast w \<longleftrightarrow> unat s < unat w"
    "ucast w = s \<longleftrightarrow> unat w = unat s"
proof -
  have "unat (ucast w :: u64) = unat w"
    using unsigned_less [of w, where 'a = nat] by (simp add: unsigned_ucast_eq take_bit_nat_eq_self)
  then show "ucast w < s \<longleftrightarrow> unat w < unat s" "s < ucast w \<longleftrightarrow> unat s < unat w" "ucast w = s \<longleftrightarrow> unat w = unat s"
    by (simp_all add: word_less_nat_alt word_unat_eq_iff)
qed

lemma resource_facts:
  assumes ok: "bman_ok bman rs" and r: "r \<in> set rs"
  shows "buddy_wf (bman_mm bman)" "chunk_size (bman_mm bman) = 0x1000" "set (res_blocks r) \<subseteq> allocated (bman_mm bman)"
    "parts (view (bman_mm bman)) (set (res_blocks r)) = (\<Union>p\<in>set (res_blocks r). bytes_of (bman_mm bman) p)"
    "card (parts (view (bman_mm bman)) (set (res_blocks r))) = unat (num_pages r) * 4096"
    "finite (parts (view (bman_mm bman)) (set (res_blocks r)))" "res_ok bman r"
proof -
  show wf: "buddy_wf (bman_mm bman)" "chunk_size (bman_mm bman) = 0x1000" and ro: "res_ok bman r"
    using ok r unfolding bman_ok_def bman_sound_def by blast+
  have "set (held bman rs) = allocated (bman_mm bman)" using ok by (simp add: bman_ok_def bman_sound_def)
  then show s: "set (res_blocks r) \<subseteq> allocated (bman_mm bman)" using r by (fastforce simp: held_def)
  then show "parts (view (bman_mm bman)) (set (res_blocks r)) = (\<Union>p\<in>set (res_blocks r). bytes_of (bman_mm bman) p)"
    unfolding parts_def by (intro SUP_cong refl) (auto simp: view_owned)
  note v = view_ok [OF wf(1)]
  have d: "set (res_blocks r) \<subseteq> dom (owned (view (bman_mm bman)))" using s by simp
  show "card (parts (view (bman_mm bman)) (set (res_blocks r))) = unat (num_pages r) * 4096"
    using amount_parts [OF v d] ro by (simp add: res_ok_def)
  show "finite (parts (view (bman_mm bman)) (set (res_blocks r)))" by (rule finite_subset [OF parts_within [OF v d]]) simp
qed

lemma intersects_iff:
  assumes ok: "bman_ok bman rs" and r: "r \<in> set rs" and pos: "0 < num_pages r"
    and pl: "fpfn place < lpfn place \<or> fpfn place = 0 \<and> lpfn place = 0"
  shows "i915_ttm_buddy_man_intersects bman r place = Some (parts (view (bman_mm bman)) (set (res_blocks r)) \<inter> place_bytes place \<noteq> {})"
proof -
  note f = resource_facts [OF ok r]
  let ?M = "parts (view (bman_mm bman)) (set (res_blocks r))"
  consider (all) "fpfn place = 0 \<and> lpfn place = 0" | (sight) "\<not> (fpfn place = 0 \<and> lpfn place = 0)" "lpfn place \<noteq> 0" "fpfn place = 0 \<and> ucast (lpfn place) = visible_size bman"
    | (scan) "\<not> (fpfn place = 0 \<and> lpfn place = 0)" "lpfn place \<noteq> 0" "\<not> (fpfn place = 0 \<and> ucast (lpfn place) = visible_size bman)"
    using pl by fastforce
  then show ?thesis
  proof cases
    case all
    have "?M \<noteq> {}" using f(5) pos by (auto simp: word_less_nat_alt)
    then show ?thesis using all by (simp add: i915_ttm_buddy_man_intersects_def place_bytes_def)
  next
    case sight
    then have pb: "place_bytes place = {0..<sight bman}" unfolding place_bytes_def sight_def ucast_less(3) by simp
    have "0 < used_visible_size r \<longleftrightarrow> 0 < card (?M \<inter> {0..<sight bman})"
      using f(7) unfolding res_ok_def below_def by (auto simp: word_less_nat_alt)
    then show ?thesis using sight f(6) unfolding pb i915_ttm_buddy_man_intersects_def by (simp add: card_gt_0_iff)
  next
    case scan
    have "any_block (bman_mm bman) (\<lambda>first stop. ucast (fpfn place) < stop \<and> first < ucast (lpfn place)) (res_blocks r) =
        Some (\<exists>p\<in>set (res_blocks r). bytes_of (bman_mm bman) p \<inter> {unat (fpfn place) * 4096..<unat (lpfn place) * 4096} \<noteq> {})"
    proof (rule any_block_iff [OF f(1-3)])
      show "(ucast (fpfn place) < e \<and> s < ucast (lpfn place)) \<longleftrightarrow>
          {unat s * 4096..<unat e * 4096} \<inter> {unat (fpfn place) * 4096..<unat (lpfn place) * 4096} \<noteq> {}" if "s < e" for s e :: u64
        using that pl unfolding ucast_less by (auto simp: word_less_nat_alt Int_atLeastLessThan)
    qed
    also have "\<dots> = Some (?M \<inter> place_bytes place \<noteq> {})" unfolding f(4) place_bytes_def if_not_P [OF scan(1)] by blast
    finally show ?thesis unfolding i915_ttm_buddy_man_intersects_def if_not_P [OF scan(1)] if_not_P [OF scan(2)] if_not_P [OF scan(3)] .
  qed
qed

lemma compatible_iff:
  assumes ok: "bman_ok bman rs" and r: "r \<in> set rs"
    and pl: "fpfn place < lpfn place \<or> fpfn place = 0 \<and> lpfn place = 0"
  shows "i915_ttm_buddy_man_compatible bman r place = Some (parts (view (bman_mm bman)) (set (res_blocks r)) \<subseteq> place_bytes place)"
proof -
  note f = resource_facts [OF ok r]
  let ?M = "parts (view (bman_mm bman)) (set (res_blocks r))"
  consider (all) "fpfn place = 0 \<and> lpfn place = 0" | (sight) "\<not> (fpfn place = 0 \<and> lpfn place = 0)" "lpfn place \<noteq> 0" "fpfn place = 0 \<and> ucast (lpfn place) = visible_size bman"
    | (scan) "\<not> (fpfn place = 0 \<and> lpfn place = 0)" "lpfn place \<noteq> 0" "\<not> (fpfn place = 0 \<and> ucast (lpfn place) = visible_size bman)"
    using pl by fastforce
  then show ?thesis
  proof cases
    case all
    then show ?thesis by (simp add: i915_ttm_buddy_man_compatible_def place_bytes_def)
  next
    case sight
    then have pb: "place_bytes place = {0..<sight bman}" unfolding place_bytes_def sight_def ucast_less(3) by simp
    have "used_visible_size r = num_pages r \<longleftrightarrow> card (?M \<inter> {0..<sight bman}) = card ?M"
      using f(7) unfolding f(5) res_ok_def below_def word_unat_eq_iff by linarith
    also have "\<dots> \<longleftrightarrow> ?M \<inter> {0..<sight bman} = ?M" using card_subset_eq [OF f(6)] by auto
    also have "\<dots> \<longleftrightarrow> ?M \<subseteq> {0..<sight bman}" by blast
    finally show ?thesis using sight unfolding pb i915_ttm_buddy_man_compatible_def by simp
  next
    case scan
    have "any_block (bman_mm bman) (\<lambda>first stop. first < ucast (fpfn place) \<or> ucast (lpfn place) < stop) (res_blocks r) =
        Some (\<exists>p\<in>set (res_blocks r). \<not> bytes_of (bman_mm bman) p \<subseteq> {unat (fpfn place) * 4096..<unat (lpfn place) * 4096})"
    proof (rule any_block_iff [OF f(1-3)])
      show "(s < ucast (fpfn place) \<or> ucast (lpfn place) < e) \<longleftrightarrow>
          \<not> {unat s * 4096..<unat e * 4096} \<subseteq> {unat (fpfn place) * 4096..<unat (lpfn place) * 4096}" if "s < e" for s e :: u64
        using that unfolding ucast_less by (auto simp: word_less_nat_alt)
    qed
    moreover have "(\<exists>p\<in>set (res_blocks r). \<not> bytes_of (bman_mm bman) p \<subseteq> {unat (fpfn place) * 4096..<unat (lpfn place) * 4096}) \<longleftrightarrow>
        \<not> ?M \<subseteq> place_bytes place"
      unfolding f(4) place_bytes_def if_not_P [OF scan(1)] by blast
    ultimately show ?thesis
      unfolding i915_ttm_buddy_man_compatible_def if_not_P [OF scan(1)] if_not_P [OF scan(2)] if_not_P [OF scan(3)] by simp
  qed
qed

end
