(* ===== verification/Ttm_Buddy_Props.thy ===== *)
theory Ttm_Buddy_Props
  imports Ttm_Buddy_Rest Buddy_Props
begin

text \<open>
  The properties of the memory manager of the i915 driver: what a granted resource holds, the account of
  the manager over every history of calls, the questions about places, and where the account breaks or a place is left.
\<close>

section \<open>A small manager\<close>

text \<open>Five pages, all of which the CPU can see.\<close>

definition five :: buddy where
  "five = \<lparr>free_list = [[1], [], [0]], roots = [0, 1], n_roots = 2, max_order = 2, chunk_size = 0x1000, mm_size = 0x5000, avail = 0x5000,
     slab = [0 \<mapsto> \<lparr>header = 0x802, left = None, right = None, parent = None\<rparr>, 1 \<mapsto> \<lparr>header = 0x4800, left = None, right = None, parent = None\<rparr>],
     slab_next = 2, slab_ok = (\<lambda>_. True)\<rparr>"

definition small_man :: bman where
  "small_man = \<lparr>bman_mm = five, man_size = 5, man_usage = 0, reserved = [], visible_size = 5, visible_avail = 5, visible_reserved = 0,
     default_page_size = 0x1000\<rparr>"

lemma five_set_up: "drm_buddy_init True True blank 0x5000 0x1000 = Some (five, Inr ())"
proof -
  have i: "ilog2 0x5000 = 14" "ilog2 0x4000 = 14" "ilog2 0x1000 = 12" by (simp_all add: ilog2_def compute_floorlog)
  then have r: "rounddown_pow_of_two 0x5000 = 0x4000" "rounddown_pow_of_two 0x1000 = 0x1000" by (simp_all add: rounddown_pow_of_two_def)
  have "hweight64 0x5000 = Suc (hweight64 0x1000)" "hweight64 0x1000 = Suc (hweight64 0)"
    using top_bit_gone(1) [of "0x5000"] top_bit_gone(1) [of "0x1000"] by (simp_all add: r)
  then have h: "hweight64 0x5000 = 2" by (simp add: hweight64_def)
  have rd: "round_down 0x5000 0x1000 = 0x5000" by (simp add: round_down_def)
  have "replicate 3 [] = ([[], [], []] :: nat list list)" by (simp add: numeral_eq_Suc)
  then show ?thesis
    using small_chunk
    by (simp add: drm_buddy_init_def init_roots.simps i r h rd Let_def blank_def five_def drm_block_alloc_def DRM_BUDDY_MAX_ORDER_def PAGE_SHIFT_def
        mark_free_def free_list_add_def set_block_def set_state_def buf_get_def buddy_masks drm_buddy_block_order_def drm_buddy_block_size_def)
qed

lemma small_man_set_up: "i915_ttm_buddy_man_init True True True blank 0x5000 0x5000 0x1000 0x1000 = Some (Inr small_man)"
  by (simp add: i915_ttm_buddy_man_init_def five_set_up small_man_def five_def PAGE_SHIFT_def)

lemma small_man_ok: "bman_ok small_man []"
  using init_result [OF blank_facts, of "0x5000" "0x5000" "0x1000"] small_man_set_up by auto

section \<open>Allocating\<close>

text \<open>
  C5: \<open>i915_ttm_buddy_man_alloc\<close>, for every state with a correct account (its chunks are pages), every
  number of pages and every place: the call returns. On an error nothing the clients see has changed.
  Otherwise the resource counts the pages asked for, every block in use belongs to exactly one resource,
  and freeing the new one restores the state that clients see and a correct account. What the resource
  owns depends on whether the request is contiguous with a size, rounded up to a power of two, that fills
  its range up to the end (\<open>uncut\<close>). If not, it owns exactly as many bytes as it counts pages, all inside
  the pages the place allows, in one piece if the place says contiguous, and all counts are right again.
  If so, it owns the beginning of the range, either the pages asked for or all of the rounded size, and
  the account is right again exactly in the first case.
\<close>

theorem ttm_buddy_alloc_correct:
  assumes "bman_ok bman rs" "0 < unat np" "unat np < 2 ^ 51"
  shows "\<exists>bman' r. i915_ttm_buddy_man_alloc mem bman np al place = Some (bman', r) \<and>
    (case r of
       Inl e \<Rightarrow> e \<in> {ENOMEM, E2BIG, ENOSPC, EINVAL} \<and> bman_ok bman' rs \<and> view (bman_mm bman') = view (bman_mm bman)
     | Inr x \<Rightarrow> num_pages x = np \<and> bman_sound bman' (x # rs) \<and>
         (let M = parts (view (bman_mm bman')) (set (res_blocks x)); F = unat (fpfn place) * 4096
          in if uncut bman np al place
             then M \<in> {{F..<F + unat np * 4096}, {F..<F + unat (roundup_pow_of_two (push_bit PAGE_SHIFT np))}} \<and>
               (bman_ok bman' (x # rs) \<longleftrightarrow> M = {F..<F + unat np * 4096})
             else bman_ok bman' (x # rs) \<and>
               card M = unat np * 4096 \<and> M \<subseteq> {F..<unat (place_lpfn bman place) * 4096} \<and>
               (contiguous place \<longrightarrow> (\<exists>a. M = {a..<a + unat np * 4096}))) \<and>
         (\<exists>bman''. i915_ttm_buddy_man_free bman' x = Some bman'' \<and> bman_ok bman'' rs \<and> view (bman_mm bman'') = view (bman_mm bman)))"
proof -
  have so: "bman_sound bman rs" by (rule bman_ok_sound [OF assms(1)])
  then have wf: "buddy_wf (bman_mm bman)" by (simp add: bman_sound_def)
  obtain bman' r where a: "i915_ttm_buddy_man_alloc mem bman np al place = Some (bman', r)" "alloc_says bman np al place bman' r"
    using alloc_result [OF so assms(2,3), of mem al place] by blast
  show ?thesis
  proof (cases r)
    case (Inl e)
    then show ?thesis using a bman_ok_same [OF assms(1)] by (fastforce simp: alloc_says_def)
  next
    case (Inr x)
    note g = granted_resource [OF so assms(2,3) a(2) [unfolded Inr]]
    obtain b2 where b2: "i915_ttm_buddy_man_free bman' x = Some b2" "left bman' x b2"
      using free_result [OF g(2), of x] by auto
    have "bman_ok b2 rs" "view (bman_mm b2) = view (bman_mm bman)"
      using enter_leave [OF wf g(3) b2(2)] bman_ok_same [OF assms(1)] by auto
    then show ?thesis using a(1) Inr b2(1) g(1,2) g(5) [OF assms(1)] by (intro exI [of _ bman'] exI [of _ r]) (simp add: Let_def)
  qed
qed

text \<open>A place for pages in one piece.\<close>

definition in_one :: "u32 \<Rightarrow> u32 \<Rightarrow> ttm_place" where
  "in_one f l = \<lparr>fpfn = f, lpfn = l, place_flags = TTM_PL_FLAG_CONTIGUOUS\<rparr>"

lemmas bman_eval = i915_ttm_buddy_man_alloc_def request_size_def place_lpfn_def buddy_flags_def resource_init_def resource_fini_def
  roundup_pow_of_two_def TTM_PL_FLAG_CONTIGUOUS_def TTM_PL_FLAG_TOPDOWN_def small_man_def five_def

lemma in_one_request:
  "request_size small_man 3 0 (in_one 0 5) = (0x4000, 0x4000, 5)" "buddy_flags small_man (in_one 0 5) = 0"
  by (simp_all add: in_one_def bman_eval Let_def PAGE_SHIFT_def ilog2_def compute_floorlog)

lemma five_block:
  "map_option (\<lambda>(_, ps, e). (ps, e)) (drm_buddy_alloc_blocks five 0 0x5000 0x4000 0x4000 [] 0) = Some ([0], Inr ())"
  using split_down.simps(2) [of _ 0 "Suc 0" 2] by (simp add: five_def buddy_eval numeral_2_eq_2 [symmetric])

lemma small_not_uncut: "\<not> uncut small_man 3 0 (in_one 0 5)"
  unfolding uncut_def in_one_request by (simp add: in_one_def PAGE_SHIFT_def)

lemma small_alloc: "\<exists>bman x. i915_ttm_buddy_man_alloc True small_man 3 0 (in_one 0 5) = Some (bman, Inr x)"
proof -
  have f: "bman_mm small_man = five" "chunk_size five = 0x1000" "ilog2 0x1000 = 12" "visible_size small_man = 5" "visible_avail small_man = 5"
    "fpfn (in_one 0 5) = 0" by (simp_all add: small_man_def five_def ilog2_def compute_floorlog in_one_def)
  obtain m where m: "drm_buddy_alloc_blocks five 0 0x5000 0x4000 0x4000 [] 0 = Some (m, [0], Inr ())"
    using five_block by auto
  obtain bman r where a: "i915_ttm_buddy_man_alloc True small_man 3 0 (in_one 0 5) = Some (bman, r)"
    using alloc_result [OF bman_ok_sound [OF small_man_ok], of 3 True 0 "in_one 0 5"] by auto
  have "push_bit PAGE_SHIFT (drop_bit (ilog2 (chunk_size (bman_mm small_man))) 0x4000) = (0x4000 :: u64)" by (simp add: f PAGE_SHIFT_def)
  note eq = alloc_eq [OF in_one_request(1) this, of True, unfolded in_one_request(2)]
  have "bind (cut_stage (in_one 0 5) 3 m [0]) (\<lambda>(mm, blocks, _). bind (visible_part small_man 3 5 mm blocks) (\<lambda>u. Some (True))) = Some (\<not> isl r)"
    using a m unfolding eq by (auto simp: f PAGE_SHIFT_def bind_eq_Some_conv)
  then have "\<not> isl r" by (auto simp: bind_eq_Some_conv)
  then show ?thesis using a by (cases r) auto
qed

theorem ttm_buddy_alloc_correct_witness:
  "\<exists>bman x a. i915_ttm_buddy_man_alloc True small_man 3 0 (in_one 0 5) = Some (bman, Inr x) \<and> bman_ok bman [x] \<and>
    parts (view (bman_mm bman)) (set (res_blocks x)) = {a..<a + 0x3000}"
proof -
  have "contiguous (in_one 0 5)" by (simp add: contiguous_def in_one_def TTM_PL_FLAG_CONTIGUOUS_def)
  moreover obtain bman x where "i915_ttm_buddy_man_alloc True small_man 3 0 (in_one 0 5) = Some (bman, Inr x)" using small_alloc by blast
  ultimately show ?thesis
    using ttm_buddy_alloc_correct [OF small_man_ok, of 3 True 0 "in_one 0 5"] small_not_uncut unfolding Let_def by fastforce
qed

section \<open>The account over all histories\<close>

text \<open>
  What may happen to a manager that has been set up, with the resources in use. The flag says that no
  call has been made that is known to spoil the counts: a contiguous request whose rounded size fills its
  range (\<open>uncut\<close>), or a reservation that was refused of a range that begins where the CPU can see.
\<close>

inductive account :: "bool \<Rightarrow> bman \<Rightarrow> bman_res list \<Rightarrow> bool" where
  account_init: "i915_ttm_buddy_man_init True True True mm sz visible page_size 0x1000 = Some (Inr bman) \<Longrightarrow>
     plenty mm \<Longrightarrow> slab mm = Map.empty \<Longrightarrow> 0x1000 \<le> sz \<Longrightarrow> unat sz < 2 ^ 44 \<Longrightarrow> account True bman []"
| account_alloc: "account c bman rs \<Longrightarrow> 0 < unat np \<Longrightarrow> unat np < 2 ^ 51 \<Longrightarrow>
     i915_ttm_buddy_man_alloc mem bman np al place = Some (bman', Inr x) \<Longrightarrow>
     account (c \<and> \<not> uncut bman np al place) bman' (x # rs)"
| account_refused: "account c bman rs \<Longrightarrow> 0 < unat np \<Longrightarrow> unat np < 2 ^ 51 \<Longrightarrow>
     i915_ttm_buddy_man_alloc mem bman np al place = Some (bman', Inl e) \<Longrightarrow> account c bman' rs"
| account_free: "account c bman rs \<Longrightarrow> r \<in> set rs \<Longrightarrow> i915_ttm_buddy_man_free bman r = Some bman' \<Longrightarrow>
     account c bman' (remove1 r rs)"
| account_reserve: "account c bman rs \<Longrightarrow> i915_ttm_buddy_man_reserve bman start sz = Some (bman', Inr ()) \<Longrightarrow>
     account c bman' rs"
| account_reserve_refused: "account c bman rs \<Longrightarrow> i915_ttm_buddy_man_reserve bman start sz = Some (bman', Inl e) \<Longrightarrow>
     account (c \<and> \<not> drop_bit PAGE_SHIFT start < visible_size bman) bman' rs"

lemma account_ok: "account c bman rs \<Longrightarrow> bman_sound bman rs \<and> (c \<longrightarrow> bman_ok bman rs)"
proof (induction rule: account.induct)
  case (account_init mm sz visible page_size bman)
  then show ?case using init_result [of mm sz visible page_size] bman_ok_sound by auto
next
  case (account_alloc c bman rs np mem al place bman' x)
  then have s: "bman_sound bman rs" "alloc_says bman np al place bman' (Inr x)"
    using alloc_result [of bman rs np mem al place] by auto
  show ?case using granted_resource(2,5) [OF s(1) account_alloc.hyps(2,3) s(2)] account_alloc.IH by auto
next
  case (account_refused c bman rs np mem al place bman' e)
  then have s: "bman_sound bman rs" "alloc_says bman np al place bman' (Inl e)"
    using alloc_result [of bman rs np mem al place] by auto
  then obtain mm where mm: "bman' = bman\<lparr>bman_mm := mm\<rparr>" "buddy_wf mm" "same_frame (bman_mm bman) mm" "view mm = view (bman_mm bman)"
    by (auto simp: alloc_says_def)
  have "bman_sound bman' rs" by (rule sound_same [OF s(1) mm(2-4)]) (simp_all add: mm(1))
  then show ?case using bman_ok_same [OF _ mm(2-4)] account_refused.IH by (auto simp: mm(1))
next
  case (account_free c bman rs r bman')
  then show ?case using free_result [of bman rs r] by auto
next
  case (account_reserve c bman rs start sz bman')
  then show ?case using reserve_succeeds [of bman rs start sz bman'] by blast
next
  case (account_reserve_refused c bman rs start sz bman' e)
  then show ?case using reserve_refused [of bman rs start sz bman' e] by blast
qed

text \<open>The parts of two resources in use.\<close>

lemma account_apart:
  assumes ok: "bman_sound bman rs" and ij: "i < length rs" "j < length rs" "i \<noteq> j"
  shows "parts (view (bman_mm bman)) (set (res_blocks (rs ! i))) \<inter> parts (view (bman_mm bman)) (set (res_blocks (rs ! j))) = {}"
proof -
  let ?v = "view (bman_mm bman)"
  have o: "buddy_wf (bman_mm bman)" "distinct (held bman rs)" "set (held bman rs) = dom (owned ?v)" using ok unfolding bman_sound_def by blast+
  have s: "set (res_blocks (rs ! k)) \<subseteq> dom (owned ?v)" if k: "k < length rs" for k
    unfolding o(3) [symmetric] using nth_mem [OF k] by (force simp: held_def)
  have "set (res_blocks (rs ! a)) \<inter> set (res_blocks (rs ! b)) = {}" if ab: "a < b" "b < length rs" for a b
  proof -
    have "rs = take b rs @ rs ! b # drop (Suc b) rs" by (rule id_take_nth_drop [OF ab(2)])
    then have "held bman rs = reserved bman @ concat (map res_blocks (take b rs)) @ res_blocks (rs ! b) @ concat (map res_blocks (drop (Suc b) rs))"
      unfolding held_def by (metis append.assoc concat.simps(2) concat_append list.simps(9) map_append)
    then have d: "set (concat (map res_blocks (take b rs))) \<inter> set (res_blocks (rs ! b)) = {}" using o(2) by auto
    have "rs ! a \<in> set (take b rs)" using ab nth_mem [of a "take b rs"] by simp
    then show ?thesis using d by auto
  qed
  then have "set (res_blocks (rs ! i)) \<inter> set (res_blocks (rs ! j)) = {}"
    using ij by (metis Int_commute linorder_neqE_nat)
  then show ?thesis by (rule parts_apart [OF view_ok [OF o(1)] s [OF ij(1)] s [OF ij(2)]])
qed

text \<open>
  C6: The memory manager of the i915 driver, whatever calls have been made since it was set up with chunks
  of a page (allocating and reserving, with success or refused, and freeing): no two resources in use
  share a byte, every block in use is held exactly once, by a resource or reserved; the usage is the sum
  of the sizes; and each resource can be freed. If there was no contiguous request among the calls whose
  rounded size fills its range, and no refused reservation of a range that begins where the CPU can see,
  then the counts are right, too: the pages that the CPU can see and are free, with those in use and
  reserved, make up all it can see, and every resource has the pages and visible pages that it counts.
\<close>

theorem ttm_buddy_account:
  assumes "account clean bman rs"
  shows "(\<forall>i<length rs. \<forall>j<length rs. i \<noteq> j \<longrightarrow>
       parts (view (bman_mm bman)) (set (res_blocks (rs ! i))) \<inter> parts (view (bman_mm bman)) (set (res_blocks (rs ! j))) = {}) \<and>
    distinct (reserved bman @ concat (map res_blocks rs)) \<and>
    set (reserved bman @ concat (map res_blocks rs)) = allocated (bman_mm bman) \<and>
    man_usage bman = (\<Sum>r\<leftarrow>rs. push_bit PAGE_SHIFT (num_pages r)) \<and>
    (\<forall>r\<in>set rs. i915_ttm_buddy_man_free bman r \<noteq> None) \<and>
    (clean \<longrightarrow>
      unat (visible_avail bman) * 4096 + card ((\<Union>p\<in>allocated (bman_mm bman). bytes_of (bman_mm bman) p) \<inter> {0..<unat (visible_size bman) * 4096}) =
         unat (visible_size bman) * 4096 \<and>
      (\<forall>r\<in>set rs. card (parts (view (bman_mm bman)) (set (res_blocks r))) = unat (num_pages r) * 4096 \<and>
         unat (used_visible_size r) * 4096 =
         card (parts (view (bman_mm bman)) (set (res_blocks r)) \<inter> {0..<unat (visible_size bman) * 4096})))"
proof -
  have so: "bman_sound bman rs" and ok: "clean \<Longrightarrow> bman_ok bman rs" using account_ok [OF assms] by blast+
  have h: "distinct (held bman rs)" "set (held bman rs) = allocated (bman_mm bman)"
    "man_usage bman = (\<Sum>r\<leftarrow>rs. push_bit PAGE_SHIFT (num_pages r))" using so by (simp_all add: bman_sound_def)
  have f: "i915_ttm_buddy_man_free bman r \<noteq> None" if "r \<in> set rs" for r using free_result [OF so that] by auto
  have "unat (visible_avail bman) * 4096 + card ((\<Union>p\<in>allocated (bman_mm bman). bytes_of (bman_mm bman) p) \<inter> {0..<unat (visible_size bman) * 4096}) =
         unat (visible_size bman) * 4096 \<and>
      (\<forall>r\<in>set rs. card (parts (view (bman_mm bman)) (set (res_blocks r))) = unat (num_pages r) * 4096 \<and>
         unat (used_visible_size r) * 4096 =
         card (parts (view (bman_mm bman)) (set (res_blocks r)) \<inter> {0..<unat (visible_size bman) * 4096}))" if clean
  proof -
    note ok = ok [OF that]
    have "unat (visible_avail bman) * 4096 + below (sight bman) (view (bman_mm bman)) (allocated (bman_mm bman)) = sight bman"
      using ok h(2) by (simp add: bman_ok_def)
    moreover have "parts (view (bman_mm bman)) (allocated (bman_mm bman)) = (\<Union>p\<in>allocated (bman_mm bman). bytes_of (bman_mm bman) p)"
      unfolding parts_def by (intro SUP_cong refl) (simp add: view_owned)
    moreover have "\<forall>r\<in>set rs. res_ok bman r" using ok by (simp add: bman_ok_def)
    ultimately show ?thesis using resource_facts(5) [OF ok] by (simp add: res_ok_def below_def sight_def)
  qed
  then show ?thesis using account_apart [OF so] h f by (simp add: held_def)
qed

theorem ttm_buddy_account_witness:
  "\<exists>bman x. account True bman [x] \<and> i915_ttm_buddy_man_alloc True small_man 3 0 (in_one 0 5) = Some (bman, Inr x) \<and>
     i915_ttm_buddy_man_free bman x \<noteq> None \<and> card (parts (view (bman_mm bman)) (set (res_blocks x))) = 0x3000"
proof -
  obtain bman x where a: "i915_ttm_buddy_man_alloc True small_man 3 0 (in_one 0 5) = Some (bman, Inr x)" using small_alloc by blast
  have "account True small_man []" by (rule account_init [OF small_man_set_up blank_facts]) simp_all
  then have c: "account True bman [x]" using account_alloc [OF _ _ _ a] small_not_uncut by fastforce
  have "num_pages x = 3" using a alloc_result [OF bman_ok_sound [OF small_man_ok], of 3 True 0 "in_one 0 5"] by (auto simp: alloc_says_def)
  then show ?thesis using ttm_buddy_account [OF c] a c by auto
qed

section \<open>Where a resource lies\<close>



section \<open>Where the account breaks\<close>

text \<open>
  C27: \<open>i915_ttm_buddy_man_reserve\<close> counts the visible pages of the range as reserved even when the
  allocator refuses the range: nothing has been handed out, but fewer pages count as free, and no list of
  resources makes the account right again.
\<close>

theorem ttm_buddy_reserve_fails:
  assumes "bman_ok bman rs" "i915_ttm_buddy_man_reserve bman start sz = Some (bman', Inl e)"
    and "drop_bit PAGE_SHIFT start < visible_size bman" "0x1000 \<le> sz" "unat start + unat sz < 2 ^ 64"
  shows "visible_avail bman' \<noteq> visible_avail bman \<and> view (bman_mm bman') = view (bman_mm bman) \<and> (\<forall>rs'. \<not> bman_ok bman' rs')"
  using reserve_fails [OF assms] by blast

theorem ttm_buddy_reserve_fails_witness:
  "\<exists>bman'. i915_ttm_buddy_man_reserve small_man 0x4000 0x2000 = Some (bman', Inl EINVAL) \<and> visible_avail bman' \<noteq> 5"
proof -
  have "map_option snd (i915_ttm_buddy_man_reserve small_man 0x4000 0x2000) = Some (Inl EINVAL)"
    by (simp add: i915_ttm_buddy_man_reserve_def small_man_def five_def buddy_eval)
  then obtain bman' where r: "i915_ttm_buddy_man_reserve small_man 0x4000 0x2000 = Some (bman', Inl EINVAL)" by auto
  have "drop_bit PAGE_SHIFT 0x4000 < visible_size small_man" "visible_avail small_man = 5" by (simp_all add: small_man_def PAGE_SHIFT_def)
  then show ?thesis using ttm_buddy_reserve_fails [OF small_man_ok r] r by simp
qed

lemma five_ranges:
  "map_option (\<lambda>(mm, ps, e). (avail mm, ps, e)) (drm_buddy_alloc_blocks five 0x1000 0x5000 0x4000 0x4000 [] 1) = Some (0x1000, [5, 3, 1], Inr ())"
  "map_option (\<lambda>(mm, ps, e). (ps, e)) (drm_buddy_alloc_blocks five 0 0x4000 0x4000 0x4000 [] 1) = Some ([0], Inr ())"
  by (simp_all add: five_def buddy_eval)

lemma small_facts: "bman_mm small_man = five" "chunk_size five = 0x1000" "ilog2 0x1000 = 12" "visible_size small_man = 5" "visible_avail small_man = 5"
    "push_bit PAGE_SHIFT (drop_bit (ilog2 (chunk_size (bman_mm small_man))) 0x4000) = (0x4000 :: u64)"
  by (simp_all add: small_man_def five_def ilog2_def compute_floorlog PAGE_SHIFT_def)

text \<open>
  C28: A contiguous request whose size, rounded up to a power of two, is more than was asked for and fills
  the range of its place exactly, while the range does not begin at a multiple of that size: when it is
  granted, the resource owns the whole range and not the pages that it counts, since the allocator serves
  the range with several blocks and these are not cut; the account is wrong while it is in use.
\<close>

theorem ttm_buddy_rounded_fills:
  assumes ok: "bman_ok bman rs" "0 < unat np" "unat np < 2 ^ 51" and c: "contiguous place"
    and sz: "sz = unat (roundup_pow_of_two (push_bit PAGE_SHIFT np))" "sz \<noteq> unat np * 4096"
    and fills: "unat (fpfn place) * 4096 + sz = unat (place_lpfn bman place) * 4096" "\<not> sz dvd unat (fpfn place) * 4096"
    and a: "i915_ttm_buddy_man_alloc mem bman np al place = Some (bman', Inr x)"
  shows "num_pages x = np \<and>
    parts (view (bman_mm bman')) (set (res_blocks x)) = {unat (fpfn place) * 4096..<unat (place_lpfn bman place) * 4096} \<and>
    unat np * 4096 < card (parts (view (bman_mm bman')) (set (res_blocks x))) \<and> \<not> bman_ok bman' (x # rs)"
proof -
  have so: "bman_sound bman rs" by (rule bman_ok_sound [OF ok(1)])
  have u: "uncut bman np al place" by (rule uncut_fills [OF so ok(2,3) c]) (use sz fills in simp_all)
  have "alloc_says bman np al place bman' (Inr x)" using alloc_result [OF so ok(2,3), of mem al place] a by simp
  note g = granted_resource [OF so ok(2,3) this]
  have M: "parts (view (bman_mm bman')) (set (res_blocks x)) = {unat (fpfn place) * 4096..<unat (place_lpfn bman place) * 4096}"
    using g(4) [OF u] fills by (simp add: sz(1))
  have "unat np * 4096 \<le> sz" using rounded_up_le [OF ok(2,3)] by (simp add: sz(1))
  then have n: "unat np * 4096 < card (parts (view (bman_mm bman')) (set (res_blocks x)))"
    using sz(2) fills(1) unfolding M by simp
  then have "parts (view (bman_mm bman')) (set (res_blocks x)) \<noteq>
      {unat (fpfn place) * 4096..<unat (fpfn place) * 4096 + unat np * 4096}" by force
  then have "\<not> bman_ok bman' (x # rs)" using g(5) [OF ok(1)] u by simp
  then show ?thesis using g(1) M n by blast
qed

lemma small_five: "request_size small_man 3 0 (in_one 1 5) = (0x4000, 0x4000, 5)" "buddy_flags small_man (in_one 1 5) = 1"
    "request_size small_man 3 0 (in_one 0 2) = (0x4000, 0x4000, 4)" "buddy_flags small_man (in_one 0 2) = 1"
  by (simp_all add: in_one_def bman_eval Let_def PAGE_SHIFT_def ilog2_def compute_floorlog DRM_BUDDY_RANGE_ALLOCATION_def)

text \<open>Five pages, of which three are asked for: from page 1 on all four up to page 5 are handed out.\<close>

theorem ttm_buddy_rounded_fills_witness:
  "\<exists>bman x. i915_ttm_buddy_man_alloc True small_man 3 0 (in_one 1 5) = Some (bman, Inr x) \<and> num_pages x = 3 \<and>
     parts (view (bman_mm bman)) (set (res_blocks x)) = {0x1000..<0x5000}"
proof -
  note eq = alloc_eq [OF small_five(1) small_facts(6), of True, unfolded small_five(2)]
  obtain m where m: "drm_buddy_alloc_blocks five 0x1000 0x5000 0x4000 0x4000 [] 1 = Some (m, [5, 3, 1], Inr ())" "avail m = 0x1000"
    using five_ranges(1) by auto
  have "fpfn (in_one 1 5) = 1" by (simp add: in_one_def)
  then obtain bman x where a: "i915_ttm_buddy_man_alloc True small_man 3 0 (in_one 1 5) = Some (bman, Inr x)"
    unfolding eq using m by (auto simp: small_facts PAGE_SHIFT_def cut_stage_def drm_buddy_block_trim_def visible_part_def)
  have p: "contiguous (in_one 1 5)" "unat (fpfn (in_one 1 5)) = 1" "unat (place_lpfn small_man (in_one 1 5)) = 5"
    by (simp_all add: contiguous_def in_one_def TTM_PL_FLAG_CONTIGUOUS_def place_lpfn_def)
  have r: "roundup_pow_of_two (push_bit PAGE_SHIFT 3) = 0x4000" by (simp add: roundup_pow_of_two_def PAGE_SHIFT_def compute_floorlog)
  show ?thesis using ttm_buddy_rounded_fills [OF small_man_ok _ _ p(1) refl _ _ _ a] a unfolding p r by simp
qed

text \<open>
  C29: A contiguous request for more pages than its place has from page 0 on is never refused as too big:
  the end of the range is raised to the rounded size. If it is granted, the resource owns pages beyond
  the last page of its place.
\<close>

theorem ttm_buddy_beyond_limit:
  assumes ok: "bman_ok bman rs" "0 < unat np" "unat np < 2 ^ 51" and c: "contiguous place"
    and p: "fpfn place = 0" "0 < lpfn place" "unat (lpfn place) < unat np"
    and a: "i915_ttm_buddy_man_alloc mem bman np al place = Some (bman', r)"
  shows "r \<noteq> Inl E2BIG \<and>
    (\<forall>x. r = Inr x \<longrightarrow> unat (lpfn place) * 4096 \<in> parts (view (bman_mm bman')) (set (res_blocks x)) \<and>
       \<not> parts (view (bman_mm bman')) (set (res_blocks x)) \<subseteq> place_bytes place)"
proof -
  have so: "bman_sound bman rs" by (rule bman_ok_sound [OF ok(1)])
  note u = uncut_beyond [OF so ok(2,3) c p]
  have "alloc_says bman np al place bman' r" using alloc_result [OF so ok(2,3), of mem al place] a by simp
  then have "{0..<unat np * 4096} \<subseteq> parts (view (bman_mm bman')) (set (res_blocks x))" if "r = Inr x" for x
    using granted_resource(6) [OF so ok(2,3) _ u(1)] that p(1) by fastforce
  moreover have "unat (lpfn place) * 4096 \<in> {0..<unat np * 4096}" "unat (lpfn place) * 4096 \<notin> place_bytes place"
    using p by (auto simp: place_bytes_def)
  ultimately show ?thesis using u(2) a by blast
qed

text \<open>Five pages, of which three are asked for below page 2: the pages 0 to 2 are handed out.\<close>

theorem ttm_buddy_beyond_limit_witness:
  "\<exists>bman x. i915_ttm_buddy_man_alloc True small_man 3 0 (in_one 0 2) = Some (bman, Inr x) \<and>
     0x2000 \<in> parts (view (bman_mm bman)) (set (res_blocks x))"
proof -
  obtain bman r where a: "i915_ttm_buddy_man_alloc True small_man 3 0 (in_one 0 2) = Some (bman, r)"
    using alloc_result [OF bman_ok_sound [OF small_man_ok], of 3 True 0 "in_one 0 2"] by auto
  obtain m where m: "drm_buddy_alloc_blocks five 0 0x4000 0x4000 0x4000 [] 1 = Some (m, [0], Inr ())"
    using five_ranges(2) by auto
  note eq = alloc_eq [OF small_five(3) small_facts(6), of True, unfolded small_five(4)]
  have p: "contiguous (in_one 0 2)" "fpfn (in_one 0 2) = 0" "lpfn (in_one 0 2) = 2"
    by (simp_all add: contiguous_def in_one_def TTM_PL_FLAG_CONTIGUOUS_def)
  have "bind (cut_stage (in_one 0 2) 3 m [0]) (\<lambda>(mm, blocks, _). bind (visible_part small_man 3 4 mm blocks) (\<lambda>u. Some True)) = Some (\<not> isl r)"
    using a m p(2) unfolding eq by (auto simp: small_facts PAGE_SHIFT_def bind_eq_Some_conv)
  then obtain x where x: "r = Inr x" by (cases r) (auto simp: bind_eq_Some_conv)
  show ?thesis using ttm_buddy_beyond_limit [OF small_man_ok _ _ p(1,2) _ _ a] a x by (simp add: p)
qed

end
