(* ===== verification/Mm.thy ===== *)
theory Mm
  imports Kernel_Bits "HOL-Library.Tree"
begin

text \<open>
  The range allocator, \<open>drm_mm.c\<close>: nodes in the order of their addresses, the hole behind each node, and
  the holes on a stack and in two search trees, by size and by address. As the code is compiled for
  FreeBSD, the trees are plain red-black trees: nobody but the routines below keeps the field
  \<open>subtree_max_hole\<close>.

  A node is identified by a number, the node of the manager itself by 0. The red-black trees are a library that is
  not in the repository: its operations are the fields of \<open>rb_ops\<close>, and \<open>rb_laws\<close> is what it documents. The tree
  of intervals, with which a node is looked up by address, is generated by the same library and left out. The
  callback of the driver that adjusts a hole to a color is an argument.
\<close>

section \<open>Data\<close>

text \<open>A node of a search tree: which node of the allocator it is part of, and its color.\<close>

type_synonym rb_tree = "(nat \<times> bool) tree"

definition holes_in :: "rb_tree \<Rightarrow> nat list" where
  "holes_in t = map fst (inorder t)"

record rb_ops =
  rb_insert_color :: "nat \<Rightarrow> rb_tree \<Rightarrow> rb_tree"
  rb_erase :: "nat \<Rightarrow> rb_tree \<Rightarrow> rb_tree"

definition rb_laws :: "rb_ops \<Rightarrow> bool" where
  "rb_laws rb \<longleftrightarrow> (\<forall>n t. holes_in (rb_insert_color rb n t) = holes_in t) \<and>
     (\<forall>n t. distinct (holes_in t) \<longrightarrow> n \<in> set (holes_in t) \<longrightarrow> holes_in (rb_erase rb n t) = filter (\<lambda>m. m \<noteq> n) (holes_in t))"

record drm_mm_node =
  mn_color :: u64
  mn_start :: u64
  mn_size :: u64
  hole_size :: u64
  subtree_max_hole :: u64
  allocated_bit :: bool
  scanned_bit :: bool

text \<open>
  \<open>node_list\<close> is the list of the nodes behind the head node. \<open>holes_first\<close> is the cached first node of the tree by size.
  \<open>scan_links\<close> has the neighbours a node had when it was taken off the list for a scan.
\<close>

record drm_mm =
  mm_node :: "nat \<Rightarrow> drm_mm_node"
  node_list :: "nat list"
  hole_stack :: "nat list"
  holes_size :: rb_tree
  holes_first :: "nat option"
  holes_addr :: rb_tree
  scan_active :: nat
  scan_links :: "nat \<Rightarrow> nat \<times> nat"

definition zero_node :: drm_mm_node where
  "zero_node = \<lparr>mn_color = 0, mn_start = 0, mn_size = 0, hole_size = 0, subtree_max_hole = 0, allocated_bit = False, scanned_bit = False\<rparr>"

definition update_node :: "nat \<Rightarrow> (drm_mm_node \<Rightarrow> drm_mm_node) \<Rightarrow> drm_mm \<Rightarrow> drm_mm" where
  "update_node n f mm = mm\<lparr>mm_node := (mm_node mm)(n := f (mm_node mm n))\<rparr>"

text \<open>The circular list, with the head node in front.\<close>

fun next_of :: "nat list \<Rightarrow> nat \<Rightarrow> nat" where
  "next_of [] n = 0"
| "next_of [x] n = 0"
| "next_of (x # y # xs) n = (if x = n then y else next_of (y # xs) n)"

fun prev_of :: "nat list \<Rightarrow> nat \<Rightarrow> nat" where
  "prev_of [] n = 0"
| "prev_of [x] n = x"
| "prev_of (x # y # xs) n = (if y = n then x else prev_of (y # xs) n)"

definition list_next_entry :: "drm_mm \<Rightarrow> nat \<Rightarrow> nat" where
  "list_next_entry mm n = next_of (0 # node_list mm) n"

definition list_prev_entry :: "drm_mm \<Rightarrow> nat \<Rightarrow> nat" where
  "list_prev_entry mm n = (if n = 0 then (if node_list mm = [] then 0 else List.last (node_list mm)) else prev_of (0 # node_list mm) n)"

text \<open>\<open>list_add\<close> of a node behind another.\<close>

fun add_behind :: "nat \<Rightarrow> nat \<Rightarrow> nat list \<Rightarrow> nat list" where
  "add_behind h n [] = []"
| "add_behind h n (x # xs) = (if x = h then x # n # xs else x # add_behind h n xs)"

definition list_add :: "nat \<Rightarrow> nat \<Rightarrow> drm_mm \<Rightarrow> drm_mm" where
  "list_add n h mm = mm\<lparr>node_list := tl (add_behind h n (0 # node_list mm))\<rparr>"

definition drm_mm_hole_follows :: "drm_mm_node \<Rightarrow> bool" where
  "drm_mm_hole_follows nd \<longleftrightarrow> hole_size nd \<noteq> 0"

definition drm_mm_hole_node_start :: "drm_mm_node \<Rightarrow> u64" where
  "drm_mm_hole_node_start nd = mn_start nd + mn_size nd"

definition drm_mm_hole_node_end :: "drm_mm \<Rightarrow> nat \<Rightarrow> u64" where
  "drm_mm_hole_node_end mm n = mn_start (mm_node mm (list_next_entry mm n))"

section \<open>The trees of holes\<close>

text \<open>Going down to the place of a new node; the flag says that it is the first.\<close>

fun link_size :: "(nat \<Rightarrow> drm_mm_node) \<Rightarrow> nat \<Rightarrow> u64 \<Rightarrow> rb_tree \<Rightarrow> rb_tree \<times> bool" where
  "link_size nd n x \<langle>\<rangle> = (\<langle>\<langle>\<rangle>, (n, True), \<langle>\<rangle>\<rangle>, True)"
| "link_size nd n x \<langle>l, a, r\<rangle> =
     (if hole_size (nd (fst a)) < x then (let (l', first) = link_size nd n x l in (\<langle>l', a, r\<rangle>, first))
      else (let (r', _) = link_size nd n x r in (\<langle>l, a, r'\<rangle>, False)))"

definition insert_hole_size :: "rb_ops \<Rightarrow> nat \<Rightarrow> drm_mm \<Rightarrow> drm_mm" where
  "insert_hole_size rb n mm =
     (let (t, first) = link_size (mm_node mm) n (hole_size (mm_node mm n)) (holes_size mm)
      in mm\<lparr>holes_size := rb_insert_color rb n t, holes_first := (if first then Some n else holes_first mm)\<rparr>)"

text \<open>On the way down the largest hole below each node is raised.\<close>

fun link_addr :: "nat \<Rightarrow> u64 \<Rightarrow> u64 \<Rightarrow> rb_tree \<Rightarrow> (nat \<Rightarrow> drm_mm_node) \<Rightarrow> rb_tree \<times> (nat \<Rightarrow> drm_mm_node)" where
  "link_addr n start mx \<langle>\<rangle> nd = (\<langle>\<langle>\<rangle>, (n, True), \<langle>\<rangle>\<rangle>, nd)"
| "link_addr n start mx \<langle>l, a, r\<rangle> nd =
     (let p = nd (fst a);
          nd = (if subtree_max_hole p < mx then nd(fst a := p\<lparr>subtree_max_hole := mx\<rparr>) else nd)
      in if start < drm_mm_hole_node_start p then (let (l', nd) = link_addr n start mx l nd in (\<langle>l', a, r\<rangle>, nd))
         else (let (r', nd) = link_addr n start mx r nd in (\<langle>l, a, r'\<rangle>, nd)))"

definition insert_hole_addr :: "rb_ops \<Rightarrow> nat \<Rightarrow> drm_mm \<Rightarrow> drm_mm" where
  "insert_hole_addr rb n mm =
     (let (t, nd) = link_addr n (drm_mm_hole_node_start (mm_node mm n)) (subtree_max_hole (mm_node mm n)) (holes_addr mm) (mm_node mm)
      in mm\<lparr>holes_addr := rb_insert_color rb n t, mm_node := nd\<rparr>)"

definition add_hole :: "rb_ops \<Rightarrow> nat \<Rightarrow> drm_mm \<Rightarrow> drm_mm" where
  "add_hole rb n mm =
     (let sz = drm_mm_hole_node_end mm n - drm_mm_hole_node_start (mm_node mm n);
          mm = update_node n (\<lambda>p. p\<lparr>hole_size := sz, subtree_max_hole := sz\<rparr>) mm;
          mm = insert_hole_size rb n mm;
          mm = insert_hole_addr rb n mm
      in mm\<lparr>hole_stack := n # hole_stack mm\<rparr>)"

text \<open>\<open>rb_erase_cached\<close> moves the cached first node on to the next.\<close>

definition rm_hole :: "rb_ops \<Rightarrow> nat \<Rightarrow> drm_mm \<Rightarrow> drm_mm" where
  "rm_hole rb n mm =
     update_node n (\<lambda>p. p\<lparr>hole_size := 0, subtree_max_hole := 0\<rparr>)
       (mm\<lparr>hole_stack := filter (\<lambda>m. m \<noteq> n) (hole_stack mm),
           holes_first := (if holes_first mm = Some n
                           then (case tl (dropWhile (\<lambda>m. m \<noteq> n) (holes_in (holes_size mm))) of [] \<Rightarrow> None | m # _ \<Rightarrow> Some m)
                           else holes_first mm),
           holes_size := rb_erase rb n (holes_size mm),
           holes_addr := rb_erase rb n (holes_addr mm)\<rparr>)"

section \<open>Looking for a hole\<close>

fun best_below :: "(nat \<Rightarrow> drm_mm_node) \<Rightarrow> u64 \<Rightarrow> rb_tree \<Rightarrow> nat option \<Rightarrow> nat option" where
  "best_below nd sz \<langle>\<rangle> best = best"
| "best_below nd sz \<langle>l, a, r\<rangle> best =
     (if sz \<le> hole_size (nd (fst a)) then best_below nd sz r (Some (fst a)) else best_below nd sz l best)"

text \<open>The outer \<open>None\<close> is the null pointer that an empty tree would have the code read.\<close>

definition best_hole :: "drm_mm \<Rightarrow> u64 \<Rightarrow> nat option option" where
  "best_hole mm sz = (if holes_size mm = \<langle>\<rangle> then None else Some (best_below (mm_node mm) sz (holes_size mm) None))"

fun usable_hole_addr :: "(nat \<Rightarrow> drm_mm_node) \<Rightarrow> u64 \<Rightarrow> rb_tree \<Rightarrow> bool" where
  "usable_hole_addr nd sz \<langle>\<rangle> \<longleftrightarrow> False"
| "usable_hole_addr nd sz \<langle>l, a, r\<rangle> \<longleftrightarrow> sz \<le> subtree_max_hole (nd (fst a))"

fun find_below :: "(nat \<Rightarrow> drm_mm_node) \<Rightarrow> u64 \<Rightarrow> u64 \<Rightarrow> rb_tree \<Rightarrow> nat option \<Rightarrow> nat option" where
  "find_below nd addr sz \<langle>\<rangle> node = node"
| "find_below nd addr sz \<langle>l, a, r\<rangle> node =
     (if \<not> usable_hole_addr nd sz \<langle>l, a, r\<rangle> then node
      else let h = drm_mm_hole_node_start (nd (fst a))
           in if addr < h then find_below nd addr sz l (Some (fst a))
              else if h + hole_size (nd (fst a)) < addr then find_below nd addr sz r (Some (fst a))
              else Some (fst a))"

definition find_hole_addr :: "drm_mm \<Rightarrow> u64 \<Rightarrow> u64 \<Rightarrow> nat option" where
  "find_hole_addr mm addr sz = find_below (mm_node mm) addr sz (holes_addr mm) None"

definition DRM_MM_INSERT_BEST :: u32 where "DRM_MM_INSERT_BEST = 0"
definition DRM_MM_INSERT_LOW :: u32 where "DRM_MM_INSERT_LOW = 1"
definition DRM_MM_INSERT_HIGH :: u32 where "DRM_MM_INSERT_HIGH = 2"
definition DRM_MM_INSERT_EVICT :: u32 where "DRM_MM_INSERT_EVICT = 3"
definition DRM_MM_INSERT_ONCE :: u32 where "DRM_MM_INSERT_ONCE = push_bit 31 1"

lemmas insert_modes = DRM_MM_INSERT_BEST_def DRM_MM_INSERT_LOW_def DRM_MM_INSERT_HIGH_def DRM_MM_INSERT_EVICT_def DRM_MM_INSERT_ONCE_def

definition first_hole :: "drm_mm \<Rightarrow> u64 \<Rightarrow> u64 \<Rightarrow> u64 \<Rightarrow> u32 \<Rightarrow> nat option option" where
  "first_hole mm start fin sz mode =
     (if mode = DRM_MM_INSERT_LOW then Some (find_hole_addr mm start sz)
      else if mode = DRM_MM_INSERT_HIGH then Some (find_hole_addr mm fin sz)
      else if mode = DRM_MM_INSERT_EVICT then Some (case hole_stack mm of [] \<Rightarrow> None | n # _ \<Rightarrow> Some n)
      else best_hole mm sz)"

text \<open>
  The next hole of the tree by address: \<open>up\<close> is the nearest node above that has been left to the left, to which the code
  goes up when there is nothing usable on the right. Towards lower addresses the same runs on the mirrored tree,
  as the code has it from one macro.
\<close>

fun outermost_usable :: "(nat \<Rightarrow> drm_mm_node) \<Rightarrow> u64 \<Rightarrow> nat \<Rightarrow> rb_tree \<Rightarrow> nat" where
  "outermost_usable nd sz n \<langle>\<rangle> = n"
| "outermost_usable nd sz n \<langle>l, a, r\<rangle> = (if usable_hole_addr nd sz l then outermost_usable nd sz (fst a) l else fst a)"

fun next_hole_addr :: "(nat \<Rightarrow> drm_mm_node) \<Rightarrow> u64 \<Rightarrow> nat \<Rightarrow> rb_tree \<Rightarrow> nat option \<Rightarrow> nat option" where
  "next_hole_addr nd sz n \<langle>\<rangle> up = None"
| "next_hole_addr nd sz n \<langle>l, a, r\<rangle> up =
     (if fst a = n then (if usable_hole_addr nd sz r then Some (outermost_usable nd sz n r) else up)
      else if n \<in> set (holes_in l) then next_hole_addr nd sz n l (Some (fst a))
      else next_hole_addr nd sz n r up)"

definition next_hole_low_addr :: "drm_mm \<Rightarrow> nat \<Rightarrow> u64 \<Rightarrow> nat option" where
  "next_hole_low_addr mm n sz = next_hole_addr (mm_node mm) sz n (holes_addr mm) None"

definition next_hole_high_addr :: "drm_mm \<Rightarrow> nat \<Rightarrow> u64 \<Rightarrow> nat option" where
  "next_hole_high_addr mm n sz = next_hole_addr (mm_node mm) sz n (mirror (holes_addr mm)) None"

text \<open>What follows in a list, and \<open>rb_prev\<close>, the one before in the order of a tree.\<close>

fun following :: "nat \<Rightarrow> nat list \<Rightarrow> nat option" where
  "following n (x # y # xs) = (if x = n then Some y else following n (y # xs))"
| "following n _ = None"

definition rb_prev :: "nat \<Rightarrow> rb_tree \<Rightarrow> nat option" where
  "rb_prev n t = following n (rev (holes_in t))"

definition next_hole :: "drm_mm \<Rightarrow> nat \<Rightarrow> u64 \<Rightarrow> u32 \<Rightarrow> nat option" where
  "next_hole mm n sz mode =
     (if mode = DRM_MM_INSERT_LOW then next_hole_low_addr mm n sz
      else if mode = DRM_MM_INSERT_HIGH then next_hole_high_addr mm n sz
      else if mode = DRM_MM_INSERT_EVICT then following n (hole_stack mm)
      else rb_prev n (holes_size mm))"

section \<open>Reserving, inserting, removing\<close>

text \<open>The callback of the driver: it sees the allocator and the node in front of the hole.\<close>

type_synonym color_adjust = "drm_mm \<Rightarrow> nat \<Rightarrow> u64 \<Rightarrow> u64 \<times> u64 \<Rightarrow> u64 \<times> u64"

definition adjust :: "color_adjust option \<Rightarrow> drm_mm \<Rightarrow> nat \<Rightarrow> u64 \<Rightarrow> u64 \<times> u64 \<Rightarrow> u64 \<times> u64" where
  "adjust col mm h c r = (case col of None \<Rightarrow> r | Some f \<Rightarrow> f mm h c r)"

text \<open>What both ways of insertion end with: the node goes behind the hole's node, and the hole is split.\<close>

definition occupy :: "rb_ops \<Rightarrow> nat \<Rightarrow> nat \<Rightarrow> u64 \<Rightarrow> u64 \<Rightarrow> drm_mm \<Rightarrow> drm_mm" where
  "occupy rb n h hole_start hole_end mm =
     (let start = mn_start (mm_node mm n);
          fin = start + mn_size (mm_node mm n);
          mm = update_node n (\<lambda>p. p\<lparr>allocated_bit := True, hole_size := 0\<rparr>) mm;
          mm = list_add n h mm;
          mm = rm_hole rb h mm;
          mm = (if hole_start < start then add_hole rb h mm else mm)
      in if fin < hole_end then add_hole rb n mm else mm)"

definition drm_mm_reserve_node :: "rb_ops \<Rightarrow> color_adjust option \<Rightarrow> drm_mm \<Rightarrow> nat \<Rightarrow> drm_mm \<times> unit res" where
  "drm_mm_reserve_node rb col mm n =
     (let nd = mm_node mm n;
          fin = mn_start nd + mn_size nd
      in if fin \<le> mn_start nd then (mm, Inl ENOSPC)
         else case find_hole_addr mm (mn_start nd) 0 of
           None \<Rightarrow> (mm, Inl ENOSPC)
         | Some h \<Rightarrow>
             let hole_start = drm_mm_hole_node_start (mm_node mm h);
                 hole_end = hole_start + hole_size (mm_node mm h);
                 (adj_start, adj_end) = adjust col mm h (mn_color nd) (hole_start, hole_end)
             in if mn_start nd < adj_start \<or> adj_end < fin then (mm, Inl ENOSPC)
                else (occupy rb n h hole_start hole_end mm, Inr ()))"

text \<open>
  The place in a hole, as both insertion and the scan compute it: the range \<open>col\<close> is the hole after the callback.
\<close>

definition place_in_hole :: "u32 \<Rightarrow> u64 \<Rightarrow> u64 \<Rightarrow> u64 \<Rightarrow> u64 \<times> u64 \<Rightarrow> u64 \<Rightarrow> u64 \<Rightarrow> u64 option" where
  "place_in_hole mode sz alignment remainder_mask col range_start range_end =
     (let (col_start, col_end) = col;
          adj_start = max col_start range_start;
          adj_end = min col_end range_end
      in if adj_end \<le> adj_start \<or> adj_end - adj_start < sz then None
         else
           let adj_start = (if mode = DRM_MM_INSERT_HIGH then adj_end - sz else adj_start)
           in if alignment = 0 then Some adj_start
              else
                let rm = (if remainder_mask \<noteq> 0 then adj_start AND remainder_mask else adj_start mod alignment)
                in if rm = 0 then Some adj_start
                   else
                     let adj_start = adj_start - rm;
                         adj_start = (if mode \<noteq> DRM_MM_INSERT_HIGH then adj_start + alignment else adj_start)
                     in if adj_start < max col_start range_start \<or> min col_end range_end - adj_start < sz then None
                        else if adj_end \<le> adj_start \<or> adj_end - adj_start < sz then None
                        else Some adj_start)"

text \<open>The loop over the holes: the hole to use and the place in it. \<open>None\<close> is a loop that does not end.\<close>

partial_function (option) search_holes ::
  "color_adjust option \<Rightarrow> drm_mm \<Rightarrow> u64 \<Rightarrow> u64 \<Rightarrow> u64 \<Rightarrow> u64 \<Rightarrow> u64 \<Rightarrow> u64 \<Rightarrow> u32 \<Rightarrow> bool \<Rightarrow> nat option \<Rightarrow> (nat \<times> u64) option option" where
  "search_holes col mm sz alignment remainder_mask color range_start range_end mode once hole =
     (case hole of
        None \<Rightarrow> Some None
      | Some h \<Rightarrow>
          let hole_start = drm_mm_hole_node_start (mm_node mm h);
              hole_end = hole_start + hole_size (mm_node mm h)
          in if mode = DRM_MM_INSERT_LOW \<and> range_end \<le> hole_start then Some None
             else if mode = DRM_MM_INSERT_HIGH \<and> hole_end \<le> range_start then Some None
             else case place_in_hole mode sz alignment remainder_mask (adjust col mm h color (hole_start, hole_end)) range_start range_end of
               Some start \<Rightarrow> Some (Some (h, start))
             | None \<Rightarrow> search_holes col mm sz alignment remainder_mask color range_start range_end mode once
                        (if once then None else next_hole mm h sz mode))"

definition drm_mm_insert_node_in_range ::
  "rb_ops \<Rightarrow> color_adjust option \<Rightarrow> drm_mm \<Rightarrow> nat \<Rightarrow> u64 \<Rightarrow> u64 \<Rightarrow> u64 \<Rightarrow> u64 \<Rightarrow> u64 \<Rightarrow> u32 \<Rightarrow> (drm_mm \<times> unit res) option" where
  "drm_mm_insert_node_in_range rb col mm n sz alignment color range_start range_end mode =
     (if sz = 0 \<or> range_end - range_start < sz then Some (mm, Inl ENOSPC)
      else if (case holes_first mm of None \<Rightarrow> 0 | Some h \<Rightarrow> hole_size (mm_node mm h)) < sz then Some (mm, Inl ENOSPC)
      else
        let alignment = (if alignment \<le> 1 then 0 else alignment);
            once = (mode AND DRM_MM_INSERT_ONCE \<noteq> 0);
            mode = mode AND NOT DRM_MM_INSERT_ONCE;
            remainder_mask = (if is_power_of_2 alignment then alignment - 1 else 0)
        in do {
          first \<leftarrow> first_hole mm range_start range_end sz mode;
          found \<leftarrow> search_holes col mm sz alignment remainder_mask color range_start range_end mode once first;
          case found of
            None \<Rightarrow> Some (mm, Inl ENOSPC)
          | Some (h, start) \<Rightarrow>
              let hole_start = drm_mm_hole_node_start (mm_node mm h);
                  hole_end = hole_start + hole_size (mm_node mm h);
                  mm = update_node n (\<lambda>p. p\<lparr>mn_size := sz, mn_start := start, mn_color := color\<rparr>) mm
              in Some (occupy rb n h hole_start hole_end mm, Inr ()) })"

definition drm_mm_insert_node_generic ::
  "rb_ops \<Rightarrow> color_adjust option \<Rightarrow> drm_mm \<Rightarrow> nat \<Rightarrow> u64 \<Rightarrow> u64 \<Rightarrow> u64 \<Rightarrow> u32 \<Rightarrow> (drm_mm \<times> unit res) option" where
  "drm_mm_insert_node_generic rb col mm n sz alignment color mode =
     drm_mm_insert_node_in_range rb col mm n sz alignment color 0 (- 1) mode"

definition drm_mm_insert_node :: "rb_ops \<Rightarrow> color_adjust option \<Rightarrow> drm_mm \<Rightarrow> nat \<Rightarrow> u64 \<Rightarrow> (drm_mm \<times> unit res) option" where
  "drm_mm_insert_node rb col mm n sz = drm_mm_insert_node_generic rb col mm n sz 0 0 0"

definition drm_mm_remove_node :: "rb_ops \<Rightarrow> drm_mm \<Rightarrow> nat \<Rightarrow> drm_mm" where
  "drm_mm_remove_node rb mm n =
     (let prev_node = list_prev_entry mm n;
          mm = (if drm_mm_hole_follows (mm_node mm n) then rm_hole rb n mm else mm);
          mm = mm\<lparr>node_list := filter (\<lambda>m. m \<noteq> n) (node_list mm)\<rparr>;
          mm = (if drm_mm_hole_follows (mm_node mm prev_node) then rm_hole rb prev_node mm else mm);
          mm = add_hole rb prev_node mm
      in update_node n (\<lambda>p. p\<lparr>allocated_bit := False\<rparr>) mm)"

definition subst_node :: "nat \<Rightarrow> nat \<Rightarrow> nat \<Rightarrow> nat" where
  "subst_node old new n = (if n = old then new else n)"

definition drm_mm_replace_node :: "drm_mm \<Rightarrow> nat \<Rightarrow> nat \<Rightarrow> drm_mm" where
  "drm_mm_replace_node mm old new =
     (let f = subst_node old new;
          mm = mm\<lparr>mm_node := (mm_node mm)(new := (mm_node mm old)\<lparr>allocated_bit := True\<rparr>), node_list := map f (node_list mm)\<rparr>;
          mm = (if drm_mm_hole_follows (mm_node mm old)
                then mm\<lparr>hole_stack := map f (hole_stack mm), holes_size := map_tree (map_prod f id) (holes_size mm),
                        holes_first := map_option f (holes_first mm), holes_addr := map_tree (map_prod f id) (holes_addr mm)\<rparr>
                else mm)
      in update_node old (\<lambda>p. p\<lparr>allocated_bit := False\<rparr>) mm)"

section \<open>Setting up and tearing down\<close>

text \<open>\<open>nodes\<close> is what the memory of the nodes holds. The head node ends where the range starts, as its size is negative.\<close>

definition drm_mm_init :: "rb_ops \<Rightarrow> (nat \<Rightarrow> drm_mm_node) \<Rightarrow> u64 \<Rightarrow> u64 \<Rightarrow> drm_mm" where
  "drm_mm_init rb nodes start sz =
     add_hole rb 0 \<lparr>mm_node = nodes(0 := zero_node\<lparr>mn_start := start + sz, mn_size := - sz\<rparr>), node_list = [], hole_stack = [],
       holes_size = \<langle>\<rangle>, holes_first = None, holes_addr = \<langle>\<rangle>, scan_active = 0, scan_links = (\<lambda>_. (0, 0))\<rparr>"

definition drm_mm_clean :: "drm_mm \<Rightarrow> bool" where
  "drm_mm_clean mm \<longleftrightarrow> node_list mm = []"

text \<open>Tearing down only warns, when there are still nodes.\<close>

definition drm_mm_takedown :: "drm_mm \<Rightarrow> bool" where
  "drm_mm_takedown mm \<longleftrightarrow> \<not> drm_mm_clean mm"

end
