(* ===== verification/Mm_Tree.thy ===== *)
theory Mm_Tree
  imports Mm
begin

text \<open>
  The search trees of the range allocator: going down to insert keeps the order, going down to find meets
  what is looked for, and going on to the next never comes back.
\<close>

lemma holes_in_simps [simp]:
  "holes_in \<langle>\<rangle> = []" "holes_in \<langle>l, a, r\<rangle> = holes_in l @ fst a # holes_in r" "holes_in (mirror t) = rev (holes_in t)"
  by (simp_all add: holes_in_def inorder_mirror rev_map)

lemma holes_in_map: "holes_in (map_tree (map_prod f id) t) = map f (holes_in t)"
  by (simp add: holes_in_def inorder_map o_def)

lemma holes_in_Nil: "holes_in t = [] \<longleftrightarrow> t = \<langle>\<rangle>"
  by (cases t) simp_all

section \<open>Inserting\<close>

definition falling :: "(nat \<Rightarrow> drm_mm_node) \<Rightarrow> nat list \<Rightarrow> bool" where
  "falling nd xs \<longleftrightarrow> sorted_wrt (\<lambda>a b. hole_size (nd b) \<le> hole_size (nd a)) xs"

definition rising :: "(nat \<Rightarrow> drm_mm_node) \<Rightarrow> nat list \<Rightarrow> bool" where
  "rising nd xs \<longleftrightarrow> sorted_wrt (\<lambda>a b. drm_mm_hole_node_start (nd a) \<le> drm_mm_hole_node_start (nd b)) xs"

lemma falling_simps [simp]:
  "falling nd []" "falling nd (x # xs) \<longleftrightarrow> (\<forall>b\<in>set xs. hole_size (nd b) \<le> hole_size (nd x)) \<and> falling nd xs"
  "falling nd (xs @ ys) \<longleftrightarrow> falling nd xs \<and> falling nd ys \<and> (\<forall>a\<in>set xs. \<forall>b\<in>set ys. hole_size (nd b) \<le> hole_size (nd a))"
  by (auto simp: falling_def sorted_wrt_append)

lemma rising_simps [simp]:
  "rising nd []" "rising nd (x # xs) \<longleftrightarrow> (\<forall>b\<in>set xs. drm_mm_hole_node_start (nd x) \<le> drm_mm_hole_node_start (nd b)) \<and> rising nd xs"
  "rising nd (xs @ ys) \<longleftrightarrow> rising nd xs \<and> rising nd ys \<and>
     (\<forall>a\<in>set xs. \<forall>b\<in>set ys. drm_mm_hole_node_start (nd a) \<le> drm_mm_hole_node_start (nd b))"
  by (auto simp: rising_def sorted_wrt_append)

lemma falling_filter: "falling nd xs \<Longrightarrow> falling nd (filter P xs)"
  unfolding falling_def by (rule sorted_wrt_filter)

lemma rising_filter: "rising nd xs \<Longrightarrow> rising nd (filter P xs)"
  unfolding rising_def by (rule sorted_wrt_filter)

lemma falling_cong: "(\<And>m. m \<in> set xs \<Longrightarrow> hole_size (nd' m) = hole_size (nd m)) \<Longrightarrow> falling nd' xs = falling nd xs"
  unfolding falling_def by (induction xs) auto

lemma rising_cong:
  "(\<And>m. m \<in> set xs \<Longrightarrow> drm_mm_hole_node_start (nd' m) = drm_mm_hole_node_start (nd m)) \<Longrightarrow> rising nd' xs = rising nd xs"
  unfolding rising_def by (induction xs) auto

lemma link_size_ids:
  "falling nd (holes_in t) \<Longrightarrow> \<exists>as bs. holes_in t = as @ bs \<and> holes_in (fst (link_size nd n x t)) = as @ n # bs \<and>
     (\<forall>a\<in>set as. x \<le> hole_size (nd a)) \<and> (\<forall>b\<in>set bs. hole_size (nd b) < x) \<and> (snd (link_size nd n x t) \<longleftrightarrow> as = [])"
proof (induction t)
  case Leaf
  then show ?case by simp
next
  case (Node l a r)
  show ?case
  proof (cases "hole_size (nd (fst a)) < x")
    case True
    obtain as bs where s: "holes_in l = as @ bs" "holes_in (fst (link_size nd n x l)) = as @ n # bs" "\<forall>a\<in>set as. x \<le> hole_size (nd a)"
      "\<forall>b\<in>set bs. hole_size (nd b) < x" "snd (link_size nd n x l) \<longleftrightarrow> as = []" using Node by auto
    have "\<forall>b\<in>set (holes_in r). hole_size (nd b) < x" using Node.prems True by fastforce
    then show ?thesis using s True by (intro exI [of _ as] exI [of _ "bs @ fst a # holes_in r"]) (auto split: prod.splits)
  next
    case False
    obtain as bs where s: "holes_in r = as @ bs" "holes_in (fst (link_size nd n x r)) = as @ n # bs" "\<forall>a\<in>set as. x \<le> hole_size (nd a)"
      "\<forall>b\<in>set bs. hole_size (nd b) < x" using Node by auto
    have "\<forall>b\<in>set (holes_in l). x \<le> hole_size (nd b)" using Node.prems False by fastforce
    then show ?thesis using s False by (intro exI [of _ "holes_in l @ fst a # as"] exI [of _ bs]) (auto split: prod.splits)
  qed
qed

text \<open>Nodes that differ in nothing but the largest hole below them.\<close>

definition same_holes :: "(nat \<Rightarrow> drm_mm_node) \<Rightarrow> (nat \<Rightarrow> drm_mm_node) \<Rightarrow> bool" where
  "same_holes nd nd' \<longleftrightarrow> (\<forall>m. (nd m)\<lparr>subtree_max_hole := 0\<rparr> = (nd' m)\<lparr>subtree_max_hole := 0\<rparr>)"

lemma same_holesD:
  assumes "same_holes nd nd'"
  shows "mn_start (nd' m) = mn_start (nd m)" "mn_size (nd' m) = mn_size (nd m)" "hole_size (nd' m) = hole_size (nd m)"
    "mn_color (nd' m) = mn_color (nd m)" "allocated_bit (nd' m) = allocated_bit (nd m)" "scanned_bit (nd' m) = scanned_bit (nd m)"
    "drm_mm_hole_node_start (nd' m) = drm_mm_hole_node_start (nd m)"
proof -
  have e: "(nd m)\<lparr>subtree_max_hole := 0\<rparr> = (nd' m)\<lparr>subtree_max_hole := 0\<rparr>" using assms unfolding same_holes_def by blast
  show "mn_start (nd' m) = mn_start (nd m)" "mn_size (nd' m) = mn_size (nd m)" "hole_size (nd' m) = hole_size (nd m)"
    "mn_color (nd' m) = mn_color (nd m)" "allocated_bit (nd' m) = allocated_bit (nd m)" "scanned_bit (nd' m) = scanned_bit (nd m)"
    using e by (cases "nd m"; cases "nd' m"; simp)+
  then show "drm_mm_hole_node_start (nd' m) = drm_mm_hole_node_start (nd m)" by (simp add: drm_mm_hole_node_start_def)
qed

lemma same_holes_refl [simp]: "same_holes nd nd"
  by (simp add: same_holes_def)

lemma same_holes_trans: "same_holes nd nd' \<Longrightarrow> same_holes nd' nd'' \<Longrightarrow> same_holes nd nd''"
  by (simp add: same_holes_def)

lemma same_holes_upd: "same_holes nd (nd(m := (nd m)\<lparr>subtree_max_hole := v\<rparr>))"
  by (simp add: same_holes_def)

lemma link_addr_ids:
  "rising nd (holes_in t) \<Longrightarrow> same_holes nd (snd (link_addr n start mx t nd)) \<and>
     (\<exists>as bs. holes_in t = as @ bs \<and> holes_in (fst (link_addr n start mx t nd)) = as @ n # bs \<and>
       (\<forall>a\<in>set as. drm_mm_hole_node_start (nd a) \<le> start) \<and> (\<forall>b\<in>set bs. start < drm_mm_hole_node_start (nd b)))"
proof (induction t arbitrary: nd)
  case Leaf
  then show ?case by simp
next
  case (Node l a r)
  define nd1 where "nd1 = (if subtree_max_hole (nd (fst a)) < mx then nd(fst a := (nd (fst a))\<lparr>subtree_max_hole := mx\<rparr>) else nd)"
  have s1: "same_holes nd nd1" by (simp add: nd1_def same_holes_upd)
  note e = same_holesD(7) [OF s1]
  have ri: "rising nd1 (holes_in l)" "rising nd1 (holes_in r)" using Node.prems rising_cong [of _ nd1 nd] e by simp_all
  have step: "link_addr n start mx \<langle>l, a, r\<rangle> nd =
      (if start < drm_mm_hole_node_start (nd (fst a)) then (\<langle>fst (link_addr n start mx l nd1), a, r\<rangle>, snd (link_addr n start mx l nd1))
       else (\<langle>l, a, fst (link_addr n start mx r nd1)\<rangle>, snd (link_addr n start mx r nd1)))"
    by (simp add: nd1_def Let_def split: prod.splits)
  show ?case
  proof (cases "start < drm_mm_hole_node_start (nd (fst a))")
    case True
    obtain as bs where s: "holes_in l = as @ bs" "holes_in (fst (link_addr n start mx l nd1)) = as @ n # bs" "\<forall>a\<in>set as. drm_mm_hole_node_start (nd a) \<le> start"
      "\<forall>b\<in>set bs. start < drm_mm_hole_node_start (nd b)" "same_holes nd1 (snd (link_addr n start mx l nd1))" using Node.IH(1) [OF ri(1)] e by auto
    have "\<forall>b\<in>set (holes_in r). start < drm_mm_hole_node_start (nd b)" using Node.prems True by fastforce
    then have "\<exists>as' bs'. as @ bs @ fst a # holes_in r = as' @ bs' \<and> as @ n # bs @ fst a # holes_in r = as' @ n # bs' \<and>
        (\<forall>a\<in>set as'. drm_mm_hole_node_start (nd a) \<le> start) \<and> (\<forall>b\<in>set bs'. start < drm_mm_hole_node_start (nd b))"
      using s(3,4) True by (intro exI [of _ as] exI [of _ "bs @ fst a # holes_in r"]) auto
    then show ?thesis unfolding step using s(1,2) True same_holes_trans [OF s1 s(5)] by simp
  next
    case False
    obtain as bs where s: "holes_in r = as @ bs" "holes_in (fst (link_addr n start mx r nd1)) = as @ n # bs" "\<forall>a\<in>set as. drm_mm_hole_node_start (nd a) \<le> start"
      "\<forall>b\<in>set bs. start < drm_mm_hole_node_start (nd b)" "same_holes nd1 (snd (link_addr n start mx r nd1))" using Node.IH(2) [OF ri(2)] e by auto
    have "\<forall>b\<in>set (holes_in l). drm_mm_hole_node_start (nd b) \<le> start" using Node.prems False by fastforce
    then have "\<exists>as' bs'. holes_in l @ fst a # as @ bs = as' @ bs' \<and> holes_in l @ fst a # as @ n # bs = as' @ n # bs' \<and>
        (\<forall>a\<in>set as'. drm_mm_hole_node_start (nd a) \<le> start) \<and> (\<forall>b\<in>set bs'. start < drm_mm_hole_node_start (nd b))"
      using s(3,4) False by (intro exI [of _ "holes_in l @ fst a # as"] exI [of _ bs]) auto
    then show ?thesis unfolding step using s(1,2) False same_holes_trans [OF s1 s(5)] by simp
  qed
qed

section \<open>Finding\<close>

lemma best_below_result:
  "falling nd (holes_in t) \<Longrightarrow> \<exists>as bs. holes_in t = as @ bs \<and> (\<forall>a\<in>set as. sz \<le> hole_size (nd a)) \<and> (\<forall>b\<in>set bs. hole_size (nd b) < sz) \<and>
     best_below nd sz t best = (if as = [] then best else Some (List.last as))"
proof (induction t arbitrary: best)
  case Leaf
  then show ?case by simp
next
  case (Node l a r)
  show ?case
  proof (cases "sz \<le> hole_size (nd (fst a))")
    case True
    obtain as bs where s: "holes_in r = as @ bs" "\<forall>a\<in>set as. sz \<le> hole_size (nd a)" "\<forall>b\<in>set bs. hole_size (nd b) < sz"
      "best_below nd sz r (Some (fst a)) = (if as = [] then Some (fst a) else Some (List.last as))"
      using Node.IH(2) [of "Some (fst a)"] Node.prems by auto
    have "\<forall>b\<in>set (holes_in l). sz \<le> hole_size (nd b)" using Node.prems True by fastforce
    then show ?thesis using s True by (intro exI [of _ "holes_in l @ fst a # as"] exI [of _ bs]) auto
  next
    case False
    obtain as bs where s: "holes_in l = as @ bs" "\<forall>a\<in>set as. sz \<le> hole_size (nd a)" "\<forall>b\<in>set bs. hole_size (nd b) < sz"
      "best_below nd sz l best = (if as = [] then best else Some (List.last as))" using Node.IH(1) [of best] Node.prems by auto
    have "\<forall>b\<in>set (holes_in r). hole_size (nd b) < sz" using Node.prems False by fastforce
    then show ?thesis using s False by (intro exI [of _ as] exI [of _ "bs @ fst a # holes_in r"]) auto
  qed
qed

lemma find_below_in: "find_below nd addr sz t node = Some h \<Longrightarrow> h \<in> set (holes_in t) \<or> node = Some h"
  by (induction t arbitrary: node) (auto simp: Let_def split: if_splits)

text \<open>Where no hole touches the next, asking for size 0 finds the hole an address is in, whatever the trees say of sizes.\<close>

lemma find_below_hit:
  assumes "h \<in> set (holes_in t)" "drm_mm_hole_node_start (nd h) \<le> addr" "addr \<le> drm_mm_hole_node_start (nd h) + hole_size (nd h)"
    and "sorted_wrt (\<lambda>a b. unat (drm_mm_hole_node_start (nd a)) + unat (hole_size (nd a)) < unat (drm_mm_hole_node_start (nd b))) (holes_in t)"
    and "\<forall>a\<in>set (holes_in t). unat (drm_mm_hole_node_start (nd a)) + unat (hole_size (nd a)) < 2 ^ 64"
  shows "find_below nd addr 0 t node = Some h"
  using assms
proof (induction t arbitrary: node)
  case (Node l a r)
  let ?s = "\<lambda>m. drm_mm_hole_node_start (nd m)" and ?z = "\<lambda>m. hole_size (nd m)"
  have fin: "unat (?s m + ?z m) = unat (?s m) + unat (?z m)" if "m \<in> set (holes_in \<langle>l, a, r\<rangle>)" for m
  proof -
    have "unat (?s m) + unat (?z m) < 2 ^ 64" using bspec [OF Node.prems(5) that] .
    then show ?thesis by (simp add: unat_word_ariths)
  qed
  consider (here) "h = fst a" | (left) "h \<in> set (holes_in l)" "h \<noteq> fst a" | (right) "h \<in> set (holes_in r)" "h \<noteq> fst a" using Node.prems(1) by auto
  then show ?case
  proof cases
    case here
    then show ?thesis using Node.prems(2,3) by (simp add: Let_def leD)
  next
    case left
    then have "unat (?s h) + unat (?z h) < unat (?s (fst a))" using Node.prems(4) by (simp add: sorted_wrt_append)
    then have "addr < ?s (fst a)" using Node.prems(3) fin [of h] Node.prems(1) by (simp add: word_less_nat_alt word_le_nat_alt)
    then show ?thesis using Node.IH(1) [OF left(1) Node.prems(2,3)] Node.prems(4,5) by (simp add: Let_def sorted_wrt_append)
  next
    case right
    then have "unat (?s (fst a)) + unat (?z (fst a)) < unat (?s h)" using Node.prems(4) by (simp add: sorted_wrt_append)
    then have "?s (fst a) + ?z (fst a) < addr" "\<not> addr < ?s (fst a)"
      using Node.prems(2) fin [of "fst a"] by (simp_all add: word_less_nat_alt word_le_nat_alt)
    then show ?thesis using Node.IH(2) [OF right(1) Node.prems(2,3)] Node.prems(4,5) by (simp add: Let_def sorted_wrt_append)
  qed
qed simp

section \<open>Going on\<close>

lemma outermost_usable_in: "outermost_usable nd sz m t \<in> set (holes_in t) \<or> t = \<langle>\<rangle>"
  by (induction nd sz m t rule: outermost_usable.induct) (auto elim: usable_hole_addr.elims)

lemma split_once: "n \<notin> set xs \<Longrightarrow> n \<notin> set ys \<Longrightarrow> xs @ n # ys = as @ n # bs \<Longrightarrow> xs = as \<and> ys = bs"
proof (induction xs arbitrary: as)
  case Nil
  then show ?case by (cases as) auto
next
  case (Cons x xs)
  then show ?case by (cases as) auto
qed

lemma next_hole_addr_later:
  assumes "distinct (holes_in t)" "holes_in t = as @ n # bs" "next_hole_addr nd sz n t up = Some y"
  shows "y \<in> set bs \<or> up = Some y"
  using assms
proof (induction nd sz n t up arbitrary: as bs rule: next_hole_addr.induct)
  case (1 nd sz n up)
  then show ?case by simp
next
  case (2 nd sz n l a r up)
  note split = split_once
  consider (here) "fst a = n" | (left) "fst a \<noteq> n" "n \<in> set (holes_in l)" | (right) "fst a \<noteq> n" "n \<notin> set (holes_in l)" by blast
  then show ?case
  proof cases
    case here
    then have "holes_in r = bs" using 2(3,4) split [of n "holes_in l" "holes_in r"] by auto
    then show ?thesis using 2(5) here outermost_usable_in [of nd sz n r] by (cases r) (auto split: if_splits)
  next
    case left
    then obtain cs ds where s: "holes_in l = cs @ n # ds" by (meson split_list)
    have "n \<notin> set cs" "n \<notin> set (ds @ fst a # holes_in r)" using 2(3) s left by auto
    then have "bs = ds @ fst a # holes_in r" using split [of n cs "ds @ fst a # holes_in r"] 2(4) s by simp
    then show ?thesis using 2(1) [OF left(1) left(2) _ s] 2(3,5) left by auto
  next
    case right
    then have "n \<in> set (holes_in r)" using 2(4) by (metis Un_iff holes_in_simps(2) in_set_conv_decomp list.set_intros(1) set_append set_ConsD)
    then obtain cs ds where s: "holes_in r = cs @ n # ds" by (meson split_list)
    have "n \<notin> set (holes_in l @ fst a # cs)" "n \<notin> set ds" using 2(3) s right by auto
    then have "bs = ds" using split [of n "holes_in l @ fst a # cs" ds] 2(4) s by simp
    then show ?thesis using 2(2) [OF right(1) right(2) _ s] 2(3,5) right by auto
  qed
qed

lemma following_later: "following n xs = Some y \<Longrightarrow> \<exists>as bs. xs = as @ n # y # bs"
proof (induction n xs rule: following.induct)
  case (1 n x y' xs)
  show ?case
  proof (cases "x = n")
    case True
    then show ?thesis using 1(2) by (intro exI [of _ "[]"] exI [of _ xs]) simp
  next
    case False
    then obtain as bs where "y' # xs = as @ n # y # bs" using 1 by auto
    then have "x # y' # xs = (x # as) @ n # y # bs" by simp
    then show ?thesis by blast
  qed
qed auto

lemma following_None: "following n (as @ n # bs) = None \<Longrightarrow> distinct (as @ n # bs) \<Longrightarrow> bs = []"
proof (induction as)
  case Nil
  then show ?case by (cases bs) auto
next
  case (Cons a as)
  obtain y ys where y: "as @ n # bs = y # ys" by (cases "as @ n # bs") auto
  have "a \<noteq> n" using Cons.prems(2) by simp
  then have "following n (as @ n # bs) = None" using Cons.prems(1) y by simp
  then show ?case using Cons.IH Cons.prems(2) by simp
qed

end
