(* ===== verification/Mm_Inv.thy ===== *)
theory Mm_Inv
  imports Mm_Tree
begin

text \<open>
  The invariant of the range allocator: the nodes lie one behind the other in the range, the hole of a node
  is what is free up to the next, and the stack and the trees hold exactly the nodes with a hole. Adding and removing
  a hole keep the latter.
\<close>

section \<open>The invariant\<close>

abbreviation st_of :: "(nat \<Rightarrow> drm_mm_node) \<Rightarrow> nat \<Rightarrow> nat" where "st_of nd n \<equiv> unat (mn_start (nd n))"
abbreviation sz_of :: "(nat \<Rightarrow> drm_mm_node) \<Rightarrow> nat \<Rightarrow> nat" where "sz_of nd n \<equiv> unat (mn_size (nd n))"
abbreviation hs_of :: "(nat \<Rightarrow> drm_mm_node) \<Rightarrow> nat \<Rightarrow> nat" where "hs_of nd n \<equiv> unat (drm_mm_hole_node_start (nd n))"
abbreviation hl_of :: "(nat \<Rightarrow> drm_mm_node) \<Rightarrow> nat \<Rightarrow> nat" where "hl_of nd n \<equiv> unat (hole_size (nd n))"

text \<open>A node in the list has a size, does not wrap around, and is marked.\<close>

definition placed_node :: "(nat \<Rightarrow> drm_mm_node) \<Rightarrow> nat \<Rightarrow> bool" where
  "placed_node nd m \<longleftrightarrow> 0 < sz_of nd m \<and> hs_of nd m = st_of nd m + sz_of nd m \<and> allocated_bit (nd m)"

text \<open>From the end of a node on: its hole, and the nodes behind, up to an end.\<close>

fun laid :: "(nat \<Rightarrow> drm_mm_node) \<Rightarrow> nat \<Rightarrow> nat list \<Rightarrow> nat \<Rightarrow> bool" where
  "laid nd n [] e \<longleftrightarrow> hs_of nd n + hl_of nd n = e"
| "laid nd n (m # ms) e \<longleftrightarrow> hs_of nd n + hl_of nd n = st_of nd m \<and> placed_node nd m \<and> laid nd m ms e"

text \<open>The part of the list in front of a node.\<close>

definition upto_node :: "(nat \<Rightarrow> drm_mm_node) \<Rightarrow> nat list \<Rightarrow> nat \<Rightarrow> bool" where
  "upto_node nd xs h \<longleftrightarrow> (case xs of [] \<Rightarrow> True | x # xs \<Rightarrow> laid nd x xs (st_of nd h) \<and> placed_node nd h)"

definition row :: "(nat \<Rightarrow> drm_mm_node) \<Rightarrow> nat list \<Rightarrow> nat \<Rightarrow> bool" where
  "row nd xs e \<longleftrightarrow> (case xs of [] \<Rightarrow> True | x # xs \<Rightarrow> laid nd x xs e)"

definition holes_ok :: "drm_mm \<Rightarrow> nat set \<Rightarrow> bool" where
  "holes_ok mm H \<longleftrightarrow> distinct (hole_stack mm) \<and> set (hole_stack mm) = H \<and>
     distinct (holes_in (holes_size mm)) \<and> set (holes_in (holes_size mm)) = H \<and> falling (mm_node mm) (holes_in (holes_size mm)) \<and>
     holes_first mm = (case holes_in (holes_size mm) of [] \<Rightarrow> None | m # _ \<Rightarrow> Some m) \<and>
     distinct (holes_in (holes_addr mm)) \<and> set (holes_in (holes_addr mm)) = H \<and> rising (mm_node mm) (holes_in (holes_addr mm))"

definition with_hole :: "(nat \<Rightarrow> drm_mm_node) \<Rightarrow> nat list \<Rightarrow> nat set" where
  "with_hole nd xs = {n \<in> set xs. hole_size (nd n) \<noteq> 0}"

definition mm_wf :: "drm_mm \<Rightarrow> bool" where
  "mm_wf mm \<longleftrightarrow> distinct (0 # node_list mm) \<and> row (mm_node mm) (0 # node_list mm) (st_of (mm_node mm) 0) \<and>
     holes_ok mm (with_hole (mm_node mm) (0 # node_list mm))"

section \<open>Rows\<close>

lemma laid_append: "laid nd n (xs @ m # ys) e \<longleftrightarrow> laid nd n xs (st_of nd m) \<and> placed_node nd m \<and> laid nd m ys e"
  by (induction xs arbitrary: n) auto

lemma row_split: "row nd (xs @ h # ys) e \<longleftrightarrow> upto_node nd xs h \<and> laid nd h ys e"
  by (cases xs) (auto simp: row_def upto_node_def laid_append)

lemma row_Cons: "row nd (x # xs) e \<longleftrightarrow> laid nd x xs e"
  by (simp add: row_def)

text \<open>What the layout depends on.\<close>

definition agree :: "(nat \<Rightarrow> drm_mm_node) \<Rightarrow> (nat \<Rightarrow> drm_mm_node) \<Rightarrow> nat \<Rightarrow> bool" where
  "agree nd nd' m \<longleftrightarrow> mn_start (nd' m) = mn_start (nd m) \<and> mn_size (nd' m) = mn_size (nd m) \<and> allocated_bit (nd' m) = allocated_bit (nd m)"

lemma agreeD:
  assumes "agree nd nd' m"
  shows "st_of nd' m = st_of nd m" "sz_of nd' m = sz_of nd m" "drm_mm_hole_node_start (nd' m) = drm_mm_hole_node_start (nd m)"
    "placed_node nd' m = placed_node nd m"
  using assms by (simp_all add: agree_def drm_mm_hole_node_start_def placed_node_def)

lemma laid_cong:
  assumes "\<forall>m\<in>set (n # xs). agree nd nd' m \<and> hole_size (nd' m) = hole_size (nd m)"
  shows "laid nd' n xs e = laid nd n xs e"
  using assms by (induction xs arbitrary: n) (auto simp: agreeD)

lemma upto_cong:
  assumes "\<forall>m\<in>set xs. agree nd nd' m \<and> hole_size (nd' m) = hole_size (nd m)" "agree nd nd' h"
  shows "upto_node nd' xs h = upto_node nd xs h"
  using laid_cong [of _ _ nd nd'] assms by (cases xs) (auto simp: upto_node_def agreeD [OF assms(2)])

lemma same_holes_agree: "same_holes nd nd' \<Longrightarrow> agree nd nd' m \<and> hole_size (nd' m) = hole_size (nd m)"
  by (simp add: agree_def same_holesD)

lemma row_same: "same_holes nd nd' \<Longrightarrow> row nd' xs e = row nd xs e"
  using laid_cong [of _ _ nd nd'] same_holes_agree [of nd nd'] by (auto simp: row_def split: list.splits)

lemma with_hole_same: "same_holes nd nd' \<Longrightarrow> with_hole nd' xs = with_hole nd xs"
  by (simp add: with_hole_def same_holesD)

text \<open>Where the nodes are.\<close>

lemma laid_bounds:
  "laid nd n xs e \<Longrightarrow> hs_of nd n + hl_of nd n \<le> e \<and>
     (\<forall>m\<in>set xs. hs_of nd n + hl_of nd n \<le> st_of nd m \<and> placed_node nd m \<and> hs_of nd m + hl_of nd m \<le> e)"
proof (induction xs arbitrary: n)
  case (Cons m xs)
  have p: "hs_of nd m = st_of nd m + sz_of nd m" "laid nd m xs e" "placed_node nd m" "hs_of nd n + hl_of nd n = st_of nd m"
    using Cons.prems by (auto simp: placed_node_def)
  note i = Cons.IH [OF p(2)]
  have "hs_of nd n + hl_of nd n \<le> e" using i p(1,4) by linarith
  moreover have "hs_of nd n + hl_of nd n \<le> st_of nd k" if "k \<in> set xs" for k using i p(1,4) that by fastforce
  ultimately show ?case using i p by auto
qed simp

lemma upto_bounds:
  assumes "upto_node nd xs h" "m \<in> set xs"
  shows "hs_of nd m + hl_of nd m \<le> st_of nd h" "placed_node nd h"
  using assms laid_bounds by (cases xs; fastforce simp: upto_node_def)+

text \<open>Neighbours.\<close>

lemma next_of_at: "distinct (xs @ h # ys) \<Longrightarrow> next_of (xs @ h # ys) h = (case ys of [] \<Rightarrow> 0 | y # _ \<Rightarrow> y)"
proof (induction xs)
  case Nil
  then show ?case by (cases ys) auto
next
  case (Cons x xs)
  obtain y zs where y: "xs @ h # ys = y # zs" by (cases "xs @ h # ys") auto
  have "x \<noteq> h" using Cons.prems by simp
  then show ?case using Cons y by simp
qed

lemma prev_of_at: "distinct (xs @ p # n # ys) \<Longrightarrow> prev_of (xs @ p # n # ys) n = p"
proof (induction xs)
  case (Cons x xs)
  obtain y zs where y: "xs @ p # n # ys = y # zs" by (cases "xs @ p # n # ys") auto
  have "y \<noteq> n" using Cons.prems y by (cases xs) auto
  then show ?case using Cons y by simp
qed simp

lemma add_behind_at: "h \<notin> set xs \<Longrightarrow> add_behind h n (xs @ h # ys) = xs @ h # n # ys"
  by (induction xs) auto

section \<open>Removing and adding a hole\<close>

lemma holes_ok_same:
  assumes "holes_ok mm H" "hole_stack mm' = hole_stack mm" "holes_size mm' = holes_size mm" "holes_first mm' = holes_first mm"
    "holes_addr mm' = holes_addr mm"
    "\<And>m. m \<in> H \<Longrightarrow> hole_size (mm_node mm' m) = hole_size (mm_node mm m) \<and> drm_mm_hole_node_start (mm_node mm' m) = drm_mm_hole_node_start (mm_node mm m)"
  shows "holes_ok mm' H"
  using assms falling_cong [of "holes_in (holes_size mm)" "mm_node mm'" "mm_node mm"] rising_cong [of "holes_in (holes_addr mm)" "mm_node mm'" "mm_node mm"]
  unfolding holes_ok_def by simp

lemma rm_hole_keeps:
  assumes rb: "rb_laws rb" and ok: "holes_ok mm H" and h: "h \<in> H"
  shows "holes_ok (rm_hole rb h mm) (H - {h})" "node_list (rm_hole rb h mm) = node_list mm"
    "same_holes ((mm_node mm)(h := (mm_node mm h)\<lparr>hole_size := 0\<rparr>)) (mm_node (rm_hole rb h mm))"
proof -
  let ?nd = "(mm_node mm)(h := (mm_node mm h)\<lparr>hole_size := 0, subtree_max_hole := 0\<rparr>)" and ?P = "\<lambda>m. m \<noteq> h"
  have n: "mm_node (rm_hole rb h mm) = ?nd" "hole_stack (rm_hole rb h mm) = filter ?P (hole_stack mm)"
    by (simp_all add: rm_hole_def update_node_def)
  show "node_list (rm_hole rb h mm) = node_list mm" by (simp add: rm_hole_def update_node_def)
  show "same_holes ((mm_node mm)(h := (mm_node mm h)\<lparr>hole_size := 0\<rparr>)) (mm_node (rm_hole rb h mm))"
    unfolding n by (simp add: same_holes_def)
  define xs where "xs = holes_in (holes_size mm)"
  have x: "distinct xs" "set xs = H" "falling (mm_node mm) xs" "holes_first mm = (case xs of [] \<Rightarrow> None | m # _ \<Rightarrow> Some m)"
    and a: "distinct (holes_in (holes_addr mm))" "set (holes_in (holes_addr mm)) = H" "rising (mm_node mm) (holes_in (holes_addr mm))"
    and s: "distinct (hole_stack mm)" "set (hole_stack mm) = H" using ok by (simp_all add: holes_ok_def xs_def)
  have er: "holes_in (holes_size (rm_hole rb h mm)) = filter ?P xs" "holes_in (holes_addr (rm_hole rb h mm)) = filter ?P (holes_in (holes_addr mm))"
    using rb h x(1,2) a(1,2) by (simp_all add: rb_laws_def rm_hole_def update_node_def xs_def)
  have fa: "falling ?nd (filter ?P xs)" using falling_filter [OF x(3)] by (subst falling_cong [of _ ?nd "mm_node mm"]) auto
  have ri: "rising ?nd (filter ?P (holes_in (holes_addr mm)))"
    using rising_filter [OF a(3)] by (subst rising_cong [of _ ?nd "mm_node mm"]) (auto simp: drm_mm_hole_node_start_def)
  have fi: "holes_first (rm_hole rb h mm) = (case filter ?P xs of [] \<Rightarrow> None | m # _ \<Rightarrow> Some m)"
  proof (cases xs)
    case (Cons y ys)
    have "filter ?P ys = ys" if "y = h" using x(1) Cons that by (auto intro: filter_True)
    then show ?thesis using x(4) Cons by (auto simp: rm_hole_def update_node_def xs_def [symmetric])
  qed (use h x(2) in simp)
  show "holes_ok (rm_hole rb h mm) (H - {h})"
    using s x(1,2) a(1,2) fa ri fi by (auto simp: holes_ok_def er n)
qed

lemma add_hole_keeps:
  assumes rb: "rb_laws rb" and ok: "holes_ok mm H" and h: "h \<notin> H" and g: "g = drm_mm_hole_node_end mm h - drm_mm_hole_node_start (mm_node mm h)"
  shows "holes_ok (add_hole rb h mm) (insert h H)" "node_list (add_hole rb h mm) = node_list mm"
    "same_holes ((mm_node mm)(h := (mm_node mm h)\<lparr>hole_size := g\<rparr>)) (mm_node (add_hole rb h mm))"
proof -
  define nd where "nd = (mm_node mm)(h := (mm_node mm h)\<lparr>hole_size := g, subtree_max_hole := g\<rparr>)"
  define xs where "xs = holes_in (holes_size mm)"
  define ys where "ys = holes_in (holes_addr mm)"
  have x: "distinct xs" "set xs = H" "falling (mm_node mm) xs" "holes_first mm = (case xs of [] \<Rightarrow> None | m # _ \<Rightarrow> Some m)"
    and a: "distinct ys" "set ys = H" "rising (mm_node mm) ys"
    and s: "distinct (hole_stack mm)" "set (hole_stack mm) = H" using ok by (simp_all add: holes_ok_def xs_def ys_def)
  have fa: "falling nd xs" using x(3) h x(2) by (subst falling_cong [of _ nd "mm_node mm"]) (auto simp: nd_def)
  have ri: "rising nd ys" using a(3) h a(2) by (subst rising_cong [of _ nd "mm_node mm"]) (auto simp: nd_def drm_mm_hole_node_start_def)
  have e: "update_node h (\<lambda>p. p\<lparr>hole_size := g, subtree_max_hole := g\<rparr>) mm = mm\<lparr>mm_node := nd\<rparr>" by (simp add: update_node_def nd_def)
  define S where "S = link_size nd h g (holes_size mm)"
  define A where "A = link_addr h (drm_mm_hole_node_start (nd h)) g (holes_addr mm) nd"
  have z: "hole_size (nd h) = g" "subtree_max_hole (nd h) = g" by (simp_all add: nd_def)
  have u: "add_hole rb h mm = mm\<lparr>mm_node := snd A, holes_size := rb_insert_color rb h (fst S),
      holes_first := (if snd S then Some h else holes_first mm), holes_addr := rb_insert_color rb h (fst A), hole_stack := h # hole_stack mm\<rparr>"
    unfolding add_hole_def g [symmetric] Let_def insert_hole_size_def insert_hole_addr_def
    by (simp add: e z S_def A_def case_prod_beta)
  obtain as bs where sp: "xs = as @ bs" "holes_in (fst S) = as @ h # bs" "\<forall>a\<in>set as. g \<le> hole_size (nd a)" "\<forall>b\<in>set bs. hole_size (nd b) < g"
    "snd S \<longleftrightarrow> as = []" using link_size_ids [of nd "holes_size mm" h g] fa unfolding xs_def [symmetric] S_def by blast
  obtain cs ds where ap: "ys = cs @ ds" "holes_in (fst A) = cs @ h # ds" "\<forall>a\<in>set cs. drm_mm_hole_node_start (nd a) \<le> drm_mm_hole_node_start (nd h)"
    "\<forall>b\<in>set ds. drm_mm_hole_node_start (nd h) < drm_mm_hole_node_start (nd b)" and same: "same_holes nd (snd A)"
    using link_addr_ids [of nd "holes_addr mm" h "drm_mm_hole_node_start (nd h)" g] ri unfolding ys_def [symmetric] A_def by blast
  have i: "holes_in (holes_size (add_hole rb h mm)) = as @ h # bs" "holes_in (holes_addr (add_hole rb h mm)) = cs @ h # ds"
    using rb sp(2) ap(2) by (simp_all add: u rb_laws_def)
  show "node_list (add_hole rb h mm) = node_list mm" by (simp add: u)
  have "same_holes ((mm_node mm)(h := (mm_node mm h)\<lparr>hole_size := g\<rparr>)) nd" by (simp add: same_holes_def nd_def)
  then show "same_holes ((mm_node mm)(h := (mm_node mm h)\<lparr>hole_size := g\<rparr>)) (mm_node (add_hole rb h mm))"
    using same_holes_trans [OF _ same] by (simp add: u)
  have "falling nd (as @ h # bs)" using fa sp z(1) by (auto simp: order.strict_implies_order)
  then have f: "falling (snd A) (as @ h # bs)" using falling_cong [of "as @ h # bs" "snd A" nd] same_holesD(3) [OF same] by simp
  have "rising nd (cs @ h # ds)" using ri ap by (auto simp: order.strict_implies_order)
  then have r: "rising (snd A) (cs @ h # ds)" using rising_cong [of "cs @ h # ds" "snd A" nd] same_holesD(7) [OF same] by simp
  have fi: "holes_first (add_hole rb h mm) = (case as @ h # bs of [] \<Rightarrow> None | m # _ \<Rightarrow> Some m)"
    using x(4) sp(1,5) by (cases as) (simp_all add: u)
  have d: "distinct (as @ h # bs)" "set (as @ h # bs) = insert h H" "distinct (cs @ h # ds)" "set (cs @ h # ds) = insert h H"
    using x(1,2) a(1,2) h unfolding sp(1) ap(1) by auto
  show "holes_ok (add_hole rb h mm) (insert h H)"
    using d f r fi s h unfolding holes_ok_def i by (simp add: u)
qed

end
