(* ===== verification/Mm_Ops.thy ===== *)
theory Mm_Ops
  imports Mm_Inv
begin

text \<open>
  The operations of the range allocator on its layout: setting up, splitting a hole for a node, and
  joining the holes around a node that is removed, each of which keeps the invariant.
\<close>

section \<open>What does not matter\<close>

lemma hole_start_update [simp]:
  "drm_mm_hole_node_start (p\<lparr>hole_size := g\<rparr>) = drm_mm_hole_node_start p"
  "drm_mm_hole_node_start (p\<lparr>allocated_bit := b\<rparr>) = drm_mm_hole_node_start p"
  by (simp_all add: drm_mm_hole_node_start_def)

lemma wf_update_other:
  assumes "mm_wf mm" "n \<notin> set (0 # node_list mm)"
  shows "mm_wf (update_node n f mm)"
proof -
  let ?mm = "update_node n f mm"
  have e: "mm_node ?mm m = mm_node mm m" if "m \<in> set (0 # node_list mm)" for m using assms(2) that by (auto simp: update_node_def)
  have l: "node_list ?mm = node_list mm" by (simp add: update_node_def)
  have "laid (mm_node ?mm) 0 (node_list mm) x = laid (mm_node mm) 0 (node_list mm) x" for x
    by (rule laid_cong) (simp add: e agree_def)
  then have r: "row (mm_node ?mm) (0 # node_list mm) (st_of (mm_node ?mm) 0)" using assms(1) e [of 0] by (simp add: mm_wf_def row_Cons)
  have w: "with_hole (mm_node ?mm) (0 # node_list mm) = with_hole (mm_node mm) (0 # node_list mm)" using e by (auto simp: with_hole_def)
  have "holes_ok ?mm (with_hole (mm_node mm) (0 # node_list mm))"
    by (rule holes_ok_same [where mm = mm]) (use assms(1) e in \<open>auto simp: mm_wf_def update_node_def with_hole_def\<close>)
  then show ?thesis using assms(1) r w by (simp add: mm_wf_def l)
qed

text \<open>The layout behind a node depends only on where its hole ends.\<close>

lemma laid_from:
  assumes "laid nd h ys e" "hs_of nd' n + hl_of nd' n = hs_of nd h + hl_of nd h"
    and "\<forall>m\<in>set ys. agree nd nd' m \<and> hole_size (nd' m) = hole_size (nd m)"
  shows "laid nd' n ys e"
proof (cases ys)
  case (Cons y zs)
  then have "laid nd' y zs e" using laid_cong [of y zs nd nd' e] assms(1,3) by simp
  moreover have "agree nd nd' y" using assms(3) Cons by simp
  ultimately show ?thesis using assms(1,2) Cons by (simp add: agreeD(1,4))
qed (use assms in simp)

text \<open>Adding a hole only where there is one leaves the size of the gap in the node.\<close>

lemma add_gap:
  assumes rb: "rb_laws rb" and ok: "holes_ok mm H" and h: "h \<notin> H" and z: "hole_size (mm_node mm h) = 0"
    and g: "g = drm_mm_hole_node_end mm h - drm_mm_hole_node_start (mm_node mm h)" and c: "c \<longleftrightarrow> g \<noteq> 0"
    and m: "mm' = (if c then add_hole rb h mm else mm)"
  shows "holes_ok mm' (if c then insert h H else H)" "node_list mm' = node_list mm"
    "same_holes ((mm_node mm)(h := (mm_node mm h)\<lparr>hole_size := g\<rparr>)) (mm_node mm')"
proof -
  show "holes_ok mm' (if c then insert h H else H)" "node_list mm' = node_list mm"
    using add_hole_keeps [OF rb ok h g] ok m by simp_all
  have "(mm_node mm)(h := (mm_node mm h)\<lparr>hole_size := 0\<rparr>) = mm_node mm" using z by (metis drm_mm_node.surjective drm_mm_node.update_convs(4) fun_upd_triv)
  then show "same_holes ((mm_node mm)(h := (mm_node mm h)\<lparr>hole_size := g\<rparr>)) (mm_node mm')"
    using add_hole_keeps(3) [OF rb ok h g] m c by auto
qed

lemma same_holes_fun_upd:
  "same_holes nd nd' \<Longrightarrow> same_holes (nd(h := (nd h)\<lparr>hole_size := g\<rparr>)) (nd'(h := (nd' h)\<lparr>hole_size := g\<rparr>))"
proof -
  assume s: "same_holes nd nd'"
  have "(nd h)\<lparr>subtree_max_hole := 0\<rparr> = (nd' h)\<lparr>subtree_max_hole := 0\<rparr>" using s unfolding same_holes_def by blast
  then have "(nd h)\<lparr>hole_size := g, subtree_max_hole := 0\<rparr> = (nd' h)\<lparr>hole_size := g, subtree_max_hole := 0\<rparr>"
    by (cases "nd h", cases "nd' h") simp
  then show ?thesis using s by (simp add: same_holes_def)
qed

section \<open>Splitting a hole\<close>

lemma next_start:
  assumes l: "laid nd h ys (st_of nd 0)"
  shows "mn_start (nd (case ys of [] \<Rightarrow> 0 | y # _ \<Rightarrow> y)) = drm_mm_hole_node_start (nd h) + hole_size (nd h)"
proof -
  have e: "hs_of nd h + hl_of nd h = st_of nd (case ys of [] \<Rightarrow> 0 | y # _ \<Rightarrow> y)" using l by (cases ys) simp_all
  then have "hs_of nd h + hl_of nd h < 2 ^ 64" using unsigned_less [of "mn_start (nd (case ys of [] \<Rightarrow> 0 | y # _ \<Rightarrow> y))", where 'a = nat] by simp
  then have "unat (drm_mm_hole_node_start (nd h) + hole_size (nd h)) = hs_of nd h + hl_of nd h" by (simp add: unat_word_ariths)
  then show ?thesis using e by (simp add: word_unat_eq_iff)
qed

lemma hole_end_at:
  assumes "distinct (0 # node_list mm)" "0 # node_list mm = xs @ h # ys"
  shows "drm_mm_hole_node_end mm h = mn_start (mm_node mm (case ys of [] \<Rightarrow> 0 | y # _ \<Rightarrow> y))"
  using next_of_at [of xs h ys] assms unfolding drm_mm_hole_node_end_def list_next_entry_def by metis

lemma occupy_keeps:
  assumes rb: "rb_laws rb" and wf: "mm_wf mm" and sp: "0 # node_list mm = xs @ h # ys" and n: "n \<notin> set (0 # node_list mm)"
    and z: "0 < sz_of (mm_node mm) n" and lo: "hs_of (mm_node mm) h \<le> st_of (mm_node mm) n"
    and hi: "st_of (mm_node mm) n + sz_of (mm_node mm) n \<le> hs_of (mm_node mm) h + hl_of (mm_node mm) h"
    and hole: "hole_start = drm_mm_hole_node_start (mm_node mm h)" "hole_end = hole_start + hole_size (mm_node mm h)"
  shows "mm_wf (occupy rb n h hole_start hole_end mm)" "0 # node_list (occupy rb n h hole_start hole_end mm) = xs @ h # n # ys"
    "agree ((mm_node mm)(n := (mm_node mm n)\<lparr>allocated_bit := True\<rparr>)) (mm_node (occupy rb n h hole_start hole_end mm)) m"
proof -
  define nd where "nd = mm_node mm"
  define fin where "fin = mn_start (nd n) + mn_size (nd n)"
  define g1 where "g1 = mn_start (nd n) - hole_start"
  define g2 where "g2 = hole_end - fin"
  define mm1 where "mm1 = update_node n (\<lambda>p. p\<lparr>allocated_bit := True, hole_size := 0\<rparr>) mm"
  define mm2 where "mm2 = list_add n h mm1"
  define mm3 where "mm3 = rm_hole rb h mm2"
  define mm4 where "mm4 = (if g1 \<noteq> 0 then add_hole rb h mm3 else mm3)"
  define mm5 where "mm5 = (if g2 \<noteq> 0 then add_hole rb n mm4 else mm4)"
  have d: "distinct (xs @ h # ys)" and hn: "h \<noteq> n" "n \<notin> set xs" "n \<notin> set ys" "n \<noteq> 0"
  proof -
    show "distinct (xs @ h # ys)" using wf unfolding mm_wf_def sp by blast
    show "n \<noteq> 0" using n by simp
    show "h \<noteq> n" "n \<notin> set xs" "n \<notin> set ys" using n unfolding sp by auto
  qed
  have la: "upto_node nd xs h" "laid nd h ys (st_of nd 0)" using wf sp unfolding mm_wf_def nd_def by (simp_all add: row_split)
  have ns: "mn_start (nd (case ys of [] \<Rightarrow> 0 | y # _ \<Rightarrow> y)) = hole_end" using next_start [OF la(2)] by (simp add: hole nd_def)
  have he: "unat hole_end = hs_of nd h + hl_of nd h"
    using la(2) ns by (cases ys) simp_all
  have fi: "unat fin = st_of nd n + sz_of nd n"
  proof -
    have "st_of nd n + sz_of nd n < 2 ^ 64" using hi he unsigned_less [of hole_end, where 'a = nat] unfolding nd_def by simp
    then show ?thesis by (simp add: fin_def unat_word_ariths)
  qed
  have g1: "unat g1 = st_of nd n - hs_of nd h" using lo by (simp add: g1_def hole nd_def unat_sub word_le_nat_alt)
  have g2: "unat g2 = hs_of nd h + hl_of nd h - unat fin" using hi he fi by (simp add: g2_def nd_def unat_sub word_le_nat_alt)
  have cond: "hole_start < mn_start (nd n) \<longleftrightarrow> g1 \<noteq> 0" "fin < hole_end \<longleftrightarrow> g2 \<noteq> 0"
  proof -
    have "hole_start < mn_start (nd n) \<longleftrightarrow> 0 < unat g1" using lo unfolding g1 hole nd_def by (simp add: word_less_nat_alt)
    then show "hole_start < mn_start (nd n) \<longleftrightarrow> g1 \<noteq> 0" by (simp add: unat_gt_0)
    have "fin < hole_end \<longleftrightarrow> 0 < unat g2" unfolding g2 by (simp add: word_less_nat_alt he)
    then show "fin < hole_end \<longleftrightarrow> g2 \<noteq> 0" by (simp add: unat_gt_0)
  qed
  have oc: "occupy rb n h hole_start hole_end mm = mm5"
    unfolding occupy_def Let_def mm5_def mm4_def mm3_def mm2_def mm1_def cond [symmetric] fin_def nd_def by simp
  define nd1 where "nd1 = nd(n := (nd n)\<lparr>allocated_bit := True, hole_size := 0\<rparr>)"
  define H where "H = with_hole nd (0 # node_list mm)"
  have hH: "h \<in> H" using sp hi z lo unfolding H_def with_hole_def nd_def by (auto simp: unat_eq_0)
  have nH: "n \<notin> H" using n by (auto simp: H_def with_hole_def)
  have H0: "holes_ok mm H" using wf by (simp add: mm_wf_def H_def nd_def)
  have l2: "0 # node_list mm2 = xs @ h # n # ys"
  proof -
    have "0 # tl (add_behind h n (0 # node_list mm)) = xs @ h # n # ys"
      unfolding sp using add_behind_at [of h xs n ys] d sp by (cases xs) auto
    then show ?thesis by (simp add: mm2_def mm1_def list_add_def update_node_def)
  qed
  have n2: "mm_node mm2 = nd1" by (simp add: mm2_def mm1_def list_add_def update_node_def nd1_def nd_def)
  have H2: "holes_ok mm2 H"
    by (rule holes_ok_same [OF H0]) (use nH in \<open>auto simp: mm2_def mm1_def list_add_def update_node_def drm_mm_hole_node_start_def\<close>)
  note r3 = rm_hole_keeps [OF rb H2 hH, folded mm3_def]
  have l3: "0 # node_list mm3 = xs @ h # n # ys" using r3(2) l2 by simp
  have d3: "distinct (0 # node_list mm3)" unfolding l3 using d hn by auto
  have s3: "same_holes (nd1(h := (nd1 h)\<lparr>hole_size := 0\<rparr>)) (mm_node mm3)" using r3(3) n2 by simp
  have v3: "mn_start (mm_node mm3 k) = mn_start (nd k)" "drm_mm_hole_node_start (mm_node mm3 k) = drm_mm_hole_node_start (nd k)" for k
    using same_holesD(1,7) [OF s3, of k] by (auto simp: nd1_def drm_mm_hole_node_start_def)
  have e3: "g1 = drm_mm_hole_node_end mm3 h - drm_mm_hole_node_start (mm_node mm3 h)"
    using hole_end_at [OF d3 l3] v3 by (simp add: g1_def hole nd_def)
  have z3: "hole_size (mm_node mm3 h) = 0" using same_holesD(3) [OF s3, of h] by simp
  have "h \<notin> H - {h}" by simp
  note r4 = add_gap [OF rb r3(1) this z3 e3 refl mm4_def]
  define nd4 where "nd4 = nd1(h := (nd1 h)\<lparr>hole_size := g1\<rparr>)"
  have s4: "same_holes nd4 (mm_node mm4)"
    using same_holes_trans [OF same_holes_fun_upd [OF s3, of h g1] r4(3)] by (simp add: nd4_def)
  have l4: "0 # node_list mm4 = (xs @ [h]) @ n # ys" using r4(2) l3 by simp
  have d4: "distinct (0 # node_list mm4)" using d3 r4(2) by simp
  have v4: "mn_start (mm_node mm4 k) = mn_start (nd k)" "drm_mm_hole_node_start (mm_node mm4 k) = drm_mm_hole_node_start (nd k)" for k
    using same_holesD(1,7) [OF s4, of k] by (auto simp: nd4_def nd1_def drm_mm_hole_node_start_def)
  have e4: "g2 = drm_mm_hole_node_end mm4 n - drm_mm_hole_node_start (mm_node mm4 n)"
    using hole_end_at [OF d4 l4] v4 ns by (simp add: g2_def fin_def drm_mm_hole_node_start_def)
  have z4: "hole_size (mm_node mm4 n) = 0" using same_holesD(3) [OF s4, of n] hn by (simp add: nd4_def nd1_def)
  have n4: "n \<notin> (if g1 \<noteq> 0 then insert h (H - {h}) else H - {h})" using nH hn by simp
  note r5 = add_gap [OF rb r4(1) n4 z4 e4 refl mm5_def]
  define nd5 where "nd5 = nd4(n := (nd4 n)\<lparr>hole_size := g2\<rparr>)"
  have s5: "same_holes nd5 (mm_node mm5)"
    using same_holes_trans [OF same_holes_fun_upd [OF s4, of n g2] r5(3)] by (simp add: nd5_def)
  have l5: "0 # node_list mm5 = xs @ h # n # ys" using r5(2) l4 by simp
  show "0 # node_list (occupy rb n h hole_start hole_end mm) = xs @ h # n # ys" unfolding oc by (rule l5)
  have ag: "agree (nd(n := (nd n)\<lparr>allocated_bit := True\<rparr>)) nd5 m" for m by (simp add: agree_def nd5_def nd4_def nd1_def)
  then show "agree ((mm_node mm)(n := (mm_node mm n)\<lparr>allocated_bit := True\<rparr>)) (mm_node (occupy rb n h hole_start hole_end mm)) m"
    unfolding oc nd_def [symmetric] using same_holes_agree [OF s5, of m] ag [of m] by (simp add: agree_def)
  have up: "upto_node nd5 xs h"
  proof -
    have "upto_node nd5 xs h = upto_node nd xs h"
      by (rule upto_cong) (use d hn in \<open>auto simp: agree_def nd5_def nd4_def nd1_def\<close>)
    then show ?thesis using la(1) by simp
  qed
  have v5: "drm_mm_hole_node_start (nd5 k) = drm_mm_hole_node_start (nd k)" "mn_start (nd5 k) = mn_start (nd k)" for k
    by (auto simp: nd5_def nd4_def nd1_def drm_mm_hole_node_start_def)
  have "hs_of nd n = unat fin" by (simp add: fin_def drm_mm_hole_node_start_def)
  moreover have "hole_size (nd5 n) = g2" "hole_size (nd5 h) = g1" using hn by (simp_all add: nd5_def nd4_def)
  ultimately have h5: "hs_of nd5 n + hl_of nd5 n = hs_of nd h + hl_of nd h" "hs_of nd5 h + hl_of nd5 h = st_of nd5 n"
    "placed_node nd5 n"
    using g1 g2 he fi lo hi z unfolding nd_def [symmetric]
    by (auto simp: v5 placed_node_def word_le_nat_alt nd5_def nd4_def nd1_def)
  have "\<forall>m\<in>set ys. agree nd nd5 m \<and> hole_size (nd5 m) = hole_size (nd m)" using d hn by (auto simp: agree_def nd5_def nd4_def nd1_def)
  then have "laid nd5 n ys (st_of nd5 0)" using laid_from [of nd h ys "st_of nd 0" nd5 n] la(2) h5(1) v5(2) [of 0] by simp
  then have "row nd5 (xs @ h # n # ys) (st_of nd5 0)" using up h5(2,3) by (simp add: row_split)
  then have ro: "row (mm_node mm5) (0 # node_list mm5) (st_of (mm_node mm5) 0)"
    using row_same [OF s5] same_holesD(1) [OF s5, of 0] by (simp add: l5)
  have "with_hole nd5 (0 # node_list mm5) = (if g2 \<noteq> 0 then insert n (if g1 \<noteq> 0 then insert h (H - {h}) else H - {h})
      else (if g1 \<noteq> 0 then insert h (H - {h}) else H - {h}))"
    using sp hn unfolding l5 H_def with_hole_def by (auto simp: nd5_def nd4_def nd1_def)
  then have "holes_ok mm5 (with_hole (mm_node mm5) (0 # node_list mm5))" using r5(1) with_hole_same [OF s5] by simp
  moreover have "distinct (0 # node_list mm5)" unfolding l5 using d hn by auto
  ultimately show "mm_wf (occupy rb n h hole_start hole_end mm)" unfolding oc mm_wf_def using ro by blast
qed

section \<open>Joining the holes around a node\<close>

lemma rm_if:
  assumes rb: "rb_laws rb" and ok: "holes_ok mm H" and c: "h \<in> H \<longleftrightarrow> drm_mm_hole_follows (mm_node mm h)"
    and m: "mm' = (if drm_mm_hole_follows (mm_node mm h) then rm_hole rb h mm else mm)"
  shows "holes_ok mm' (H - {h})" "node_list mm' = node_list mm"
    "same_holes ((mm_node mm)(h := (mm_node mm h)\<lparr>hole_size := 0\<rparr>)) (mm_node mm')"
proof -
  show "holes_ok mm' (H - {h})" "node_list mm' = node_list mm" using rm_hole_keeps(1,2) [OF rb ok] ok m c by (simp_all split: if_splits)
  show "same_holes ((mm_node mm)(h := (mm_node mm h)\<lparr>hole_size := 0\<rparr>)) (mm_node mm')"
  proof (cases "h \<in> H")
    case False
    then have "hole_size (mm_node mm h) = 0" using c by (simp add: drm_mm_hole_follows_def)
    then have "(mm_node mm)(h := (mm_node mm h)\<lparr>hole_size := 0\<rparr>) = mm_node mm" by (metis drm_mm_node.surjective drm_mm_node.update_convs(4) fun_upd_triv)
    then show ?thesis using m c False by simp
  qed (use rm_hole_keeps(3) [OF rb ok] m c in simp)
qed

lemma mm_remove_keeps:
  assumes rb: "rb_laws rb" and wf: "mm_wf mm" and sp: "0 # node_list mm = xs @ p # n # ys"
  shows "mm_wf (drm_mm_remove_node rb mm n)" "0 # node_list (drm_mm_remove_node rb mm n) = xs @ p # ys"
    "agree ((mm_node mm)(n := (mm_node mm n)\<lparr>allocated_bit := False\<rparr>)) (mm_node (drm_mm_remove_node rb mm n)) m"
proof -
  define nd where "nd = mm_node mm"
  define mm1 where "mm1 = (if drm_mm_hole_follows (mm_node mm n) then rm_hole rb n mm else mm)"
  define mm2 where "mm2 = mm1\<lparr>node_list := filter (\<lambda>m. m \<noteq> n) (node_list mm1)\<rparr>"
  define mm3 where "mm3 = (if drm_mm_hole_follows (mm_node mm2 p) then rm_hole rb p mm2 else mm2)"
  define mm4 where "mm4 = add_hole rb p mm3"
  define mm5 where "mm5 = update_node n (\<lambda>p. p\<lparr>allocated_bit := False\<rparr>) mm4"
  have d: "distinct (xs @ p # n # ys)" using wf unfolding mm_wf_def sp by blast
  then have ne: "p \<noteq> n" "n \<notin> set xs" "n \<notin> set ys" "p \<notin> set xs" "p \<notin> set ys" by auto
  have nl: "n \<in> set (node_list mm)" using sp ne by (cases xs) auto
  moreover have "0 \<notin> set (node_list mm)" using wf by (simp add: mm_wf_def)
  ultimately have n0: "n \<noteq> 0" by metis
  have pv: "list_prev_entry mm n = p" unfolding list_prev_entry_def sp using prev_of_at [OF d] n0 by simp
  have rm: "drm_mm_remove_node rb mm n = mm5"
    unfolding drm_mm_remove_node_def Let_def pv mm5_def mm4_def mm3_def mm2_def mm1_def by simp
  define H where "H = with_hole nd (0 # node_list mm)"
  have H0: "holes_ok mm H" using wf by (simp add: mm_wf_def H_def nd_def)
  have "n \<in> H \<longleftrightarrow> drm_mm_hole_follows (mm_node mm n)" using nl by (simp add: H_def with_hole_def nd_def drm_mm_hole_follows_def)
  note r1 = rm_if [OF rb H0 this mm1_def]
  define nd1 where "nd1 = nd(n := (nd n)\<lparr>hole_size := 0\<rparr>)"
  have s1: "same_holes nd1 (mm_node mm2)" using r1(3) by (simp add: nd1_def nd_def mm2_def)
  have H2: "holes_ok mm2 (H - {n})" by (rule holes_ok_same [OF r1(1)]) (simp_all add: mm2_def)
  have "0 # filter (\<lambda>m. m \<noteq> n) (node_list mm) = filter (\<lambda>m. m \<noteq> n) (0 # node_list mm)" using n0 by simp
  also have "\<dots> = xs @ p # ys"
  proof -
    have "filter (\<lambda>m. m \<noteq> n) xs = xs" "filter (\<lambda>m. m \<noteq> n) ys = ys" using ne(2,3) by (metis (mono_tags, lifting) filter_True)+
    then show ?thesis unfolding sp using ne(1) by simp
  qed
  finally have l2: "0 # node_list mm2 = xs @ p # ys" by (simp add: mm2_def r1(2))
  have pH: "p \<in> H - {n} \<longleftrightarrow> drm_mm_hole_follows (mm_node mm2 p)"
    using ne same_holesD(3) [OF s1, of p] by (simp add: H_def with_hole_def sp drm_mm_hole_follows_def nd1_def)
  note r3 = rm_if [OF rb H2 pH mm3_def]
  have l3: "0 # node_list mm3 = xs @ p # ys" using r3(2) l2 by simp
  have s3: "same_holes (nd1(p := (nd1 p)\<lparr>hole_size := 0\<rparr>)) (mm_node mm3)"
    using same_holes_trans [OF same_holes_fun_upd [OF s1, of p 0] r3(3)] .
  have v3: "mn_start (mm_node mm3 k) = mn_start (nd k)" "drm_mm_hole_node_start (mm_node mm3 k) = drm_mm_hole_node_start (nd k)" for k
    using same_holesD(1,7) [OF s3, of k] by (auto simp: nd1_def)
  define g where "g = drm_mm_hole_node_end mm3 p - drm_mm_hole_node_start (mm_node mm3 p)"
  have pH3: "p \<notin> H - {n} - {p}" by simp
  note r4 = add_hole_keeps [OF rb r3(1) pH3 g_def, folded mm4_def]
  define nd4 where "nd4 = nd1(p := (nd1 p)\<lparr>hole_size := g\<rparr>)"
  have s4: "same_holes nd4 (mm_node mm4)"
    using same_holes_trans [OF same_holes_fun_upd [OF s3, of p g] r4(3)] by (simp add: nd4_def)
  define nd5 where "nd5 = nd4(n := (nd4 n)\<lparr>allocated_bit := False\<rparr>)"
  have s5: "same_holes nd5 (mm_node mm5)"
  proof -
    have "(nd4 n)\<lparr>subtree_max_hole := 0\<rparr> = (mm_node mm4 n)\<lparr>subtree_max_hole := 0\<rparr>" using s4 unfolding same_holes_def by blast
    then have "(nd4 n)\<lparr>allocated_bit := False, subtree_max_hole := 0\<rparr> = (mm_node mm4 n)\<lparr>allocated_bit := False, subtree_max_hole := 0\<rparr>"
      by (cases "nd4 n", cases "mm_node mm4 n") simp
    then show ?thesis using s4 by (simp add: same_holes_def nd5_def mm5_def update_node_def)
  qed
  have l5: "0 # node_list mm5 = xs @ p # ys" using r4(2) l3 by (simp add: mm5_def update_node_def)
  show "0 # node_list (drm_mm_remove_node rb mm n) = xs @ p # ys" unfolding rm by (rule l5)
  have "agree (nd(n := (nd n)\<lparr>allocated_bit := False\<rparr>)) nd5 m" by (simp add: agree_def nd5_def nd4_def nd1_def)
  then show "agree ((mm_node mm)(n := (mm_node mm n)\<lparr>allocated_bit := False\<rparr>)) (mm_node (drm_mm_remove_node rb mm n)) m"
    unfolding rm nd_def [symmetric] using same_holes_agree [OF s5, of m] by (simp add: agree_def)
  have la: "upto_node nd xs p" "hs_of nd p + hl_of nd p = st_of nd n" "placed_node nd n" "laid nd n ys (st_of nd 0)"
    using wf sp unfolding mm_wf_def nd_def by (simp_all add: row_split)
  have nx: "mn_start (nd (case ys of [] \<Rightarrow> 0 | y # _ \<Rightarrow> y)) = drm_mm_hole_node_start (nd n) + hole_size (nd n)"
    by (rule next_start [OF la(4)])
  have un: "unat (drm_mm_hole_node_start (nd n) + hole_size (nd n)) = hs_of nd n + hl_of nd n" using la(4) nx by (cases ys) simp_all
  have dl: "distinct (0 # node_list mm3)" unfolding l3 using d by auto
  have ge: "g = drm_mm_hole_node_start (nd n) + hole_size (nd n) - drm_mm_hole_node_start (nd p)"
    unfolding g_def hole_end_at [OF dl l3] v3 nx ..
  have gt: "hs_of nd p < hs_of nd n" using la(2,3) by (simp add: placed_node_def)
  have gu: "unat g = hs_of nd n + hl_of nd n - hs_of nd p" unfolding ge using gt un by (simp add: unat_sub word_le_nat_alt)
  have g0: "g \<noteq> 0" using gu gt by (auto simp: unat_eq_0)
  have v5: "drm_mm_hole_node_start (nd5 k) = drm_mm_hole_node_start (nd k)" "mn_start (nd5 k) = mn_start (nd k)" for k
    by (auto simp: nd5_def nd4_def nd1_def)
  have up: "upto_node nd5 xs p"
  proof -
    have "upto_node nd5 xs p = upto_node nd xs p" by (rule upto_cong) (use ne in \<open>auto simp: agree_def nd5_def nd4_def nd1_def\<close>)
    then show ?thesis using la(1) by simp
  qed
  have "hole_size (nd5 p) = g" using ne by (simp add: nd5_def nd4_def)
  then have h5: "hs_of nd5 p + hl_of nd5 p = hs_of nd n + hl_of nd n" using gu gt v5(1) [of p] by simp
  have "\<forall>m\<in>set ys. agree nd nd5 m \<and> hole_size (nd5 m) = hole_size (nd m)" using ne by (auto simp: agree_def nd5_def nd4_def nd1_def)
  then have "laid nd5 p ys (st_of nd5 0)" using laid_from [of nd n ys "st_of nd 0" nd5 p] la(4) h5 v5(2) [of 0] by simp
  then have "row nd5 (xs @ p # ys) (st_of nd5 0)" using up by (simp add: row_split)
  then have ro: "row (mm_node mm5) (0 # node_list mm5) (st_of (mm_node mm5) 0)"
    using row_same [OF s5] same_holesD(1) [OF s5, of 0] by (simp add: l5)
  have "with_hole nd5 (0 # node_list mm5) = insert p (H - {n} - {p})"
    using g0 ne unfolding l5 H_def with_hole_def sp by (auto simp: nd5_def nd4_def nd1_def)
  then have w: "with_hole (mm_node mm5) (0 # node_list mm5) = insert p (H - {n} - {p})" using with_hole_same [OF s5] by simp
  have "holes_ok mm5 (insert p (H - {n} - {p}))"
    by (rule holes_ok_same [OF r4(1)]) (simp_all add: mm5_def update_node_def)
  moreover have "distinct (0 # node_list mm5)" unfolding l5 using d by auto
  ultimately show "mm_wf (drm_mm_remove_node rb mm n)" unfolding rm mm_wf_def w using ro by blast
qed

section \<open>Setting up, and moving a node\<close>

lemma mm_init_keeps:
  assumes rb: "rb_laws rb" and b: "0 < unat sz" "unat start + unat sz < 2 ^ 64"
  shows "mm_wf (drm_mm_init rb nodes start sz)" "node_list (drm_mm_init rb nodes start sz) = []"
    "hs_of (mm_node (drm_mm_init rb nodes start sz)) 0 = unat start"
    "st_of (mm_node (drm_mm_init rb nodes start sz)) 0 = unat start + unat sz"
proof -
  define nd where "nd = nodes(0 := zero_node\<lparr>mn_start := start + sz, mn_size := - sz\<rparr>)"
  define mm0 where "mm0 = \<lparr>mm_node = nd, node_list = [], hole_stack = [],
       holes_size = \<langle>\<rangle>, holes_first = None, holes_addr = \<langle>\<rangle>, scan_active = 0, scan_links = (\<lambda>_. (0, 0))\<rparr>"
  have m: "drm_mm_init rb nodes start sz = add_hole rb 0 mm0" by (simp add: drm_mm_init_def mm0_def nd_def)
  have H0: "holes_ok mm0 {}" by (simp add: holes_ok_def mm0_def)
  have s0: "drm_mm_hole_node_start (nd 0) = start" "mn_start (nd 0) = start + sz" by (simp_all add: nd_def drm_mm_hole_node_start_def)
  have g: "sz = drm_mm_hole_node_end mm0 0 - drm_mm_hole_node_start (mm_node mm0 0)"
    by (simp add: drm_mm_hole_node_end_def list_next_entry_def mm0_def s0)
  note r = add_hole_keeps [OF rb H0 empty_iff [THEN iffD1, THEN FalseE, THEN notI] g, folded m]
  have l: "node_list mm0 = []" by (simp add: mm0_def)
  show nl: "node_list (drm_mm_init rb nodes start sz) = []" using r(2) l by simp
  have s: "same_holes (nd(0 := (nd 0)\<lparr>hole_size := sz\<rparr>)) (mm_node (drm_mm_init rb nodes start sz))" using r(3) by (simp add: mm0_def)
  have u: "unat (start + sz) = unat start + unat sz" using b(2) by (simp add: unat_word_ariths)
  have v: "hs_of (mm_node (drm_mm_init rb nodes start sz)) 0 = unat start" "st_of (mm_node (drm_mm_init rb nodes start sz)) 0 = unat start + unat sz"
    "hole_size (mm_node (drm_mm_init rb nodes start sz) 0) = sz"
    using same_holesD(1,3,7) [OF s, of 0] s0 u by simp_all
  show "hs_of (mm_node (drm_mm_init rb nodes start sz)) 0 = unat start"
    "st_of (mm_node (drm_mm_init rb nodes start sz)) 0 = unat start + unat sz" by (rule v)+
  have "sz \<noteq> 0" using b(1) by auto
  then have "with_hole (mm_node (drm_mm_init rb nodes start sz)) [0] = {0}" using v(3) by (auto simp: with_hole_def)
  then show "mm_wf (drm_mm_init rb nodes start sz)" using r(1) nl v by (simp add: mm_wf_def row_def)
qed

lemma laid_map: "(\<forall>m\<in>set (n # xs). nd' (f m) = nd m) \<Longrightarrow> laid nd' (f n) (map f xs) e = laid nd n xs e"
  by (induction xs arbitrary: n) (simp_all add: placed_node_def)

lemma ordered_map:
  assumes "\<forall>m\<in>set xs. nd' (f m) = nd m"
  shows "falling nd' (map f xs) = falling nd xs" "rising nd' (map f xs) = rising nd xs"
  using assms by (induction xs) auto

lemma mm_replace_keeps:
  assumes wf: "mm_wf mm" and o: "old \<in> set (node_list mm)" and n: "new \<notin> set (0 # node_list mm)"
  shows "mm_wf (drm_mm_replace_node mm old new)"
    "node_list (drm_mm_replace_node mm old new) = map (subst_node old new) (node_list mm)"
    "m \<in> set (0 # node_list mm) \<Longrightarrow> mm_node (drm_mm_replace_node mm old new) (subst_node old new m) = mm_node mm m"
proof -
  let ?f = "subst_node old new" and ?L = "0 # node_list mm"
  define nd where "nd = mm_node mm"
  define mm' where "mm' = drm_mm_replace_node mm old new"
  define H where "H = with_hole nd ?L"
  have d: "distinct ?L" and ro: "row nd ?L (st_of nd 0)" and H: "holes_ok mm H" using wf by (simp_all add: mm_wf_def nd_def H_def)
  have ne: "old \<noteq> 0" "new \<noteq> 0" "new \<noteq> old"
  proof -
    have "0 \<notin> set (node_list mm)" using d by simp
    then show "old \<noteq> 0" using o by metis
    show "new \<noteq> 0" using n by simp
    have "new \<notin> set (node_list mm)" using n by simp
    then show "new \<noteq> old" using o by metis
  qed
  have HL: "H \<subseteq> set ?L" by (auto simp: H_def with_hole_def)
  have inj: "inj_on ?f (set ?L)" using n by (auto simp: inj_on_def subst_node_def)
  have al: "allocated_bit (nd old)"
  proof -
    obtain xs ys where "node_list mm = xs @ old # ys" using split_list [OF o] by blast
    then show ?thesis using ro by (simp add: row_Cons laid_append placed_node_def)
  qed
  have nd': "mm_node mm' = nd(new := nd old, old := (nd old)\<lparr>allocated_bit := False\<rparr>)"
  proof -
    have "(nd old)\<lparr>allocated_bit := True\<rparr> = nd old" using al by (cases "nd old") simp
    then show ?thesis using ne by (simp add: mm'_def drm_mm_replace_node_def Let_def update_node_def nd_def)
  qed
  have eq: "mm_node mm' (?f m) = nd m" if "m \<in> set ?L" for m
    using n that ne by (auto simp: nd' subst_node_def)
  show "m \<in> set ?L \<Longrightarrow> mm_node (drm_mm_replace_node mm old new) (?f m) = mm_node mm m" using eq by (simp add: mm'_def nd_def)
  have l: "node_list mm' = map ?f (node_list mm)" by (simp add: mm'_def drm_mm_replace_node_def Let_def update_node_def)
  then show "node_list (drm_mm_replace_node mm old new) = map ?f (node_list mm)" by (simp add: mm'_def)
  have L: "0 # node_list mm' = map ?f ?L" using ne by (simp add: l subst_node_def)
  have same: "map ?f xs = xs" if "old \<notin> H" "set xs = H" for xs
    by (rule map_idI) (use that in \<open>auto simp: subst_node_def\<close>)
  have oH: "old \<in> H \<longleftrightarrow> drm_mm_hole_follows (mm_node mm old)" using o by (simp add: H_def with_hole_def nd_def drm_mm_hole_follows_def)
  define xs where "xs = holes_in (holes_size mm)"
  have x: "distinct xs" "set xs = H" "falling nd xs" "holes_first mm = (case xs of [] \<Rightarrow> None | m # _ \<Rightarrow> Some m)"
    and a: "distinct (holes_in (holes_addr mm))" "set (holes_in (holes_addr mm)) = H" "rising nd (holes_in (holes_addr mm))"
    and s: "distinct (hole_stack mm)" "set (hole_stack mm) = H" using H by (simp_all add: holes_ok_def xs_def nd_def)
  have no: "map_option ?f (holes_first mm) = holes_first mm" if "old \<notin> H" using x(2,4) that by (cases xs) (auto simp: subst_node_def)
  have m: "hole_stack mm' = map ?f (hole_stack mm)" "holes_in (holes_size mm') = map ?f xs" "holes_in (holes_addr mm') = map ?f (holes_in (holes_addr mm))"
    "holes_first mm' = map_option ?f (holes_first mm)"
    using same [OF _ s(2)] same [OF _ x(2)] same [OF _ a(2)] no oH ne
    by (simp_all add: mm'_def drm_mm_replace_node_def Let_def update_node_def holes_in_map xs_def)
  have ih: "inj_on ?f H" using inj HL by (rule inj_on_subset)
  have eH: "\<forall>m\<in>set ys. mm_node mm' (?f m) = nd m" if "set ys = H" for ys using eq HL that by blast
  have w: "with_hole (mm_node mm') (0 # node_list mm') = ?f ` H"
  proof -
    have "with_hole (mm_node mm') (map ?f ?L) = ?f ` {m \<in> set ?L. hole_size (mm_node mm' (?f m)) \<noteq> 0}"
      unfolding with_hole_def set_map by auto
    also have "{m \<in> set ?L. hole_size (mm_node mm' (?f m)) \<noteq> 0} = H" using eq unfolding H_def with_hole_def by auto
    finally show ?thesis unfolding L .
  qed
  have "holes_ok mm' (?f ` H)"
    unfolding holes_ok_def m
    using s x a ih ordered_map(1) [of xs "mm_node mm'" ?f nd] eH [OF x(2)]
      ordered_map(2) [of "holes_in (holes_addr mm)" "mm_node mm'" ?f nd] eH [OF a(2)]
    by (auto simp: distinct_map split: list.splits)
  moreover have "distinct (0 # node_list mm')" unfolding L distinct_map using d inj by blast
  moreover have "row (mm_node mm') (0 # node_list mm') (st_of (mm_node mm') 0)"
  proof -
    have f0: "?f 0 = 0" using ne by (simp add: subst_node_def)
    have e0: "mm_node mm' 0 = nd 0" using eq [of 0] f0 by simp
    have "laid (mm_node mm') (?f 0) (map ?f (node_list mm)) (st_of nd 0) = laid nd 0 (node_list mm) (st_of nd 0)"
      by (rule laid_map) (use eq in blast)
    then have "laid (mm_node mm') 0 (node_list mm') (st_of nd 0)" using ro unfolding row_Cons f0 l by simp
    then show ?thesis unfolding row_Cons e0 .
  qed
  ultimately show "mm_wf (drm_mm_replace_node mm old new)" unfolding mm_wf_def w mm'_def [symmetric] by blast
qed

end
