(* ===== verification/Mm_Search.thy ===== *)
theory Mm_Search
  imports Mm_Ops
begin

text \<open>
  Looking for a hole: the place computed in a hole is right and is found when there is one, and the loop over
  the holes ends in every mode, because each way to go on is onward in one of the orders.
\<close>

section \<open>The place in a hole\<close>

lemma remainder_of:
  assumes "al \<noteq> 0" "msk = (if is_power_of_2 al then al - 1 else 0)"
  shows "unat (if msk \<noteq> 0 then a AND msk else a mod al) = unat a mod unat al"
proof (cases "msk = 0")
  case True
  then show ?thesis by (simp add: unat_mod)
next
  case False
  then have p: "is_power_of_2 al" using assms(2) by (auto split: if_splits)
  then obtain k where k: "k < 64" "unat al = 2 ^ k" by (rule power_of_2E)
  have "a AND msk = take_bit k a" using assms(2) p by (simp add: low_bits [OF k(2,1)] take_bit_eq_mask)
  then have "unat (a AND msk) = take_bit k (unat a)" by (simp add: unsigned_take_bit_eq)
  then show ?thesis using False k(2) by (simp add: take_bit_eq_mod)
qed

lemma unat_minus: "b \<le> a \<Longrightarrow> unat (a - b) = unat a - unat (b :: u64)"
  by (simp add: unat_sub word_le_nat_alt)

lemma place_fits:
  assumes p: "place_in_hole mode sz al (if is_power_of_2 al then al - 1 else 0) (cs, ce) rs re = Some s" and z: "0 < unat sz"
  shows "max cs rs \<le> s" "unat s + unat sz \<le> unat (min ce re)" "al = 0 \<or> unat al dvd unat s"
proof -
  define A where "A = max cs rs"
  define E where "E = min ce re"
  define a where "a = (if mode = DRM_MM_INSERT_HIGH then E - sz else A)"
  define rm where "rm = (if (if is_power_of_2 al then al - 1 else 0) \<noteq> 0 then a AND (if is_power_of_2 al then al - 1 else 0) else a mod al)"
  define b where "b = (if mode \<noteq> DRM_MM_INSERT_HIGH then a - rm + al else a - rm)"
  note unf = p [unfolded place_in_hole_def Let_def prod.case, folded A_def E_def, folded a_def, folded rm_def, folded b_def]
  have g: "A < E" "sz \<le> E - A" using unf by (auto split: if_splits simp: not_le not_less)
  have ge: "unat A + unat sz \<le> unat E" using g unat_minus [of A E] by (simp add: word_le_nat_alt word_less_nat_alt)
  have "sz \<le> E" using ge by (simp add: word_le_nat_alt)
  then have a: "A \<le> a" "unat a + unat sz \<le> unat E" using ge unat_minus [of sz E] by (simp_all add: a_def word_le_nat_alt add_le_imp_le_diff)
  consider (plain) "al = 0" "s = a" | (even) "al \<noteq> 0" "rm = 0" "s = a"
    | (moved) "al \<noteq> 0" "rm \<noteq> 0" "s = b" "A \<le> b" "b < E" "sz \<le> E - b" using unf by (auto split: if_splits simp: not_le not_less)
  then have "A \<le> s \<and> unat s + unat sz \<le> unat E \<and> (al = 0 \<or> unat al dvd unat s)"
  proof cases
    case plain
    then show ?thesis using a by simp
  next
    case even
    have "unat rm = unat a mod unat al" unfolding rm_def by (rule remainder_of [OF even(1) refl])
    then show ?thesis using a even by (simp add: mod_eq_0_iff_dvd)
  next
    case moved
    have r: "unat rm = unat a mod unat al" unfolding rm_def by (rule remainder_of [OF moved(1) refl])
    then have "rm \<le> a" by (simp add: word_le_nat_alt)
    then have m: "unat (a - rm) = unat a div unat al * unat al" using r unat_minus [of rm a] by (simp add: minus_mod_eq_div_mult)
    have "unat al dvd unat b"
    proof (cases "mode = DRM_MM_INSERT_HIGH")
      case True
      then show ?thesis using m by (simp add: b_def)
    next
      case False
      have "unat (a - rm) + unat al < 2 ^ 64"
      proof (rule ccontr)
        assume n: "\<not> unat (a - rm) + unat al < 2 ^ 64"
        have "unat b = unat (a - rm) + unat al - 2 ^ 64"
          using False n unsigned_less [of "a - rm", where 'a = nat] unsigned_less [of al, where 'a = nat] mod_if [of "unat (a - rm) + unat al" "2 ^ 64"]
          by (simp add: b_def unat_word_ariths)
        then have "unat b < unat (a - rm)" using n unsigned_less [of al, where 'a = nat] by simp
        also have "\<dots> \<le> unat A" using False m by (simp add: a_def)
        finally show False using moved(4) by (simp add: word_le_nat_alt)
      qed
      then have "unat b = unat (a - rm) + unat al" using False by (simp add: b_def unat_word_ariths)
      then show ?thesis using m by simp
    qed
    moreover have "unat b + unat sz \<le> unat E" using moved(5,6) unat_minus [of b E] by (simp add: word_le_nat_alt word_less_nat_alt)
    ultimately show ?thesis using moved by simp
  qed
  then show "max cs rs \<le> s" "unat s + unat sz \<le> unat (min ce re)" "al = 0 \<or> unat al dvd unat s" by (simp_all add: A_def E_def)
qed

lemma place_found:
  assumes m: "mode \<noteq> DRM_MM_INSERT_HIGH" and z: "0 < unat sz"
    and t: "unat (max cs rs) \<le> t" "t + unat sz \<le> unat (min ce re)" "al = 0 \<or> unat al dvd t"
  shows "place_in_hole mode sz al (if is_power_of_2 al then al - 1 else 0) (cs, ce) rs re \<noteq> None"
proof -
  define A where "A = max cs rs"
  define E where "E = min ce re"
  define rm where "rm = (if (if is_power_of_2 al then al - 1 else 0) \<noteq> 0 then A AND (if is_power_of_2 al then al - 1 else 0) else A mod al)"
  have le: "unat A \<le> t" "t + unat sz \<le> unat E" using t by (simp_all add: A_def E_def)
  have g: "A < E" using le z by (simp add: word_less_nat_alt)
  have g2: "sz \<le> E - A" using le g unat_minus [of A E] by (simp add: word_le_nat_alt word_less_nat_alt)
  let ?s = "A - rm + al"
  have eq: "place_in_hole mode sz al (if is_power_of_2 al then al - 1 else 0) (cs, ce) rs re =
      (if E \<le> A \<or> E - A < sz then None else if al = 0 then Some A else if rm = 0 then Some A
       else if ?s < A \<or> E - ?s < sz then None else if E \<le> ?s \<or> E - ?s < sz then None else Some ?s)"
    unfolding place_in_hole_def Let_def prod.case A_def E_def rm_def by (simp only: m if_False if_True simp_thms)
  show ?thesis
  proof (cases "al = 0 \<or> rm = 0")
    case True
    then show ?thesis using g g2 by (auto simp: eq)
  next
    case False
    have r: "unat rm = unat A mod unat al" unfolding rm_def by (rule remainder_of) (use False in simp_all)
    then have "rm \<le> A" by (simp add: word_le_nat_alt)
    then have d: "unat (A - rm) = unat A div unat al * unat al" using r unat_minus [of rm A] by (simp add: minus_mod_eq_div_mult)
    obtain k where k: "t = unat al * k" using t(3) False by (auto elim: dvdE)
    have ap: "0 < unat al" using False by (simp add: unat_gt_0)
    have "unat A \<noteq> t"
    proof
      assume "unat A = t"
      then have "unat rm = 0" using r k by simp
      then show False using False by (simp add: unat_eq_0)
    qed
    then have "unat A < unat al * k" using le(1) k by simp
    then have "unat A div unat al < k" using ap by (simp add: div_less_iff_less_mult mult.commute)
    then have "(unat A div unat al + 1) * unat al \<le> t" using k mult_le_mono1 [of "unat A div unat al + 1" k "unat al"] by (simp add: mult.commute)
    then have s: "unat (A - rm) + unat al \<le> t" using d by simp
    moreover have "t < 2 ^ 64" using le(2) z unsigned_less [of E, where 'a = nat] by simp
    ultimately have b: "unat (A - rm + al) = unat (A - rm) + unat al" by (simp add: unat_word_ariths)
    have "unat A < unat (A - rm) + unat al" unfolding d using ap dividend_less_times_div [of "unat al" "unat A"] by (simp add: mult.commute)
    then have l: "A \<le> A - rm + al" using b by (simp add: word_le_nat_alt)
    have "unat (A - rm + al) + unat sz \<le> unat E" using s b le(2) by simp
    then have "A - rm + al < E" "sz \<le> E - (A - rm + al)" using z unat_minus [of "A - rm + al" E] by (simp_all add: word_less_nat_alt word_le_nat_alt)
    then show ?thesis using g g2 False l by (auto simp: eq)
  qed
qed

section \<open>Onward\<close>

text \<open>How much of a list is left from an element on.\<close>

definition left_from :: "nat list \<Rightarrow> nat \<Rightarrow> nat" where
  "left_from xs n = length (dropWhile (\<lambda>m. m \<noteq> n) xs)"

lemma left_from_at: "n \<notin> set as \<Longrightarrow> left_from (as @ n # bs) n = Suc (length bs)"
  unfolding left_from_def by (induction as) auto

lemma left_from_less:
  assumes "distinct (as @ n # bs)" "y \<in> set bs"
  shows "left_from (as @ n # bs) y < left_from (as @ n # bs) n"
proof -
  obtain cs ds where b: "bs = cs @ y # ds" using split_list [OF assms(2)] by blast
  have "y \<notin> set (as @ n # cs)" using assms(1) unfolding b by auto
  then have "left_from ((as @ n # cs) @ y # ds) y = Suc (length ds)" by (rule left_from_at)
  moreover have "left_from (as @ n # bs) n = Suc (length bs)" by (rule left_from_at) (use assms(1) in auto)
  ultimately show ?thesis by (simp add: b)
qed

text \<open>
  The interface between the loop and the four orders in which holes are visited: going on from a hole
  leads to a hole further on.
\<close>

locale hole_order =
  fixes go_on :: "drm_mm \<Rightarrow> nat \<Rightarrow> u64 \<Rightarrow> nat option" and order_of :: "drm_mm \<Rightarrow> nat list"
  assumes onward: "holes_ok mm H \<Longrightarrow> h \<in> H \<Longrightarrow> go_on mm h sz = Some k \<Longrightarrow>
    k \<in> H \<and> left_from (order_of mm) k < left_from (order_of mm) h"
begin

lemma search_ends:
  assumes ok: "holes_ok mm H" and nx: "\<And>h. next_hole mm h sz mode = go_on mm h sz" and first: "\<And>h. first = Some h \<Longrightarrow> h \<in> H"
  shows "\<exists>r. search_holes col mm sz al msk c rs re mode once first = Some r \<and>
    (\<forall>k s. r = Some (k, s) \<longrightarrow> k \<in> H \<and> place_in_hole mode sz al msk
       (adjust col mm k c (drm_mm_hole_node_start (mm_node mm k), drm_mm_hole_node_start (mm_node mm k) + hole_size (mm_node mm k))) rs re = Some s)"
proof (cases first)
  case None
  then show ?thesis by (subst search_holes.simps) simp
next
  case (Some h)
  then have "h \<in> H" by (rule first)
  then show ?thesis unfolding Some
  proof (induction "left_from (order_of mm) h" arbitrary: h rule: less_induct)
    case less
    let ?s = "drm_mm_hole_node_start (mm_node mm h)"
    let ?p = "place_in_hole mode sz al msk (adjust col mm h c (?s, ?s + hole_size (mm_node mm h))) rs re"
    define out where "out \<longleftrightarrow> mode = DRM_MM_INSERT_LOW \<and> re \<le> ?s \<or> mode = DRM_MM_INSERT_HIGH \<and> ?s + hole_size (mm_node mm h) \<le> rs"
    have eq: "search_holes col mm sz al msk c rs re mode once (Some h) = (if out then Some None else case ?p of Some s \<Rightarrow> Some (Some (h, s))
      | None \<Rightarrow> search_holes col mm sz al msk c rs re mode once (if once then None else go_on mm h sz))"
    proof -
      have d: "(if P \<or> Q then x else y) = (if P then x else if Q then x else y)" for P Q and x y :: "(nat \<times> u64) option option" by simp
      show ?thesis unfolding out_def by (subst search_holes.simps) (simp only: option.case Let_def nx d)
    qed
    have none: "search_holes col mm sz al msk c rs re mode once None = Some None" by (subst search_holes.simps) simp
    consider (out) "out" | (here) s where "\<not> out" "?p = Some s" | (stop) "\<not> out" "?p = None" "(if once then None else go_on mm h sz) = None"
      | (on) k where "\<not> out" "?p = None" "\<not> once" "go_on mm h sz = Some k"
      by (cases out; cases ?p; cases once; cases "go_on mm h sz") simp_all
    then show ?case
    proof cases
      case out
      then show ?thesis by (simp add: eq)
    next
      case here
      then show ?thesis using less.prems by (simp add: eq)
    next
      case stop
      then show ?thesis by (simp add: eq none)
    next
      case (on k)
      then have "search_holes col mm sz al msk c rs re mode once (Some h) = search_holes col mm sz al msk c rs re mode once (Some k)"
        unfolding eq by simp
      then show ?thesis using less.hyps [of k] onward [OF ok less.prems on(4)] by simp
    qed
  qed
qed

end

lemma following_onward:
  assumes "distinct xs" "following h xs = Some k"
  shows "k \<in> set xs \<and> left_from xs k < left_from xs h"
proof -
  obtain as bs where s: "xs = as @ h # k # bs" using following_later [OF assms(2)] by blast
  then show ?thesis using left_from_less [of as h "k # bs" k] assms(1) by simp
qed

lemma next_addr_onward:
  assumes "distinct (holes_in t)" "h \<in> set (holes_in t)" "next_hole_addr nd sz h t None = Some k"
  shows "k \<in> set (holes_in t) \<and> left_from (holes_in t) k < left_from (holes_in t) h"
proof -
  obtain as bs where s: "holes_in t = as @ h # bs" using split_list [OF assms(2)] by blast
  have "k \<in> set bs" using next_hole_addr_later [OF assms(1) s assms(3)] by simp
  then show ?thesis using left_from_less [of as h bs k] assms(1) unfolding s by simp
qed

interpretation low: hole_order next_hole_low_addr "\<lambda>mm. holes_in (holes_addr mm)"
proof
  fix mm H h sz k
  assume "holes_ok mm H" "h \<in> H" "next_hole_low_addr mm h sz = Some k"
  then show "k \<in> H \<and> left_from (holes_in (holes_addr mm)) k < left_from (holes_in (holes_addr mm)) h"
    using next_addr_onward [of "holes_addr mm" h "mm_node mm" sz k] by (simp add: holes_ok_def next_hole_low_addr_def)
qed

interpretation high: hole_order next_hole_high_addr "\<lambda>mm. holes_in (mirror (holes_addr mm))"
proof
  fix mm H h sz k
  assume "holes_ok mm H" "h \<in> H" "next_hole_high_addr mm h sz = Some k"
  then show "k \<in> H \<and> left_from (holes_in (mirror (holes_addr mm))) k < left_from (holes_in (mirror (holes_addr mm))) h"
    using next_addr_onward [of "mirror (holes_addr mm)" h "mm_node mm" sz k] by (simp add: holes_ok_def next_hole_high_addr_def)
qed

interpretation evict: hole_order "\<lambda>mm h sz. following h (hole_stack mm)" hole_stack
  using following_onward by unfold_locales (auto simp: holes_ok_def)

interpretation best: hole_order "\<lambda>mm h sz. rb_prev h (holes_size mm)" "\<lambda>mm. rev (holes_in (holes_size mm))"
proof
  fix mm H h sz k
  assume "holes_ok mm H" "h \<in> H" "rb_prev h (holes_size mm) = Some k"
  then show "k \<in> H \<and> left_from (rev (holes_in (holes_size mm))) k < left_from (rev (holes_in (holes_size mm))) h"
    using following_onward [of "rev (holes_in (holes_size mm))" h k] by (simp add: holes_ok_def rb_prev_def)
qed

text \<open>In every mode.\<close>

lemma every_search_ends:
  assumes ok: "holes_ok mm H" and first: "\<And>h. first = Some h \<Longrightarrow> h \<in> H"
  shows "\<exists>r. search_holes col mm sz al msk c rs re mode once first = Some r \<and>
    (\<forall>k s. r = Some (k, s) \<longrightarrow> k \<in> H \<and> place_in_hole mode sz al msk
       (adjust col mm k c (drm_mm_hole_node_start (mm_node mm k), drm_mm_hole_node_start (mm_node mm k) + hole_size (mm_node mm k))) rs re = Some s)"
proof -
  consider "mode = DRM_MM_INSERT_LOW" | "mode = DRM_MM_INSERT_HIGH" | "mode = DRM_MM_INSERT_EVICT"
    | "mode \<noteq> DRM_MM_INSERT_LOW" "mode \<noteq> DRM_MM_INSERT_HIGH" "mode \<noteq> DRM_MM_INSERT_EVICT" by blast
  then show ?thesis
  proof cases
    case 1
    then show ?thesis by (intro low.search_ends [OF ok _ first]) (simp add: next_hole_def)
  next
    case 2
    then show ?thesis by (intro high.search_ends [OF ok _ first]) (simp add: next_hole_def insert_modes)
  next
    case 3
    then show ?thesis by (intro evict.search_ends [OF ok _ first]) (simp add: next_hole_def insert_modes)
  next
    case 4
    then show ?thesis by (intro best.search_ends [OF ok _ first]) (simp add: next_hole_def)
  qed
qed

end
