(* ===== verification/Mm_Layout.thy ===== *)
theory Mm_Layout
  imports Mm_Search
begin

text \<open>
  The range as sets of bytes: what the nodes hold, what is free, and that together they are the range; and
  which holes the loop has seen when it finds nothing.
\<close>

section \<open>Bytes\<close>

definition busy_bytes :: "drm_mm \<Rightarrow> nat \<Rightarrow> nat set" where
  "busy_bytes mm n = {st_of (mm_node mm) n..<st_of (mm_node mm) n + sz_of (mm_node mm) n}"

definition hole_bytes :: "drm_mm \<Rightarrow> nat \<Rightarrow> nat set" where
  "hole_bytes mm n = {hs_of (mm_node mm) n..<hs_of (mm_node mm) n + hl_of (mm_node mm) n}"

definition free_bytes :: "drm_mm \<Rightarrow> nat set" where
  "free_bytes mm = (\<Union>h\<in>set (hole_stack mm). hole_bytes mm h)"

definition range_bytes :: "drm_mm \<Rightarrow> nat set" where
  "range_bytes mm = {hs_of (mm_node mm) 0..<st_of (mm_node mm) 0}"

lemma laid_cover:
  assumes "laid (mm_node mm) n xs e" "distinct (n # xs)"
  shows "(\<Union>h\<in>set (n # xs). hole_bytes mm h) \<union> (\<Union>m\<in>set xs. busy_bytes mm m) = {hs_of (mm_node mm) n..<e} \<and>
    (\<forall>h\<in>set (n # xs). \<forall>m\<in>set xs. hole_bytes mm h \<inter> busy_bytes mm m = {}) \<and>
    (\<forall>m\<in>set xs. \<forall>k\<in>set xs. m \<noteq> k \<longrightarrow> busy_bytes mm m \<inter> busy_bytes mm k = {})"
  using assms
proof (induction xs arbitrary: n)
  case Nil
  then show ?case by (auto simp: hole_bytes_def)
next
  case (Cons m xs)
  let ?nd = "mm_node mm"
  have l: "hs_of ?nd n + hl_of ?nd n = st_of ?nd m" "placed_node ?nd m" "laid ?nd m xs e" "distinct (m # xs)" using Cons.prems by auto
  have p: "hs_of ?nd m = st_of ?nd m + sz_of ?nd m" using l(2) by (simp add: placed_node_def)
  note i = Cons.IH [OF l(3,4)]
  note b = laid_bounds [OF l(3)]
  have le: "hs_of ?nd m \<le> e" using b by simp
  have cover: "hole_bytes mm n \<union> busy_bytes mm m \<union> {hs_of ?nd m..<e} = {hs_of ?nd n..<e}"
    using l(1) p le by (auto simp: hole_bytes_def busy_bytes_def)
  have below: "hole_bytes mm n \<subseteq> {..<st_of ?nd m}" "busy_bytes mm m = {st_of ?nd m..<hs_of ?nd m}"
    using l(1) p by (auto simp: hole_bytes_def busy_bytes_def)
  have above: "\<forall>h\<in>set (m # xs). hole_bytes mm h \<subseteq> {hs_of ?nd m..}" "\<forall>k\<in>set xs. busy_bytes mm k \<subseteq> {hs_of ?nd m..}"
  proof -
    have "hs_of ?nd m \<le> hs_of ?nd h" if "h \<in> set (m # xs)" for h
      using b that by (cases "h = m") (auto simp: placed_node_def dest!: bspec)
    then show "\<forall>h\<in>set (m # xs). hole_bytes mm h \<subseteq> {hs_of ?nd m..}" unfolding hole_bytes_def by fastforce
    have "hs_of ?nd m \<le> st_of ?nd k" if "k \<in> set xs" for k using b that by fastforce
    then show "\<forall>k\<in>set xs. busy_bytes mm k \<subseteq> {hs_of ?nd m..}" unfolding busy_bytes_def by fastforce
  qed
  have "(\<Union>h\<in>set (n # m # xs). hole_bytes mm h) \<union> (\<Union>k\<in>set (m # xs). busy_bytes mm k) = {hs_of ?nd n..<e}"
    using cover i by auto
  moreover have "hole_bytes mm h \<inter> busy_bytes mm k = {}" if "h \<in> set (n # m # xs)" "k \<in> set (m # xs)" for h k
  proof -
    have 1: "hole_bytes mm n \<inter> busy_bytes mm k = {}" using below above(2) that(2) p by fastforce
    have 2: "hole_bytes mm h \<inter> busy_bytes mm m = {}" if "h \<in> set (m # xs)" using below(2) above(1) that by fastforce
    have 3: "hole_bytes mm h \<inter> busy_bytes mm k = {}" if "h \<in> set (m # xs)" "k \<in> set xs" using i that by blast
    show ?thesis
    proof (cases "h = n")
      case False
      then have "h \<in> set (m # xs)" using that(1) by simp
      then show ?thesis using 2 3 that(2) by (cases "k = m") simp_all
    qed (use 1 in simp)
  qed
  moreover have "busy_bytes mm k \<inter> busy_bytes mm j = {}" if "k \<in> set (m # xs)" "j \<in> set (m # xs)" "k \<noteq> j" for k j
  proof -
    have "busy_bytes mm m \<inter> busy_bytes mm j = {}" if "j \<in> set xs" for j using below(2) above(2) that by fastforce
    then show ?thesis using that i by (cases "k = m"; cases "j = m") auto
  qed
  ultimately show ?case by blast
qed

lemma wf_bytes:
  assumes "mm_wf mm"
  shows "free_bytes mm = range_bytes mm - (\<Union>m\<in>set (node_list mm). busy_bytes mm m)"
    "\<Union>(busy_bytes mm ` set (node_list mm)) \<subseteq> range_bytes mm"
    "\<lbrakk>m \<in> set (node_list mm); k \<in> set (node_list mm); m \<noteq> k\<rbrakk> \<Longrightarrow> busy_bytes mm m \<inter> busy_bytes mm k = {}"
proof -
  have l: "laid (mm_node mm) 0 (node_list mm) (st_of (mm_node mm) 0)" "distinct (0 # node_list mm)" using assms by (simp_all add: mm_wf_def row_Cons)
  note c = laid_cover [OF l]
  have "set (hole_stack mm) = with_hole (mm_node mm) (0 # node_list mm)" using assms unfolding mm_wf_def holes_ok_def by blast
  moreover have e: "hole_bytes mm h = {}" if "hole_size (mm_node mm h) = 0" for h using that by (simp add: hole_bytes_def)
  have "(\<Union>h\<in>with_hole (mm_node mm) L. hole_bytes mm h) = (\<Union>h\<in>set L. hole_bytes mm h)" for L
    using e unfolding with_hole_def by blast
  ultimately have "free_bytes mm = (\<Union>h\<in>set (0 # node_list mm). hole_bytes mm h)" by (simp only: free_bytes_def)
  then have fr: "free_bytes mm = (\<Union>h\<in>set (0 # node_list mm). hole_bytes mm h)" (is "_ = ?X") .
  let ?Y = "\<Union>m\<in>set (node_list mm). busy_bytes mm m"
  have sp: "X \<union> Y = R \<Longrightarrow> X \<inter> Y = {} \<Longrightarrow> X = R - Y \<and> Y \<subseteq> R" for X Y R :: "nat set" by blast
  have "?X \<inter> ?Y = {}" using conjunct1 [OF conjunct2 [OF c]] by blast
  then have "?X = range_bytes mm - ?Y \<and> ?Y \<subseteq> range_bytes mm"
    unfolding range_bytes_def by (rule sp [OF conjunct1 [OF c]])
  then show "free_bytes mm = range_bytes mm - ?Y" "\<Union>(busy_bytes mm ` set (node_list mm)) \<subseteq> range_bytes mm" unfolding fr by blast+
  show "\<lbrakk>m \<in> set (node_list mm); k \<in> set (node_list mm); m \<noteq> k\<rbrakk> \<Longrightarrow> busy_bytes mm m \<inter> busy_bytes mm k = {}"
    using conjunct2 [OF conjunct2 [OF c]] by blast
qed

text \<open>Bytes in a row that are free lie in one hole.\<close>

lemma wf_hole:
  assumes "mm_wf mm" "h \<in> set (hole_stack mm)"
  obtains xs ys where "0 # node_list mm = xs @ h # ys" "hole_size (mm_node mm h) \<noteq> 0" "hole_bytes mm h \<subseteq> range_bytes mm"
    "hs_of (mm_node mm) h + hl_of (mm_node mm) h \<notin> free_bytes mm"
    "unat (drm_mm_hole_node_start (mm_node mm h) + hole_size (mm_node mm h)) = hs_of (mm_node mm) h + hl_of (mm_node mm) h"
proof -
  let ?nd = "mm_node mm"
  have l: "laid ?nd 0 (node_list mm) (st_of ?nd 0)" "distinct (0 # node_list mm)" using assms by (simp_all add: mm_wf_def row_Cons)
  have hw: "h \<in> with_hole ?nd (0 # node_list mm)" using assms unfolding mm_wf_def holes_ok_def by blast
  then have "h \<in> set (0 # node_list mm)" by (simp add: with_hole_def)
  then obtain xs ys where s: "0 # node_list mm = xs @ h # ys" by (meson split_list)
  have z: "hole_size (mm_node mm h) \<noteq> 0" using hw by (simp add: with_hole_def)
  have lh: "laid ?nd h ys (st_of ?nd 0)" using assms(1) s unfolding mm_wf_def by (simp add: row_split)
  have u: "unat (drm_mm_hole_node_start (?nd h) + hole_size (?nd h)) = hs_of ?nd h + hl_of ?nd h"
    using next_start [OF lh] lh by (cases ys) (simp_all flip: next_start [OF lh])
  have fr: "hole_bytes mm h \<subseteq> free_bytes mm" using assms(2) by (auto simp: free_bytes_def)
  have nf: "hs_of ?nd h + hl_of ?nd h \<notin> free_bytes mm"
  proof (cases ys)
    case Nil
    then have "hs_of ?nd h + hl_of ?nd h = st_of ?nd 0" using lh by simp
    then show ?thesis using wf_bytes(1) [OF assms(1)] by (auto simp: range_bytes_def)
  next
    case (Cons y zs)
    then have y: "hs_of ?nd h + hl_of ?nd h = st_of ?nd y" "0 < sz_of ?nd y" using lh by (auto simp: placed_node_def)
    have "y \<in> set (node_list mm)" using s Cons by (cases xs) auto
    moreover have "st_of ?nd y \<in> busy_bytes mm y" using y(2) by (simp add: busy_bytes_def)
    ultimately show ?thesis using wf_bytes(1) [OF assms(1)] y(1) by auto
  qed
  have "hole_bytes mm h \<subseteq> range_bytes mm" using fr wf_bytes(1) [OF assms(1)] by blast
  then show thesis using that s z nf u by blast
qed

lemma free_run:
  assumes wf: "mm_wf mm" and z: "0 < k" and f: "{t..<t + k} \<subseteq> free_bytes mm"
  shows "\<exists>h\<in>set (hole_stack mm). hs_of (mm_node mm) h \<le> t \<and> t + k \<le> hs_of (mm_node mm) h + hl_of (mm_node mm) h"
proof -
  have "t \<in> free_bytes mm" using z f by auto
  then obtain h where h: "h \<in> set (hole_stack mm)" "t \<in> hole_bytes mm h" by (auto simp: free_bytes_def)
  let ?e = "hs_of (mm_node mm) h + hl_of (mm_node mm) h"
  have "?e \<notin> free_bytes mm" by (rule wf_hole [OF wf h(1)])
  moreover have "?e \<in> {t..<t + k}" if "?e < t + k" using h(2) that by (simp add: hole_bytes_def)
  ultimately have "\<not> ?e < t + k" using f by blast
  then show ?thesis using h by (auto simp: hole_bytes_def)
qed

section \<open>What the loop has seen\<close>

lemma following_at: "distinct (as @ x # xs) \<Longrightarrow> following x (as @ x # xs) = (case xs of [] \<Rightarrow> None | y # _ \<Rightarrow> Some y)"
proof (induction as)
  case Nil
  then show ?case by (cases xs) auto
next
  case (Cons a as)
  obtain y ys where y: "as @ x # xs = y # ys" by (cases "as @ x # xs") auto
  have "a \<noteq> x" using Cons.prems by auto
  then show ?case using Cons y by simp
qed

definition hole_range :: "drm_mm \<Rightarrow> nat \<Rightarrow> u64 \<times> u64" where
  "hole_range mm h = (drm_mm_hole_node_start (mm_node mm h), drm_mm_hole_node_start (mm_node mm h) + hole_size (mm_node mm h))"

lemma search_along:
  assumes m: "mode \<noteq> DRM_MM_INSERT_LOW" "mode \<noteq> DRM_MM_INSERT_HIGH" and d: "distinct (as @ xs)"
    and nx: "\<And>h. next_hole mm h sz mode = following h (as @ xs)"
    and s: "search_holes col mm sz al msk c rs re mode False (case xs of [] \<Rightarrow> None | x # _ \<Rightarrow> Some x) = Some None"
  shows "\<forall>x\<in>set xs. place_in_hole mode sz al msk (adjust col mm x c (hole_range mm x)) rs re = None"
  using d nx s
proof (induction xs arbitrary: as)
  case (Cons x xs)
  let ?p = "place_in_hole mode sz al msk (adjust col mm x c (hole_range mm x)) rs re"
  have "search_holes col mm sz al msk c rs re mode False (Some x) =
      (case ?p of Some s \<Rightarrow> Some (Some (x, s)) | None \<Rightarrow> search_holes col mm sz al msk c rs re mode False (next_hole mm x sz mode))"
    unfolding hole_range_def by (subst search_holes.simps) (simp only: option.case Let_def m if_False simp_thms)
  then have p: "?p = None" "search_holes col mm sz al msk c rs re mode False (next_hole mm x sz mode) = Some None"
    using Cons.prems(3) by (auto split: option.splits)
  have "next_hole mm x sz mode = (case xs of [] \<Rightarrow> None | y # _ \<Rightarrow> Some y)" using Cons.prems(1,2) following_at by simp
  then have "\<forall>x\<in>set xs. place_in_hole mode sz al msk (adjust col mm x c (hole_range mm x)) rs re = None"
    using Cons.IH [of "as @ [x]"] Cons.prems p(2) by simp
  then show ?case using p(1) by simp
qed simp

section \<open>The first hole\<close>

lemma first_in:
  assumes "holes_ok mm H" "first_hole mm rs re sz mode = Some first" "first = Some h"
  shows "h \<in> H"
proof -
  have "best_below nd sz t best = Some h \<Longrightarrow> h \<in> set (holes_in t) \<or> best = Some h" for nd t best
    by (induction t arbitrary: best) (auto split: if_splits)
  then show ?thesis
    using assms find_below_in [of "mm_node mm" _ sz "holes_addr mm" None h]
    by (fastforce simp: first_hole_def best_hole_def find_hole_addr_def holes_ok_def split: if_splits list.splits)
qed

lemma first_returns:
  assumes "holes_ok mm H" "H \<noteq> {}"
  shows "\<exists>first. first_hole mm rs re sz mode = Some first"
proof -
  have "holes_size mm \<noteq> \<langle>\<rangle>" using assms by (auto simp: holes_ok_def)
  then show ?thesis by (simp add: first_hole_def best_hole_def)
qed

lemma largest_first:
  assumes "holes_ok mm H" "h \<in> H"
  shows "\<exists>k. holes_first mm = Some k \<and> hole_size (mm_node mm h) \<le> hole_size (mm_node mm k)"
proof (cases "holes_in (holes_size mm)")
  case Nil
  then show ?thesis using assms by (auto simp: holes_ok_def)
next
  case (Cons a xs)
  have o: "set (a # xs) = H" "falling (mm_node mm) (a # xs)" "holes_first mm = Some a" using assms(1) Cons by (simp_all add: holes_ok_def)
  then have "h = a \<or> h \<in> set xs" using assms(2) by auto
  then show ?thesis using o(2,3) by auto
qed

section \<open>Holes apart\<close>

lemma holes_apart:
  assumes "mm_wf mm" "a \<in> set (0 # node_list mm)" "b \<in> set (0 # node_list mm)" "a \<noteq> b"
  shows "hs_of (mm_node mm) a + hl_of (mm_node mm) a < hs_of (mm_node mm) b \<or> hs_of (mm_node mm) b + hl_of (mm_node mm) b < hs_of (mm_node mm) a"
proof -
  obtain xs ys where s: "0 # node_list mm = xs @ a # ys" using assms(2) by (meson split_list)
  have l: "upto_node (mm_node mm) xs a" "laid (mm_node mm) a ys (st_of (mm_node mm) 0)" using assms(1) s unfolding mm_wf_def by (simp_all add: row_split)
  have "b \<in> set (xs @ a # ys)" using assms(3) s by metis
  then consider "b \<in> set xs" | "b \<in> set ys" using assms(4) by auto
  then show ?thesis
  proof cases
    case 1
    then show ?thesis using upto_bounds [OF l(1) 1] by (simp add: placed_node_def)
  next
    case 2
    then have "hs_of (mm_node mm) a + hl_of (mm_node mm) a \<le> st_of (mm_node mm) b" "placed_node (mm_node mm) b" using laid_bounds [OF l(2)] by blast+
    then show ?thesis by (simp add: placed_node_def)
  qed
qed

lemma sorted_wrt_distinct: "distinct xs \<Longrightarrow> sorted_wrt P xs \<Longrightarrow> sorted_wrt (\<lambda>a b. a \<noteq> b \<and> P a b) xs"
  by (induction xs) auto

lemma find_hole_hit:
  assumes wf: "mm_wf mm" and h: "h \<in> set (hole_stack mm)" and a: "hs_of (mm_node mm) h \<le> unat addr" "unat addr \<le> hs_of (mm_node mm) h + hl_of (mm_node mm) h"
  shows "find_hole_addr mm addr 0 = Some h"
proof -
  let ?nd = "mm_node mm"
  have ok: "holes_ok mm (with_hole ?nd (0 # node_list mm))" using wf by (simp add: mm_wf_def)
  then have st: "set (holes_in (holes_addr mm)) = set (hole_stack mm)" "distinct (holes_in (holes_addr mm))" "rising ?nd (holes_in (holes_addr mm))"
    by (simp_all add: holes_ok_def)
  have in_list: "m \<in> set (0 # node_list mm)" if "m \<in> set (hole_stack mm)" for m
    using that ok unfolding holes_ok_def with_hole_def by blast
  have fin: "unat (drm_mm_hole_node_start (?nd m) + hole_size (?nd m)) = hs_of ?nd m + hl_of ?nd m" if "m \<in> set (hole_stack mm)" for m
    by (rule wf_hole [OF wf that])
  have "sorted_wrt (\<lambda>a b. hs_of ?nd a + hl_of ?nd a < hs_of ?nd b) (holes_in (holes_addr mm))"
  proof -
    have "sorted_wrt (\<lambda>a b. a \<noteq> b \<and> drm_mm_hole_node_start (?nd a) \<le> drm_mm_hole_node_start (?nd b)) (holes_in (holes_addr mm))"
      using sorted_wrt_distinct [OF st(2)] st(3) unfolding rising_def by blast
    then show ?thesis
    proof (rule sorted_wrt_mono_rel [rotated])
      fix a b assume "a \<in> set (holes_in (holes_addr mm))" "b \<in> set (holes_in (holes_addr mm))"
        and n: "a \<noteq> b \<and> drm_mm_hole_node_start (?nd a) \<le> drm_mm_hole_node_start (?nd b)"
      then have "a \<in> set (0 # node_list mm)" "b \<in> set (0 # node_list mm)" using in_list st(1) by blast+
      then show "hs_of ?nd a + hl_of ?nd a < hs_of ?nd b" using holes_apart [OF wf, of a b] n by (auto simp: word_le_nat_alt)
    qed
  qed
  moreover have "\<forall>m\<in>set (holes_in (holes_addr mm)). hs_of ?nd m + hl_of ?nd m < 2 ^ 64"
  proof
    fix m assume "m \<in> set (holes_in (holes_addr mm))"
    then have "m \<in> set (hole_stack mm)" using st(1) by simp
    then show "hs_of ?nd m + hl_of ?nd m < 2 ^ 64"
      using fin [of m] unsigned_less [of "drm_mm_hole_node_start (?nd m) + hole_size (?nd m)", where 'a = nat] by simp
  qed
  moreover have "addr \<le> drm_mm_hole_node_start (?nd h) + hole_size (?nd h)" "drm_mm_hole_node_start (?nd h) \<le> addr" "h \<in> set (holes_in (holes_addr mm))"
    using a fin [OF h] h st(1) by (simp_all add: word_le_nat_alt)
  ultimately show ?thesis unfolding find_hole_addr_def by (intro find_below_hit)
qed

end
