(* ===== verification/Mm_Calls.thy ===== *)
theory Mm_Calls
  imports Mm_Layout
begin

text \<open>
  The calls of the range allocator, in bytes: inserting in every mode, and when it finds a place, reserving,
  and removing; and the histories of calls.
\<close>

section \<open>Splitting a hole, in bytes\<close>

lemma occupy_bytes:
  assumes rb: "rb_laws rb" and wf: "mm_wf mm" and h: "h \<in> set (hole_stack mm)" and n: "n \<notin> set (0 # node_list mm)"
    and z: "0 < sz_of (mm_node mm) n" and lo: "hs_of (mm_node mm) h \<le> st_of (mm_node mm) n"
    and hi: "st_of (mm_node mm) n + sz_of (mm_node mm) n \<le> hs_of (mm_node mm) h + hl_of (mm_node mm) h"
    and m: "mm' = occupy rb n h (drm_mm_hole_node_start (mm_node mm h)) (drm_mm_hole_node_start (mm_node mm h) + hole_size (mm_node mm h)) mm"
  shows "mm_wf mm'" "set (node_list mm') = insert n (set (node_list mm))" "busy_bytes mm' k = busy_bytes mm k"
    "busy_bytes mm n \<subseteq> free_bytes mm" "free_bytes mm' = free_bytes mm - busy_bytes mm n"
    "mn_start (mm_node mm' n) = mn_start (mm_node mm n)"
proof -
  obtain xs ys where s: "0 # node_list mm = xs @ h # ys" by (rule wf_hole [OF wf h])
  note o = occupy_keeps [OF rb wf s n z lo hi refl refl, folded m]
  show w: "mm_wf mm'" by (rule o(1))
  have "n \<noteq> 0" using n by simp
  have ds: "distinct (0 # node_list mm')" "distinct (0 # node_list mm)" using o(1) wf by (simp_all add: mm_wf_def)
  have "set (0 # node_list mm') = insert n (set (0 # node_list mm))" unfolding o(2) s by auto
  then show st: "set (node_list mm') = insert n (set (node_list mm))" using ds \<open>n \<noteq> 0\<close> by (simp add: insert_eq_iff insert_commute)
  have a: "mn_start (mm_node mm' k) = mn_start (mm_node mm k)" "mn_size (mm_node mm' k) = mn_size (mm_node mm k)" for k
    using o(3) [of k] by (auto simp: agree_def)
  then show b: "busy_bytes mm' k = busy_bytes mm k" for k by (simp add: busy_bytes_def)
  show "mn_start (mm_node mm' n) = mn_start (mm_node mm n)" by (rule a)
  have r: "range_bytes mm' = range_bytes mm" using a [of 0] by (simp add: range_bytes_def drm_mm_hole_node_start_def)
  have "busy_bytes mm n \<subseteq> hole_bytes mm h" using lo hi by (auto simp: busy_bytes_def hole_bytes_def)
  then show "busy_bytes mm n \<subseteq> free_bytes mm" using h by (auto simp: free_bytes_def)
  show "free_bytes mm' = free_bytes mm - busy_bytes mm n"
    unfolding wf_bytes(1) [OF w] wf_bytes(1) [OF wf] r st b by auto
qed

lemma update_other:
  assumes wf: "mm_wf mm" and n: "n \<notin> set (0 # node_list mm)"
  shows "mm_wf (update_node n f mm)" "node_list (update_node n f mm) = node_list mm" "hole_stack (update_node n f mm) = hole_stack mm"
    "free_bytes (update_node n f mm) = free_bytes mm" "h \<in> set (hole_stack mm) \<Longrightarrow> mm_node (update_node n f mm) h = mm_node mm h"
    "k \<noteq> n \<Longrightarrow> busy_bytes (update_node n f mm) k = busy_bytes mm k" "mm_node (update_node n f mm) n = f (mm_node mm n)"
proof -
  show "mm_wf (update_node n f mm)" by (rule wf_update_other [OF wf n])
  show l: "node_list (update_node n f mm) = node_list mm" "hole_stack (update_node n f mm) = hole_stack mm"
    "mm_node (update_node n f mm) n = f (mm_node mm n)" by (simp_all add: update_node_def)
  have hs: "h \<noteq> n" if "h \<in> set (hole_stack mm)" for h
  proof -
    have "h \<in> set (0 # node_list mm)" using that wf unfolding mm_wf_def holes_ok_def with_hole_def by blast
    then show ?thesis using n by metis
  qed
  show e: "h \<in> set (hole_stack mm) \<Longrightarrow> mm_node (update_node n f mm) h = mm_node mm h" for h using hs by (simp add: update_node_def)
  show "free_bytes (update_node n f mm) = free_bytes mm" using e by (simp add: free_bytes_def l hole_bytes_def)
  show "k \<noteq> n \<Longrightarrow> busy_bytes (update_node n f mm) k = busy_bytes mm k" by (simp add: busy_bytes_def update_node_def)
qed

section \<open>Inserting\<close>

text \<open>The callback of a driver makes a hole smaller, never larger.\<close>

definition color_shrinks :: "color_adjust option \<Rightarrow> bool" where
  "color_shrinks col \<longleftrightarrow> (\<forall>mm h c s e. s \<le> fst (adjust col mm h c (s, e)) \<and> snd (adjust col mm h c (s, e)) \<le> e)"

lemma insert_result:
  assumes rb: "rb_laws rb" and wf: "mm_wf mm" and n: "n \<notin> set (0 # node_list mm)" and col: "color_shrinks col"
  shows "\<exists>mm' r. drm_mm_insert_node_in_range rb col mm n sz al c rs re mode = Some (mm', r) \<and>
    (case r of
       Inl e \<Rightarrow> e = ENOSPC \<and> mm' = mm
     | Inr _ \<Rightarrow> mm_wf mm' \<and> set (node_list mm') = insert n (set (node_list mm)) \<and>
         (\<forall>m\<in>set (node_list mm). busy_bytes mm' m = busy_bytes mm m) \<and>
         busy_bytes mm' n \<subseteq> free_bytes mm \<inter> {unat rs..<unat re} \<and> card (busy_bytes mm' n) = unat sz \<and> 0 < unat sz \<and>
         (al \<le> 1 \<or> unat al dvd unat (mn_start (mm_node mm' n))) \<and> free_bytes mm' = free_bytes mm - busy_bytes mm' n)"
proof -
  define H where "H = with_hole (mm_node mm) (0 # node_list mm)"
  have ok: "holes_ok mm H" using wf by (simp add: mm_wf_def H_def)
  define al' where "al' = (if al \<le> 1 then 0 else al)"
  define once where "once = (mode AND DRM_MM_INSERT_ONCE \<noteq> 0)"
  define md where "md = mode AND NOT DRM_MM_INSERT_ONCE"
  define msk where "msk = (if is_power_of_2 al' then al' - 1 else 0)"
  note code = drm_mm_insert_node_in_range_def [of rb col mm n sz al c rs re mode, unfolded Let_def, folded al'_def once_def md_def, folded msk_def]
  consider (small) "sz = 0 \<or> re - rs < sz \<or> (case holes_first mm of None \<Rightarrow> 0 | Some h \<Rightarrow> hole_size (mm_node mm h)) < sz"
    | (go) "sz \<noteq> 0" "\<not> re - rs < sz" "\<not> (case holes_first mm of None \<Rightarrow> 0 | Some h \<Rightarrow> hole_size (mm_node mm h)) < sz" by blast
  then show ?thesis
  proof cases
    case small
    then have "drm_mm_insert_node_in_range rb col mm n sz al c rs re mode = Some (mm, Inl ENOSPC)" unfolding code by auto
    then show ?thesis by simp
  next
    case go
    have z: "0 < unat sz" using go(1) by (simp add: unat_gt_0)
    have "holes_first mm \<noteq> None" using go(1,3) by (cases "holes_first mm") (simp_all add: word_gt_0)
    then have "H \<noteq> {}" using ok by (auto simp: holes_ok_def)
    then obtain first where f: "first_hole mm rs re sz md = Some first" using first_returns [OF ok] by blast
    obtain r where r: "search_holes col mm sz al' msk c rs re md once first = Some r"
      "\<forall>k s. r = Some (k, s) \<longrightarrow> k \<in> H \<and> place_in_hole md sz al' msk (adjust col mm k c
         (drm_mm_hole_node_start (mm_node mm k), drm_mm_hole_node_start (mm_node mm k) + hole_size (mm_node mm k))) rs re = Some s"
      using every_search_ends [OF ok, of first col sz al' msk c rs re md once] first_in [OF ok f] by blast
    show ?thesis
    proof (cases r)
      case None
      then have "drm_mm_insert_node_in_range rb col mm n sz al c rs re mode = Some (mm, Inl ENOSPC)" using go f r(1) unfolding code by simp
      then show ?thesis by simp
    next
      case (Some hs)
      obtain h s where hs: "r = Some (h, s)" using Some by (cases hs) simp
      define mm1 where "mm1 = update_node n (\<lambda>p. p\<lparr>mn_size := sz, mn_start := s, mn_color := c\<rparr>) mm"
      define mm' where "mm' = occupy rb n h (drm_mm_hole_node_start (mm_node mm1 h)) (drm_mm_hole_node_start (mm_node mm1 h) + hole_size (mm_node mm1 h)) mm1"
      have hH: "h \<in> set (hole_stack mm)" using r(2) hs ok by (simp add: holes_ok_def)
      note u = update_other [OF wf n, where f = "\<lambda>p. p\<lparr>mn_size := sz, mn_start := s, mn_color := c\<rparr>", folded mm1_def]
      have e: "drm_mm_insert_node_in_range rb col mm n sz al c rs re mode = Some (mm', Inr ())"
        using go f r(1) hs u(5) [OF hH] unfolding code by (simp add: mm'_def mm1_def)
      let ?S = "drm_mm_hole_node_start (mm_node mm h)"
      obtain cs ce where ad: "adjust col mm h c (?S, ?S + hole_size (mm_node mm h)) = (cs, ce)" by (meson surj_pair)
      have sh: "?S \<le> cs" "ce \<le> ?S + hole_size (mm_node mm h)" using col ad unfolding color_shrinks_def by (metis fst_conv snd_conv)+
      have p: "place_in_hole md sz al' (if is_power_of_2 al' then al' - 1 else 0) (cs, ce) rs re = Some s"
        using r(2) hs ad unfolding msk_def [symmetric] by simp
      note q = place_fits [OF p z]
      have un: "unat (?S + hole_size (mm_node mm h)) = hs_of (mm_node mm) h + hl_of (mm_node mm) h" by (rule wf_hole [OF wf hH])
      have lo: "hs_of (mm_node mm) h \<le> unat s" "unat rs \<le> unat s"
        using q(1) sh(1) order_trans [of ?S cs s] unfolding max.bounded_iff by (simp_all flip: word_le_nat_alt)
      have "unat (min ce re) \<le> unat ce" "unat (min ce re) \<le> unat re" by (simp_all flip: word_le_nat_alt)
      then have hi: "unat s + unat sz \<le> hs_of (mm_node mm) h + hl_of (mm_node mm) h" "unat s + unat sz \<le> unat re"
        using q(2) sh(2) un by (simp_all add: word_le_nat_alt)
      have nn: "mn_start (mm_node mm1 n) = s" "mn_size (mm_node mm1 n) = sz" by (simp_all add: u(7))
      have o: "mm_wf mm'" "set (node_list mm') = insert n (set (node_list mm1))" "\<And>k. busy_bytes mm' k = busy_bytes mm1 k"
        "busy_bytes mm1 n \<subseteq> free_bytes mm1" "free_bytes mm' = free_bytes mm1 - busy_bytes mm1 n" "mn_start (mm_node mm' n) = s"
        using occupy_bytes [OF rb u(1) _ _ _ _ _ mm'_def] hH n u(2,3,5) nn z lo hi by simp_all
      have b: "busy_bytes mm1 n = {unat s..<unat s + unat sz}" by (simp add: busy_bytes_def nn)
      have "busy_bytes mm' m = busy_bytes mm m" if "m \<in> set (node_list mm)" for m
      proof -
        have "n \<notin> set (node_list mm)" using n by simp
        then have "m \<noteq> n" using that by metis
        then show ?thesis using o(3) u(6) by simp
      qed
      moreover have "busy_bytes mm' n \<subseteq> free_bytes mm \<inter> {unat rs..<unat re}" using o(3,4) b u(4) lo hi by auto
      moreover have "al \<le> 1 \<or> unat al dvd unat (mn_start (mm_node mm' n))" using q(3) o(6) by (auto simp: al'_def split: if_splits)
      moreover have "card (busy_bytes mm' n) = unat sz" using b o(3) by simp
      ultimately show ?thesis using e o z u(2,4) by auto
    qed
  qed
qed

section \<open>A place is found\<close>

lemma no_callback [simp]: "color_shrinks None" "adjust None mm h c x = x"
  by (simp_all add: color_shrinks_def adjust_def)

lemma best_or_evict:
  assumes "mode = DRM_MM_INSERT_BEST \<or> mode = DRM_MM_INSERT_EVICT"
  shows "mode \<noteq> DRM_MM_INSERT_LOW" "mode \<noteq> DRM_MM_INSERT_HIGH" "mode AND DRM_MM_INSERT_ONCE = 0" "mode AND NOT DRM_MM_INSERT_ONCE = mode"
  using assms by (auto simp: insert_modes)

text \<open>A search that fails has tried every hole that is large enough.\<close>

lemma search_tries:
  assumes ok: "holes_ok mm H" and m: "mode = DRM_MM_INSERT_BEST \<or> mode = DRM_MM_INSERT_EVICT" and h: "h \<in> H" "sz \<le> hole_size (mm_node mm h)"
    and f: "first_hole mm rs re sz mode = Some first" and s: "search_holes col mm sz al msk c rs re mode False first = Some None"
  shows "place_in_hole mode sz al msk (adjust col mm h c (hole_range mm h)) rs re = None"
  using m
proof
  assume e: "mode = DRM_MM_INSERT_EVICT"
  have d: "distinct ([] @ hole_stack mm)" "h \<in> set (hole_stack mm)" using ok h by (simp_all add: holes_ok_def)
  have "first = (case hole_stack mm of [] \<Rightarrow> None | x # _ \<Rightarrow> Some x)" using f e by (auto simp: first_hole_def insert_modes split: list.splits)
  then have "\<forall>x\<in>set (hole_stack mm). place_in_hole mode sz al msk (adjust col mm x c (hole_range mm x)) rs re = None"
    using search_along [OF best_or_evict(1,2) [OF m] d(1), where mm = mm and sz = sz and col = col and al = al and msk = msk and c = c and rs = rs and re = re] s e by (simp add: next_hole_def insert_modes)
  then show ?thesis using d(2) by blast
next
  assume e: "mode = DRM_MM_INSERT_BEST"
  let ?t = "holes_size mm"
  have t: "falling (mm_node mm) (holes_in ?t)" "distinct (holes_in ?t)" "h \<in> set (holes_in ?t)" using ok h by (simp_all add: holes_ok_def)
  obtain as bs where p: "holes_in ?t = as @ bs" "\<forall>b\<in>set bs. hole_size (mm_node mm b) < sz"
    "best_below (mm_node mm) sz ?t None = (if as = [] then None else Some (List.last as))" using best_below_result [OF t(1), of sz None] by blast
  have hs: "h \<in> set (rev as)" using t(3) p(1,2) h(2) by (auto simp: not_le [symmetric])
  have "?t \<noteq> \<langle>\<rangle>" using t(3) by auto
  then have fi: "first = (case rev as of [] \<Rightarrow> None | x # _ \<Rightarrow> Some x)"
    using f e p(3) by (cases as rule: rev_cases) (simp_all add: first_hole_def best_hole_def insert_modes)
  have d: "distinct (rev bs @ rev as)" using t(2) unfolding p(1) by auto
  have "\<forall>x\<in>set (rev as). place_in_hole mode sz al msk (adjust col mm x c (hole_range mm x)) rs re = None"
    using search_along [OF best_or_evict(1,2) [OF m] d, where mm = mm and sz = sz and col = col and al = al and msk = msk and c = c and rs = rs and re = re] s fi e p(1) by (simp add: next_hole_def insert_modes rb_prev_def)
  then show ?thesis using hs by blast
qed

lemma insert_finds:
  assumes rb: "rb_laws rb" and wf: "mm_wf mm" and n: "n \<notin> set (0 # node_list mm)" and m: "mode = DRM_MM_INSERT_BEST \<or> mode = DRM_MM_INSERT_EVICT"
  shows "(\<exists>mm'. drm_mm_insert_node_in_range rb None mm n sz al c rs re mode = Some (mm', Inr ())) \<longleftrightarrow>
    0 < unat sz \<and> (\<exists>t. {t..<t + unat sz} \<subseteq> free_bytes mm \<inter> {unat rs..<unat re} \<and> (al \<le> 1 \<or> unat al dvd t))"
proof
  assume "\<exists>mm'. drm_mm_insert_node_in_range rb None mm n sz al c rs re mode = Some (mm', Inr ())"
  then obtain mm' where i: "drm_mm_insert_node_in_range rb None mm n sz al c rs re mode = Some (mm', Inr ())" by blast
  have r: "busy_bytes mm' n \<subseteq> free_bytes mm \<inter> {unat rs..<unat re}" "card (busy_bytes mm' n) = unat sz" "0 < unat sz"
    "al \<le> 1 \<or> unat al dvd unat (mn_start (mm_node mm' n))"
    using insert_result [OF rb wf n no_callback(1), of sz al c rs re mode] unfolding i by simp_all
  have "sz_of (mm_node mm') n = unat sz" using r(2) by (simp add: busy_bytes_def)
  then have "{st_of (mm_node mm') n..<st_of (mm_node mm') n + unat sz} \<subseteq> free_bytes mm \<inter> {unat rs..<unat re}" using r(1) by (simp add: busy_bytes_def)
  then show "0 < unat sz \<and> (\<exists>t. {t..<t + unat sz} \<subseteq> free_bytes mm \<inter> {unat rs..<unat re} \<and> (al \<le> 1 \<or> unat al dvd t))"
    using r(3,4) by blast
next
  assume "0 < unat sz \<and> (\<exists>t. {t..<t + unat sz} \<subseteq> free_bytes mm \<inter> {unat rs..<unat re} \<and> (al \<le> 1 \<or> unat al dvd t))"
  then obtain t where z: "0 < unat sz" and t: "{t..<t + unat sz} \<subseteq> free_bytes mm" "{t..<t + unat sz} \<subseteq> {unat rs..<unat re}" "al \<le> 1 \<or> unat al dvd t" by blast
  obtain h where h: "h \<in> set (hole_stack mm)" "hs_of (mm_node mm) h \<le> t" "t + unat sz \<le> hs_of (mm_node mm) h + hl_of (mm_node mm) h"
    using free_run [OF wf z t(1)] by blast
  have rg: "unat rs \<le> t" "t + unat sz \<le> unat re"
  proof -
    have "t \<in> {t..<t + unat sz}" "t + unat sz - 1 \<in> {t..<t + unat sz}" using z by simp_all
    then have i: "t \<in> {unat rs..<unat re}" "t + unat sz - 1 \<in> {unat rs..<unat re}" using t(2) by blast+
    show "unat rs \<le> t" using i(1) by simp
    have "t + unat sz - 1 < unat re" using i(2) by simp
    then show "t + unat sz \<le> unat re" using z by linarith
  qed
  define H where "H = with_hole (mm_node mm) (0 # node_list mm)"
  have ok: "holes_ok mm H" using wf by (simp add: mm_wf_def H_def)
  have hH: "h \<in> H" using ok h(1) by (simp add: holes_ok_def)
  have un: "unat (drm_mm_hole_node_start (mm_node mm h) + hole_size (mm_node mm h)) = hs_of (mm_node mm) h + hl_of (mm_node mm) h" by (rule wf_hole [OF wf h(1)])
  have sh: "sz \<le> hole_size (mm_node mm h)" using h(2,3) by (simp add: word_le_nat_alt)
  define al' where "al' = (if al \<le> 1 then 0 else al)"
  define msk where "msk = (if is_power_of_2 al' then al' - 1 else 0)"
  note code = drm_mm_insert_node_in_range_def [of rb None mm n sz al c rs re mode, unfolded Let_def best_or_evict(3,4) [OF m], folded al'_def, folded msk_def]
  have "sz \<noteq> 0" using z by auto
  moreover have "\<not> re - rs < sz" using rg unat_minus [of rs re] by (simp add: word_less_nat_alt word_le_nat_alt)
  moreover have "\<not> (case holes_first mm of None \<Rightarrow> 0 | Some h \<Rightarrow> hole_size (mm_node mm h)) < sz"
    using largest_first [OF ok hH] sh by auto
  moreover obtain first where f: "first_hole mm rs re sz mode = Some first" using first_returns [OF ok] hH by blast
  moreover obtain r where r: "search_holes None mm sz al' msk c rs re mode False first = Some r"
    using every_search_ends [OF ok, of first None sz al' msk c rs re mode False] first_in [OF ok f] by blast
  moreover have "r \<noteq> None"
  proof
    assume "r = None"
    then have "place_in_hole mode sz al' msk (adjust None mm h c (hole_range mm h)) rs re = None" using search_tries [OF ok m hH sh f] r by blast
    moreover have "unat (max (drm_mm_hole_node_start (mm_node mm h)) rs) \<le> t" using h(2) rg(1) by (simp add: max_def)
    moreover have "t + unat sz \<le> unat (min (drm_mm_hole_node_start (mm_node mm h) + hole_size (mm_node mm h)) re)"
      using h(3) rg(2) un by (simp add: min_def)
    moreover have "al' = 0 \<or> unat al' dvd t" using t(3) by (auto simp: al'_def)
    ultimately show False using place_found [OF best_or_evict(2) [OF m] z, of "drm_mm_hole_node_start (mm_node mm h)" rs t _ re al']
      unfolding msk_def by (simp add: hole_range_def)
  qed
  ultimately show "\<exists>mm'. drm_mm_insert_node_in_range rb None mm n sz al c rs re mode = Some (mm', Inr ())"
    unfolding code by (auto split: prod.splits)
qed

section \<open>Reserving and removing\<close>

lemma mm_reserve_result:
  assumes rb: "rb_laws rb" and wf: "mm_wf mm" and n: "n \<notin> set (0 # node_list mm)" and r: "drm_mm_reserve_node rb None mm n = (mm', r)"
  shows "(r = Inr () \<longleftrightarrow> 0 < sz_of (mm_node mm) n \<and> busy_bytes mm n \<subseteq> free_bytes mm) \<and>
    (case r of
       Inl e \<Rightarrow> e = ENOSPC \<and> mm' = mm
     | Inr _ \<Rightarrow> mm_wf mm' \<and> set (node_list mm') = insert n (set (node_list mm)) \<and> (\<forall>k. busy_bytes mm' k = busy_bytes mm k) \<and>
         free_bytes mm' = free_bytes mm - busy_bytes mm n)"
proof -
  let ?s = "mn_start (mm_node mm n)" and ?z = "mn_size (mm_node mm n)"
  let ?fits = "\<lambda>h. h \<in> set (hole_stack mm) \<and> hs_of (mm_node mm) h \<le> unat ?s \<and> unat ?s + unat ?z \<le> hs_of (mm_node mm) h + hl_of (mm_node mm) h"
  have un: "unat (drm_mm_hole_node_start (mm_node mm h) + hole_size (mm_node mm h)) = hs_of (mm_node mm) h + hl_of (mm_node mm) h"
    if "h \<in> set (hole_stack mm)" for h by (rule wf_hole [OF wf that])
  have free: "0 < unat ?z \<and> busy_bytes mm n \<subseteq> free_bytes mm \<longleftrightarrow> 0 < unat ?z \<and> (\<exists>h. ?fits h)"
    using free_run [OF wf, of "unat ?z" "unat ?s"] by (auto simp: busy_bytes_def free_bytes_def hole_bytes_def)
  have nowrap: "?s < ?s + ?z \<and> unat (?s + ?z) = unat ?s + unat ?z" if "?fits h" "0 < unat ?z" for h
  proof -
    have "unat ?s + unat ?z < 2 ^ 64"
      using that un [of h] unsigned_less [of "drm_mm_hole_node_start (mm_node mm h) + hole_size (mm_node mm h)", where 'a = nat] by simp
    then show ?thesis using that(2) by (simp add: word_less_nat_alt unat_word_ariths)
  qed
  consider (out) "?s + ?z \<le> ?s" | (none) "?s < ?s + ?z" "find_hole_addr mm ?s 0 = None"
    | (some) h where "?s < ?s + ?z" "find_hole_addr mm ?s 0 = Some h" by (cases "find_hole_addr mm ?s 0"; cases "?s + ?z \<le> ?s") (auto simp: not_le)
  then show ?thesis
  proof cases
    case out
    then have "r = Inl ENOSPC" "mm' = mm" using r by (simp_all add: drm_mm_reserve_node_def Let_def)
    moreover have "\<not> (0 < unat ?z \<and> (\<exists>h. ?fits h))" using nowrap out by (auto simp: not_less [symmetric])
    ultimately show ?thesis using free by simp
  next
    case none
    then have "r = Inl ENOSPC" "mm' = mm" using r by (simp_all add: drm_mm_reserve_node_def Let_def not_le [symmetric])
    moreover have "\<not> ?fits h" for h using find_hole_hit [OF wf, of h ?s] none(2) by auto
    ultimately show ?thesis using free by simp
  next
    case (some h)
    have hH: "h \<in> set (hole_stack mm)"
    proof -
      have "h \<in> set (holes_in (holes_addr mm))" using find_below_in [of "mm_node mm" ?s 0 "holes_addr mm" None h] some(2) by (simp add: find_hole_addr_def)
      then show ?thesis using wf by (simp add: mm_wf_def holes_ok_def)
    qed
    have z: "0 < unat ?z" using some(1) by (cases "?z = 0") (simp_all add: unat_gt_0)
    show ?thesis
    proof (cases "?fits h")
      case True
      have w: "unat (?s + ?z) = unat ?s + unat ?z" using nowrap [OF True z] by blast
      have o: "r = Inr ()" "mm' = occupy rb n h (drm_mm_hole_node_start (mm_node mm h)) (drm_mm_hole_node_start (mm_node mm h) + hole_size (mm_node mm h)) mm"
        using r some True un [OF hH] w by (simp_all add: drm_mm_reserve_node_def Let_def word_le_nat_alt word_less_nat_alt)
      have "hs_of (mm_node mm) h \<le> unat ?s" "unat ?s + unat ?z \<le> hs_of (mm_node mm) h + hl_of (mm_node mm) h" using True by simp_all
      note b = occupy_bytes [OF rb wf hH n z this o(2)]
      show ?thesis using o(1) b z by simp
    next
      case False
      have "\<not> ?fits k" for k using find_hole_hit [OF wf, of k ?s] some(2) False by auto
      then have nf: "\<not> (0 < unat ?z \<and> busy_bytes mm n \<subseteq> free_bytes mm)" using free by simp
      have "unat (?s + ?z) = unat ?s + unat ?z"
      proof (rule ccontr)
        assume "unat (?s + ?z) \<noteq> unat ?s + unat ?z"
        then have "\<not> unat ?s + unat ?z < 2 ^ 64" by (auto simp: unat_word_ariths)
        then have "unat (?s + ?z) = unat ?s + unat ?z - 2 ^ 64"
          using unsigned_less [of ?s, where 'a = nat] unsigned_less [of ?z, where 'a = nat] mod_if [of "unat ?s + unat ?z" "2 ^ 64"] by (simp add: unat_word_ariths)
        then show False using some(1) unsigned_less [of ?z, where 'a = nat] by (simp add: word_less_nat_alt)
      qed
      then have "?s < drm_mm_hole_node_start (mm_node mm h) \<or> drm_mm_hole_node_start (mm_node mm h) + hole_size (mm_node mm h) < ?s + ?z"
        using False hH un [OF hH] by (auto simp: word_less_nat_alt)
      then have "r = Inl ENOSPC" "mm' = mm" using r some by (simp_all add: drm_mm_reserve_node_def Let_def not_le [symmetric] split: if_splits)
      then show ?thesis using nf by simp
    qed
  qed
qed

lemma remove_result:
  assumes rb: "rb_laws rb" and wf: "mm_wf mm" and n: "n \<in> set (node_list mm)" and m: "mm' = drm_mm_remove_node rb mm n"
  shows "mm_wf mm'" "set (node_list mm') = set (node_list mm) - {n}" "busy_bytes mm' k = busy_bytes mm k"
    "free_bytes mm' = free_bytes mm \<union> busy_bytes mm n"
proof -
  obtain as ys where s0: "node_list mm = as @ n # ys" using split_list [OF n] by blast
  obtain xs p where "0 # as = xs @ [p]" by (metis list.distinct(1) rev_exhaust)
  then have s: "0 # node_list mm = xs @ p # n # ys" using s0 by (metis append.assoc append_Cons append_Nil)
  note r = mm_remove_keeps [OF rb wf s, folded m]
  show w: "mm_wf mm'" by (rule r(1))
  have d: "distinct (0 # node_list mm)" "distinct (0 # node_list mm')" using wf w by (simp_all add: mm_wf_def)
  have hd: "0 \<notin> set (node_list mm)" "0 \<notin> set (node_list mm')" using d by simp_all
  have "set (0 # node_list mm') = set (0 # node_list mm) - {n}"
    using d(1) unfolding r(2) s distinct_append by (simp only: set_append list.set distinct.simps) blast
  then have "insert 0 (set (node_list mm')) = insert 0 (set (node_list mm) - {n})" using hd n by (metis insert_Diff_if list.simps(15) singletonD)
  then show st: "set (node_list mm') = set (node_list mm) - {n}" using hd by (metis Diff_iff Diff_insert_absorb)
  have a: "mn_start (mm_node mm' k) = mn_start (mm_node mm k)" "mn_size (mm_node mm' k) = mn_size (mm_node mm k)" for k
    using r(3) [of k] by (auto simp: agree_def)
  then show b: "busy_bytes mm' k = busy_bytes mm k" for k by (simp add: busy_bytes_def)
  have rg: "range_bytes mm' = range_bytes mm" using a [of 0] by (simp add: range_bytes_def drm_mm_hole_node_start_def)
  have sub: "busy_bytes mm n \<subseteq> range_bytes mm" using wf_bytes(2) [OF wf] n by blast
  have ap: "\<forall>m\<in>set (node_list mm). m \<noteq> n \<longrightarrow> busy_bytes mm m \<inter> busy_bytes mm n = {}" using wf_bytes(3) [OF wf] n by blast
  have alg: "f n \<subseteq> R \<Longrightarrow> \<forall>m\<in>S. m \<noteq> n \<longrightarrow> f m \<inter> f n = {} \<Longrightarrow> R - (\<Union>m\<in>S - {n}. f m) = R - (\<Union>m\<in>S. f m) \<union> f n"
    for f :: "nat \<Rightarrow> nat set" and R S by (rule set_eqI, rule iffI) (simp, blast, simp, blast)
  show "free_bytes mm' = free_bytes mm \<union> busy_bytes mm n"
    unfolding wf_bytes(1) [OF w] wf_bytes(1) [OF wf] rg st b by (rule alg [OF sub ap])
qed

section \<open>Histories\<close>

text \<open>
  What calls lead to: nodes outside the list may be given any contents by their owner; a node in the list is removed or
  replaced by one that is not.
\<close>

inductive mm_reach :: "rb_ops \<Rightarrow> drm_mm \<Rightarrow> bool" for rb where
  mm_start: "0 < unat sz \<Longrightarrow> unat start + unat sz < 2 ^ 64 \<Longrightarrow> mm_reach rb (drm_mm_init rb nodes start sz)"
| mm_prepare: "mm_reach rb mm \<Longrightarrow> n \<notin> set (0 # node_list mm) \<Longrightarrow> mm_reach rb (update_node n f mm)"
| mm_insert: "mm_reach rb mm \<Longrightarrow> n \<notin> set (0 # node_list mm) \<Longrightarrow> color_shrinks col \<Longrightarrow>
    drm_mm_insert_node_in_range rb col mm n sz al c rs re mode = Some (mm', r) \<Longrightarrow> mm_reach rb mm'"
| mm_reserve: "mm_reach rb mm \<Longrightarrow> n \<notin> set (0 # node_list mm) \<Longrightarrow> drm_mm_reserve_node rb None mm n = (mm', r) \<Longrightarrow> mm_reach rb mm'"
| mm_remove: "mm_reach rb mm \<Longrightarrow> n \<in> set (node_list mm) \<Longrightarrow> mm_reach rb (drm_mm_remove_node rb mm n)"
| mm_replace: "mm_reach rb mm \<Longrightarrow> old \<in> set (node_list mm) \<Longrightarrow> new \<notin> set (0 # node_list mm) \<Longrightarrow>
    mm_reach rb (drm_mm_replace_node mm old new)"

lemma reach_wf:
  assumes rb: "rb_laws rb" and r: "mm_reach rb mm"
  shows "mm_wf mm"
  using r
proof (induction rule: mm_reach.induct)
  case (mm_start sz start nodes)
  then show ?case using mm_init_keeps(1) [OF rb] by blast
next
  case (mm_prepare mm n f)
  then show ?case by (intro wf_update_other)
next
  case (mm_insert mm n col sz al c rs re mode mm' r)
  then show ?case using insert_result [OF rb mm_insert(5,2,3), of sz al c rs re mode] by (cases r) auto
next
  case (mm_reserve mm n mm' r)
  then show ?case using mm_reserve_result [OF rb mm_reserve(4,2,3)] by (cases r) auto
next
  case (mm_remove mm n)
  then show ?case using remove_result(1) [OF rb mm_remove(3,2) refl] by blast
next
  case (mm_replace mm old new)
  then show ?case using mm_replace_keeps(1) by blast
qed

end
