(* ===== verification/Mm_Scan.thy ===== *)
theory Mm_Scan
  imports Mm_Calls
begin

text \<open>
  The roster of \<open>drm_mm.c\<close> for eviction. A driver adds nodes one after the other, each is taken off the list of nodes
  without being freed, until the gap that opens is large enough. Then it goes back over the nodes: each is put back and tells
  whether it is in the way. It is shown that this leaves the allocator as it was, and that removing the nodes in the way
  makes room.
\<close>

section \<open>The code\<close>

record drm_mm_scan =
  scan_size :: u64
  scan_alignment :: u64
  scan_remainder_mask :: u64
  scan_range_start :: u64
  scan_range_end :: u64
  hit_start :: u64
  hit_end :: u64
  scan_color :: u64
  scan_mode :: u32

definition drm_mm_scan_init_with_range :: "u64 \<Rightarrow> u64 \<Rightarrow> u64 \<Rightarrow> u64 \<Rightarrow> u64 \<Rightarrow> u32 \<Rightarrow> drm_mm_scan" where
  "drm_mm_scan_init_with_range sz alignment color start fin mode =
     (let alignment = (if alignment \<le> 1 then 0 else alignment)
      in \<lparr>scan_size = sz, scan_alignment = alignment, scan_remainder_mask = (if is_power_of_2 alignment then alignment - 1 else 0),
          scan_range_start = start, scan_range_end = fin, hit_start = - 1, hit_end = 0, scan_color = color, scan_mode = mode\<rparr>)"

definition drm_mm_scan_init :: "u64 \<Rightarrow> u64 \<Rightarrow> u64 \<Rightarrow> u32 \<Rightarrow> drm_mm_scan" where
  "drm_mm_scan_init sz alignment color mode = drm_mm_scan_init_with_range sz alignment color 0 (- 1) mode"

text \<open>The node is taken off the list and keeps its own links, to be put back by them.\<close>

definition drm_mm_scan_add_block :: "color_adjust option \<Rightarrow> drm_mm_scan \<Rightarrow> drm_mm \<Rightarrow> nat \<Rightarrow> drm_mm \<times> drm_mm_scan \<times> bool" where
  "drm_mm_scan_add_block col scan mm n =
     (let mm = (update_node n (\<lambda>p. p\<lparr>scanned_bit := True\<rparr>) mm)\<lparr>scan_active := scan_active mm + 1\<rparr>;
          hole = list_prev_entry mm n;
          mm = mm\<lparr>scan_links := (scan_links mm)(n := (hole, list_next_entry mm n)), node_list := filter (\<lambda>m. m \<noteq> n) (node_list mm)\<rparr>;
          hole_start = drm_mm_hole_node_start (mm_node mm hole);
          hole_end = drm_mm_hole_node_end mm hole
      in case place_in_hole (scan_mode scan) (scan_size scan) (scan_alignment scan) (scan_remainder_mask scan)
             (adjust col mm hole (scan_color scan) (hole_start, hole_end)) (scan_range_start scan) (scan_range_end scan) of
           None \<Rightarrow> (mm, scan, False)
         | Some adj_start \<Rightarrow> (mm, scan\<lparr>hit_start := adj_start, hit_end := adj_start + scan_size scan\<rparr>, True))"

text \<open>\<open>None\<close> is a node put back behind one that is not in the list: the comment says that the state is corrupted then.\<close>

definition drm_mm_scan_remove_block :: "drm_mm_scan \<Rightarrow> drm_mm \<Rightarrow> nat \<Rightarrow> (drm_mm \<times> bool) option" where
  "drm_mm_scan_remove_block scan mm n =
     (let mm = (update_node n (\<lambda>p. p\<lparr>scanned_bit := False\<rparr>) mm)\<lparr>scan_active := scan_active mm - 1\<rparr>;
          prev_node = fst (scan_links mm n);
          nd = mm_node mm n
      in if prev_node \<notin> set (0 # node_list mm) then None
         else Some (list_add n prev_node mm, hit_start scan < mn_start nd + mn_size nd \<and> mn_start nd < hit_end scan))"

definition drm_mm_scan_color_evict :: "color_adjust option \<Rightarrow> drm_mm_scan \<Rightarrow> drm_mm \<Rightarrow> nat option" where
  "drm_mm_scan_color_evict col scan mm =
     (case col of
        None \<Rightarrow> None
      | Some f \<Rightarrow>
          (case find (\<lambda>h. let hole_start = drm_mm_hole_node_start (mm_node mm h)
                          in hole_start \<le> hit_start scan \<and> hit_end scan \<le> hole_start + hole_size (mm_node mm h)) (hole_stack mm) of
             None \<Rightarrow> None
           | Some hole \<Rightarrow>
               let hole_start = drm_mm_hole_node_start (mm_node mm hole);
                   (hole_start, hole_end) = f mm hole (scan_color scan) (hole_start, hole_start + hole_size (mm_node mm hole))
               in if hit_start scan < hole_start then Some hole
                  else if hole_end < hit_end scan then Some (list_next_entry mm hole)
                  else None))"

section \<open>How a driver uses it\<close>

text \<open>
  The comment on the roster describes the two walks, and \<open>i915_gem_evict_something\<close> goes them: nodes are added until one
  call finds a hole, each on top of a list; that list is then gone through from the top, and the nodes to evict are kept.
\<close>

fun scan_blocks :: "color_adjust option \<Rightarrow> drm_mm_scan \<Rightarrow> drm_mm \<Rightarrow> nat list \<Rightarrow> nat list \<Rightarrow> drm_mm \<times> drm_mm_scan \<times> nat list \<times> bool" where
  "scan_blocks col scan mm [] roster = (mm, scan, roster, False)"
| "scan_blocks col scan mm (n # ns) roster =
     (let (mm, scan, found) = drm_mm_scan_add_block col scan mm n
      in if found then (mm, scan, n # roster, True) else scan_blocks col scan mm ns (n # roster))"

fun restore_blocks :: "drm_mm_scan \<Rightarrow> drm_mm \<Rightarrow> nat list \<Rightarrow> (drm_mm \<times> nat list) option" where
  "restore_blocks scan mm [] = Some (mm, [])"
| "restore_blocks scan mm (n # ns) = do {
     (mm, evict) \<leftarrow> drm_mm_scan_remove_block scan mm n;
     (mm, ms) \<leftarrow> restore_blocks scan mm ns;
     Some (mm, if evict then n # ms else ms) }"

definition remove_blocks :: "rb_ops \<Rightarrow> drm_mm \<Rightarrow> nat list \<Rightarrow> drm_mm" where
  "remove_blocks rb mm ns = foldl (drm_mm_remove_node rb) mm ns"

section \<open>Taking off and putting back\<close>

definition take_off :: "nat \<Rightarrow> drm_mm \<Rightarrow> drm_mm" where
  "take_off n mm = mm\<lparr>mm_node := (mm_node mm)(n := (mm_node mm n)\<lparr>scanned_bit := True\<rparr>), scan_active := scan_active mm + 1,
     scan_links := (scan_links mm)(n := (list_prev_entry mm n, list_next_entry mm n)), node_list := filter (\<lambda>m. m \<noteq> n) (node_list mm)\<rparr>"

definition in_the_way :: "drm_mm_scan \<Rightarrow> drm_mm_node \<Rightarrow> bool" where
  "in_the_way scan nd \<longleftrightarrow> hit_start scan < mn_start nd + mn_size nd \<and> mn_start nd < hit_end scan"

lemma take_off_simps [simp]:
  "mm_node (take_off n mm) = (mm_node mm)(n := (mm_node mm n)\<lparr>scanned_bit := True\<rparr>)"
  "scan_active (take_off n mm) = scan_active mm + 1"
  "scan_links (take_off n mm) = (scan_links mm)(n := (list_prev_entry mm n, list_next_entry mm n))"
  "node_list (take_off n mm) = filter (\<lambda>m. m \<noteq> n) (node_list mm)"
  "hole_stack (take_off n mm) = hole_stack mm" "holes_size (take_off n mm) = holes_size mm"
  "holes_first (take_off n mm) = holes_first mm" "holes_addr (take_off n mm) = holes_addr mm"
  by (simp_all add: take_off_def)

lemma add_block_takes_off: "fst (drm_mm_scan_add_block col scan mm n) = take_off n mm"
proof -
  have k: "fst (case x of None \<Rightarrow> (a, scan, False) | Some s \<Rightarrow> (a, g s, True)) = a" for x :: "u64 option" and a :: drm_mm and g
    by (cases x) simp_all
  show ?thesis unfolding drm_mm_scan_add_block_def Let_def k
    by (simp add: take_off_def update_node_def list_prev_entry_def list_next_entry_def)
qed

lemma scan_blocks_takes_off:
  "scan_blocks col scan mm ns ro = (mm1, scan1, ro1, f) \<Longrightarrow> \<exists>us. (\<exists>vs. ns = us @ vs) \<and> ro1 = rev us @ ro \<and> mm1 = foldr take_off (rev us) mm"
proof (induction ns arbitrary: scan mm ro)
  case Nil
  then show ?case by simp
next
  case (Cons n ns)
  obtain scan' f' where a: "drm_mm_scan_add_block col scan mm n = (take_off n mm, scan', f')"
    using add_block_takes_off [of col scan mm n] by (metis prod.collapse)
  show ?case
  proof (cases f')
    case True
    then show ?thesis using Cons.prems a by (intro exI [of _ "[n]"]) auto
  next
    case False
    then have "scan_blocks col scan' (take_off n mm) ns (n # ro) = (mm1, scan1, ro1, f)" using Cons.prems a by simp
    from Cons.IH [OF this] obtain us vs where "ns = us @ vs" "ro1 = rev us @ n # ro" "mm1 = foldr take_off (rev us) (take_off n mm)" by blast
    then show ?thesis by (intro exI [of _ "n # us"]) simp
  qed
qed

lemma put_back:
  assumes d: "distinct (0 # node_list mm)" and n: "n \<in> set (node_list mm)" and b: "\<not> scanned_bit (mm_node mm n)"
    and l: "l n = (list_prev_entry mm n, list_next_entry mm n)"
  shows "drm_mm_scan_remove_block sc ((take_off n mm)\<lparr>scan_links := l\<rparr>) n = Some (mm\<lparr>scan_links := l\<rparr>, in_the_way sc (mm_node mm n))"
proof -
  obtain as ys where s0: "node_list mm = as @ n # ys" using split_list [OF n] by blast
  obtain xs p where xp: "0 # as = xs @ [p]" by (metis list.distinct(1) rev_exhaust)
  then have s: "0 # node_list mm = xs @ p # n # ys" using s0 by (metis append.assoc append_Cons append_Nil)
  have "n \<noteq> 0" using d n by (metis distinct.simps(2))
  then have p: "list_prev_entry mm n = p" using prev_of_at [of xs p n ys] d s by (simp add: list_prev_entry_def)
  have f: "filter (\<lambda>m. m \<noteq> n) (node_list mm) = as @ ys"
  proof -
    have "n \<notin> set as" "n \<notin> set ys" using d s0 by auto
    then have "filter (\<lambda>m. m \<noteq> n) as = as" "filter (\<lambda>m. m \<noteq> n) ys = ys" by (intro filter_True; blast)+
    then show ?thesis using s0 by simp
  qed
  have z: "0 # (as @ ys) = xs @ p # ys" using xp by simp
  have "p \<notin> set xs" using d s by auto
  then have a: "tl (add_behind p n (0 # (as @ ys))) = node_list mm" unfolding z using add_behind_at [of p xs n ys] s by (metis list.sel(3))
  have "p \<in> set (0 # (as @ ys))" unfolding z by simp
  moreover have "(mm_node mm)(n := mm_node mm n\<lparr>scanned_bit := False\<rparr>) = mm_node mm" using b by (simp add: fun_eq_iff)
  ultimately show ?thesis
    using a f p l by (simp add: drm_mm_scan_remove_block_def update_node_def list_add_def in_the_way_def Let_def)
qed

lemma taken_off:
  shows "node_list (foldr take_off r mm) = filter (\<lambda>m. m \<notin> set r) (node_list mm)"
    "m \<notin> set r \<Longrightarrow> mm_node (foldr take_off r mm) m = mm_node mm m"
    "m \<notin> set r \<Longrightarrow> scan_links (foldr take_off r mm) m = scan_links mm m"
    "drm_mm_hole_node_start (mm_node (foldr take_off r mm) m) = drm_mm_hole_node_start (mm_node mm m)"
    "st_of (mm_node (foldr take_off r mm)) m = st_of (mm_node mm) m" "sz_of (mm_node (foldr take_off r mm)) m = sz_of (mm_node mm) m"
  by (induction r) (auto simp: drm_mm_hole_node_start_def intro: filter_cong)

lemma blocks_restored:
  assumes "distinct (0 # node_list mm)" "set r \<subseteq> set (node_list mm)" "distinct r" "\<forall>m\<in>set r. \<not> scanned_bit (mm_node mm m)"
    and "\<forall>m\<in>set r. l m = scan_links (foldr take_off r mm) m"
  shows "restore_blocks sc ((foldr take_off r mm)\<lparr>scan_links := l\<rparr>) r =
    Some (mm\<lparr>scan_links := l\<rparr>, filter (\<lambda>m. in_the_way sc (mm_node mm m)) r)"
  using assms
proof (induction r)
  case Nil
  then show ?case by simp
next
  case (Cons n r)
  let ?mm = "foldr take_off r mm"
  have n: "n \<notin> set r" using Cons.prems(3) by simp
  have "drm_mm_scan_remove_block sc ((take_off n ?mm)\<lparr>scan_links := l\<rparr>) n = Some (?mm\<lparr>scan_links := l\<rparr>, in_the_way sc (mm_node ?mm n))"
    by (rule put_back) (use Cons.prems n in \<open>simp_all add: taken_off\<close>)
  moreover have "\<forall>m\<in>set r. l m = scan_links ?mm m" using Cons.prems(5) n by auto
  ultimately show ?case using Cons n by (simp add: taken_off)
qed

section \<open>The gap that opens\<close>

text \<open>Along the list, each node starts behind the one before; so it stays when nodes are taken off.\<close>

definition node_order :: "(nat \<Rightarrow> drm_mm_node) \<Rightarrow> nat list \<Rightarrow> bool" where
  "node_order nd = sorted_wrt (\<lambda>a b. hs_of nd a \<le> st_of nd b)"

lemma laid_in_order: "laid nd n xs e \<Longrightarrow> node_order nd (n # xs)"
proof (induction xs arbitrary: n)
  case Nil
  then show ?case by (simp add: node_order_def)
next
  case (Cons m xs)
  have "hs_of nd n \<le> st_of nd k" if "k \<in> set (m # xs)" for k
    using laid_bounds [OF Cons.prems] that by fastforce
  moreover have "node_order nd (m # xs)" using Cons by simp
  ultimately show ?case by (simp add: node_order_def)
qed

lemma gap_free:
  assumes l: "laid nd 0 L (st_of nd 0)" and f: "0 # filter P L = xs @ p # ys"
    and m: "m \<in> set L" "P m" and q: "q = (case ys of [] \<Rightarrow> 0 | y # _ \<Rightarrow> y)"
  shows "st_of nd m + sz_of nd m \<le> hs_of nd p \<or> st_of nd q \<le> st_of nd m"
proof -
  have w: "node_order nd (xs @ p # ys)"
    using sorted_wrt_filter [of "\<lambda>a b. hs_of nd a \<le> st_of nd b" L P] laid_in_order [OF l] unfolding f [symmetric] by (simp add: node_order_def)
  have pl: "placed_node nd k" if "k \<in> set L" for k using laid_bounds [OF l] that by blast
  have hs: "hs_of nd k = st_of nd k + sz_of nd k" if "k \<in> set L" for k using pl [OF that] by (simp add: placed_node_def)
  have tlL: "set (tl (xs @ p # ys)) \<subseteq> set L" unfolding f [symmetric] by auto
  have "m \<in> set (0 # filter P L)" using m by simp
  then consider "m \<in> set xs" | "m = p" | "m \<in> set ys" unfolding f by auto
  then show ?thesis
  proof cases
    case 1
    then have "p \<in> set L" using tlL by (cases xs) auto
    moreover have "hs_of nd m \<le> st_of nd p" using w 1 by (simp add: node_order_def sorted_wrt_append)
    ultimately show ?thesis using hs [OF m(1)] hs [of p] by simp
  next
    case 2
    then show ?thesis using hs [OF m(1)] by simp
  next
    case 3
    then obtain y zs where y: "ys = y # zs" by (cases ys) auto
    have yL: "y \<in> set L" using tlL y by (cases xs) auto
    have "st_of nd y \<le> st_of nd m"
    proof (cases "m = y")
      case False
      then have "hs_of nd y \<le> st_of nd m" using w 3 y by (simp add: node_order_def sorted_wrt_append)
      then show ?thesis using hs [OF yL] by simp
    qed simp
    then show ?thesis using q y by simp
  qed
qed

text \<open>What a hit is good for: the bytes are in both ranges, aligned, and used by nobody but nodes of the roster.\<close>

definition hit_bytes :: "drm_mm_scan \<Rightarrow> nat set" where
  "hit_bytes scan = {unat (hit_start scan)..<unat (hit_end scan)}"

definition hit_ok :: "drm_mm \<Rightarrow> drm_mm_scan \<Rightarrow> nat list \<Rightarrow> bool" where
  "hit_ok mm scan r \<longleftrightarrow> unat (hit_end scan) = unat (hit_start scan) + unat (scan_size scan) \<and>
     hit_bytes scan \<subseteq> range_bytes mm \<inter> {unat (scan_range_start scan)..<unat (scan_range_end scan)} \<and>
     (scan_alignment scan = 0 \<or> unat (scan_alignment scan) dvd unat (hit_start scan)) \<and>
     (\<forall>m\<in>set (node_list mm). m \<notin> set r \<longrightarrow> hit_bytes scan \<inter> busy_bytes mm m = {})"

definition scan_ready :: "drm_mm_scan \<Rightarrow> bool" where
  "scan_ready scan \<longleftrightarrow> 0 < unat (scan_size scan) \<and>
     scan_remainder_mask scan = (if is_power_of_2 (scan_alignment scan) then scan_alignment scan - 1 else 0)"

lemma add_block_result:
  assumes "drm_mm_scan_add_block col scan mm n = (mm', scan', f)"
  shows "mm' = take_off n mm" and "\<not> f \<Longrightarrow> scan' = scan"
    and "f \<Longrightarrow> \<exists>mmc p s. p = list_prev_entry mm n \<and>
      place_in_hole (scan_mode scan) (scan_size scan) (scan_alignment scan) (scan_remainder_mask scan)
        (adjust col mmc p (scan_color scan) (drm_mm_hole_node_start (mm_node mm' p), drm_mm_hole_node_end mm' p))
        (scan_range_start scan) (scan_range_end scan) = Some s \<and>
      scan' = scan\<lparr>hit_start := s, hit_end := s + scan_size scan\<rparr>"
proof -
  show t: "mm' = take_off n mm" using add_block_takes_off [of col scan mm n] assms by simp
  define mma where "mma = (update_node n (\<lambda>p. p\<lparr>scanned_bit := True\<rparr>) mm)\<lparr>scan_active := scan_active mm + 1\<rparr>"
  define p where "p = list_prev_entry mma n"
  define mmb where "mmb = mma\<lparr>scan_links := (scan_links mma)(n := (p, list_next_entry mma n)), node_list := filter (\<lambda>m. m \<noteq> n) (node_list mma)\<rparr>"
  have pe: "p = list_prev_entry mm n" by (simp add: p_def mma_def update_node_def list_prev_entry_def)
  have be: "mmb = take_off n mm"
    by (simp add: mmb_def p_def mma_def take_off_def update_node_def list_prev_entry_def list_next_entry_def)
  note c = assms [unfolded drm_mm_scan_add_block_def Let_def, folded mma_def, folded p_def, folded mmb_def]
  let ?pl = "place_in_hole (scan_mode scan) (scan_size scan) (scan_alignment scan) (scan_remainder_mask scan)
        (adjust col mmb p (scan_color scan) (drm_mm_hole_node_start (mm_node mmb p), drm_mm_hole_node_end mmb p))
        (scan_range_start scan) (scan_range_end scan)"
  show "\<not> f \<Longrightarrow> scan' = scan" using c by (cases ?pl) auto
  assume "f"
  then obtain s where s: "?pl = Some s" "scan' = scan\<lparr>hit_start := s, hit_end := s + scan_size scan\<rparr>" using c by (cases ?pl) auto
  show "\<exists>mmc p s. p = list_prev_entry mm n \<and>
      place_in_hole (scan_mode scan) (scan_size scan) (scan_alignment scan) (scan_remainder_mask scan)
        (adjust col mmc p (scan_color scan) (drm_mm_hole_node_start (mm_node mm' p), drm_mm_hole_node_end mm' p))
        (scan_range_start scan) (scan_range_end scan) = Some s \<and>
      scan' = scan\<lparr>hit_start := s, hit_end := s + scan_size scan\<rparr>"
    using pe s unfolding t be by blast
qed

lemma hit_found:
  assumes wf: "mm_wf mm0" and sc: "scan_ready scan" and col: "color_shrinks col" and n: "n \<in> set (node_list mm0)" "n \<notin> set r"
    and a: "drm_mm_scan_add_block col scan (foldr take_off r mm0) n = (mm', scan', True)"
  shows "hit_ok mm0 scan' (n # r)"
proof -
  let ?mm = "foldr take_off r mm0" and ?nd = "mm_node mm0" and ?P = "\<lambda>m. m \<notin> set (n # r)"
  have l: "laid ?nd 0 (node_list mm0) (st_of ?nd 0)" and d: "distinct (0 # node_list mm0)" using wf by (simp_all add: mm_wf_def row_Cons)
  obtain mmc p s where p: "p = list_prev_entry ?mm n" and scan': "scan' = scan\<lparr>hit_start := s, hit_end := s + scan_size scan\<rparr>" and
    pl: "place_in_hole (scan_mode scan) (scan_size scan) (scan_alignment scan) (scan_remainder_mask scan)
        (adjust col mmc p (scan_color scan) (drm_mm_hole_node_start (mm_node mm' p), drm_mm_hole_node_end mm' p))
        (scan_range_start scan) (scan_range_end scan) = Some s"
    using add_block_result(3) [OF a] by blast
  have m': "mm' = foldr take_off (n # r) mm0" using add_block_result(1) [OF a] by simp
  have nl: "node_list ?mm = filter (\<lambda>m. m \<notin> set r) (node_list mm0)" "node_list mm' = filter ?P (node_list mm0)"
    unfolding m' by (simp_all only: taken_off)
  have d': "distinct (0 # node_list ?mm)" using d nl(1) by simp
  have "n \<in> set (node_list ?mm)" using n nl(1) by simp
  then obtain as ys where s0: "node_list ?mm = as @ n # ys" using split_list by fastforce
  obtain xs p' where xp: "0 # as = xs @ [p']" by (metis list.distinct(1) rev_exhaust)
  then have s1: "0 # node_list ?mm = xs @ p' # n # ys" using s0 by (metis append.assoc append_Cons append_Nil)
  have "n \<noteq> 0" using d n by (metis distinct.simps(2))
  then have pp: "p' = p" using prev_of_at [of xs p' n ys] d' s1 p by (simp add: list_prev_entry_def)
  have "n \<notin> set as" "n \<notin> set ys" using d' s0 by auto
  then have "filter (\<lambda>m. m \<noteq> n) as = as" "filter (\<lambda>m. m \<noteq> n) ys = ys" by (intro filter_True; blast)+
  then have "node_list mm' = as @ ys" using s0 m' by simp
  then have f: "0 # filter ?P (node_list mm0) = xs @ p # ys" using nl(2) xp pp by simp
  define q where "q = (case ys of [] \<Rightarrow> 0 | y # _ \<Rightarrow> y)"
  have "distinct (xs @ p # ys)" using d unfolding f [symmetric] by simp
  then have q: "next_of (0 # node_list mm') p = q" using next_of_at [of xs p ys] f nl(2) q_def by simp
  have gap: "unat (drm_mm_hole_node_start (mm_node mm' p)) = hs_of ?nd p" "unat (drm_mm_hole_node_end mm' p) = st_of ?nd q"
    unfolding drm_mm_hole_node_end_def list_next_entry_def q unfolding m' by (simp_all only: taken_off)
  obtain cs ce where cc: "adjust col mmc p (scan_color scan) (drm_mm_hole_node_start (mm_node mm' p), drm_mm_hole_node_end mm' p) = (cs, ce)"
    by (cases "adjust col mmc p (scan_color scan) (drm_mm_hole_node_start (mm_node mm' p), drm_mm_hole_node_end mm' p)") auto
  have ccb: "drm_mm_hole_node_start (mm_node mm' p) \<le> cs" "ce \<le> drm_mm_hole_node_end mm' p"
    using col cc unfolding color_shrinks_def by (metis fst_conv snd_conv)+
  have "scan_remainder_mask scan = (if is_power_of_2 (scan_alignment scan) then scan_alignment scan - 1 else 0)" "0 < unat (scan_size scan)"
    using sc by (simp_all add: scan_ready_def)
  note pf = place_fits [OF pl [unfolded cc this(1)] this(2)]
  have b: "hs_of ?nd p \<le> unat s" "unat (scan_range_start scan) \<le> unat s" "unat s + unat (scan_size scan) \<le> st_of ?nd q"
    "unat s + unat (scan_size scan) \<le> unat (scan_range_end scan)"
    using pf(1,2) ccb gap by (auto simp: word_le_nat_alt min_def max_def split: if_splits)
  have e: "unat (s + scan_size scan) = unat s + unat (scan_size scan)"
    using b(4) unsigned_less [of "scan_range_end scan", where 'a = nat] by (simp add: unat_word_ariths)
  have hb: "hit_bytes scan' = {unat s..<unat s + unat (scan_size scan)}" using scan' e by (simp add: hit_bytes_def)
  note lb = laid_bounds [OF l]
  have tl: "set (tl (xs @ p # ys)) \<subseteq> set (node_list mm0)" unfolding f [symmetric] by auto
  have "p = 0 \<or> p \<in> set (node_list mm0)" using tl f by (cases xs) auto
  then have "hs_of ?nd 0 \<le> hs_of ?nd p" using lb by (fastforce simp: placed_node_def)
  moreover have "q = 0 \<or> q \<in> set (node_list mm0)" using tl q_def by (cases xs; cases ys) auto
  then have "st_of ?nd q \<le> st_of ?nd 0" using lb by (fastforce simp: placed_node_def)
  ultimately have "hit_bytes scan' \<subseteq> range_bytes mm0" using b hb by (auto simp: range_bytes_def)
  moreover have "hit_bytes scan' \<inter> busy_bytes mm0 m = {}" if "m \<in> set (node_list mm0)" "m \<notin> set (n # r)" for m
    using gap_free [OF l f that q_def] b hb by (auto simp: busy_bytes_def)
  ultimately show ?thesis unfolding hit_ok_def using scan' e b hb pf(3) by auto
qed

section \<open>Scan, restore, evict, insert\<close>

lemma blocks_scanned:
  assumes "scan_blocks col scan (foldr take_off r mm) ns r = (mm1, scan1, r1, f)"
    and "mm_wf mm" "scan_ready scan" "color_shrinks col" "distinct (r @ ns)" "set ns \<subseteq> set (node_list mm)"
  shows "\<exists>us vs. ns = us @ vs \<and> r1 = rev us @ r \<and> mm1 = foldr take_off r1 mm \<and> scan_size scan1 = scan_size scan \<and>
      scan_alignment scan1 = scan_alignment scan \<and> scan_range_start scan1 = scan_range_start scan \<and>
      scan_range_end scan1 = scan_range_end scan \<and> (f \<longrightarrow> hit_ok mm scan1 r1) \<and> (\<not> f \<longrightarrow> vs = [] \<and> scan1 = scan)"
  using assms
proof (induction ns arbitrary: r)
  case Nil
  then show ?case by auto
next
  case (Cons n ns)
  obtain mm' scan' f' where a: "drm_mm_scan_add_block col scan (foldr take_off r mm) n = (mm', scan', f')" by (metis prod.collapse)
  have m': "mm' = foldr take_off (n # r) mm" using add_block_result(1) [OF a] by simp
  show ?case
  proof (cases f')
    case True
    have n: "n \<in> set (node_list mm)" "n \<notin> set r" using Cons.prems by auto
    have "mm1 = mm'" "scan1 = scan'" "r1 = n # r" "f" using Cons.prems(1) a True by simp_all
    moreover have "hit_ok mm scan' (n # r)" using hit_found [OF Cons.prems(2-4) n, of mm' scan'] a True by simp
    moreover obtain s t where "scan' = scan\<lparr>hit_start := s, hit_end := t\<rparr>" using add_block_result(3) [OF a True] by blast
    ultimately show ?thesis using m' by (intro exI [of _ "[n]"] exI [of _ ns]) simp
  next
    case False
    then have s: "scan' = scan" using add_block_result(2) [OF a] by blast
    have "scan_blocks col scan (foldr take_off (n # r) mm) ns (n # r) = (mm1, scan1, r1, f)"
      using Cons.prems(1) a False unfolding m' s by simp
    then obtain us vs where u: "ns = us @ vs" "r1 = rev us @ n # r" "mm1 = foldr take_off r1 mm" "scan_size scan1 = scan_size scan"
      "scan_alignment scan1 = scan_alignment scan" "scan_range_start scan1 = scan_range_start scan"
      "scan_range_end scan1 = scan_range_end scan" "f \<longrightarrow> hit_ok mm scan1 r1" "\<not> f \<longrightarrow> vs = [] \<and> scan1 = scan"
      using Cons.IH [of "n # r"] Cons.prems by auto
    then show ?thesis by (intro exI [of _ "n # us"] exI [of _ vs]) simp
  qed
qed

lemma scan_restores:
  assumes d: "distinct (0 # node_list mm)" and n: "distinct ns" "set ns \<subseteq> set (node_list mm)" "\<forall>m\<in>set ns. \<not> scanned_bit (mm_node mm m)"
    and s: "scan_blocks col scan mm ns [] = (mm1, scan1, r, f)"
  shows "restore_blocks scan1 mm1 r = Some (mm\<lparr>scan_links := scan_links mm1\<rparr>, filter (\<lambda>m. in_the_way scan1 (mm_node mm m)) r)"
proof -
  obtain us vs where u: "ns = us @ vs" "r = rev us @ []" "mm1 = foldr take_off (rev us) mm" using scan_blocks_takes_off [OF s] by blast
  have "restore_blocks scan1 ((foldr take_off (rev us) mm)\<lparr>scan_links := scan_links mm1\<rparr>) (rev us) =
      Some (mm\<lparr>scan_links := scan_links mm1\<rparr>, filter (\<lambda>m. in_the_way scan1 (mm_node mm m)) (rev us))"
    by (rule blocks_restored) (use d n u in auto)
  moreover have "(foldr take_off (rev us) mm)\<lparr>scan_links := scan_links mm1\<rparr> = mm1" unfolding u(3) by simp
  ultimately show ?thesis using u(2) by simp
qed

lemma wf_links: "mm_wf mm \<Longrightarrow> mm_wf (mm\<lparr>scan_links := l\<rparr>)"
  by (simp add: mm_wf_def holes_ok_def)

lemma bytes_links [simp]: "free_bytes (mm\<lparr>scan_links := l\<rparr>) = free_bytes mm" "busy_bytes (mm\<lparr>scan_links := l\<rparr>) k = busy_bytes mm k"
  "range_bytes (mm\<lparr>scan_links := l\<rparr>) = range_bytes mm"
  by (simp_all add: free_bytes_def hole_bytes_def busy_bytes_def range_bytes_def)

lemma blocks_removed:
  assumes "rb_laws rb" "mm_wf mm" "distinct ns" "set ns \<subseteq> set (node_list mm)"
  shows "mm_wf (remove_blocks rb mm ns) \<and> set (node_list (remove_blocks rb mm ns)) = set (node_list mm) - set ns \<and>
    (\<forall>k. busy_bytes (remove_blocks rb mm ns) k = busy_bytes mm k) \<and>
    free_bytes (remove_blocks rb mm ns) = free_bytes mm \<union> (\<Union>m\<in>set ns. busy_bytes mm m)"
  using assms
proof (induction ns arbitrary: mm)
  case Nil
  then show ?case by (simp add: remove_blocks_def)
next
  case (Cons n ns)
  have n: "n \<in> set (node_list mm)" using Cons.prems by simp
  note r = remove_result [OF Cons.prems(1,2) n refl]
  have c: "remove_blocks rb mm (n # ns) = remove_blocks rb (drm_mm_remove_node rb mm n) ns" by (simp add: remove_blocks_def)
  have "distinct ns" "set ns \<subseteq> set (node_list (drm_mm_remove_node rb mm n))" using Cons.prems r(2) by auto
  note i = Cons.IH [OF Cons.prems(1) r(1) this]
  show ?case unfolding c using i r(2-4) by auto
qed

text \<open>Where a hit is, nobody but the nodes in the way is.\<close>

lemma hit_covered:
  assumes wf: "mm_wf mm" and h: "hit_ok mm scan r"
  shows "hit_bytes scan \<subseteq> free_bytes mm \<union> (\<Union>m\<in>{m \<in> set (node_list mm). m \<in> set r \<and> in_the_way scan (mm_node mm m)}. busy_bytes mm m)"
proof
  fix b
  assume b: "b \<in> hit_bytes scan"
  show "b \<in> free_bytes mm \<union> (\<Union>m\<in>{m \<in> set (node_list mm). m \<in> set r \<and> in_the_way scan (mm_node mm m)}. busy_bytes mm m)"
  proof (cases "b \<in> free_bytes mm")
    case False
    have "b \<in> range_bytes mm" using h b by (auto simp: hit_ok_def)
    then obtain m where m: "m \<in> set (node_list mm)" "b \<in> busy_bytes mm m" using False wf_bytes(1) [OF wf] by auto
    then have r: "m \<in> set r" using h b by (auto simp: hit_ok_def)
    have "placed_node (mm_node mm) m" using laid_bounds [of "mm_node mm" 0 "node_list mm" "st_of (mm_node mm) 0"] wf m(1) by (simp add: mm_wf_def row_Cons)
    then have e: "unat (mn_start (mm_node mm m) + mn_size (mm_node mm m)) = st_of (mm_node mm) m + sz_of (mm_node mm) m"
      by (simp add: placed_node_def drm_mm_hole_node_start_def)
    have "in_the_way scan (mm_node mm m)" using b m(2) e by (simp add: in_the_way_def hit_bytes_def busy_bytes_def word_less_nat_alt)
    then show ?thesis using m r by blast
  qed simp
qed

end
