(* ===== verification/Mm_Stale.thy ===== *)
theory Mm_Stale
  imports Mm_Scan
begin

text \<open>
  What the field \<open>subtree_max_hole\<close> is worth when the trees are turned without it: three holes of which the lowest is the
  largest, and which a search from below does not find.
\<close>

section \<open>How the field is written\<close>

lemma link_addr_max:
  "hole_size (snd (link_addr n start mx t nd) m) = hole_size (nd m)"
  "mn_start (snd (link_addr n start mx t nd) m) = mn_start (nd m)"
  "mn_size (snd (link_addr n start mx t nd) m) = mn_size (nd m)"
  "mx \<le> subtree_max_hole (nd m) \<Longrightarrow> subtree_max_hole (snd (link_addr n start mx t nd) m) = subtree_max_hole (nd m)"
  by (induction t arbitrary: nd) (auto simp: Let_def case_prod_beta)

lemma insert_hole_size_other:
  "mm_node (insert_hole_size rb n mm) = mm_node mm" "holes_addr (insert_hole_size rb n mm) = holes_addr mm"
  by (simp_all add: insert_hole_size_def Let_def case_prod_beta)

lemma insert_hole_addr_links:
  "\<exists>s t. mm_node (insert_hole_addr rb n mm) = snd (link_addr n s (subtree_max_hole (mm_node mm n)) t (mm_node mm)) \<and>
    holes_addr (insert_hole_addr rb n mm) = rb_insert_color rb n (fst (link_addr n s (subtree_max_hole (mm_node mm n)) t (mm_node mm)))"
  unfolding insert_hole_addr_def Let_def case_prod_beta by (intro exI conjI) simp_all

lemma add_hole_links:
  "\<exists>g s t. let nd = (mm_node mm)(n := (mm_node mm n)\<lparr>hole_size := g, subtree_max_hole := g\<rparr>) in
    mm_node (add_hole rb n mm) = snd (link_addr n s g t nd) \<and> holes_addr (add_hole rb n mm) = rb_insert_color rb n (fst (link_addr n s g t nd))"
proof -
  define g where "g = drm_mm_hole_node_end mm n - drm_mm_hole_node_start (mm_node mm n)"
  define nd where "nd = (mm_node mm)(n := (mm_node mm n)\<lparr>hole_size := g, subtree_max_hole := g\<rparr>)"
  define mma where "mma = insert_hole_size rb n (update_node n (\<lambda>p. p\<lparr>hole_size := g, subtree_max_hole := g\<rparr>) mm)"
  have m: "mm_node mma = nd" by (simp add: mma_def insert_hole_size_other update_node_def nd_def)
  have "subtree_max_hole (nd n) = g" by (simp add: nd_def)
  moreover have "mm_node (add_hole rb n mm) = mm_node (insert_hole_addr rb n mma)" "holes_addr (add_hole rb n mm) = holes_addr (insert_hole_addr rb n mma)"
    by (simp_all add: add_hole_def Let_def mma_def g_def)
  ultimately show ?thesis using insert_hole_addr_links [of rb n mma] unfolding m Let_def nd_def by metis
qed

lemma add_hole_max:
  "subtree_max_hole (mm_node (add_hole rb n mm) n) = hole_size (mm_node (add_hole rb n mm) n)"
  "m \<noteq> n \<Longrightarrow> hole_size (mm_node (add_hole rb n mm) m) = hole_size (mm_node mm m)"
  "m \<noteq> n \<Longrightarrow> hole_size (mm_node (add_hole rb n mm) n) \<le> subtree_max_hole (mm_node mm m) \<Longrightarrow>
    subtree_max_hole (mm_node (add_hole rb n mm) m) = subtree_max_hole (mm_node mm m)"
  "\<exists>t. holes_addr (add_hole rb n mm) = rb_insert_color rb n t"
  "mn_start (mm_node (add_hole rb n mm) m) = mn_start (mm_node mm m)"
  "mn_size (mm_node (add_hole rb n mm) m) = mn_size (mm_node mm m)"
  using add_hole_links [of mm n rb] by (auto simp: Let_def link_addr_max)

section \<open>Three holes\<close>

text \<open>Nodes 1 and 2 are to be at 100, of size 10, and at 200, of size 790.\<close>

definition two_nodes :: "nat \<Rightarrow> drm_mm_node" where
  "two_nodes = (\<lambda>_. zero_node)(1 := zero_node\<lparr>mn_start := 100, mn_size := 10\<rparr>, 2 := zero_node\<lparr>mn_start := 200, mn_size := 790\<rparr>)"

lemma range_whole: "mm_wf mm \<Longrightarrow> range_bytes mm = free_bytes mm \<union> (\<Union>m\<in>set (node_list mm). busy_bytes mm m)"
  using wf_bytes(1,2) [of mm] by blast

lemma busy_places:
  assumes "busy_bytes mm n = {a..<b}" "a < b"
  shows "st_of (mm_node mm) n = a" "sz_of (mm_node mm) n = b - a"
  using assms atLeastLessThan_eq_iff [of a b "st_of (mm_node mm) n" "st_of (mm_node mm) n + sz_of (mm_node mm) n"]
  by (cases "0 < sz_of (mm_node mm) n"; fastforce simp: busy_bytes_def)+

lemma one_list: "distinct xs \<Longrightarrow> set xs = {x} \<Longrightarrow> xs = [x]"
  by (cases xs) (auto, metis insert_absorb insert_not_empty list.set_intros(1) neq_Nil_conv singletonD subset_singletonD subset_insertI)

lemma two_list: "distinct xs \<Longrightarrow> set xs = {1, 2 :: nat} \<Longrightarrow> xs = [1, 2] \<or> xs = [2, 1]"
proof -
  assume a: "distinct xs" "set xs = {1, 2}"
  then have "length xs = 2" by (metis distinct_card card_2_iff numeral_eq_one_iff semiring_norm(83))
  then obtain x y where "xs = [x, y]" by (metis (no_types, opaque_lifting) One_nat_def Suc_1 length_0_conv length_Suc_conv)
  then show ?thesis using a by auto
qed

lemma three_list: "distinct xs \<Longrightarrow> set xs = {0, 1, 2 :: nat} \<Longrightarrow> \<exists>x y z. xs = [x, y, z]"
proof -
  assume a: "distinct xs" "set xs = {0, 1, 2}"
  then have "length xs = card {0, 1, 2 :: nat}" by (metis distinct_card)
  then have "length xs = Suc (Suc (Suc 0))" by simp
  then show ?thesis by (metis length_0_conv length_Suc_conv)
qed

lemma first_reserved:
  assumes rb: "rb_laws rb" and r: "drm_mm_reserve_node rb None (drm_mm_init rb two_nodes 0 1000) 1 = (mm1, r1)"
  shows "r1 = Inr ()" "mm_wf mm1" "node_list mm1 = [1]" "free_bytes mm1 = {0..<100} \<union> {110..<1000}" "busy_bytes mm1 2 = {200..<990}"
    "busy_bytes mm1 1 = {100..<110}" "mn_start (mm_node mm1 2) = 200" "mn_size (mm_node mm1 2) = 790"
proof -
  let ?m = "drm_mm_init rb two_nodes 0 1000"
  have i: "mm_wf ?m" "node_list ?m = []" "hs_of (mm_node ?m) 0 = 0" "st_of (mm_node ?m) 0 = 1000"
    using mm_init_keeps [OF rb, of 1000 0 two_nodes] by simp_all
  have f: "free_bytes ?m = {0..<1000}" using range_whole [OF i(1)] i by (simp add: range_bytes_def)
  have n: "mn_start (mm_node ?m 1) = 100" "mn_size (mm_node ?m 1) = 10" "mn_start (mm_node ?m 2) = 200" "mn_size (mm_node ?m 2) = 790"
    by (simp_all add: drm_mm_init_def add_hole_max two_nodes_def)
  then have b: "busy_bytes ?m 1 = {100..<110}" "busy_bytes ?m 2 = {200..<990}" by (simp_all add: busy_bytes_def)
  have "1 \<notin> set (0 # node_list ?m)" using i(2) by simp
  note q = mm_reserve_result [OF rb i(1) this r]
  show r1: "r1 = Inr ()" using q n b f by auto
  note q = q [unfolded r1, simplified]
  show w: "mm_wf mm1" using q by simp
  have "distinct (node_list mm1)" "set (node_list mm1) = {1}" using w q i(2) by (simp_all add: mm_wf_def)
  then show "node_list mm1 = [1]" by (rule one_list)
  show "free_bytes mm1 = {0..<100} \<union> {110..<1000}" using q b f by auto
  show "busy_bytes mm1 2 = {200..<990}" "busy_bytes mm1 1 = {100..<110}" using q b by simp_all
  then have "st_of (mm_node mm1) 2 = 200" "sz_of (mm_node mm1) 2 = 790" using busy_places [of mm1 2 200 990] by simp_all
  then show "mn_start (mm_node mm1 2) = 200" "mn_size (mm_node mm1 2) = 790" by (simp_all add: word_unat_eq_iff)
qed

lemma second_reserved:
  assumes rb: "rb_laws rb" and w1: "mm_wf mm1" and l1: "node_list mm1 = [1]" and f1: "free_bytes mm1 = {0..<100} \<union> {110..<1000}"
    and b1: "busy_bytes mm1 2 = {200..<990}" "busy_bytes mm1 1 = {100..<110}" and r: "drm_mm_reserve_node rb None mm1 2 = (mm2, r2)"
  shows "r2 = Inr ()" "mm_wf mm2" "node_list mm2 = [1, 2]" "free_bytes mm2 = {0..<100} \<union> {110..<200} \<union> {990..<1000}"
    "hole_size (mm_node mm2 1) = 90" "hole_size (mm_node mm2 2) = 10" "holes_in (holes_addr mm2) = [0, 1, 2]"
proof -
  have "2 \<notin> set (0 # node_list mm1)" using l1 by simp
  note q = mm_reserve_result [OF rb w1 this r]
  have "0 < sz_of (mm_node mm1) 2" using busy_places [OF b1(1)] by simp
  then show r2: "r2 = Inr ()" using q b1 f1 by auto
  note q = q [unfolded r2, simplified]
  show w: "mm_wf mm2" using q by simp
  have b: "busy_bytes mm2 1 = {100..<110}" "busy_bytes mm2 2 = {200..<990}" using q b1 by simp_all
  show f: "free_bytes mm2 = {0..<100} \<union> {110..<200} \<union> {990..<1000}" using q b1 f1 by auto
  have st: "st_of (mm_node mm2) 1 = 100" "sz_of (mm_node mm2) 1 = 10" "st_of (mm_node mm2) 2 = 200" "sz_of (mm_node mm2) 2 = 790"
    using busy_places [OF b(1)] busy_places [OF b(2)] by simp_all
  have "set (node_list mm2) = {1, 2}" "distinct (node_list mm2)" using q l1 w by (auto simp: mm_wf_def)
  then consider "node_list mm2 = [1, 2]" | "node_list mm2 = [2, 1]" using two_list by blast
  moreover have l: "laid (mm_node mm2) 0 (node_list mm2) (st_of (mm_node mm2) 0)" using w by (simp add: mm_wf_def row_Cons)
  ultimately show nl: "node_list mm2 = [1, 2]" using st by cases (auto simp: placed_node_def)
  have "range_bytes mm2 = {0..<1000}" using range_whole [OF w] nl b f by auto
  then have hs: "hs_of (mm_node mm2) 0 = 0" "st_of (mm_node mm2) 0 = 1000"
    using atLeastLessThan_eq_iff [of 0 1000 "hs_of (mm_node mm2) 0" "st_of (mm_node mm2) 0"]
    by (cases "hs_of (mm_node mm2) 0 < st_of (mm_node mm2) 0"; fastforce simp: range_bytes_def)+
  then have hl: "hl_of (mm_node mm2) 0 = 100" "hl_of (mm_node mm2) 1 = 90" "hl_of (mm_node mm2) 2 = 10"
    "hs_of (mm_node mm2) 1 = 110" "hs_of (mm_node mm2) 2 = 990" using l nl st by (auto simp: placed_node_def)
  then show "hole_size (mm_node mm2 1) = 90" "hole_size (mm_node mm2 2) = 10" by (simp_all add: word_unat_eq_iff)
  have "with_hole (mm_node mm2) (0 # node_list mm2) = {0, 1, 2}" using nl hl by (auto simp: with_hole_def)
  then have h: "distinct (holes_in (holes_addr mm2))" "set (holes_in (holes_addr mm2)) = {0, 1, 2}" "rising (mm_node mm2) (holes_in (holes_addr mm2))"
    using w by (simp_all add: mm_wf_def holes_ok_def)
  then obtain x y z where xyz: "holes_in (holes_addr mm2) = [x, y, z]" using three_list by metis
  have "hs_of (mm_node mm2) x \<le> hs_of (mm_node mm2) y" "hs_of (mm_node mm2) y \<le> hs_of (mm_node mm2) z"
    using h(3) unfolding xyz by (simp_all add: word_le_nat_alt)
  moreover have "{x, y, z} = {0, 1, 2}" "x \<noteq> y" "y \<noteq> z" "x \<noteq> z" using h(1,2) unfolding xyz by simp_all
  then have "x \<in> {0, 1, 2}" "y \<in> {0, 1, 2}" "z \<in> {0, 1, 2}" "x \<noteq> y" "y \<noteq> z" "x \<noteq> z" by blast+
  ultimately show "holes_in (holes_addr mm2) = [0, 1, 2]" unfolding xyz using hs hl by auto
qed

text \<open>How the second reservation ends: with the hole behind node 1, and then the one behind node 2.\<close>

lemma second_occupies:
  assumes w1: "mm_wf mm1" and l1: "node_list mm1 = [1]" and f1: "free_bytes mm1 = {0..<100} \<union> {110..<1000}"
    and n: "mn_start (mm_node mm1 2) = 200" "mn_size (mm_node mm1 2) = 790"
    and b1: "busy_bytes mm1 1 = {100..<110}" and r: "drm_mm_reserve_node rb None mm1 2 = (mm2, Inr ())"
  shows "\<exists>X. mm2 = add_hole rb 2 (add_hole rb 1 X)"
proof -
  have st: "st_of (mm_node mm1) 1 = 100" "sz_of (mm_node mm1) 1 = 10" using busy_places [OF b1] by simp_all
  have l: "laid (mm_node mm1) 0 [1] (st_of (mm_node mm1) 0)" using w1 l1 by (simp add: mm_wf_def row_Cons)
  have "range_bytes mm1 = {0..<1000}" using range_whole [OF w1] l1 b1 f1 by auto
  then have hs: "hs_of (mm_node mm1) 0 = 0" "st_of (mm_node mm1) 0 = 1000"
    using atLeastLessThan_eq_iff [of 0 1000 "hs_of (mm_node mm1) 0" "st_of (mm_node mm1) 0"]
    by (cases "hs_of (mm_node mm1) 0 < st_of (mm_node mm1) 0"; fastforce simp: range_bytes_def)+
  then have hl: "hl_of (mm_node mm1) 0 = 100" "hl_of (mm_node mm1) 1 = 890" "hs_of (mm_node mm1) 1 = 110" using l st by (auto simp: placed_node_def)
  then have v: "drm_mm_hole_node_start (mm_node mm1 0) = 0" "hole_size (mm_node mm1 0) = 100"
    "drm_mm_hole_node_start (mm_node mm1 1) = 110" "hole_size (mm_node mm1 1) = 890" using hs by (simp_all add: word_unat_eq_iff)
  obtain h where h: "find_hole_addr mm1 200 0 = Some h" using r n by (cases "find_hole_addr mm1 200 0") (auto simp: drm_mm_reserve_node_def Let_def)
  have "set (holes_in (holes_addr mm1)) \<subseteq> {0, 1}" using w1 l1 by (auto simp: mm_wf_def holes_ok_def with_hole_def)
  then have "h = 0 \<or> h = 1" using find_below_in [of "mm_node mm1" 200 0 "holes_addr mm1" None h] h by (auto simp: find_hole_addr_def)
  moreover have "\<not> h = 0" using r n h v by (cases "h = 0") (simp_all add: drm_mm_reserve_node_def Let_def adjust_def)
  ultimately have "h = 1" by blast
  then have "mm2 = occupy rb 2 1 110 1000 mm1" using r n h v by (auto simp: drm_mm_reserve_node_def Let_def adjust_def split: if_splits)
  then show ?thesis using n unfolding occupy_def Let_def by auto
qed

section \<open>Where the search goes\<close>

lemma three_tree:
  assumes "holes_in t = [a, b, c]" "height t \<le> 2"
  shows "\<exists>l x r. t = \<langle>l, (b, x), r\<rangle>"
proof (cases t)
  case Leaf
  then show ?thesis using assms(1) by simp
next
  case (Node l y r)
  have hl: "length (holes_in u) \<le> 1" if "height u \<le> 1" for u :: rb_tree
    using that by (cases u) auto
  have "height l \<le> 1" "height r \<le> 1" using assms(2) Node by simp_all
  then have "length (holes_in l) \<le> 1" "length (holes_in r) \<le> 1" using hl by blast+
  moreover have "holes_in l @ fst y # holes_in r = [a, b, c]" using assms(1) Node by simp
  ultimately have "fst y = b" by (cases "holes_in l") (auto simp: Cons_eq_append_conv)
  then show ?thesis using Node by (cases y) auto
qed

lemma low_search_misses:
  assumes "usable_hole_addr (mm_node mm) sz (holes_addr mm) = False"
  shows "drm_mm_insert_node_in_range rb col mm n sz al c rs re DRM_MM_INSERT_LOW = Some (mm, Inl ENOSPC)"
proof -
  have m: "DRM_MM_INSERT_LOW AND NOT DRM_MM_INSERT_ONCE = DRM_MM_INSERT_LOW" unfolding insert_modes by code_simp
  have "find_hole_addr mm rs sz = None" using assms by (cases "holes_addr mm") (simp_all add: find_hole_addr_def)
  then have "first_hole mm rs re sz DRM_MM_INSERT_LOW = Some None" by (simp add: first_hole_def)
  then show ?thesis unfolding drm_mm_insert_node_in_range_def Let_def m by (simp add: search_holes.simps)
qed

end
