(* ===== verification/Mm_Props.thy ===== *)
theory Mm_Props
  imports Mm_Stale
begin

text \<open>
  The properties of the range allocator: where a node is inserted, that a place is found when there is one,
  reserving, the layout over every history, eviction by the roster, and a free place that is not found because the
  trees of FreeBSD do not keep the largest hole below a node.
\<close>

section \<open>The calls\<close>

text \<open>
  C12: \<open>drm_mm_insert_node_in_range\<close>, in every mode, with every library of trees and every callback that makes
  holes smaller: the call returns. Either it is \<open>ENOSPC\<close> and nothing has changed, or the node has the size
  asked for, starts at a multiple of the alignment, lies inside the range and where bytes were free, the other nodes are where they
  were, and what is free is what was free without the bytes of the node.
\<close>

theorem mm_insert_correct:
  assumes "rb_laws rb" and "mm_wf mm" and "n \<notin> set (0 # node_list mm)" and "color_shrinks col"
  shows "\<exists>mm' r. drm_mm_insert_node_in_range rb col mm n sz al c rs re mode = Some (mm', r) \<and>
    (case r of
       Inl e \<Rightarrow> e = ENOSPC \<and> mm' = mm
     | Inr _ \<Rightarrow> mm_wf mm' \<and> set (node_list mm') = insert n (set (node_list mm)) \<and>
         (\<forall>m\<in>set (node_list mm). busy_bytes mm' m = busy_bytes mm m) \<and>
         busy_bytes mm' n \<subseteq> free_bytes mm \<inter> {unat rs..<unat re} \<and> card (busy_bytes mm' n) = unat sz \<and> 0 < unat sz \<and>
         (al \<le> 1 \<or> unat al dvd unat (mn_start (mm_node mm' n))) \<and> free_bytes mm' = free_bytes mm - busy_bytes mm' n)"
  by (rule insert_result [OF assms])

text \<open>
  C13: \<open>drm_mm_insert_node_in_range\<close> for the best hole or after an eviction: it succeeds exactly when somewhere in the
  range there are as many free bytes in a row as asked for, from a multiple of the alignment on.
\<close>

theorem mm_insert_complete:
  assumes "rb_laws rb" and "mm_wf mm" and "n \<notin> set (0 # node_list mm)" and "mode = DRM_MM_INSERT_BEST \<or> mode = DRM_MM_INSERT_EVICT"
  shows "(\<exists>mm'. drm_mm_insert_node_in_range rb None mm n sz al c rs re mode = Some (mm', Inr ())) \<longleftrightarrow>
    0 < unat sz \<and> (\<exists>t. {t..<t + unat sz} \<subseteq> free_bytes mm \<inter> {unat rs..<unat re} \<and> (al \<le> 1 \<or> unat al dvd t))"
  by (rule insert_finds [OF assms])

text \<open>
  C17: \<open>drm_mm_reserve_node\<close>, without a callback: it succeeds exactly when the bytes of the node are free, whatever the
  trees say of the largest holes; then the node is in the list, the others are where they were, and its
  bytes are no longer free. Otherwise it returns \<open>ENOSPC\<close> and nothing changes.
\<close>

theorem mm_reserve_correct:
  assumes "rb_laws rb" and "mm_wf mm" and "n \<notin> set (0 # node_list mm)" and "drm_mm_reserve_node rb None mm n = (mm', r)"
  shows "(r = Inr () \<longleftrightarrow> 0 < sz_of (mm_node mm) n \<and> busy_bytes mm n \<subseteq> free_bytes mm) \<and>
    (case r of
       Inl e \<Rightarrow> e = ENOSPC \<and> mm' = mm
     | Inr _ \<Rightarrow> mm_wf mm' \<and> set (node_list mm') = insert n (set (node_list mm)) \<and> (\<forall>k. busy_bytes mm' k = busy_bytes mm k) \<and>
         free_bytes mm' = free_bytes mm - busy_bytes mm n)"
  by (rule mm_reserve_result [OF assms])

section \<open>Every history\<close>

text \<open>
  C14: after any sequence of calls, with any library of trees: the nodes are inside the range and apart from each other, and
  the holes on the stack are exactly what is left of the range.
\<close>

theorem mm_history_layout:
  assumes "rb_laws rb" and "mm_reach rb mm"
  shows "free_bytes mm = range_bytes mm - (\<Union>m\<in>set (node_list mm). busy_bytes mm m) \<and>
    (\<forall>m\<in>set (node_list mm). busy_bytes mm m \<subseteq> range_bytes mm \<and> busy_bytes mm m \<noteq> {}) \<and>
    pairwise (\<lambda>m k. busy_bytes mm m \<inter> busy_bytes mm k = {}) (set (node_list mm))"
proof -
  have w: "mm_wf mm" by (rule reach_wf [OF assms])
  have "busy_bytes mm m \<noteq> {}" if "m \<in> set (node_list mm)" for m
    using laid_bounds [of "mm_node mm" 0 "node_list mm" "st_of (mm_node mm) 0"] w that
    by (fastforce simp: mm_wf_def row_Cons placed_node_def busy_bytes_def)
  then show ?thesis using wf_bytes [OF w] by (auto simp: pairwise_def)
qed

section \<open>Eviction\<close>

text \<open>
  C16: going over the roster of \<open>drm_mm_scan_add_block\<close> in reverse with \<open>drm_mm_scan_remove_block\<close> restores the allocator, with every callback
  and wherever the scan stopped: but for the saved links of the scan nothing is left of it, and the nodes
  reported are those that overlap the place that was found.
\<close>

theorem mm_scan_restores:
  assumes "distinct (0 # node_list mm)" and "distinct ns" and "set ns \<subseteq> set (node_list mm)" and "\<forall>m\<in>set ns. \<not> scanned_bit (mm_node mm m)"
    and "scan_blocks col scan mm ns [] = (mm1, scan1, roster, found)"
  shows "restore_blocks scan1 mm1 roster =
    Some (mm\<lparr>scan_links := scan_links mm1\<rparr>, filter (\<lambda>m. in_the_way scan1 (mm_node mm m)) roster)"
  by (rule scan_restores [OF assms])

text \<open>
  C15: the roster, \<open>drm_mm_remove_node\<close> and \<open>drm_mm_insert_node_in_range\<close> together: when \<open>drm_mm_scan_add_block\<close> has found a
  hole, then after the nodes are put back and those reported are removed, a node of the size, alignment and range of the
  scan is inserted, whatever the mode of the scan.
\<close>

theorem mm_scan_makes_room:
  assumes rb: "rb_laws rb" and wf: "mm_wf mm" and ns: "distinct ns" "set ns \<subseteq> set (node_list mm)" "\<forall>m\<in>set ns. \<not> scanned_bit (mm_node mm m)"
    and n: "n \<notin> set (0 # node_list mm)" and sz: "0 < unat sz"
    and s: "scan_blocks None (drm_mm_scan_init_with_range sz al c rs re mode) mm ns [] = (mm1, scan1, roster, True)"
  shows "\<exists>mm2 evict mm3. restore_blocks scan1 mm1 roster = Some (mm2, evict) \<and> set evict \<subseteq> set ns \<and>
    drm_mm_insert_node_in_range rb None (remove_blocks rb mm2 evict) n sz al c rs re DRM_MM_INSERT_EVICT = Some (mm3, Inr ())"
proof -
  let ?sc = "drm_mm_scan_init_with_range sz al c rs re mode" and ?mm = "mm\<lparr>scan_links := scan_links mm1\<rparr>"
  have sc: "scan_ready ?sc" using sz by (simp add: scan_ready_def drm_mm_scan_init_with_range_def Let_def)
  obtain us vs where u: "ns = us @ vs" "roster = rev us @ []" "scan_size scan1 = scan_size ?sc" "scan_alignment scan1 = scan_alignment ?sc"
    "scan_range_start scan1 = scan_range_start ?sc" "scan_range_end scan1 = scan_range_end ?sc" "hit_ok mm scan1 roster"
    using blocks_scanned [of None ?sc "[]" mm ns mm1 scan1 roster True] s wf sc ns by auto
  define ev where "ev = filter (\<lambda>m. in_the_way scan1 (mm_node mm m)) roster"
  have d: "distinct (0 # node_list mm)" using wf by (simp add: mm_wf_def)
  have re: "restore_blocks scan1 mm1 roster = Some (?mm, ev)" unfolding ev_def by (rule scan_restores [OF d ns s])
  have ev: "distinct ev" "set ev \<subseteq> set ns" "set ev \<subseteq> set (node_list ?mm)" using u(1,2) ns by (auto simp: ev_def)
  note e = blocks_removed [OF rb wf_links [OF wf, of "scan_links mm1"] ev(1,3)]
  let ?mm3 = "remove_blocks rb ?mm ev"
  have "hit_bytes scan1 \<subseteq> free_bytes ?mm3"
    using hit_covered [OF wf u(7)] e by (fastforce simp: ev_def)
  moreover have "hit_bytes scan1 \<subseteq> {unat rs..<unat re}" "hit_bytes scan1 = {unat (hit_start scan1)..<unat (hit_start scan1) + unat sz}"
    "al \<le> 1 \<or> unat al dvd unat (hit_start scan1)"
    using u(3-7) by (auto simp: hit_ok_def hit_bytes_def drm_mm_scan_init_with_range_def Let_def split: if_splits)
  ultimately have room: "0 < unat sz \<and> (\<exists>t. {t..<t + unat sz} \<subseteq> free_bytes ?mm3 \<inter> {unat rs..<unat re} \<and> (al \<le> 1 \<or> unat al dvd t))"
    using sz by (metis Int_subset_iff)
  have "mm_wf ?mm3" "n \<notin> set (0 # node_list ?mm3)" using e n by auto
  then have "\<exists>mm3. drm_mm_insert_node_in_range rb None ?mm3 n sz al c rs re DRM_MM_INSERT_EVICT = Some (mm3, Inr ())"
    using insert_finds [OF rb] room by blast
  then show ?thesis using re ev(2) by blast
qed

section \<open>A hole that is not found\<close>

text \<open>
  C18: with every library of trees that keeps three nodes balanced, as red-black trees do: in a range of 1000 with nodes
  at 100, of size 10, and at 200, of size 790, \<open>drm_mm_insert_node_in_range\<close> in the mode \<open>DRM_MM_INSERT_LOW\<close> does not find room
  for 100 bytes, though the first 100 are free and the mode \<open>DRM_MM_INSERT_BEST\<close> finds them. The turn that makes
  node 1 the root leaves its largest hole below at its own 90.
\<close>

theorem mm_low_misses_hole:
  assumes rb: "rb_laws rb" and bal: "\<forall>n t. size t = 3 \<longrightarrow> height (rb_insert_color rb n t) \<le> 2"
  shows "\<exists>mm1 mm2. drm_mm_reserve_node rb None (drm_mm_init rb two_nodes 0 1000) 1 = (mm1, Inr ()) \<and>
    drm_mm_reserve_node rb None mm1 2 = (mm2, Inr ()) \<and> {0..<100} \<subseteq> free_bytes mm2 \<and>
    drm_mm_insert_node_in_range rb None mm2 3 100 0 0 0 1000 DRM_MM_INSERT_LOW = Some (mm2, Inl ENOSPC) \<and>
    (\<exists>mm3. drm_mm_insert_node_in_range rb None mm2 3 100 0 0 0 1000 DRM_MM_INSERT_BEST = Some (mm3, Inr ()))"
proof -
  obtain mm1 r1 where r1: "drm_mm_reserve_node rb None (drm_mm_init rb two_nodes 0 1000) 1 = (mm1, r1)" by (metis prod.collapse)
  note a = first_reserved [OF rb r1]
  obtain mm2 r2 where r2: "drm_mm_reserve_node rb None mm1 2 = (mm2, r2)" by (metis prod.collapse)
  note b = second_reserved [OF rb a(2-6) r2]
  obtain X where X: "mm2 = add_hole rb 2 (add_hole rb 1 X)" using second_occupies [OF a(2-4,7,8,6) r2 [unfolded b(1)]] by blast
  have "subtree_max_hole (mm_node (add_hole rb 1 X) 1) = 90"
    using b(5) unfolding X by (simp add: add_hole_max(1,2))
  then have m: "subtree_max_hole (mm_node mm2 1) = 90" using add_hole_max(3) [of 1 2 rb "add_hole rb 1 X"] b(6) unfolding X by simp
  obtain t where t: "holes_addr mm2 = rb_insert_color rb 2 t" unfolding X using add_hole_max(4) by blast
  then have "holes_in t = [0, 1, 2]" using rb b(7) by (simp add: rb_laws_def)
  then have "size t = 3" by (metis holes_in_def length_inorder length_map length_Cons list.size(3) numeral_3_eq_3)
  then have "height (holes_addr mm2) \<le> 2" using bal t by simp
  then obtain l x r where "holes_addr mm2 = \<langle>l, (1, x), r\<rangle>" using three_tree [OF b(7)] by blast
  then have "usable_hole_addr (mm_node mm2) 100 (holes_addr mm2) = False" using m by (simp add: word_le_nat_alt)
  note low = low_search_misses [OF this, of rb None 3 0 0 0 1000]
  have n: "3 \<notin> set (0 # node_list mm2)" using b(3) by simp
  have "{0..<0 + unat (100 :: u64)} \<subseteq> free_bytes mm2 \<inter> {unat (0 :: u64)..<unat (1000 :: u64)}" unfolding b(4) by auto
  then have "0 < unat (100 :: u64) \<and> (\<exists>t. {t..<t + unat (100 :: u64)} \<subseteq> free_bytes mm2 \<inter> {unat (0 :: u64)..<unat (1000 :: u64)} \<and>
      ((0 :: u64) \<le> 1 \<or> unat (0 :: u64) dvd t))" by (intro conjI exI [of _ 0]) simp_all
  then have best: "\<exists>mm3. drm_mm_insert_node_in_range rb None mm2 3 100 0 0 0 1000 DRM_MM_INSERT_BEST = Some (mm3, Inr ())"
    by (rule insert_finds [OF rb b(2) n disjI1 [OF refl], THEN iffD2])
  have "{0..<100} \<subseteq> free_bytes mm2" unfolding b(4) by blast
  then show ?thesis using r1 [unfolded a(1)] r2 [unfolded b(1)] low best by blast
qed

section \<open>Witnesses\<close>

text \<open>A library that keeps the laws: it balances three nodes, and joins what an erased node leaves.\<close>

fun join_trees :: "rb_tree \<Rightarrow> rb_tree \<Rightarrow> rb_tree" where
  "join_trees \<langle>\<rangle> t = t"
| "join_trees \<langle>l, a, r\<rangle> t = \<langle>l, a, join_trees r t\<rangle>"

fun erase_node :: "nat \<Rightarrow> rb_tree \<Rightarrow> rb_tree" where
  "erase_node n \<langle>\<rangle> = \<langle>\<rangle>"
| "erase_node n \<langle>l, a, r\<rangle> = (if fst a = n then join_trees l r else \<langle>erase_node n l, a, erase_node n r\<rangle>)"

definition balance_three :: "rb_tree \<Rightarrow> rb_tree" where
  "balance_three t = (case inorder t of [a, b, c] \<Rightarrow> \<langle>\<langle>\<langle>\<rangle>, a, \<langle>\<rangle>\<rangle>, b, \<langle>\<langle>\<rangle>, c, \<langle>\<rangle>\<rangle>\<rangle> | _ \<Rightarrow> t)"

definition sample_rb :: rb_ops where
  "sample_rb = \<lparr>rb_insert_color = (\<lambda>_. balance_three), rb_erase = erase_node\<rparr>"

lemma holes_in_join: "holes_in (join_trees s t) = holes_in s @ holes_in t"
  by (induction s) simp_all

lemma holes_in_erase: "distinct (holes_in t) \<Longrightarrow> holes_in (erase_node n t) = filter (\<lambda>m. m \<noteq> n) (holes_in t)"
proof (induction t)
  case (Node l a r)
  have "m \<noteq> n" if "fst a = n" "m \<in> set (holes_in l @ holes_in r)" for m using Node.prems that by auto
  then have "filter (\<lambda>m. m \<noteq> n) (holes_in l @ holes_in r) = holes_in l @ holes_in r" if "fst a = n" using that by (intro filter_True) blast
  then show ?case using Node by (cases "fst a = n") (simp_all add: holes_in_join)
qed simp

lemma sample_laws: "rb_laws sample_rb"
proof -
  have "holes_in (balance_three t) = holes_in t" for t by (simp add: holes_in_def balance_three_def split: list.split)
  then show ?thesis by (simp add: rb_laws_def sample_rb_def holes_in_erase)
qed

lemma sample_balances: "\<forall>n t. size t = 3 \<longrightarrow> height (rb_insert_color sample_rb n t) \<le> 2"
proof (intro allI impI)
  fix n and t :: rb_tree
  assume "size t = 3"
  then have "length (inorder t) = Suc (Suc (Suc 0))" by simp
  moreover have "\<exists>a b c. xs = [a, b, c]" if "length xs = Suc (Suc (Suc 0))" for xs :: "(nat \<times> bool) list"
    using that by (auto simp: length_Suc_conv)
  ultimately obtain a b c where "inorder t = [a, b, c]" by blast
  then show "height (rb_insert_color sample_rb n t) \<le> 2" by (simp add: sample_rb_def balance_three_def)
qed

definition sample_mm :: drm_mm where
  "sample_mm = drm_mm_init sample_rb ((\<lambda>_. zero_node)(1 := zero_node\<lparr>mn_size := 1000\<rparr>)) 0 1000"

lemma sample_mm_wf: "mm_wf sample_mm" "node_list sample_mm = []" "1 \<notin> set (0 # node_list sample_mm)"
  using mm_init_keeps [OF sample_laws, of 1000 0] by (simp_all add: sample_mm_def)

theorem mm_insert_correct_witness:
  "\<exists>mm' r. drm_mm_insert_node_in_range sample_rb None sample_mm 1 100 8 0 0 1000 DRM_MM_INSERT_HIGH = Some (mm', r) \<and>
    (case r of Inl e \<Rightarrow> e = ENOSPC | Inr _ \<Rightarrow> mm_wf mm' \<and> set (node_list mm') = {1} \<and> 8 dvd unat (mn_start (mm_node mm' 1)))"
  using mm_insert_correct [OF sample_laws sample_mm_wf(1,3) no_callback(1), of 100 8 0 0 1000 DRM_MM_INSERT_HIGH] sample_mm_wf(2)
  by (fastforce split: sum.splits simp: word_le_nat_alt)

theorem mm_insert_complete_witness:
  "\<exists>mm'. drm_mm_insert_node_in_range sample_rb None sample_mm 1 100 8 0 0 1000 DRM_MM_INSERT_BEST = Some (mm', Inr ())"
proof -
  have "range_bytes sample_mm = {0..<1000}"
    using mm_init_keeps(3,4) [OF sample_laws, of 1000 0] by (simp add: sample_mm_def range_bytes_def)
  then have f: "free_bytes sample_mm = {0..<1000}" using range_whole [OF sample_mm_wf(1)] sample_mm_wf(2) by simp
  then have "{0..<0 + unat (100 :: u64)} \<subseteq> free_bytes sample_mm \<inter> {unat (0 :: u64)..<unat (1000 :: u64)}" by auto
  then have "0 < unat (100 :: u64) \<and> (\<exists>t. {t..<t + unat (100 :: u64)} \<subseteq> free_bytes sample_mm \<inter> {unat (0 :: u64)..<unat (1000 :: u64)} \<and>
      ((8 :: u64) \<le> 1 \<or> unat (8 :: u64) dvd t))" by (intro conjI exI [of _ 0]) simp_all
  then show ?thesis by (rule mm_insert_complete [OF sample_laws sample_mm_wf(1,3) disjI1 [OF refl], THEN iffD2])
qed

text \<open>Node 1 takes the whole range.\<close>

definition full_mm :: drm_mm where
  "full_mm = fst (drm_mm_reserve_node sample_rb None sample_mm 1)"

lemma full_reserved: "drm_mm_reserve_node sample_rb None sample_mm 1 = (full_mm, Inr ())"
proof -
  have "snd (drm_mm_reserve_node sample_rb None sample_mm 1) = Inr ()" by code_simp
  then show ?thesis unfolding full_mm_def by (metis prod.collapse)
qed

theorem mm_reserve_correct_witness:
  "mm_wf full_mm \<and> set (node_list full_mm) = {1} \<and> free_bytes full_mm = free_bytes sample_mm - busy_bytes sample_mm 1"
  using mm_reserve_correct [OF sample_laws sample_mm_wf(1,3) full_reserved] sample_mm_wf(2) by simp

lemma full_mm_wf: "mm_wf full_mm" "node_list full_mm = [1]" "mm_reach sample_rb full_mm" "\<not> scanned_bit (mm_node full_mm 1)"
proof -
  have "set (node_list full_mm) = {1}" using mm_reserve_result [OF sample_laws sample_mm_wf(1,3) full_reserved] sample_mm_wf(2) by simp
  moreover show w: "mm_wf full_mm" using mm_reserve_result [OF sample_laws sample_mm_wf(1,3) full_reserved] by simp
  ultimately show "node_list full_mm = [1]" using one_list [of "node_list full_mm" 1] by (simp add: mm_wf_def)
  have "mm_reach sample_rb sample_mm" unfolding sample_mm_def by (rule mm_start) simp_all
  then show "mm_reach sample_rb full_mm" using mm_reserve [OF _ sample_mm_wf(3) full_reserved] by blast
  show "\<not> scanned_bit (mm_node full_mm 1)" by code_simp
qed

theorem mm_history_layout_witness:
  "free_bytes full_mm = range_bytes full_mm - busy_bytes full_mm 1 \<and> busy_bytes full_mm 1 \<subseteq> range_bytes full_mm"
  using mm_history_layout [OF sample_laws full_mm_wf(3)] full_mm_wf(2) by simp

definition full_scan :: "drm_mm \<times> drm_mm_scan \<times> nat list \<times> bool" where
  "full_scan = scan_blocks None (drm_mm_scan_init_with_range 100 8 0 0 1000 DRM_MM_INSERT_BEST) full_mm [1] []"

lemma full_scan_found:
  "scan_blocks None (drm_mm_scan_init_with_range 100 8 0 0 1000 DRM_MM_INSERT_BEST) full_mm [1] [] =
    (fst full_scan, fst (snd full_scan), [1], True)"
proof -
  have "snd (snd full_scan) = ([1], True)" by code_simp
  then show ?thesis unfolding full_scan_def by (metis prod.collapse)
qed

theorem mm_scan_restores_witness:
  "restore_blocks (fst (snd full_scan)) (fst full_scan) [1] =
    Some (full_mm\<lparr>scan_links := scan_links (fst full_scan)\<rparr>, filter (\<lambda>m. in_the_way (fst (snd full_scan)) (mm_node full_mm m)) [1])"
  by (rule mm_scan_restores [OF _ _ _ _ full_scan_found]) (use full_mm_wf in simp_all)

theorem mm_scan_makes_room_witness:
  "\<exists>mm2 evict mm3. restore_blocks (fst (snd full_scan)) (fst full_scan) [1] = Some (mm2, evict) \<and> set evict \<subseteq> set [1] \<and>
    drm_mm_insert_node_in_range sample_rb None (remove_blocks sample_rb mm2 evict) 2 100 8 0 0 1000 DRM_MM_INSERT_EVICT = Some (mm3, Inr ())"
  by (rule mm_scan_makes_room [OF sample_laws full_mm_wf(1) _ _ _ _ _ full_scan_found]) (use full_mm_wf in simp_all)

theorem mm_low_misses_hole_witness:
  "\<exists>mm1 mm2. drm_mm_reserve_node sample_rb None mm1 2 = (mm2, Inr ()) \<and> {0..<100} \<subseteq> free_bytes mm2 \<and>
    drm_mm_insert_node_in_range sample_rb None mm2 3 100 0 0 0 1000 DRM_MM_INSERT_LOW = Some (mm2, Inl ENOSPC)"
  using mm_low_misses_hole [OF sample_laws sample_balances] by blast

end
