(* ===== verification/Spec2Isabelle.thy ===== *)
theory Spec2Isabelle
  imports Rect Infoframe_Props Sideband_Xfer_Props Sideband_Req_Props Sideband_Reply_Props Sideband_Queue_Props Mst_Topology_Props
    Mst_Payload_Props Buddy_Props Ttm_Buddy_Props Mm_Props
begin

text \<open>
  The repository is the graphics stack of FreeBSD: the DRM core, the display helpers and the drivers of
  Linux, with the glue that lets the FreeBSD kernel load them. Most of its lines program hardware or are
  generated register tables. This development models, as executable definitions, the parts whose logic is
  their own, and proves what they promise and where they break the promise.

  The parts, and how they hang together.

    \<^item> Packing for the wire. HDMI infoframes (\<open>drivers/video/hdmi.c\<close>) and the messages of DisplayPort
      multi-stream transport (\<open>drivers/gpu/drm/display/drm_dp_mst_topology.c\<close>) are turned from structures
      into bytes and back. Both formats carry a check.
    \<^item> DisplayPort multi-stream transport, MST. A source queues requests; a worker cuts each into chunks
      and writes them over the AUX channel (\<open>drm_dp_helper.c\<close>) into the registers of the branch device; an
      interrupt handler reads the chunks of the reply, puts them together, parses the reply and hands it to
      the request it answers. From replies the topology of branches and ports is built. On the topology an
      atomic update asks for payloads, which a commit programs into the payload table.
    \<^item> Rectangles (\<open>drivers/gpu/drm/drm_rect.c\<close>), with which planes are clipped, scaled and rotated.
    \<^item> Video memory: the buddy allocator (\<open>drivers/gpu/drm/drm_buddy.c\<close>), and the memory manager of the i915
      driver on top of it (\<open>drivers/gpu/drm/i915/i915_ttm_buddy_manager.c\<close>), which turns the wish of a
      buffer object into requests for blocks.
    \<^item> Ranges of addresses: \<open>drivers/gpu/drm/drm_mm.c\<close>, with which drivers place nodes in an address space and choose
      which to evict when there is no room.

  Conventions. A C integer of w bits is a word of w bits, so that arithmetic wraps as it does in the
  kernel, which is compiled with wrapping; \<open>int\<close> is an integer with \<open>wrap32\<close> where it may overflow. A
  structure is a record, a tagged union a datatype, a buffer a list of bytes. Errors are values of a sum
  or an \<open>option\<close>: a negative errno is a value that the code returns; \<open>Oob\<close> is an access outside a buffer, and
  \<open>None\<close> is what else the code does not define or survive (a null pointer, a division by zero, a shift too far,
  a failed assertion, a loop that does not end).
  Locks are taken as given: an operation under a lock is one step. Debug output is left out. What is
  outside the repository or is supplied by a caller is an argument of the definition that uses it: the
  transfer routine of the driver, whether memory can be had, what the atomic framework looks up.
\<close>

section \<open>The theories\<close>

text \<open>
  \<open>Prelude\<close> holds the integer types, the results and errors, reading and writing of buffers with their
  bounds, and the facts on words, bits and lists that the others share. \<open>Codec\<close> is the interface of an
  encoder and its decoder, with and without a check. \<open>Kernel_Bits\<close> has the arithmetic of powers of two of the kernel.

  \<^item> \<open>Rect\<close>: every function of \<open>drm_rect.c\<close>. Intersection covers exactly the common pixels; scaled clipping
    clips the destination to the clip rectangle and cuts the source in proportion, up or down to a whole
    unit as it is enlarged or shrunk, with the bounds on coordinates under which no word wraps; scale
    factors; rotation and its inverse.
  \<^item> \<open>Infoframe\<close>, \<open>Infoframe_Props\<close>: initialising, checking, packing and unpacking each kind of frame and the
    dispatch over them. Every packed frame fits, names its type and length and adds up to zero; unpacking
    gives the frame back, the channel count of audio frames apart, which the code gets wrong.
  \<^item> \<open>Sideband_Crc\<close>: \<open>drm_dp_msg_header_crc4\<close> and \<open>drm_dp_msg_data_crc4\<close>, loop by loop, shown equal to the remainder of
    division of polynomials, from which linearity and the bursts they detect follow.
  \<^item> \<open>Sideband_Hdr\<close>: size, encoding and decoding of chunk headers, with their round trip and the bursts a receiver notices.
  \<^item> \<open>Aux_Channel\<close>: \<open>drm_dp_dpcd_access\<close> and what is built on it, for any transfer routine; a model of a
    conforming sink behind one, with every failure scripted; and the locales \<open>dpcd\<close> and \<open>reliable_dpcd\<close>, the
    laws of register access that the users of the channel rely on, interpreted on that sink.
  \<^item> \<open>Sideband_Xfer\<close>, \<open>Sideband_Xfer_Props\<close>: \<open>process_single_tx_qlock\<close>, \<open>build_chunk\<close> and what sends a chunk;
    \<open>drm_dp_get_one_sb_msg\<close> and what puts a message together. A queued message arrives byte for byte; sending
    ends whatever the sink does; what the receiver does not check.
  \<^item> \<open>Sideband_Req\<close>, \<open>Sideband_Reply\<close> and their properties: requests and replies as datatypes, encoders, the
    \<open>build_*\<close> routines and parsers. The round trip of requests, parsing of a link address reply as the standard
    lays it out, replies that make a parser leave the message, and replies built from received bytes only.
  \<^item> \<open>Sideband_Queue\<close>, \<open>Sideband_Queue_Props\<close>: the queue of requests as a step relation of four tasks. Rule
    induction gives the order of the queue for all interleavings, and the match of replies; a schedule shows
    the race of the reply handler with a waiter that gives up.
  \<^item> \<open>Mst_Topology\<close>, \<open>Mst_Topology_Props\<close>: the tree of branches and ports, relative addresses, the lookups, and
    \<open>drm_dp_send_link_address\<close> with the handling of each port of the reply, which sends the request on to the
    branches below. What the sinks answer is a function of the position of a request (\<open>la_env\<close>). A branch is found
    by its address; a request with all that follow it returns and keeps the tree well formed.
  \<^item> \<open>Mst_Payload\<close>: the state of an update as the record \<open>topology_state\<close>, its payloads, and of the manager what
    counts the payload table. Finding and releasing time slots, copying the state for the next update, the
    checks of slots (\<open>drm_dp_mst_atomic_check_payload_alloc_limits\<close>) and bandwidth, and the programming of the
    table. \<open>Mst_Payload_Ids\<close> has the facts on the identifiers and the check of slots, \<open>Mst_Payload_Table\<close> the
    invariant of the table, a chain of payloads without gap or overlap, \<open>Mst_Payload_Bw\<close> the meaning of the bandwidth
    check on the tree of the topology: when exactly it accepts, and with which errors it refuses. \<open>Mst_Payload_Props\<close> has
    the bandwidth of a mode, measured against the sixteenths of a bit that the documentation gives compressed modes, and
    the histories: \<open>updated\<close> is what updates lead to, \<open>programmed\<close> what updates and commits lead to, with a flag
    for a state that has been checked since it was last changed.
  \<^item> \<open>Buddy\<close>: the allocator, with its blocks in a memory of addresses, headers as packed words and free lists as the
    code orders them. \<open>Buddy_Bits\<close>, \<open>Buddy_Inv\<close>, \<open>Buddy_Steps\<close> give the invariant and its primitive changes;
    \<open>Buddy_Free\<close>, \<open>Buddy_Walk\<close>, \<open>Buddy_Range\<close>, \<open>Buddy_Pick\<close>, \<open>Buddy_Alloc\<close>, \<open>Buddy_Trim\<close>, \<open>Buddy_Root\<close> and \<open>Buddy_Init\<close>
    each prove one operation; \<open>Buddy_Calls\<close> puts them together. \<open>Buddy_Client\<close> is the specification, bytes owned by
    handles, with the simulation; \<open>Buddy_Runs\<close> the contract as a locale and all histories of calls. The locale of the
    pickers has two interpretations, the search in a range and the free lists.
  \<^item> \<open>Ttm_Buddy\<close>: the manager of the i915 driver. \<open>Ttm_Buddy_Inv\<close> is its account, in two strengths: \<open>bman_sound\<close> (who
    holds which block, and the usage), which every call keeps, and \<open>bman_ok\<close>, in which the counts of pages are right as well,
    which the calls keep except for the contiguous requests that are not cut (\<open>uncut\<close>) and refused reservations. \<open>Ttm_Buddy_Alloc\<close> and
    \<open>Ttm_Buddy_Given\<close> what a resource is granted, \<open>Ttm_Buddy_Calls\<close> and \<open>Ttm_Buddy_Rest\<close> the calls, proved from the
    facts of \<open>Buddy_Calls\<close>, and \<open>Ttm_Buddy_Props\<close> the properties over histories.
  \<^item> \<open>Mm\<close>: the range allocator, compiled for FreeBSD: nodes in the order of their addresses, each with the hole behind it,
    and the holes on a stack and in two search trees. The library of red-black trees is an argument, \<open>rb_ops\<close>, with \<open>rb_laws\<close>
    (an insertion keeps the order of the nodes, an erasure takes one node out) as the hypothesis of the theorems. \<open>Mm_Tree\<close> has the facts on the
    trees, \<open>Mm_Inv\<close> the invariant \<open>mm_wf\<close>, \<open>Mm_Ops\<close> that the operations keep it, \<open>Mm_Search\<close> the place found in a hole and,
    with the locale \<open>hole_order\<close> and an interpretation for each of the four modes, that every search ends. \<open>Mm_Layout\<close> says what is
    free and what is used, in bytes; \<open>Mm_Calls\<close> what each call returns, and all histories of calls. \<open>Mm_Scan\<close> is the roster for
    eviction, \<open>Mm_Stale\<close> the field the trees do not keep up to date, and \<open>Mm_Props\<close> the properties.
\<close>

section \<open>Bounds, loops and what ends\<close>

text \<open>
  Loops of the code with a bound keep it: 32 tries of a transfer, five tries of a chunk, 20 reads of the status
  of the payload table. Other loops are recursive functions with a measure, or, where the code alone does
  not say that they end (walking up pointers, merging buddies, searching the trees), \<open>partial_function\<close>s in
  \<open>option\<close> where \<open>None\<close> is a run that does not end or breaks; the theorems then state that the result is \<open>Some\<close>. The
  slab of the buddy allocator hands out fresh addresses as long as it has memory (\<open>slab_ok\<close>); most properties assume that
  it has (\<open>plenty\<close>), and one shows what happens when it has not. Requests to the allocator are below \<open>2 ^ 32\<close> chunks; beyond
  that an assertion fails, which is one of the properties. The identifiers of payloads are unique for up to 32
  payloads, as many as the mask has bits. The bandwidth check needs that the pointers upwards agree with the
  tree and that a branch has at most 256 ports (port numbers are bytes), so that the sum of 16-bit limits cannot
  overflow. The payload table needs that payloads are added to a state whose check of slots has succeeded, after those it
  releases have been removed, and that the number of slots of a payload in the table is not changed before it is removed. The
  recursion over branches that link address requests are sent to carries a bound on the depth; 16 is enough, because a
  branching device more than 15 links down is excluded. In the range allocator a search over holes ends
  because each step goes on in one of four orders of the holes; the range it manages is not empty and ends below \<open>2 ^ 64\<close>. A
  callback of the driver may make a hole smaller, never larger (\<open>color_shrinks\<close>).
\<close>

section \<open>What the code gets wrong\<close>

text \<open>
  Proved here, each as a property: the channel count of an unpacked audio frame; the no-stop bit of an I2C read; lengths of
  received chunks and replies that are not checked; the race of the reply handler; the buddy allocator
  without memory for blocks and for requests of a multiple of \<open>2 ^ 32\<close> chunks;
  the account of the i915 manager after a refused reservation and after a contiguous request whose rounded size fills the
  range, and such a request granted beyond the last page of its place; removing a payload whose slots the update has changed; the bandwidth of a compressed mode, which loses the
  sixteenths of a bit; and the search of the range allocator from one end, which on FreeBSD trusts a field that balancing the tree
  leaves stale. Some more have a theorem that is not among the numbered properties: a wrong data check of a chunk, which is
  printed and ignored, a failed search in a range of the buddy allocator, which on an example leaves blocks split, and releasing the payload of a sink without bandwidth.
\<close>

section \<open>Not modelled\<close>

text \<open>
  \<^item> Of MST: reference counts and delayed destruction of ports and branches, the probing work and the
    notifications that start it, I2C over MST, the tracking of CRTC commits, the dumps for debugging.
  \<^item> Of the AUX channel: link training, I2C over AUX, the remote branch of register access, the quirk lists.
  \<^item> Of the range allocator: the tree of intervals behind \<open>drm_mm_for_each_node_in_range\<close>, which a macro of the tree library
    generates, and the dumps for debugging.
  \<^item> Modes, EDID, connectors, atomic state, framebuffers, files, ioctls, GEM and prime objects: interfaces to
    user space and lifetimes, which rest on the kernel.
  \<^item> dma-buf, fences, reservation objects, the scheduler and TTM: concurrency on the memory model and the page
    layer of the kernel, which are not in the repository. Of TTM the two routines that count usage are in \<open>Ttm_Buddy\<close>.
  \<^item> The drivers (amdgpu, i915, radeon) and the FreeBSD glue: programming of hardware, tables, adapters.
\<close>

end
